(* ===== verification/Prelude.thy ===== *)
theory Prelude
  imports Main "HOL-Library.Word"
begin

section \<open>Shared types, error values and byte-array lemmas\<close>

text \<open>
  What every component of the development shares: the machine types, the error numbers the
  code returns, byte arrays as lists with the two accesses the C code makes of them
  (\<^verbatim>\<open>memcpy\<close> out of and \<^verbatim>\<open>memcpy\<close> into a buffer), and lemmas on exclusive or over \<^typ>\<open>nat\<close>,
  which the Reed-Solomon codec uses for its sixteen-bit symbols.
\<close>

unbundle bit_operations_syntax

type_synonym byte = "8 word"
type_synonym u16 = "16 word"
type_synonym u32 = "32 word"
type_synonym u64 = "64 word"

text \<open>The negative returns of the code, without their sign.\<close>

datatype errno =
    EIO | ENOMEM | EEXIST | EINVAL | ENOSPC | EMLINK | ENAMETOOLONG | ENOTEMPTY | EBADMSG
  | EOPNOTSUPP | ESTALE | EUCLEAN | ENOENT | EROFS | EFBIG | ECHILD

text \<open>The kernel's numbers, for code that compares return values.\<close>

primrec errno_code :: "errno \<Rightarrow> int" where
  "errno_code EIO = 5"
| "errno_code ENOMEM = 12"
| "errno_code EEXIST = 17"
| "errno_code EINVAL = 22"
| "errno_code ENOSPC = 28"
| "errno_code EMLINK = 31"
| "errno_code ENAMETOOLONG = 36"
| "errno_code ENOTEMPTY = 39"
| "errno_code EBADMSG = 74"
| "errno_code EOPNOTSUPP = 95"
| "errno_code ESTALE = 116"
| "errno_code EUCLEAN = 117"
| "errno_code ENOENT = 2"
| "errno_code EROFS = 30"
| "errno_code EFBIG = 27"
| "errno_code ECHILD = 10"

named_theorems buf_simps \<open>reading and writing pieces of a buffer\<close>
named_theorems xor_simps \<open>exclusive or on natural numbers\<close>

subsection \<open>Exclusive or on natural numbers\<close>

lemma nat_and_exp_iff: "(a AND push_bit n 1 \<noteq> 0) = bit (a::nat) n"
  by (metis and_exp_eq_0_iff_not_bit push_bit_of_1)

lemma bit_255_iff: "bit (255::nat) n = (n < 8)"
  using bit_mask_iff [of 8 n, where 'a = nat] by (simp add: mask_eq_exp_minus_1)

lemma bit_shl1_iff: "bit (push_bit 1 a) n = (0 < n \<and> bit (a::nat) (n - 1))"
  by (simp only: bit_push_bit_iff_nat) (cases n; simp)

lemma less_256_bit_iff: "a < 256 \<longleftrightarrow> (\<forall>n. bit (a::nat) n \<longrightarrow> n < 8)"
proof -
  have "a < 256 \<longleftrightarrow> take_bit 8 a = a"
    by (simp add: take_bit_nat_eq_self_iff)
  also have "\<dots> \<longleftrightarrow> (\<forall>n. bit a n \<longrightarrow> n < 8)"
    by (auto simp: bit_eq_iff bit_take_bit_iff)
  finally show ?thesis .
qed

lemma xor_less_256: "a < 256 \<Longrightarrow> b < 256 \<Longrightarrow> a XOR b < (256::nat)"
  by (auto simp: less_256_bit_iff bit_xor_iff)

lemma xor_nat_self [simp, xor_simps]: "(a::nat) XOR a = 0"
  by (rule bit_eqI) (simp add: bit_xor_iff)

lemma xor_nat_cancel [simp, xor_simps]: "((a::nat) XOR b) XOR b = a"
  by (simp add: xor.assoc)

lemma xor_nat_eq_0 [xor_simps]: "(a::nat) XOR b = 0 \<longleftrightarrow> a = b"
proof
  assume z: "a XOR b = 0"
  have "a = (a XOR b) XOR b" by simp
  also have "\<dots> = b" unfolding z by simp
  finally show "a = b" .
qed simp

subsection \<open>Pieces of a buffer\<close>

text \<open>\<open>get_bytes off len buf\<close> is what \<^verbatim>\<open>memcpy(dst, buf + off, len)\<close> reads, and
  \<open>put_bytes off src buf\<close> the buffer after \<^verbatim>\<open>memcpy(buf + off, src, length src)\<close>.\<close>

definition get_bytes :: "nat \<Rightarrow> nat \<Rightarrow> 'a list \<Rightarrow> 'a list" where
  "get_bytes off len buf = take len (drop off buf)"

definition put_bytes :: "nat \<Rightarrow> 'a list \<Rightarrow> 'a list \<Rightarrow> 'a list" where
  "put_bytes off src buf = take off buf @ src @ drop (off + length src) buf"

lemma length_get_bytes [simp, buf_simps]:
  "off + len \<le> length buf \<Longrightarrow> length (get_bytes off len buf) = len"
  by (simp add: get_bytes_def)

lemma length_put_bytes [simp, buf_simps]:
  "off + length src \<le> length buf \<Longrightarrow> length (put_bytes off src buf) = length buf"
  by (simp add: put_bytes_def)

lemma nth_get_bytes [buf_simps]:
  "off + len \<le> length buf \<Longrightarrow> i < len \<Longrightarrow> get_bytes off len buf ! i = buf ! (off + i)"
  by (simp add: get_bytes_def)

lemma nth_put_bytes [buf_simps]:
  "off + length src \<le> length buf \<Longrightarrow> i < length buf \<Longrightarrow>
   put_bytes off src buf ! i =
     (if off \<le> i \<and> i < off + length src then src ! (i - off) else buf ! i)"
  by (auto simp: put_bytes_def nth_append min_def)

lemma get_put_same [buf_simps]:
  "off + length src \<le> length buf \<Longrightarrow> get_bytes off (length src) (put_bytes off src buf) = src"
  by (simp add: get_bytes_def put_bytes_def)

lemma get_put_other [buf_simps]:
  assumes "off + length src \<le> length buf" "o2 + len \<le> length buf"
    and "o2 + len \<le> off \<or> off + length src \<le> o2"
  shows "get_bytes o2 len (put_bytes off src buf) = get_bytes o2 len buf"
  by (rule nth_equalityI) (use assms in \<open>auto simp: nth_get_bytes nth_put_bytes\<close>)

lemma put_get_same [buf_simps]:
  "off + len \<le> length buf \<Longrightarrow> put_bytes off (get_bytes off len buf) buf = buf"
  by (rule nth_equalityI) (auto simp: nth_put_bytes nth_get_bytes)

lemma get_get_bytes [buf_simps]:
  assumes "k + m \<le> n"
  shows "get_bytes k m (get_bytes off n buf) = get_bytes (off + k) m buf"
proof -
  have "min m (n - k) = m" using assms by linarith
  then show ?thesis by (simp add: get_bytes_def drop_take add.commute)
qed

lemma get_put_inside [buf_simps]:
  assumes "off \<le> k" "k + length x \<le> off + n" "off + n \<le> length buf"
  shows "get_bytes off n (put_bytes k x buf) = put_bytes (k - off) x (get_bytes off n buf)"
proof (rule nth_equalityI)
  fix i assume "i < length (get_bytes off n (put_bytes k x buf))"
  moreover have "off + i - k = i - (k - off)" using assms(1) by simp
  ultimately show "get_bytes off n (put_bytes k x buf) ! i = put_bytes (k - off) x (get_bytes off n buf) ! i"
    using assms by (auto simp: nth_get_bytes nth_put_bytes)
qed (use assms in simp)

lemma put_eq_iff:
  assumes "k + length x \<le> length buf"
  shows "put_bytes k x buf = buf \<longleftrightarrow> x = get_bytes k (length x) buf"
  using assms put_get_same [of k "length x" buf] get_put_same [of k x buf] by auto

lemma nth_map_upt_0 [simp]: "i < n \<Longrightarrow> map f [0..<n] ! i = f i"
  by simp

subsection \<open>Little-endian fields\<close>

text \<open>\<^verbatim>\<open>cpu_to_le16/32/64\<close> as the bytes of the field and \<^verbatim>\<open>le16/32/64_to_cpu\<close> back, and the
  reading and writing of such a field of a structure kept as its bytes.\<close>

definition cpu_to_le :: "nat \<Rightarrow> 'w::len word \<Rightarrow> byte list" where
  "cpu_to_le n w = map (\<lambda>i. ucast (drop_bit (8 * i) w)) [0..<n]"

definition le_to_cpu :: "byte list \<Rightarrow> 'w::len word" where
  "le_to_cpu bs = foldr (\<lambda>b acc. ucast b OR push_bit 8 acc) bs 0"

definition get_le16 :: "nat \<Rightarrow> byte list \<Rightarrow> u16" where
  "get_le16 off buf = le_to_cpu (get_bytes off 2 buf)"

definition get_le32 :: "nat \<Rightarrow> byte list \<Rightarrow> u32" where
  "get_le32 off buf = le_to_cpu (get_bytes off 4 buf)"

definition get_le64 :: "nat \<Rightarrow> byte list \<Rightarrow> u64" where
  "get_le64 off buf = le_to_cpu (get_bytes off 8 buf)"

definition put_le16 :: "nat \<Rightarrow> u16 \<Rightarrow> byte list \<Rightarrow> byte list" where
  "put_le16 off w = put_bytes off (cpu_to_le 2 w)"

definition put_le32 :: "nat \<Rightarrow> u32 \<Rightarrow> byte list \<Rightarrow> byte list" where
  "put_le32 off w = put_bytes off (cpu_to_le 4 w)"

definition put_le64 :: "nat \<Rightarrow> u64 \<Rightarrow> byte list \<Rightarrow> byte list" where
  "put_le64 off w = put_bytes off (cpu_to_le 8 w)"

lemma length_cpu_to_le [simp, buf_simps]: "length (cpu_to_le n w) = n"
  by (simp add: cpu_to_le_def)

lemma bit_le_to_cpu:
  "bit (le_to_cpu bs :: 'w::len word) k \<longleftrightarrow>
     k < LENGTH('w) \<and> k div 8 < length bs \<and> bit (bs ! (k div 8)) (k mod 8)"
proof (induction bs arbitrary: k)
  case Nil
  then show ?case by (simp add: le_to_cpu_def)
next
  case (Cons b bs)
  have IH: "bit (foldr (\<lambda>b acc. ucast b OR push_bit 8 acc) bs (0 :: 'w word)) m \<longleftrightarrow>
     m < LENGTH('w) \<and> m div 8 < length bs \<and> bit (bs ! (m div 8)) (m mod 8)" for m
    using Cons [of m] by (simp add: le_to_cpu_def)
  show ?case
  proof (cases "k < 8")
    case True
    then show ?thesis by (auto simp: le_to_cpu_def bit_simps)
  next
    case False
    then have "k div 8 = Suc ((k - 8) div 8)" "k mod 8 = (k - 8) mod 8"
      by (simp_all add: le_div_geq le_mod_geq)
    moreover have "\<not> bit b k" using False by (auto dest: bit_imp_le_length)
    ultimately show ?thesis using False IH [of "k - 8"] by (auto simp: le_to_cpu_def bit_simps)
  qed
qed

lemma le_roundtrip:
  assumes "LENGTH('w) \<le> 8 * n"
  shows "le_to_cpu (cpu_to_le n (w :: 'w::len word)) = w"
proof (rule bit_eqI)
  fix k assume "possible_bit TYPE('w word) k"
  then have k: "k < LENGTH('w)" by simp
  then have "k div 8 < n" using assms by linarith
  then show "bit (le_to_cpu (cpu_to_le n w) :: 'w word) k = bit w k"
    using k by (simp add: bit_le_to_cpu cpu_to_le_def bit_simps)
qed

lemma le_roundtrips [simp, buf_simps]:
  "le_to_cpu (cpu_to_le 2 (a :: u16)) = a" "le_to_cpu (cpu_to_le 4 (b :: u32)) = b"
  "le_to_cpu (cpu_to_le 8 (c :: u64)) = c"
  by (simp_all add: le_roundtrip)

lemma length_put_le [simp, buf_simps]:
  "off + 2 \<le> length buf \<Longrightarrow> length (put_le16 off a buf) = length buf"
  "off + 4 \<le> length buf \<Longrightarrow> length (put_le32 off b buf) = length buf"
  "off + 8 \<le> length buf \<Longrightarrow> length (put_le64 off c buf) = length buf"
  by (simp_all add: put_le16_def put_le32_def put_le64_def)

lemma get_put_le [simp, buf_simps]:
  "off + 2 \<le> length buf \<Longrightarrow> get_le16 off (put_le16 off a buf) = a"
  "off + 4 \<le> length buf \<Longrightarrow> get_le32 off (put_le32 off b buf) = b"
  "off + 8 \<le> length buf \<Longrightarrow> get_le64 off (put_le64 off c buf) = c"
  using get_put_same [of off "cpu_to_le 2 a" buf] get_put_same [of off "cpu_to_le 4 b" buf]
    get_put_same [of off "cpu_to_le 8 c" buf]
  by (simp_all add: get_le16_def put_le16_def get_le32_def put_le32_def get_le64_def put_le64_def)

end
