(* ===== verification/CRC32.thy ===== *)
theory CRC32
  imports Prelude
begin

section \<open>CRC-32 of the checker\<close>

text \<open>
  tools/fsck.beamfs/crc32.c and crc32.h: the table of \<^verbatim>\<open>crc32_init\<close>, the chainable
  \<^verbatim>\<open>crc32_internal\<close>, \<^verbatim>\<open>crc32\<close>, and the checksums of an inode and of the superblock. The
  lemmas show that the table-driven loop computes the bitwise CRC, and that no change
  confined to four consecutive bytes goes unnoticed.
\<close>

unbundle bit_operations_syntax

subsection \<open>Definitions\<close>

definition crc32_bit :: "u32 \<Rightarrow> u32" where
  "crc32_bit c = (if c AND 1 \<noteq> 0 then 0xEDB88320 XOR drop_bit 1 c else drop_bit 1 c)"

definition crc32_table :: "u32 list" where
  "crc32_table = map (\<lambda>i. (crc32_bit ^^ 8) (word_of_nat i)) [0..<256]"

definition crc32_internal :: "u32 \<Rightarrow> byte list \<Rightarrow> u32" where
  "crc32_internal seed buf =
     foldl (\<lambda>c p. crc32_table ! unat ((c XOR ucast p) AND 0xFF) XOR drop_bit 8 c) seed buf"

definition crc32 :: "byte list \<Rightarrow> u32" where
  "crc32 buf = crc32_internal 0xFFFFFFFF buf XOR 0xFFFFFFFF"

text \<open>The inode checksum, over the fields before \<^verbatim>\<open>i_crc32\<close> and those between it and
  \<^verbatim>\<open>i_reserved\<close>; the offsets are those of the packed \<^verbatim>\<open>struct beamfs_inode\<close>.\<close>

abbreviation (input) BEAMFS_INODE_CRC_HEAD_LEN :: nat where "BEAMFS_INODE_CRC_HEAD_LEN \<equiv> 48"
abbreviation (input) BEAMFS_INODE_CRC_TAIL_OFF :: nat where "BEAMFS_INODE_CRC_TAIL_OFF \<equiv> 52"
abbreviation (input) BEAMFS_INODE_CRC_TAIL_LEN :: nat where "BEAMFS_INODE_CRC_TAIL_LEN \<equiv> 120"

definition crc32_inode :: "byte list \<Rightarrow> u32" where
  "crc32_inode raw =
     crc32 (get_bytes 0 BEAMFS_INODE_CRC_HEAD_LEN raw
            @ get_bytes BEAMFS_INODE_CRC_TAIL_OFF BEAMFS_INODE_CRC_TAIL_LEN raw)"

text \<open>The superblock checksum, over the bytes before \<^verbatim>\<open>s_crc32\<close> and those from \<^verbatim>\<open>s_uuid\<close> up to
  \<^verbatim>\<open>s_pad\<close>, chained without the final inversion in between.\<close>

definition crc32_sb :: "byte list \<Rightarrow> u32" where
  "crc32_sb base =
     (let off_crc32 = 64; off_uuid = 68; off_pad = 2769;
          c = crc32_internal 0xFFFFFFFF (get_bytes 0 off_crc32 base);
          c = crc32_internal c (get_bytes off_uuid (off_pad - off_uuid) base)
      in c XOR 0xFFFFFFFF)"

subsection \<open>The bit step\<close>

lemma and_1_bit: "(c::u32) AND 1 \<noteq> 0 \<longleftrightarrow> bit c 0"
  by (simp add: and_one_eq bit_0 odd_iff_mod_2_eq_one mod2_eq_if)

lemma crc32_bit_alt: "crc32_bit c = (if bit c 0 then 0xEDB88320 else 0) XOR drop_bit 1 c"
  unfolding crc32_bit_def and_1_bit by simp

lemma drop_bit_xor_u32: "drop_bit n ((a::u32) XOR b) = drop_bit n a XOR drop_bit n b"
  by (simp add: drop_bit_xor)

lemma crc32_bit_xor: "crc32_bit (a XOR b) = crc32_bit a XOR crc32_bit b"
  by (auto simp: crc32_bit_alt bit_xor_iff drop_bit_xor_u32 ac_simps)

lemma crc32_bit_0 [simp]: "crc32_bit 0 = 0"
  by (simp add: crc32_bit_alt)

lemma crc32_bit_eq_0: 
  assumes "crc32_bit c = 0"
  shows "c = 0"
proof -
  have "bit (crc32_bit c) 31 \<longleftrightarrow> bit c 0"
    by (auto simp: crc32_bit_alt bit_xor_iff bit_drop_bit_eq dest: bit_imp_le_length)
  then have b0: "\<not> bit c 0" using assms by simp
  then have "drop_bit 1 c = 0" using assms by (simp add: crc32_bit_alt)
  moreover have "bit c (Suc n) \<longleftrightarrow> bit (drop_bit 1 c) n" for n by (simp add: bit_drop_bit_eq)
  ultimately have "\<not> bit c (Suc n)" for n by simp
  then have "\<not> bit c n" for n using b0 by (cases n) auto
  then show "c = 0" by (auto intro: bit_eqI)
qed

lemma crc32_pow_xor: "(crc32_bit ^^ n) (a XOR b) = (crc32_bit ^^ n) a XOR (crc32_bit ^^ n) b"
  by (induction n) (simp_all add: crc32_bit_xor)

lemma crc32_pow_0 [simp]: "(crc32_bit ^^ n) 0 = 0"
  by (induction n) simp_all

lemma crc32_pow_eq_0: "(crc32_bit ^^ n) c = 0 \<longleftrightarrow> c = 0"
  by (induction n) (auto dest: crc32_bit_eq_0)

lemma crc32_pow_pow: "(crc32_bit ^^ m) ((crc32_bit ^^ n) c) = (crc32_bit ^^ (m + n)) c"
  by (simp add: funpow_add)

lemma byte_xor_eq_0: "(a::byte) XOR b = 0 \<longleftrightarrow> a = b"
proof
  assume z: "a XOR b = 0"
  have "a = (a XOR b) XOR b" by (simp add: xor.assoc)
  then show "a = b" unfolding z by simp
qed simp

lemma crc32_pow_shift:
  assumes "\<And>i. i < n \<Longrightarrow> \<not> bit c i"
  shows "(crc32_bit ^^ n) c = drop_bit n c"
  using assms
proof (induction n)
  case (Suc n)
  then have "(crc32_bit ^^ Suc n) c = crc32_bit (drop_bit n c)" by simp
  also have "\<dots> = drop_bit 1 (drop_bit n c)"
    using Suc.prems [of n] by (simp add: crc32_bit_alt bit_drop_bit_eq)
  finally show ?case by simp
qed simp

subsection \<open>The table-driven loop is the bitwise CRC\<close>

definition crc32_step :: "u32 \<Rightarrow> byte \<Rightarrow> u32" where
  "crc32_step c p = (crc32_bit ^^ 8) (c XOR ucast p)"

lemma crc32_table_nth: "crc32_table ! unat (c AND 0xFF) = (crc32_bit ^^ 8) (c AND 0xFF)"
proof -
  have "c AND 0xFF = take_bit 8 c" by (simp add: take_bit_eq_mask mask_numeral)
  then have "unat (c AND 0xFF) < 256"
    using take_bit_nat_less_exp [of 8 "unat c"] by (simp add: unsigned_take_bit_eq)
  then show ?thesis by (simp add: crc32_table_def)
qed

lemma table_step:
  "crc32_table ! unat ((c XOR ucast p) AND 0xFF) XOR drop_bit 8 c = crc32_step c p"
proof -
  let ?x = "c XOR ucast (p::byte)" and ?hi = "push_bit 8 (drop_bit 8 (c XOR ucast p))"
  have m: "(0xFF :: u32) = mask 8" by (simp add: mask_eq_exp_minus_1)
  have x: "?x = (?x AND 0xFF) XOR ?hi"
    unfolding m by (rule bit_eqI) (auto simp: bit_simps)
  have "(crc32_bit ^^ 8) ?hi = drop_bit 8 ?hi"
    by (rule crc32_pow_shift) (simp add: bit_simps)
  also have "\<dots> = drop_bit 8 c"
    by (rule bit_eqI) (auto simp: bit_simps dest: bit_imp_le_length)
  finally show ?thesis
    unfolding crc32_step_def by (subst (2) x) (simp only: crc32_pow_xor crc32_table_nth)
qed

lemma crc32_internal_steps: "crc32_internal seed buf = foldl crc32_step seed buf"
  by (simp add: crc32_internal_def table_step)

subsection \<open>Changes of up to four bytes are detected\<close>

lemma crc32_step_xor: "crc32_step (c XOR c') (p XOR p') = crc32_step c p XOR crc32_step c' p'"
proof -
  have "(c XOR c') XOR ucast (p XOR p') = (c XOR ucast p) XOR (c' XOR ucast p')"
    by (rule bit_eqI) (auto simp: bit_simps)
  then show ?thesis by (simp only: crc32_step_def crc32_pow_xor)
qed

lemma crc32_fold_xor:
  "length a = length b \<Longrightarrow>
   foldl crc32_step (c XOR c') (map2 (XOR) a b) = foldl crc32_step c a XOR foldl crc32_step c' b"
  by (induction a b arbitrary: c c' rule: list_induct2) (simp_all add: crc32_step_xor)

text \<open>Up to four bytes read as one little-endian word.\<close>

primrec le_word :: "byte list \<Rightarrow> u32" where
  "le_word [] = 0"
| "le_word (x # xs) = ucast x XOR push_bit 8 (le_word xs)"

lemma le_word_bound: "bit (le_word xs) n \<Longrightarrow> n < 8 * length xs"
proof (induction xs arbitrary: n)
  case (Cons x xs)
  from Cons.prems have "n < 8 \<or> (8 \<le> n \<and> bit (le_word xs) (n - 8))"
    by (auto simp: bit_simps dest: bit_imp_le_length)
  then show ?case using Cons.IH [of "n - 8"] by auto
qed simp

lemma push_drop_le_word:
  assumes "length xs \<le> 3"
  shows "drop_bit 8 (push_bit 8 (le_word xs)) = le_word xs"
proof (rule bit_eqI)
  fix n
  show "bit (drop_bit 8 (push_bit 8 (le_word xs))) n \<longleftrightarrow> bit (le_word xs) n"
    using le_word_bound [of xs n] assms by (auto simp: bit_simps)
qed

lemma crc32_fold_word:
  "length xs \<le> 4 \<Longrightarrow> foldl crc32_step c xs = (crc32_bit ^^ (8 * length xs)) (c XOR le_word xs)"
proof (induction xs arbitrary: c)
  case (Cons x xs)
  let ?n = "8 * length xs"
  have w: "(crc32_bit ^^ 8) (push_bit 8 (le_word xs)) = le_word xs"
    using push_drop_le_word [of xs] Cons.prems
    by (subst crc32_pow_shift) (auto simp: bit_simps)
  have "foldl crc32_step c (x # xs)
      = (crc32_bit ^^ ?n) ((crc32_bit ^^ 8) (c XOR ucast x) XOR (crc32_bit ^^ 8) (push_bit 8 (le_word xs)))"
    using Cons.IH [of "crc32_step c x"] Cons.prems by (simp add: w) (simp add: crc32_step_def)
  also have "\<dots> = (crc32_bit ^^ (?n + 8)) (c XOR le_word (x # xs))"
    by (simp only: crc32_pow_xor [symmetric] crc32_pow_pow le_word.simps xor.assoc)
  finally show ?case by (simp add: add.commute)
qed simp

lemma le_word_eq_0: "length xs \<le> 4 \<Longrightarrow> le_word xs = 0 \<Longrightarrow> x \<in> set xs \<Longrightarrow> x = 0"
proof (induction xs)
  case (Cons y ys)
  have y: "bit (le_word (y # ys)) n \<longleftrightarrow> bit y n" if "n < 8" for n
    using that by (auto simp: bit_simps)
  have "y = 0"
    by (rule bit_eqI) (use y Cons.prems(2) in \<open>auto dest: bit_imp_le_length\<close>)
  moreover have "le_word ys = 0"
    using Cons.prems(1,2) \<open>y = 0\<close> push_drop_le_word [of ys] by simp
  ultimately show ?case using Cons by auto
qed simp

lemma crc32_fold_zeros: "foldl crc32_step c (replicate n 0) = (crc32_bit ^^ (8 * n)) c"
proof (induction n arbitrary: c)
  case (Suc n)
  have "foldl crc32_step c (replicate (Suc n) 0) = (crc32_bit ^^ (8 * n)) ((crc32_bit ^^ 8) c)"
    using Suc.IH [of "crc32_step c 0"] by simp (simp add: crc32_step_def)
  then show ?case by (simp only: crc32_pow_pow) (simp add: add.commute)
qed simp

lemma crc32_internal_burst:
  assumes "length x = length y" "length x \<le> 4" "x \<noteq> y"
  shows "crc32_internal c (p @ x @ s) \<noteq> crc32_internal c (p @ y @ s)"
proof
  assume eq: "crc32_internal c (p @ x @ s) = crc32_internal c (p @ y @ s)"
  let ?d = "map2 (XOR) x y" and ?c = "foldl crc32_step c p"
  have "0 = foldl crc32_step ?c (x @ s) XOR foldl crc32_step ?c (y @ s)"
    using eq by (simp add: crc32_internal_steps)
  also have "\<dots> = foldl crc32_step 0 (?d @ replicate (length s) 0)"
  proof -
    have "map2 (XOR) s s = replicate (length s) (0::byte)" by (induction s) simp_all
    then show ?thesis
      using crc32_fold_xor [of "x @ s" "y @ s" ?c ?c] assms(1) by simp
  qed
  also have "\<dots> = (crc32_bit ^^ (8 * length s)) (foldl crc32_step 0 ?d)"
    by (simp add: crc32_fold_zeros)
  finally have "foldl crc32_step 0 ?d = 0" by (metis crc32_pow_eq_0)
  then have "le_word ?d = 0"
    using crc32_fold_word [of ?d 0] assms(1,2) by (simp add: crc32_pow_eq_0)
  then have z: "\<forall>v \<in> set ?d. v = 0" using le_word_eq_0 [of ?d] assms(1,2) by auto
  have "x = y"
  proof (rule nth_equalityI)
    fix i assume i: "i < length x"
    then have "?d ! i \<in> set ?d" using assms(1) by (intro nth_mem) simp
    then have "?d ! i = 0" using z by blast
    then show "x ! i = y ! i" using i assms(1) by (simp add: byte_xor_eq_0)
  qed (fact assms(1))
  with assms(3) show False ..
qed

subsection \<open>The checksums of the structures\<close>

lemma crc32_internal_append: "crc32_internal c (a @ b) = crc32_internal (crc32_internal c a) b"
  by (simp add: crc32_internal_def)

lemma crc32_sb_alt: "crc32_sb base = crc32 (get_bytes 0 64 base @ get_bytes 68 2701 base)"
  by (simp add: crc32_sb_def crc32_def crc32_internal_append)

lemma u32_xor_cancel: "(a::u32) XOR c = b XOR c \<longleftrightarrow> a = b"
proof
  assume "a XOR c = b XOR c"
  then have "(a XOR c) XOR c = (b XOR c) XOR c" by simp
  then show "a = b" by (simp add: xor.assoc)
qed simp

lemma crc32_burst:
  "length x = length y \<Longrightarrow> length x \<le> 4 \<Longrightarrow> x \<noteq> y \<Longrightarrow> crc32 (p @ x @ s) \<noteq> crc32 (p @ y @ s)"
  by (simp add: crc32_def u32_xor_cancel crc32_internal_burst)

text \<open>Two regions of a buffer, and a write of up to four bytes inside one of them.\<close>

lemma crc32_put:
  assumes "k + length x \<le> length h" "length x \<le> 4" "put_bytes k x h \<noteq> h"
  shows "crc32 (p @ put_bytes k x h @ t) \<noteq> crc32 (p @ h @ t)"
proof -
  let ?y = "get_bytes k (length x) h" and ?s = "drop (k + length x) h"
  have ys: "?y @ ?s = drop k h"
    using append_take_drop_id [of "length x" "drop k h"] by (simp add: get_bytes_def add.commute)
  then have h: "h = take k h @ ?y @ ?s" by simp
  have "x \<noteq> ?y"
    using assms(3) h by (auto simp: put_bytes_def)
  moreover have "length x = length ?y" using assms(1) by simp
  ultimately have "crc32 ((p @ take k h) @ x @ (?s @ t)) \<noteq> crc32 ((p @ take k h) @ ?y @ (?s @ t))"
    using assms(2) by (intro crc32_burst)
  moreover have "(p @ take k h) @ ?y @ (?s @ t) = p @ h @ t"
    using ys by (metis append.assoc append_take_drop_id)
  ultimately have "crc32 ((p @ take k h) @ x @ (?s @ t)) \<noteq> crc32 (p @ h @ t)" by (simp only: not_False_eq_True)
  then show ?thesis by (simp add: put_bytes_def)
qed

lemma crc32_regions_detect:
  assumes "a \<le> b" "b + n \<le> length raw" "length x \<le> 4" "put_bytes k x raw \<noteq> raw"
    and "k + length x \<le> a \<or> b \<le> k \<and> k + length x \<le> b + n"
  shows "crc32 (get_bytes 0 a (put_bytes k x raw) @ get_bytes b n (put_bytes k x raw))
       \<noteq> crc32 (get_bytes 0 a raw @ get_bytes b n raw)"
  using assms(5)
proof
  assume k: "k + length x \<le> a"
  have g: "get_bytes 0 a (put_bytes k x raw) = put_bytes k x (get_bytes 0 a raw)"
    "get_bytes b n (put_bytes k x raw) = get_bytes b n raw"
    using get_put_inside [of 0 k x a raw] k assms(1,2) by (simp_all add: get_put_other)
  have "put_bytes k x (get_bytes 0 a raw) \<noteq> get_bytes 0 a raw"
    using assms(1,2,4) k by (simp add: put_eq_iff get_get_bytes)
  then show ?thesis
    using crc32_put [of k x "get_bytes 0 a raw" "[]" "get_bytes b n raw"] k assms(1-3) by (simp add: g)
next
  assume k: "b \<le> k \<and> k + length x \<le> b + n"
  have g: "get_bytes 0 a (put_bytes k x raw) = get_bytes 0 a raw"
    "get_bytes b n (put_bytes k x raw) = put_bytes (k - b) x (get_bytes b n raw)"
    using get_put_inside [of b k x n raw] k assms(1,2) by (simp_all add: get_put_other)
  have l: "k - b + length x \<le> n" using k by linarith
  then have "put_bytes (k - b) x (get_bytes b n raw) \<noteq> get_bytes b n raw"
    using assms(2,4) k by (simp add: put_eq_iff get_get_bytes)
  then show ?thesis
    using crc32_put [of "k - b" x "get_bytes b n raw" "get_bytes 0 a raw" "[]"] l assms(2,3) by (simp add: g)
qed

text \<open>C24: The table-driven CRC of the checker is the bitwise CRC-32: for every seed and buffer
  \<^const>\<open>crc32_internal\<close> is eight shift steps of the reflected polynomial per byte.\<close>
theorem crc32_internal_bitwise:
  "crc32_internal seed buf = foldl (\<lambda>c p. (crc32_bit ^^ 8) (c XOR ucast p)) seed buf"
  by (simp add: crc32_internal_steps crc32_step_def [abs_def])

text \<open>The inode checksum detects every change of up to four consecutive bytes that lies in
  the bytes it covers, [0, 48) and [52, 172), and does not depend on the others.\<close>
theorem crc32_inode_detects:
  assumes "length raw = 256" "length x \<le> 4" "put_bytes k x raw \<noteq> raw" "k + length x \<le> 256"
  shows "(k + length x \<le> 48 \<or> 52 \<le> k \<and> k + length x \<le> 172
            \<longrightarrow> crc32_inode (put_bytes k x raw) \<noteq> crc32_inode raw)
       \<and> (48 \<le> k \<and> k + length x \<le> 52 \<or> 172 \<le> k
            \<longrightarrow> crc32_inode (put_bytes k x raw) = crc32_inode raw)"
  using crc32_regions_detect [of 48 52 120 raw x k] assms
  by (auto simp: crc32_inode_def get_put_other)

theorem crc32_inode_detects_witness:
  "crc32_inode (put_bytes 60 [1] (replicate 256 0)) \<noteq> crc32_inode (replicate 256 0)"
proof -
  have "put_bytes 60 [1] (replicate 256 (0::byte)) \<noteq> replicate 256 0"
  proof
    assume "put_bytes 60 [1] (replicate 256 (0::byte)) = replicate 256 0"
    from arg_cong [OF this, of "\<lambda>l. l ! 60"] show False by (simp add: nth_put_bytes)
  qed
  then show ?thesis
    using crc32_inode_detects [of "replicate 256 0" "[1]" 60] by simp
qed

text \<open>The superblock checksum detects every change of up to four consecutive bytes that lies
  in [0, 64) or [68, 2769), the bytes outside \<^verbatim>\<open>s_crc32\<close> and \<^verbatim>\<open>s_pad\<close>.\<close>
theorem crc32_sb_detects:
  assumes "length raw = 4096" "length x \<le> 4" "put_bytes k x raw \<noteq> raw"
    and "k + length x \<le> 64 \<or> 68 \<le> k \<and> k + length x \<le> 2769"
  shows "crc32_sb (put_bytes k x raw) \<noteq> crc32_sb raw"
  using crc32_regions_detect [of 64 68 2701 raw x k] assms by (simp add: crc32_sb_alt)

theorem crc32_sb_detects_witness:
  "crc32_sb (put_bytes 2700 [7, 7] (replicate 4096 0)) \<noteq> crc32_sb (replicate 4096 0)"
proof -
  have "put_bytes 2700 [7, 7] (replicate 4096 (0::byte)) \<noteq> replicate 4096 0"
  proof
    assume "put_bytes 2700 [7, 7] (replicate 4096 (0::byte)) = replicate 4096 0"
    from arg_cong [OF this, of "\<lambda>l. l ! 2700"] show False by (simp add: nth_put_bytes)
  qed
  then show ?thesis
    using crc32_sb_detects [of "replicate 4096 0" "[7, 7]" 2700] by simp
qed

end
