(* ===== verification/GF256.thy ===== *)
theory GF256
  imports Prelude
begin

section \<open>The field GF(256) of the Reed-Solomon code\<close>

text \<open>
  The codec works in the field with 256 elements built from the primitive polynomial
  \<^verbatim>\<open>0x187\<close>. Its tables come from one shift register: \<open>rs_sr_step\<close> is the body of the loop
  of \<^verbatim>\<open>rs_init\<close> (tools/fsck.beamfs/rs_decode.c) that generates them. The step is linear over
  exclusive or and has order exactly 255 from 1, so its iterates \<open>gf_alpha\<close> are the 255
  nonzero elements, each once. The type \<open>gf\<close> of those elements, with exclusive or for its
  sum and the table product for its product, is an instance of the library's class of
  fields: the codec's proofs use the library's algebra on it.
\<close>

subsection \<open>The shift register\<close>

definition rs_sr_step :: "nat \<Rightarrow> nat" where
  "rs_sr_step sr =
     (let sr1 = push_bit 1 sr;
          sr2 = (if sr1 AND push_bit 8 1 \<noteq> 0 then sr1 XOR 0x187 else sr1)
      in sr2 AND 255)"

lemma bit_sr_step:
  "bit (rs_sr_step a) n =
     (n < 8 \<and> ((0 < n \<and> bit a (n - 1)) \<noteq> (bit a 7 \<and> bit (0x187::nat) n)))"
proof -
  have "bit (rs_sr_step a) n = (bit (if bit a 7 then push_bit 1 a XOR 0x187 else push_bit 1 a) n \<and> n < 8)"
    unfolding rs_sr_step_def Let_def nat_and_exp_iff bit_shl1_iff
    by (simp only: bit_and_iff bit_255_iff) simp
  then show ?thesis by (cases "bit a 7") (auto simp only: bit_xor_iff bit_shl1_iff if_True if_False)
qed

lemma sr_step_xor: "rs_sr_step (a XOR b) = rs_sr_step a XOR rs_sr_step b"
  by (rule bit_eqI) (auto simp: bit_sr_step bit_xor_iff)

lemma sr_step_less [simp]: "rs_sr_step a < 256"
  by (auto simp: less_256_bit_iff bit_sr_step)

lemma sr_step_eq_0:
  assumes "a < 256" shows "rs_sr_step a = 0 \<longleftrightarrow> a = 0"
proof
  assume "rs_sr_step a = 0"
  then have z: "\<not> bit (rs_sr_step a) n" for n by simp
  have 7: "\<not> bit a 7" using z [of 0] by (simp add: bit_sr_step)
  have "\<not> bit a n" for n
  proof (cases "n < 7")
    case True then show ?thesis using z [of "Suc n"] 7 by (simp add: bit_sr_step)
  next
    case False
    then show ?thesis using 7 assms by (cases "n = 7") (auto simp: less_256_bit_iff)
  qed
  then show "a = 0" by (simp add: bit_eq_iff)
qed (simp add: rs_sr_step_def)

lemma sr_step_inj: "inj_on rs_sr_step {..<256}"
proof (rule inj_onI)
  fix a b assume "a \<in> {..<256::nat}" "b \<in> {..<256::nat}" and eq: "rs_sr_step a = rs_sr_step b"
  then have "a XOR b < 256" by (simp add: xor_less_256)
  moreover have "rs_sr_step (a XOR b) = 0" by (simp add: sr_step_xor eq)
  ultimately have "a XOR b = 0" by (simp add: sr_step_eq_0)
  then show "a = b" by (simp add: xor_nat_eq_0)
qed

subsection \<open>Its iterates: the powers of the primitive element\<close>

definition gf_alpha :: "nat \<Rightarrow> nat" where
  "gf_alpha k = (rs_sr_step ^^ k) 1"

lemma funpow_numeral: "(f ^^ numeral n) x = (f ^^ pred_numeral n) (f x)"
  by (simp add: numeral_eq_Suc funpow_swap1)

lemma gf_alpha_add: "(rs_sr_step ^^ m) (gf_alpha n) = gf_alpha (m + n)"
  by (simp add: gf_alpha_def funpow_add)

lemma gf_alpha_15: "gf_alpha 15 = 244"
  by (simp add: gf_alpha_def rs_sr_step_def funpow_numeral)

text \<open>The orbit of 1, evaluated seventeen steps at a time.\<close>

lemma gf_alpha_plus17: "gf_alpha k = v \<Longrightarrow> (rs_sr_step ^^ 17) v = w \<Longrightarrow> gf_alpha (17 + k) = w"
  using gf_alpha_add [of 17 k] by simp

lemma gf_alpha_milestones: "gf_alpha 51 = 108" "gf_alpha 85 = 170" "gf_alpha 255 = 1"
proof -
  note step = rs_sr_step_def funpow_numeral
  have a17: "gf_alpha 17 = 222" using gf_alpha_plus17 [of 0 1 222] by (simp add: gf_alpha_def step)
  have a34: "gf_alpha 34 = 116" using gf_alpha_plus17 [OF a17, of 116] by (simp add: step)
  have a51: "gf_alpha 51 = 108" using gf_alpha_plus17 [OF a34, of 108] by (simp add: step)
  have a68: "gf_alpha 68 = 223" using gf_alpha_plus17 [OF a51, of 223] by (simp add: step)
  have a85: "gf_alpha 85 = 170" using gf_alpha_plus17 [OF a68, of 170] by (simp add: step)
  have a102: "gf_alpha 102 = 24" using gf_alpha_plus17 [OF a85, of 24] by (simp add: step)
  have a119: "gf_alpha 119 = 179" using gf_alpha_plus17 [OF a102, of 179] by (simp add: step)
  have a136: "gf_alpha 136 = 117" using gf_alpha_plus17 [OF a119, of 117] by (simp add: step)
  have a153: "gf_alpha 153 = 178" using gf_alpha_plus17 [OF a136, of 178] by (simp add: step)
  have a170: "gf_alpha 170 = 171" using gf_alpha_plus17 [OF a153, of 171] by (simp add: step)
  have a187: "gf_alpha 187 = 198" using gf_alpha_plus17 [OF a170, of 198] by (simp add: step)
  have a204: "gf_alpha 204 = 199" using gf_alpha_plus17 [OF a187, of 199] by (simp add: step)
  have a221: "gf_alpha 221 = 25" using gf_alpha_plus17 [OF a204, of 25] by (simp add: step)
  have a238: "gf_alpha 238 = 109" using gf_alpha_plus17 [OF a221, of 109] by (simp add: step)
  have a255: "gf_alpha 255 = 1" using gf_alpha_plus17 [OF a238, of 1] by (simp add: step)
  show "gf_alpha 51 = 108" "gf_alpha 85 = 170" "gf_alpha 255 = 1" by (fact a51 a85 a255)+
qed

lemmas gf_alpha_51 = gf_alpha_milestones(1)
lemmas gf_alpha_85 = gf_alpha_milestones(2)
lemmas gf_alpha_255 = gf_alpha_milestones(3)

lemma gf_alpha_less [simp]: "gf_alpha k < 256"
  by (cases k) (simp_all add: gf_alpha_def)

lemma gf_alpha_0 [simp]: "gf_alpha 0 = 1"
  by (simp add: gf_alpha_def)

lemma gf_alpha_Suc: "gf_alpha (Suc k) = rs_sr_step (gf_alpha k)"
  by (simp add: gf_alpha_def)

lemma gf_alpha_pos [simp]: "0 < gf_alpha k"
  by (induction k) (auto simp: gf_alpha_Suc sr_step_eq_0 intro: gr0I)

lemma sr_step_pow_less: "a < 256 \<Longrightarrow> (rs_sr_step ^^ m) a < 256"
  by (induction m) auto

lemma sr_step_pow_inj:
  "a < 256 \<Longrightarrow> b < 256 \<Longrightarrow> (rs_sr_step ^^ m) a = (rs_sr_step ^^ m) b \<longleftrightarrow> a = b"
  by (induction m) (auto simp: sr_step_pow_less inj_on_eq_iff [OF sr_step_inj])

lemma gf_alpha_eq_add: "gf_alpha (m + i) = gf_alpha (m + j) \<longleftrightarrow> gf_alpha i = gf_alpha j"
  by (simp add: sr_step_pow_inj flip: gf_alpha_add)

lemma gf_alpha_period: "gf_alpha p = 1 \<Longrightarrow> gf_alpha (p * k + i) = gf_alpha i"
proof (induction k)
  case (Suc k)
  have "gf_alpha (p + (p * k + i)) = gf_alpha (p * k + i + 0)"
    using Suc.prems gf_alpha_eq_add [of "p * k + i" p 0] by (simp add: add.commute)
  then show ?case using Suc by (simp add: algebra_simps)
qed simp

lemma gf_alpha_mod: "gf_alpha (k mod 255) = gf_alpha k"
  using gf_alpha_period [OF gf_alpha_255, of "k div 255" "k mod 255"] by simp

lemma coprime_by_residues:
  assumes "list_all (\<lambda>x. gcd p x = 1) [1..<p]" "\<not> p dvd d" "0 < p"
  shows "coprime d (p::nat)"
proof -
  have "d mod p \<in> set [1..<p]" using assms(2,3) by (simp add: Suc_le_eq mod_greater_zero_iff_not_dvd)
  then have "gcd p (d mod p) = 1" using assms(1) by (simp only: list_all_iff)
  then show ?thesis by (simp add: coprime_iff_gcd_eq_1 gcd_red_nat [of d p])
qed

lemma dvd_255_cases:
  assumes "d < 255" "d dvd 255" shows "d dvd 15 \<or> d dvd 51 \<or> d dvd (85::nat)"
proof -
  have r: "list_all (\<lambda>x. gcd 3 x = 1) [1..<3::nat]" "list_all (\<lambda>x. gcd 5 x = 1) [1..<5::nat]"
    "list_all (\<lambda>x. gcd 17 x = 1) [1..<17::nat]" by code_simp+
  consider "\<not> 3 dvd d" | "\<not> 5 dvd d" | "\<not> 17 dvd d" | "3 dvd d" "5 dvd d" "17 dvd d" by blast
  then show ?thesis
  proof cases
    case 1
    then have "coprime d 3" using coprime_by_residues r(1) by simp
    then show ?thesis using coprime_dvd_mult_left_iff [of d 3 85] assms by simp
  next
    case 2
    then have "coprime d 5" using coprime_by_residues r(2) by simp
    then show ?thesis using coprime_dvd_mult_left_iff [of d 5 51] assms by simp
  next
    case 3
    then have "coprime d 17" using coprime_by_residues r(3) by simp
    then show ?thesis using coprime_dvd_mult_left_iff [of d 17 15] assms by simp
  next
    case 4
    have "coprime 3 (5::nat)" "coprime 15 (17::nat)" by code_simp+
    with 4 have "15 dvd d" using divides_mult [of 3 d 5] by simp
    then have "255 dvd d" using 4 \<open>coprime 15 17\<close> divides_mult [of 15 d 17] by simp
    then show ?thesis using assms by (auto dest: dvd_imp_le)
  qed
qed

lemma gf_alpha_neq_1:
  assumes "0 < k" "k < 255" shows "gf_alpha k \<noteq> 1"
proof
  assume one: "gf_alpha k = 1"
  define d where "d = gcd k 255"
  obtain x y where "k * x = 255 * y + d"
    using bezout_nat [of k 255] assms by (auto simp: d_def)
  then have "gf_alpha d = 1"
    using gf_alpha_period [OF one, of x 0] gf_alpha_period [OF gf_alpha_255, of y d] by simp
  have "d < 255" using assms gcd_le1_nat [of k 255] unfolding d_def by linarith
  then obtain p where p: "p \<in> {15, 51, 85}" "d dvd p"
    using dvd_255_cases [of d] by (auto simp: d_def)
  then obtain q where "p = d * q" by blast
  then have "gf_alpha p = 1" using gf_alpha_period [OF \<open>gf_alpha d = 1\<close>, of q 0] by simp
  with p(1) show False by (auto simp: gf_alpha_15 gf_alpha_51 gf_alpha_85)
qed

lemma gf_alpha_inj: "inj_on gf_alpha {..<255}"
proof (rule linorder_inj_onI)
  fix i j :: nat assume "i < j" "i \<in> {..<255}" "j \<in> {..<255}"
  then have "gf_alpha (j - i) \<noteq> 1" by (intro gf_alpha_neq_1) auto
  then show "gf_alpha i \<noteq> gf_alpha j"
    using gf_alpha_eq_add [of i 0 "j - i"] \<open>i < j\<close> by auto
qed auto

lemma gf_alpha_image: "gf_alpha ` {..<255} = {1..<256}"
proof (rule card_subset_eq)
  show "gf_alpha ` {..<255} \<subseteq> {1..<256}"
    using gf_alpha_pos by (auto simp: Suc_le_eq)
qed (simp_all add: card_image gf_alpha_inj)

definition gf_index :: "nat \<Rightarrow> nat" where
  "gf_index a = inv_into {..<255} gf_alpha a"

lemma gf_index_less: "0 < a \<Longrightarrow> a < 256 \<Longrightarrow> gf_index a < 255"
  using inv_into_into [of a gf_alpha "{..<255}"] by (simp add: gf_alpha_image gf_index_def)

lemma gf_alpha_index: "0 < a \<Longrightarrow> a < 256 \<Longrightarrow> gf_alpha (gf_index a) = a"
  unfolding gf_index_def by (rule f_inv_into_f) (simp add: gf_alpha_image)

lemma gf_index_alpha: "k < 255 \<Longrightarrow> gf_index (gf_alpha k) = k"
  unfolding gf_index_def by (rule inv_into_f_f [OF gf_alpha_inj]) simp

subsection \<open>The product and the type of field elements\<close>

definition gf_mul :: "nat \<Rightarrow> nat \<Rightarrow> nat" where
  "gf_mul a b = (if a = 0 then 0 else (rs_sr_step ^^ gf_index a) b)"

lemma sr_step_pow_xor: "(rs_sr_step ^^ m) (a XOR b) = (rs_sr_step ^^ m) a XOR (rs_sr_step ^^ m) b"
  by (induction m) (simp_all add: sr_step_xor)

lemma sr_step_pow_0 [simp]: "(rs_sr_step ^^ m) 0 = 0"
  by (induction m) (simp_all add: sr_step_eq_0)

lemma gf_mul_0 [simp]: "gf_mul 0 b = 0" "gf_mul a 0 = 0"
  by (simp_all add: gf_mul_def)

lemma gf_mul_less: "b < 256 \<Longrightarrow> gf_mul a b < 256"
  by (simp add: gf_mul_def sr_step_pow_less)

lemma gf_mul_alpha: "k < 255 \<Longrightarrow> gf_mul (gf_alpha k) b = (rs_sr_step ^^ k) b"
  using gf_alpha_pos [of k] by (simp add: gf_mul_def gf_index_alpha del: gf_alpha_pos)

lemma gf_alpha_cases:
  assumes "a < 256" obtains (zero) "a = 0" | (pow) k where "k < 255" "a = gf_alpha k"
  using assms gf_alpha_index [of a] gf_index_less [of a] by (metis gr0I)

lemma gf_mul_alphas: "gf_mul (gf_alpha i) (gf_alpha j) = gf_alpha (i + j)"
proof -
  have "gf_mul (gf_alpha (i mod 255)) (gf_alpha j) = (rs_sr_step ^^ (i mod 255)) (gf_alpha j)"
    by (rule gf_mul_alpha) simp
  also have "\<dots> = gf_alpha (i mod 255 + j)" by (rule gf_alpha_add)
  also have "\<dots> = gf_alpha (i + j)"
    by (metis gf_alpha_mod mod_add_left_eq)
  finally show ?thesis by (simp add: gf_alpha_mod)
qed

lemma gf_mul_commute: "a < 256 \<Longrightarrow> b < 256 \<Longrightarrow> gf_mul a b = gf_mul b a"
  by (elim gf_alpha_cases) (simp_all add: gf_mul_alphas add.commute)

lemma gf_mul_assoc:
  "a < 256 \<Longrightarrow> b < 256 \<Longrightarrow> c < 256 \<Longrightarrow> gf_mul (gf_mul a b) c = gf_mul a (gf_mul b c)"
  by (elim gf_alpha_cases) (simp_all add: gf_mul_alphas add.assoc)

lemma gf_mul_xor: "gf_mul a (b XOR c) = gf_mul a b XOR gf_mul a c"
  by (simp add: gf_mul_def sr_step_pow_xor)

typedef gf = "{..<256::nat}" morphisms gf_rep gf_abs
  by (rule exI [of _ 0]) simp

setup_lifting type_definition_gf

instantiation gf :: field
begin
lift_definition zero_gf :: gf is 0 by simp
lift_definition one_gf :: gf is 1 by simp
lift_definition plus_gf :: "gf \<Rightarrow> gf \<Rightarrow> gf" is "\<lambda>a b. a XOR b" by (simp add: xor_less_256)
lift_definition minus_gf :: "gf \<Rightarrow> gf \<Rightarrow> gf" is "\<lambda>a b. a XOR b" by (simp add: xor_less_256)
lift_definition uminus_gf :: "gf \<Rightarrow> gf" is "\<lambda>a. a" .
lift_definition times_gf :: "gf \<Rightarrow> gf \<Rightarrow> gf" is gf_mul by (simp add: gf_mul_less)
lift_definition inverse_gf :: "gf \<Rightarrow> gf" is
  "\<lambda>a. if a = 0 then 0 else gf_alpha (255 - gf_index a)" by simp
definition divide_gf :: "gf \<Rightarrow> gf \<Rightarrow> gf" where "divide_gf a b = a * inverse b"
instance
proof
  fix a b c :: gf
  show "a + b + c = a + (b + c)" by transfer (rule xor.assoc)
  show "a + b = b + a" by transfer (rule xor.commute)
  show "0 + a = a" by transfer simp
  show "- a + a = 0" by transfer simp
  show "a - b = a + - b" by transfer simp
  show "a * b * c = a * (b * c)" by transfer (simp add: gf_mul_assoc)
  show "a * b = b * a" by transfer (simp add: gf_mul_commute)
  show "1 * a = a" by transfer (use gf_mul_alpha [of 0] in simp)
  show "(a + b) * c = a * c + b * c"
  proof transfer
    fix a b c :: nat assume "a \<in> {..<256}" "b \<in> {..<256}" "c \<in> {..<256}"
    then show "gf_mul (a XOR b) c = gf_mul a c XOR gf_mul b c"
      using gf_mul_xor [of c a b] by (simp add: gf_mul_commute [of _ c] xor_less_256)
  qed
  show "(0::gf) \<noteq> 1" by transfer simp
  show "inverse 0 = (0::gf)" by transfer simp
  show "a \<noteq> 0 \<Longrightarrow> inverse a * a = 1" 
  proof transfer
    fix a :: nat assume "a \<in> {..<256}" "a \<noteq> 0"
    then have "gf_mul (gf_alpha (255 - gf_index a)) (gf_alpha (gf_index a)) = 1"
      by (simp add: gf_mul_alphas gf_index_less less_imp_le gf_alpha_255)
    then show "gf_mul (if a = 0 then 0 else gf_alpha (255 - gf_index a)) a = 1"
      using \<open>a \<in> {..<256}\<close> \<open>a \<noteq> 0\<close> by (simp add: gf_alpha_index)
  qed
  show "a div b = a * inverse b" by (rule divide_gf_def)
qed
end

subsection \<open>Codec symbols as field elements\<close>

text \<open>A codec symbol is a natural number below 256; \<open>sym\<close> reads it as a field element.\<close>

abbreviation sym :: "nat \<Rightarrow> gf" where
  "sym \<equiv> gf_abs"

named_theorems gf_sym \<open>codec symbols as field elements\<close>

lemma sym_0 [simp, gf_sym]: "sym 0 = 0"
  by (simp add: zero_gf_def)

lemma sym_1 [simp, gf_sym]: "sym 1 = 1" "sym (Suc 0) = 1"
  by (simp_all add: one_gf_def)

lemma sym_xor [gf_sym]: "a < 256 \<Longrightarrow> b < 256 \<Longrightarrow> sym (a XOR b) = sym a + sym b"
  by (simp add: plus_gf.abs_eq eq_onp_def)

lemma sym_mul [gf_sym]: "a < 256 \<Longrightarrow> b < 256 \<Longrightarrow> sym (gf_mul a b) = sym a * sym b"
  by (simp add: times_gf.abs_eq eq_onp_def)

lemma sym_eq_iff: "a < 256 \<Longrightarrow> b < 256 \<Longrightarrow> sym a = sym b \<longleftrightarrow> a = b"
  by (simp add: gf_abs_inject)

lemma sym_eq_0_iff: "a < 256 \<Longrightarrow> sym a = 0 \<longleftrightarrow> a = 0"
  using sym_eq_iff [of a 0] by simp

lemma gf_add_self [simp]: "(x::gf) + x = 0"
  by transfer simp

lemma gf_two [simp]: "(2::gf) = 0"
  by (simp flip: one_add_one)

lemma gf_add_eq_0_iff: "(x::gf) + y = 0 \<longleftrightarrow> x = y"
  by transfer (simp add: xor_nat_eq_0)

lemma gf_uminus [simp]: "- (x::gf) = x"
  by transfer simp

lemma gf_diff [simp]: "(x::gf) - y = x + y"
  by transfer simp

definition gf_a :: gf where
  "gf_a = sym (gf_alpha 1)"

lemma sym_alpha [gf_sym]: "sym (gf_alpha k) = gf_a ^ k"
proof (induction k)
  case (Suc k)
  have "gf_alpha (Suc k) = gf_mul (gf_alpha 1) (gf_alpha k)"
    by (simp add: gf_mul_alphas)
  with Suc show ?case by (simp add: sym_mul gf_a_def)
qed simp

lemma gf_a_nonzero [simp]: "gf_a \<noteq> 0"
  using sym_eq_0_iff [OF gf_alpha_less, of 1] gf_alpha_pos [of 1] by (simp add: gf_a_def)

lemma gf_a_255 [simp]: "gf_a ^ 255 = 1"
  using sym_alpha [of 255] by (simp add: gf_alpha_255)

lemma gf_a_mod: "gf_a ^ (k mod 255) = gf_a ^ k"
  using gf_alpha_mod [of k] by (metis sym_alpha)

lemma gf_a_inj: "i < 255 \<Longrightarrow> j < 255 \<Longrightarrow> gf_a ^ i = gf_a ^ j \<longleftrightarrow> i = j"
  using inj_on_eq_iff [OF gf_alpha_inj, of i j]
  by (simp add: sym_eq_iff flip: sym_alpha)

end
