(* ===== verification/RS_Codec.thy ===== *)
theory RS_Codec
  imports GF256 "HOL-Library.While_Combinator"
begin

section \<open>The Reed-Solomon codec of the checker\<close>

text \<open>
  tools/fsck.beamfs/rs_decode.c is a port of the kernel's lib/reed_solomon: table set-up
  (\<^verbatim>\<open>rs_init\<close>), encoder (\<^verbatim>\<open>rs_encode_subblock\<close>) and decoder (\<^verbatim>\<open>rs_decode_internal\<close> and its
  wrapper \<^verbatim>\<open>rs_decode_subblock\<close>). The definitions follow the C function by function. A
  sixteen-bit symbol or logarithm of the C code is a natural number here: every value the
  code stores in one is below 256, and the sums it reduces modulo 255 stay below
  \<open>2\<^sup>1\<^sup>6\<close>. An array updated in place by an ascending or descending loop that only reads
  entries it has not written yet is a \<open>map\<close> over its indices.
\<close>

abbreviation (input) RS_SYMSIZE :: nat where "RS_SYMSIZE \<equiv> 8"
abbreviation (input) RS_GFPOLY :: nat where "RS_GFPOLY \<equiv> 0x187"
abbreviation (input) RS_FCR :: nat where "RS_FCR \<equiv> 0"
abbreviation (input) RS_PRIM :: nat where "RS_PRIM \<equiv> 1"
abbreviation (input) RS_NROOTS :: nat where "RS_NROOTS \<equiv> 16"
abbreviation (input) RS_MAX_DATA_LEN :: nat where "RS_MAX_DATA_LEN \<equiv> 239"

record rs_codec =
  mm :: nat
  nn :: nat
  nroots :: nat
  fcr :: nat
  prim :: nat
  iprim :: nat
  gfpoly :: nat
  alpha_to :: "nat list"
  index_of :: "nat list"
  genpoly :: "nat list"

definition rs_modnn :: "rs_codec \<Rightarrow> nat \<Rightarrow> nat" where
  "rs_modnn rs x = x mod nn rs"

subsection \<open>rs_init: the tables and the generator polynomial\<close>

text \<open>One turn of the loop that fills both tables: the shift register \<open>sr\<close> is the antilog of
  \<open>i\<close>.\<close>

definition rs_table_step :: "nat \<Rightarrow> nat \<times> nat list \<times> nat list \<Rightarrow> nat \<times> nat list \<times> nat list" where
  "rs_table_step i = (\<lambda>(sr, io, at). (rs_sr_step sr, io[sr := i], at[i := sr]))"

definition rs_tables :: "nat \<times> nat list \<times> nat list" where
  "rs_tables =
     fold rs_table_step [0..<255] (1, (replicate 256 0)[0 := 255], (replicate 256 0)[255 := 0])"

definition rs_iprim :: nat where
  "rs_iprim = while (\<lambda>ip. ip mod RS_PRIM \<noteq> 0) (\<lambda>ip. ip + 255) 1 div RS_PRIM"

text \<open>The inner loop of the generator polynomial, for \<open>j\<close> going down to 1.\<close>

primrec rs_genpoly_inner :: "rs_codec \<Rightarrow> nat \<Rightarrow> nat \<Rightarrow> nat list \<Rightarrow> nat list" where
  "rs_genpoly_inner rs root 0 g = g"
| "rs_genpoly_inner rs root (Suc j) g =
     rs_genpoly_inner rs root j
       (g[Suc j := (if g ! Suc j \<noteq> 0
                    then g ! j XOR alpha_to rs ! rs_modnn rs (index_of rs ! (g ! Suc j) + root)
                    else g ! j)])"

definition rs_genpoly_step :: "rs_codec \<Rightarrow> nat \<Rightarrow> nat list \<Rightarrow> nat list" where
  "rs_genpoly_step rs i g =
     (let root = RS_FCR * RS_PRIM + i * RS_PRIM;
          g1 = rs_genpoly_inner rs root i (g[i + 1 := 1])
      in g1[0 := alpha_to rs ! rs_modnn rs (index_of rs ! (g1 ! 0) + root)])"

definition rs_genpoly_sym :: "rs_codec \<Rightarrow> nat list" where
  "rs_genpoly_sym rs =
     fold (rs_genpoly_step rs) [0..<RS_NROOTS] ((replicate (RS_NROOTS + 1) 0)[0 := 1])"

text \<open>\<open>calloc_ok\<close> is whether the allocation succeeded; the other \<^const>\<open>None\<close> is the check that
  the polynomial is primitive.\<close>

definition rs_init :: "bool \<Rightarrow> rs_codec option" where
  "rs_init calloc_ok =
     (if \<not> calloc_ok then None
      else
        let (sr, io, at) = rs_tables;
            rs = \<lparr>mm = RS_SYMSIZE, nn = 255, nroots = RS_NROOTS, fcr = RS_FCR,
                  prim = RS_PRIM, iprim = rs_iprim, gfpoly = RS_GFPOLY,
                  alpha_to = at, index_of = io, genpoly = []\<rparr>
        in if sr \<noteq> at ! 0 then None
           else Some (rs\<lparr>genpoly := map (\<lambda>c. io ! c) (rs_genpoly_sym rs)\<rparr>))"

subsection \<open>rs_encode_subblock\<close>

text \<open>One data symbol through the feedback shift register.\<close>

definition rs_encode_step :: "rs_codec \<Rightarrow> nat list \<Rightarrow> nat \<Rightarrow> nat list" where
  "rs_encode_step rs par d =
     (let feedback = index_of rs ! (d XOR par ! 0)
      in if feedback \<noteq> nn rs
         then map (\<lambda>j. par ! (j + 1) XOR
                        alpha_to rs ! rs_modnn rs (feedback + genpoly rs ! (RS_NROOTS - 1 - j)))
                [0..<RS_NROOTS - 1]
              @ [alpha_to rs ! rs_modnn rs (feedback + genpoly rs ! 0)]
         else map (\<lambda>j. par ! (j + 1)) [0..<RS_NROOTS - 1] @ [0])"

definition rs_encode_subblock :: "rs_codec \<Rightarrow> byte list \<Rightarrow> byte list" where
  "rs_encode_subblock rs data =
     map word_of_nat (foldl (rs_encode_step rs) (replicate RS_NROOTS 0) (map unat data))"

subsection \<open>rs_decode_internal\<close>

text \<open>The syndromes: one turn of the loop over the received symbols, Horner's rule at each
  root.\<close>

definition rs_syn_step :: "rs_codec \<Rightarrow> nat list \<Rightarrow> nat \<Rightarrow> nat list" where
  "rs_syn_step rs syn d =
     map (\<lambda>i. if syn ! i = 0 then d
              else d XOR alpha_to rs !
                     rs_modnn rs (index_of rs ! (syn ! i) + (fcr rs + i) * prim rs))
       [0..<nroots rs]"

definition rs_syndromes :: "rs_codec \<Rightarrow> nat list \<Rightarrow> nat list \<Rightarrow> nat list" where
  "rs_syndromes rs data par =
     foldl (rs_syn_step rs)
       (foldl (rs_syn_step rs) (replicate (nroots rs) (data ! 0)) (tl data)) par"

text \<open>Berlekamp-Massey. The discrepancy of round \<open>r\<close>; \<open>s\<close> holds the syndromes in index
  form, so \<open>nn\<close> stands for zero.\<close>

definition rs_discr :: "rs_codec \<Rightarrow> nat list \<Rightarrow> nat list \<Rightarrow> nat \<Rightarrow> nat" where
  "rs_discr rs s lambda r =
     fold (\<lambda>i acc. if lambda ! i \<noteq> 0 \<and> s ! (r - i - 1) \<noteq> nn rs
                   then acc XOR alpha_to rs !
                          rs_modnn rs (index_of rs ! (lambda ! i) + s ! (r - i - 1))
                   else acc) [0..<r] 0"

text \<open>\<open>memmove(&b[1], b, nroots)\<close> and \<open>b[0] = nn\<close>.\<close>

definition rs_shift_b :: "rs_codec \<Rightarrow> nat list \<Rightarrow> nat list" where
  "rs_shift_b rs b = nn rs # take (nroots rs) b"

definition rs_bm_step ::
    "rs_codec \<Rightarrow> nat list \<Rightarrow> nat \<Rightarrow> nat list \<times> nat list \<times> nat \<Rightarrow> nat list \<times> nat list \<times> nat" where
  "rs_bm_step rs s r = (\<lambda>(lambda, b, el).
     let discr_r = index_of rs ! rs_discr rs s lambda r
     in if discr_r = nn rs then (lambda, rs_shift_b rs b, el)
        else
          let t = lambda ! 0 #
                    map (\<lambda>i. if b ! i \<noteq> nn rs
                             then lambda ! (i + 1) XOR alpha_to rs ! rs_modnn rs (discr_r + b ! i)
                             else lambda ! (i + 1)) [0..<nroots rs]
          in if 2 * el \<le> r - 1
             then (t,
                   map (\<lambda>i. if lambda ! i = 0 then nn rs
                            else rs_modnn rs (index_of rs ! (lambda ! i) + nn rs - discr_r))
                     [0..<nroots rs + 1],
                   r - el)
             else (t, rs_shift_b rs b, el))"

definition rs_bm :: "rs_codec \<Rightarrow> nat list \<Rightarrow> nat list" where
  "rs_bm rs s =
     (let lambda = 1 # replicate (nroots rs) 0
      in fst (fold (rs_bm_step rs s) [1..<nroots rs + 1]
                (lambda, map (\<lambda>c. index_of rs ! c) lambda, 0)))"

text \<open>The degree of the locator, whose coefficients are now in index form.\<close>

definition rs_deg_lambda :: "rs_codec \<Rightarrow> nat list \<Rightarrow> nat" where
  "rs_deg_lambda rs lambda =
     fold (\<lambda>i d. if lambda ! i \<noteq> nn rs then i else d) [0..<nroots rs + 1] 0"

text \<open>Chien search. One candidate: every register of the locator is stepped and the value of
  the locator is summed; then the search over the \<open>nn\<close> candidates, \<open>n\<close> of them left, with
  the roots and locations found so far. \<^const>\<open>None\<close> is a location in the padding.\<close>

definition rs_chien_regs :: "rs_codec \<Rightarrow> nat \<Rightarrow> nat list \<Rightarrow> nat list" where
  "rs_chien_regs rs deg reg =
     map (\<lambda>j. if 0 < j \<and> j \<le> deg \<and> reg ! j \<noteq> nn rs then rs_modnn rs (reg ! j + j) else reg ! j)
       [0..<nroots rs + 1]"

definition rs_chien_q :: "rs_codec \<Rightarrow> nat \<Rightarrow> nat list \<Rightarrow> nat" where
  "rs_chien_q rs deg reg =
     fold (\<lambda>j q. if reg ! j \<noteq> nn rs then q XOR alpha_to rs ! (reg ! j) else q)
       (rev [1..<deg + 1]) 1"

primrec rs_chien ::
    "rs_codec \<Rightarrow> nat \<Rightarrow> nat \<Rightarrow> nat \<Rightarrow> nat \<Rightarrow> nat \<Rightarrow> nat list \<Rightarrow> (nat \<times> nat) list
       \<Rightarrow> (nat \<times> nat) list option" where
  "rs_chien rs pad deg 0 i k reg found = Some found"
| "rs_chien rs pad deg (Suc n) i k reg found =
     (let reg' = rs_chien_regs rs deg reg
      in if rs_chien_q rs deg reg' \<noteq> 0
         then rs_chien rs pad deg n (i + 1) (rs_modnn rs (k + iprim rs)) reg' found
         else if k < pad then None
         else let found' = found @ [(i, k)]
              in if length found' = deg then Some found'
                 else rs_chien rs pad deg n (i + 1) (rs_modnn rs (k + iprim rs)) reg' found')"

text \<open>The evaluator polynomial, in index form.\<close>

definition rs_omega :: "rs_codec \<Rightarrow> nat list \<Rightarrow> nat list \<Rightarrow> nat \<Rightarrow> nat list" where
  "rs_omega rs s lambda deg_omega =
     map (\<lambda>i. index_of rs !
            fold (\<lambda>j tmp. if s ! (i - j) \<noteq> nn rs \<and> lambda ! j \<noteq> nn rs
                          then tmp XOR alpha_to rs ! rs_modnn rs (s ! (i - j) + lambda ! j)
                          else tmp) (rev [0..<i + 1]) 0)
       [0..<deg_omega + 1]"

text \<open>Forney: the error value at one root. The derivative is summed over the even \<open>i\<close> from
  \<open>min (deg_lambda, nroots - 1)\<close> down.\<close>

definition rs_num1 :: "rs_codec \<Rightarrow> nat list \<Rightarrow> nat \<Rightarrow> nat \<Rightarrow> nat" where
  "rs_num1 rs omega deg_omega root =
     fold (\<lambda>i acc. if omega ! i \<noteq> nn rs
                   then acc XOR alpha_to rs ! rs_modnn rs (omega ! i + i * root)
                   else acc) (rev [0..<deg_omega + 1]) 0"

definition rs_den :: "rs_codec \<Rightarrow> nat list \<Rightarrow> nat \<Rightarrow> nat \<Rightarrow> nat" where
  "rs_den rs lambda deg root =
     fold (\<lambda>i acc. if lambda ! (i + 1) \<noteq> nn rs
                   then acc XOR alpha_to rs ! rs_modnn rs (lambda ! (i + 1) + i * root)
                   else acc)
       (rev (filter even [0..<min deg (nroots rs - 1) + 1])) 0"

definition rs_err_value ::
    "rs_codec \<Rightarrow> nat list \<Rightarrow> nat list \<Rightarrow> nat \<Rightarrow> nat \<Rightarrow> nat" where
  "rs_err_value rs lambda omega deg root =
     (let num1 = rs_num1 rs omega (deg - 1) root
      in if num1 = 0 then 0
         else
           let num2 = alpha_to rs ! rs_modnn rs (nat (int root * (int (fcr rs) - 1) + int (nn rs)));
               den = rs_den rs lambda deg root
           in alpha_to rs !
                rs_modnn rs (index_of rs ! num1 + index_of rs ! num2 + nn rs - index_of rs ! den))"

text \<open>The syndrome of the inferred error, for the check that ends the decoder; \<open>errs\<close> pairs
  each location with its error value.\<close>

definition rs_err_syn :: "rs_codec \<Rightarrow> (nat \<times> nat) list \<Rightarrow> nat \<Rightarrow> nat" where
  "rs_err_syn rs errs i =
     fold (\<lambda>(loc, b) tmp.
        if b = 0 then tmp
        else tmp XOR alpha_to rs !
               rs_modnn rs (index_of rs ! b + (fcr rs + i) * prim rs * (nn rs - loc - 1)))
       errs 0"

definition rs_apply_err ::
    "rs_codec \<Rightarrow> nat \<Rightarrow> nat \<Rightarrow> (nat \<times> nat) \<Rightarrow> nat list \<times> nat list \<Rightarrow> nat list \<times> nat list" where
  "rs_apply_err rs pad len = (\<lambda>(loc, b) (data, par).
     if loc < nn rs - nroots rs
     then (data[loc - pad := data ! (loc - pad) XOR b], par)
     else (data, par[loc - pad - len := par ! (loc - pad - len) XOR b]))"

text \<open>From the syndromes in index form to the inferred errors, each a location with its
  value: the locator, its roots and Forney's values. \<^const>\<open>None\<close> is the three early returns of
  \<^verbatim>\<open>RS_UNCORRECTABLE\<close> on the way.\<close>

definition rs_error_pattern :: "rs_codec \<Rightarrow> nat \<Rightarrow> nat list \<Rightarrow> (nat \<times> nat) list option" where
  "rs_error_pattern rs pad s =
     (let lambda = map (\<lambda>c. index_of rs ! c) (rs_bm rs s);
          deg = rs_deg_lambda rs lambda
      in if deg = 0 then None
         else case rs_chien rs pad deg (nn rs) 1 (iprim rs - 1) (0 # tl lambda) [] of
           None \<Rightarrow> None
         | Some found \<Rightarrow>
             if length found \<noteq> deg then None
             else
               let omega = rs_omega rs s lambda (deg - 1)
               in Some (map (\<lambda>(root, loc). (loc, rs_err_value rs lambda omega deg root)) found))"

text \<open>The decoder: \<^const>\<open>None\<close> is \<^verbatim>\<open>RS_UNCORRECTABLE\<close>; otherwise the corrected data and
  parity, the data positions it reports and the number of symbols it corrected.\<close>

definition rs_decode_internal ::
    "rs_codec \<Rightarrow> nat list \<Rightarrow> nat list \<Rightarrow> nat
       \<Rightarrow> (nat list \<times> nat list \<times> nat list \<times> nat) option" where
  "rs_decode_internal rs data par len =
     (let pad = nn rs - nroots rs - len
      in if nn rs - nroots rs < len \<or> pad \<ge> nn rs - nroots rs then None
      else
        let syn = rs_syndromes rs data par;
            s = map (\<lambda>x. index_of rs ! x) syn
        in if list_all (\<lambda>x. x = 0) syn then Some (data, par, [], 0)
        else case rs_error_pattern rs pad s of
          None \<Rightarrow> None
        | Some errs \<Rightarrow>
            if list_ex (\<lambda>i. rs_err_syn rs errs i \<noteq> alpha_to rs ! (s ! i)) [0..<nroots rs] then None
            else
              let (data', par') = fold (rs_apply_err rs pad len) errs (data, par)
              in Some (data', par',
                       map (\<lambda>(loc, b). loc - pad)
                         (filter (\<lambda>(loc, b). loc < nn rs - nroots rs \<and> b \<noteq> 0) errs),
                       length (filter (\<lambda>(loc, b). b \<noteq> 0) errs)))"

text \<open>The wrapper on bytes: \<^const>\<open>None\<close> leaves the caller's buffers as they were.\<close>

definition rs_decode_subblock ::
    "rs_codec \<Rightarrow> byte list \<Rightarrow> byte list \<Rightarrow> (byte list \<times> byte list \<times> nat list \<times> nat) option" where
  "rs_decode_subblock rs data parity =
     (if length data = 0 \<or> length data > RS_MAX_DATA_LEN then None
      else case rs_decode_internal rs (map unat data) (map unat parity) (length data) of
        None \<Rightarrow> None
      | Some (data16, par16, positions, rc) \<Rightarrow>
          Some (map word_of_nat data16, map word_of_nat par16, positions, rc))"

end
