(* ===== verification/RS_Encode.thy ===== *)
theory RS_Encode
  imports RS_Codec
begin

section \<open>The codec's tables, generator polynomial and encoder are correct\<close>

subsection \<open>What the codec relies on in its tables\<close>

locale rs_tables_ok =
  fixes rs :: rs_codec
  assumes nn_255: "nn rs = 255"
    and alpha_tab: "k < 255 \<Longrightarrow> alpha_to rs ! k = gf_alpha k"
    and alpha_zero: "alpha_to rs ! 255 = 0"
    and index_tab: "0 < a \<Longrightarrow> a < 256 \<Longrightarrow> index_of rs ! a = gf_index a"
    and index_zero: "index_of rs ! 0 = 255"
begin

lemma modnn_less: "rs_modnn rs k < 255"
  by (simp add: rs_modnn_def nn_255)

lemma alpha_modnn: "alpha_to rs ! rs_modnn rs k = gf_alpha k"
  using alpha_tab [OF modnn_less] by (simp add: rs_modnn_def nn_255 gf_alpha_mod)

lemma alpha_modnn_less: "alpha_to rs ! rs_modnn rs k < 256"
  by (simp add: alpha_modnn)

lemma sym_alpha_modnn: "sym (alpha_to rs ! rs_modnn rs k) = gf_a ^ k"
  by (simp add: alpha_modnn sym_alpha)

lemma sym_alpha_index: "0 < a \<Longrightarrow> a < 256 \<Longrightarrow> gf_a ^ (index_of rs ! a) = sym a"
  by (simp add: index_tab gf_alpha_index flip: sym_alpha)

lemma sym_mul_tab:
  "0 < a \<Longrightarrow> a < 256 \<Longrightarrow>
   sym (alpha_to rs ! rs_modnn rs (index_of rs ! a + k)) = sym a * gf_a ^ k"
  by (simp add: sym_alpha_modnn power_add sym_alpha_index)

lemma index_eq_nn_iff: "a < 256 \<Longrightarrow> index_of rs ! a = nn rs \<longleftrightarrow> a = 0"
  using gf_index_less [of a] by (cases "a = 0") (auto simp: nn_255 index_zero index_tab)

lemma index_less: "0 < a \<Longrightarrow> a < 256 \<Longrightarrow> index_of rs ! a < 255"
  by (simp add: index_tab gf_index_less)

lemma alpha_of_index: "a < 256 \<Longrightarrow> alpha_to rs ! (index_of rs ! a) = a"
  by (cases "a = 0") (auto simp: index_zero alpha_zero index_tab alpha_tab gf_index_less gf_alpha_index)

end

subsection \<open>rs_init establishes it\<close>

lemma rs_tables_loop:
  assumes "n \<le> 255" and "length io0 = 256" "length at0 = 256" "io0 ! 0 = 255" "at0 ! 255 = 0"
  shows "\<exists>io at. fold rs_table_step [0..<n] (1, io0, at0) = (gf_alpha n, io, at)
         \<and> length io = 256 \<and> length at = 256 \<and> io ! 0 = 255 \<and> at ! 255 = 0
         \<and> (\<forall>i < n. at ! i = gf_alpha i \<and> io ! gf_alpha i = i)"
  using assms(1)
proof (induction n)
  case (Suc n)
  then obtain io at where st: "fold rs_table_step [0..<n] (1, io0, at0) = (gf_alpha n, io, at)"
    and l: "length io = 256" "length at = 256" "io ! 0 = 255" "at ! 255 = 0"
    and tab: "\<forall>i < n. at ! i = gf_alpha i \<and> io ! gf_alpha i = i" by auto
  have "gf_alpha i \<noteq> gf_alpha n" "gf_alpha n \<noteq> gf_alpha i" if "i < n" for i
    using inj_on_eq_iff [OF gf_alpha_inj, of i n] that Suc.prems by auto+
  moreover have "fold rs_table_step [0..<Suc n] (1, io0, at0)
      = (gf_alpha (Suc n), io[gf_alpha n := n], at[n := gf_alpha n])"
    using st by (simp add: rs_table_step_def gf_alpha_Suc)
  ultimately show ?case using l tab Suc.prems gf_alpha_pos [of n] gf_alpha_less [of n]
    by (auto simp: less_Suc_eq nth_list_update simp del: gf_alpha_pos gf_alpha_less)
qed (use assms in simp)

lemma rs_tables_props:
  obtains io at where "rs_tables = (1, io, at)" "length io = 256" "length at = 256"
    "io ! 0 = 255" "at ! 255 = 0"
    "\<And>i. i < 255 \<Longrightarrow> at ! i = gf_alpha i"
    "\<And>a. 0 < a \<Longrightarrow> a < 256 \<Longrightarrow> io ! a = gf_index a"
proof -
  obtain io at where *: "rs_tables = (1, io, at)" "length io = 256" "length at = 256"
    "io ! 0 = 255" "at ! 255 = 0" "\<forall>i < 255. at ! i = gf_alpha i \<and> io ! gf_alpha i = i"
    using rs_tables_loop [of 255 "(replicate 256 0)[0 := 255]" "(replicate 256 0)[255 := 0]"]
    unfolding rs_tables_def by (auto simp: gf_alpha_255)
  have "io ! a = gf_index a" if "0 < a" "a < 256" for a
    using *(6) gf_index_less [OF that] gf_alpha_index [OF that] by metis
  with * that show thesis by blast
qed


subsection \<open>Polynomials as coefficient lists, lowest degree first\<close>

definition peval :: "gf list \<Rightarrow> gf \<Rightarrow> gf" where
  "peval p x = (\<Sum>i < length p. p ! i * x ^ i)"

lemma peval_Cons [simp]: "peval (c # p) x = c + x * peval p x"
  by (simp add: peval_def sum.lessThan_Suc_shift sum_distrib_left mult.left_commute del: sum.lessThan_Suc)

lemma peval_Nil [simp]: "peval [] x = 0"
  by (simp add: peval_def)

text \<open>The product with \<open>x + a\<close>, the step that builds both the generator and the polynomial
  that vanishes on given points.\<close>

fun plin :: "gf \<Rightarrow> gf list \<Rightarrow> gf list" where
  "plin a p = map (\<lambda>j. (if j = 0 then 0 else p ! (j - 1)) + (if j < length p then a * p ! j else 0))
                [0..<length p + 1]"

lemma length_plin [simp]: "length (plin a p) = Suc (length p)"
  by simp

lemma nth_plin: "j \<le> length p \<Longrightarrow> plin a p ! j =
    (if j = 0 then 0 else p ! (j - 1)) + (if j < length p then a * p ! j else 0)"
  using nth_map_upt [of j "Suc (length p)" 0] by (simp del: upt_Suc)

lemma peval_plin: "peval (plin a p) x = (x + a) * peval p x"
proof -
  have "peval (plin a p) x =
      (\<Sum>j < Suc (length p). (if j = 0 then 0 else p ! (j - 1)) * x ^ j)
      + (\<Sum>j < Suc (length p). (if j < length p then a * p ! j else 0) * x ^ j)"
    by (simp add: peval_def distrib_right sum.distrib nth_plin less_Suc_eq_le del: sum.lessThan_Suc plin.simps)
  also have "(\<Sum>j < Suc (length p). (if j = 0 then 0 else p ! (j - 1)) * x ^ j) = x * peval p x"
    by (simp add: sum.lessThan_Suc_shift peval_def sum_distrib_left mult.left_commute del: sum.lessThan_Suc)
  also have "(\<Sum>j < Suc (length p). (if j < length p then a * p ! j else 0) * x ^ j) = a * peval p x"
    by (simp add: peval_def sum_distrib_left mult.assoc)
  finally show ?thesis by (simp add: distrib_right)
qed

text \<open>A linear combination of the powers of distinct points that vanishes for as many
  consecutive powers as there are points has only zero coefficients.\<close>

primrec pvanish :: "gf list \<Rightarrow> gf list" where
  "pvanish [] = [1]"
| "pvanish (a # as) = plin a (pvanish as)"

lemma length_pvanish [simp]: "length (pvanish as) = Suc (length as)"
  by (induction as) simp_all

lemma peval_pvanish_0: "peval (pvanish as) x = 0 \<longleftrightarrow> x \<in> set as"
  by (induction as) (auto simp: peval_plin gf_add_eq_0_iff simp del: plin.simps)

lemma vandermonde:
  assumes "finite S" "card S \<le> n" "inj_on X S"
    and "\<And>i. i < n \<Longrightarrow> (\<Sum>j \<in> S. c j * X j ^ i) = (0::gf)"
    and "j0 \<in> S"
  shows "c j0 = 0"
proof -
  obtain as where as: "set as = X ` (S - {j0})" "length as = card (S - {j0})"
    by (metis assms(1,3) card_image finite_Diff finite_distinct_list finite_imageI inj_on_diff distinct_card)
  let ?p = "pvanish as"
  have len: "length ?p \<le> n"
    using assms(1,2,5) as(2) by (simp add: card_Diff_singleton) (metis Suc_pred card_gt_0_iff empty_iff)
  have "(\<Sum>j \<in> S. c j * peval ?p (X j)) = (\<Sum>j \<in> S. \<Sum>i < length ?p. ?p ! i * (c j * X j ^ i))"
    by (simp only: peval_def sum_distrib_left) (simp add: mult.left_commute)
  also have "\<dots> = (\<Sum>i < length ?p. ?p ! i * (\<Sum>j \<in> S. c j * X j ^ i))"
    by (subst sum.swap) (simp add: sum_distrib_left)
  also have "\<dots> = 0"
    using assms(4) len by (intro sum.neutral) auto
  finally have "(\<Sum>j \<in> S. c j * peval ?p (X j)) = 0" .
  moreover have "peval ?p (X j) = 0" if "j \<in> S - {j0}" for j
    using that as(1) by (simp add: peval_pvanish_0)
  ultimately have "c j0 * peval ?p (X j0) = 0"
    using assms(1,5) by (simp add: sum.remove [of S j0])
  moreover have "X j0 \<notin> set as"
    using assms(3,5) as(1) by (auto dest: inj_onD)
  ultimately show ?thesis by (simp add: peval_pvanish_0)
qed

subsection \<open>The generator polynomial\<close>

definition gen_roots :: "nat \<Rightarrow> gf list" where
  "gen_roots n = rev (map (\<lambda>i. gf_a ^ i) [0..<n])"

lemma gen_roots_Suc [simp]: "gen_roots (Suc n) = gf_a ^ n # gen_roots n"
  by (simp add: gen_roots_def)

lemma gen_roots_0 [simp]: "gen_roots 0 = []"
  by (simp add: gen_roots_def)

lemma length_gen_roots [simp]: "length (gen_roots n) = n"
  by (simp add: gen_roots_def)

lemma set_gen_roots: "set (gen_roots n) = (\<lambda>i. gf_a ^ i) ` {..<n}"
  by (auto simp: gen_roots_def)

lemma pvanish_last: "pvanish as ! length as = 1"
  by (induction as) (auto simp: nth_plin simp del: plin.simps)

lemma pvanish_0_nonzero: "pvanish (gen_roots i) ! 0 \<noteq> 0"
  by (induction i) (auto simp: nth_plin simp del: plin.simps)

context rs_tables_ok
begin

text \<open>The loop reads the coefficients it has not overwritten yet, so it is a simultaneous
  update.\<close>

lemma length_genpoly_inner: "length (rs_genpoly_inner rs root j g) = length g"
  by (induction j arbitrary: g) simp_all

lemma genpoly_inner_nth:
  assumes "j < length g" "k < length g"
  shows "rs_genpoly_inner rs root j g ! k =
    (if 0 < k \<and> k \<le> j
     then if g ! k \<noteq> 0
          then g ! (k - 1) XOR alpha_to rs ! rs_modnn rs (index_of rs ! (g ! k) + root)
          else g ! (k - 1)
     else g ! k)"
  using assms
proof (induction j arbitrary: g)
  case (Suc j)
  then show ?case
    by (subst rs_genpoly_inner.simps, subst Suc.IH)
       (auto simp: nth_list_update le_Suc_eq simp del: rs_genpoly_inner.simps)
qed simp

definition genpoly_inv :: "nat \<Rightarrow> nat list \<Rightarrow> bool" where
  "genpoly_inv i g \<longleftrightarrow> length g = 17 \<and> (\<forall>k < 17. g ! k < 256)
     \<and> (\<forall>k \<le> i. sym (g ! k) = pvanish (gen_roots i) ! k)"

lemma genpoly_inv_0: "genpoly_inv 0 ((replicate 17 0)[0 := 1])"
  by (simp add: genpoly_inv_def nth_list_update)

lemma genpoly_step_nth:
  assumes "length g = 17" "i < 16" "k < 17"
  shows "rs_genpoly_step rs i g ! k =
    (if k = 0 then alpha_to rs ! rs_modnn rs (index_of rs ! (g ! 0) + i)
     else if k \<le> i then if g ! k \<noteq> 0
          then g ! (k - 1) XOR alpha_to rs ! rs_modnn rs (index_of rs ! (g ! k) + i)
          else g ! (k - 1)
     else if k = Suc i then 1 else g ! k)"
  using assms
  by (auto simp: rs_genpoly_step_def Let_def nth_list_update length_genpoly_inner genpoly_inner_nth)

lemma genpoly_step_less:
  assumes "genpoly_inv i g" "i < 16" "k < 17"
  shows "rs_genpoly_step rs i g ! k < 256"
  using assms genpoly_step_nth [of g i k]
  by (auto simp: genpoly_inv_def alpha_modnn_less xor_less_256)

lemma genpoly_step_sym:
  assumes inv: "genpoly_inv i g" and i: "i < 16" and k: "k \<le> Suc i"
  shows "sym (rs_genpoly_step rs i g ! k) = plin (gf_a ^ i) (pvanish (gen_roots i)) ! k"
proof -
  have g: "length g = 17" "\<And>j. j < 17 \<Longrightarrow> g ! j < 256"
    "\<And>j. j \<le> i \<Longrightarrow> sym (g ! j) = pvanish (gen_roots i) ! j"
    using inv by (auto simp: genpoly_inv_def)
  have mul: "sym (alpha_to rs ! rs_modnn rs (index_of rs ! (g ! j) + i)) = gf_a ^ i * sym (g ! j)"
    if "g ! j \<noteq> 0" "j \<le> i" for j
    using that g(2) [of j] i by (simp add: sym_mul_tab)
  consider "k = 0" | "0 < k" "k \<le> i" | "k = Suc i" using k by linarith
  then show ?thesis
  proof cases
    case 1
    have "g ! 0 \<noteq> 0" using g(3) [of 0] pvanish_0_nonzero [of i] sym_0 by (metis zero_le)
    then show ?thesis using 1 i g mul by (simp add: genpoly_step_nth nth_plin del: plin.simps)
  next
    case 2
    have "g ! (k - 1) < 256" using g(2) [of "k - 1"] 2 i by simp
    moreover have "g ! k = 0 \<Longrightarrow> pvanish (gen_roots i) ! k = 0" using g(3) [of k] 2 by simp
    ultimately show ?thesis using 2 i g(1) g(3) [of k] g(3) [of "k - 1"] mul [of k]
      by (auto simp: genpoly_step_nth nth_plin sym_xor alpha_modnn_less simp del: plin.simps)
  next
    case 3
    then show ?thesis using i g(1) pvanish_last [of "gen_roots i"]
      by (simp add: genpoly_step_nth nth_plin del: plin.simps)
  qed
qed

lemma genpoly_inv_step:
  assumes "genpoly_inv i g" "i < 16"
  shows "genpoly_inv (Suc i) (rs_genpoly_step rs i g)"
proof -
  have "length (rs_genpoly_step rs i g) = 17"
    using assms by (simp add: genpoly_inv_def rs_genpoly_step_def Let_def length_genpoly_inner)
  then show ?thesis
    using genpoly_step_less [OF assms] genpoly_step_sym [OF assms]
    by (simp add: genpoly_inv_def del: plin.simps)
qed

lemma genpoly_inv_fold:
  "i \<le> 16 \<Longrightarrow> genpoly_inv i (fold (rs_genpoly_step rs) [0..<i] ((replicate 17 0)[0 := 1]))"
  using genpoly_inv_0 by (induction i) (auto intro: genpoly_inv_step)

lemma genpoly_sym_inv: "genpoly_inv 16 (rs_genpoly_sym rs)"
  using genpoly_inv_fold [of 16] by (simp add: rs_genpoly_sym_def)

end

subsection \<open>No coefficient of the generator is zero\<close>

text \<open>The encoder keeps the generator in index form and adds logarithms without testing for
  zero; this is sound because the generator has no zero coefficient. A zero coefficient
  would leave sixteen terms that vanish at sixteen consecutive powers of the primitive
  element.\<close>

abbreviation gen_coeff :: "nat \<Rightarrow> gf" where
  "gen_coeff k \<equiv> pvanish (gen_roots 16) ! k"

lemma gen_coeff_eval:
  assumes "i < 16"
  shows "(\<Sum>k < 17. gen_coeff k * (gf_a ^ i) ^ k) = 0"
proof -
  have "peval (pvanish (gen_roots 16)) (gf_a ^ i) = 0"
    using assms by (auto simp: peval_pvanish_0 set_gen_roots)
  then show ?thesis by (simp add: peval_def)
qed

lemma gen_coeff_nonzero:
  assumes "k < 17"
  shows "gen_coeff k \<noteq> 0"
proof
  assume z: "gen_coeff k = 0"
  let ?S = "{..<17} - {k}"
  have "(\<Sum>j \<in> ?S. gen_coeff j * (gf_a ^ j) ^ i) = 0" if "i < 16" for i
    using gen_coeff_eval [OF that] z assms
    by (simp add: sum.remove [of "{..<17}" k] mult.commute flip: power_mult)
  moreover have "inj_on (\<lambda>j. gf_a ^ j) ?S"
    by (auto simp: inj_on_def gf_a_inj)
  ultimately have "gen_coeff j = 0" if "j \<in> ?S" for j
    using that vandermonde [of ?S 16 "\<lambda>j. gf_a ^ j" gen_coeff j] assms by simp
  from this [of 16] show False
    using z pvanish_last [of "gen_roots 16"] by (cases "k = 16") auto
qed

subsection \<open>The codec rs_init returns\<close>

locale rs_codec_ok = rs_tables_ok +
  assumes nroots_16: "nroots rs = 16" and fcr_0: "fcr rs = 0"
    and prim_1: "prim rs = 1" and iprim_1: "iprim rs = 1"
    and genpoly_less: "k < 17 \<Longrightarrow> genpoly rs ! k < 255"
    and genpoly_tab: "k < 17 \<Longrightarrow> gf_a ^ (genpoly rs ! k) = gen_coeff k"

definition beam_codec :: rs_codec where
  "beam_codec = the (rs_init True)"

lemma rs_iprim_1: "rs_iprim = 1"
  by (simp add: rs_iprim_def while_unfold)

lemma rs_init_ok: "rs_init True = Some beam_codec \<and> rs_codec_ok beam_codec"
proof -
  obtain io at where t: "rs_tables = (1, io, at)" "length io = 256" "length at = 256"
    "io ! 0 = 255" "at ! 255 = 0" "\<And>i. i < 255 \<Longrightarrow> at ! i = gf_alpha i"
    "\<And>a. 0 < a \<Longrightarrow> a < 256 \<Longrightarrow> io ! a = gf_index a"
    using rs_tables_props by blast
  define c where "c = \<lparr>mm = 8, nn = 255, nroots = 16, fcr = 0, prim = 1, iprim = rs_iprim,
    gfpoly = 0x187, alpha_to = at, index_of = io, genpoly = []\<rparr>"
  have c: "rs_tables_ok c"
    using t by unfold_locales (simp_all add: c_def)
  let ?g = "map (\<lambda>v. io ! v) (rs_genpoly_sym c)"
  have init: "rs_init True = Some (c\<lparr>genpoly := ?g\<rparr>)"
    using t(6) [of 0] by (simp add: rs_init_def t(1) c_def)
  have len: "length (rs_genpoly_sym c) = 17"
    and v: "rs_genpoly_sym c ! k < 256" "sym (rs_genpoly_sym c ! k) = gen_coeff k" if "k < 17" for k
    using rs_tables_ok.genpoly_sym_inv [OF c] that
    by (auto simp: rs_tables_ok.genpoly_inv_def [OF c])
  have nz: "0 < rs_genpoly_sym c ! k" if "k < 17" for k
    using v(2) [OF that] gen_coeff_nonzero [OF that] by (metis gr0I sym_0)
  have io: "index_of c = io" by (simp add: c_def)
  have "rs_codec_ok (c\<lparr>genpoly := ?g\<rparr>)"
    using t len v nz rs_iprim_1 rs_tables_ok.index_less [OF c] rs_tables_ok.sym_alpha_index [OF c]
    by unfold_locales (simp_all add: c_def)
  then show ?thesis by (simp add: beam_codec_def init)
qed

interpretation bc: rs_codec_ok beam_codec
  using rs_init_ok by simp

subsection \<open>The encoder\<close>

text \<open>The word with symbols \<open>xs\<close>, first symbol the highest power, at a point.\<close>

definition word_at :: "nat list \<Rightarrow> gf \<Rightarrow> gf" where
  "word_at xs r = peval (rev (map sym xs)) r"

lemma peval_append: "peval (p @ q) x = peval p x + x ^ length p * peval q x"
  by (induction p) (simp_all add: algebra_simps)

lemma word_at_Nil [simp]: "word_at [] r = 0"
  by (simp add: word_at_def)

lemma word_at_append: "word_at (xs @ ys) r = word_at xs r * r ^ length ys + word_at ys r"
  by (simp add: word_at_def peval_append)

lemma word_at_snoc [simp]: "word_at (xs @ [d]) r = word_at xs r * r + sym d"
  by (simp add: word_at_append) (simp add: word_at_def)

lemma word_at_sum: "word_at xs r = (\<Sum>i < length xs. sym (xs ! (length xs - 1 - i)) * r ^ i)"
  by (simp add: word_at_def peval_def rev_nth)

lemma shift_sum:
  assumes "0 < m"
  shows "(\<Sum>i < m. (if i = 0 then 0 else p (m - i)) * r ^ i)
       = r * (\<Sum>i < m. p (m - 1 - i) * r ^ i) + p 0 * (r::gf) ^ m"
proof -
  obtain n where m: "m = Suc n" using assms by (cases m) auto
  have "(\<Sum>i < m. (if i = 0 then 0 else p (m - i)) * r ^ i) = r * (\<Sum>i < n. p (n - i) * r ^ i)"
    by (simp add: m sum.lessThan_Suc_shift sum_distrib_left mult.left_commute del: sum.lessThan_Suc)
  then show ?thesis by (simp add: m algebra_simps)
qed

definition rs_codeword :: "nat list \<Rightarrow> bool" where
  "rs_codeword xs \<longleftrightarrow> (\<forall>i < 16. word_at xs (gf_a ^ i) = 0)"

context rs_codec_ok
begin

lemma encode_step_nth:
  assumes "i < 16" "length par = 16"
  shows "rs_encode_step rs par d ! (15 - i) =
    (if index_of rs ! (d XOR par ! 0) = nn rs then 0
     else alpha_to rs ! rs_modnn rs (index_of rs ! (d XOR par ! 0) + genpoly rs ! i))
    XOR (if i = 0 then 0 else par ! (16 - i))"
  using assms
  by (auto simp: rs_encode_step_def Let_def nth_append xor.commute Suc_diff_le [symmetric])

lemma length_encode_step [simp]: "length (rs_encode_step rs par d) = 16"
  by (simp add: rs_encode_step_def Let_def)

text \<open>A symbol word is well formed when its symbols are bytes.\<close>

lemma encode_step_less:
  assumes "length par = 16" "\<And>i. i < 16 \<Longrightarrow> par ! i < 256" "j < 16"
  shows "rs_encode_step rs par d ! j < 256"
  using encode_step_nth [of "15 - j" par d] assms
  by (auto simp: xor_less_256 alpha_modnn_less)

lemma encode_step_sym:
  assumes "length par = 16" "\<And>i. i < 16 \<Longrightarrow> par ! i < 256" "d < 256" "i < 16"
  shows "sym (rs_encode_step rs par d ! (15 - i)) =
     (if i = 0 then 0 else sym (par ! (16 - i))) + (sym d + sym (par ! 0)) * gen_coeff i"
proof -
  let ?f = "d XOR par ! 0"
  have f: "?f < 256" "sym ?f = sym d + sym (par ! 0)"
    using assms by (simp_all add: xor_less_256 sym_xor)
  have "sym (if index_of rs ! ?f = nn rs then 0
     else alpha_to rs ! rs_modnn rs (index_of rs ! ?f + genpoly rs ! i)) = sym ?f * gen_coeff i"
    using f(1) assms(4) by (auto simp: index_eq_nn_iff sym_mul_tab genpoly_tab)
  then show ?thesis
    using encode_step_nth [OF assms(4,1), of d] assms f
    by (auto simp: sym_xor alpha_modnn_less add.commute)
qed

lemma encode_step_at:
  assumes par: "length par = 16" "\<And>i. i < 16 \<Longrightarrow> par ! i < 256" "d < 256" and r: "k < 16" "r = gf_a ^ k"
  shows "word_at (rs_encode_step rs par d) r = r * word_at par r + sym d * r ^ 16"
proof -
  let ?p0 = "sym (par ! 0)" and ?f = "sym d + sym (par ! 0)"
  have "word_at (rs_encode_step rs par d) r
      = (\<Sum>i < 16. (if i = 0 then 0 else sym (par ! (16 - i))) * r ^ i) + ?f * (\<Sum>i < 16. gen_coeff i * r ^ i)"
    using encode_step_sym [OF par]
    by (simp add: word_at_sum distrib_right sum.distrib sum_distrib_left mult.assoc)
  also have "(\<Sum>i < 16. gen_coeff i * r ^ i) = r ^ 16"
    using gen_coeff_eval [OF r(1)] pvanish_last [of "gen_roots 16"] r(2)
    by (simp add: gf_add_eq_0_iff lessThan_nat_numeral)
  also have "(\<Sum>i < 16. (if i = 0 then 0 else sym (par ! (16 - i))) * r ^ i) = r * word_at par r + ?p0 * r ^ 16"
    using shift_sum [of 16 "\<lambda>i. sym (par ! i)" r] by (simp add: word_at_sum par(1))
  finally show ?thesis by (simp add: algebra_simps)
qed

lemma encode_fold:
  assumes "\<forall>d \<in> set ds. d < 256"
  shows "length (foldl (rs_encode_step rs) (replicate 16 0) ds) = 16
    \<and> (\<forall>i < 16. foldl (rs_encode_step rs) (replicate 16 0) ds ! i < 256)
    \<and> (\<forall>k < 16. word_at (foldl (rs_encode_step rs) (replicate 16 0) ds) (gf_a ^ k)
                = word_at ds (gf_a ^ k) * (gf_a ^ k) ^ 16)"
  using assms
proof (induction ds rule: rev_induct)
  case Nil
  then show ?case by (auto simp: word_at_sum)
next
  case (snoc d ds)
  let ?p = "foldl (rs_encode_step rs) (replicate 16 0) ds"
  have p: "length ?p = 16" "\<And>i. i < 16 \<Longrightarrow> ?p ! i < 256" "d < 256"
    and e: "\<And>k. k < 16 \<Longrightarrow> word_at ?p (gf_a ^ k) = word_at ds (gf_a ^ k) * (gf_a ^ k) ^ 16"
    using snoc by auto
  show ?case
    using encode_step_less [OF p(1,2)] encode_step_at [OF p _ refl] e
    by (simp add: algebra_simps)
qed

lemma encode_codeword:
  assumes "\<forall>d \<in> set ds. d < 256"
  shows "rs_codeword (ds @ foldl (rs_encode_step rs) (replicate 16 0) ds)"
  using encode_fold [OF assms] by (simp add: rs_codeword_def word_at_append)

end

lemma unat_byte_less: "unat (x :: byte) < 256"
  using unsigned_less [of x] by simp

lemma map_unat_of_nat: "\<forall>x \<in> set xs. x < 256 \<Longrightarrow> map unat (map word_of_nat xs :: byte list) = xs"
  by (induction xs) (auto simp: unat_of_nat)

context rs_codec_ok
begin

lemma encode_subblock_unat:
  "map unat (rs_encode_subblock rs data) = foldl (rs_encode_step rs) (replicate 16 0) (map unat data)"
proof -
  have "\<forall>d \<in> set (map unat data). d < 256" by (auto simp: unat_byte_less)
  from encode_fold [OF this] show ?thesis
    unfolding rs_encode_subblock_def by (intro map_unat_of_nat) (auto simp: in_set_conv_nth)
qed

lemma encode_subblock_codeword: "rs_codeword (map unat (data @ rs_encode_subblock rs data))"
  using encode_codeword [of "map unat data"]
  by (simp add: encode_subblock_unat) (metis image_iff unat_byte_less)

lemma length_encode_subblock [simp]: "length (rs_encode_subblock rs data) = 16"
  using encode_fold [of "map unat data"]
  by (metis (no_types, lifting) encode_subblock_unat ex_map_conv length_map unat_byte_less)

end

end
