(* ===== verification/RS_Decode.thy ===== *)
theory RS_Decode
  imports RS_Encode
begin

section \<open>The decoder of the checker: soundness\<close>

text \<open>
  Whatever \<^verbatim>\<open>rs_decode_internal\<close> returns is a code word, whatever the input: the check of the
  syndromes of the inferred error that ends it makes this independent of the error search.
  What the error search finds is the subject of the next theory.
\<close>

subsection \<open>Syndromes\<close>

context rs_codec_ok
begin

lemma length_syn_step [simp]: "length (rs_syn_step rs syn d) = 16"
  by (simp add: rs_syn_step_def nroots_16)

lemma syn_step_nth:
  assumes "i < 16" "syn ! i < 256" "d < 256"
  shows "rs_syn_step rs syn d ! i < 256"
    and "sym (rs_syn_step rs syn d ! i) = sym (syn ! i) * gf_a ^ i + sym d"
  using assms
  by (auto simp: rs_syn_step_def nroots_16 fcr_0 prim_1 xor_less_256 alpha_modnn_less sym_xor
      sym_mul_tab add.commute [of "sym d"])

lemma syn_fold:
  assumes "\<forall>d \<in> set ds. d < 256" "i < 16" "length syn = 16" "syn ! i < 256"
  shows "length (foldl (rs_syn_step rs) syn ds) = 16 \<and> foldl (rs_syn_step rs) syn ds ! i < 256
    \<and> sym (foldl (rs_syn_step rs) syn ds ! i)
        = sym (syn ! i) * (gf_a ^ i) ^ length ds + word_at ds (gf_a ^ i)"
  using assms
proof (induction ds rule: rev_induct)
  case (snoc d ds)
  then show ?case by (simp add: syn_step_nth algebra_simps)
qed simp

lemma syndromes_nth:
  assumes "\<forall>d \<in> set (data @ par). d < 256" "data \<noteq> []" "i < 16"
  shows "rs_syndromes rs data par ! i < 256"
    and "sym (rs_syndromes rs data par ! i) = word_at (data @ par) (gf_a ^ i)"
proof -
  obtain d ds where data: "data = d # ds" using assms(2) by (cases data) auto
  let ?s1 = "foldl (rs_syn_step rs) (replicate 16 d) ds"
  have 1: "length ?s1 = 16 \<and> ?s1 ! i < 256 \<and> sym (?s1 ! i) = word_at (d # ds) (gf_a ^ i)"
    using syn_fold [of ds i "replicate 16 d"] assms
    using word_at_append [of "[d]" ds "gf_a ^ i"] word_at_snoc [of "[]" d "gf_a ^ i"]
    by (simp add: data)
  then show "rs_syndromes rs data par ! i < 256"
    "sym (rs_syndromes rs data par ! i) = word_at (data @ par) (gf_a ^ i)"
    using syn_fold [of par i ?s1] assms
    by (simp_all add: rs_syndromes_def data nroots_16 word_at_append del: append_Cons flip: append_Cons)
qed

lemma length_syn_fold: "length syn = 16 \<Longrightarrow> length (foldl (rs_syn_step rs) syn ds) = 16"
  by (induction ds rule: rev_induct) simp_all

lemma length_syndromes: "length (rs_syndromes rs data par) = 16"
  by (simp add: rs_syndromes_def length_syn_fold nroots_16)

lemma syndromes_zero_iff:
  assumes "\<forall>d \<in> set (data @ par). d < 256" "data \<noteq> []"
  shows "list_all (\<lambda>x. x = 0) (rs_syndromes rs data par) \<longleftrightarrow> rs_codeword (data @ par)"
  using syndromes_nth [OF assms] sym_eq_0_iff
  by (force simp: rs_codeword_def list_all_length length_syndromes)

end

subsection \<open>Chien search\<close>

text \<open>The candidate of round \<open>i\<close> is location \<open>i - 1\<close>; the search collects, in order, the
  rounds whose locator value is zero, and stops when there are enough.\<close>

definition locs_ok :: "nat \<Rightarrow> nat \<Rightarrow> (nat \<times> nat) list \<Rightarrow> bool" where
  "locs_ok pad i found \<longleftrightarrow>
     (\<forall>(j, k) \<in> set found. pad \<le> k \<and> k + 1 = j \<and> j < i) \<and> sorted_wrt (<) (map snd found)"

lemma locs_ok_mono: "locs_ok pad i found \<Longrightarrow> i \<le> i' \<Longrightarrow> locs_ok pad i' found"
  by (fastforce simp: locs_ok_def)

lemma locs_ok_snoc:
  "locs_ok pad i found \<Longrightarrow> 0 < i \<Longrightarrow> pad \<le> i - 1 \<Longrightarrow> locs_ok pad (i + 1) (found @ [(i, i - 1)])"
  by (fastforce simp: locs_ok_def sorted_wrt_append)

context rs_codec_ok
begin

lemma chien_locs:
  assumes "rs_chien rs pad deg n i k reg found = Some found'" "0 < i" "n + i \<le> 256"
    and "n \<noteq> 0 \<Longrightarrow> k = i - 1" "locs_ok pad i found"
  shows "locs_ok pad 256 found'"
  using assms
proof (induction n arbitrary: i k reg found)
  case 0
  then show ?case by (simp add: locs_ok_mono)
next
  case (Suc n)
  have k: "k = i - 1" and k': "n \<noteq> 0 \<Longrightarrow> rs_modnn rs (k + iprim rs) = i"
    using Suc.prems by (auto simp: rs_modnn_def nn_255 iprim_1)
  let ?rest = "rs_chien rs pad deg n (i + 1) (rs_modnn rs (k + iprim rs)) (rs_chien_regs rs deg reg)"
  consider (skip) "?rest found = Some found'"
    | (last) "pad \<le> i - 1" "found' = found @ [(i, i - 1)]"
    | (more) "pad \<le> i - 1" "?rest (found @ [(i, i - 1)]) = Some found'"
    using Suc.prems(1) k unfolding rs_chien.simps Let_def by (metis not_le option.distinct(1) option.inject)
  then show ?case
  proof cases
    case skip
    from Suc.IH [OF this] show ?thesis using k' Suc.prems(2,3,5) locs_ok_mono by simp
  next
    case last
    then show ?thesis using Suc.prems(2,3,5) locs_ok_snoc locs_ok_mono by (metis add_leE le_add2 add.commute add_Suc_right plus_1_eq_Suc)
  next
    case more
    from Suc.IH [OF more(2)] show ?thesis using k' more(1) Suc.prems(2,3,5) locs_ok_snoc by simp
  qed
qed

end

subsection \<open>Applying an error pattern\<close>

definition flip_sym :: "nat \<Rightarrow> nat \<times> nat \<Rightarrow> nat list \<Rightarrow> nat list" where
  "flip_sym pad = (\<lambda>(loc, b) w. w[loc - pad := w ! (loc - pad) XOR b])"

abbreviation bytes :: "nat list \<Rightarrow> bool" where
  "bytes xs \<equiv> \<forall>x \<in> set xs. x < 256"

lemma length_flip_sym [simp]: "length (flip_sym pad e w) = length w"
  by (simp add: flip_sym_def split: prod.split)

lemma length_flip_syms [simp]: "length (fold (flip_sym pad) errs w) = length w"
  by (induction errs arbitrary: w) simp_all

lemma bytes_flip_sym:
  assumes "bytes w" "snd e < 256"
  shows "bytes (flip_sym pad e w)"
proof (cases "fst e - pad < length w")
  case True
  then show ?thesis using assms
    by (auto simp: flip_sym_def xor_less_256 split: prod.splits dest!: set_update_subset_insert [THEN subsetD])
next
  case False
  then have "flip_sym pad e w = w" by (cases e) (simp add: flip_sym_def list_update_beyond)
  then show ?thesis using assms by simp
qed

lemma word_at_update:
  assumes "t < length w" "w ! t < 256" "b < 256"
  shows "word_at (w[t := w ! t XOR b]) r = word_at w r + sym b * r ^ (length w - 1 - t)"
proof -
  let ?u = "\<lambda>i. sym (w ! (length w - 1 - i)) * r ^ i"
  have "sym ((w[t := w ! t XOR b]) ! (length w - 1 - i)) * r ^ i
      = ?u i + (if i = length w - 1 - t then sym b * r ^ i else 0)" if "i < length w" for i
    using that assms by (auto simp: nth_list_update sym_xor distrib_right)
  then show ?thesis
    using assms(1) by (simp add: word_at_sum sum.distrib sum.delta) linarith
qed

definition err_poly :: "(nat \<times> nat) list \<Rightarrow> gf \<Rightarrow> gf" where
  "err_poly errs r = sum_list (map (\<lambda>(loc, b). sym b * r ^ (254 - loc)) errs)"

definition errs_ok :: "nat \<Rightarrow> (nat \<times> nat) list \<Rightarrow> bool" where
  "errs_ok pad errs \<longleftrightarrow> (\<forall>(loc, b) \<in> set errs. pad \<le> loc \<and> loc < 255 \<and> b < 256)"

lemma word_at_flips:
  assumes "errs_ok pad errs" "bytes w" "length w + pad = 255"
  shows "bytes (fold (flip_sym pad) errs w)
    \<and> word_at (fold (flip_sym pad) errs w) r = word_at w r + err_poly errs r"
  using assms
proof (induction errs arbitrary: w)
  case (Cons e errs)
  obtain loc b where e: "e = (loc, b)" by (cases e)
  have ok: "errs_ok pad errs" "pad \<le> loc" "loc < 255" "b < 256"
    using Cons.prems(1) by (auto simp: errs_ok_def e)
  have "word_at (flip_sym pad e w) r = word_at w r + sym b * r ^ (length w - 1 - (loc - pad))"
    using ok Cons.prems(2,3) by (simp add: flip_sym_def e word_at_update)
  moreover have "length w - 1 - (loc - pad) = 254 - loc"
    using ok Cons.prems(3) by linarith
  moreover have "bytes (flip_sym pad e w)"
    using bytes_flip_sym [OF Cons.prems(2), of e] ok by (simp add: e)
  ultimately show ?case
    using Cons.IH [of "flip_sym pad e w"] ok(1) Cons.prems(3) by (simp add: err_poly_def e add.assoc)
qed (simp add: err_poly_def)

context rs_codec_ok
begin

lemma err_syn_aux:
  assumes "errs_ok pad errs" "tmp < 256"
  shows "fold (\<lambda>(loc, b) tmp. if b = 0 then tmp
           else tmp XOR alpha_to rs ! rs_modnn rs (index_of rs ! b + (fcr rs + i) * prim rs * (nn rs - loc - 1)))
         errs tmp < 256
    \<and> sym (fold (\<lambda>(loc, b) tmp. if b = 0 then tmp
           else tmp XOR alpha_to rs ! rs_modnn rs (index_of rs ! b + (fcr rs + i) * prim rs * (nn rs - loc - 1)))
         errs tmp) = sym tmp + err_poly errs (gf_a ^ i)"
  using assms
  by (induction errs arbitrary: tmp)
     (auto simp: errs_ok_def err_poly_def fcr_0 prim_1 nn_255 xor_less_256 alpha_modnn_less sym_xor
        sym_mul_tab power_mult add.assoc diff_diff_left split: prod.splits)

lemma err_syn:
  assumes "errs_ok pad errs"
  shows "rs_err_syn rs errs i < 256" "sym (rs_err_syn rs errs i) = err_poly errs (gf_a ^ i)"
  using err_syn_aux [OF assms, of 0 i] by (simp_all add: rs_err_syn_def)

lemma apply_err_flip:
  assumes "length data = len" "length par = 16" "pad + len = 239" "pad \<le> fst e" "fst e < 255"
    "rs_apply_err rs pad len e (data, par) = (data', par')"
  shows "data' @ par' = flip_sym pad e (data @ par)" "length data' = len" "length par' = 16"
  using assms
  by (auto simp: rs_apply_err_def flip_sym_def nn_255 nroots_16 list_update_append nth_append
      split: prod.splits if_splits)

lemma apply_errs_flip:
  assumes "length data = len" "length par = 16" "pad + len = 239" "errs_ok pad errs"
    "fold (rs_apply_err rs pad len) errs (data, par) = (data', par')"
  shows "data' @ par' = fold (flip_sym pad) errs (data @ par)
    \<and> length data' = len \<and> length par' = 16"
  using assms
proof (induction errs arbitrary: data par)
  case (Cons e errs)
  obtain d1 p1 where 1: "rs_apply_err rs pad len e (data, par) = (d1, p1)" by fastforce
  have "pad \<le> fst e" "fst e < 255" "errs_ok pad errs"
    using Cons.prems(4) by (auto simp: errs_ok_def)
  then show ?case
    using apply_err_flip [OF Cons.prems(1,2,3) _ _ 1] Cons.IH [of d1 p1] Cons.prems(3,5) 1 by simp
qed simp

lemma err_value_less: "rs_err_value rs lambda omega deg x < 256"
  by (simp add: rs_err_value_def Let_def alpha_modnn_less)

lemma error_pattern_ok:
  assumes "rs_error_pattern rs pad s = Some errs"
  shows "errs_ok pad errs \<and> sorted_wrt (<) (map fst errs)"
proof -
  obtain lambda deg omega found where
    f: "rs_chien rs pad deg 255 1 0 (0 # tl lambda) [] = Some found"
    and errs: "errs = map (\<lambda>(x, loc). (loc, rs_err_value rs lambda omega deg x)) found"
    using assms by (auto simp: rs_error_pattern_def Let_def nn_255 iprim_1 split: if_splits option.splits)
  have "locs_ok pad 256 found"
    using chien_locs [OF f] by (simp add: locs_ok_def)
  then show ?thesis
    by (fastforce simp: locs_ok_def errs_ok_def errs err_value_less sorted_wrt_map case_prod_beta comp_def)
qed

subsection \<open>Soundness\<close>

text \<open>What the decoder returns when it returns something: the word it was given, a list of
  distinct locations with nonzero values xored in, that is a code word.\<close>

lemma decode_internal_Some:
  assumes "rs_decode_internal rs data par len = Some (data', par', ps, n)"
  obtains (clean) "0 < len" "len \<le> 239" "list_all (\<lambda>x. x = 0) (rs_syndromes rs data par)"
      "data' = data" "par' = par" "ps = []" "n = 0"
  | (fixed) errs where "0 < len" "len \<le> 239"
      "errs_ok (239 - len) errs" "sorted_wrt (<) (map fst errs)"
      "\<forall>i < 16. rs_err_syn rs errs i = alpha_to rs ! (index_of rs ! (rs_syndromes rs data par ! i))"
      "fold (rs_apply_err rs (239 - len) len) errs (data, par) = (data', par')"
      "ps = map (\<lambda>(loc, b). loc - (239 - len)) (filter (\<lambda>(loc, b). loc < 239 \<and> b \<noteq> 0) errs)"
      "n = length (filter (\<lambda>(loc, b). b \<noteq> 0) errs)"
proof -
  let ?pad = "239 - len"
  have len: "0 < len" "len \<le> 239"
    using assms by (auto simp: rs_decode_internal_def nn_255 nroots_16 Let_def split: if_splits)
  show thesis
  proof (cases "list_all (\<lambda>x. x = 0) (rs_syndromes rs data par)")
    case True
    then show thesis using clean assms len
      by (auto simp: rs_decode_internal_def nn_255 nroots_16 Let_def split: if_splits)
  next
    case False
    obtain errs where e: "rs_error_pattern rs ?pad (map (\<lambda>x. index_of rs ! x) (rs_syndromes rs data par)) = Some errs"
      using assms False len by (auto simp: rs_decode_internal_def nn_255 nroots_16 Let_def split: if_splits option.splits)
    show thesis
      using fixed [OF len conjunct1 [OF error_pattern_ok [OF e]] conjunct2 [OF error_pattern_ok [OF e]]] e assms False len
      by (auto simp: rs_decode_internal_def nn_255 nroots_16 Let_def list_ex_iff length_syndromes
          split: if_splits prod.splits)
  qed
qed

lemma decode_internal_sound:
  assumes dec: "rs_decode_internal rs data par len = Some (data', par', ps, n)"
    and wf: "length data = len" "length par = 16" "bytes (data @ par)"
  shows "length data' = len \<and> length par' = 16 \<and> bytes (data' @ par') \<and> rs_codeword (data' @ par')"
  using dec
proof (cases rule: decode_internal_Some)
  case clean
  then show ?thesis using wf syndromes_zero_iff [OF wf(3)] by auto
next
  case (fixed errs)
  have ne: "data \<noteq> []" using fixed(1) wf(1) by auto
  note ap = apply_errs_flip [OF wf(1,2) _ fixed(3) fixed(6)]
  have "sym (rs_err_syn rs errs i) = sym (rs_syndromes rs data par ! i)" if "i < 16" for i
    using fixed(5) that syndromes_nth(1) [OF wf(3) ne that] by (simp add: alpha_of_index)
  then have "err_poly errs (gf_a ^ i) = word_at (data @ par) (gf_a ^ i)" if "i < 16" for i
    using that err_syn(2) [OF fixed(3)] syndromes_nth(2) [OF wf(3) ne that] by simp
  then show ?thesis
    using ap fixed(2) word_at_flips [OF fixed(3) wf(3)] wf(1,2)
    by (simp add: rs_codeword_def)
qed

text \<open>A word that is a code word already comes back as it is, with no correction.\<close>

lemma decode_internal_clean:
  assumes "rs_codeword (data @ par)" "bytes (data @ par)" "length data = len" "0 < len" "len \<le> 239"
  shows "rs_decode_internal rs data par len = Some (data, par, [], 0)"
proof -
  have "\<not> 239 \<le> 239 - len" using assms(4,5) by linarith
  then show ?thesis using assms syndromes_zero_iff [OF assms(2)]
    by (auto simp: rs_decode_internal_def nn_255 nroots_16 Let_def)
qed

end

end
