(* ===== verification/RS_Correct.thy ===== *)
theory RS_Correct
  imports RS_Decode
begin

section \<open>The decoder restores every word with at most eight wrong symbols\<close>

text \<open>
  The error pattern is a set \<open>E\<close> of locations with values \<open>e\<close>; the locator of location \<open>l\<close> is
  the power \<open>254 - l\<close> of the primitive element. The Berlekamp-Massey loop is verified with the
  invariant \<open>bm_inv\<close>, the Chien search and Forney's formula on the polynomial it ends with.
  The lemmas on power sums take the place of a theory of polynomials: the tool is
  \<open>vandermonde\<close> and the bound on the number of roots.
\<close>

subsection \<open>Power sums\<close>

abbreviation locator :: "nat \<Rightarrow> gf" where
  "locator l \<equiv> gf_a ^ (254 - l)"

definition psum :: "nat set \<Rightarrow> (nat \<Rightarrow> gf) \<Rightarrow> nat \<Rightarrow> gf" where
  "psum E e i = (\<Sum>l \<in> E. e l * locator l ^ i)"

definition conv :: "(nat \<Rightarrow> gf) \<Rightarrow> (nat \<Rightarrow> gf) \<Rightarrow> nat \<Rightarrow> gf" where
  "conv f S k = (\<Sum>j \<le> k. f j * S (k - j))"

text \<open>\<open>f\<close> with its \<open>n + 1\<close> coefficients reversed, at a point.\<close>

definition revat :: "(nat \<Rightarrow> gf) \<Rightarrow> nat \<Rightarrow> gf \<Rightarrow> gf" where
  "revat f n x = (\<Sum>j \<le> n. f j * x ^ (n - j))"

lemma inj_locator:
  assumes "E \<subseteq> {..<255}"
  shows "inj_on locator E"
proof (rule inj_onI)
  fix l l' assume "l \<in> E" "l' \<in> E" and eq: "locator l = locator l'"
  then have "l < 255" "l' < 255" using assms by auto
  then show "l = l'" using eq gf_a_inj [of "254 - l" "254 - l'"] by simp
qed

lemma conv_psum:
  assumes "\<And>j. L < j \<Longrightarrow> f j = 0" "L \<le> k"
  shows "conv f (psum E e) k = (\<Sum>l \<in> E. (e l * revat f L (locator l)) * locator l ^ (k - L))"
proof -
  have "conv f (psum E e) k = (\<Sum>j \<le> L. f j * psum E e (k - j))"
    unfolding conv_def using assms by (intro sum.mono_neutral_right) auto
  also have "\<dots> = (\<Sum>l \<in> E. \<Sum>j \<le> L. f j * (e l * locator l ^ (k - j)))"
    by (simp only: psum_def sum_distrib_left) (rule sum.swap)
  also have "\<dots> = (\<Sum>l \<in> E. \<Sum>j \<le> L. (e l * (f j * locator l ^ (L - j))) * locator l ^ (k - L))"
    using assms(2) by (intro sum.cong refl) (simp add: mult.assoc mult.left_commute flip: power_add)
  finally show ?thesis
    by (simp add: revat_def sum_distrib_left sum_distrib_right)
qed

lemma conv_psum_vanish:
  assumes "finite E" "E \<subseteq> {..<255}" "\<And>l. l \<in> E \<Longrightarrow> e l \<noteq> 0" "\<And>j. L < j \<Longrightarrow> f j = 0"
    and "\<And>k. L \<le> k \<Longrightarrow> k < L + card E \<Longrightarrow> conv f (psum E e) k = 0" "l \<in> E"
  shows "revat f L (locator l) = 0"
proof -
  have "(\<Sum>l \<in> E. (e l * revat f L (locator l)) * locator l ^ i) = 0" if "i < card E" for i
    using conv_psum [OF assms(4), where k = "L + i" and E = E and e = e] assms(5) [of "L + i"] that by simp
  then have "e l * revat f L (locator l) = 0"
    using vandermonde [OF assms(1) le_refl inj_locator [OF assms(2)] _ assms(6),
        where c = "\<lambda>l. e l * revat f L (locator l)"] by simp
  then show ?thesis using assms(3,6) by simp
qed

text \<open>So a polynomial of degree \<open>L\<close> that annihilates as many consecutive power sums as there
  are locations annihilates all later ones.\<close>

lemma conv_psum_later:
  assumes "finite E" "E \<subseteq> {..<255}" "\<And>l. l \<in> E \<Longrightarrow> e l \<noteq> 0" "\<And>j. L < j \<Longrightarrow> f j = 0"
    and "\<And>k. L \<le> k \<Longrightarrow> k < L + card E \<Longrightarrow> conv f (psum E e) k = 0" "L \<le> k"
  shows "conv f (psum E e) k = 0"
  using conv_psum [OF assms(4,6), where E = E and e = e] conv_psum_vanish [OF assms(1-5)] by simp

subsection \<open>Berlekamp-Massey\<close>

text \<open>The loop keeps, after \<open>r\<close> rounds, the connection polynomial \<open>f\<close> of length \<open>L\<close> and the
  polynomial \<open>g\<close> saved at the last change of length, shifted once per round since.\<close>

definition bm_poly_inv ::
    "(nat \<Rightarrow> gf) \<Rightarrow> nat \<Rightarrow> nat \<Rightarrow> (nat \<Rightarrow> gf) \<Rightarrow> (nat \<Rightarrow> gf) \<Rightarrow> nat \<Rightarrow> bool" where
  "bm_poly_inv S v r f g L \<longleftrightarrow>
     f 0 = 1 \<and> L \<le> r \<and> L \<le> v
     \<and> (\<forall>j > L. f j = 0) \<and> (\<forall>j > r - L. g j = 0)
     \<and> (\<forall>k. L \<le> k \<and> k < r \<longrightarrow> conv f S k = 0)
     \<and> (0 < L \<longrightarrow> conv g S (r - 1) = 1 \<and> (\<forall>k. r - L \<le> k \<and> k + 1 < r \<longrightarrow> conv g S k = 0))"

definition pshift :: "(nat \<Rightarrow> gf) \<Rightarrow> nat \<Rightarrow> gf" where
  "pshift g j = (if j = 0 then 0 else g (j - 1))"

lemma conv_pshift: "conv (pshift g) S k = (if k = 0 then 0 else conv g S (k - 1))"
proof (cases k)
  case (Suc n)
  then show ?thesis
    by (simp add: conv_def pshift_def sum.atMost_Suc_shift del: sum.atMost_Suc)
qed (simp add: conv_def pshift_def)

lemma conv_add: "conv (\<lambda>j. f j + d * g j) S k = conv f S k + d * conv g S k"
  by (simp add: conv_def distrib_right sum.distrib sum_distrib_left mult.assoc)

lemma conv_scale: "conv (\<lambda>j. d * g j) S k = d * conv g S k"
  by (simp add: conv_def sum_distrib_left mult.assoc)

lemma bm_poly_zero:
  assumes "bm_poly_inv S v r f g L" "conv f S r = 0"
  shows "bm_poly_inv S v (Suc r) f (pshift g) L"
proof -
  have "0 < L \<Longrightarrow> 0 < r" using assms(1) by (simp add: bm_poly_inv_def)
  moreover have "conv f S k = 0" if "L \<le> k" "k < Suc r" for k
    using assms that by (cases "k = r") (auto simp: bm_poly_inv_def)
  moreover have "pshift g j = 0" if "Suc r - L < j" for j
    using assms(1) that by (auto simp: bm_poly_inv_def pshift_def)
  moreover have "conv g S (k - 1) = 0" if "Suc r - L \<le> k" "k < r" "0 < L" for k
    using assms(1) that by (auto simp: bm_poly_inv_def)
  ultimately show ?thesis
    using assms(1) unfolding bm_poly_inv_def conv_pshift by simp
qed

lemma bm_poly_keep:
  assumes inv: "bm_poly_inv S v r f g L" and d: "conv f S r = d" and L: "r < 2 * L"
  shows "bm_poly_inv S v (Suc r) (\<lambda>j. f j + d * pshift g j) (pshift g) L"
proof -
  have r: "0 < r" "0 < L" using inv L by (auto simp: bm_poly_inv_def)
  have "conv (\<lambda>j. f j + d * pshift g j) S k = 0" if "L \<le> k" "k < Suc r" for k
  proof (cases "k = r")
    case True
    then show ?thesis using inv d r by (simp add: conv_add conv_pshift bm_poly_inv_def)
  next
    case False
    then have "conv f S k = 0" "conv g S (k - 1) = 0" using inv L r that by (auto simp: bm_poly_inv_def)
    then show ?thesis by (simp add: conv_add conv_pshift)
  qed
  moreover have "pshift g j = 0" if "Suc r - L < j" for j
    using inv that by (auto simp: bm_poly_inv_def pshift_def)
  moreover have "conv g S (k - 1) = 0" if "Suc r - L \<le> k" "k < r" for k
    using inv that r by (auto simp: bm_poly_inv_def)
  moreover have "f j + d * pshift g j = 0" if "L < j" for j
    using inv L that by (auto simp: bm_poly_inv_def pshift_def)
  moreover have "f 0 + d * pshift g 0 = 1" using inv by (simp add: bm_poly_inv_def pshift_def)
  ultimately show ?thesis
    using inv r unfolding bm_poly_inv_def conv_pshift by simp
qed

lemma bm_poly_change:
  assumes inv: "bm_poly_inv S v r f g L" and d: "conv f S r = d" "d \<noteq> 0" and L: "2 * L \<le> r"
    and v: "Suc r - L \<le> v"
  shows "bm_poly_inv S v (Suc r) (\<lambda>j. f j + d * pshift g j) (\<lambda>j. inverse d * f j) (Suc r - L)"
proof -
  have "conv (\<lambda>j. f j + d * pshift g j) S k = 0" if "Suc r - L \<le> k" "k < Suc r" for k
  proof (cases "k = r")
    case True
    then have "0 < L" "0 < r" using that inv by (auto simp: bm_poly_inv_def)
    then show ?thesis using inv d True by (simp add: conv_add conv_pshift bm_poly_inv_def)
  next
    case False
    then have "conv f S k = 0" "conv g S (k - 1) = 0" using inv L that by (auto simp: bm_poly_inv_def)
    then show ?thesis by (simp add: conv_add conv_pshift)
  qed
  moreover have "f j + d * pshift g j = 0" if "Suc r - L < j" for j
    using inv L that by (auto simp: bm_poly_inv_def pshift_def)
  moreover have "Suc r - (Suc r - L) = L" using inv by (simp add: bm_poly_inv_def)
  moreover have "f 0 + d * pshift g 0 = 1" using inv by (simp add: bm_poly_inv_def pshift_def)
  ultimately show ?thesis
    using inv d v unfolding bm_poly_inv_def conv_scale by simp
qed

text \<open>The length never exceeds the number of errors: otherwise the discrepancy would be that of
  a polynomial that annihilates the power sums.\<close>

lemma bm_poly_length:
  assumes "bm_poly_inv S v r f g L" "conv f S r \<noteq> 0"
    and "finite E" "E \<subseteq> {..<255}" "\<And>l. l \<in> E \<Longrightarrow> e l \<noteq> 0" "card E = v"
    and "\<And>i. i \<le> r \<Longrightarrow> S i = psum E e i"
  shows "Suc r - L \<le> v"
proof (rule ccontr)
  assume "\<not> Suc r - L \<le> v"
  then have r: "L + v \<le> r" by simp
  have eq: "conv f S k = conv f (psum E e) k" if "k \<le> r" for k
    using that assms(7) by (simp add: conv_def)
  have "conv f (psum E e) k = 0" if "L \<le> k" "k < L + card E" for k
    using assms(1) that r assms(6) eq [of k] by (simp add: bm_poly_inv_def)
  moreover have "f j = 0" if "L < j" for j
    using assms(1) that by (simp add: bm_poly_inv_def)
  ultimately have "conv f (psum E e) r = 0"
    using conv_psum_later [OF assms(3,4), where L = L and f = f and k = r and e = e] assms(5) r by simp
  then show False using assms(2) eq [of r] by simp
qed

text \<open>The loop of the code implements these steps. Its arrays hold symbols (\<open>lambda\<close>) and
  logarithms (\<open>b\<close>, \<open>s\<close>); \<open>ival\<close> reads a logarithm, of which \<open>nn\<close> is that of zero.\<close>

abbreviation ival :: "rs_codec \<Rightarrow> nat \<Rightarrow> gf" where
  "ival rs x \<equiv> sym (alpha_to rs ! x)"

definition lcoef :: "nat list \<Rightarrow> nat \<Rightarrow> gf" where
  "lcoef xs j = (if j < length xs then sym (xs ! j) else 0)"

definition icoef :: "rs_codec \<Rightarrow> nat list \<Rightarrow> nat \<Rightarrow> gf" where
  "icoef rs xs j = (if j < length xs then ival rs (xs ! j) else 0)"

definition bm_t :: "rs_codec \<Rightarrow> nat list \<Rightarrow> nat list \<Rightarrow> nat \<Rightarrow> nat list" where
  "bm_t rs lambda b dr = lambda ! 0 # map (\<lambda>i. if b ! i \<noteq> nn rs
     then lambda ! (i + 1) XOR alpha_to rs ! rs_modnn rs (dr + b ! i) else lambda ! (i + 1)) [0..<nroots rs]"

definition bm_b :: "rs_codec \<Rightarrow> nat list \<Rightarrow> nat \<Rightarrow> nat list" where
  "bm_b rs lambda dr = map (\<lambda>i. if lambda ! i = 0 then nn rs
      else rs_modnn rs (index_of rs ! (lambda ! i) + nn rs - dr)) [0..<nroots rs + 1]"

definition bm_inv ::
    "rs_codec \<Rightarrow> nat list \<Rightarrow> nat \<Rightarrow> nat \<Rightarrow> nat list \<times> nat list \<times> nat \<Rightarrow> bool" where
  "bm_inv rs s v r = (\<lambda>(lambda, b, el).
     length lambda = 17 \<and> length b = 17 \<and> bytes lambda \<and> bytes b
     \<and> bm_poly_inv (\<lambda>i. ival rs (s ! i)) v r (lcoef lambda) (icoef rs b) el)"

context rs_codec_ok
begin

lemma ival_less: "x < 255 \<Longrightarrow> ival rs x = gf_a ^ x"
  by (simp add: alpha_tab sym_alpha)

lemma ival_nn: "ival rs (nn rs) = 0" "ival rs 255 = 0"
  by (simp_all add: nn_255 alpha_zero)

lemma ival_index: "a < 256 \<Longrightarrow> ival rs (index_of rs ! a) = sym a"
  by (simp add: alpha_of_index)

lemma ival_mul:
  assumes "x < 256" "y < 256"
  shows "(if x \<noteq> nn rs \<and> y \<noteq> nn rs then sym (alpha_to rs ! rs_modnn rs (x + y)) else 0) = ival rs x * ival rs y"
  using assms
  by (cases "x = 255"; cases "y = 255")
     (auto simp: nn_255 alpha_zero sym_alpha_modnn alpha_tab sym_alpha power_add)

lemma alpha_less: "x < 256 \<Longrightarrow> alpha_to rs ! x < 256"
  by (cases "x = 255") (auto simp: alpha_zero alpha_tab)

lemma discr_aux:
  assumes "bytes lambda" "bytes s" "r \<le> 16" "length lambda = 17" "length s = 16" "n \<le> r"
  defines "acc \<equiv> fold (\<lambda>i acc. if lambda ! i \<noteq> 0 \<and> s ! (r - i - 1) \<noteq> nn rs
           then acc XOR alpha_to rs ! rs_modnn rs (index_of rs ! (lambda ! i) + s ! (r - i - 1))
           else acc) [0..<n] 0"
  shows "acc < 256 \<and> sym acc = (\<Sum>i < n. sym (lambda ! i) * ival rs (s ! (r - i - 1)))"
  using assms(6) unfolding acc_def
proof (induction n)
  case (Suc n)
  have l: "lambda ! n < 256" "s ! (r - n - 1) < 256" using assms Suc.prems by auto
  have "index_of rs ! (lambda ! n) < 256" using l(1) index_less [of "lambda ! n"] index_zero by (cases "lambda ! n = 0") auto
  then show ?case
    using Suc l ival_mul [of "index_of rs ! (lambda ! n)" "s ! (r - n - 1)"]
    by (auto simp: sym_xor xor_less_256 alpha_modnn_less ival_index index_eq_nn_iff split: if_splits)
qed simp

lemma discr:
  assumes "bytes lambda" "bytes s" "r < 16" "length lambda = 17" "length s = 16"
  shows "rs_discr rs s lambda (Suc r) < 256"
    and "sym (rs_discr rs s lambda (Suc r)) = conv (lcoef lambda) (\<lambda>i. ival rs (s ! i)) r"
proof -
  note a = discr_aux [OF assms(1,2) _ assms(4,5), of "Suc r" "Suc r"]
  then show "rs_discr rs s lambda (Suc r) < 256" using assms(3) by (simp add: rs_discr_def)
  have "(\<Sum>i < Suc r. sym (lambda ! i) * ival rs (s ! (Suc r - i - 1)))
      = conv (lcoef lambda) (\<lambda>i. ival rs (s ! i)) r"
    unfolding conv_def lcoef_def lessThan_Suc_atMost using assms(3,4) by (intro sum.cong) auto
  then show "sym (rs_discr rs s lambda (Suc r)) = conv (lcoef lambda) (\<lambda>i. ival rs (s ! i)) r"
    using a assms(3) by (simp add: rs_discr_def)
qed

text \<open>The three array updates of a round.\<close>

lemma shift_b:
  assumes "length b = 17" "bytes b" "icoef rs b 16 = 0"
  shows "length (rs_shift_b rs b) = 17" "bytes (rs_shift_b rs b)"
    "icoef rs (rs_shift_b rs b) = pshift (icoef rs b)"
proof -
  show "length (rs_shift_b rs b) = 17" "bytes (rs_shift_b rs b)"
    using assms by (auto simp: rs_shift_b_def nroots_16 nn_255 dest: in_set_takeD)
  show "icoef rs (rs_shift_b rs b) = pshift (icoef rs b)"
  proof
    fix j
    show "icoef rs (rs_shift_b rs b) j = pshift (icoef rs b) j"
      using assms(1,3)
      by (cases "j = 17") (auto simp: rs_shift_b_def nroots_16 pshift_def nth_Cons' ival_nn icoef_def)
  qed
qed

lemma bm_t:
  assumes "length lambda = 17" "length b = 17" "bytes lambda" "bytes b" "icoef rs b 16 = 0" "dr < 255"
  shows "bytes (bm_t rs lambda b dr)"
    "lcoef (bm_t rs lambda b dr) = (\<lambda>j. lcoef lambda j + gf_a ^ dr * pshift (icoef rs b) j)"
proof -
  show "bytes (bm_t rs lambda b dr)"
    using assms by (auto simp: bm_t_def xor_less_256 alpha_modnn_less nroots_16)
  have "sym (bm_t rs lambda b dr ! Suc i) = sym (lambda ! Suc i) + gf_a ^ dr * ival rs (b ! i)" if "i < 16" for i
  proof -
    have "lambda ! Suc i < 256" "b ! i < 256" using assms that by auto
    then show ?thesis using that assms(6) ival_mul [of dr "b ! i"]
      by (auto simp: bm_t_def nroots_16 sym_xor alpha_modnn_less nn_255 alpha_zero ival_less)
  qed
  then have "lcoef (bm_t rs lambda b dr) j = lcoef lambda j + gf_a ^ dr * pshift (icoef rs b) j" for j
    using assms(1,2,5)
    by (cases "j = 17")
       (auto simp: lcoef_def icoef_def bm_t_def nroots_16 pshift_def less_Suc_eq_0_disj split: if_splits)
  then show "lcoef (bm_t rs lambda b dr) = (\<lambda>j. lcoef lambda j + gf_a ^ dr * pshift (icoef rs b) j)"
    by blast
qed

lemma bm_b:
  assumes "length lambda = 17" "bytes lambda" "dr < 255"
  shows "bytes (bm_b rs lambda dr)"
    "icoef rs (bm_b rs lambda dr) = (\<lambda>j. inverse (gf_a ^ dr) * lcoef lambda j)"
proof -
  show "bytes (bm_b rs lambda dr)"
    by (auto simp: bm_b_def nn_255 intro: less_trans [OF modnn_less])
  have "gf_a ^ (255 - dr) * gf_a ^ dr = 1"
    using assms(3) by (simp flip: power_add)
  then have inv: "gf_a ^ (255 - dr) = inverse (gf_a ^ dr)"
    by (simp add: field_simps)
  have "ival rs (bm_b rs lambda dr ! j) = inverse (gf_a ^ dr) * sym (lambda ! j)" if "j < 17" for j
  proof -
    have "lambda ! j < 256" using assms that by auto
    moreover have "index_of rs ! (lambda ! j) + 255 - dr = index_of rs ! (lambda ! j) + (255 - dr)"
      using assms(3) by simp
    ultimately show ?thesis using that inv
      by (auto simp: bm_b_def nroots_16 nn_255 alpha_zero sym_mul_tab nth_append)
  qed
  then show "icoef rs (bm_b rs lambda dr) = (\<lambda>j. inverse (gf_a ^ dr) * lcoef lambda j)"
    using assms(1) by (intro ext) (simp add: lcoef_def icoef_def bm_b_def nroots_16)
qed

lemma bm_step_inv:
  assumes inv: "bm_inv rs s v r (lambda, b, el)" and r: "r < 16" and s: "length s = 16" "bytes s"
    and E: "finite E" "E \<subseteq> {..<255}" "\<And>l. l \<in> E \<Longrightarrow> e l \<noteq> 0" "card E = v"
    and S: "\<And>i. i < 16 \<Longrightarrow> ival rs (s ! i) = psum E e i"
  shows "bm_inv rs s v (Suc r) (rs_bm_step rs s (Suc r) (lambda, b, el))"
proof -
  let ?S = "\<lambda>i. ival rs (s ! i)" and ?D = "rs_discr rs s lambda (Suc r)"
  let ?d = "conv (lcoef lambda) ?S r" and ?dr = "index_of rs ! ?D"
  have l: "length lambda = 17" "length b = 17" "bytes lambda" "bytes b"
    and p: "bm_poly_inv ?S v r (lcoef lambda) (icoef rs b) el"
    using inv by (simp_all add: bm_inv_def)
  have b16: "icoef rs b 16 = 0" using p r by (simp add: bm_poly_inv_def)
  have D: "?D < 256" "sym ?D = ?d" using discr [OF l(3) s(2) r l(1) s(1)] by simp_all
  note sh = shift_b [OF l(2,4) b16]
  show ?thesis
  proof (cases "?D = 0")
    case True
    then show ?thesis using D l sh bm_poly_zero [OF p]
      by (simp add: bm_inv_def rs_bm_step_def index_zero nn_255)
  next
    case False
    then have dr: "?dr < 255" "gf_a ^ ?dr = ?d" "?d \<noteq> 0"
      using D index_less sym_alpha_index by (auto simp: sym_eq_0_iff simp flip: D(2))
    note t = bm_t [OF l b16 dr(1), unfolded dr(2)] and nb = bm_b [OF l(1,3) dr(1), unfolded dr(2)]
    have lt: "length (bm_t rs lambda b ?dr) = 17" "length (bm_b rs lambda ?dr) = 17" by (simp_all add: bm_t_def bm_b_def nroots_16)
    show ?thesis
    proof (cases "2 * el \<le> r")
      case True
      have "Suc r - el \<le> v"
        by (rule bm_poly_length [OF p dr(3) E]) (use S r in simp_all)
      then have "bm_inv rs s v (Suc r) (bm_t rs lambda b ?dr, bm_b rs lambda ?dr, Suc r - el)"
        using lt t nb bm_poly_change [OF p refl dr(3) True] unfolding bm_inv_def by simp
      then show ?thesis using True dr(1) by (simp add: rs_bm_step_def nn_255 Let_def bm_t_def bm_b_def)
    next
      case False
      then have "bm_inv rs s v (Suc r) (bm_t rs lambda b ?dr, rs_shift_b rs b, el)"
        using lt t sh bm_poly_keep [OF p refl] unfolding bm_inv_def by simp
      then show ?thesis using False dr(1) by (simp add: rs_bm_step_def nn_255 Let_def bm_t_def bm_b_def)
    qed
  qed
qed

lemma bm_loop_inv:
  assumes "r \<le> 16" "length s = 16" "bytes s"
    and "finite E" "E \<subseteq> {..<255}" "\<And>l. l \<in> E \<Longrightarrow> e l \<noteq> 0" "card E = v"
    and "\<And>i. i < 16 \<Longrightarrow> ival rs (s ! i) = psum E e i"
  shows "bm_inv rs s v r (fold (rs_bm_step rs s) [1..<Suc r]
    (1 # replicate 16 0, map (\<lambda>c. index_of rs ! c) (1 # replicate 16 0), 0))"
  using assms(1)
proof (induction r)
  case 0
  have "index_of rs ! 0 < 256" "index_of rs ! 1 < 256" "index_of rs ! Suc 0 < 256"
    using index_less [of 1] by (simp_all add: index_zero)
  moreover have "lcoef (1 # replicate 16 0) j = (if j = 0 then 1 else 0)"
    "icoef rs (map (\<lambda>c. index_of rs ! c) (1 # replicate 16 0)) j = (if j = 0 then 1 else 0)" for j
    using alpha_of_index [of 1] by (auto simp: lcoef_def icoef_def nth_Cons' index_zero alpha_zero)
  ultimately show ?case by (simp add: bm_inv_def bm_poly_inv_def)
next
  case (Suc r)
  obtain lambda b el where st: "fold (rs_bm_step rs s) [1..<Suc r]
      (1 # replicate 16 0, map (\<lambda>c. index_of rs ! c) (1 # replicate 16 0), 0) = (lambda, b, el)"
    by (cases "fold (rs_bm_step rs s) [1..<Suc r]
      (1 # replicate 16 0, map (\<lambda>c. index_of rs ! c) (1 # replicate 16 0), 0)")
  then have "bm_inv rs s v r (lambda, b, el)" using Suc by simp
  from bm_step_inv [OF this _ assms(2-8)] show ?case
    using st Suc.prems by simp
qed

end

subsection \<open>The locator polynomial\<close>

text \<open>What the loop ends with, when there are at most eight errors: a polynomial of degree the
  number of errors, with constant coefficient one, that vanishes exactly at the inverses of
  the locators of the errors.\<close>

definition pat :: "(nat \<Rightarrow> gf) \<Rightarrow> nat \<Rightarrow> gf \<Rightarrow> gf" where
  "pat f n x = (\<Sum>j \<le> n. f j * x ^ j)"

lemma revat_pat:
  assumes "X * x = 1"
  shows "revat f n X = X ^ n * pat f n x"
proof -
  have "X ^ (n - j) = X ^ n * x ^ j" if "j \<le> n" for j
    using assms that power_add [of X "n - j" j] by (simp add: mult.assoc power_mult_distrib [symmetric])
  then show ?thesis by (simp add: revat_def pat_def sum_distrib_left mult.left_commute)
qed

lemma pat_extend: "(\<And>j. n < j \<Longrightarrow> f j = 0) \<Longrightarrow> n \<le> m \<Longrightarrow> pat f m x = pat f n x"
  unfolding pat_def by (intro sum.mono_neutral_right) auto

lemma locator_inverse: "l < 255 \<Longrightarrow> locator l * gf_a ^ Suc l = 1"
  using gf_a_255 by (simp del: power_Suc flip: power_add)

text \<open>Division by \<open>1 + X x\<close>: the quotient has the coefficients \<open>revat f i X\<close>.\<close>

lemma revat_Suc: "revat f (Suc i) X = X * revat f i X + f (Suc i)"
proof -
  have "X ^ (Suc i - j) = X * X ^ (i - j)" if "j \<le> i" for j
    using that by (simp add: Suc_diff_le)
  then show ?thesis by (simp add: revat_def sum_distrib_left mult.left_commute)
qed

lemma pat_quotient:
  "(1 + X * x) * pat (\<lambda>i. revat f i X) n x = pat f n x + X * revat f n X * x ^ Suc n"
proof (induction n)
  case 0
  then show ?case by (simp add: pat_def revat_def algebra_simps)
next
  case (Suc n)
  have "(1 + X * x) * pat (\<lambda>i. revat f i X) (Suc n) x
      = pat f n x + X * revat f n X * x ^ Suc n + (1 + X * x) * (revat f (Suc n) X * x ^ Suc n)"
    using Suc by (simp add: pat_def distrib_left)
  also have "\<dots> = pat f n x + (X * revat f n X + revat f (Suc n) X) * x ^ Suc n
      + X * revat f (Suc n) X * x ^ Suc (Suc n)"
    by (simp add: algebra_simps)
  also have "X * revat f n X + revat f (Suc n) X = f (Suc n)"
    by (simp add: revat_Suc flip: add.assoc)
  finally show ?case by (simp add: pat_def)
qed

lemma pat_divide:
  assumes "X * x0 = 1" "pat f (Suc n) x0 = 0"
  shows "(1 + X * x) * pat (\<lambda>i. revat f i X) n x = pat f (Suc n) x"
proof -
  have "X * revat f n X + f (Suc n) = 0"
    using revat_pat [OF assms(1), of f "Suc n"] assms(2) by (simp add: revat_Suc)
  then have "X * revat f n X = f (Suc n)" by (simp add: gf_add_eq_0_iff)
  then show ?thesis using pat_quotient [of X x f n] by (simp add: pat_def)
qed

lemma pat_root_bound:
  assumes "finite R" "0 \<notin> R" "\<forall>z \<in> R. pat f n z = 0" "n < card R"
  shows "f 0 = 0"
  using assms
proof (induction n arbitrary: f R)
  case 0
  then obtain z where "z \<in> R" by (metis card_gt_0_iff ex_in_conv)
  then show ?case using 0 by (auto simp: pat_def)
next
  case (Suc n)
  then have "R \<noteq> {}" by auto
  then obtain a where a: "a \<in> R" "a \<noteq> 0" using Suc.prems(2) by auto
  define X where "X = inverse a"
  have X: "X * a = 1" using a(2) by (simp add: X_def)
  have "pat (\<lambda>i. revat f i X) n z = 0" if "z \<in> R - {a}" for z
  proof -
    have "1 + X * z \<noteq> 0" using that a(2) by (auto simp: X_def gf_add_eq_0_iff field_simps)
    then show ?thesis using pat_divide [OF X, of f n z] Suc.prems(3) a(1) that by auto
  qed
  then have "revat f 0 X = 0"
    using Suc.prems a(1) by (intro Suc.IH [of "R - {a}" "\<lambda>i. revat f i X"]) auto
  then show ?case by (simp add: revat_def)
qed

definition errlocs :: "(nat \<Rightarrow> gf) \<Rightarrow> nat set \<Rightarrow> bool" where
  "errlocs f E \<longleftrightarrow> f 0 = 1 \<and> finite E \<and> E \<subseteq> {..<255} \<and> (\<forall>j > card E. f j = 0)
     \<and> (\<forall>l \<in> E. pat f (card E) (gf_a ^ Suc l) = 0)"

lemma inj_roots: "inj_on (\<lambda>l. gf_a ^ Suc l) {..<255}"
  by (auto simp: inj_on_def gf_a_inj)

lemma errlocs_lead:
  assumes "errlocs f E" "E \<noteq> {}"
  shows "f (card E) \<noteq> 0"
proof
  assume z: "f (card E) = 0"
  let ?R = "(\<lambda>l. gf_a ^ Suc l) ` E"
  have E: "0 < card E" "card ?R = card E"
    using assms inj_on_subset [OF inj_roots] by (auto simp: errlocs_def card_gt_0_iff card_image)
  have "f j = 0" if "card E - 1 < j" for j
    using that z assms(1) by (cases "j = card E") (auto simp: errlocs_def)
  then have "pat f (card E) x = pat f (card E - 1) x" for x
    by (intro pat_extend) auto
  then have "f 0 = 0"
    using assms(1) E by (intro pat_root_bound [of ?R f "card E - 1"]) (auto simp: errlocs_def)
  then show False using assms(1) by (simp add: errlocs_def)
qed

lemma errlocs_root_iff:
  assumes "errlocs f E" "l < 255"
  shows "pat f (card E) (gf_a ^ Suc l) = 0 \<longleftrightarrow> l \<in> E"
proof
  assume z: "pat f (card E) (gf_a ^ Suc l) = 0"
  show "l \<in> E"
  proof (rule ccontr)
    assume "l \<notin> E"
    let ?R = "(\<lambda>l. gf_a ^ Suc l) ` insert l E"
    have "insert l E \<subseteq> {..<255}" using assms by (auto simp: errlocs_def)
    then have "card ?R = card (insert l E)"
      using inj_on_subset [OF inj_roots] by (intro card_image)
    then have "card ?R = Suc (card E)"
      using \<open>l \<notin> E\<close> assms(1) by (simp add: errlocs_def)
    then have "f 0 = 0"
      using assms(1) z by (intro pat_root_bound [of ?R f "card E"]) (auto simp: errlocs_def)
    then show False using assms(1) by (simp add: errlocs_def)
  qed
qed (use assms in \<open>simp add: errlocs_def\<close>)

subsection \<open>Forney's formula\<close>

lemma conv_psum_revat: "conv f (psum E e) i = (\<Sum>l \<in> E. e l * revat f i (locator l))"
proof -
  have "conv f (psum E e) i = (\<Sum>j \<le> i. \<Sum>l \<in> E. e l * (f j * locator l ^ (i - j)))"
    by (simp add: conv_def psum_def sum_distrib_left mult.left_commute)
  also have "\<dots> = (\<Sum>l \<in> E. \<Sum>j \<le> i. e l * (f j * locator l ^ (i - j)))"
    by (rule sum.swap)
  finally show ?thesis by (simp add: revat_def sum_distrib_left)
qed

lemma pat_conv_psum:
  "pat (conv f (psum E e)) n x = (\<Sum>l \<in> E. e l * pat (\<lambda>i. revat f i (locator l)) n x)"
proof -
  have "pat (conv f (psum E e)) n x = (\<Sum>i \<le> n. \<Sum>l \<in> E. e l * (revat f i (locator l) * x ^ i))"
    by (simp add: pat_def conv_psum_revat sum_distrib_right mult.assoc)
  also have "\<dots> = (\<Sum>l \<in> E. \<Sum>i \<le> n. e l * (revat f i (locator l) * x ^ i))"
    by (rule sum.swap)
  finally show ?thesis by (simp add: pat_def sum_distrib_left)
qed

text \<open>The quotient of the locator polynomial by one of its factors vanishes at the other
  roots and not at its own.\<close>

abbreviation pquot :: "(nat \<Rightarrow> gf) \<Rightarrow> nat set \<Rightarrow> nat \<Rightarrow> gf \<Rightarrow> gf" where
  "pquot f E l x \<equiv> pat (\<lambda>i. revat f i (locator l)) (card E - 1) x"

lemma pquot_mult:
  assumes "errlocs f E" "l \<in> E"
  shows "(1 + locator l * x) * pquot f E l x = pat f (card E) x"
proof -
  have "0 < card E" using assms by (auto simp: errlocs_def card_gt_0_iff)
  then have "Suc (card E - 1) = card E" "l < 255" "pat f (card E) (gf_a ^ Suc l) = 0"
    using assms by (auto simp: errlocs_def simp del: power_Suc)
  then show ?thesis using pat_divide [OF locator_inverse, of l f "card E - 1" x] by simp
qed

lemma pquot_other:
  assumes "errlocs f E" "l \<in> E" "m \<in> E" "l \<noteq> m"
  shows "pquot f E l (gf_a ^ Suc m) = 0"
proof -
  have lm: "l < 255" "m < 255" using assms by (auto simp: errlocs_def)
  have "locator l * gf_a ^ Suc m \<noteq> locator l * gf_a ^ Suc l"
    using lm assms(4) gf_a_inj [of m l] by simp
  then have "1 + locator l * gf_a ^ Suc m \<noteq> 0"
    using locator_inverse [OF lm(1)] by (auto simp: gf_add_eq_0_iff simp del: power_Suc)
  moreover have "pat f (card E) (gf_a ^ Suc m) = 0"
    using assms(1,3) by (simp add: errlocs_def)
  ultimately show ?thesis
    using pquot_mult [OF assms(1,2), of "gf_a ^ Suc m"] by (metis mult_eq_0_iff)
qed

lemma pquot_own:
  assumes "errlocs f E" "l \<in> E"
  shows "pquot f E l (gf_a ^ Suc l) \<noteq> 0"
proof
  assume z: "pquot f E l (gf_a ^ Suc l) = 0"
  let ?R = "(\<lambda>l. gf_a ^ Suc l) ` E"
  have "finite E" "0 < card E" "card ?R = card E"
    using assms inj_on_subset [OF inj_roots] by (auto simp: errlocs_def card_gt_0_iff card_image)
  moreover have "pquot f E l (gf_a ^ Suc m) = 0" if "m \<in> E" for m
    using z pquot_other [OF assms that] by (cases "m = l") (simp_all del: power_Suc)
  then have "\<forall>x \<in> ?R. pquot f E l x = 0" by blast
  ultimately have "revat f 0 (locator l) = 0"
    by (intro pat_root_bound [of ?R _ "card E - 1"]) auto
  then show False using assms(1) by (simp add: revat_def errlocs_def)
qed

lemma evaluator_at:
  assumes "errlocs f E" "m \<in> E"
  shows "pat (conv f (psum E e)) (card E - 1) (gf_a ^ Suc m) = e m * pquot f E m (gf_a ^ Suc m)"
proof -
  have "finite E" using assms by (simp add: errlocs_def)
  moreover have "(\<Sum>l \<in> E - {m}. e l * pquot f E l (gf_a ^ Suc m)) = 0"
    using pquot_other [OF assms(1) _ assms(2)] by (intro sum.neutral) (auto simp del: power_Suc)
  ultimately show ?thesis using assms(2) by (simp add: pat_conv_psum sum.remove [of E m] del: power_Suc)
qed

lemma sum_pat_odd:
  "(\<Sum>i < n. pat f i x) = (if odd n then pat f n x else 0) + (\<Sum>j \<le> n. if odd j then f j * x ^ j else 0)"
  by (induction n) (auto simp: pat_def algebra_simps)

lemma pquot_derivative:
  assumes "errlocs f E" "l \<in> E"
  shows "pquot f E l (gf_a ^ Suc l) = (\<Sum>j \<le> card E. if odd j then f j * (gf_a ^ Suc l) ^ j else 0)"
proof -
  let ?x = "gf_a ^ Suc l"
  have l: "l < 255" and v: "0 < card E" and z: "pat f (card E) ?x = 0"
    using assms by (auto simp: errlocs_def card_gt_0_iff simp del: power_Suc)
  have "revat f i (locator l) * ?x ^ i = pat f i ?x" for i
    using revat_pat [OF locator_inverse [OF l], of f i] locator_inverse [OF l]
    by (simp add: mult.commute mult.left_commute del: power_Suc flip: power_mult_distrib)
  then have "pquot f E l ?x = (\<Sum>i \<le> card E - 1. pat f i ?x)"
    by (simp only: pat_def [of "\<lambda>i. revat f i (locator l)"])
  also have "{..card E - 1} = {..<card E}" using v by auto
  finally show ?thesis using z by (simp add: sum_pat_odd del: power_Suc)
qed

subsection \<open>The search of the code finds the error pattern\<close>

text \<open>The sums of the code: a loop that xors in the terms a test lets through.\<close>

lemma fold_cond_xor:
  assumes "\<And>i. i \<in> set xs \<Longrightarrow> P i \<Longrightarrow> g i < 256" "acc < 256"
  shows "fold (\<lambda>i acc. if P i then acc XOR g i else acc) xs acc < 256
    \<and> sym (fold (\<lambda>i acc. if P i then acc XOR g i else acc) xs acc)
      = sym acc + sum_list (map (\<lambda>i. if P i then sym (g i) else 0) xs)"
  using assms by (induction xs arbitrary: acc) (auto simp: xor_less_256 sym_xor add.assoc)

lemma sum_list_upt: "sum_list (map f [0..<n]) = (\<Sum>i < n. f i :: gf)"
  by (induction n) (simp_all add: add.commute)

lemma sum_list_rev_upt: "sum_list (map f (rev [0..<n])) = (\<Sum>i < n. f i :: gf)"
  by (metis rev_map sum_list_rev sum_list_upt)

lemma length_filter_upt: "length (filter (\<lambda>l. l \<in> E) [0..<i]) = card (E \<inter> {..<i})"
  using distinct_card [of "filter (\<lambda>l. l \<in> E) [0..<i]"]
  by (simp add: Int_def conj_commute atLeast0LessThan [symmetric] del: atLeast0LessThan)

lemma filter_upt_all:
  assumes "finite E" "length (filter (\<lambda>l. l \<in> E) [0..<i]) = card E" "i \<le> n"
  shows "filter (\<lambda>l. l \<in> E) [0..<n] = filter (\<lambda>l. l \<in> E) [0..<i]"
proof -
  have "E \<inter> {..<i} = E" using assms(1,2) length_filter_upt [of E i] by (intro card_subset_eq) auto
  then have "l < i" if "l \<in> E" for l using that by blast
  then have "filter (\<lambda>l. l \<in> E) [i..<n] = []" by (auto simp: filter_empty_conv dest!: leD)
  then show ?thesis using upt_add_eq_append [of 0 i "n - i"] assms(3) by simp
qed

lemma fold_last:
  "v < n \<Longrightarrow> P v \<Longrightarrow> (\<And>j. v < j \<Longrightarrow> j < n \<Longrightarrow> \<not> P j) \<Longrightarrow>
   fold (\<lambda>i d. if P i then i else d) [0..<n] d = v"
proof (induction n)
  case (Suc n)
  then show ?case by (cases "v = n") auto
qed simp

context rs_codec_ok
begin

lemma bm_errlocs:
  assumes s: "length s = 16" "bytes s"
    and E: "finite E" "E \<subseteq> {..<255}" "\<And>l. l \<in> E \<Longrightarrow> e l \<noteq> 0" "card E \<le> 8"
    and S: "\<And>i. i < 16 \<Longrightarrow> ival rs (s ! i) = psum E e i"
  shows "length (rs_bm rs s) = 17" "bytes (rs_bm rs s)" "errlocs (lcoef (rs_bm rs s)) E"
proof -
  obtain lambda b el where st: "fold (rs_bm_step rs s) [1..<Suc 16]
      (1 # replicate 16 0, map (\<lambda>c. index_of rs ! c) (1 # replicate 16 0), 0) = (lambda, b, el)"
    by (metis prod_cases3)
  then have bm: "rs_bm rs s = lambda" by (simp add: rs_bm_def nroots_16)
  have inv: "bm_inv rs s (card E) 16 (lambda, b, el)"
    using bm_loop_inv [OF le_refl s E(1-3) refl S] st by simp
  then show "length (rs_bm rs s) = 17" "bytes (rs_bm rs s)" by (auto simp: bm bm_inv_def)
  let ?f = "lcoef lambda"
  have f: "?f 0 = 1" "el \<le> card E" "\<And>j. el < j \<Longrightarrow> ?f j = 0"
    "\<And>k. el \<le> k \<Longrightarrow> k < 16 \<Longrightarrow> conv ?f (\<lambda>i. ival rs (s ! i)) k = 0"
    using inv by (auto simp: bm_inv_def bm_poly_inv_def)
  have "conv ?f (psum E e) k = 0" if "el \<le> k" "k < el + card E" for k
  proof -
    have "k < 16" using that f(2) E(4) by simp
    then have "conv ?f (psum E e) k = conv ?f (\<lambda>i. ival rs (s ! i)) k" using S by (simp add: conv_def)
    then show ?thesis using f(4) that \<open>k < 16\<close> by simp
  qed
  then have "revat ?f el (locator l) = 0" if "l \<in> E" for l
    using conv_psum_vanish [OF E(1,2), where e = e and f = ?f and L = el and l = l] E(3) f(3) that by simp
  then have "pat ?f (card E) (gf_a ^ Suc l) = 0" if "l \<in> E" for l
    using that E(2) revat_pat [OF locator_inverse, of l ?f el] pat_extend [OF f(3,2)]
    by (auto simp del: power_Suc)
  then show "errlocs (lcoef (rs_bm rs s)) E"
    using f E by (auto simp: errlocs_def bm simp del: power_Suc)
qed

lemma deg_lambda:
  assumes "length lam = 17" "bytes lam" "errlocs (icoef rs lam) E" "card E \<le> 8"
  shows "rs_deg_lambda rs lam = card E"
proof -
  have iff: "icoef rs lam j = 0 \<longleftrightarrow> lam ! j = nn rs" if "j < 17" for j
  proof -
    have "lam ! j < 256" using assms(1,2) that by auto
    then show ?thesis
      using that assms(1) by (cases "lam ! j = 255") (auto simp: icoef_def nn_255 alpha_zero alpha_tab sym_alpha)
  qed
  have "icoef rs lam (card E) \<noteq> 0"
    using errlocs_lead [OF assms(3)] assms(3) by (cases "E = {}") (auto simp: errlocs_def)
  then show ?thesis
    unfolding rs_deg_lambda_def nroots_16
    using iff assms(3,4) by (intro fold_last) (auto simp: errlocs_def)
qed

text \<open>Chien search: after \<open>i\<close> steps register \<open>j\<close> holds the term of degree \<open>j\<close> at the power \<open>i\<close>
  of the primitive element.\<close>

definition chien_inv :: "(nat \<Rightarrow> gf) \<Rightarrow> nat \<Rightarrow> nat \<Rightarrow> nat list \<Rightarrow> bool" where
  "chien_inv f deg i reg \<longleftrightarrow> length reg = 17 \<and> bytes reg
     \<and> (\<forall>j. 0 < j \<and> j \<le> deg \<longrightarrow> ival rs (reg ! j) = f j * (gf_a ^ i) ^ j)"

lemma chien_regs_inv:
  assumes "chien_inv f deg i reg" "deg \<le> 16"
  shows "chien_inv f deg (Suc i) (rs_chien_regs rs deg reg)"
proof -
  have "ival rs (rs_chien_regs rs deg reg ! j) = f j * (gf_a ^ Suc i) ^ j" if "0 < j" "j \<le> deg" for j
  proof -
    have j: "reg ! j < 256" "j < 17" using assms that by (auto simp: chien_inv_def)
    have "ival rs (rs_chien_regs rs deg reg ! j) = ival rs (reg ! j) * gf_a ^ j"
      using that j by (cases "reg ! j = 255")
        (auto simp: rs_chien_regs_def nroots_16 nn_255 alpha_zero sym_alpha_modnn alpha_tab sym_alpha power_add)
    then show ?thesis using assms(1) that by (simp add: chien_inv_def power_mult_distrib mult.assoc mult.commute)
  qed
  moreover have "bytes (rs_chien_regs rs deg reg)"
    using assms by (auto simp: rs_chien_regs_def nroots_16 nn_255 chien_inv_def intro: less_trans [OF modnn_less])
  ultimately show ?thesis by (simp add: chien_inv_def rs_chien_regs_def nroots_16)
qed

lemma chien_q:
  assumes "chien_inv f deg i reg" "deg \<le> 16" "f 0 = 1"
  shows "rs_chien_q rs deg reg = 0 \<longleftrightarrow> pat f deg (gf_a ^ i) = 0"
proof -
  have reg: "reg ! j < 256" if "j \<le> deg" for j using assms that by (auto simp: chien_inv_def)
  have t: "(if reg ! j \<noteq> nn rs then ival rs (reg ! j) else 0) = f j * (gf_a ^ i) ^ j" if "0 < j" "j \<le> deg" for j
    using assms(1) that by (auto simp: chien_inv_def nn_255 alpha_zero)
  note fx = fold_cond_xor [of "rev [1..<deg + 1]" "\<lambda>j. reg ! j \<noteq> nn rs" "\<lambda>j. alpha_to rs ! (reg ! j)" 1]
  have "map (\<lambda>j. if reg ! j \<noteq> nn rs then ival rs (reg ! j) else 0) (rev [1..<deg + 1])
      = map (\<lambda>j. f j * (gf_a ^ i) ^ j) (rev [1..<deg + 1])"
    by (intro map_cong refl t) auto
  moreover have "alpha_to rs ! (reg ! j) < 256" if "j \<in> set (rev [1..<deg + 1])" for j
    using that reg [of j] by (auto intro: alpha_less)
  ultimately have q: "rs_chien_q rs deg reg < 256"
    "sym (rs_chien_q rs deg reg) = 1 + sum_list (map (\<lambda>j. f j * (gf_a ^ i) ^ j) (rev [1..<deg + 1]))"
    using fx unfolding rs_chien_q_def by (simp_all only: sym_1)
  have "sum_list (map g (rev [1..<deg + 1])) = (\<Sum>j \<in> {1..<deg + 1}. g j :: gf)" for g
    by (simp add: rev_map [symmetric] interv_sum_list_conv_sum_set_nat del: upt_Suc)
  moreover have "pat f deg (gf_a ^ i) = f 0 + (\<Sum>j \<in> {1..<deg + 1}. f j * (gf_a ^ i) ^ j)"
    by (simp add: pat_def atMost_atLeast0 sum.atLeast_Suc_atMost atLeastLessThanSuc_atLeastAtMost)
  ultimately show ?thesis using q assms(3) sym_eq_0_iff [OF q(1)] by simp
qed

lemma chien_finds:
  assumes "n + i = 256" "0 < i" "n \<noteq> 0 \<Longrightarrow> k = i - 1"
    and f: "errlocs f E" "\<And>l. l \<in> E \<Longrightarrow> pad \<le> l" "card E \<le> 16"
    and reg: "chien_inv f (card E) (i - 1) reg"
    and found: "found = map (\<lambda>l. (Suc l, l)) (filter (\<lambda>l. l \<in> E) [0..<i - 1])" "length found < card E"
  shows "rs_chien rs pad (card E) n i k reg found
    = Some (map (\<lambda>l. (Suc l, l)) (filter (\<lambda>l. l \<in> E) [0..<255]))"
  using assms(1-3) reg found
proof (induction n arbitrary: i k reg found)
  case 0
  then show ?case by simp
next
  case (Suc n)
  let ?reg = "rs_chien_regs rs (card E) reg"
  have i: "k = i - 1" "i - 1 < 255" "Suc (i - 1) = i" and k: "n \<noteq> 0 \<Longrightarrow> rs_modnn rs (k + iprim rs) = i"
    using Suc.prems by (auto simp: rs_modnn_def nn_255 iprim_1)
  have inv: "chien_inv f (card E) i ?reg"
    using chien_regs_inv [OF Suc.prems(4) f(3)] i(3) by simp
  have q: "rs_chien_q rs (card E) ?reg = 0 \<longleftrightarrow> i - 1 \<in> E"
    using chien_q [OF inv f(3)] errlocs_root_iff [OF f(1) i(2)] f(1) i(3) by (simp add: errlocs_def del: power_Suc)
  have up: "[0..<i] = [0..<i - 1] @ [i - 1]" using i(3) upt_Suc_append [of 0 "i - 1"] by simp
  show ?case
  proof (cases "i - 1 \<in> E")
    case False
    then show ?thesis using q k Suc.IH [of "Suc i" "rs_modnn rs (k + iprim rs)" ?reg found] Suc.prems inv up
      by (simp add: Let_def)
  next
    case True
    let ?found = "found @ [(i, i - 1)]"
    have fd: "?found = map (\<lambda>l. (Suc l, l)) (filter (\<lambda>l. l \<in> E) [0..<i])"
      using True Suc.prems(5) i(3) up by simp
    have len: "length (filter (\<lambda>l. l \<in> E) [0..<i]) = length ?found" by (simp only: fd length_map)
    have pad: "\<not> k < pad" using f(2) [OF True] i(1) by simp
    have step: "rs_chien rs pad (card E) (Suc n) i k reg found = (if length ?found = card E then Some ?found
        else rs_chien rs pad (card E) n (Suc i) (rs_modnn rs (k + iprim rs)) ?reg ?found)"
      using True q pad i(1) by (simp add: Let_def)
    show ?thesis
    proof (cases "length ?found = card E")
      case True
      have "filter (\<lambda>l. l \<in> E) [0..<255] = filter (\<lambda>l. l \<in> E) [0..<i]"
        by (rule filter_upt_all) (use f(1) i(2) True len in \<open>simp_all add: errlocs_def\<close>)
      then show ?thesis unfolding step using True fd by (simp only: simp_thms if_True)
    next
      case False
      then have "length ?found < card E" using Suc.prems(6) by simp
      have "rs_chien rs pad (card E) n (Suc i) (rs_modnn rs (k + iprim rs)) ?reg ?found
          = Some (map (\<lambda>l. (Suc l, l)) (filter (\<lambda>l. l \<in> E) [0..<255]))"
        by (rule Suc.IH) (use Suc.prems(1) k inv fd \<open>length ?found < card E\<close> in simp_all)
      then show ?thesis unfolding step using False by (simp only: if_False)
    qed
  qed
qed

text \<open>The evaluator and the two sums of Forney's formula.\<close>

lemma omega_nth:
  assumes "length lam = 17" "bytes lam" "length s = 16" "bytes s" "i \<le> n" "n < 16"
  shows "rs_omega rs s lam n ! i < 256"
    "ival rs (rs_omega rs s lam n ! i) = conv (icoef rs lam) (\<lambda>i. ival rs (s ! i)) i"
proof -
  let ?P = "\<lambda>j. s ! (i - j) \<noteq> nn rs \<and> lam ! j \<noteq> nn rs"
  let ?g = "\<lambda>j. alpha_to rs ! rs_modnn rs (s ! (i - j) + lam ! j)"
  define acc where "acc = fold (\<lambda>j tmp. if ?P j then tmp XOR ?g j else tmp) (rev [0..<i + 1]) 0"
  have om: "rs_omega rs s lam n ! i = index_of rs ! acc"
    unfolding rs_omega_def acc_def using assms(5) by (subst nth_map_upt_0) simp_all
  have t: "(if ?P j then sym (?g j) else 0) = icoef rs lam j * ival rs (s ! (i - j))" if "j < i + 1" for j
  proof -
    have "s ! (i - j) < 256" "lam ! j < 256" using assms that by auto
    then show ?thesis using ival_mul [of "s ! (i - j)" "lam ! j"] assms(1,5,6) that
      by (simp add: icoef_def mult.commute)
  qed
  have acc: "acc < 256" "sym acc = (\<Sum>j < i + 1. if ?P j then sym (?g j) else 0)"
    using fold_cond_xor [of "rev [0..<i + 1]" ?P ?g 0] alpha_modnn_less
    unfolding acc_def sum_list_rev_upt by (simp_all only: sym_0 add_0 zero_less_numeral)
  have "sym acc = conv (icoef rs lam) (\<lambda>i. ival rs (s ! i)) i"
    unfolding acc(2) conv_def using t by (intro sum.cong) auto
  then show "ival rs (rs_omega rs s lam n ! i) = conv (icoef rs lam) (\<lambda>i. ival rs (s ! i)) i"
    using om acc(1) by (simp add: ival_index)
  show "rs_omega rs s lam n ! i < 256"
    using om acc(1) index_less [of acc] by (cases "acc = 0") (auto simp: index_zero)
qed

lemma ival_power:
  assumes "x < 256"
  shows "(if x \<noteq> nn rs then sym (alpha_to rs ! rs_modnn rs (x + k)) else 0) = ival rs x * gf_a ^ k"
  using assms by (cases "x = 255")
    (auto simp: nn_255 alpha_zero sym_alpha_modnn alpha_tab sym_alpha power_add)

lemma num1:
  assumes "\<And>i. i \<le> n \<Longrightarrow> omega ! i < 256" "\<And>i. i \<le> n \<Longrightarrow> ival rs (omega ! i) = h i"
  shows "rs_num1 rs omega n k < 256" "sym (rs_num1 rs omega n k) = pat h n (gf_a ^ k)"
proof -
  let ?P = "\<lambda>i. omega ! i \<noteq> nn rs" and ?g = "\<lambda>i. alpha_to rs ! rs_modnn rs (omega ! i + i * k)"
  have t: "(if ?P i then sym (?g i) else 0) = h i * (gf_a ^ k) ^ i" if "i \<le> n" for i
    using ival_power [OF assms(1) [OF that], of "i * k"] assms(2) [OF that]
    by (simp add: mult.commute flip: power_mult)
  have acc: "rs_num1 rs omega n k < 256" "sym (rs_num1 rs omega n k) = (\<Sum>i < n + 1. if ?P i then sym (?g i) else 0)"
    using fold_cond_xor [of "rev [0..<n + 1]" ?P ?g 0] alpha_modnn_less
    unfolding rs_num1_def sum_list_rev_upt by (simp_all only: sym_0 add_0 zero_less_numeral)
  then show "rs_num1 rs omega n k < 256" by simp
  show "sym (rs_num1 rs omega n k) = pat h n (gf_a ^ k)"
    unfolding acc(2) pat_def using t by (intro sum.cong) auto
qed

lemma den:
  assumes "length lam = 17" "bytes lam" "\<And>j. n < j \<Longrightarrow> icoef rs lam j = 0" "n < 15"
  shows "rs_den rs lam n k < 256"
    "gf_a ^ k * sym (rs_den rs lam n k) = (\<Sum>j \<le> n. if odd j then icoef rs lam j * (gf_a ^ k) ^ j else 0)"
proof -
  let ?P = "\<lambda>i. lam ! (i + 1) \<noteq> nn rs" and ?g = "\<lambda>i. alpha_to rs ! rs_modnn rs (lam ! (i + 1) + i * k)"
  let ?xs = "rev (filter even [0..<n + 1])"
  have t: "(if ?P i then sym (?g i) else 0) = icoef rs lam (Suc i) * (gf_a ^ k) ^ i" if "i \<le> n" for i
  proof -
    have "lam ! (i + 1) < 256" using assms that by auto
    then show ?thesis using ival_power [of "lam ! (i + 1)" "i * k"] assms(1,4) that
      by (simp add: icoef_def mult.commute flip: power_mult)
  qed
  have "rs_den rs lam n k = fold (\<lambda>i acc. if ?P i then acc XOR ?g i else acc) ?xs 0"
    using assms(4) by (simp only: rs_den_def nroots_16 min_def) simp
  then have d: "rs_den rs lam n k < 256"
    "sym (rs_den rs lam n k) = sum_list (map (\<lambda>i. if ?P i then sym (?g i) else 0) ?xs)"
    using fold_cond_xor [of ?xs ?P ?g 0] alpha_modnn_less by (simp_all only: sym_0 add_0 zero_less_numeral)
  then show "rs_den rs lam n k < 256" by simp
  have "sym (rs_den rs lam n k) = (\<Sum>i < n + 1. if even i then if ?P i then sym (?g i) else 0 else 0)"
    unfolding d(2) rev_map [symmetric] sum_list_rev sum_list_map_filter' sum_list_upt ..
  also have "\<dots> = (\<Sum>i \<le> n. if even i then icoef rs lam (Suc i) * (gf_a ^ k) ^ i else 0)"
    using t by (intro sum.cong) auto
  finally have "gf_a ^ k * sym (rs_den rs lam n k)
      = (\<Sum>i \<le> n. if even i then icoef rs lam (Suc i) * (gf_a ^ k) ^ Suc i else 0)"
    by (simp add: sum_distrib_left if_distrib mult.left_commute cong: if_cong)
  also have "\<dots> = (\<Sum>j \<le> Suc n. if odd j then icoef rs lam j * (gf_a ^ k) ^ j else 0)"
    by (subst sum.atMost_Suc_shift) simp
  finally show "gf_a ^ k * sym (rs_den rs lam n k)
      = (\<Sum>j \<le> n. if odd j then icoef rs lam j * (gf_a ^ k) ^ j else 0)"
    using assms(3) by simp
qed

lemma err_value:
  assumes lam: "length lam = 17" "bytes lam" "errlocs (icoef rs lam) E" "card E \<le> 8"
    and s: "length s = 16" "bytes s" "\<And>i. i < 16 \<Longrightarrow> ival rs (s ! i) = psum E e i"
    and m: "m \<in> E"
  shows "sym (rs_err_value rs lam (rs_omega rs s lam (card E - 1)) (card E) (Suc m)) = e m"
proof -
  let ?f = "icoef rs lam" and ?x = "gf_a ^ Suc m" and ?v = "card E"
  let ?omega = "rs_omega rs s lam (?v - 1)" and ?Q = "pquot (icoef rs lam) E m (gf_a ^ Suc m)"
  have m255: "m < 255" using lam(3) m by (auto simp: errlocs_def)
  have om: "?omega ! i < 256" "ival rs (?omega ! i) = conv ?f (psum E e) i" if "i \<le> ?v - 1" for i
  proof -
    have "conv ?f (\<lambda>i. ival rs (s ! i)) i = conv ?f (psum E e) i"
      using that lam(4) s(3) by (simp add: conv_def)
    then show "?omega ! i < 256" "ival rs (?omega ! i) = conv ?f (psum E e) i"
      using omega_nth [OF lam(1,2) s(1,2) that] lam(4) by simp_all
  qed
  let ?num = "rs_num1 rs ?omega (?v - 1) (Suc m)" and ?den = "rs_den rs lam ?v (Suc m)"
  have num: "?num < 256" "sym ?num = e m * ?Q"
    using num1 [OF om] evaluator_at [OF lam(3) m, of e] by (simp_all del: power_Suc)
  have Q: "?Q \<noteq> 0" by (rule pquot_own [OF lam(3) m])
  have den: "?den < 256" "?x * sym ?den = ?Q"
    using den [OF lam(1,2), of ?v "Suc m"] pquot_derivative [OF lam(3) m] lam(3,4)
    by (simp_all add: errlocs_def del: power_Suc)
  show ?thesis
  proof (cases "?num = 0")
    case True
    then show ?thesis using num Q by (simp add: rs_err_value_def)
  next
    case False
    have "?den \<noteq> 0" using den(2) Q sym_0 by (metis mult_zero_right)
    then have di: "index_of rs ! ?den < 255" "gf_a ^ (index_of rs ! ?den) = sym ?den"
      using den(1) index_less sym_alpha_index by simp_all
    let ?n2 = "alpha_to rs ! rs_modnn rs (nat (int (Suc m) * (int (fcr rs) - 1) + int (nn rs)))"
    have n2: "?n2 = gf_alpha (255 - Suc m)"
      by (simp add: alpha_modnn fcr_0 nn_255 nat_diff_distrib' del: of_nat_Suc)
    have n2': "gf_a ^ (index_of rs ! ?n2) = locator m"
      unfolding n2 by (simp add: sym_alpha_index sym_alpha)
    let ?y = "gf_a ^ (255 - index_of rs ! ?den)"
    have y: "?y * sym ?den = 1"
      using di by (simp flip: di(2) power_add)
    have eq: "index_of rs ! ?num + index_of rs ! ?n2 + nn rs - index_of rs ! ?den
        = index_of rs ! ?num + (index_of rs ! ?n2 + (255 - index_of rs ! ?den))"
      using di(1) by (simp add: nn_255)
    have "sym (rs_err_value rs lam ?omega ?v (Suc m)) = sym ?num * (locator m * ?y)"
      using False num(1) unfolding rs_err_value_def Let_def if_not_P [OF False] eq
      by (simp only: sym_mul_tab power_add n2' neq0_conv)
    also have "\<dots> = e m * ((locator m * ?x) * (?y * sym ?den))"
      unfolding num(2) den(2) [symmetric] by (simp only: mult.assoc mult.commute mult.left_commute)
    finally show ?thesis
      unfolding y locator_inverse [OF m255] by simp
  qed
qed

lemma error_pattern_finds:
  assumes s: "length s = 16" "bytes s" "\<And>i. i < 16 \<Longrightarrow> ival rs (s ! i) = psum E e i"
    and E: "finite E" "E \<subseteq> {..<255}" "\<And>l. l \<in> E \<Longrightarrow> e l \<noteq> 0" "card E \<le> 8" "E \<noteq> {}"
    and pad: "\<And>l. l \<in> E \<Longrightarrow> pad \<le> l"
  shows "\<exists>b. rs_error_pattern rs pad s = Some (map (\<lambda>l. (l, b l)) (filter (\<lambda>l. l \<in> E) [0..<255]))
    \<and> (\<forall>l \<in> E. b l < 256 \<and> sym (b l) = e l)"
proof -
  let ?lam = "map (\<lambda>c. index_of rs ! c) (rs_bm rs s)"
  note bm = bm_errlocs [OF s(1,2) E(1-4) s(3)]
  have "index_of rs ! x < 256" if "x < 256" for x
    using that index_less [of x] by (cases "x = 0") (auto simp: index_zero)
  then have lam: "length ?lam = 17" "bytes ?lam"
    using bm(1,2) by auto
  have "rs_bm rs s ! j < 256" if "j < 17" for j using bm(1,2) that by auto
  then have "icoef rs ?lam = lcoef (rs_bm rs s)"
    using bm(1) by (auto simp: icoef_def lcoef_def ival_index)
  then have el: "errlocs (icoef rs ?lam) E" using bm(3) by simp
  have deg: "rs_deg_lambda rs ?lam = card E" by (rule deg_lambda [OF lam el E(4)])
  have v: "0 < card E" using E(1,5) by (simp add: card_gt_0_iff)
  have "?lam ! j < 256" if "j < 17" for j using lam that by auto
  then have reg: "chien_inv (icoef rs ?lam) (card E) (1 - 1) (0 # tl ?lam)"
    using lam E(4) by (auto simp: chien_inv_def icoef_def nth_Cons' nth_tl in_set_conv_nth)
  have "rs_chien rs pad (card E) 255 1 0 (0 # tl ?lam) []
      = Some (map (\<lambda>l. (Suc l, l)) (filter (\<lambda>l. l \<in> E) [0..<255]))"
    by (rule chien_finds [OF _ _ _ el pad _ reg]) (use E(4) v in simp_all)
  moreover have "length (filter (\<lambda>l. l \<in> E) [0..<255]) = card E"
    using E(2) by (simp add: length_filter_upt Int_absorb2)
  moreover define b where "b l = rs_err_value rs ?lam (rs_omega rs s ?lam (card E - 1)) (card E) (Suc l)" for l
  ultimately have "rs_error_pattern rs pad s = Some (map (\<lambda>l. (l, b l)) (filter (\<lambda>l. l \<in> E) [0..<255]))"
    using v by (simp add: rs_error_pattern_def Let_def deg nn_255 iprim_1)
  moreover have "b l < 256 \<and> sym (b l) = e l" if "l \<in> E" for l
    using err_value [OF lam el E(4) s(1,2) s(3) that] err_value_less by (simp add: b_def)
  ultimately show ?thesis by blast
qed

end

subsection \<open>Completeness\<close>

lemma flip_syms_nth:
  assumes "distinct (map fst errs)" "errs_ok pad errs" "t < length w" "length w + pad = 255"
  shows "fold (flip_sym pad) errs w ! t
    = (case map_of errs (t + pad) of None \<Rightarrow> w ! t | Some b \<Rightarrow> w ! t XOR b)"
  using assms
proof (induction errs arbitrary: w)
  case (Cons err errs)
  obtain loc b where e: "err = (loc, b)" by (cases err)
  have ok: "errs_ok pad errs" "pad \<le> loc" "loc < 255" "loc \<notin> fst ` set errs"
    using Cons.prems by (auto simp: errs_ok_def e)
  have "flip_sym pad err w ! t = (if t + pad = loc then w ! t XOR b else w ! t)"
    using ok Cons.prems(3,4) by (auto simp: flip_sym_def e nth_list_update)
  moreover have "map_of errs loc = None" using ok(4) by (simp add: map_of_eq_None_iff)
  ultimately show ?case
    using Cons.IH [of "flip_sym pad err w"] Cons.prems ok(1) by (auto simp: e split: option.split)
qed simp

text \<open>The difference of two words of the same length, at a point.\<close>

lemma word_at_diff:
  assumes "length w = n" "length c = n"
  shows "word_at w r + word_at c r
    = (\<Sum>t \<in> {t. t < n \<and> w ! t \<noteq> c ! t}. (sym (w ! t) + sym (c ! t)) * r ^ (n - 1 - t))"
proof -
  have "word_at w r + word_at c r = (\<Sum>i < n. (sym (w ! (n - 1 - i)) + sym (c ! (n - 1 - i))) * r ^ i)"
    using assms by (simp add: word_at_sum distrib_right sum.distrib)
  also have "\<dots> = (\<Sum>t < n. (sym (w ! t) + sym (c ! t)) * r ^ (n - 1 - t))"
    by (subst sum.nat_diff_reindex [symmetric]) (auto intro!: sum.cong)
  also have "\<dots> = (\<Sum>t \<in> {t. t < n \<and> w ! t \<noteq> c ! t}. (sym (w ! t) + sym (c ! t)) * r ^ (n - 1 - t))"
    by (intro sum.mono_neutral_right) auto
  finally show ?thesis .
qed

definition wrong :: "nat list \<Rightarrow> nat list \<Rightarrow> nat set" where
  "wrong w c = {t. t < length w \<and> w ! t \<noteq> c ! t}"

lemma finite_wrong [simp]: "finite (wrong w c)"
  by (simp add: wrong_def)

context rs_codec_ok
begin

text \<open>The syndromes of a word are the power sums of its differences with a code word; they are
  not all zero when there are differences, and not more than sixteen.\<close>

lemma syndromes_psum:
  assumes "bytes (data @ par)" "data \<noteq> []" "length (data @ par) + pad = 255" "i < 16"
    and "length c = length (data @ par)" "rs_codeword c"
  shows "sym (rs_syndromes rs data par ! i)
    = psum ((\<lambda>t. t + pad) ` wrong (data @ par) c) (\<lambda>l. sym ((data @ par) ! (l - pad)) + sym (c ! (l - pad))) i"
proof -
  let ?w = "data @ par" and ?n = "length (data @ par)"
  have "sym (rs_syndromes rs data par ! i) = word_at ?w (gf_a ^ i) + word_at c (gf_a ^ i)"
    using syndromes_nth(2) [OF assms(1,2,4)] assms(4,6) by (simp add: rs_codeword_def)
  also have "\<dots> = (\<Sum>t \<in> wrong ?w c. (sym (?w ! t) + sym (c ! t)) * (gf_a ^ i) ^ (?n - 1 - t))"
    using word_at_diff [OF refl assms(5)] by (simp add: wrong_def)
  also have "\<dots> = (\<Sum>t \<in> wrong ?w c. (sym (?w ! t) + sym (c ! t)) * locator (t + pad) ^ i)"
  proof (intro sum.cong refl)
    fix t assume "t \<in> wrong ?w c"
    then have "?n - 1 - t = 254 - (t + pad)" using assms(3) by (auto simp: wrong_def)
    then show "(sym (?w ! t) + sym (c ! t)) * (gf_a ^ i) ^ (?n - 1 - t)
        = (sym (?w ! t) + sym (c ! t)) * locator (t + pad) ^ i"
      by (simp only: power_mult [symmetric] mult.commute)
  qed
  finally show ?thesis
    by (simp add: psum_def sum.reindex inj_on_def)
qed

lemma psum_nonzero:
  assumes "finite E" "E \<subseteq> {..<255}" "\<And>l. l \<in> E \<Longrightarrow> e l \<noteq> 0" "card E \<le> n" "E \<noteq> {}"
  shows "\<exists>i < n. psum E e i \<noteq> 0"
proof (rule ccontr)
  assume "\<not> ?thesis"
  moreover obtain l where "l \<in> E" using assms(5) by blast
  ultimately have "e l = 0"
    using vandermonde [OF assms(1,4) inj_locator [OF assms(2)], of e l] by (simp add: psum_def)
  then show False using assms(3) \<open>l \<in> E\<close> by blast
qed

lemma error_pattern_wrong:
  assumes w: "bytes (data @ par)" "length data = len" "length par = 16" "0 < len" "len \<le> 239"
    and c: "bytes c" "length c = len + 16" "rs_codeword c"
    and few: "card (wrong (data @ par) c) \<le> 8" "wrong (data @ par) c \<noteq> {}"
  defines "E \<equiv> (\<lambda>t. t + (239 - len)) ` wrong (data @ par) c"
  shows "rs_error_pattern rs (239 - len) (map (\<lambda>x. index_of rs ! x) (rs_syndromes rs data par))
      = Some (map (\<lambda>l. (l, (data @ par) ! (l - (239 - len)) XOR c ! (l - (239 - len)))) (filter (\<lambda>l. l \<in> E) [0..<255]))"
    and "\<not> list_all (\<lambda>x. x = 0) (rs_syndromes rs data par)"
proof -
  let ?pad = "239 - len" and ?w = "data @ par" and ?syn = "rs_syndromes rs data par"
  let ?e = "\<lambda>l. sym (?w ! (l - ?pad)) + sym (c ! (l - ?pad))"
  let ?s = "map (\<lambda>x. index_of rs ! x) ?syn"
  have ne: "data \<noteq> []" using w by auto
  have syn: "?syn ! i < 256" "sym (?syn ! i) = psum E ?e i" if "i < 16" for i
    using syndromes_nth(1) [OF w(1) ne that] syndromes_psum [OF w(1) ne _ that _ c(3), of ?pad] w c(2)
    by (simp_all add: E_def)
  have byt: "?w ! t < 256" "c ! t < 256" if "t < len + 16" for t
    using w(1-3) c(1,2) that by (auto simp: nth_append)
  have card: "card E \<le> 8" "E \<noteq> {}" "finite E" using few by (simp_all add: E_def card_image inj_on_def)
  have E: "E \<subseteq> {..<255}" "\<And>l. l \<in> E \<Longrightarrow> ?pad \<le> l"
    using w by (auto simp: E_def wrong_def)
  have e: "?e l \<noteq> 0" if "l \<in> E" for l
    using that byt w by (auto simp: E_def wrong_def gf_add_eq_0_iff sym_eq_iff)
  show "\<not> list_all (\<lambda>x. x = 0) ?syn"
    using psum_nonzero [OF card(3) E(1), of ?e 16] e card syn by (force simp: list_all_length length_syndromes)
  have "index_of rs ! x < 256" if "x < 256" for x
    using that index_less [of x] by (cases "x = 0") (auto simp: index_zero)
  then have "bytes ?s" using syn(1) by (auto simp: in_set_conv_nth length_syndromes)
  then obtain b where b: "rs_error_pattern rs ?pad ?s = Some (map (\<lambda>l. (l, b l)) (filter (\<lambda>l. l \<in> E) [0..<255]))"
      "\<forall>l \<in> E. b l < 256 \<and> sym (b l) = ?e l"
    using error_pattern_finds [of ?s E ?e ?pad] card E e syn by (auto simp: length_syndromes ival_index)
  have "b l = ?w ! (l - ?pad) XOR c ! (l - ?pad)" if "l \<in> E" for l
  proof -
    have "l - ?pad < len + 16" using that w by (auto simp: E_def wrong_def)
    then have "sym (b l) = sym (?w ! (l - ?pad) XOR c ! (l - ?pad))"
      using b(2) that byt [of "l - ?pad"] by (simp add: sym_xor)
    then show ?thesis using b(2) that byt \<open>l - ?pad < len + 16\<close> by (subst (asm) sym_eq_iff) (auto simp: xor_less_256)
  qed
  then show "rs_error_pattern rs ?pad ?s = Some (map (\<lambda>l. (l, ?w ! (l - ?pad) XOR c ! (l - ?pad))) (filter (\<lambda>l. l \<in> E) [0..<255]))"
    using b(1) by (simp cong: map_cong)
qed

lemma err_poly_psum:
  "E \<subseteq> {..<255} \<Longrightarrow> err_poly (map (\<lambda>l. (l, b l)) (filter (\<lambda>l. l \<in> E) [0..<255])) (gf_a ^ i)
     = psum E (\<lambda>l. sym (b l)) i"
proof -
  assume E: "E \<subseteq> {..<255}"
  have "set (filter (\<lambda>l. l \<in> E) [0..<255]) = E" using E by auto
  then show ?thesis
    by (simp add: err_poly_def psum_def comp_def sum_list_distinct_conv_sum_set mult.commute flip: power_mult)
qed

lemma shifted_positions:
  assumes "pad + len = 239" "T \<subseteq> {..<len + 16}"
  shows "map (\<lambda>l. l - pad) (filter (\<lambda>l. l < 239 \<and> l \<in> (\<lambda>t. t + pad) ` T) [0..<255])
    = filter (\<lambda>t. t \<in> T) [0..<len]"
proof -
  have "[0..<255] = [0..<pad] @ [pad..<239] @ [239..<255]"
    using assms(1) upt_add_eq_append [of 0 pad "255 - pad"] upt_add_eq_append [of pad 239 16] by simp
  moreover have "filter (\<lambda>l. l < 239 \<and> l \<in> (\<lambda>t. t + pad) ` T) [0..<pad] = []"
    "filter (\<lambda>l. l < 239 \<and> l \<in> (\<lambda>t. t + pad) ` T) [239..<255] = []"
    by (auto simp: filter_empty_conv)
  moreover have "[pad..<239] = map (\<lambda>t. t + pad) [0..<len]"
    using assms(1) map_add_upt [of pad len] by (simp add: add.commute)
  ultimately have "filter (\<lambda>l. l < 239 \<and> l \<in> (\<lambda>t. t + pad) ` T) [0..<255]
      = map (\<lambda>t. t + pad) (filter (\<lambda>t. t + pad < 239 \<and> t \<in> T) [0..<len])"
    by (simp add: filter_map comp_def image_iff)
  also have "filter (\<lambda>t. t + pad < 239 \<and> t \<in> T) [0..<len] = filter (\<lambda>t. t \<in> T) [0..<len]"
    using assms(1) by (intro filter_cong) auto
  finally show ?thesis by (simp add: comp_def)
qed

definition diff_pattern :: "nat \<Rightarrow> nat list \<Rightarrow> nat list \<Rightarrow> (nat \<times> nat) list" where
  "diff_pattern pad w c = map (\<lambda>l. (l, w ! (l - pad) XOR c ! (l - pad)))
     (filter (\<lambda>l. l \<in> (\<lambda>t. t + pad) ` wrong w c) [0..<255])"

lemma diff_pattern_ok:
  assumes "bytes w" "bytes c" "length c = length w" "length w + pad = 255"
  shows "errs_ok pad (diff_pattern pad w c)" "distinct (map fst (diff_pattern pad w c))"
    "fold (flip_sym pad) (diff_pattern pad w c) w = c"
proof -
  show ok: "errs_ok pad (diff_pattern pad w c)"
    using assms by (auto simp: diff_pattern_def errs_ok_def wrong_def xor_less_256)
  show dist: "distinct (map fst (diff_pattern pad w c))"
    by (simp add: diff_pattern_def comp_def)
  have m: "map_of (diff_pattern pad w c) (t + pad) = (if t \<in> wrong w c then Some (w ! t XOR c ! t) else None)"
    if "t < length w" for t
    using that assms(4) by (auto simp: diff_pattern_def map_of_map_restrict restrict_map_def image_iff)
  show "fold (flip_sym pad) (diff_pattern pad w c) w = c"
  proof (rule nth_equalityI)
    show "length (fold (flip_sym pad) (diff_pattern pad w c) w) = length c" using assms(3) by simp
  next
    fix t assume "t < length (fold (flip_sym pad) (diff_pattern pad w c) w)"
    then have t: "t < length w" by simp
    show "fold (flip_sym pad) (diff_pattern pad w c) w ! t = c ! t"
      unfolding flip_syms_nth [OF dist ok t assms(4)] m [OF t]
      using t by (simp add: wrong_def flip: xor.assoc)
  qed
qed

lemma diff_pattern_counts:
  assumes "length w = len + 16" "len + pad = 239"
  shows "map (\<lambda>(loc, b). loc - pad) (filter (\<lambda>(loc, b). loc < 239 \<and> b \<noteq> 0) (diff_pattern pad w c))
      = filter (\<lambda>t. t \<in> wrong w c) [0..<len]"
    and "length (filter (\<lambda>(loc, b). b \<noteq> 0) (diff_pattern pad w c)) = card (wrong w c)"
proof -
  let ?E = "(\<lambda>t. t + pad) ` wrong w c"
  have b: "w ! (l - pad) XOR c ! (l - pad) \<noteq> 0" if "l \<in> ?E" for l
    using that by (auto simp: wrong_def xor_nat_eq_0)
  have "filter (\<lambda>l. l \<in> ?E \<and> l < 239 \<and> 0 < w ! (l - pad) XOR c ! (l - pad)) [0..<255]
      = filter (\<lambda>l. l < 239 \<and> l \<in> ?E) [0..<255]"
    by (intro filter_cong refl) (use b in auto)
  moreover have "wrong w c \<subseteq> {..<len + 16}" using assms by (auto simp: wrong_def)
  ultimately show "map (\<lambda>(loc, b). loc - pad) (filter (\<lambda>(loc, b). loc < 239 \<and> b \<noteq> 0) (diff_pattern pad w c))
      = filter (\<lambda>t. t \<in> wrong w c) [0..<len]"
    using shifted_positions [of pad len "wrong w c"] assms
    by (simp add: diff_pattern_def filter_map comp_def add.commute)
  have "filter (\<lambda>l. l \<in> ?E \<and> 0 < w ! (l - pad) XOR c ! (l - pad)) [0..<255] = filter (\<lambda>l. l \<in> ?E) [0..<255]"
    by (intro filter_cong refl) (use b in auto)
  moreover have "?E \<subseteq> {..<255}" using assms by (auto simp: wrong_def)
  ultimately show "length (filter (\<lambda>(loc, b). b \<noteq> 0) (diff_pattern pad w c)) = card (wrong w c)"
    by (simp add: diff_pattern_def filter_map comp_def length_filter_upt Int_absorb2 card_image inj_on_def)
qed

lemma diff_pattern_syn:
  assumes w: "bytes (data @ par)" "data \<noteq> []" "length (data @ par) + pad = 255" "i < 16"
    and c: "bytes c" "length c = length (data @ par)" "rs_codeword c"
  shows "rs_err_syn rs (diff_pattern pad (data @ par) c) i = rs_syndromes rs data par ! i"
proof -
  let ?w = "data @ par" and ?E = "(\<lambda>t. t + pad) ` wrong (data @ par) c"
  note ok = diff_pattern_ok(1) [OF w(1) c(1,2) w(3)]
  have "?E \<subseteq> {..<255}" using w(3) by (auto simp: wrong_def)
  then have "sym (rs_err_syn rs (diff_pattern pad ?w c) i) = psum ?E (\<lambda>l. sym (?w ! (l - pad) XOR c ! (l - pad))) i"
    using err_syn(2) [OF ok, of i] err_poly_psum [of ?E "\<lambda>l. ?w ! (l - pad) XOR c ! (l - pad)" i]
    by (simp add: diff_pattern_def)
  also have "\<dots> = psum ?E (\<lambda>l. sym (?w ! (l - pad)) + sym (c ! (l - pad))) i"
  proof -
    have "?w ! t < 256" "c ! t < 256" if "t \<in> wrong ?w c" for t
    proof -
      have "t < length ?w" using that by (simp add: wrong_def)
      then show "?w ! t < 256" "c ! t < 256" using w(1) c(1,2) by (metis nth_mem)+
    qed
    then show ?thesis by (auto simp: psum_def sym_xor intro!: sum.cong)
  qed
  also have "\<dots> = sym (rs_syndromes rs data par ! i)"
    by (rule syndromes_psum [OF w c(2,3), symmetric])
  finally show ?thesis
    using err_syn(1) [OF ok] syndromes_nth(1) [OF w(1,2,4)] by (simp add: sym_eq_iff)
qed

theorem decode_internal_corrects:
  assumes w: "bytes (data @ par)" "length data = len" "length par = 16" "0 < len" "len \<le> 239"
    and c: "bytes c" "length c = len + 16" "rs_codeword c"
    and few: "card (wrong (data @ par) c) \<le> 8"
  shows "rs_decode_internal rs data par len
    = Some (take len c, drop len c, filter (\<lambda>t. t \<in> wrong (data @ par) c) [0..<len], card (wrong (data @ par) c))"
proof (cases "wrong (data @ par) c = {}")
  case True
  then have "data @ par = c" using w(2,3) c(2) by (intro nth_equalityI) (auto simp: wrong_def)
  then show ?thesis
    using decode_internal_clean [of data par len] w c True by (auto simp: filter_empty_conv)
next
  case False
  let ?pad = "239 - len" and ?w = "data @ par"
  let ?errs = "diff_pattern ?pad ?w c" and ?syn = "rs_syndromes rs data par"
  note ep = error_pattern_wrong [OF w c few False]
  have len: "length c = length ?w" "length ?w + ?pad = 255" "length ?w = len + 16" "len + ?pad = 239"
    "?pad + len = 239" "\<not> 239 \<le> ?pad" using w c(2) by simp_all
  note dp = diff_pattern_ok [OF w(1) c(1) len(1,2)]
  have "rs_err_syn rs ?errs i = ?syn ! i" if "i < 16" for i
    by (rule diff_pattern_syn [OF w(1) _ len(2) that c(1) len(1) c(3)]) (use w in auto)
  moreover obtain data' par' where f: "fold (rs_apply_err rs ?pad len) ?errs (data, par) = (data', par')"
    by fastforce
  have "data' = take len c" "par' = drop len c"
    using apply_errs_flip [OF w(2,3) len(5) dp(1) f] dp(3) by auto
  moreover have "alpha_to rs ! (index_of rs ! (?syn ! i)) = ?syn ! i" if "i < 16" for i
    using syndromes_nth(1) [OF w(1) _ that] w(2,4) by (intro alpha_of_index) auto
  ultimately show ?thesis
    using ep [folded diff_pattern_def] f diff_pattern_counts [OF len(3,4)] len(6) w(5)
    by (simp add: rs_decode_internal_def nn_255 nroots_16 Let_def list_ex_iff length_syndromes)
qed

end

subsection \<open>Minimum distance\<close>

lemma codewords_far:
  assumes "rs_codeword w" "rs_codeword c" "bytes w" "bytes c" "length c = length w" "length w \<le> 255"
    and "card (wrong w c) \<le> 16"
  shows "w = c"
proof (rule ccontr)
  assume ne: "w \<noteq> c"
  define pad where "pad = 255 - length w"
  let ?E = "(\<lambda>t. t + pad) ` wrong w c" and ?e = "\<lambda>l. sym (w ! (l - pad)) + sym (c ! (l - pad))"
  have E: "finite ?E" "?E \<subseteq> {..<255}" using assms(6) by (auto simp: wrong_def pad_def)
  have "card ?E \<le> 16" using assms(7) by (simp add: card_image inj_on_def)
  have "?E \<noteq> {}" using ne assms(5) by (auto simp: wrong_def list_eq_iff_nth_eq)
  moreover have "?e l \<noteq> 0" if "l \<in> ?E" for l
    using that assms(3-5) by (auto simp: wrong_def gf_add_eq_0_iff sym_eq_iff)
  ultimately obtain i where i: "i < 16" "psum ?E ?e i \<noteq> 0"
    using bc.psum_nonzero [OF E, of ?e 16] \<open>card ?E \<le> 16\<close> by blast
  have "psum ?E ?e i = (\<Sum>t \<in> wrong w c. (sym (w ! t) + sym (c ! t)) * locator (t + pad) ^ i)"
    by (simp add: psum_def sum.reindex inj_on_def)
  also have "\<dots> = (\<Sum>t \<in> wrong w c. (sym (w ! t) + sym (c ! t)) * (gf_a ^ i) ^ (length w - 1 - t))"
    using assms(6) by (intro sum.cong refl) (auto simp: wrong_def pad_def mult.commute simp flip: power_mult)
  also have "\<dots> = word_at w (gf_a ^ i) + word_at c (gf_a ^ i)"
    using word_at_diff [OF refl assms(5)] by (simp add: wrong_def)
  finally show False using assms(1,2) i by (simp add: rs_codeword_def)
qed

lemma inj_unat: "inj (unat :: byte \<Rightarrow> nat)"
  by (rule injI) (simp add: word_unat_eq_iff)

lemma codeword_parity:
  assumes "rs_codeword (map unat (data @ par))" "length par = 16" "length data \<le> 239"
  shows "par = rs_encode_subblock beam_codec data"
proof -
  let ?w = "map unat (data @ par)" and ?c = "map unat (data @ rs_encode_subblock beam_codec data)"
  have "wrong ?w ?c \<subseteq> {length data..<length data + 16}"
    using assms(2) by (auto simp: wrong_def nth_append)
  then have "card (wrong ?w ?c) \<le> 16" using card_mono [of "{length data..<length data + 16}"] by fastforce
  then have "?w = ?c"
    using assms by (intro codewords_far bc.encode_subblock_codeword) (auto simp: unat_byte_less)
  then show ?thesis by (simp add: inj_map_eq_map inj_unat)
qed

subsection \<open>The subblock operations of the checker\<close>

definition errors :: "byte list \<Rightarrow> byte list \<Rightarrow> nat set" where
  "errors w c = {t. t < length w \<and> w ! t \<noteq> c ! t}"

lemma wrong_unat: "length c = length w \<Longrightarrow> wrong (map unat w) (map unat c) = errors w c"
  by (auto simp: wrong_def errors_def word_unat_eq_iff)

lemma subblock_corrects:
  assumes "0 < length data" "length data \<le> 239" "length rdata = length data" "length rpar = 16"
    and "card (errors (rdata @ rpar) (data @ rs_encode_subblock beam_codec data)) \<le> 8"
  shows "rs_decode_subblock beam_codec rdata rpar
    = Some (data, rs_encode_subblock beam_codec data,
            filter (\<lambda>t. rdata ! t \<noteq> data ! t) [0..<length data],
            card (errors (rdata @ rpar) (data @ rs_encode_subblock beam_codec data)))"
proof -
  let ?c = "data @ rs_encode_subblock beam_codec data" and ?w = "rdata @ rpar"
  have eq: "wrong (map unat rdata @ map unat rpar) (map unat ?c) = errors ?w ?c"
    using wrong_unat [of ?c ?w] assms(3,4) by simp
  have f: "filter (\<lambda>t. t \<in> errors ?w ?c) [0..<length data] = filter (\<lambda>t. rdata ! t \<noteq> data ! t) [0..<length data]"
    using assms(3) by (intro filter_cong) (auto simp: errors_def nth_append)
  have "rs_decode_internal beam_codec (map unat rdata) (map unat rpar) (length data)
      = Some (take (length data) (map unat ?c), drop (length data) (map unat ?c),
          filter (\<lambda>t. t \<in> errors ?w ?c) [0..<length data], card (errors ?w ?c))"
    unfolding eq [symmetric]
    by (rule bc.decode_internal_corrects)
       (use assms eq bc.encode_subblock_codeword [of data] in \<open>auto simp: unat_byte_less\<close>)
  then show ?thesis
    using assms f by (simp add: rs_decode_subblock_def comp_def)
qed

text \<open>C1: The decoder of the checker corrects every pattern of at most eight wrong bytes. For
  data of 1 to 239 bytes and the parity \<^const>\<open>rs_encode_subblock\<close> computes for it, if the bytes read back
  differ from them in at most eight places, in the data or in the parity, then
  \<^const>\<open>rs_decode_subblock\<close> returns the original data and parity, the positions of the wrong data
  bytes in ascending order and the number of wrong bytes.\<close>
theorem rs_decode_subblock_corrects:
  assumes "0 < length data" "length data \<le> 239" "length rdata = length data" "length rpar = 16"
    and "card (errors (rdata @ rpar) (data @ rs_encode_subblock beam_codec data)) \<le> 8"
  shows "rs_decode_subblock beam_codec rdata rpar
    = Some (data, rs_encode_subblock beam_codec data,
            filter (\<lambda>t. rdata ! t \<noteq> data ! t) [0..<length data],
            card (errors (rdata @ rpar) (data @ rs_encode_subblock beam_codec data)))"
  using assms by (rule subblock_corrects)

theorem rs_decode_subblock_corrects_witness:
  "rs_decode_subblock beam_codec [1, 7, 3] (rs_encode_subblock beam_codec [1, 2, 3])
    = Some ([1, 2, 3], rs_encode_subblock beam_codec [1, 2, 3], [1], 1)"
proof -
  have "errors ([1, 7, 3] @ rs_encode_subblock beam_codec [1, 2, 3])
     ([1, 2, 3] @ rs_encode_subblock beam_codec [1, 2, 3]) = {1}"
    by (auto simp: errors_def nth_Cons' split: if_splits)
  then show ?thesis
    using rs_decode_subblock_corrects [of "[1, 2, 3]" "[1, 7, 3]" "rs_encode_subblock beam_codec [1, 2, 3]"]
    by (simp add: upt_rec nth_Cons')
qed

text \<open>C22: The decoder never returns something that is not a code word, however many bytes were
  wrong: whenever \<^const>\<open>rs_decode_subblock\<close> returns data and parity, the parity is the one
  \<^const>\<open>rs_encode_subblock\<close> computes for that data, and both have the lengths of the input.\<close>
theorem rs_decode_subblock_sound:
  assumes "rs_decode_subblock beam_codec rdata rpar = Some (data, par, positions, n)" "length rpar = 16"
  shows "length data = length rdata \<and> par = rs_encode_subblock beam_codec data"
proof -
  obtain d p where dec: "rs_decode_internal beam_codec (map unat rdata) (map unat rpar) (length rdata)
      = Some (d, p, positions, n)" and dp: "data = map word_of_nat d" "par = map word_of_nat p"
    and len: "length rdata \<le> 239"
    using assms(1) by (auto simp: rs_decode_subblock_def split: if_splits option.splits)
  have "bytes (map unat rdata @ map unat rpar)" by (auto simp: unat_byte_less)
  then have s: "length d = length rdata" "length p = 16" "bytes d" "bytes p" "rs_codeword (d @ p)"
    using bc.decode_internal_sound [OF dec] assms(2) by simp_all
  have "map unat data = d" "map unat par = p"
    unfolding dp by (rule map_unat_of_nat, fact)+
  then show ?thesis
    using s codeword_parity [of data par] len by (auto simp: dp)
qed

theorem rs_decode_subblock_sound_witness:
  "\<exists>positions n. rs_decode_subblock beam_codec [9] (rs_encode_subblock beam_codec [9])
      = Some ([9], rs_encode_subblock beam_codec [9], positions, n)
    \<and> length ([9] :: byte list) = length ([9] :: byte list)
    \<and> rs_encode_subblock beam_codec [9] = rs_encode_subblock beam_codec [9]"
proof -
  have "rs_decode_internal beam_codec [9] (map unat (rs_encode_subblock beam_codec [9])) 1
      = Some ([9], map unat (rs_encode_subblock beam_codec [9]), [], 0)"
    using bc.encode_subblock_codeword [of "[9]"]
    by (intro bc.decode_internal_clean) (auto simp: unat_byte_less)
  then have "rs_decode_subblock beam_codec [9] (rs_encode_subblock beam_codec [9])
      = Some ([9], rs_encode_subblock beam_codec [9], [], 0)"
    by (simp add: rs_decode_subblock_def comp_def)
  with rs_decode_subblock_sound [OF this] show ?thesis by simp
qed

end
