(* ===== verification/Edac.thy ===== *)
theory Edac
  imports CRC32 RS_Correct "HOL-Library.Multiset"
begin

section \<open>The kernel's error-correction layer\<close>

text \<open>
  edac.c: the per-CPU set-up of the codec, the encoder and decoder of one subblock, the
  interleaved (woven) and the alternating layout of sixteen subblocks in a block, the
  entropy estimate of the corrected positions and the two checksums. The codec itself is
  the kernel's lib/reed_solomon and its CRC is lib/crc32: both are parameters here, fields of
  the environment \<open>rs_env\<close> and an argument \<open>crc32_le\<close>. What the layer relies on in them is the
  locale \<open>rs_library\<close>; it is interpreted on the checker's own port of the codec.
\<close>

unbundle bit_operations_syntax

abbreviation (input) BEAMFS_RS_PARITY :: nat where "BEAMFS_RS_PARITY \<equiv> 16"
abbreviation (input) BEAMFS_SUBBLOCK_DATA :: nat where "BEAMFS_SUBBLOCK_DATA \<equiv> 239"
abbreviation (input) BEAMFS_SUBBLOCK_TOTAL :: nat where "BEAMFS_SUBBLOCK_TOTAL \<equiv> 255"
abbreviation (input) BEAMFS_DATA_INLINE_SUBBLOCKS :: nat where "BEAMFS_DATA_INLINE_SUBBLOCKS \<equiv> 16"
abbreviation (input) BEAMFS_DATA_WOVEN_OFF :: nat where "BEAMFS_DATA_WOVEN_OFF \<equiv> 0"
abbreviation (input) BEAMFS_DATA_WOVEN_PARITY_OFF :: nat where "BEAMFS_DATA_WOVEN_PARITY_OFF \<equiv> 3824"
abbreviation (input) BEAMFS_RS_ENTROPY_BINS :: nat where "BEAMFS_RS_ENTROPY_BINS \<equiv> 8"

subsection \<open>Set-up of the per-CPU codecs\<close>

text \<open>The two per-CPU arrays: \<^const>\<open>None\<close> is a null pointer, and an entry says whether that CPU has
  a codec or a scratch buffer.\<close>

record rs_pcpu =
  beamfs_rs_ctrl_pcpu :: "bool list option"
  beamfs_rs_scratch_pcpu :: "bool list option"

definition beamfs_rs_exit_tables :: "rs_pcpu \<Rightarrow> rs_pcpu" where
  "beamfs_rs_exit_tables st =
     (case beamfs_rs_ctrl_pcpu st of
        None \<Rightarrow> st
      | Some ctrl \<Rightarrow>
          st\<lparr>beamfs_rs_scratch_pcpu := None, beamfs_rs_ctrl_pcpu := None\<rparr>)"

text \<open>The loop over the possible CPUs; \<open>init_ok cpu\<close> is whether \<^verbatim>\<open>init_rs\<close> succeeds for a CPU and
  \<open>kmalloc_ok cpu\<close> whether its scratch buffer can be allocated.\<close>

primrec rs_init_cpus ::
    "(nat \<Rightarrow> bool) \<Rightarrow> (nat \<Rightarrow> bool) \<Rightarrow> nat list \<Rightarrow> rs_pcpu \<Rightarrow> errno option \<times> rs_pcpu" where
  "rs_init_cpus init_ok kmalloc_ok [] st = (None, st)"
| "rs_init_cpus init_ok kmalloc_ok (cpu # cpus) st =
     (if \<not> init_ok cpu then (Some ENOMEM, beamfs_rs_exit_tables st)
      else
        rs_init_cpus init_ok kmalloc_ok cpus
          (st\<lparr>beamfs_rs_ctrl_pcpu := map_option (\<lambda>c. c[cpu := True]) (beamfs_rs_ctrl_pcpu st),
              beamfs_rs_scratch_pcpu :=
                map_option (\<lambda>s. s[cpu := kmalloc_ok cpu]) (beamfs_rs_scratch_pcpu st)\<rparr>))"

definition beamfs_rs_init_tables ::
    "nat \<Rightarrow> bool \<Rightarrow> bool \<Rightarrow> (nat \<Rightarrow> bool) \<Rightarrow> (nat \<Rightarrow> bool) \<Rightarrow> rs_pcpu \<Rightarrow> errno option \<times> rs_pcpu" where
  "beamfs_rs_init_tables ncpu scratch_alloc_ok ctrl_alloc_ok init_ok kmalloc_ok st =
     (let st1 = st\<lparr>beamfs_rs_scratch_pcpu :=
                     (if scratch_alloc_ok then Some (replicate ncpu False) else None)\<rparr>
      in if \<not> ctrl_alloc_ok
         then (Some ENOMEM, st1\<lparr>beamfs_rs_ctrl_pcpu := None, beamfs_rs_scratch_pcpu := None\<rparr>)
         else rs_init_cpus init_ok kmalloc_ok [0..<ncpu]
                (st1\<lparr>beamfs_rs_ctrl_pcpu := Some (replicate ncpu False)\<rparr>))"

subsection \<open>The entropy of the corrected positions\<close>

definition beamfs_rs_entropy_term_q16_16 :: "u32 list list" where
  "beamfs_rs_entropy_term_q16_16 =
    [[0, 0, 0, 0, 0, 0, 0, 0, 0],
     [0,     0,     0,     0,     0,     0,     0,     0,     0],
     [0, 32768,     0,     0,     0,     0,     0,     0,     0],
     [0, 34624, 25557,     0,     0,     0,     0,     0,     0],
     [0, 32768, 32768, 20400,     0,     0,     0,     0,     0],
     [0, 30434, 34654, 28979, 16878,     0,     0,     0,     0],
     [0, 28235, 34624, 32768, 25557, 14365,     0,     0,     0],
     [0, 26283, 33842, 34333, 30235, 22724, 12493,     0,     0],
     [0, 24576, 32768, 34776, 32768, 27774, 20400, 11047,     0]]"

text \<open>The counting loop; \<^const>\<open>None\<close> is its two early returns.\<close>

primrec rs_bin_counts :: "nat \<Rightarrow> nat list \<Rightarrow> nat list \<Rightarrow> nat list option" where
  "rs_bin_counts code_len [] bins = Some bins"
| "rs_bin_counts code_len (idx # idxs) bins =
     (if idx \<ge> code_len then None
      else
        let bin = idx * BEAMFS_RS_ENTROPY_BINS div code_len
        in if bin \<ge> BEAMFS_RS_ENTROPY_BINS then None
           else rs_bin_counts code_len idxs (bins[bin := bins ! bin + 1]))"

definition beamfs_rs_compute_entropy_q16_16 :: "byte list \<Rightarrow> nat \<Rightarrow> u32" where
  "beamfs_rs_compute_entropy_q16_16 positions code_len_bytes =
     (let n_positions = length positions
      in if n_positions = 0 \<or> n_positions > BEAMFS_RS_PARITY div 2 then 0
         else if code_len_bytes < n_positions \<or> code_len_bytes > BEAMFS_SUBBLOCK_DATA then 0
         else case rs_bin_counts code_len_bytes (map unat positions)
                     (replicate BEAMFS_RS_ENTROPY_BINS 0) of
                None \<Rightarrow> 0
              | Some bin_count \<Rightarrow>
                  foldl (\<lambda>h k. h + beamfs_rs_entropy_term_q16_16 ! n_positions ! k) 0 bin_count)"

subsection \<open>One subblock\<close>

text \<open>What an operation of the layer sees: the per-CPU arrays, the CPU it runs on and the
  library's \<^verbatim>\<open>encode_rs8\<close> and \<^verbatim>\<open>decode_rs8\<close>. The second, asked to report and not to correct, gives
  the position and the pattern of each correction, positions past the data being parity
  symbols, or \<^const>\<open>None\<close> for a negative return.\<close>

record rs_env = rs_pcpu +
  this_cpu :: nat
  encode_rs8 :: "byte list \<Rightarrow> u16 list"
  decode_rs8 :: "byte list \<Rightarrow> u16 list \<Rightarrow> (int \<times> u16) list option"

definition beamfs_rs_encode :: "rs_env \<Rightarrow> byte list \<Rightarrow> errno + byte list" where
  "beamfs_rs_encode env data =
     (case beamfs_rs_ctrl_pcpu env of
        None \<Rightarrow> Inl EINVAL
      | Some ctrl \<Rightarrow>
          if length data > BEAMFS_SUBBLOCK_DATA then Inl EINVAL
          else if \<not> ctrl ! this_cpu env then Inl EINVAL
          else Inr (map ucast (encode_rs8 env data)))"

text \<open>The insertion sort of the corrections by position: the sorted prefix is kept with its
  last entry first, the order in which the inner loop visits it.\<close>

primrec rs_insert :: "int \<times> u16 \<Rightarrow> (int \<times> u16) list \<Rightarrow> (int \<times> u16) list" where
  "rs_insert x [] = [x]"
| "rs_insert x (y # ys) = (if fst y > fst x then y # rs_insert x ys else x # y # ys)"

definition rs_sort :: "(int \<times> u16) list \<Rightarrow> (int \<times> u16) list" where
  "rs_sort xs = rev (fold rs_insert xs [])"

text \<open>The decoder. \<open>want\<close> is \<open>Some max_positions\<close> when the caller passes an array for the
  positions. The result is the return value, the data and the positions written.\<close>

definition beamfs_rs_decode ::
    "rs_env \<Rightarrow> byte list \<Rightarrow> byte list \<Rightarrow> nat option \<Rightarrow> int \<times> byte list \<times> byte list" where
  "beamfs_rs_decode env data parity want =
     (case beamfs_rs_ctrl_pcpu env of
        None \<Rightarrow> (- errno_code EINVAL, data, [])
      | Some ctrl \<Rightarrow>
          if length data > BEAMFS_SUBBLOCK_DATA then (- errno_code EINVAL, data, [])
          else if want = Some 0 then (- errno_code EINVAL, data, [])
          else if \<not> ctrl ! this_cpu env then (- errno_code EINVAL, data, [])
          else case decode_rs8 env data (map ucast parity) of
            None \<Rightarrow> (- errno_code EBADMSG, data, [])
          | Some found \<Rightarrow>
              if length found > BEAMFS_RS_PARITY then (- errno_code EBADMSG, data, [])
              else
                let inside = filter (\<lambda>(p, c). \<not> (p < 0 \<or> p \<ge> int (length data))) (rs_sort found);
                    data' = fold (\<lambda>(p, c) d. d[nat p := d ! nat p XOR ucast c]) inside data
                in case want of
                     Some max_positions \<Rightarrow>
                       (int (min (length inside) max_positions), data',
                        map (\<lambda>(p, c). word_of_int p) (take max_positions inside))
                   | None \<Rightarrow> (int (length found), data', []))"

subsection \<open>The interleaved layout\<close>

definition rs_woven_off :: "nat \<Rightarrow> nat \<Rightarrow> nat \<Rightarrow> nat" where
  "rs_woven_off sub i n_subblocks = i * n_subblocks + sub"

text \<open>The data area and the parity are parts of one buffer, at offsets \<open>doff\<close> and \<open>poff\<close>.\<close>

definition rs_gather :: "byte list \<Rightarrow> nat \<Rightarrow> nat \<Rightarrow> nat \<Rightarrow> nat \<Rightarrow> byte list" where
  "rs_gather blk doff sub data_len n_subblocks =
     map (\<lambda>i. blk ! (doff + rs_woven_off sub i n_subblocks)) [0..<data_len]"

definition rs_scatter :: "byte list \<Rightarrow> nat \<Rightarrow> nat \<Rightarrow> nat \<Rightarrow> nat \<Rightarrow> byte list \<Rightarrow> byte list" where
  "rs_scatter blk doff sub data_len n_subblocks scratch =
     fold (\<lambda>i b. b[doff + rs_woven_off sub i n_subblocks := scratch ! i]) [0..<data_len] blk"

text \<open>The loop over the subblocks, stopping at the first failure.\<close>

primrec rs_encode_woven_loop ::
    "rs_env \<Rightarrow> nat \<Rightarrow> nat \<Rightarrow> nat \<Rightarrow> nat \<Rightarrow> nat \<Rightarrow> nat list \<Rightarrow> byte list \<Rightarrow> errno option \<times> byte list" where
  "rs_encode_woven_loop env doff poff stride data_len n [] blk = (None, blk)"
| "rs_encode_woven_loop env doff poff stride data_len n (i # is) blk =
     (case beamfs_rs_encode env (rs_gather blk doff i data_len n) of
        Inl e \<Rightarrow> (Some e, blk)
      | Inr par \<Rightarrow>
          rs_encode_woven_loop env doff poff stride data_len n is (put_bytes (poff + i * stride) par blk))"

definition beamfs_rs_encode_woven ::
    "rs_env \<Rightarrow> byte list \<Rightarrow> nat \<Rightarrow> nat \<Rightarrow> nat \<Rightarrow> nat \<Rightarrow> nat \<Rightarrow> errno option \<times> byte list" where
  "beamfs_rs_encode_woven env blk doff poff parity_stride data_len n_subblocks =
     (case beamfs_rs_scratch_pcpu env of
        None \<Rightarrow> (Some EINVAL, blk)
      | Some scratch \<Rightarrow>
          if data_len > BEAMFS_SUBBLOCK_DATA then (Some EINVAL, blk)
          else if \<not> scratch ! this_cpu env then (Some ENOMEM, blk)
          else rs_encode_woven_loop env doff poff parity_stride data_len n_subblocks [0..<n_subblocks] blk)"

text \<open>One subblock of the decoder: the block, \<open>worst\<close> and the results so far.\<close>

definition rs_decode_woven_step ::
    "rs_env \<Rightarrow> nat \<Rightarrow> nat \<Rightarrow> nat \<Rightarrow> nat \<Rightarrow> nat \<Rightarrow> nat
       \<Rightarrow> byte list \<times> int \<times> int list \<Rightarrow> byte list \<times> int \<times> int list" where
  "rs_decode_woven_step env doff poff stride data_len n i = (\<lambda>(blk, worst, results).
     let (rc, scratch, _) =
           beamfs_rs_decode env (rs_gather blk doff i data_len n)
             (get_bytes (poff + i * stride) BEAMFS_RS_PARITY blk) None;
         results' = results @ [rc]
     in if rc < 0 then (blk, rc, results')
        else (rs_scatter blk doff i data_len n scratch, (if rc > worst then rc else worst), results'))"

definition beamfs_rs_decode_woven ::
    "rs_env \<Rightarrow> byte list \<Rightarrow> nat \<Rightarrow> nat \<Rightarrow> nat \<Rightarrow> nat \<Rightarrow> nat \<Rightarrow> byte list \<times> int \<times> int list" where
  "beamfs_rs_decode_woven env blk doff poff parity_stride data_len n_subblocks =
     (case beamfs_rs_scratch_pcpu env of
        None \<Rightarrow> (blk, - errno_code EINVAL, [])
      | Some scratch \<Rightarrow>
          if data_len > BEAMFS_SUBBLOCK_DATA then (blk, - errno_code EINVAL, [])
          else if \<not> scratch ! this_cpu env then (blk, - errno_code ENOMEM, [])
          else fold (rs_decode_woven_step env doff poff parity_stride data_len n_subblocks)
                 [0..<n_subblocks] (blk, 0, []))"

definition beamfs_rs_encode_block :: "rs_env \<Rightarrow> byte list \<Rightarrow> errno option \<times> byte list" where
  "beamfs_rs_encode_block env block =
     beamfs_rs_encode_woven env block BEAMFS_DATA_WOVEN_OFF BEAMFS_DATA_WOVEN_PARITY_OFF
       BEAMFS_RS_PARITY BEAMFS_SUBBLOCK_DATA BEAMFS_DATA_INLINE_SUBBLOCKS"

definition beamfs_rs_decode_block :: "rs_env \<Rightarrow> byte list \<Rightarrow> byte list \<times> int \<times> int list" where
  "beamfs_rs_decode_block env block =
     beamfs_rs_decode_woven env block BEAMFS_DATA_WOVEN_OFF BEAMFS_DATA_WOVEN_PARITY_OFF
       BEAMFS_RS_PARITY BEAMFS_SUBBLOCK_DATA BEAMFS_DATA_INLINE_SUBBLOCKS"

definition beamfs_block_read :: "byte list \<Rightarrow> nat \<Rightarrow> nat \<Rightarrow> byte list" where
  "beamfs_block_read block off len = get_bytes (BEAMFS_DATA_WOVEN_OFF + off) len block"

definition beamfs_block_write :: "byte list \<Rightarrow> nat \<Rightarrow> byte list \<Rightarrow> byte list" where
  "beamfs_block_write block off src = put_bytes (BEAMFS_DATA_WOVEN_OFF + off) src block"

subsection \<open>The strided layout\<close>

primrec rs_encode_region_loop ::
    "rs_env \<Rightarrow> nat \<Rightarrow> nat \<Rightarrow> nat \<Rightarrow> nat \<Rightarrow> nat \<Rightarrow> nat list \<Rightarrow> byte list \<Rightarrow> errno option \<times> byte list" where
  "rs_encode_region_loop env doff dstride poff pstride data_len [] buf = (None, buf)"
| "rs_encode_region_loop env doff dstride poff pstride data_len (i # is) buf =
     (case beamfs_rs_encode env (get_bytes (doff + i * dstride) data_len buf) of
        Inl e \<Rightarrow> (Some e, buf)
      | Inr par \<Rightarrow>
          rs_encode_region_loop env doff dstride poff pstride data_len is (put_bytes (poff + i * pstride) par buf))"

definition beamfs_rs_encode_region ::
    "rs_env \<Rightarrow> byte list \<Rightarrow> nat \<Rightarrow> nat \<Rightarrow> nat \<Rightarrow> nat \<Rightarrow> nat \<Rightarrow> nat \<Rightarrow> errno option \<times> byte list" where
  "beamfs_rs_encode_region env buf doff data_stride poff parity_stride data_len n_subblocks =
     rs_encode_region_loop env doff data_stride poff parity_stride data_len [0..<n_subblocks] buf"

definition rs_decode_region_step ::
    "rs_env \<Rightarrow> nat \<Rightarrow> nat \<Rightarrow> nat \<Rightarrow> nat \<Rightarrow> nat \<Rightarrow> nat option \<Rightarrow> nat
       \<Rightarrow> byte list \<times> int \<times> int list \<times> byte list list \<Rightarrow> byte list \<times> int \<times> int list \<times> byte list list" where
  "rs_decode_region_step env doff dstride poff pstride data_len want i = (\<lambda>(buf, worst, results, poss).
     let (rc, data', pos) =
           beamfs_rs_decode env (get_bytes (doff + i * dstride) data_len buf)
             (get_bytes (poff + i * pstride) BEAMFS_RS_PARITY buf) want
     in (put_bytes (doff + i * dstride) data' buf,
         (if rc < 0 \<and> worst \<ge> 0 then rc else worst), results @ [rc], poss @ [pos]))"

text \<open>The two checks on the positions array and its stride leave a stride that is zero exactly
  when there is no array, which is the option \<open>want\<close>.\<close>

definition beamfs_rs_decode_region ::
    "rs_env \<Rightarrow> byte list \<Rightarrow> nat \<Rightarrow> nat \<Rightarrow> nat \<Rightarrow> nat \<Rightarrow> nat \<Rightarrow> nat \<Rightarrow> bool \<Rightarrow> nat
       \<Rightarrow> byte list \<times> int \<times> int list \<times> byte list list" where
  "beamfs_rs_decode_region env buf doff data_stride poff parity_stride data_len n_subblocks
       has_positions positions_stride =
     (if has_positions \<and> positions_stride = 0 then (buf, - errno_code EINVAL, [], [])
      else if \<not> has_positions \<and> positions_stride \<noteq> 0 then (buf, - errno_code EINVAL, [], [])
      else
        let want = (if has_positions then Some positions_stride else None)
        in fold (rs_decode_region_step env doff data_stride poff parity_stride data_len want)
             [0..<n_subblocks] (buf, 0, [], []))"

subsection \<open>Checksums\<close>

definition beamfs_crc32 :: "(u32 \<Rightarrow> byte list \<Rightarrow> u32) \<Rightarrow> byte list \<Rightarrow> u32" where
  "beamfs_crc32 crc32_le buf = crc32_le 0xFFFFFFFF buf XOR 0xFFFFFFFF"

definition beamfs_crc32_sb :: "(u32 \<Rightarrow> byte list \<Rightarrow> u32) \<Rightarrow> byte list \<Rightarrow> u32" where
  "beamfs_crc32_sb crc32_le fsb =
     (let off_crc32 = 64; off_uuid = 68; off_pad = 2769;
          c = crc32_le 0xFFFFFFFF (get_bytes 0 off_crc32 fsb);
          c = crc32_le c (get_bytes off_uuid (off_pad - off_uuid) fsb)
      in c XOR 0xFFFFFFFF)"

subsection \<open>What the layer relies on in the codec\<close>

text \<open>A running environment: both arrays are there with an entry for this CPU, and the library
  keeps its documented contract. The parity is sixteen symbols of one byte; when at most
  eight of the symbols given to the decoder differ from the data and the parity the encoder
  gave for it, the decoder reports exactly those, each with the xor of the two.\<close>

locale rs_library =
  fixes env :: rs_env
  assumes ctrl_ready: "\<exists>ctrl. beamfs_rs_ctrl_pcpu env = Some ctrl \<and> ctrl ! this_cpu env"
    and scratch_ready: "\<exists>scratch. beamfs_rs_scratch_pcpu env = Some scratch \<and> scratch ! this_cpu env"
    and encode_length: "0 < length data \<Longrightarrow> length data \<le> 239 \<Longrightarrow> length (encode_rs8 env data) = 16"
    and decode_reports: "0 < length data \<Longrightarrow> length data \<le> 239 \<Longrightarrow> length rdata = length data \<Longrightarrow>
      length rpar = 16 \<Longrightarrow>
      card (errors (rdata @ rpar) (data @ map ucast (encode_rs8 env data))) \<le> 8 \<Longrightarrow>
      \<exists>found. decode_rs8 env rdata (map ucast rpar) = Some found \<and> distinct (map fst found)
        \<and> set found = (\<lambda>t. (int t, ucast ((rdata @ rpar) ! t XOR (data @ map ucast (encode_rs8 env data)) ! t)))
                         ` errors (rdata @ rpar) (data @ map ucast (encode_rs8 env data))"

text \<open>The checker's port of the codec, reporting its corrections the same way, keeps it.\<close>

definition port_decode :: "byte list \<Rightarrow> u16 list \<Rightarrow> (int \<times> u16) list option" where
  "port_decode data par =
     (let w = data @ map ucast par
      in case rs_decode_subblock beam_codec data (map ucast par) of
           None \<Rightarrow> None
         | Some (d, p, _, _) \<Rightarrow>
             Some (map (\<lambda>t. (int t, ucast (w ! t XOR (d @ p) ! t)))
                     (filter (\<lambda>t. w ! t \<noteq> (d @ p) ! t) [0..<length w])))"

definition port_env :: rs_env where
  "port_env = \<lparr>beamfs_rs_ctrl_pcpu = Some [True], beamfs_rs_scratch_pcpu = Some [True], this_cpu = 0,
     encode_rs8 = (\<lambda>data. map ucast (rs_encode_subblock beam_codec data)), decode_rs8 = port_decode\<rparr>"

lemma ucast_byte_u16 [simp]: "ucast (ucast (b :: byte) :: u16) = b"
  by (rule bit_eqI) (auto simp: bit_simps)

lemma map_ucast_byte_u16 [simp]: "map (ucast \<circ> (ucast :: byte \<Rightarrow> u16)) xs = xs"
  by (induction xs) simp_all

interpretation port: rs_library port_env
proof
  show "\<exists>ctrl. beamfs_rs_ctrl_pcpu port_env = Some ctrl \<and> ctrl ! this_cpu port_env"
    "\<exists>scratch. beamfs_rs_scratch_pcpu port_env = Some scratch \<and> scratch ! this_cpu port_env"
    by (simp_all add: port_env_def)
next
  fix data :: "byte list" assume "0 < length data" "length data \<le> 239"
  show "length (encode_rs8 port_env data) = 16" by (simp add: port_env_def bc.length_encode_subblock)
next
  fix data rdata rpar :: "byte list"
  let ?c = "data @ map ucast (encode_rs8 port_env data)" and ?w = "rdata @ rpar"
  assume len: "0 < length data" "length data \<le> 239" "length rdata = length data" "length rpar = 16"
    and few: "card (errors ?w ?c) \<le> 8"
  have c: "?c = data @ rs_encode_subblock beam_codec data" by (simp add: port_env_def)
  have dec: "decode_rs8 port_env rdata (map ucast rpar)
      = Some (map (\<lambda>t. (int t, ucast (?w ! t XOR ?c ! t))) (filter (\<lambda>t. ?w ! t \<noteq> ?c ! t) [0..<length ?w]))"
    using subblock_corrects [OF len few [unfolded c]] unfolding c
    by (simp add: port_env_def port_decode_def Let_def)
  show "\<exists>found. decode_rs8 port_env rdata (map ucast rpar) = Some found \<and> distinct (map fst found)
      \<and> set found = (\<lambda>t. (int t, ucast (?w ! t XOR ?c ! t))) ` errors ?w ?c"
    unfolding dec by (intro exI conjI, rule refl) (auto simp: comp_def distinct_map inj_on_def errors_def)
qed

subsection \<open>The sort\<close>

lemma mset_rs_insert: "mset (rs_insert x ys) = add_mset x (mset ys)"
  by (induction ys) auto

lemma set_rs_insert: "set (rs_insert x ys) = insert x (set ys)"
  by (metis mset_rs_insert set_mset_add_mset_insert set_mset_mset)

lemma rs_insert_sorted:
  "sorted_wrt (\<ge>) (map fst ys) \<Longrightarrow> sorted_wrt (\<ge>) (map fst (rs_insert x ys))"
  by (induction ys) (auto simp: set_rs_insert)

lemma rs_sort_fold:
  "mset (fold rs_insert xs ys) = mset xs + mset ys
   \<and> (sorted_wrt (\<ge>) (map fst ys) \<longrightarrow> sorted_wrt (\<ge>) (map fst (fold rs_insert xs ys)))"
  by (induction xs arbitrary: ys) (simp_all add: mset_rs_insert rs_insert_sorted)

lemma mset_rs_sort: "mset (rs_sort xs) = mset xs"
  using rs_sort_fold [of xs "[]"] by (simp add: rs_sort_def)

lemma rs_sort_sorted: "sorted (map fst (rs_sort xs))"
  using rs_sort_fold [of xs "[]"] by (simp add: rs_sort_def rev_map [symmetric] sorted_wrt_rev)

text \<open>So the corrections come out in ascending order of position.\<close>

lemma rs_sort_unique:
  assumes "distinct (map fst found)" "set found = (\<lambda>t. (int t, g t)) ` T" "T \<subseteq> {..<n}"
  shows "rs_sort found = map (\<lambda>t. (int t, g t)) (filter (\<lambda>t. t \<in> T) [0..<n])"
proof (rule map_sorted_distinct_set_unique [where f = fst])
  let ?ys = "map (\<lambda>t. (int t, g t)) (filter (\<lambda>t. t \<in> T) [0..<n])"
  have ms: "mset (map fst (rs_sort found)) = mset (map fst found)" by (simp add: mset_rs_sort)
  show "distinct (map fst (rs_sort found))" using assms(1) ms by (metis mset_eq_imp_distinct_iff)
  have st: "set (rs_sort found) = set found" by (metis mset_rs_sort set_mset_mset)
  moreover have "set ?ys = set found" using assms(2,3) by auto
  ultimately show "set (rs_sort found) = set ?ys" by simp
  show "inj_on fst (set (rs_sort found) \<union> set ?ys)"
    using st \<open>set ?ys = set found\<close> assms(1) by (simp add: distinct_map)
  show "sorted (map fst (rs_sort found))" by (rule rs_sort_sorted)
  show "sorted (map fst ?ys)" by (simp add: comp_def sorted_map) (simp add: sorted_wrt_filter)
  show "distinct (map fst ?ys)" by (simp add: comp_def distinct_map inj_on_def)
qed

lemma fold_xor_nth:
  assumes "distinct ts" "i < length d"
  shows "fold (\<lambda>(p, c) d. d[nat p := d ! nat p XOR ucast c]) (map (\<lambda>t. (int t, g t)) ts) d ! i
    = (if i \<in> set ts then d ! i XOR ucast (g i) else (d ! i :: byte))"
  using assms
proof (induction ts arbitrary: d)
  case (Cons a ts)
  then show ?case by (cases "i = a") auto
qed simp

lemma length_fold_xor [simp]:
  "length (fold (\<lambda>(p, c) d. d[nat p := d ! nat p XOR ucast c]) xs d) = length d"
  by (induction xs arbitrary: d) (auto split: prod.split)

context rs_library
begin

definition parity :: "byte list \<Rightarrow> byte list" where
  "parity data = map ucast (encode_rs8 env data)"

lemma length_parity [simp]: "0 < length data \<Longrightarrow> length data \<le> 239 \<Longrightarrow> length (parity data) = 16"
  by (simp add: parity_def encode_length)

lemma encode_ok: "length data \<le> 239 \<Longrightarrow> beamfs_rs_encode env data = Inr (parity data)"
  using ctrl_ready by (auto simp: beamfs_rs_encode_def parity_def)

lemma decode_ok:
  assumes len: "0 < length data" "length data \<le> 239" "length rdata = length data" "length rpar = 16"
    and few: "card (errors (rdata @ rpar) (data @ parity data)) \<le> 8" and want: "want \<noteq> Some 0"
  shows "beamfs_rs_decode env rdata rpar want =
    (case want of
       Some m \<Rightarrow> (int (min (card (errors rdata data)) m), data,
                  map word_of_nat (take m (filter (\<lambda>t. t \<in> errors rdata data) [0..<length data])))
     | None \<Rightarrow> (int (card (errors (rdata @ rpar) (data @ parity data))), data, []))"
proof -
  let ?w = "rdata @ rpar" and ?c = "data @ parity data" and ?n = "length data"
  let ?T = "errors (rdata @ rpar) (data @ parity data)"
  let ?g = "\<lambda>t. ucast (?w ! t XOR ?c ! t) :: u16"
  obtain found where f: "decode_rs8 env rdata (map ucast rpar) = Some found"
      "distinct (map fst found)" "set found = (\<lambda>t. (int t, ?g t)) ` ?T"
    using decode_reports [OF len few [unfolded parity_def]] by (auto simp: parity_def)
  have T: "?T \<subseteq> {..<?n + 16}" "finite ?T" using len by (auto simp: errors_def)
  note srt = rs_sort_unique [OF f(2,3) T(1)]
  have "card (set found) = card ?T" unfolding f(3) by (rule card_image) (auto simp: inj_on_def)
  then have cf: "length found = card ?T" using f(2) by (metis distinct_card distinct_map)
  have "filter (\<lambda>(p, c). \<not> (p < 0 \<or> p \<ge> int (length rdata))) (rs_sort found)
      = map (\<lambda>t. (int t, ?g t)) (filter (\<lambda>t. t < ?n \<and> t \<in> ?T) [0..<?n + 16])"
    using len(3) by (simp add: srt filter_map comp_def case_prod_beta conj_commute not_le)
  also have "filter (\<lambda>t. t < ?n \<and> t \<in> ?T) [0..<?n + 16] = filter (\<lambda>t. t \<in> errors rdata data) [0..<?n]"
  proof -
    have "filter (\<lambda>t. t < ?n \<and> t \<in> ?T) [?n..<?n + 16] = []" by (auto simp: filter_empty_conv)
    moreover have "filter (\<lambda>t. t < ?n \<and> t \<in> ?T) [0..<?n] = filter (\<lambda>t. t \<in> errors rdata data) [0..<?n]"
      using len(3) by (intro filter_cong) (auto simp: errors_def nth_append)
    ultimately show ?thesis using upt_add_eq_append [of 0 ?n 16] by simp
  qed
  finally have ins: "filter (\<lambda>(p, c). \<not> (p < 0 \<or> p \<ge> int (length rdata))) (rs_sort found)
      = map (\<lambda>t. (int t, ?g t)) (filter (\<lambda>t. t \<in> errors rdata data) [0..<?n])" .
  let ?ts = "filter (\<lambda>t. t \<in> errors rdata data) [0..<?n]"
  have fixed: "fold (\<lambda>(p, c) d. d[nat p := d ! nat p XOR ucast c]) (map (\<lambda>t. (int t, ?g t)) ?ts) rdata = data"
    (is "?fold = data")
  proof (rule nth_equalityI)
    fix i assume "i < length ?fold"
    then have i: "i < ?n" using len(3) by simp
    have "?fold ! i = (if i \<in> set ?ts then rdata ! i XOR ucast (?g i) else rdata ! i)"
      using i len(3) by (intro fold_xor_nth) simp_all
    then show "?fold ! i = data ! i"
      using i len(3) by (auto simp: errors_def nth_append simp flip: xor.assoc)
  qed (simp add: len(3))
  have "errors rdata data \<inter> {..<?n} = errors rdata data" using len(3) by (auto simp: errors_def)
  then have "length ?ts = card (errors rdata data)"
    using length_filter_upt [of "errors rdata data" ?n] by simp
  moreover have "filter (\<lambda>(p, c). \<not> p < 0 \<and> \<not> int ?n \<le> p) (rs_sort found) = map (\<lambda>t. (int t, ?g t)) ?ts"
    using ins len(3) by simp
  ultimately show ?thesis
    using ctrl_ready len f(1) want cf few fixed
    by (auto simp: beamfs_rs_decode_def take_map comp_def Let_def split: option.split)
qed

end

subsection \<open>Gathering and scattering\<close>

lemma length_rs_gather [simp]: "length (rs_gather blk doff sub len n) = len"
  by (simp add: rs_gather_def)

lemma nth_rs_gather [simp]:
  "i < len \<Longrightarrow> rs_gather blk doff sub len n ! i = blk ! (doff + rs_woven_off sub i n)"
  by (simp add: rs_gather_def)

lemma woven_off_inj:
  assumes "s < n" "s' < n"
  shows "rs_woven_off s i n = rs_woven_off s' i' n \<longleftrightarrow> s = s' \<and> i = i'"
proof
  assume eq: "rs_woven_off s i n = rs_woven_off s' i' n"
  then have "(i * n + s) mod n = (i' * n + s') mod n" "(i * n + s) div n = (i' * n + s') div n"
    by (simp_all add: rs_woven_off_def)
  then show "s = s' \<and> i = i'" using assms by simp
qed simp

lemma woven_off_less: "s < n \<Longrightarrow> i < len \<Longrightarrow> rs_woven_off s i n < len * n"
proof -
  assume "s < n" "i < len"
  then have "i * n + s < Suc i * n" by simp
  also have "\<dots> \<le> len * n" using \<open>i < len\<close> by (intro mult_le_mono1) simp
  finally show ?thesis by (simp add: rs_woven_off_def)
qed

lemma length_rs_scatter [simp]: "length (rs_scatter blk doff sub len n src) = length blk"
  unfolding rs_scatter_def by (induction len) simp_all

lemma nth_rs_scatter_other:
  assumes "\<And>i. i < len \<Longrightarrow> k \<noteq> doff + rs_woven_off sub i n"
  shows "rs_scatter blk doff sub len n src ! k = blk ! k"
  using assms unfolding rs_scatter_def
proof (induction len)
  case (Suc len)
  then have "doff + rs_woven_off sub len n \<noteq> k" by (metis lessI)
  then show ?case using Suc by simp
qed simp

lemma nth_rs_scatter_same:
  assumes "sub < n" "i < len" "doff + len * n \<le> length blk"
  shows "rs_scatter blk doff sub len n src ! (doff + rs_woven_off sub i n) = src ! i"
  using assms(2,3)
proof (induction len)
  case (Suc len)
  have step: "rs_scatter blk doff sub (Suc len) n src
      = (rs_scatter blk doff sub len n src)[doff + rs_woven_off sub len n := src ! len]"
    by (simp add: rs_scatter_def)
  have "doff + rs_woven_off sub len n < length blk"
    using woven_off_less [OF assms(1), of len "Suc len"] Suc.prems(2) by simp
  moreover have "doff + len * n \<le> length blk" using Suc.prems(2) by simp
  ultimately show ?case
    using Suc.IH Suc.prems(1) woven_off_inj [OF assms(1) assms(1), of len i]
    by (cases "i = len") (auto simp: step)
qed simp

lemma gather_scatter_same:
  "sub < n \<Longrightarrow> doff + len * n \<le> length blk \<Longrightarrow> length src = len \<Longrightarrow>
   rs_gather (rs_scatter blk doff sub len n src) doff sub len n = src"
  by (rule nth_equalityI) (simp_all add: nth_rs_scatter_same)

lemma gather_scatter_other:
  "sub < n \<Longrightarrow> s < n \<Longrightarrow> s \<noteq> sub \<Longrightarrow>
   rs_gather (rs_scatter blk doff sub len n src) doff s len n = rs_gather blk doff s len n"
  by (rule nth_equalityI) (auto intro!: nth_rs_scatter_other simp: woven_off_inj)

lemma get_scatter_after:
  assumes "doff + len * n \<le> k" "k + m \<le> length blk" "sub < n"
  shows "get_bytes k m (rs_scatter blk doff sub len n src) = get_bytes k m blk"
proof (rule nth_equalityI)
  fix j assume "j < length (get_bytes k m (rs_scatter blk doff sub len n src))"
  then have j: "j < m" using assms(2) by simp
  have "rs_scatter blk doff sub len n src ! (k + j) = blk ! (k + j)"
  proof (rule nth_rs_scatter_other)
    fix i assume "i < len"
    then have "rs_woven_off sub i n < len * n" using woven_off_less assms(3) by simp
    then show "k + j \<noteq> doff + rs_woven_off sub i n" using assms(1) by simp
  qed
  then show "get_bytes k m (rs_scatter blk doff sub len n src) ! j = get_bytes k m blk ! j"
    using j assms(2) by (simp add: nth_get_bytes)
qed (use assms in simp)

text \<open>The data area is determined by its codewords.\<close>

lemma gather_determines:
  assumes "\<And>s. s < n \<Longrightarrow> rs_gather a doff s len n = rs_gather b doff s len n" "j < len * n" "0 < n"
  shows "a ! (doff + j) = b ! (doff + j)"
proof -
  have "j div n < len" using assms(2,3) by (simp add: less_mult_imp_div_less)
  moreover have "rs_woven_off (j mod n) (j div n) n = j" by (simp add: rs_woven_off_def)
  ultimately show ?thesis
    using assms(1) [of "j mod n"] assms(3) nth_rs_gather [of "j div n" len _ doff "j mod n" n]
    by (metis mod_less_divisor)
qed

subsection \<open>Blocks in the interleaved layout\<close>

text \<open>The areas do not overlap: the data before the parity, the parity of the codewords one
  after another.\<close>

definition woven_ok :: "byte list \<Rightarrow> nat \<Rightarrow> nat \<Rightarrow> nat \<Rightarrow> nat \<Rightarrow> nat \<Rightarrow> bool" where
  "woven_ok blk doff poff stride len n \<longleftrightarrow>
     0 < len \<and> len \<le> 239 \<and> 16 \<le> stride \<and> doff + len * n \<le> poff \<and> poff + n * stride \<le> length blk"

text \<open>The places where codeword \<open>s\<close>, data and parity, of two blocks differs.\<close>

definition woven_errs :: "byte list \<Rightarrow> byte list \<Rightarrow> nat \<Rightarrow> nat \<Rightarrow> nat \<Rightarrow> nat \<Rightarrow> nat \<Rightarrow> nat \<Rightarrow> nat set" where
  "woven_errs r c doff poff stride len n s =
     errors (rs_gather r doff s len n @ get_bytes (poff + s * stride) 16 r)
            (rs_gather c doff s len n @ get_bytes (poff + s * stride) 16 c)"

lemma woven_ok_parity:
  assumes "woven_ok blk doff poff stride len n" "i < n"
  shows "poff + i * stride + 16 \<le> length blk" "doff + len * n \<le> poff + i * stride"
proof -
  have "i * stride + stride \<le> n * stride" using assms(2) by (metis Suc_leI mult_Suc mult_le_mono1 add.commute)
  then show "poff + i * stride + 16 \<le> length blk" "doff + len * n \<le> poff + i * stride"
    using assms(1) by (auto simp: woven_ok_def)
qed

lemma stride_apart:
  fixes i j :: nat
  assumes "i \<noteq> j" "16 \<le> stride"
  shows "i * stride + 16 \<le> j * stride \<or> j * stride + 16 \<le> i * stride"
proof -
  have "a * stride + 16 \<le> b * stride" if "a < b" for a b :: nat
  proof -
    have "a * stride + stride \<le> b * stride" using that by (metis Suc_leI mult_Suc mult_le_mono1 add.commute)
    then show ?thesis using assms(2) by simp
  qed
  then show ?thesis using assms(1) by (meson linorder_neqE_nat)
qed

lemma gather_put_after:
  assumes "doff + len * n \<le> k" "s < n" "k \<le> length blk"
  shows "rs_gather (put_bytes k src blk) doff s len n = rs_gather blk doff s len n"
proof (rule nth_equalityI)
  fix i assume i: "i < length (rs_gather (put_bytes k src blk) doff s len n)"
  then have "rs_woven_off s i n < len * n" using woven_off_less [OF assms(2)] by simp
  then show "rs_gather (put_bytes k src blk) doff s len n ! i = rs_gather blk doff s len n ! i"
    using i assms(1,3) by (simp add: put_bytes_def nth_append)
qed simp

context rs_library
begin

lemma encode_woven_loop:
  assumes "woven_ok blk doff poff stride len n" "distinct is" "set is \<subseteq> {..<n}"
  shows "\<exists>blk'. rs_encode_woven_loop env doff poff stride len n is blk = (None, blk')
    \<and> length blk' = length blk
    \<and> (\<forall>s < n. rs_gather blk' doff s len n = rs_gather blk doff s len n)
    \<and> (\<forall>s < n. get_bytes (poff + s * stride) 16 blk'
              = (if s \<in> set is then parity (rs_gather blk doff s len n)
                 else get_bytes (poff + s * stride) 16 blk))"
  using assms
proof (induction "is" arbitrary: blk)
  case (Cons i js)
  have i: "i < n" "i \<notin> set js" using Cons.prems by auto
  let ?par = "parity (rs_gather blk doff i len n)" and ?off = "poff + i * stride"
  let ?b = "put_bytes ?off ?par blk"
  have lp: "length ?par = 16" using Cons.prems(1) by (simp add: woven_ok_def)
  note po = woven_ok_parity [OF Cons.prems(1)]
  have lb: "length ?b = length blk" using po(1) [OF i(1)] lp by simp
  have g: "rs_gather ?b doff s len n = rs_gather blk doff s len n" if "s < n" for s
    using gather_put_after [of doff len n ?off s blk ?par] po [OF i(1)] that by simp
  have p: "get_bytes (poff + s * stride) 16 ?b = (if s = i then ?par else get_bytes (poff + s * stride) 16 blk)"
    if "s < n" for s
  proof (cases "s = i")
    case True
    then show ?thesis using get_put_same [of ?off ?par blk] po(1) [OF i(1)] lp by simp
  next
    case False
    then show ?thesis
      using get_put_other [of ?off ?par blk "poff + s * stride" 16] po(1) [OF i(1)] po(1) [OF that] lp
        stride_apart [OF False, of stride] Cons.prems(1) by (auto simp: woven_ok_def)
  qed
  have ok: "woven_ok ?b doff poff stride len n" using Cons.prems(1) lb by (simp add: woven_ok_def)
  obtain blk' where b': "rs_encode_woven_loop env doff poff stride len n js ?b = (None, blk')"
      "length blk' = length blk" "\<forall>s < n. rs_gather blk' doff s len n = rs_gather blk doff s len n"
      "\<forall>s < n. get_bytes (poff + s * stride) 16 blk'
         = (if s \<in> set js then parity (rs_gather blk doff s len n) else get_bytes (poff + s * stride) 16 ?b)"
    using Cons.IH [OF ok] Cons.prems(2,3) g lb by auto
  have "rs_encode_woven_loop env doff poff stride len n (i # js) blk = (None, blk')"
    using encode_ok [of "rs_gather blk doff i len n"] Cons.prems(1) b'(1) by (simp add: woven_ok_def)
  then show ?case using b'(2-4) p by auto
qed auto

lemma encode_woven:
  assumes "woven_ok blk doff poff stride len n"
  shows "\<exists>blk'. beamfs_rs_encode_woven env blk doff poff stride len n = (None, blk')
    \<and> length blk' = length blk
    \<and> (\<forall>s < n. rs_gather blk' doff s len n = rs_gather blk doff s len n)
    \<and> (\<forall>s < n. get_bytes (poff + s * stride) 16 blk' = parity (rs_gather blk' doff s len n))"
proof -
  have "set [0..<n] \<subseteq> {..<n}" by auto
  from encode_woven_loop [OF assms distinct_upt this] obtain blk' where
    "rs_encode_woven_loop env doff poff stride len n [0..<n] blk = (None, blk')" "length blk' = length blk"
    "\<forall>s < n. rs_gather blk' doff s len n = rs_gather blk doff s len n"
    "\<forall>s < n. get_bytes (poff + s * stride) 16 blk' = parity (rs_gather blk doff s len n)"
    by auto
  then show ?thesis
    using scratch_ready assms by (auto simp: beamfs_rs_encode_woven_def woven_ok_def)
qed

text \<open>A block whose parity is right.\<close>

definition woven_code :: "byte list \<Rightarrow> nat \<Rightarrow> nat \<Rightarrow> nat \<Rightarrow> nat \<Rightarrow> nat \<Rightarrow> bool" where
  "woven_code c doff poff stride len n \<longleftrightarrow>
     (\<forall>s < n. get_bytes (poff + s * stride) 16 c = parity (rs_gather c doff s len n))"

lemma decode_woven_loop:
  assumes ok: "woven_ok r doff poff stride len n" and len: "length c = length r"
    and code: "woven_code c doff poff stride len n"
    and few: "\<And>s. s < n \<Longrightarrow> card (woven_errs r c doff poff stride len n s) \<le> 8" and k: "k \<le> n"
  shows "\<exists>blk worst. fold (rs_decode_woven_step env doff poff stride len n) [0..<k] (r, 0, [])
      = (blk, worst, map (\<lambda>s. int (card (woven_errs r c doff poff stride len n s))) [0..<k])
    \<and> length blk = length r \<and> 0 \<le> worst
    \<and> (\<forall>s < n. rs_gather blk doff s len n = (if s < k then rs_gather c doff s len n else rs_gather r doff s len n))
    \<and> (\<forall>s < n. get_bytes (poff + s * stride) 16 blk = get_bytes (poff + s * stride) 16 r)
    \<and> (\<forall>j. (\<forall>s < n. \<forall>i < len. j \<noteq> doff + rs_woven_off s i n) \<longrightarrow> blk ! j = r ! j)"
  using k
proof (induction k)
  case (Suc k)
  then obtain blk worst where IH:
    "fold (rs_decode_woven_step env doff poff stride len n) [0..<k] (r, 0, [])
       = (blk, worst, map (\<lambda>s. int (card (woven_errs r c doff poff stride len n s))) [0..<k])"
    "length blk = length r" "0 \<le> worst"
    "\<And>s. s < n \<Longrightarrow> rs_gather blk doff s len n = (if s < k then rs_gather c doff s len n else rs_gather r doff s len n)"
    "\<And>s. s < n \<Longrightarrow> get_bytes (poff + s * stride) 16 blk = get_bytes (poff + s * stride) 16 r"
    "\<And>j. \<forall>s < n. \<forall>i < len. j \<noteq> doff + rs_woven_off s i n \<Longrightarrow> blk ! j = r ! j"
    by auto
  have kn: "k < n" using Suc.prems by simp
  let ?C = "rs_gather c doff k len n"
  have ln: "0 < len" "len \<le> 239" "doff + len * n \<le> poff" using ok by (auto simp: woven_ok_def)
  have pk: "poff + k * stride + 16 \<le> length r" "doff + len * n \<le> length r"
    using woven_ok_parity [OF ok kn] by simp_all
  have e: "errors (rs_gather r doff k len n @ get_bytes (poff + k * stride) 16 r) (?C @ parity ?C)
      = woven_errs r c doff poff stride len n k"
    using code kn by (simp add: woven_errs_def woven_code_def)
  have "beamfs_rs_decode env (rs_gather blk doff k len n) (get_bytes (poff + k * stride) 16 blk) None
      = (int (card (woven_errs r c doff poff stride len n k)), ?C, [])"
    using decode_ok [of ?C "rs_gather r doff k len n" "get_bytes (poff + k * stride) 16 r" None]
      ln pk few [OF kn] IH(4,5) kn by (simp add: e)
  then have step: "rs_decode_woven_step env doff poff stride len n k
      (blk, worst, map (\<lambda>s. int (card (woven_errs r c doff poff stride len n s))) [0..<k])
    = (rs_scatter blk doff k len n ?C, max worst (int (card (woven_errs r c doff poff stride len n k))),
       map (\<lambda>s. int (card (woven_errs r c doff poff stride len n s))) [0..<Suc k])"
    by (simp add: rs_decode_woven_step_def max_def)
  let ?b = "rs_scatter blk doff k len n ?C"
  have "rs_gather ?b doff s len n = (if s < Suc k then rs_gather c doff s len n else rs_gather r doff s len n)" if "s < n" for s
    using that kn IH(2,4) pk(2) gather_scatter_same [of k n doff len blk ?C] gather_scatter_other [of k n s blk doff len ?C]
    by (cases "s = k") (auto simp: less_Suc_eq)
  moreover have "get_bytes (poff + s * stride) 16 ?b = get_bytes (poff + s * stride) 16 r" if "s < n" for s
    using get_scatter_after [of doff len n "poff + s * stride" 16 blk k ?C] woven_ok_parity [OF ok that] IH(2,5) that kn by simp
  moreover have "?b ! j = r ! j" if "\<forall>s < n. \<forall>i < len. j \<noteq> doff + rs_woven_off s i n" for j
    using nth_rs_scatter_other [of len j doff k n blk ?C] IH(6) [OF that] that kn by simp
  ultimately show ?case using IH(1,2,3) step by (intro exI) auto
qed (use assms in auto)

lemma decode_woven:
  assumes ok: "woven_ok r doff poff stride len n" and len: "length c = length r" and n: "0 < n"
    and code: "woven_code c doff poff stride len n"
    and few: "\<And>s. s < n \<Longrightarrow> card (woven_errs r c doff poff stride len n s) \<le> 8"
  shows "\<exists>blk worst. beamfs_rs_decode_woven env r doff poff stride len n
      = (blk, worst, map (\<lambda>s. int (card (woven_errs r c doff poff stride len n s))) [0..<n])
    \<and> length blk = length r \<and> 0 \<le> worst
    \<and> (\<forall>j < length r. blk ! j = (if doff \<le> j \<and> j < doff + len * n then c ! j else r ! j))"
proof -
  obtain blk worst where D:
    "fold (rs_decode_woven_step env doff poff stride len n) [0..<n] (r, 0, [])
       = (blk, worst, map (\<lambda>s. int (card (woven_errs r c doff poff stride len n s))) [0..<n])"
    "length blk = length r" "0 \<le> worst"
    "\<And>s. s < n \<Longrightarrow> rs_gather blk doff s len n = rs_gather c doff s len n"
    "\<And>j. \<forall>s < n. \<forall>i < len. j \<noteq> doff + rs_woven_off s i n \<Longrightarrow> blk ! j = r ! j"
    using decode_woven_loop [OF ok len code few le_refl] by auto
  have "blk ! j = (if doff \<le> j \<and> j < doff + len * n then c ! j else r ! j)" if "j < length r" for j
  proof (cases "doff \<le> j \<and> j < doff + len * n")
    case True
    then have "blk ! (doff + (j - doff)) = c ! (doff + (j - doff))"
      by (intro gather_determines [where len = len and n = n] D(4) n) auto
    then show ?thesis using True by simp
  next
    case False
    then have "\<forall>s < n. \<forall>i < len. j \<noteq> doff + rs_woven_off s i n"
      using woven_off_less by fastforce
    then show ?thesis using D(5) False by auto
  qed
  moreover have "beamfs_rs_decode_woven env r doff poff stride len n
      = fold (rs_decode_woven_step env doff poff stride len n) [0..<n] (r, 0, [])"
    using scratch_ready ok by (auto simp: beamfs_rs_decode_woven_def woven_ok_def)
  ultimately show ?thesis using D(1-3) by auto
qed

end

text \<open>A burst of 128 bytes meets every codeword in at most eight symbols.\<close>

lemma burst_symbols:
  assumes "sub < 16"
  shows "card {i. start \<le> rs_woven_off sub i 16 \<and> rs_woven_off sub i 16 < start + 128} \<le> 8"
proof -
  let ?m = "(start + 15 - sub) div 16"
  have "{i. start \<le> rs_woven_off sub i 16 \<and> rs_woven_off sub i 16 < start + 128} \<subseteq> {?m..<?m + 8}"
  proof
    fix i assume "i \<in> {i. start \<le> rs_woven_off sub i 16 \<and> rs_woven_off sub i 16 < start + 128}"
    then have "start \<le> i * 16 + sub" "i * 16 + sub < start + 128" by (auto simp: rs_woven_off_def)
    then have "?m \<le> i" "i < ?m + 8" using assms by linarith+
    then show "i \<in> {?m..<?m + 8}" by simp
  qed
  from card_mono [OF _ this] show ?thesis by simp
qed

lemma burst_errs:
  assumes "length r = 4096" "length c = 4096" "start + 128 \<le> 3824" "s < 16"
    and "\<And>j. j < 4096 \<Longrightarrow> j < start \<or> start + 128 \<le> j \<Longrightarrow> r ! j = c ! j"
  shows "card (woven_errs r c 0 3824 16 239 16 s) \<le> 8"
proof -
  let ?B = "{i. start \<le> rs_woven_off s i 16 \<and> rs_woven_off s i 16 < start + 128}"
  have "woven_errs r c 0 3824 16 239 16 s \<subseteq> ?B"
  proof
    fix t assume "t \<in> woven_errs r c 0 3824 16 239 16 s"
    then have t: "t < 255" and d: "(rs_gather r 0 s 239 16 @ get_bytes (3824 + s * 16) 16 r) ! t
        \<noteq> (rs_gather c 0 s 239 16 @ get_bytes (3824 + s * 16) 16 c) ! t"
      using assms(1,4) by (auto simp: woven_errs_def errors_def)
    show "t \<in> ?B"
    proof (cases "t < 239")
      case True
      then have "rs_woven_off s t 16 < 3824" using woven_off_less [of s 16 t 239] assms(4) by simp
      then have "\<not> (rs_woven_off s t 16 < start \<or> start + 128 \<le> rs_woven_off s t 16)"
        using d True assms(5) [of "rs_woven_off s t 16"] by (auto simp: nth_append)
      then show ?thesis by simp
    next
      case False
      then have "r ! (3824 + s * 16 + (t - 239)) = c ! (3824 + s * 16 + (t - 239))"
        using assms(3,4) t by (intro assms(5)) auto
      then show ?thesis using d False t assms(1,2,4) by (simp add: nth_append nth_get_bytes)
    qed
  qed
  moreover have "finite ?B"
    by (rule finite_subset [of _ "{..<start + 128}"]) (auto simp: rs_woven_off_def)
  ultimately have "card (woven_errs r c 0 3824 16 239 16 s) \<le> card ?B" by (intro card_mono)
  then show ?thesis using burst_symbols [OF assms(4), of start] by simp
qed

lemma block_woven_ok: "length r = 4096 \<Longrightarrow> woven_ok r 0 3824 16 239 16"
  by (simp add: woven_ok_def)

lemma encode_block:
  assumes "rs_library env" "length blk = 4096"
  shows "\<exists>c. beamfs_rs_encode_block env blk = (None, c) \<and> length c = 4096 \<and> take 3824 c = take 3824 blk
    \<and> rs_library.woven_code env c 0 3824 16 239 16"
proof -
  obtain c where c: "beamfs_rs_encode_block env blk = (None, c)" "length c = 4096"
    "\<And>s. s < 16 \<Longrightarrow> rs_gather c 0 s 239 16 = rs_gather blk 0 s 239 16"
    "\<And>s. s < 16 \<Longrightarrow> get_bytes (3824 + s * 16) 16 c = rs_library.parity env (rs_gather c 0 s 239 16)"
    using rs_library.encode_woven [OF assms(1) block_woven_ok [OF assms(2)]] assms(2)
    by (auto simp: beamfs_rs_encode_block_def)
  have "c ! j = blk ! j" if "j < 3824" for j
    using gather_determines [of 16 c 0 239 blk j] c(3) that by simp
  then have "take 3824 c = take 3824 blk"
    using c(2) assms(2) by (intro nth_equalityI) simp_all
  then show ?thesis using c by (simp add: rs_library.woven_code_def [OF assms(1)])
qed

lemma decode_block:
  assumes "rs_library env" "length r = 4096" "length c = 4096" "rs_library.woven_code env c 0 3824 16 239 16"
    and "\<And>s. s < 16 \<Longrightarrow> card (woven_errs r c 0 3824 16 239 16 s) \<le> 8"
  shows "\<exists>d worst. beamfs_rs_decode_block env r
      = (d, worst, map (\<lambda>s. int (card (woven_errs r c 0 3824 16 239 16 s))) [0..<16])
      \<and> 0 \<le> worst \<and> d = take 3824 c @ drop 3824 r"
proof -
  obtain d worst where d: "beamfs_rs_decode_block env r
      = (d, worst, map (\<lambda>s. int (card (woven_errs r c 0 3824 16 239 16 s))) [0..<16])"
    "length d = 4096" "0 \<le> worst" "\<And>j. j < 4096 \<Longrightarrow> d ! j = (if j < 3824 then c ! j else r ! j)"
    using rs_library.decode_woven [OF assms(1) block_woven_ok [OF assms(2)] _ _ assms(4,5)] assms(2,3)
    by (auto simp: beamfs_rs_decode_block_def)
  have "d = take 3824 c @ drop 3824 r"
    using d(2,4) assms(2,3) by (intro nth_equalityI) (auto simp: nth_append)
  then show ?thesis using d by blast
qed

subsection \<open>Blocks in the strided layout\<close>

text \<open>Slots of a buffer that do not overlap: \<open>apart\<close> of two intervals, and the layout of a region.\<close>

definition apart :: "nat \<Rightarrow> nat \<Rightarrow> nat \<Rightarrow> nat \<Rightarrow> bool" where
  "apart o1 l1 o2 l2 \<longleftrightarrow> o1 + l1 \<le> o2 \<or> o2 + l2 \<le> o1"

definition region_ok :: "byte list \<Rightarrow> nat \<Rightarrow> nat \<Rightarrow> nat \<Rightarrow> nat \<Rightarrow> nat \<Rightarrow> nat \<Rightarrow> bool" where
  "region_ok buf doff ds poff ps len n \<longleftrightarrow>
     0 < len \<and> len \<le> 239
     \<and> (\<forall>i < n. doff + i * ds + len \<le> length buf \<and> poff + i * ps + 16 \<le> length buf)
     \<and> (\<forall>i < n. \<forall>j < n. apart (doff + i * ds) len (poff + j * ps) 16
          \<and> (i \<noteq> j \<longrightarrow> apart (doff + i * ds) len (doff + j * ds) len \<and> apart (poff + i * ps) 16 (poff + j * ps) 16))"

text \<open>The places where subblock \<open>s\<close>, data and parity, of two buffers differs.\<close>

definition region_errs :: "byte list \<Rightarrow> byte list \<Rightarrow> nat \<Rightarrow> nat \<Rightarrow> nat \<Rightarrow> nat \<Rightarrow> nat \<Rightarrow> nat \<Rightarrow> nat set" where
  "region_errs r c doff ds poff ps len s =
     errors (get_bytes (doff + s * ds) len r @ get_bytes (poff + s * ps) 16 r)
            (get_bytes (doff + s * ds) len c @ get_bytes (poff + s * ps) 16 c)"

lemma get_put_apart:
  "off + length src \<le> length buf \<Longrightarrow> o2 + l \<le> length buf \<Longrightarrow> apart off (length src) o2 l \<Longrightarrow>
   get_bytes o2 l (put_bytes off src buf) = get_bytes o2 l buf"
  by (auto simp: apart_def intro: get_put_other)

context rs_library
begin

lemma encode_region_loop:
  assumes "region_ok buf doff ds poff ps len n" "distinct is" "set is \<subseteq> {..<n}"
  shows "\<exists>c. rs_encode_region_loop env doff ds poff ps len is buf = (None, c)
    \<and> length c = length buf
    \<and> (\<forall>s < n. get_bytes (doff + s * ds) len c = get_bytes (doff + s * ds) len buf)
    \<and> (\<forall>s < n. get_bytes (poff + s * ps) 16 c
              = (if s \<in> set is then parity (get_bytes (doff + s * ds) len buf)
                 else get_bytes (poff + s * ps) 16 buf))"
  using assms
proof (induction "is" arbitrary: buf)
  case (Cons i js)
  have i: "i < n" "i \<notin> set js" using Cons.prems by auto
  have R: "0 < len" "len \<le> 239" "\<And>s. s < n \<Longrightarrow> doff + s * ds + len \<le> length buf"
    "\<And>s. s < n \<Longrightarrow> poff + s * ps + 16 \<le> length buf"
    "\<And>s. s < n \<Longrightarrow> apart (poff + i * ps) 16 (doff + s * ds) len"
    "\<And>s. s < n \<Longrightarrow> s \<noteq> i \<Longrightarrow> apart (poff + i * ps) 16 (poff + s * ps) 16"
    using Cons.prems(1) i(1) by (auto simp: region_ok_def apart_def)
  let ?par = "parity (get_bytes (doff + i * ds) len buf)" and ?off = "poff + i * ps"
  let ?b = "put_bytes ?off ?par buf"
  have lp: "length ?par = 16" using R(1,2) R(3) [OF i(1)] by simp
  have lb: "length ?b = length buf" using R(4) [OF i(1)] lp by simp
  have g: "get_bytes (doff + s * ds) len ?b = get_bytes (doff + s * ds) len buf" if "s < n" for s
    using get_put_apart [of ?off ?par buf "doff + s * ds" len] R(3) [OF that] R(4) [OF i(1)] R(5) [OF that] lp by simp
  have p: "get_bytes (poff + s * ps) 16 ?b = (if s = i then ?par else get_bytes (poff + s * ps) 16 buf)"
    if "s < n" for s
    using get_put_apart [of ?off ?par buf "poff + s * ps" 16] get_put_same [of ?off ?par buf]
      R(4) [OF i(1)] R(4) [OF that] R(6) [OF that] lp by auto
  have ok: "region_ok ?b doff ds poff ps len n" using Cons.prems(1) lb by (simp add: region_ok_def)
  obtain c where c: "rs_encode_region_loop env doff ds poff ps len js ?b = (None, c)" "length c = length buf"
      "\<forall>s < n. get_bytes (doff + s * ds) len c = get_bytes (doff + s * ds) len buf"
      "\<forall>s < n. get_bytes (poff + s * ps) 16 c
         = (if s \<in> set js then parity (get_bytes (doff + s * ds) len buf) else get_bytes (poff + s * ps) 16 ?b)"
    using Cons.IH [OF ok] Cons.prems(2,3) g lb by auto
  have "rs_encode_region_loop env doff ds poff ps len (i # js) buf = (None, c)"
    using encode_ok [of "get_bytes (doff + i * ds) len buf"] R(2) R(3) [OF i(1)] c(1) by simp
  then show ?case using c(2-4) p by auto
qed auto

definition region_code :: "byte list \<Rightarrow> nat \<Rightarrow> nat \<Rightarrow> nat \<Rightarrow> nat \<Rightarrow> nat \<Rightarrow> nat \<Rightarrow> bool" where
  "region_code c doff ds poff ps len n \<longleftrightarrow>
     (\<forall>s < n. get_bytes (poff + s * ps) 16 c = parity (get_bytes (doff + s * ds) len c))"

lemma encode_region:
  assumes "region_ok buf doff ds poff ps len n"
  shows "\<exists>c. beamfs_rs_encode_region env buf doff ds poff ps len n = (None, c) \<and> length c = length buf
    \<and> (\<forall>s < n. get_bytes (doff + s * ds) len c = get_bytes (doff + s * ds) len buf)
    \<and> region_code c doff ds poff ps len n"
proof -
  have "set [0..<n] \<subseteq> {..<n}" by auto
  from encode_region_loop [OF assms distinct_upt this] show ?thesis
    by (auto simp: beamfs_rs_encode_region_def region_code_def)
qed

text \<open>What the decoder returns for a subblock: the count and the positions.\<close>

definition region_rc :: "nat option \<Rightarrow> byte list \<Rightarrow> byte list \<Rightarrow> nat \<Rightarrow> nat \<Rightarrow> nat \<Rightarrow> nat \<Rightarrow> nat \<Rightarrow> nat \<Rightarrow> int" where
  "region_rc want r c doff ds poff ps len s =
     (case want of
        Some m \<Rightarrow> int (min (card (errors (get_bytes (doff + s * ds) len r) (get_bytes (doff + s * ds) len c))) m)
      | None \<Rightarrow> int (card (region_errs r c doff ds poff ps len s)))"

lemma decode_region_loop:
  assumes ok: "region_ok r doff ds poff ps len n" and len: "length c = length r" and want: "want \<noteq> Some 0"
    and code: "region_code c doff ds poff ps len n"
    and few: "\<And>s. s < n \<Longrightarrow> card (region_errs r c doff ds poff ps len s) \<le> 8" and k: "k \<le> n"
  shows "\<exists>buf poss. fold (rs_decode_region_step env doff ds poff ps len want) [0..<k] (r, 0, [], [])
      = (buf, 0, map (region_rc want r c doff ds poff ps len) [0..<k], poss)
    \<and> length buf = length r
    \<and> (\<forall>s < n. get_bytes (doff + s * ds) len buf = get_bytes (doff + s * ds) len (if s < k then c else r))
    \<and> (\<forall>s < n. get_bytes (poff + s * ps) 16 buf = get_bytes (poff + s * ps) 16 r)
    \<and> (\<forall>j < length r. (\<forall>s < n. j < doff + s * ds \<or> doff + s * ds + len \<le> j) \<longrightarrow> buf ! j = r ! j)"
  using k
proof (induction k)
  case (Suc k)
  then obtain buf poss where IH:
    "fold (rs_decode_region_step env doff ds poff ps len want) [0..<k] (r, 0, [], [])
       = (buf, 0, map (region_rc want r c doff ds poff ps len) [0..<k], poss)"
    "length buf = length r"
    "\<And>s. s < n \<Longrightarrow> get_bytes (doff + s * ds) len buf = get_bytes (doff + s * ds) len (if s < k then c else r)"
    "\<And>s. s < n \<Longrightarrow> get_bytes (poff + s * ps) 16 buf = get_bytes (poff + s * ps) 16 r"
    "\<And>j. j < length r \<Longrightarrow> \<forall>s < n. j < doff + s * ds \<or> doff + s * ds + len \<le> j \<Longrightarrow> buf ! j = r ! j"
    by auto
  have kn: "k < n" using Suc.prems by simp
  have R: "0 < len" "len \<le> 239" "\<And>s. s < n \<Longrightarrow> doff + s * ds + len \<le> length r"
    "\<And>s. s < n \<Longrightarrow> poff + s * ps + 16 \<le> length r"
    "\<And>s. s < n \<Longrightarrow> apart (doff + k * ds) len (poff + s * ps) 16"
    "\<And>s. s < n \<Longrightarrow> s \<noteq> k \<Longrightarrow> apart (doff + k * ds) len (doff + s * ds) len"
    using ok kn by (auto simp: region_ok_def)
  let ?C = "get_bytes (doff + k * ds) len c" and ?D = "get_bytes (doff + k * ds) len r"
  have lC: "length ?C = len" "length ?D = len" using R(3) [OF kn] len by simp_all
  have e: "errors (?D @ get_bytes (poff + k * ps) 16 r) (?C @ parity ?C) = region_errs r c doff ds poff ps len k"
    using code kn by (simp add: region_errs_def region_code_def)
  obtain pos where dec: "beamfs_rs_decode env (get_bytes (doff + k * ds) len buf) (get_bytes (poff + k * ps) 16 buf) want
      = (region_rc want r c doff ds poff ps len k, ?C, pos)"
    using decode_ok [of ?C ?D "get_bytes (poff + k * ps) 16 r" want] R(1,2) R(4) [OF kn] lC few [OF kn]
      IH(3,4) [OF kn] want e by (auto simp: region_rc_def split: option.splits)
  let ?b = "put_bytes (doff + k * ds) ?C buf"
  have rc: "0 \<le> region_rc want r c doff ds poff ps len k"
    by (simp add: region_rc_def split: option.split)
  have step: "rs_decode_region_step env doff ds poff ps len want k
      (buf, 0, map (region_rc want r c doff ds poff ps len) [0..<k], poss)
    = (?b, 0, map (region_rc want r c doff ds poff ps len) [0..<Suc k], poss @ [pos])"
    using dec rc by (simp add: rs_decode_region_step_def)
  have "get_bytes (doff + s * ds) len ?b = get_bytes (doff + s * ds) len (if s < Suc k then c else r)" if "s < n" for s
    using get_put_same [of "doff + k * ds" ?C buf] get_put_apart [of "doff + k * ds" ?C buf "doff + s * ds" len]
      R(3) [OF that] R(3) [OF kn] R(6) [OF that] IH(2) IH(3) [OF that] lC
    by (cases "s = k") (auto simp: less_Suc_eq)
  moreover have "get_bytes (poff + s * ps) 16 ?b = get_bytes (poff + s * ps) 16 r" if "s < n" for s
    using get_put_apart [of "doff + k * ds" ?C buf "poff + s * ps" 16] R(3) [OF kn] R(4,5) [OF that] IH(2) IH(4) [OF that] lC
    by simp
  moreover have "?b ! j = r ! j" if "j < length r" "\<forall>s < n. j < doff + s * ds \<or> doff + s * ds + len \<le> j" for j
    using IH(5) [OF that] that(1,2) kn R(3) [OF kn] IH(2) lC by (auto simp: nth_put_bytes)
  moreover have "length ?b = length r" using R(3) [OF kn] IH(2) lC by simp
  ultimately show ?case using IH(1) step by (intro exI) auto
qed (use assms in auto)

lemma decode_region:
  assumes "region_ok r doff ds poff ps len n" "length c = length r" "hp \<longleftrightarrow> m \<noteq> 0"
    and "region_code c doff ds poff ps len n"
    and "\<And>s. s < n \<Longrightarrow> card (region_errs r c doff ds poff ps len s) \<le> 8"
  shows "\<exists>buf poss. beamfs_rs_decode_region env r doff ds poff ps len n hp m
      = (buf, 0, map (region_rc (if hp then Some m else None) r c doff ds poff ps len) [0..<n], poss)
    \<and> length buf = length r
    \<and> (\<forall>s < n. get_bytes (doff + s * ds) len buf = get_bytes (doff + s * ds) len c)
    \<and> (\<forall>j < length r. (\<forall>s < n. j < doff + s * ds \<or> doff + s * ds + len \<le> j) \<longrightarrow> buf ! j = r ! j)"
  using decode_region_loop [OF assms(1,2) _ assms(4,5) le_refl, of "if hp then Some m else None"] assms(3)
  by (auto simp: beamfs_rs_decode_region_def Let_def)

end

lemma alternating_ok: "length buf = 4096 \<Longrightarrow> region_ok buf 0 255 239 255 239 16"
  by (auto simp: region_ok_def apart_def)

subsection \<open>Set-up and entropy\<close>

lemma rs_init_cpus_ok:
  assumes "beamfs_rs_ctrl_pcpu st = Some ctrl" "length ctrl = n" "set cpus \<subseteq> {..<n}"
  shows "case rs_init_cpus init_ok kmalloc_ok cpus st of
     (None, st') \<Rightarrow> \<exists>c. beamfs_rs_ctrl_pcpu st' = Some c \<and> length c = n
        \<and> (\<forall>cpu < n. c ! cpu \<longleftrightarrow> ctrl ! cpu \<or> cpu \<in> set cpus)
   | (Some e, st') \<Rightarrow> e = ENOMEM \<and> beamfs_rs_ctrl_pcpu st' = None \<and> beamfs_rs_scratch_pcpu st' = None"
  using assms
proof (induction cpus arbitrary: st ctrl)
  case (Cons cpu cpus)
  let ?st = "st\<lparr>beamfs_rs_ctrl_pcpu := Some (ctrl[cpu := True]),
      beamfs_rs_scratch_pcpu := map_option (\<lambda>s. s[cpu := kmalloc_ok cpu]) (beamfs_rs_scratch_pcpu st)\<rparr>"
  show ?case
  proof (cases "init_ok cpu")
    case True
    have "rs_init_cpus init_ok kmalloc_ok (cpu # cpus) st = rs_init_cpus init_ok kmalloc_ok cpus ?st"
      using True Cons.prems(1) by simp
    then show ?thesis
      using Cons.IH [of ?st "ctrl[cpu := True]"] Cons.prems(2,3)
      by (auto simp: nth_list_update split: prod.splits option.splits)
  next
    case False
    then show ?thesis using Cons.prems(1) by (simp add: beamfs_rs_exit_tables_def)
  qed
qed simp

lemma rs_bin_counts_sum:
  assumes "rs_bin_counts code_len idxs bins = Some bins'" "length bins = 8"
  shows "length bins' = 8 \<and> sum_list bins' = sum_list bins + length idxs"
  using assms
proof (induction idxs arbitrary: bins)
  case (Cons idx idxs)
  let ?b = "idx * 8 div code_len"
  have b: "?b < 8" and r: "rs_bin_counts code_len idxs (bins[?b := bins ! ?b + 1]) = Some bins'"
    using Cons.prems(1) by (auto simp: Let_def split: if_splits)
  have "sum_list (bins[?b := bins ! ?b + 1]) = sum_list bins + 1"
    using b Cons.prems(2) by (simp add: sum_list_update member_le_sum_list)
  then show ?case using Cons.IH [OF r] Cons.prems(2) by simp
qed simp

lemma entropy_table:
  "list_all (\<lambda>n. list_all (\<lambda>k. unat (beamfs_rs_entropy_term_q16_16 ! n ! k) * n \<le> 196608 * k) [0..<9]) [0..<9]"
  by (simp add: beamfs_rs_entropy_term_q16_16_def upt_rec)

lemma replicate_8: "replicate 8 x = [x, x, x, x, x, x, x, x]"
  by (simp add: numeral_eq_Suc)

lemma unat_add_le: "unat (a + b :: u32) \<le> unat a + unat b"
  by (simp add: unat_word_ariths)

lemma entropy_fold:
  "unat (foldl (\<lambda>h k. h + T k) (h0 :: u32) ks) \<le> unat h0 + sum_list (map (\<lambda>k. unat (T k)) ks)"
proof (induction ks arbitrary: h0)
  case (Cons k ks)
  have "unat (foldl (\<lambda>h k. h + T k) h0 (k # ks)) \<le> unat (h0 + T k) + sum_list (map (\<lambda>k. unat (T k)) ks)"
    using Cons [of "h0 + T k"] by simp
  also have "unat (h0 + T k) \<le> unat h0 + unat (T k)" by (rule unat_add_le)
  finally show ?case by simp
qed simp

lemma entropy_bound: "unat (beamfs_rs_compute_entropy_q16_16 positions code_len) \<le> 196608"
proof (cases "0 < length positions \<and> length positions \<le> 8")
  case True
  let ?n = "length positions" and ?T = "\<lambda>k. beamfs_rs_entropy_term_q16_16 ! length positions ! k"
  show ?thesis
  proof (cases "rs_bin_counts code_len (map unat positions) (replicate 8 0)")
    case (Some bins)
    have b: "sum_list bins = ?n" using rs_bin_counts_sum [OF Some] by (simp add: sum_list_replicate)
    have "unat (?T k) * ?n \<le> 196608 * k" if "k \<in> set bins" for k
    proof -
      have "k \<le> ?n" using member_le_sum_list [OF that] b by simp
      then show ?thesis using entropy_table True by (simp add: list_all_iff)
    qed
    then have "sum_list (map (\<lambda>k. unat (?T k) * ?n) bins) \<le> sum_list (map (\<lambda>k. 196608 * k) bins)"
      by (rule sum_list_mono)
    then have "sum_list (map (\<lambda>k. unat (?T k)) bins) * ?n \<le> 196608 * ?n"
      using b by (simp add: sum_list_mult_const sum_list_const_mult)
    then have "sum_list (map (\<lambda>k. unat (?T k)) bins) \<le> 196608" using True by simp
    then show ?thesis
      using entropy_fold [of ?T 0 bins] Some by (simp add: beamfs_rs_compute_entropy_q16_16_def Let_def)
  qed (simp add: beamfs_rs_compute_entropy_q16_16_def Let_def)
qed (auto simp: beamfs_rs_compute_entropy_q16_16_def Let_def)

text \<open>The return values.\<close>

definition decode_rc :: "int \<Rightarrow> bool" where
  "decode_rc rc \<longleftrightarrow> rc \<ge> 0 \<or> rc = - 22 \<or> rc = - 74"

lemma beamfs_rs_decode_rc: "decode_rc (fst (beamfs_rs_decode env data par want))"
  by (auto simp: beamfs_rs_decode_def decode_rc_def Let_def split: option.split)

lemma decode_woven_rc:
  "decode_rc w \<Longrightarrow> decode_rc (fst (snd (fold (rs_decode_woven_step env doff poff stride len n) is (b, w, rs))))"
proof (induction "is" arbitrary: b w rs)
  case (Cons i js)
  obtain b' w' rs' where st: "rs_decode_woven_step env doff poff stride len n i (b, w, rs) = (b', w', rs')"
    by (metis prod_cases3)
  have "decode_rc w'"
    using st Cons.prems beamfs_rs_decode_rc [of env "rs_gather b doff i len n" "get_bytes (poff + i * stride) 16 b" None]
    by (auto simp: rs_decode_woven_step_def Let_def split: prod.splits if_splits)
  then show ?case using Cons.IH st by simp
qed simp

lemma decode_region_rc:
  "decode_rc w \<Longrightarrow> decode_rc (fst (snd (fold (rs_decode_region_step env doff ds poff stride len want) is (b, w, rs, ps))))"
proof (induction "is" arbitrary: b w rs ps)
  case (Cons i js)
  obtain b' w' rs' ps' where st: "rs_decode_region_step env doff ds poff stride len want i (b, w, rs, ps) = (b', w', rs', ps')"
    by (metis prod_cases4)
  have "decode_rc w'"
    using st Cons.prems beamfs_rs_decode_rc [of env "get_bytes (doff + i * ds) len b" "get_bytes (poff + i * stride) 16 b" want]
    by (auto simp: rs_decode_region_step_def Let_def split: prod.splits if_splits)
  then show ?case using Cons.IH st by simp
qed simp

subsection \<open>Properties\<close>

text \<open>A data block survives damage up to the radius of the code. When a block is encoded with
  \<^const>\<open>beamfs_rs_encode_block\<close> and then at most eight of the 255 bytes of each of its sixteen
  codewords change, \<^const>\<open>beamfs_rs_decode_block\<close> gives back the encoded data area, reports
  the number of wrong symbols of every codeword and returns no error. Encoding succeeds and
  leaves the data area alone.\<close>
theorem block_roundtrip:
  assumes "rs_library env" "length blk = 4096"
  shows "\<exists>c. beamfs_rs_encode_block env blk = (None, c) \<and> length c = 4096 \<and> take 3824 c = take 3824 blk
    \<and> (\<forall>r. length r = 4096 \<and> (\<forall>s < 16. card (woven_errs r c 0 3824 16 239 16 s) \<le> 8) \<longrightarrow>
         (\<exists>worst. beamfs_rs_decode_block env r
            = (take 3824 blk @ drop 3824 r, worst,
               map (\<lambda>s. int (card (woven_errs r c 0 3824 16 239 16 s))) [0..<16])
            \<and> 0 \<le> worst))"
proof -
  obtain c where c: "beamfs_rs_encode_block env blk = (None, c)" "length c = 4096"
    "take 3824 c = take 3824 blk" "rs_library.woven_code env c 0 3824 16 239 16"
    using encode_block [OF assms] by auto
  show ?thesis using c decode_block [OF assms(1) _ c(2,4)] by (intro exI [of _ c]) fastforce
qed

theorem block_roundtrip_witness:
  "\<exists>c. beamfs_rs_encode_block port_env (replicate 4096 5) = (None, c)
    \<and> take 3824 c = take 3824 (replicate 4096 5)"
  using block_roundtrip [OF port.rs_library_axioms, of "replicate 4096 5"] by auto

text \<open>C25: Interleaving spreads a burst. After any damage confined to 128 consecutive bytes of the
  data area of an encoded block, \<^const>\<open>beamfs_rs_decode_block\<close> restores the block bit for bit and
  returns no error.\<close>
theorem block_burst:
  assumes "rs_library env" "length blk = 4096" "beamfs_rs_encode_block env blk = (None, c)"
    and "length r = 4096" "start + 128 \<le> 3824"
    and "\<And>j. j < 4096 \<Longrightarrow> j < start \<or> start + 128 \<le> j \<Longrightarrow> r ! j = c ! j"
  shows "\<exists>worst results. beamfs_rs_decode_block env r = (c, worst, results) \<and> 0 \<le> worst
    \<and> take 3824 c = take 3824 blk"
proof -
  have c: "length c = 4096" "take 3824 c = take 3824 blk" "rs_library.woven_code env c 0 3824 16 239 16"
    using encode_block [OF assms(1,2)] assms(3) by auto
  have "drop 3824 r = drop 3824 c"
    using assms(4,5,6) c(1) by (intro nth_equalityI) auto
  then have "take 3824 c @ drop 3824 r = c" by simp
  then show ?thesis
    using decode_block [OF assms(1,4) c(1,3) burst_errs [OF assms(4) c(1) assms(5) _ assms(6)]] c(2)
    by auto
qed

theorem block_burst_witness:
  "\<exists>c worst results. beamfs_rs_encode_block port_env (replicate 4096 5) = (None, c)
    \<and> beamfs_rs_decode_block port_env (put_bytes 700 (replicate 128 9) c) = (c, worst, results) \<and> 0 \<le> worst"
proof -
  obtain c where c: "beamfs_rs_encode_block port_env (replicate 4096 5) = (None, c)" "length c = 4096"
    using encode_block [OF port.rs_library_axioms, of "replicate 4096 5"] by auto
  have "put_bytes 700 (replicate 128 9) c ! j = c ! j" if "j < 4096" "j < 700 \<or> 700 + 128 \<le> j" for j
    using that c(2) by (auto simp: nth_put_bytes)
  then show ?thesis
    using block_burst [OF port.rs_library_axioms _ c(1), of "put_bytes 700 (replicate 128 9) c" 700] c by auto
qed

text \<open>C26: The return value of \<^const>\<open>beamfs_rs_decode_woven\<close> is decided by the last codeword that
  was decoded: if that one decodes, the return value is not negative, even when earlier
  codewords of the block were uncorrectable. The per-codeword results are the only place
  where such a failure shows.\<close>
theorem decode_woven_last_wins:
  assumes "beamfs_rs_decode_woven env blk doff poff stride len n = (blk', ret, results)"
    and "results \<noteq> []" "last results \<ge> 0"
  shows "ret \<ge> 0"
proof -
  have f: "fold (rs_decode_woven_step env doff poff stride len n) [0..<n] (blk, 0, []) = (blk', ret, results)"
    using assms(1,2) by (auto simp: beamfs_rs_decode_woven_def split: option.splits if_splits)
  then obtain m where n: "n = Suc m" using assms(2) by (cases n) auto
  obtain b w rs where "fold (rs_decode_woven_step env doff poff stride len n) [0..<m] (blk, 0, []) = (b, w, rs)"
    by (metis prod_cases3)
  then have "rs_decode_woven_step env doff poff stride len n m (b, w, rs) = (blk', ret, results)"
    using f n by simp
  then show ?thesis
    using assms(3) by (auto simp: rs_decode_woven_step_def Let_def split: prod.splits if_splits)
qed

text \<open>The witness: a codec that cannot decode a subblock that begins with 1. The first codeword
  fails with \<^const>\<open>EBADMSG\<close>, the second decodes, the return value is 0.\<close>
theorem decode_woven_last_wins_witness:
  "let env = \<lparr>beamfs_rs_ctrl_pcpu = Some [True], beamfs_rs_scratch_pcpu = Some [True], this_cpu = 0,
        encode_rs8 = (\<lambda>_. replicate 16 0),
        decode_rs8 = (\<lambda>data _. if data ! 0 = 1 then None else Some [])\<rparr>;
       (_, ret, results) = beamfs_rs_decode_woven env ([1, 2] @ replicate 32 0) 0 2 16 1 2
   in results = [-74, 0] \<and> ret = 0 \<and> ret \<ge> 0"
proof -
  let ?env = "\<lparr>beamfs_rs_ctrl_pcpu = Some [True], beamfs_rs_scratch_pcpu = Some [True], this_cpu = 0,
        encode_rs8 = (\<lambda>_. replicate 16 0), decode_rs8 = (\<lambda>data _. if data ! 0 = 1 then None else Some [])\<rparr>"
  have d: "beamfs_rs_decode_woven ?env ([1, 2] @ replicate 32 0) 0 2 16 1 2
      = ([1, 2] @ replicate 32 0, 0, [-74, 0])"
    by (simp add: beamfs_rs_decode_woven_def upt_rec rs_decode_woven_step_def beamfs_rs_decode_def
        rs_gather_def rs_scatter_def rs_woven_off_def rs_sort_def)
  show ?thesis using decode_woven_last_wins [OF d] d by (simp add: Let_def)
qed

text \<open>The decoders of a block report an uncorrectable codeword as \<^const>\<open>EBADMSG\<close> and bad
  arguments as \<^const>\<open>EINVAL\<close> or \<^const>\<open>ENOMEM\<close>; neither ever returns minus \<^const>\<open>EUCLEAN\<close>, the value
  the block check of the scrubber compares with before it tries the other layout.\<close>
theorem decode_codes:
  "fst (snd (beamfs_rs_decode_woven env blk doff poff stride len n)) \<noteq> - errno_code EUCLEAN
   \<and> fst (snd (beamfs_rs_decode_region env blk doff dstride poff stride len n hp ps)) \<noteq> - errno_code EUCLEAN"
proof
  show "fst (snd (beamfs_rs_decode_woven env blk doff poff stride len n)) \<noteq> - errno_code EUCLEAN"
    using decode_woven_rc [of 0 env doff poff stride len n "[0..<n]" blk "[]"]
    by (auto simp: beamfs_rs_decode_woven_def decode_rc_def split: option.split)
  show "fst (snd (beamfs_rs_decode_region env blk doff dstride poff stride len n hp ps)) \<noteq> - errno_code EUCLEAN"
    using decode_region_rc [of 0 env doff dstride poff stride len None "[0..<n]" blk "[]" "[]"]
      decode_region_rc [of 0 env doff dstride poff stride len "Some ps" "[0..<n]" blk "[]" "[]"]
    by (auto simp: beamfs_rs_decode_region_def decode_rc_def)
qed

text \<open>A block in the alternating layout (directory, bitmap and, on volumes without
  interleaving, data blocks) survives up to eight wrong bytes in each of its sixteen
  subblocks: \<^const>\<open>beamfs_rs_encode_region\<close> succeeds and keeps the data, and after the damage
  \<^const>\<open>beamfs_rs_decode_region\<close>, asked for positions, restores the data of every subblock,
  returns 0 and reports for each subblock the number of its data bytes that were wrong.\<close>
theorem region_roundtrip:
  assumes "rs_library env" "length buf = 4096"
  shows "\<exists>c. beamfs_rs_encode_region env buf 0 255 239 255 239 16 = (None, c) \<and> length c = 4096
    \<and> (\<forall>s < 16. get_bytes (s * 255) 239 c = get_bytes (s * 255) 239 buf)
    \<and> (\<forall>r. length r = 4096 \<and> (\<forall>s < 16. card (region_errs r c 0 255 239 255 239 s) \<le> 8) \<longrightarrow>
         (\<exists>d poss. beamfs_rs_decode_region env r 0 255 239 255 239 16 True 8
            = (d, 0, map (\<lambda>s. int (min (card (errors (get_bytes (s * 255) 239 r) (get_bytes (s * 255) 239 buf))) 8)) [0..<16], poss)
            \<and> length d = 4096 \<and> (\<forall>s < 16. get_bytes (s * 255) 239 d = get_bytes (s * 255) 239 buf)))"
proof -
  obtain c where c: "beamfs_rs_encode_region env buf 0 255 239 255 239 16 = (None, c)" "length c = 4096"
    "\<And>s. s < 16 \<Longrightarrow> get_bytes (s * 255) 239 c = get_bytes (s * 255) 239 buf"
    "rs_library.region_code env c 0 255 239 255 239 16"
    using rs_library.encode_region [OF assms(1) alternating_ok [OF assms(2)]] assms(2) by auto
  have "\<exists>d poss. beamfs_rs_decode_region env r 0 255 239 255 239 16 True 8
      = (d, 0, map (\<lambda>s. int (min (card (errors (get_bytes (s * 255) 239 r) (get_bytes (s * 255) 239 buf))) 8)) [0..<16], poss)
      \<and> length d = 4096 \<and> (\<forall>s < 16. get_bytes (s * 255) 239 d = get_bytes (s * 255) 239 buf)"
    if "length r = 4096" "\<forall>s < 16. card (region_errs r c 0 255 239 255 239 s) \<le> 8" for r
    using rs_library.decode_region [OF assms(1) alternating_ok [OF that(1)] _ _ c(4), of True 8] that c(2,3)
    by (auto simp: rs_library.region_rc_def [OF assms(1)] cong: map_cong)
  then show ?thesis using c(1-3) by blast
qed

theorem region_roundtrip_witness:
  "\<exists>c. beamfs_rs_encode_region port_env (replicate 4096 3) 0 255 239 255 239 16 = (None, c)
    \<and> (\<forall>s < 16. get_bytes (s * 255) 239 c = get_bytes (s * 255) 239 (replicate 4096 3))"
  using region_roundtrip [OF port.rs_library_axioms, of "replicate 4096 3"] by auto

text \<open>Set-up of the codecs is all or nothing. When \<^const>\<open>beamfs_rs_init_tables\<close> returns 0 every
  possible CPU has a codec; when it returns an error it is \<^const>\<open>ENOMEM\<close> and both per-CPU arrays
  are gone, so every later encode or decode is refused with \<^const>\<open>EINVAL\<close>.\<close>
theorem init_tables_all_or_nothing:
  "case beamfs_rs_init_tables ncpu scratch_ok ctrl_ok init_ok kmalloc_ok st of
     (None, st') \<Rightarrow> beamfs_rs_ctrl_pcpu st' = Some (replicate ncpu True)
   | (Some e, st') \<Rightarrow> e = ENOMEM \<and> beamfs_rs_ctrl_pcpu st' = None \<and> beamfs_rs_scratch_pcpu st' = None"
proof -
  let ?st = "st\<lparr>beamfs_rs_scratch_pcpu := (if scratch_ok then Some (replicate ncpu False) else None),
      beamfs_rs_ctrl_pcpu := Some (replicate ncpu False)\<rparr>"
  have "set [0..<ncpu] \<subseteq> {..<ncpu}" by auto
  note cpus = rs_init_cpus_ok [of ?st, OF _ _ this, of "replicate ncpu False" init_ok kmalloc_ok]
  show ?thesis
  proof (cases ctrl_ok)
    case True
    then have "beamfs_rs_init_tables ncpu scratch_ok ctrl_ok init_ok kmalloc_ok st
        = rs_init_cpus init_ok kmalloc_ok [0..<ncpu] ?st"
      by (simp add: beamfs_rs_init_tables_def Let_def)
    moreover have "ctrl = replicate ncpu True" if "length ctrl = ncpu" "\<forall>cpu < ncpu. ctrl ! cpu" for ctrl
      using that by (intro nth_equalityI) auto
    ultimately show ?thesis using cpus by (simp split: prod.splits option.splits) auto
  qed (simp add: beamfs_rs_init_tables_def Let_def)
qed

text \<open>The entropy estimate never exceeds 3 in Q16.16, that is 196608, and reaches it: eight
  corrections in eight different bins give exactly 3 * 65536.\<close>
theorem entropy_range:
  "unat (beamfs_rs_compute_entropy_q16_16 positions code_len) \<le> 3 * 65536
   \<and> unat (beamfs_rs_compute_entropy_q16_16 [0, 30, 60, 90, 120, 150, 180, 210] 239) = 3 * 65536"
proof
  show "unat (beamfs_rs_compute_entropy_q16_16 positions code_len) \<le> 3 * 65536"
    using entropy_bound [of positions code_len] by simp
  show "unat (beamfs_rs_compute_entropy_q16_16 [0, 30, 60, 90, 120, 150, 180, 210] 239) = 3 * 65536"
    by (simp add: beamfs_rs_compute_entropy_q16_16_def beamfs_rs_entropy_term_q16_16_def replicate_8)
qed

text \<open>The kernel and the checker compute the same checksums. If the kernel's \<^verbatim>\<open>crc32_le\<close> is the
  bitwise CRC-32 of its documentation, \<^const>\<open>beamfs_crc32\<close> is \<^const>\<open>crc32\<close> and \<^const>\<open>beamfs_crc32_sb\<close> is
  \<^const>\<open>crc32_sb\<close> on every buffer.\<close>
theorem kernel_checker_crc:
  assumes "\<And>c buf. crc32_le c buf = foldl (\<lambda>c p. (crc32_bit ^^ 8) (c XOR ucast p)) c buf"
  shows "beamfs_crc32 crc32_le buf = crc32 buf \<and> beamfs_crc32_sb crc32_le fsb = crc32_sb fsb"
proof -
  have "crc32_le = crc32_internal"
    using assms by (intro ext) (simp add: crc32_internal_steps crc32_step_def [abs_def])
  then show ?thesis
    by (simp add: beamfs_crc32_def beamfs_crc32_sb_def crc32_def crc32_sb_def)
qed

theorem kernel_checker_crc_witness:
  "beamfs_crc32 crc32_internal [1, 2] = crc32 [1, 2]
   \<and> beamfs_crc32_sb crc32_internal (replicate 4096 0) = crc32_sb (replicate 4096 0)"
  by (rule kernel_checker_crc) (simp add: crc32_internal_steps crc32_step_def [abs_def])

end
