(* ===== verification/Super.thy ===== *)
theory Super
  imports Edac
begin

section \<open>The superblock: image, journal and recovery at mount\<close>

text \<open>
  The part of \<^verbatim>\<open>super.c\<close> that keeps the superblock: the staging of the covered bytes for
  Reed-Solomon, \<^verbatim>\<open>beamfs_fail\<close>, \<^verbatim>\<open>beamfs_dirty_super_now\<close>, the event journal
  (\<^verbatim>\<open>beamfs_log_rs_event_flagged\<close>) and the first half of \<^verbatim>\<open>beamfs_fill_super\<close>, which reads block 0,
  repairs it and checks its feature fields. \<^verbatim>\<open>struct beamfs_super_block\<close> is kept as its 4096
  bytes, as \<^verbatim>\<open>memcpy\<close> and the encoders see it, with one reader and one writer per field used.

  What is proved: what \<open>beamfs_dirty_super_now\<close> wrote is read back at the next mount after up to eight
  wrong bytes in each of the thirteen codewords; one flipped byte of the checksum field is not
  survived; an event lands in its ring entry with a valid checksum and moves nothing else.
\<close>

subsection \<open>Kernel services\<close>

text \<open>\<^verbatim>\<open>lib/reed_solomon\<close> and \<^verbatim>\<open>lib/crc32\<close> are parameters.\<close>

record kenv =
  k_rs :: rs_env
  k_crc32_le :: "u32 \<Rightarrow> byte list \<Rightarrow> u32"

locale kernel_lib =
  fixes K :: kenv
  assumes k_rs_library: "rs_library (k_rs K)"
    and k_crc32_bitwise:
      "k_crc32_le K c buf = foldl (\<lambda>c p. (crc32_bit ^^ 8) (c XOR ucast p)) c buf"

sublocale kernel_lib \<subseteq> rs_library "k_rs K"
  by (rule k_rs_library)

definition port_kenv :: kenv where
  "port_kenv = \<lparr>k_rs = port_env, k_crc32_le = crc32_internal\<rparr>"

interpretation kport: kernel_lib port_kenv
  by (rule kernel_lib.intro)
    (simp_all add: port_kenv_def port.rs_library_axioms crc32_internal_steps crc32_step_def [abs_def])

text \<open>A buffer of the block device cache.\<close>

record buffer_head =
  b_data :: "byte list"
  b_uptodate :: bool
  b_dirty :: bool

definition mark_buffer_dirty :: "buffer_head \<Rightarrow> buffer_head" where
  "mark_buffer_dirty bh = bh\<lparr>b_dirty := True\<rparr>"

subsection \<open>The fields of the superblock\<close>

definition sb_magic :: "byte list \<Rightarrow> u32" where "sb_magic = get_le32 0"
definition sb_block_count :: "byte list \<Rightarrow> u64" where "sb_block_count = get_le64 8"
definition sb_free_blocks :: "byte list \<Rightarrow> u64" where "sb_free_blocks = get_le64 16"
definition sb_inode_count :: "byte list \<Rightarrow> u64" where "sb_inode_count = get_le64 24"
definition sb_free_inodes :: "byte list \<Rightarrow> u64" where "sb_free_inodes = get_le64 32"
definition sb_inode_table_blk :: "byte list \<Rightarrow> u64" where "sb_inode_table_blk = get_le64 40"
definition sb_data_start_blk :: "byte list \<Rightarrow> u64" where "sb_data_start_blk = get_le64 48"
definition sb_version :: "byte list \<Rightarrow> u32" where "sb_version = get_le32 56"
definition sb_flags :: "byte list \<Rightarrow> u32" where "sb_flags = get_le32 60"
definition sb_crc32 :: "byte list \<Rightarrow> u32" where "sb_crc32 = get_le32 64"
definition sb_rs_journal_head :: "byte list \<Rightarrow> byte" where "sb_rs_journal_head fsb = fsb ! 2676"
definition sb_bitmap_blk :: "byte list \<Rightarrow> u64" where "sb_bitmap_blk = get_le64 2677"
definition sb_feat_incompat :: "byte list \<Rightarrow> u64" where "sb_feat_incompat = get_le64 2693"
definition sb_feat_ro_compat :: "byte list \<Rightarrow> u64" where "sb_feat_ro_compat = get_le64 2701"
definition sb_data_protection_scheme :: "byte list \<Rightarrow> u32" where
  "sb_data_protection_scheme = get_le32 2709"
definition sb_ind_parity_blk :: "byte list \<Rightarrow> u64" where "sb_ind_parity_blk = get_le64 2713"
definition sb_ind_parity_len :: "byte list \<Rightarrow> u32" where "sb_ind_parity_len = get_le32 2721"
definition sb_ind_parity_mode :: "byte list \<Rightarrow> u32" where "sb_ind_parity_mode = get_le32 2725"
definition sb_budget_blk :: "byte list \<Rightarrow> u64" where "sb_budget_blk = get_le64 2729"
definition sb_budget_len :: "byte list \<Rightarrow> u32" where "sb_budget_len = get_le32 2737"

abbreviation "BEAMFS_SB_RS_COVERAGE_BYTES \<equiv> 2765 :: nat"
abbreviation "BEAMFS_SB_RS_STAGING_BYTES \<equiv> 2769 :: nat"
abbreviation "BEAMFS_SB_RS_DATA_LEN \<equiv> 213 :: nat"
abbreviation "BEAMFS_SB_RS_SUBBLOCKS \<equiv> 13 :: nat"
abbreviation "BEAMFS_SB_RS_PARITY_OFFSET \<equiv> 3888 :: nat"

definition BEAMFS_SB_FLAG_MOUNTED :: u32 where "BEAMFS_SB_FLAG_MOUNTED = 0x00010000"
definition BEAMFS_SB_FLAG_ERRORS :: u32 where "BEAMFS_SB_FLAG_ERRORS = 0x00020000"

subsection \<open>Staging\<close>

definition beamfs_sb_to_rs_staging :: "byte list \<Rightarrow> byte list" where
  "beamfs_sb_to_rs_staging sb =
     get_bytes 0 64 sb @ get_bytes 68 (2769 - 68) sb
     @ replicate (BEAMFS_SB_RS_STAGING_BYTES - BEAMFS_SB_RS_COVERAGE_BYTES) 0"

definition beamfs_sb_from_rs_staging :: "byte list \<Rightarrow> byte list \<Rightarrow> byte list" where
  "beamfs_sb_from_rs_staging staging sb =
     put_bytes 68 (get_bytes 64 (2769 - 68) staging) (put_bytes 0 (get_bytes 0 64 staging) sb)"

subsection \<open>In-memory superblock state\<close>

text \<open>The fields of \<^verbatim>\<open>struct beamfs_sb_info\<close> that this file uses; the allocator extends the record.
  \<open>s_sb_rs_staging\<close> says whether the staging buffer was allocated.\<close>

record beamfs_sb_info =
  s_beamfs_sb :: "byte list"
  s_sbh :: "buffer_head option"
  s_sb_rs_staging :: bool
  s_super_needs_encode :: bool
  s_failed :: bool

definition beamfs_fail :: "'a beamfs_sb_info_scheme \<Rightarrow> 'a beamfs_sb_info_scheme" where
  "beamfs_fail sbi = (if s_failed sbi then sbi else sbi\<lparr>s_failed := True\<rparr>)"

text \<open>The encode of the staging buffer into the parity at the end of the block; staging and parity
  are laid end to end for the region encoder. Its failure is only reported.\<close>

definition sb_rs_encode :: "kenv \<Rightarrow> byte list \<Rightarrow> byte list" where
  "sb_rs_encode K fsb =
     (let staging = beamfs_sb_to_rs_staging fsb;
          (_, buf) = beamfs_rs_encode_region (k_rs K)
                       (staging @ get_bytes BEAMFS_SB_RS_PARITY_OFFSET 208 fsb)
                       0 BEAMFS_SB_RS_DATA_LEN BEAMFS_SB_RS_STAGING_BYTES BEAMFS_RS_PARITY
                       BEAMFS_SB_RS_DATA_LEN BEAMFS_SB_RS_SUBBLOCKS
      in put_bytes BEAMFS_SB_RS_PARITY_OFFSET (get_bytes BEAMFS_SB_RS_STAGING_BYTES 208 buf) fsb)"

definition beamfs_dirty_super_now :: "kenv \<Rightarrow> 'a beamfs_sb_info_scheme \<Rightarrow> 'a beamfs_sb_info_scheme" where
  "beamfs_dirty_super_now K sbi =
     (case s_sbh sbi of
        None \<Rightarrow> sbi
      | Some bh \<Rightarrow>
          if s_failed sbi then sbi
          else if \<not> b_uptodate bh then beamfs_fail sbi
          else
            let fsb = s_beamfs_sb sbi;
                fsb = (if s_sb_rs_staging sbi then sb_rs_encode K fsb else fsb);
                crc = beamfs_crc32_sb (k_crc32_le K) fsb;
                fsb = put_le32 64 crc fsb
            in sbi\<lparr>s_beamfs_sb := put_le32 64 crc (s_beamfs_sb sbi),
                   s_sbh := Some (mark_buffer_dirty (bh\<lparr>b_data := fsb\<rparr>))\<rparr>)"

definition beamfs_dirty_super :: "kenv \<Rightarrow> 'a beamfs_sb_info_scheme \<Rightarrow> 'a beamfs_sb_info_scheme" where
  "beamfs_dirty_super K sbi = beamfs_dirty_super_now K (sbi\<lparr>s_super_needs_encode := False\<rparr>)"

definition beamfs_super_encode_pending ::
    "kenv \<Rightarrow> 'a beamfs_sb_info_scheme \<Rightarrow> 'a beamfs_sb_info_scheme" where
  "beamfs_super_encode_pending K sbi =
     (if \<not> s_super_needs_encode sbi then sbi
      else beamfs_dirty_super_now K (sbi\<lparr>s_super_needs_encode := False\<rparr>))"

subsection \<open>The event journal\<close>

definition BEAMFS_RS_EVENT_FLAG_ENTROPY_VALID :: u32 where "BEAMFS_RS_EVENT_FLAG_ENTROPY_VALID = 1"
definition BEAMFS_RS_EVENT_FLAG_UNCORRECTABLE :: u32 where "BEAMFS_RS_EVENT_FLAG_UNCORRECTABLE = 2"
definition BEAMFS_RS_EVENT_FLAG_RMW_NEUTRALISED :: u32 where "BEAMFS_RS_EVENT_FLAG_RMW_NEUTRALISED = 4"
definition BEAMFS_RS_EVENT_FLAG_INODE :: u32 where "BEAMFS_RS_EVENT_FLAG_INODE = 8"

abbreviation "BEAMFS_RS_JOURNAL_SIZE \<equiv> 64 :: nat"
abbreviation "OFF_S_RS_JOURNAL \<equiv> 116 :: nat"
abbreviation "RS_EVENT_BYTES \<equiv> 40 :: nat"

definition beamfs_rs_event_subblock_bits :: "nat \<Rightarrow> u32" where
  "beamfs_rs_event_subblock_bits sub = push_bit 8 (word_of_nat (sub + 1)) AND 0xFF00"

definition beamfs_rs_event_subblock :: "u32 \<Rightarrow> int" where
  "beamfs_rs_event_subblock flags =
     (let v = drop_bit 8 (flags AND 0xFF00) in if v \<noteq> 0 then uint v - 1 else - 1)"

text \<open>The forty bytes of an entry: block, timestamp, symbol count, entropy, flags, the reserved
  word, the checksum of the thirty-two bytes before it, and the pad.\<close>

definition beamfs_rs_event :: "kenv \<Rightarrow> u64 \<Rightarrow> u64 \<Rightarrow> u32 \<Rightarrow> u32 \<Rightarrow> u32 \<Rightarrow> byte list" where
  "beamfs_rs_event K block_no now symbols entropy flags =
     (let head = cpu_to_le 8 block_no @ cpu_to_le 8 now @ cpu_to_le 4 symbols @ cpu_to_le 4 entropy
                 @ cpu_to_le 4 flags @ cpu_to_le 4 (0 :: u32)
      in head @ cpu_to_le 4 (beamfs_crc32 (k_crc32_le K) head) @ cpu_to_le 4 (0 :: u32))"

text \<open>The entropy and the flags of an event, the policy of the function's comment.\<close>

definition rs_event_policy :: "byte list option \<Rightarrow> nat \<Rightarrow> nat \<Rightarrow> u32 \<times> u32" where
  "rs_event_policy positions n_positions code_len_bytes =
     (if n_positions = 0 then (0, BEAMFS_RS_EVENT_FLAG_UNCORRECTABLE)
      else if n_positions \<ge> 2
      then (beamfs_rs_compute_entropy_q16_16 (take n_positions (the positions)) code_len_bytes,
            BEAMFS_RS_EVENT_FLAG_ENTROPY_VALID)
      else (0, 0))"

definition beamfs_log_rs_event_flagged ::
    "kenv \<Rightarrow> u64 \<Rightarrow> 'a beamfs_sb_info_scheme \<Rightarrow> u64 \<Rightarrow> byte list option \<Rightarrow> nat \<Rightarrow> nat \<Rightarrow> u32
       \<Rightarrow> 'a beamfs_sb_info_scheme" where
  "beamfs_log_rs_event_flagged K now sbi block_no positions n_positions code_len_bytes extra_flags =
     (if s_sbh sbi = None then sbi
      else if n_positions > BEAMFS_RS_PARITY div 2 then sbi
      else if (n_positions = 0) \<noteq> (positions = None) then sbi
      else if code_len_bytes = 0 \<or> code_len_bytes > BEAMFS_SUBBLOCK_DATA then sbi
      else
        let reserved_mask = BEAMFS_RS_EVENT_FLAG_ENTROPY_VALID OR BEAMFS_RS_EVENT_FLAG_UNCORRECTABLE;
            extra_flags = extra_flags AND NOT reserved_mask;
            (entropy_q16, flags) = rs_event_policy positions n_positions code_len_bytes;
            flags = flags OR extra_flags;
            fsb = s_beamfs_sb sbi;
            head = unat (sb_rs_journal_head fsb) mod BEAMFS_RS_JOURNAL_SIZE;
            fsb = put_bytes (OFF_S_RS_JOURNAL + head * RS_EVENT_BYTES)
                    (beamfs_rs_event K block_no now (word_of_nat n_positions) entropy_q16 flags) fsb;
            fsb = fsb[2676 := word_of_nat ((head + 1) mod BEAMFS_RS_JOURNAL_SIZE)];
            fsb = (if flags AND BEAMFS_RS_EVENT_FLAG_UNCORRECTABLE \<noteq> 0
                   then put_le32 60 (sb_flags fsb OR BEAMFS_SB_FLAG_ERRORS) fsb else fsb)
        in beamfs_dirty_super K (sbi\<lparr>s_beamfs_sb := fsb\<rparr>))"

definition beamfs_log_rs_event ::
    "kenv \<Rightarrow> u64 \<Rightarrow> 'a beamfs_sb_info_scheme \<Rightarrow> u64 \<Rightarrow> byte list option \<Rightarrow> nat \<Rightarrow> nat
       \<Rightarrow> 'a beamfs_sb_info_scheme" where
  "beamfs_log_rs_event K now sbi block_no positions n_positions code_len_bytes =
     beamfs_log_rs_event_flagged K now sbi block_no positions n_positions code_len_bytes 0"

subsection \<open>Reading the superblock at mount\<close>

record beamfs_pending_rs_event =
  pe_block_no :: u64
  pe_n_positions :: nat
  pe_code_len_bytes :: nat
  pe_positions :: "byte list"

definition BEAMFS_RS_BLOCK_NO_SB_MARKER :: u64 where
  "BEAMFS_RS_BLOCK_NO_SB_MARKER = 0xFFFFFFFFFFFFF000"

definition beamfs_capture_sb_rs_events ::
    "bool \<Rightarrow> int list \<Rightarrow> byte list list \<Rightarrow> beamfs_pending_rs_event list" where
  "beamfs_capture_sb_rs_events alloc_ok rs_results rs_positions =
     (if filter (\<lambda>i. 0 < rs_results ! i) [0..<BEAMFS_SB_RS_SUBBLOCKS] = [] then []
      else if \<not> alloc_ok then []
      else map (\<lambda>i. let np = min (nat (rs_results ! i)) (BEAMFS_RS_PARITY div 2)
                    in \<lparr>pe_block_no = BEAMFS_RS_BLOCK_NO_SB_MARKER OR word_of_nat i,
                        pe_n_positions = np, pe_code_len_bytes = BEAMFS_SB_RS_DATA_LEN,
                        pe_positions = take np (rs_positions ! i)\<rparr>)
             (filter (\<lambda>i. 0 < rs_results ! i) [0..<BEAMFS_SB_RS_SUBBLOCKS]))"

definition BEAMFS_MAGIC :: u32 where "BEAMFS_MAGIC = 0x4245414D"
definition BEAMFS_VERSION_CURRENT :: u32 where "BEAMFS_VERSION_CURRENT = 5"

text \<open>The repair of a superblock whose checksum is wrong. \<open>alloc_ok\<close> says whether the three buffers
  could be allocated, \<open>capture_ok\<close> whether the buffer of the captured events could.\<close>

definition sb_rs_recover ::
    "kenv \<Rightarrow> bool \<Rightarrow> bool \<Rightarrow> byte list \<Rightarrow> errno + byte list \<times> beamfs_pending_rs_event list" where
  "sb_rs_recover K alloc_ok capture_ok fsb =
     (if \<not> alloc_ok then Inl ENOMEM
      else
        let (buf, rc, rs_results, rs_positions) =
              beamfs_rs_decode_region (k_rs K)
                (beamfs_sb_to_rs_staging fsb @ get_bytes BEAMFS_SB_RS_PARITY_OFFSET 208 fsb)
                0 BEAMFS_SB_RS_DATA_LEN BEAMFS_SB_RS_STAGING_BYTES BEAMFS_RS_PARITY
                BEAMFS_SB_RS_DATA_LEN BEAMFS_SB_RS_SUBBLOCKS True (BEAMFS_RS_PARITY div 2)
        in if rc < 0 then Inl EINVAL
           else
             let fsb = beamfs_sb_from_rs_staging (take BEAMFS_SB_RS_STAGING_BYTES buf) fsb
             in if beamfs_crc32_sb (k_crc32_le K) fsb \<noteq> sb_crc32 fsb then Inl EINVAL
                else Inr (fsb, beamfs_capture_sb_rs_events capture_ok rs_results rs_positions))"

definition fill_super_read ::
    "kenv \<Rightarrow> bool \<Rightarrow> bool \<Rightarrow> byte list option \<Rightarrow> errno + byte list \<times> beamfs_pending_rs_event list" where
  "fill_super_read K alloc_ok capture_ok bh =
     (case bh of
        None \<Rightarrow> Inl EIO
      | Some fsb \<Rightarrow>
          if sb_magic fsb \<noteq> BEAMFS_MAGIC then Inl EINVAL
          else if sb_version fsb \<noteq> BEAMFS_VERSION_CURRENT then Inl EINVAL
          else if beamfs_crc32_sb (k_crc32_le K) fsb \<noteq> sb_crc32 fsb
          then sb_rs_recover K alloc_ok capture_ok fsb
          else Inr (fsb, []))"

definition BEAMFS_FEAT_RO_COMPAT_SUPP :: u64 where "BEAMFS_FEAT_RO_COMPAT_SUPP = 0x30"
definition BEAMFS_FEAT_INCOMPAT_SUPP :: u64 where "BEAMFS_FEAT_INCOMPAT_SUPP = 0x7E100"
definition BEAMFS_FEATURE_INCOMPAT_INODE_CRC_FULL :: u64 where
  "BEAMFS_FEATURE_INCOMPAT_INODE_CRC_FULL = 0x10000"
definition BEAMFS_FEATURE_INCOMPAT_IND_PARITY_FEC :: u64 where
  "BEAMFS_FEATURE_INCOMPAT_IND_PARITY_FEC = 0x20000"

text \<open>The feature checks: \<open>Inr\<close> says whether the mount is read-only afterwards.\<close>

definition fill_super_features :: "byte list \<Rightarrow> bool \<Rightarrow> errno + bool" where
  "fill_super_features fsb rdonly =
     (let scheme = sb_data_protection_scheme fsb;
          unknown_incompat = sb_feat_incompat fsb AND NOT BEAMFS_FEAT_INCOMPAT_SUPP;
          unknown_ro_compat = sb_feat_ro_compat fsb AND NOT BEAMFS_FEAT_RO_COMPAT_SUPP
      in if scheme > 5 then Inl EINVAL
         else if sb_feat_incompat fsb AND BEAMFS_FEATURE_INCOMPAT_INODE_CRC_FULL = 0 then Inl EINVAL
         else if sb_ind_parity_mode fsb \<noteq> 0
                 \<and> sb_feat_incompat fsb AND BEAMFS_FEATURE_INCOMPAT_IND_PARITY_FEC = 0 then Inl EINVAL
         else if unknown_incompat \<noteq> 0 then Inl EINVAL
         else Inr (rdonly \<or> unknown_ro_compat \<noteq> 0))"

subsection \<open>The image the encoder writes\<close>

lemmas field_defs = get_le16_def get_le32_def get_le64_def put_le16_def put_le32_def put_le64_def

lemma length_staging [simp]: "length sb = 4096 \<Longrightarrow> length (beamfs_sb_to_rs_staging sb) = 2769"
  by (simp add: beamfs_sb_to_rs_staging_def)

lemma nth_staging:
  "length sb = 4096 \<Longrightarrow> j < 2765 \<Longrightarrow>
   beamfs_sb_to_rs_staging sb ! j = (if j < 64 then sb ! j else sb ! (j + 4))"
  by (auto simp: beamfs_sb_to_rs_staging_def nth_append nth_get_bytes add.commute)

lemma length_from_staging [simp]:
  "length sb = 4096 \<Longrightarrow> length st = 2769 \<Longrightarrow> length (beamfs_sb_from_rs_staging st sb) = 4096"
  by (simp add: beamfs_sb_from_rs_staging_def)

lemma nth_from_staging:
  "length sb = 4096 \<Longrightarrow> length st = 2769 \<Longrightarrow> j < 4096 \<Longrightarrow>
   beamfs_sb_from_rs_staging st sb ! j =
     (if j < 64 then st ! j else if 68 \<le> j \<and> j < 2769 then st ! (j - 4) else sb ! j)"
  by (auto simp: beamfs_sb_from_rs_staging_def nth_put_bytes nth_get_bytes)

text \<open>The staging buffer and the parity area laid end to end, as the region coder sees them.\<close>

definition sb_region :: "byte list \<Rightarrow> byte list" where
  "sb_region fsb = beamfs_sb_to_rs_staging fsb @ get_bytes 3888 208 fsb"

lemma length_sb_region [simp]: "length fsb = 4096 \<Longrightarrow> length (sb_region fsb) = 2977"
  by (simp add: sb_region_def)

lemma sb_region_ok: "length buf = 2977 \<Longrightarrow> region_ok buf 0 213 2769 16 213 13"
  by (auto simp: region_ok_def apart_def)

lemma sb_region_put_parity:
  "length fsb = 4096 \<Longrightarrow> length par = 208 \<Longrightarrow>
   sb_region (put_bytes 3888 par fsb) = beamfs_sb_to_rs_staging fsb @ par"
  using get_put_same [of 3888 par fsb]
  by (simp add: sb_region_def beamfs_sb_to_rs_staging_def get_put_other)

lemma sb_region_put_crc:
  "length fsb = 4096 \<Longrightarrow> sb_region (put_le32 64 w fsb) = sb_region fsb"
  by (simp add: sb_region_def beamfs_sb_to_rs_staging_def put_le32_def get_put_other)

lemma crc32_sb_put_crc [simp]:
  "length fsb = 4096 \<Longrightarrow> beamfs_crc32_sb crc (put_le32 64 w fsb) = beamfs_crc32_sb crc fsb"
  by (simp add: beamfs_crc32_sb_def put_le32_def get_put_other)

text \<open>A superblock image that verifies: thirteen codewords and a matching checksum.\<close>

definition sb_image_ok :: "kenv \<Rightarrow> byte list \<Rightarrow> bool" where
  "sb_image_ok K c \<longleftrightarrow> length c = 4096
     \<and> rs_library.region_code (k_rs K) (sb_region c) 0 213 2769 16 213 13
     \<and> beamfs_crc32_sb (k_crc32_le K) c = sb_crc32 c"

lemma region_split:
  assumes "length a = 2769" "length b = 2769" "\<And>s. s < 13 \<Longrightarrow>
     get_bytes (s * 213) 213 (a @ p) = get_bytes (s * 213) 213 (b @ q)"
  shows "a = b"
proof (rule nth_equalityI)
  fix j assume "j < length a"
  then have j: "j < 2769" using assms(1) by simp
  then have "j div 213 < 13" by (simp add: less_mult_imp_div_less)
  from assms(3) [OF this] have "get_bytes (j div 213 * 213) 213 (a @ p) ! (j mod 213)
      = get_bytes (j div 213 * 213) 213 (b @ q) ! (j mod 213)" by simp
  moreover have "j div 213 * 213 + j mod 213 = j" "j mod 213 < 213" by simp_all
  moreover have "j div 213 * 213 + 213 \<le> 2769" using \<open>j div 213 < 13\<close> by simp
  ultimately show "a ! j = b ! j" using assms(1,2) j by (simp add: nth_get_bytes nth_append)
qed (use assms in simp)

lemma sb_rs_encode_image:
  assumes "kernel_lib K" "length fsb = 4096"
  shows "length (sb_rs_encode K fsb) = 4096"
    and "rs_library.region_code (k_rs K) (sb_region (sb_rs_encode K fsb)) 0 213 2769 16 213 13"
    and "\<And>j. j < 3888 \<Longrightarrow> sb_rs_encode K fsb ! j = fsb ! j"
proof -
  have lib: "rs_library (k_rs K)" using assms(1) by (rule kernel_lib.k_rs_library)
  obtain c where c: "beamfs_rs_encode_region (k_rs K) (sb_region fsb) 0 213 2769 16 213 13 = (None, c)"
    "length c = 2977" "\<And>s. s < 13 \<Longrightarrow> get_bytes (s * 213) 213 c = get_bytes (s * 213) 213 (sb_region fsb)"
    "rs_library.region_code (k_rs K) c 0 213 2769 16 213 13"
    using rs_library.encode_region [OF lib sb_region_ok [OF length_sb_region [OF assms(2)]]] assms(2)
    by auto
  let ?par = "get_bytes 2769 208 c"
  have eq: "sb_rs_encode K fsb = put_bytes 3888 ?par fsb"
    using c(1) by (simp add: sb_rs_encode_def sb_region_def Let_def)
  have split: "c = take 2769 c @ ?par" using c(2) by (simp add: get_bytes_def)
  have "take 2769 c = beamfs_sb_to_rs_staging fsb"
    by (rule region_split [where p = ?par and q = "get_bytes 3888 208 fsb"])
      (use c(2,3) split assms(2) in \<open>simp_all add: sb_region_def\<close>)
  with split have c': "c = beamfs_sb_to_rs_staging fsb @ ?par" by simp
  show "length (sb_rs_encode K fsb) = 4096" using eq c(2) assms(2) by simp
  show "rs_library.region_code (k_rs K) (sb_region (sb_rs_encode K fsb)) 0 213 2769 16 213 13"
    using c(2,4) c' assms(2) by (simp add: eq sb_region_put_parity)
  show "sb_rs_encode K fsb ! j = fsb ! j" if "j < 3888" for j
    using that c(2) assms(2) by (simp add: eq nth_put_bytes)
qed

lemma dirty_super_image:
  assumes K: "kernel_lib K" and len: "length (s_beamfs_sb sbi) = 4096"
    and st: "s_sbh sbi = Some bh" "b_uptodate bh" "\<not> s_failed sbi" "s_sb_rs_staging sbi"
  shows "\<exists>c. s_sbh (beamfs_dirty_super_now K sbi) = Some (bh\<lparr>b_data := c, b_dirty := True\<rparr>)
    \<and> sb_image_ok K c
    \<and> (\<forall>j < 3888. j < 64 \<or> 68 \<le> j \<longrightarrow> c ! j = s_beamfs_sb sbi ! j)"
proof -
  let ?e = "sb_rs_encode K (s_beamfs_sb sbi)"
  let ?c = "put_le32 64 (beamfs_crc32_sb (k_crc32_le K) ?e) ?e"
  note e = sb_rs_encode_image [OF K len]
  have "sb_image_ok K ?c"
    using e by (simp add: sb_image_ok_def sb_region_put_crc sb_crc32_def)
  moreover have "?c ! j = s_beamfs_sb sbi ! j" if "j < 3888" "j < 64 \<or> 68 \<le> j" for j
    using that e(1) e(3) [OF that(1)] by (auto simp: put_le32_def nth_put_bytes)
  ultimately show ?thesis
    using st by (auto simp: beamfs_dirty_super_now_def Let_def mark_buffer_dirty_def)
qed

subsection \<open>Recovery\<close>

definition sb_errs :: "byte list \<Rightarrow> byte list \<Rightarrow> nat \<Rightarrow> nat set" where
  "sb_errs r c = region_errs (sb_region r) (sb_region c) 0 213 2769 16 213"

text \<open>The decode of the staged superblock, damaged within the radius, is the image's.\<close>

lemma sb_decode_region:
  assumes K: "kernel_lib K" and ok: "sb_image_ok K c" and len: "length r = 4096"
    and few: "\<And>s. s < 13 \<Longrightarrow> card (sb_errs r c s) \<le> 8"
  shows "\<exists>buf res poss. beamfs_rs_decode_region (k_rs K) (sb_region r) 0 213 2769 16 213 13 True 8
      = (buf, 0, res, poss) \<and> take 2769 buf = beamfs_sb_to_rs_staging c"
proof -
  have lib: "rs_library (k_rs K)" using K by (rule kernel_lib.k_rs_library)
  have lc: "length c = 4096" and code: "rs_library.region_code (k_rs K) (sb_region c) 0 213 2769 16 213 13"
    using ok by (simp_all add: sb_image_ok_def)
  have lcr: "length (sb_region c) = length (sb_region r)" using len lc by simp
  obtain buf res poss where d:
    "beamfs_rs_decode_region (k_rs K) (sb_region r) 0 213 2769 16 213 13 True 8 = (buf, 0, res, poss)"
    "length buf = 2977" "\<And>s. s < 13 \<Longrightarrow> get_bytes (s * 213) 213 buf = get_bytes (s * 213) 213 (sb_region c)"
    using rs_library.decode_region [OF lib sb_region_ok [OF length_sb_region [OF len]] lcr _ code,
        where hp = True and m = 8] few len
    by (auto simp: sb_errs_def)
  have "take 2769 buf = beamfs_sb_to_rs_staging c"
    by (rule region_split [where p = "drop 2769 buf" and q = "get_bytes 3888 208 c"])
      (use d(2,3) lc in \<open>simp_all add: sb_region_def\<close>)
  then show ?thesis using d(1) by auto
qed

lemma get_le32_eqI:
  assumes "off + 4 \<le> length a" "length b = length a" "\<And>j. j < 4 \<Longrightarrow> a ! (off + j) = b ! (off + j)"
  shows "get_le32 off a = get_le32 off b"
proof -
  have "get_bytes off 4 a = get_bytes off 4 b"
    by (rule nth_equalityI) (use assms in \<open>auto simp: nth_get_bytes\<close>)
  then show ?thesis by (simp add: get_le32_def)
qed

lemma crc32_sb_cong:
  assumes "length a = 4096" "length b = 4096"
    and "\<And>j. j < 2769 \<Longrightarrow> j < 64 \<or> 68 \<le> j \<Longrightarrow> a ! j = b ! j"
  shows "beamfs_crc32_sb crc a = beamfs_crc32_sb crc b"
proof -
  have "get_bytes 0 64 a = get_bytes 0 64 b"
    by (rule nth_equalityI) (use assms in \<open>auto simp: nth_get_bytes\<close>)
  moreover have "get_bytes 68 2701 a = get_bytes 68 2701 b"
    by (rule nth_equalityI) (use assms in \<open>auto simp: nth_get_bytes\<close>)
  ultimately show ?thesis by (simp add: beamfs_crc32_sb_def)
qed

text \<open>What \<open>sb_rs_recover\<close> returns, according to whether the checksum field is the image's.\<close>

lemma sb_rs_recover_spec:
  assumes K: "kernel_lib K" and ok: "sb_image_ok K c" and len: "length r = 4096"
    and few: "\<And>s. s < 13 \<Longrightarrow> card (sb_errs r c s) \<le> 8"
  shows "sb_crc32 r = sb_crc32 c \<Longrightarrow> \<exists>f ev. sb_rs_recover K True cap r = Inr (f, ev) \<and> length f = 4096
      \<and> (\<forall>j < 2769. j < 64 \<or> 68 \<le> j \<longrightarrow> f ! j = c ! j) \<and> (\<forall>j < 4. f ! (64 + j) = r ! (64 + j))"
    and "sb_crc32 r \<noteq> sb_crc32 c \<Longrightarrow> sb_rs_recover K True cap r = Inl EINVAL"
proof -
  have lc: "length c = 4096" and crc: "beamfs_crc32_sb (k_crc32_le K) c = sb_crc32 c"
    using ok by (simp_all add: sb_image_ok_def)
  obtain buf res poss where d:
    "beamfs_rs_decode_region (k_rs K) (sb_region r) 0 213 2769 16 213 13 True 8 = (buf, 0, res, poss)"
    "take 2769 buf = beamfs_sb_to_rs_staging c"
    using sb_decode_region [OF K ok len few] by blast
  let ?f = "beamfs_sb_from_rs_staging (take 2769 buf) r"
  have lf: "length ?f = 4096" using len lc d(2) by simp
  have nth: "?f ! j = (if j < 64 \<or> 68 \<le> j \<and> j < 2769 then c ! j else r ! j)" if "j < 4096" for j
  proof -
    have "68 \<le> j \<Longrightarrow> j < 2769 \<Longrightarrow> beamfs_sb_to_rs_staging c ! (j - 4) = c ! j"
    proof -
      assume j: "68 \<le> j" "j < 2769"
      then have "j - 4 < 2765" "\<not> j - 4 < 64" "j - 4 + 4 = j" by linarith+
      then show ?thesis using nth_staging [OF lc, of "j - 4"] by simp
    qed
    then show ?thesis using that len lc d(2) by (auto simp: nth_from_staging nth_staging)
  qed
  have crcf: "beamfs_crc32_sb (k_crc32_le K) ?f = sb_crc32 c"
    using crc32_sb_cong [OF lf lc, of "k_crc32_le K"] crc by (simp add: nth)
  have fld: "sb_crc32 ?f = sb_crc32 r"
    unfolding sb_crc32_def by (rule get_le32_eqI) (use lf len in \<open>auto simp: nth\<close>)
  have rec: "sb_rs_recover K True cap r = (if beamfs_crc32_sb (k_crc32_le K) ?f \<noteq> sb_crc32 ?f then Inl EINVAL
      else Inr (?f, beamfs_capture_sb_rs_events cap res poss))"
    using d(1) by (simp add: sb_rs_recover_def sb_region_def [symmetric] Let_def)
  show "sb_crc32 r = sb_crc32 c \<Longrightarrow> \<exists>f ev. sb_rs_recover K True cap r = Inr (f, ev) \<and> length f = 4096
      \<and> (\<forall>j < 2769. j < 64 \<or> 68 \<le> j \<longrightarrow> f ! j = c ! j) \<and> (\<forall>j < 4. f ! (64 + j) = r ! (64 + j))"
    using rec crcf fld lf nth by simp
  show "sb_crc32 r \<noteq> sb_crc32 c \<Longrightarrow> sb_rs_recover K True cap r = Inl EINVAL"
    using rec crcf fld by simp
qed

subsection \<open>What an event changes\<close>

lemma dirty_super_now_sb:
  assumes "length (s_beamfs_sb sbi) = 4096"
  shows "length (s_beamfs_sb (beamfs_dirty_super_now K sbi)) = 4096"
    and "j < 4096 \<Longrightarrow> j < 64 \<or> 68 \<le> j \<Longrightarrow>
      s_beamfs_sb (beamfs_dirty_super_now K sbi) ! j = s_beamfs_sb sbi ! j"
  using assms
  by (auto simp: beamfs_dirty_super_now_def beamfs_fail_def Let_def put_le32_def nth_put_bytes
      split: option.split)

lemma dirty_super_sb:
  assumes "length (s_beamfs_sb sbi) = 4096"
  shows "length (s_beamfs_sb (beamfs_dirty_super K sbi)) = 4096"
    and "j < 4096 \<Longrightarrow> j < 64 \<or> 68 \<le> j \<Longrightarrow>
      s_beamfs_sb (beamfs_dirty_super K sbi) ! j = s_beamfs_sb sbi ! j"
  using dirty_super_now_sb [where sbi = "sbi\<lparr>s_super_needs_encode := False\<rparr>" and K = K] assms
  by (simp_all add: beamfs_dirty_super_def)

lemma length_rs_event [simp]: "length (beamfs_rs_event K b t n e f) = 40"
  by (simp add: beamfs_rs_event_def Let_def)

lemma rs_event_fields:
  "get_le64 0 (beamfs_rs_event K b t n e f) = b" "get_le64 8 (beamfs_rs_event K b t n e f) = t"
  "get_le32 16 (beamfs_rs_event K b t n e f) = n" "get_le32 20 (beamfs_rs_event K b t n e f) = e"
  "get_le32 24 (beamfs_rs_event K b t n e f) = f"
  "get_le32 32 (beamfs_rs_event K b t n e f)
     = beamfs_crc32 (k_crc32_le K) (take 32 (beamfs_rs_event K b t n e f))"
  by (simp_all add: beamfs_rs_event_def Let_def get_le32_def get_le64_def get_bytes_def)

text \<open>Where the bytes of the superblock come from after an event.\<close>

definition rs_event_sb :: "kenv \<Rightarrow> byte list \<Rightarrow> byte list \<Rightarrow> u32 \<Rightarrow> nat \<Rightarrow> byte list" where
  "rs_event_sb K fsb ev flags head =
     (let fsb = (put_bytes (116 + head * 40) ev fsb)[2676 := word_of_nat ((head + 1) mod 64)]
      in if flags AND BEAMFS_RS_EVENT_FLAG_UNCORRECTABLE \<noteq> 0
         then put_le32 60 (sb_flags fsb OR BEAMFS_SB_FLAG_ERRORS) fsb else fsb)"

lemma rs_event_sb_spec:
  assumes "length fsb = 4096" "length ev = 40" "head < 64"
  shows "length (rs_event_sb K fsb ev flags head) = 4096"
    and "get_bytes (116 + head * 40) 40 (rs_event_sb K fsb ev flags head) = ev"
    and "rs_event_sb K fsb ev flags head ! 2676 = word_of_nat ((head + 1) mod 64)"
    and "sb_flags (rs_event_sb K fsb ev flags head) =
      (if flags AND BEAMFS_RS_EVENT_FLAG_UNCORRECTABLE \<noteq> 0 then sb_flags fsb OR BEAMFS_SB_FLAG_ERRORS
       else sb_flags fsb)"
    and "j < 4096 \<Longrightarrow> j < 60 \<or> 64 \<le> j \<Longrightarrow> j < 116 + head * 40 \<or> 156 + head * 40 \<le> j \<Longrightarrow> j \<noteq> 2676 \<Longrightarrow>
      rs_event_sb K fsb ev flags head ! j = fsb ! j"
proof -
  let ?a = "(put_bytes (116 + head * 40) ev fsb)[2676 := word_of_nat ((head + 1) mod 64)]"
  have b: "116 + head * 40 + 40 \<le> 2676" using assms(3) by simp
  have la: "length ?a = 4096" using assms b by simp
  have flags: "sb_flags ?a = sb_flags fsb"
    unfolding sb_flags_def by (rule get_le32_eqI) (use assms b la in \<open>auto simp: nth_put_bytes nth_list_update\<close>)
  have ev: "?a ! (116 + head * 40 + i) = ev ! i" if "i < 40" for i
    using that assms b by (simp add: nth_put_bytes nth_list_update)
  have nth: "rs_event_sb K fsb ev flags head ! j = ?a ! j" if "j < 4096" "j < 60 \<or> 64 \<le> j" for j
    using that la by (auto simp: rs_event_sb_def Let_def put_le32_def nth_put_bytes)
  show l: "length (rs_event_sb K fsb ev flags head) = 4096"
    using la by (simp add: rs_event_sb_def Let_def)
  show "get_bytes (116 + head * 40) 40 (rs_event_sb K fsb ev flags head) = ev"
    by (rule nth_equalityI) (use assms b l in \<open>auto simp: nth_get_bytes nth nth_put_bytes\<close>)
  show "rs_event_sb K fsb ev flags head ! 2676 = word_of_nat ((head + 1) mod 64)"
    using assms b by (simp add: nth)
  show "sb_flags (rs_event_sb K fsb ev flags head) =
      (if flags AND BEAMFS_RS_EVENT_FLAG_UNCORRECTABLE \<noteq> 0 then sb_flags fsb OR BEAMFS_SB_FLAG_ERRORS
       else sb_flags fsb)"
    using la flags by (simp add: rs_event_sb_def Let_def) (simp add: sb_flags_def)
  show "rs_event_sb K fsb ev flags head ! j = fsb ! j" if "j < 4096" "j < 60 \<or> 64 \<le> j"
    "j < 116 + head * 40 \<or> 156 + head * 40 \<le> j" "j \<noteq> 2676"
    using that assms b by (auto simp: nth nth_put_bytes)
qed

subsection \<open>Properties\<close>

text \<open>C19: The superblock survives what the code is built for. Let \<^const>\<open>beamfs_dirty_super_now\<close> write
  the image \<open>c\<close>, and let the next mount read \<open>r\<close>, with at most eight wrong bytes in each of the
  thirteen codewords (data and parity counted together), the magic number, the version and the
  checksum field intact, and the damage either confined to the parity or seen by the checksum. Then
  \<^const>\<open>fill_super_read\<close> accepts it and the 2769 bytes of fields it returns are those that were
  written, whatever the allocation of the event buffer does.\<close>
theorem superblock_survives:
  assumes "kernel_lib K" "length (s_beamfs_sb sbi) = 4096" "s_sbh sbi = Some bh" "b_uptodate bh"
    and "\<not> s_failed sbi" "s_sb_rs_staging sbi"
    and "s_sbh (beamfs_dirty_super_now K sbi) = Some bh'" and c: "c = b_data bh'"
    and len: "length r = 4096" and few: "\<And>s. s < 13 \<Longrightarrow> card (sb_errs r c s) \<le> 8"
    and fields: "sb_magic r = BEAMFS_MAGIC" "sb_version r = BEAMFS_VERSION_CURRENT"
    and crcfield: "get_bytes 64 4 r = get_bytes 64 4 c"
    and seen: "take 2769 r = take 2769 c \<or> beamfs_crc32_sb (k_crc32_le K) r \<noteq> sb_crc32 r"
  shows "\<exists>f ev. fill_super_read K True cap (Some r) = Inr (f, ev) \<and> take 2769 f = take 2769 c"
proof -
  have ok: "sb_image_ok K c" using dirty_super_image [of K sbi bh] assms(1-8) by auto
  then have lc: "length c = 4096" by (simp add: sb_image_ok_def)
  have crc: "sb_crc32 r = sb_crc32 c" using crcfield by (simp add: sb_crc32_def get_le32_def)
  show ?thesis
  proof (cases "beamfs_crc32_sb (k_crc32_le K) r = sb_crc32 r")
    case True
    then have "fill_super_read K True cap (Some r) = Inr (r, [])"
      using fields by (simp add: fill_super_read_def)
    then show ?thesis using seen True by simp
  next
    case False
    obtain f ev where f: "sb_rs_recover K True cap r = Inr (f, ev)" "length f = 4096"
      "\<And>j. j < 2769 \<Longrightarrow> j < 64 \<or> 68 \<le> j \<Longrightarrow> f ! j = c ! j" "\<And>j. j < 4 \<Longrightarrow> f ! (64 + j) = r ! (64 + j)"
      using sb_rs_recover_spec(1) [OF assms(1) ok len few crc, of cap] by blast
    have "f ! j = c ! j" if "j < 2769" for j
    proof (cases "j < 64 \<or> 68 \<le> j")
      case False
      then have "j - 64 < 4" "64 + (j - 64) = j" by auto
      then show ?thesis
        using f(4) [of "j - 64"] arg_cong [OF crcfield, of "\<lambda>xs. xs ! (j - 64)"] len lc
        by (simp add: nth_get_bytes)
    qed (use f(3) that in simp)
    then have "take 2769 f = take 2769 c"
      using f(2) lc by (intro nth_equalityI) auto
    then show ?thesis using fields False f(1) by (simp add: fill_super_read_def)
  qed
qed

text \<open>C27: The checksum field is outside its own protection. If the four bytes of \<^verbatim>\<open>s_crc32\<close> of a
  good superblock change to any other value and nothing else changes, every codeword is intact and
  yet the mount is refused with \<^const>\<open>EINVAL\<close>: one flipped bit there costs the volume.\<close>
theorem superblock_crc_field_fatal:
  assumes "kernel_lib K" "length (s_beamfs_sb sbi) = 4096" "s_sbh sbi = Some bh" "b_uptodate bh"
    and "\<not> s_failed sbi" "s_sb_rs_staging sbi"
    and "s_sbh (beamfs_dirty_super_now K sbi) = Some bh'" and c: "c = b_data bh'"
    and w: "w \<noteq> sb_crc32 c"
  shows "fill_super_read K True cap (Some (put_le32 64 w c)) = Inl EINVAL"
proof -
  have ok: "sb_image_ok K c" using dirty_super_image [of K sbi bh] assms(1-8) by auto
  then have lc: "length c = 4096" and crc: "beamfs_crc32_sb (k_crc32_le K) c = sb_crc32 c"
    by (simp_all add: sb_image_ok_def)
  let ?r = "put_le32 64 w c"
  have "sb_errs ?r c s = {}" for s
    using lc by (simp add: sb_errs_def sb_region_put_crc region_errs_def errors_def)
  then have few: "\<And>s. s < 13 \<Longrightarrow> card (sb_errs ?r c s) \<le> 8" by simp
  have r: "sb_crc32 ?r = w" using lc by (simp add: sb_crc32_def)
  have "sb_rs_recover K True cap ?r = Inl EINVAL"
    by (rule sb_rs_recover_spec(2) [OF assms(1) ok _ few]) (use lc r w in auto)
  then show ?thesis using crc lc r w by (simp add: fill_super_read_def)
qed

text \<open>An event goes where it should and nowhere else. With arguments the guards accept,
  \<^const>\<open>beamfs_log_rs_event_flagged\<close> puts the event in the ring entry under the head, with its
  block, timestamp, count and flags readable and its own checksum right; the head moves to the next
  of the 64 entries; \<^const>\<open>BEAMFS_SB_FLAG_ERRORS\<close> is raised for an uncorrectable event (one with no
  positions) and left alone otherwise; and every other byte but the checksum of the superblock stays,
  so the other 63 events and the geometry are kept.\<close>
theorem journal_event:
  assumes "s_sbh sbi \<noteq> None" "length (s_beamfs_sb sbi) = 4096"
    and "n \<le> 8" "(n = 0) = (positions = None)" "0 < code_len" "code_len \<le> 239"
    and "sbi' = beamfs_log_rs_event_flagged K now sbi blk positions n code_len extra"
    and "head = unat (sb_rs_journal_head (s_beamfs_sb sbi)) mod 64"
    and "ev = get_bytes (116 + head * 40) 40 (s_beamfs_sb sbi')"
  shows "get_le64 0 ev = blk \<and> get_le64 8 ev = now \<and> get_le32 16 ev = word_of_nat n
      \<and> get_le32 24 ev = snd (rs_event_policy positions n code_len) OR (extra AND NOT 3)
      \<and> get_le32 32 ev = beamfs_crc32 (k_crc32_le K) (take 32 ev)
    \<and> unat (sb_rs_journal_head (s_beamfs_sb sbi')) = (head + 1) mod 64
    \<and> sb_flags (s_beamfs_sb sbi') =
        (if n = 0 then sb_flags (s_beamfs_sb sbi) OR BEAMFS_SB_FLAG_ERRORS else sb_flags (s_beamfs_sb sbi))
    \<and> (\<forall>j < 4096. (j < 60 \<or> 68 \<le> j) \<and> (j < 116 + head * 40 \<or> 156 + head * 40 \<le> j) \<and> j \<noteq> 2676 \<longrightarrow>
         s_beamfs_sb sbi' ! j = s_beamfs_sb sbi ! j)"
proof -
  let ?fl = "snd (rs_event_policy positions n code_len) OR (extra AND NOT 3)"
  let ?ev = "beamfs_rs_event K blk now (word_of_nat n) (fst (rs_event_policy positions n code_len)) ?fl"
  let ?fsb = "rs_event_sb K (s_beamfs_sb sbi) ?ev ?fl head"
  have h: "head < 64" using assms(8) by simp
  have st: "sbi' = beamfs_dirty_super K (sbi\<lparr>s_beamfs_sb := ?fsb\<rparr>)"
    using assms(1,3-8)
    by (auto simp: beamfs_log_rs_event_flagged_def Let_def rs_event_sb_def
        BEAMFS_RS_EVENT_FLAG_ENTROPY_VALID_def BEAMFS_RS_EVENT_FLAG_UNCORRECTABLE_def split: prod.splits)
  note spec = rs_event_sb_spec [OF assms(2) length_rs_event h, where K = K and flags = ?fl]
  have dirty: "length (s_beamfs_sb sbi') = 4096"
    "\<And>j. j < 4096 \<Longrightarrow> j < 64 \<or> 68 \<le> j \<Longrightarrow> s_beamfs_sb sbi' ! j = ?fsb ! j"
    unfolding st using dirty_super_sb [where sbi = "sbi\<lparr>s_beamfs_sb := ?fsb\<rparr>" and K = K] spec(1) by simp_all
  have unc: "(?fl AND BEAMFS_RS_EVENT_FLAG_UNCORRECTABLE \<noteq> 0) = (n = 0)"
  proof -
    have "(extra AND - 4) AND 2 = 0" by (simp add: and.assoc)
    then show ?thesis
      by (auto simp: rs_event_policy_def BEAMFS_RS_EVENT_FLAG_ENTROPY_VALID_def
          BEAMFS_RS_EVENT_FLAG_UNCORRECTABLE_def bit.conj_disj_distrib2)
  qed
  have "ev = get_bytes (116 + head * 40) 40 ?fsb"
    unfolding assms(9)
    by (rule nth_equalityI) (use dirty spec(1) h in \<open>auto simp: nth_get_bytes\<close>)
  then have ev: "ev = ?ev" using spec(2) by simp
  have "get_le32 60 (s_beamfs_sb sbi') = get_le32 60 ?fsb"
    by (rule get_le32_eqI) (use dirty spec(1) in auto)
  then have fl: "sb_flags (s_beamfs_sb sbi') = sb_flags ?fsb" by (simp add: sb_flags_def)
  have hd: "unat (sb_rs_journal_head (s_beamfs_sb sbi')) = (head + 1) mod 64"
    using dirty(2) [of 2676] spec(3) by (simp add: sb_rs_journal_head_def unat_of_nat)
  show ?thesis
    using ev fl hd dirty(2) spec(4,5) unc by (auto simp: rs_event_fields)
qed

text \<open>A concrete volume for the witnesses: a superblock that is all zero but for the magic number and
  the version, on the codec and the checksum of the checker.\<close>

definition wit_sbi :: beamfs_sb_info where
  "wit_sbi = \<lparr>s_beamfs_sb = put_le32 56 BEAMFS_VERSION_CURRENT (put_le32 0 BEAMFS_MAGIC (replicate 4096 0)),
     s_sbh = Some \<lparr>b_data = replicate 4096 0, b_uptodate = True, b_dirty = False\<rparr>,
     s_sb_rs_staging = True, s_super_needs_encode = False, s_failed = False\<rparr>"

definition wit_image :: "byte list" where
  "wit_image = b_data (the (s_sbh (beamfs_dirty_super_now port_kenv wit_sbi)))"

lemma wit_sbi_simps [simp]:
  "length (s_beamfs_sb wit_sbi) = 4096" "s_sb_rs_staging wit_sbi" "\<not> s_failed wit_sbi"
  "s_sbh wit_sbi = Some \<lparr>b_data = replicate 4096 0, b_uptodate = True, b_dirty = False\<rparr>"
  by (simp_all add: wit_sbi_def)

lemma wit_image:
  "\<exists>bh'. s_sbh (beamfs_dirty_super_now port_kenv wit_sbi) = Some bh' \<and> wit_image = b_data bh'"
  "length wit_image = 4096"
  "j < 3888 \<Longrightarrow> j < 64 \<or> 68 \<le> j \<Longrightarrow> wit_image ! j = s_beamfs_sb wit_sbi ! j"
  using dirty_super_image [OF kport.kernel_lib_axioms, of wit_sbi]
  by (auto simp: wit_image_def sb_image_ok_def)

lemma wit_sb_errs:
  assumes "length c = 4096" "r = c[2700 := x]" "s < 13"
  shows "card (sb_errs r c s) \<le> 8"
proof -
  have reg: "sb_region r = (sb_region c)[2696 := x]"
    using assms by (simp add: sb_region_def beamfs_sb_to_rs_staging_def get_bytes_def list_update_append put_bytes_def
        take_update_swap drop_update_swap list_update_beyond)
  have "j = 140" if "s * 213 + j = 2696" "j < 213" for j using arg_cong [OF that(1), of "\<lambda>n. n mod 213"] that(2) by simp
  then have "sb_errs r c s \<subseteq> {140}"
    using assms(1,3)
    by (auto simp: sb_errs_def region_errs_def errors_def reg nth_append nth_get_bytes nth_list_update split: if_splits)
  from card_mono [OF _ this] show ?thesis by simp
qed

text \<open>A byte of the fields is wrong: the checksum sees it and the parity puts it right.\<close>

theorem superblock_survives_witness:
  "\<exists>f ev. fill_super_read port_kenv True True (Some (wit_image[2700 := wit_image ! 2700 + 1])) = Inr (f, ev)
     \<and> take 2769 f = take 2769 wit_image \<and> f \<noteq> wit_image[2700 := wit_image ! 2700 + 1]"
proof -
  obtain bh' where bh': "s_sbh (beamfs_dirty_super_now port_kenv wit_sbi) = Some bh'" "wit_image = b_data bh'"
    using wit_image(1) by blast
  let ?r = "wit_image[2700 := wit_image ! 2700 + 1]"
  have "get_le32 0 ?r = get_le32 0 (s_beamfs_sb wit_sbi)" "get_le32 56 ?r = get_le32 56 (s_beamfs_sb wit_sbi)"
    by (rule get_le32_eqI; use wit_image(2,3) in simp)+
  then have m: "sb_magic ?r = BEAMFS_MAGIC" "sb_version ?r = BEAMFS_VERSION_CURRENT"
    by (simp_all add: sb_magic_def sb_version_def wit_sbi_def)
      (simp add: get_le32_def put_le32_def get_put_other get_put_same [of 0 "cpu_to_le 4 x" for x, simplified])
  have c: "get_bytes 64 4 ?r = get_bytes 64 4 wit_image"
    by (simp add: get_bytes_def drop_update_swap take_update_swap list_update_beyond)
  have p: "?r = put_bytes 2700 [wit_image ! 2700 + 1] wit_image"
    using wit_image(2) by (simp add: put_bytes_def upd_conv_take_nth_drop)
  have d: "?r ! 2700 \<noteq> wit_image ! 2700" using wit_image(2) by simp
  then have "?r \<noteq> wit_image" by auto
  then have "crc32_sb ?r \<noteq> crc32_sb wit_image"
    using crc32_sb_detects [OF wit_image(2), of "[wit_image ! 2700 + 1]" 2700] by (simp add: p)
  moreover have crc: "beamfs_crc32_sb (k_crc32_le port_kenv) b = crc32_sb b" for b
    by (simp add: port_kenv_def beamfs_crc32_sb_def crc32_sb_def)
  moreover have "beamfs_crc32_sb (k_crc32_le port_kenv) wit_image = sb_crc32 wit_image"
    using dirty_super_image [OF kport.kernel_lib_axioms, of wit_sbi] by (auto simp: wit_image_def sb_image_ok_def)
  ultimately have s: "beamfs_crc32_sb (k_crc32_le port_kenv) ?r \<noteq> sb_crc32 ?r"
    using c by (simp add: sb_crc32_def get_le32_def)
  obtain f ev where "fill_super_read port_kenv True True (Some ?r) = Inr (f, ev)" "take 2769 f = take 2769 wit_image"
    using superblock_survives [OF kport.kernel_lib_axioms wit_sbi_simps(1,4) _ wit_sbi_simps(3,2) bh', of ?r True]
      wit_sb_errs [OF wit_image(2) refl] wit_image(2) m c s by auto
  moreover have "f \<noteq> ?r" using arg_cong [OF calculation(2), of "\<lambda>l. l ! 2700"] d by auto
  ultimately show ?thesis by blast
qed

theorem superblock_crc_field_fatal_witness:
  "fill_super_read port_kenv True True (Some (put_le32 64 (sb_crc32 wit_image + 1) wit_image)) = Inl EINVAL"
proof -
  obtain bh' where bh': "s_sbh (beamfs_dirty_super_now port_kenv wit_sbi) = Some bh'" "wit_image = b_data bh'"
    using wit_image(1) by blast
  show ?thesis
    by (rule superblock_crc_field_fatal [OF kport.kernel_lib_axioms wit_sbi_simps(1,4) _ wit_sbi_simps(3,2) bh'])
      simp_all
qed

theorem journal_event_witness:
  "unat (sb_rs_journal_head (s_beamfs_sb
     (beamfs_log_rs_event_flagged port_kenv 7 wit_sbi 5 (Some [1, 2]) 2 239 0))) = 1"
proof -
  have h: "sb_rs_journal_head (s_beamfs_sb wit_sbi) = 0"
    by (simp add: sb_rs_journal_head_def wit_sbi_def put_le32_def nth_put_bytes)
  show ?thesis
    using journal_event [of wit_sbi 2 "Some [1, 2]" 239 _ port_kenv 7 5 0, OF _ _ _ _ _ _ refl refl refl] h
    by simp
qed

end
