(* ===== verification/Treecheck.thy ===== *)
theory Treecheck
  imports Prelude
begin

section \<open>The tree checker\<close>

text \<open>
  \<^verbatim>\<open>treecheck.c\<close>: the debug table that remembers what every slot of every indirect block holds and
  reports a pointer that vanishes. The entries are kept as one list, newest first: the two hash
  tables only decide which chain is walked, and every walk compares the full key. An entry is on the
  child index while \<open>tc_cnode\<close> is set. Calls are sequences of whole operations, as \<^verbatim>\<open>s_tc_lock\<close> makes
  them; the window in \<^verbatim>\<open>beamfs_tc_store\<close> where the lock is released to allocate is not modelled.

  What is proved: the table refines a partial map from (block, slot) to the recorded child, and the
  violations counted are exactly the stores and wipes that contradict that map.
\<close>

abbreviation "BEAMFS_INDIRECT_PTRS \<equiv> 512 :: nat"

record beamfs_tc_entry =
  tc_parent :: u64
  tc_slot :: u32
  tc_child :: u64
  tc_ino :: nat
  tc_who :: string
  tc_cnode :: bool

record tc_state =
  s_tc :: "beamfs_tc_entry list"
  s_tc_entries :: u32
  s_tc_violations :: u32

definition tc_is :: "u64 \<Rightarrow> u32 \<Rightarrow> beamfs_tc_entry \<Rightarrow> bool" where
  "tc_is parent slot e \<longleftrightarrow> tc_parent e = parent \<and> tc_slot e = slot"

definition beamfs_tc_index_child :: "beamfs_tc_entry \<Rightarrow> beamfs_tc_entry" where
  "beamfs_tc_index_child e = (if tc_child e \<noteq> 0 then e\<lparr>tc_cnode := True\<rparr> else e)"

definition beamfs_tc_unindex_child :: "beamfs_tc_entry \<Rightarrow> beamfs_tc_entry" where
  "beamfs_tc_unindex_child e = e\<lparr>tc_cnode := False\<rparr>"

definition beamfs_tc_init :: tc_state where
  "beamfs_tc_init = \<lparr>s_tc = [], s_tc_entries = 0, s_tc_violations = 0\<rparr>"

text \<open>The end of the mount frees every entry; the counters stay for the report.\<close>

definition beamfs_tc_exit :: "tc_state \<Rightarrow> tc_state" where
  "beamfs_tc_exit st = st\<lparr>s_tc := []\<rparr>"

text \<open>The first entry of the chain with the key, changed in place or dropped.\<close>

primrec tc_update :: "u64 \<Rightarrow> u32 \<Rightarrow> (beamfs_tc_entry \<Rightarrow> beamfs_tc_entry) \<Rightarrow> beamfs_tc_entry list \<Rightarrow> beamfs_tc_entry list"
where
  "tc_update p s f [] = []"
| "tc_update p s f (e # es) = (if tc_is p s e then f e # es else e # tc_update p s f es)"

primrec tc_remove :: "u64 \<Rightarrow> u32 \<Rightarrow> beamfs_tc_entry list \<Rightarrow> beamfs_tc_entry list" where
  "tc_remove p s [] = []"
| "tc_remove p s (e # es) = (if tc_is p s e then es else e # tc_remove p s es)"

definition tc_set :: "nat \<Rightarrow> u64 \<Rightarrow> string \<Rightarrow> beamfs_tc_entry \<Rightarrow> beamfs_tc_entry" where
  "tc_set ino child who e =
     beamfs_tc_index_child ((beamfs_tc_unindex_child e)\<lparr>tc_child := child, tc_ino := ino, tc_who := who\<rparr>)"

definition beamfs_tc_store ::
    "bool \<Rightarrow> nat \<Rightarrow> u64 \<Rightarrow> u32 \<Rightarrow> u64 \<Rightarrow> u64 \<Rightarrow> string \<Rightarrow> tc_state \<Rightarrow> tc_state" where
  "beamfs_tc_store alloc_ok ino parent slot old child who st =
     (case find (tc_is parent slot) (s_tc st) of
        Some found \<Rightarrow>
          if tc_child found \<noteq> 0 \<and> old = 0
          then st\<lparr>s_tc_violations := s_tc_violations st + 1,
                  s_tc := tc_update parent slot (tc_set ino child who) (s_tc st)\<rparr>
          else st\<lparr>s_tc := tc_update parent slot (tc_set ino child who) (s_tc st)\<rparr>
      | None \<Rightarrow>
          if \<not> alloc_ok then st
          else st\<lparr>s_tc := beamfs_tc_index_child \<lparr>tc_parent = parent, tc_slot = slot, tc_child = child,
                             tc_ino = ino, tc_who = who, tc_cnode = False\<rparr> # s_tc st,
                  s_tc_entries := s_tc_entries st + 1\<rparr>)"

text \<open>\<^verbatim>\<open>beamfs_tc_drop\<close> on every entry of the child index that names the block.\<close>

definition beamfs_tc_forget_child :: "u64 \<Rightarrow> tc_state \<Rightarrow> tc_state" where
  "beamfs_tc_forget_child child st =
     (let keep = (\<lambda>e. \<not> (tc_cnode e \<and> tc_child e = child))
      in st\<lparr>s_tc := filter keep (s_tc st),
            s_tc_entries := s_tc_entries st - word_of_nat (length (filter (\<lambda>e. \<not> keep e) (s_tc st)))\<rparr>)"

definition beamfs_tc_drop :: "u64 \<Rightarrow> u32 \<Rightarrow> tc_state \<Rightarrow> tc_state" where
  "beamfs_tc_drop parent slot st =
     (if find (tc_is parent slot) (s_tc st) = None then st
      else st\<lparr>s_tc := tc_remove parent slot (s_tc st), s_tc_entries := s_tc_entries st - 1\<rparr>)"

definition beamfs_tc_forget_parent :: "u64 \<Rightarrow> tc_state \<Rightarrow> tc_state" where
  "beamfs_tc_forget_parent parent st =
     fold (\<lambda>slot. beamfs_tc_drop parent (word_of_nat slot)) [0..<BEAMFS_INDIRECT_PTRS] st"

definition beamfs_tc_clear :: "u64 \<Rightarrow> u32 \<Rightarrow> tc_state \<Rightarrow> tc_state" where
  "beamfs_tc_clear parent slot st =
     st\<lparr>s_tc := tc_update parent slot (\<lambda>e. (beamfs_tc_unindex_child e)\<lparr>tc_child := 0\<rparr>) (s_tc st)\<rparr>"

text \<open>One slot of the wipe: count a live pointer, then drop the entry.\<close>

definition tc_zero_slot :: "u64 \<Rightarrow> nat \<Rightarrow> nat \<times> tc_state \<Rightarrow> nat \<times> tc_state" where
  "tc_zero_slot parent slot = (\<lambda>(live, st).
     case find (tc_is parent (word_of_nat slot)) (s_tc st) of
       None \<Rightarrow> (live, st)
     | Some e \<Rightarrow> (if tc_child e \<noteq> 0 then live + 1 else live, beamfs_tc_drop parent (word_of_nat slot) st))"

definition beamfs_tc_zeroed :: "u64 \<Rightarrow> tc_state \<Rightarrow> tc_state" where
  "beamfs_tc_zeroed parent st =
     (let (live, st) = fold (tc_zero_slot parent) [0..<BEAMFS_INDIRECT_PTRS] (0, st)
      in if live \<noteq> 0 then st\<lparr>s_tc_violations := s_tc_violations st + 1\<rparr> else st)"

subsection \<open>Refinement to a map\<close>

text \<open>The operations as the callers issue them, and what each should do to the map of recorded
  pointers and to the number of violations.\<close>

datatype tc_op =
    TcStore bool nat u64 u32 u64 u64 string
  | TcForgetChild u64
  | TcForgetParent u64
  | TcClear u64 u32
  | TcZeroed u64

primrec tc_step :: "tc_op \<Rightarrow> tc_state \<Rightarrow> tc_state" where
  "tc_step (TcStore ok ino p s old c who) = beamfs_tc_store ok ino p s old c who"
| "tc_step (TcForgetChild c) = beamfs_tc_forget_child c"
| "tc_step (TcForgetParent p) = beamfs_tc_forget_parent p"
| "tc_step (TcClear p s) = beamfs_tc_clear p s"
| "tc_step (TcZeroed p) = beamfs_tc_zeroed p"

type_synonym tc_map = "u64 \<times> u32 \<Rightarrow> u64 option"

definition tc_live :: "tc_map \<Rightarrow> u64 \<Rightarrow> bool" where
  "tc_live m p \<longleftrightarrow> (\<exists>s c. s < 512 \<and> m (p, s) = Some c \<and> c \<noteq> 0)"

fun tc_spec :: "tc_op \<Rightarrow> tc_map \<Rightarrow> tc_map" where
  "tc_spec (TcStore ok ino p s old c who) m = (if m (p, s) = None \<and> \<not> ok then m else m((p, s) \<mapsto> c))"
| "tc_spec (TcForgetChild c) m = (\<lambda>k. if m k = Some c \<and> c \<noteq> 0 then None else m k)"
| "tc_spec (TcForgetParent p) m = (\<lambda>k. if fst k = p \<and> snd k < 512 then None else m k)"
| "tc_spec (TcClear p s) m = (\<lambda>k. if k = (p, s) \<and> m k \<noteq> None then Some 0 else m k)"
| "tc_spec (TcZeroed p) m = (\<lambda>k. if fst k = p \<and> snd k < 512 then None else m k)"

fun tc_violates :: "tc_op \<Rightarrow> tc_map \<Rightarrow> bool" where
  "tc_violates (TcStore ok ino p s old c who) m \<longleftrightarrow> (\<exists>d. m (p, s) = Some d \<and> d \<noteq> 0) \<and> old = 0"
| "tc_violates (TcZeroed p) m \<longleftrightarrow> tc_live m p"
| "tc_violates _ m \<longleftrightarrow> False"

definition tc_abs :: "tc_state \<Rightarrow> tc_map" where
  "tc_abs st k = map_option tc_child (find (tc_is (fst k) (snd k)) (s_tc st))"

text \<open>The invariant: one entry per key, on the child index exactly while it names a block, and the
  counter counts.\<close>

definition tc_inv :: "tc_state \<Rightarrow> bool" where
  "tc_inv st \<longleftrightarrow> distinct (map (\<lambda>e. (tc_parent e, tc_slot e)) (s_tc st))
     \<and> (\<forall>e \<in> set (s_tc st). tc_cnode e \<longleftrightarrow> tc_child e \<noteq> 0)
     \<and> s_tc_entries st = word_of_nat (length (s_tc st))"

lemma tc_is_key: "tc_is p s e \<longleftrightarrow> (tc_parent e, tc_slot e) = (p, s)"
  by (auto simp: tc_is_def)

lemma tc_set_simps [simp]:
  "tc_parent (tc_set i c w e) = tc_parent e" "tc_slot (tc_set i c w e) = tc_slot e"
  "tc_child (tc_set i c w e) = c" "tc_cnode (tc_set i c w e) \<longleftrightarrow> c \<noteq> 0"
  by (simp_all add: tc_set_def beamfs_tc_index_child_def beamfs_tc_unindex_child_def)

abbreviation tc_keys :: "beamfs_tc_entry list \<Rightarrow> (u64 \<times> u32) list" where
  "tc_keys es \<equiv> map (\<lambda>e. (tc_parent e, tc_slot e)) es"

lemma find_tc_None: "find (tc_is p s) es = None \<longleftrightarrow> (p, s) \<notin> set (tc_keys es)"
  by (induction es) (auto simp: tc_is_key)

lemma find_tc_update:
  assumes "\<And>e. tc_parent (f e) = tc_parent e \<and> tc_slot (f e) = tc_slot e"
  shows "find (tc_is p' s') (tc_update p s f es) =
    (if (p', s') = (p, s) then map_option f (find (tc_is p s) es) else find (tc_is p' s') es)"
proof (induction es)
  case (Cons a es)
  have "tc_is p' s' (f a) = tc_is p' s' a" by (simp add: tc_is_def assms)
  moreover have "tc_is p s a \<Longrightarrow> tc_is p' s' a \<longleftrightarrow> (p', s') = (p, s)" by (auto simp: tc_is_def)
  ultimately show ?case using Cons by (cases "tc_is p s a") auto
qed simp

lemma tc_keys_update:
  assumes "\<And>e. tc_parent (f e) = tc_parent e \<and> tc_slot (f e) = tc_slot e"
  shows "tc_keys (tc_update p s f es) = tc_keys es"
  by (induction es) (auto simp: assms)

lemma set_tc_update: "e \<in> set (tc_update p s f es) \<Longrightarrow> e \<in> set es \<or> (\<exists>e' \<in> set es. e = f e')"
  by (induction es) (auto split: if_splits)

lemma find_tc_remove:
  assumes "distinct (tc_keys es)"
  shows "find (tc_is p' s') (tc_remove p s es) =
    (if (p', s') = (p, s) then None else find (tc_is p' s') es)"
  using assms by (induction es) (auto simp: find_tc_None tc_is_key)

lemma set_tc_remove: "set (tc_remove p s es) \<subseteq> set es"
  by (induction es) auto

lemma tc_keys_remove: "distinct (tc_keys es) \<Longrightarrow> distinct (tc_keys (tc_remove p s es))"
proof (induction es)
  case (Cons a es)
  have "set (tc_keys (tc_remove p s es)) \<subseteq> set (tc_keys es)" using set_tc_remove [of p s es] by auto
  then show ?case using Cons by auto
qed simp

lemma length_tc_remove: "find (tc_is p s) es \<noteq> None \<Longrightarrow> length es = Suc (length (tc_remove p s es))"
  by (induction es) (auto split: if_splits)

lemma find_tc_filter:
  assumes "distinct (tc_keys es)"
  shows "find (tc_is p s) (filter keep es) =
    (case find (tc_is p s) es of None \<Rightarrow> None | Some e \<Rightarrow> if keep e then Some e else None)"
  using assms
proof (induction es)
  case (Cons a es)
  show ?case
  proof (cases "tc_is p s a")
    case True
    then have "find (tc_is p s) es = None" using Cons.prems by (auto simp: find_tc_None tc_is_key)
    then show ?thesis using True Cons by simp
  next
    case False
    then show ?thesis using Cons by simp
  qed
qed simp

lemma tc_cnode_find:
  "tc_inv st \<Longrightarrow> find (tc_is p s) (s_tc st) = Some e \<Longrightarrow> tc_cnode e \<longleftrightarrow> tc_child e \<noteq> 0"
  by (auto simp: tc_inv_def find_Some_iff)

lemmas tc_defs = tc_abs_def tc_inv_def

lemma tc_update_inv:
  assumes "tc_inv st" "\<And>e. tc_parent (f e) = tc_parent e \<and> tc_slot (f e) = tc_slot e"
    and "\<And>e. tc_cnode (f e) \<longleftrightarrow> tc_child (f e) \<noteq> 0"
  shows "tc_inv (st\<lparr>s_tc := tc_update p s f (s_tc st)\<rparr>)"
proof -
  have "length (tc_update p s f es) = length es" for es by (induction es) auto
  then show ?thesis
    using assms set_tc_update [of _ p s f "s_tc st"]
    by (fastforce simp: tc_inv_def tc_keys_update [OF assms(2)])
qed

lemma tc_drop_spec:
  assumes "tc_inv st"
  shows "tc_inv (beamfs_tc_drop p s st)"
    and "tc_abs (beamfs_tc_drop p s st) k = (if k = (p, s) then None else tc_abs st k)"
    and "s_tc_violations (beamfs_tc_drop p s st) = s_tc_violations st"
proof -
  have d: "distinct (tc_keys (s_tc st))" using assms by (simp add: tc_inv_def)
  show "tc_inv (beamfs_tc_drop p s st)"
    using assms tc_keys_remove [OF d] set_tc_remove [of p s "s_tc st"] length_tc_remove [of p s "s_tc st"]
    by (auto simp: tc_inv_def beamfs_tc_drop_def)
  show "tc_abs (beamfs_tc_drop p s st) k = (if k = (p, s) then None else tc_abs st k)"
    using find_tc_remove [OF d] by (cases k) (auto simp: tc_abs_def beamfs_tc_drop_def)
  show "s_tc_violations (beamfs_tc_drop p s st) = s_tc_violations st"
    by (simp add: beamfs_tc_drop_def)
qed

lemma tc_forget_slots:
  assumes "tc_inv st" "n \<le> 512"
  shows "tc_inv (fold (\<lambda>slot. beamfs_tc_drop p (word_of_nat slot)) [0..<n] st)
    \<and> tc_abs (fold (\<lambda>slot. beamfs_tc_drop p (word_of_nat slot)) [0..<n] st)
        = (\<lambda>k. if fst k = p \<and> unat (snd k) < n then None else tc_abs st k)
    \<and> s_tc_violations (fold (\<lambda>slot. beamfs_tc_drop p (word_of_nat slot)) [0..<n] st) = s_tc_violations st"
  using assms(2)
proof (induction n)
  case (Suc n)
  have "(s = word_of_nat n) = (unat s = n)" for s :: u32
    using Suc.prems by (auto simp: unat_of_nat take_bit_nat_eq_self)
  then show ?case
    using Suc tc_drop_spec by (auto simp: less_Suc_eq fun_eq_iff)
qed (use assms(1) in simp)

lemma tc_zero_slot_eq:
  "tc_zero_slot p n (live, st) =
     (case find (tc_is p (word_of_nat n)) (s_tc st) of
        None \<Rightarrow> (live, beamfs_tc_drop p (word_of_nat n) st)
      | Some e \<Rightarrow> (if tc_child e \<noteq> 0 then live + 1 else live, beamfs_tc_drop p (word_of_nat n) st))"
  by (simp add: tc_zero_slot_def beamfs_tc_drop_def split: option.split)

lemma tc_zero_slots:
  assumes "tc_inv st" "n \<le> 512"
  shows "snd (fold (tc_zero_slot p) [0..<n] (0, st)) = fold (\<lambda>slot. beamfs_tc_drop p (word_of_nat slot)) [0..<n] st
    \<and> (fst (fold (tc_zero_slot p) [0..<n] (0, st)) \<noteq> 0 \<longleftrightarrow>
         (\<exists>slot < n. \<exists>c. tc_abs st (p, word_of_nat slot) = Some c \<and> c \<noteq> 0))"
  using assms(2)
proof (induction n)
  case (Suc n)
  let ?st = "fold (\<lambda>slot. beamfs_tc_drop p (word_of_nat slot)) [0..<n] st"
  have "unat (word_of_nat n :: u32) = n" using Suc.prems by (simp add: unat_of_nat take_bit_nat_eq_self)
  then have "tc_abs ?st (p, word_of_nat n) = tc_abs st (p, word_of_nat n)"
    using tc_forget_slots [OF assms(1), of n p] Suc.prems by simp
  then have f: "map_option tc_child (find (tc_is p (word_of_nat n)) (s_tc ?st)) = tc_abs st (p, word_of_nat n)"
    by (simp add: tc_abs_def)
  obtain live where IH: "fold (tc_zero_slot p) [0..<n] (0, st) = (live, ?st)"
    "live \<noteq> 0 \<longleftrightarrow> (\<exists>slot < n. \<exists>c. tc_abs st (p, word_of_nat slot) = Some c \<and> c \<noteq> 0)"
    using Suc by (metis Suc_leD prod.collapse)
  show ?case
  proof (cases "find (tc_is p (word_of_nat n)) (s_tc ?st)")
    case None
    then show ?thesis using f IH by (auto simp: tc_zero_slot_eq less_Suc_eq)
  next
    case (Some e)
    then have "tc_abs st (p, word_of_nat n) = Some (tc_child e)" using f by simp
    then show ?thesis using Some IH by (auto simp: tc_zero_slot_eq less_Suc_eq)
  qed
qed simp

lemma u32_less_512: "(s < (512 :: u32)) = (unat s < 512)"
  by (simp add: word_less_nat_alt)

lemma tc_live_slots: "tc_live m p \<longleftrightarrow> (\<exists>slot < 512. \<exists>c. m (p, word_of_nat slot) = Some c \<and> c \<noteq> 0)"
proof
  assume "tc_live m p"
  then obtain s c where "s < 512" "m (p, s) = Some c" "c \<noteq> 0" by (auto simp: tc_live_def)
  then have "unat s < 512" "m (p, word_of_nat (unat s)) = Some c" by (simp_all add: u32_less_512)
  with \<open>c \<noteq> 0\<close> show "\<exists>slot < 512. \<exists>c. m (p, word_of_nat slot) = Some c \<and> c \<noteq> 0" by blast
next
  assume "\<exists>slot < 512. \<exists>c. m (p, word_of_nat slot) = Some c \<and> c \<noteq> 0"
  then obtain slot c where "slot < 512" "m (p, word_of_nat slot) = Some c" "c \<noteq> 0" by blast
  moreover have "(word_of_nat slot :: u32) < 512"
    using \<open>slot < 512\<close> by (simp add: u32_less_512 unat_of_nat take_bit_nat_eq_self)
  ultimately show "tc_live m p" by (auto simp: tc_live_def)
qed

lemma tc_violations_only [simp]:
  "tc_abs (st\<lparr>s_tc_violations := v\<rparr>) = tc_abs st" "tc_inv (st\<lparr>s_tc_violations := v\<rparr>) = tc_inv st"
  by (auto simp: tc_abs_def tc_inv_def)

lemma tc_step_refines:
  assumes "tc_inv st"
  shows "tc_inv (tc_step op st) \<and> tc_abs (tc_step op st) = tc_spec op (tc_abs st)
    \<and> s_tc_violations (tc_step op st) = s_tc_violations st + (if tc_violates op (tc_abs st) then 1 else 0)"
proof (cases op)
  case (TcStore ok ino p s old c who)
  have inv: "tc_inv (st\<lparr>s_tc := tc_update p s (tc_set ino c who) (s_tc st)\<rparr>)"
    by (rule tc_update_inv [OF assms]) auto
  show ?thesis
  proof (cases "find (tc_is p s) (s_tc st)")
    case None
    let ?e = "beamfs_tc_index_child \<lparr>tc_parent = p, tc_slot = s, tc_child = c, tc_ino = ino, tc_who = who,
      tc_cnode = False\<rparr>"
    have e: "tc_parent ?e = p" "tc_slot ?e = s" "tc_child ?e = c" "tc_cnode ?e \<longleftrightarrow> c \<noteq> 0"
      by (simp_all add: beamfs_tc_index_child_def)
    have "(p, s) \<notin> set (tc_keys (s_tc st))" using None by (simp only: find_tc_None) simp
    then have "tc_inv (st\<lparr>s_tc := ?e # s_tc st, s_tc_entries := s_tc_entries st + 1\<rparr>)"
      using assms e by (simp add: tc_inv_def add.commute)
    moreover have "tc_abs (st\<lparr>s_tc := ?e # s_tc st, s_tc_entries := s_tc_entries st + 1\<rparr>) = (tc_abs st)((p, s) \<mapsto> c)"
      using e by (auto simp: tc_abs_def fun_eq_iff tc_is_def)
    moreover have "tc_abs st (p, s) = None" using None by (simp add: tc_abs_def)
    ultimately show ?thesis using None assms TcStore by (simp add: beamfs_tc_store_def)
  next
    case (Some e)
    then have "tc_abs st (p, s) = Some (tc_child e)" by (simp add: tc_abs_def)
    then show ?thesis
      using Some TcStore inv
      by (auto simp: beamfs_tc_store_def tc_inv_def tc_abs_def fun_eq_iff find_tc_update)
  qed
next
  case (TcForgetChild c)
  have d: "distinct (tc_keys (s_tc st))" using assms by (simp add: tc_inv_def)
  have "length (s_tc st) = length (filter (\<lambda>e. \<not> (tc_cnode e \<and> tc_child e = c)) (s_tc st))
      + length (filter (\<lambda>e. tc_cnode e \<and> tc_child e = c) (s_tc st))"
    using sum_length_filter_compl [of "\<lambda>e. tc_cnode e \<and> tc_child e = c" "s_tc st"] by simp
  then have inv: "tc_inv (beamfs_tc_forget_child c st)"
    using assms by (auto simp: tc_inv_def beamfs_tc_forget_child_def Let_def distinct_map_filter)
  have "tc_abs (beamfs_tc_forget_child c st) k = tc_spec op (tc_abs st) k" for k
    using tc_cnode_find [OF assms, of "fst k" "snd k"] TcForgetChild
    by (auto simp: tc_abs_def beamfs_tc_forget_child_def Let_def find_tc_filter [OF d] split: option.split)
  then show ?thesis using inv TcForgetChild by (auto simp: beamfs_tc_forget_child_def Let_def)
next
  case (TcForgetParent p)
  then show ?thesis
    using tc_forget_slots [OF assms, of 512 p] by (simp add: beamfs_tc_forget_parent_def u32_less_512)
next
  case (TcClear p s)
  have "tc_inv (beamfs_tc_clear p s st)"
    unfolding beamfs_tc_clear_def
    by (rule tc_update_inv [OF assms]) (auto simp: beamfs_tc_unindex_child_def)
  moreover have "tc_abs (beamfs_tc_clear p s st) = tc_spec op (tc_abs st)"
    using TcClear by (auto simp: beamfs_tc_clear_def tc_abs_def fun_eq_iff find_tc_update beamfs_tc_unindex_child_def)
  ultimately show ?thesis using TcClear by (simp add: beamfs_tc_clear_def)
next
  case (TcZeroed p)
  obtain live st' where z: "fold (tc_zero_slot p) [0..<512] (0, st) = (live, st')" by (metis prod.collapse)
  have "beamfs_tc_zeroed p st = (if live \<noteq> 0 then st'\<lparr>s_tc_violations := s_tc_violations st' + 1\<rparr> else st')"
    using z by (simp add: beamfs_tc_zeroed_def)
  then show ?thesis
    using tc_zero_slots [OF assms, of 512 p] tc_forget_slots [OF assms, of 512 p] z TcZeroed
    by (simp add: u32_less_512 tc_live_slots)
qed

text \<open>How often an operation of the sequence contradicts the map built by the ones before it.\<close>

primrec tc_count :: "tc_op list \<Rightarrow> tc_map \<Rightarrow> nat" where
  "tc_count [] m = 0"
| "tc_count (op # ops) m = (if tc_violates op m then 1 else 0) + tc_count ops (tc_spec op m)"

lemma tc_run:
  assumes "tc_inv st"
  shows "tc_inv (fold tc_step ops st) \<and> tc_abs (fold tc_step ops st) = fold tc_spec ops (tc_abs st)
    \<and> s_tc_violations (fold tc_step ops st) = s_tc_violations st + word_of_nat (tc_count ops (tc_abs st))"
  using assms
proof (induction ops arbitrary: st)
  case (Cons op ops)
  then show ?case using tc_step_refines [OF Cons.prems, of op] Cons.IH [of "tc_step op st"]
    by (auto simp: add.assoc)
qed simp

text \<open>C28: The checker reports a lost pointer exactly when one is lost. From \<^const>\<open>beamfs_tc_init\<close> and
  over every sequence of stores, clears, wipes and freed blocks, the hash tables hold the partial map
  from (indirect block, slot) to child that \<^const>\<open>tc_spec\<close> describes, and the violation counter is the
  number of stores that found zero in a slot recorded as live and of wipes of a block with a live slot
  (modulo the width of the counter): no report without a lost pointer, none missed.\<close>
theorem treecheck_exact:
  "tc_abs (fold tc_step ops beamfs_tc_init) = fold tc_spec ops (\<lambda>_. None)
   \<and> s_tc_violations (fold tc_step ops beamfs_tc_init) = word_of_nat (tc_count ops (\<lambda>_. None))
   \<and> s_tc_entries (fold tc_step ops beamfs_tc_init) = word_of_nat (length (s_tc (fold tc_step ops beamfs_tc_init)))"
proof -
  have "tc_inv beamfs_tc_init" by (simp add: tc_inv_def beamfs_tc_init_def)
  moreover have "tc_abs beamfs_tc_init = (\<lambda>_. None)" by (simp add: tc_abs_def beamfs_tc_init_def fun_eq_iff)
  moreover have "s_tc_violations beamfs_tc_init = 0" by (simp add: beamfs_tc_init_def)
  ultimately show ?thesis using tc_run [of beamfs_tc_init ops] by (simp add: tc_inv_def)
qed

end
