(* ===== verification/Alloc.thy ===== *)
theory Alloc
  imports Super Treecheck
begin

section \<open>The block and inode allocator\<close>

text \<open>
  \<^verbatim>\<open>alloc.c\<close>: the in-memory bitmaps (a set bit is free), their on-disk image of sixteen codewords a
  block, the reservation windows of the inodes being written, and the allocation and release of
  blocks and inode numbers. Every function runs under \<^verbatim>\<open>s_lock\<close> where it matters, so operations are
  whole steps. A bitmap of \<open>n\<close> bits is a list of \<open>n\<close> booleans; the array behind it is zero beyond.
  Its bytes are read in little-endian bit order, as the code's \<^verbatim>\<open>memcpy\<close> of the array assumes.
  The counters are \<^typ>\<open>nat\<close>: they count blocks and inodes of the volume, far below \<open>2 ^ 64\<close>.
  Kernel messages, trace points and the per-inode lists of dirty buffers are left out.

  What is proved: the free counter is the number of set bits and stays it; an allocation returns a
  block that was free, inside the data region, takes it and nothing else, and fails only when
  nothing is free; windows stay disjoint while there is room outside them; freeing undoes an
  allocation, and a second free changes nothing; the search terminates and misses no free block; the
  image on disk always decodes to the bitmap in memory.
\<close>

subsection \<open>State\<close>

text \<open>The reservation fields of \<^verbatim>\<open>struct beamfs_inode_info\<close>, and the byte count the VFS keeps.\<close>

record rsv_info =
  i_rsv_start :: nat
  i_rsv_end :: nat
  i_rsv_next :: nat
  i_rsv_size :: nat
  i_last_alloc :: nat
  i_blocks_counted :: bool
  i_bytes :: int

type_synonym ino = nat

text \<open>The allocator's part of \<^verbatim>\<open>struct beamfs_sb_info\<close>. \<open>s_rsv_windows\<close> lists the inodes holding a window,
  head first; \<open>s_rsv\<close> gives the fields of each inode in memory.\<close>

record sb_alloc = beamfs_sb_info +
  s_nblocks :: nat
  s_data_start :: nat
  s_block_bitmap :: "bool list option"
  s_free_blocks :: nat
  s_alloc_goal :: nat
  s_ninodes :: nat
  s_inode_bitmap :: "bool list option"
  s_free_inodes :: nat
  s_bitmap_blkhs :: "buffer_head option list option"
  s_bitmap_blocks_count :: nat
  s_bitmap_needs_encode :: "bool list option"
  s_rsv_windows :: "ino list"
  s_rsv :: "ino \<Rightarrow> rsv_info"
  s_treecheck :: tc_state

abbreviation "BEAMFS_BITMAP_SUBBLOCKS \<equiv> 16 :: nat"
abbreviation "BEAMFS_BITS_PER_BITMAP_BLOCK \<equiv> 30592 :: nat"
abbreviation "BITS_PER_SUBBLOCK \<equiv> 1912 :: nat"
abbreviation "BEAMFS_BLOCK_SIZE \<equiv> 4096 :: nat"

text \<open>\<^verbatim>\<open>find_next_bit\<close>: the first set bit of \<open>[off, n)\<close>, or \<open>n\<close>.\<close>

definition find_next_bit :: "bool list \<Rightarrow> nat \<Rightarrow> nat \<Rightarrow> nat" where
  "find_next_bit bm n off =
     (case find (\<lambda>i. i < length bm \<and> bm ! i) [off..<n] of None \<Rightarrow> n | Some i \<Rightarrow> i)"

definition test_bit :: "nat \<Rightarrow> bool list \<Rightarrow> bool" where
  "test_bit b bm \<longleftrightarrow> b < length bm \<and> bm ! b"

subsection \<open>The image of the bitmap\<close>

text \<open>Byte \<open>j\<close> of the array, and a \<^verbatim>\<open>memcpy\<close> of \<open>n\<close> bytes of it.\<close>

definition bitmap_byte :: "bool list \<Rightarrow> nat \<Rightarrow> byte" where
  "bitmap_byte bm j =
     fold (\<lambda>b w. if test_bit (8 * j + b) bm then w OR push_bit b 1 else w) [0..<8] 0"

definition bitmap_bytes :: "bool list \<Rightarrow> nat \<Rightarrow> nat \<Rightarrow> byte list" where
  "bitmap_bytes bm j n = map (bitmap_byte bm) [j..<j + n]"

definition bitmap_encode_step :: "kenv \<Rightarrow> bool list \<Rightarrow> nat \<Rightarrow> nat \<Rightarrow> nat \<Rightarrow> byte list \<Rightarrow> byte list" where
  "bitmap_encode_step K bm nblocks k i bdata =
     (let first = k * BEAMFS_BITS_PER_BITMAP_BLOCK;
          last = min (first + BEAMFS_BITS_PER_BITMAP_BLOCK) nblocks;
          off = i * BEAMFS_SUBBLOCK_TOTAL;
          bit0 = first + i * BEAMFS_SUBBLOCK_DATA * 8
      in if bit0 \<ge> last then put_bytes off (replicate BEAMFS_SUBBLOCK_DATA 0) bdata
         else
           let nbytes = min BEAMFS_SUBBLOCK_DATA ((last - bit0 + 7) div 8);
               subdata = bitmap_bytes bm (bit0 div 8) nbytes @ replicate (BEAMFS_SUBBLOCK_DATA - nbytes) 0;
               (_, bdata) = beamfs_rs_encode_region (k_rs K) (put_bytes off subdata bdata)
                 off BEAMFS_SUBBLOCK_TOTAL (off + BEAMFS_SUBBLOCK_DATA) BEAMFS_SUBBLOCK_TOTAL
                 BEAMFS_SUBBLOCK_DATA 1
           in bdata)"

definition beamfs_bitmap_encode_sub_locked ::
    "kenv \<Rightarrow> bool list \<Rightarrow> nat \<Rightarrow> nat \<Rightarrow> nat \<Rightarrow> byte list \<Rightarrow> byte list" where
  "beamfs_bitmap_encode_sub_locked K bm nblocks k sub bdata =
     (if sub \<ge> BEAMFS_BITMAP_SUBBLOCKS
      then fold (bitmap_encode_step K bm nblocks k) [0..<BEAMFS_BITMAP_SUBBLOCKS] (replicate BEAMFS_BLOCK_SIZE 0)
      else bitmap_encode_step K bm nblocks k sub bdata)"

definition beamfs_bitmap_encode_one_locked :: "kenv \<Rightarrow> bool list \<Rightarrow> nat \<Rightarrow> nat \<Rightarrow> byte list \<Rightarrow> byte list" where
  "beamfs_bitmap_encode_one_locked K bm nblocks k bdata =
     beamfs_bitmap_encode_sub_locked K bm nblocks k BEAMFS_BITMAP_SUBBLOCKS bdata"

definition bitmap_encode_pending_step ::
    "kenv \<Rightarrow> bool list \<Rightarrow> nat \<Rightarrow> nat \<Rightarrow> bool list \<times> buffer_head option list \<Rightarrow> bool list \<times> buffer_head option list" where
  "bitmap_encode_pending_step K bm nblocks k = (\<lambda>(needs, bhs).
     if \<not> needs ! k then (needs, bhs)
     else case bhs ! k of
            None \<Rightarrow> (needs[k := False], bhs)
          | Some bh \<Rightarrow>
              (needs[k := False],
               bhs[k := Some (bh\<lparr>b_data := beamfs_bitmap_encode_one_locked K bm nblocks k (b_data bh)\<rparr>)]))"

definition beamfs_bitmap_encode_pending :: "kenv \<Rightarrow> 'a sb_alloc_scheme \<Rightarrow> 'a sb_alloc_scheme" where
  "beamfs_bitmap_encode_pending K sbi =
     (case (s_bitmap_blkhs sbi, s_bitmap_needs_encode sbi, s_block_bitmap sbi) of
        (Some bhs, Some needs, Some bm) \<Rightarrow>
          let (needs, bhs) = fold (bitmap_encode_pending_step K bm (s_nblocks sbi))
                               [0..<s_bitmap_blocks_count sbi] (needs, bhs)
          in sbi\<lparr>s_bitmap_needs_encode := Some needs, s_bitmap_blkhs := Some bhs\<rparr>
      | _ \<Rightarrow> sbi)"

definition beamfs_write_bitmap_block ::
    "kenv \<Rightarrow> 'a sb_alloc_scheme \<Rightarrow> nat \<Rightarrow> errno option \<times> 'a sb_alloc_scheme" where
  "beamfs_write_bitmap_block K sbi bit_global =
     (if s_failed sbi then (Some EIO, sbi)
      else case (s_bitmap_blkhs sbi, s_block_bitmap sbi) of
        (Some bhs, Some bm) \<Rightarrow>
          if bit_global \<ge> s_nblocks sbi then (Some EINVAL, sbi)
          else
            let k = bit_global div BEAMFS_BITS_PER_BITMAP_BLOCK
            in if k \<ge> s_bitmap_blocks_count sbi then (Some EINVAL, sbi)
               else (case bhs ! k of
                       None \<Rightarrow> (Some EINVAL, sbi)
                     | Some bh \<Rightarrow>
                         if \<not> b_uptodate bh then (Some EIO, beamfs_fail sbi)
                         else
                           let data = beamfs_bitmap_encode_sub_locked K bm (s_nblocks sbi) k
                                        (bit_global mod BEAMFS_BITS_PER_BITMAP_BLOCK
                                         div (BEAMFS_SUBBLOCK_DATA * 8)) (b_data bh)
                           in (None, sbi\<lparr>s_bitmap_blkhs :=
                                           Some (bhs[k := Some (mark_buffer_dirty (bh\<lparr>b_data := data\<rparr>))]),
                                         s_bitmap_needs_encode :=
                                           map_option (\<lambda>needs. needs[k := False]) (s_bitmap_needs_encode sbi)\<rparr>))
      | _ \<Rightarrow> (Some EINVAL, sbi))"

definition beamfs_destroy_bitmap :: "'a sb_alloc_scheme \<Rightarrow> 'a sb_alloc_scheme" where
  "beamfs_destroy_bitmap sbi =
     (let sbi = (if s_bitmap_blkhs sbi \<noteq> None
                 then sbi\<lparr>s_bitmap_blkhs := None, s_bitmap_needs_encode := None\<rparr> else sbi)
      in sbi\<lparr>s_block_bitmap := None, s_inode_bitmap := None\<rparr>)"

subsection \<open>Reservation windows\<close>

abbreviation "BEAMFS_RSV_MIN \<equiv> 16 :: nat"
abbreviation "BEAMFS_RSV_MAX \<equiv> 512 :: nat"

definition beamfs_rsv_init :: "rsv_info \<Rightarrow> rsv_info" where
  "beamfs_rsv_init fi = fi\<lparr>i_rsv_start := 0, i_rsv_end := 0, i_rsv_next := 0,
     i_rsv_size := BEAMFS_RSV_MIN, i_last_alloc := 0\<rparr>"

definition beamfs_rsv_drop_locked :: "'a sb_alloc_scheme \<Rightarrow> ino \<Rightarrow> 'a sb_alloc_scheme" where
  "beamfs_rsv_drop_locked sbi me =
     sbi\<lparr>s_rsv_windows := remove1 me (s_rsv_windows sbi),
         s_rsv := (s_rsv sbi)(me := (s_rsv sbi me)\<lparr>i_rsv_start := 0, i_rsv_end := 0, i_rsv_next := 0\<rparr>)\<rparr>"

definition beamfs_rsv_discard :: "'a sb_alloc_scheme \<Rightarrow> ino \<Rightarrow> 'a sb_alloc_scheme" where
  "beamfs_rsv_discard = beamfs_rsv_drop_locked"

text \<open>\<open>me\<close> is \<^const>\<open>None\<close> for the NULL of a call without an owner.\<close>

primrec rsv_covering_walk :: "(ino \<Rightarrow> rsv_info) \<Rightarrow> ino option \<Rightarrow> nat \<Rightarrow> ino list \<Rightarrow> nat" where
  "rsv_covering_walk rsv me b [] = 0"
| "rsv_covering_walk rsv me b (o' # os) =
     (if Some o' = me then rsv_covering_walk rsv me b os
      else if b \<ge> i_rsv_start (rsv o') \<and> b < i_rsv_end (rsv o') then i_rsv_end (rsv o')
      else rsv_covering_walk rsv me b os)"

definition beamfs_rsv_covering :: "'a sb_alloc_scheme \<Rightarrow> ino option \<Rightarrow> nat \<Rightarrow> nat" where
  "beamfs_rsv_covering sbi me b = rsv_covering_walk (s_rsv sbi) me b (s_rsv_windows sbi)"

definition beamfs_rsv_next_start :: "'a sb_alloc_scheme \<Rightarrow> ino option \<Rightarrow> nat \<Rightarrow> nat" where
  "beamfs_rsv_next_start sbi me b =
     fold (\<lambda>o' lim. if Some o' = me then lim
                    else if i_rsv_start (s_rsv sbi o') \<ge> b \<and> i_rsv_start (s_rsv sbi o') < lim
                    then i_rsv_start (s_rsv sbi o') else lim)
       (s_rsv_windows sbi) (s_nblocks sbi)"

lemma find_next_bit_ge: "off \<le> find_next_bit bm n off \<or> n < off"
  by (auto simp: find_next_bit_def split: option.split dest!: find_Some_iff [THEN iffD1])

lemma rsv_covering_gt: "rsv_covering_walk rsv me b os \<noteq> 0 \<Longrightarrow> b < rsv_covering_walk rsv me b os"
  by (induction os) (auto split: if_splits)

text \<open>The loop of the search, from the bit \<open>b\<close>.\<close>

function rsv_find_loop :: "'a sb_alloc_scheme \<Rightarrow> bool list \<Rightarrow> ino option \<Rightarrow> bool \<Rightarrow> bool \<Rightarrow> nat \<Rightarrow> nat" where
  "rsv_find_loop sbi bm me respect wrapped b =
     (let n = s_nblocks sbi;
          b = find_next_bit bm n b
      in if b \<ge> n then (if wrapped then n else rsv_find_loop sbi bm me respect True 0)
         else
           let end' = (if respect then beamfs_rsv_covering sbi me b else 0)
           in if end' = 0 then b
              else if end' \<ge> n then (if wrapped then n else rsv_find_loop sbi bm me respect True 0)
              else rsv_find_loop sbi bm me respect wrapped end')"
  by auto

termination rsv_find_loop
proof (relation "measure (\<lambda>(sbi, bm, me, respect, wrapped, b).
    (if wrapped then 0 else Suc (s_nblocks sbi)) + (s_nblocks sbi - b))", goal_cases)
  case (4 sbi bm me respect wrapped b x xa xb)
  then have "xa < xb" by (auto simp: beamfs_rsv_covering_def rsv_covering_gt split: if_splits)
  moreover have "b \<le> xa" using 4 find_next_bit_ge [of b bm "s_nblocks sbi"]
    by (auto simp: find_next_bit_def split: option.splits)
  ultimately show ?case using 4 by auto
qed auto

declare rsv_find_loop.simps [simp del]

definition beamfs_rsv_find :: "'a sb_alloc_scheme \<Rightarrow> bool list \<Rightarrow> ino option \<Rightarrow> nat \<Rightarrow> bool \<Rightarrow> nat" where
  "beamfs_rsv_find sbi bm me goal respect =
     (let b = (if goal < s_nblocks sbi then goal else 0)
      in rsv_find_loop sbi bm me respect (b = 0) b)"

definition rsv_new_window :: "'a sb_alloc_scheme \<Rightarrow> ino \<Rightarrow> bool \<Rightarrow> nat \<Rightarrow> 'a sb_alloc_scheme" where
  "rsv_new_window sbi me exhausted b =
     (let fi = s_rsv sbi me;
          fi = (if exhausted \<and> i_rsv_size fi < BEAMFS_RSV_MAX then fi\<lparr>i_rsv_size := i_rsv_size fi * 2\<rparr> else fi);
          fi = fi\<lparr>i_rsv_start := b,
                  i_rsv_end := min (min (b + i_rsv_size fi) (beamfs_rsv_next_start sbi (Some me) (b + 1)))
                                 (s_nblocks sbi),
                  i_rsv_next := b + 1, i_last_alloc := b\<rparr>
      in sbi\<lparr>s_rsv := (s_rsv sbi)(me := fi), s_rsv_windows := me # s_rsv_windows sbi\<rparr>)"

definition beamfs_rsv_alloc_locked ::
    "'a sb_alloc_scheme \<Rightarrow> bool list \<Rightarrow> ino \<Rightarrow> nat \<times> 'a sb_alloc_scheme" where
  "beamfs_rsv_alloc_locked sbi bm me =
     (let n = s_nblocks sbi;
          fi = s_rsv sbi me;
          b = (if i_rsv_end fi > i_rsv_next fi
               then let b = find_next_bit bm (i_rsv_end fi) (i_rsv_next fi)
                    in if b \<ge> i_rsv_end fi then n else b
               else n)
      in if b < n then (b, sbi\<lparr>s_rsv := (s_rsv sbi)(me := fi\<lparr>i_rsv_next := b + 1, i_last_alloc := b\<rparr>)\<rparr>)
         else
           let exhausted = (i_rsv_end fi \<noteq> 0 \<and> i_rsv_next fi \<ge> i_rsv_end fi);
               sbi = beamfs_rsv_drop_locked sbi me;
               goal = (if i_last_alloc fi \<noteq> 0 then i_last_alloc fi + 1 else s_alloc_goal sbi);
               b = beamfs_rsv_find sbi bm (Some me) goal True;
               b = (if b \<ge> n then beamfs_rsv_find sbi bm (Some me) goal False else b)
           in if b \<ge> n then (n, sbi) else (b, rsv_new_window sbi me exhausted b))"

subsection \<open>Blocks\<close>

definition inode_add_bytes :: "ino option \<Rightarrow> int \<Rightarrow> 'a sb_alloc_scheme \<Rightarrow> 'a sb_alloc_scheme" where
  "inode_add_bytes owner d sbi =
     (case owner of
        None \<Rightarrow> sbi
      | Some i \<Rightarrow>
          if i_blocks_counted (s_rsv sbi i)
          then sbi\<lparr>s_rsv := (s_rsv sbi)(i := (s_rsv sbi i)\<lparr>i_bytes := i_bytes (s_rsv sbi i) + d\<rparr>)\<rparr>
          else sbi)"

text \<open>The choice of the bit, for an owner or for nobody.\<close>

definition alloc_pick :: "'a sb_alloc_scheme \<Rightarrow> bool list \<Rightarrow> ino option \<Rightarrow> nat \<times> 'a sb_alloc_scheme" where
  "alloc_pick sbi bm owner =
     (case owner of
        Some i \<Rightarrow> beamfs_rsv_alloc_locked sbi bm i
      | None \<Rightarrow>
          let b = beamfs_rsv_find sbi bm None (s_alloc_goal sbi) True
          in (if b \<ge> s_nblocks sbi then beamfs_rsv_find sbi bm None (s_alloc_goal sbi) False else b, sbi))"

definition beamfs_alloc_block :: "kenv \<Rightarrow> 'a sb_alloc_scheme \<Rightarrow> ino option \<Rightarrow> nat \<times> 'a sb_alloc_scheme" where
  "beamfs_alloc_block K sbi owner =
     (if s_failed sbi then (0, sbi)
      else case s_block_bitmap sbi of
        None \<Rightarrow> (0, sbi)
      | Some bm \<Rightarrow>
          if s_free_blocks sbi = 0 then (0, sbi)
          else
            let (b, sbi) = alloc_pick sbi bm owner
            in if b \<ge> s_nblocks sbi then (0, sbi)
               else
                 let sbi = sbi\<lparr>s_alloc_goal := (if b + 1 \<ge> s_nblocks sbi then 0 else b + 1)\<rparr>;
                     sbi = sbi\<lparr>s_block_bitmap := Some (bm[b := False]), s_free_blocks := s_free_blocks sbi - 1\<rparr>;
                     sbi = sbi\<lparr>s_beamfs_sb := put_le64 16 (word_of_nat (s_free_blocks sbi)) (s_beamfs_sb sbi)\<rparr>;
                     sbi = beamfs_dirty_super K sbi;
                     sbi = inode_add_bytes owner (int BEAMFS_BLOCK_SIZE) sbi;
                     (_, sbi) = beamfs_write_bitmap_block K sbi b
                 in (s_data_start sbi + b, sbi))"

definition beamfs_block_is_allocated :: "'a sb_alloc_scheme \<Rightarrow> nat \<Rightarrow> bool" where
  "beamfs_block_is_allocated sbi block =
     (if block < s_data_start sbi then True
      else case s_block_bitmap sbi of
        None \<Rightarrow> True
      | Some bm \<Rightarrow>
          let b = block - s_data_start sbi
          in if b \<ge> s_nblocks sbi then False else \<not> test_bit b bm)"

text \<open>The code reads \<^verbatim>\<open>s_block_bitmap\<close> here without a test for NULL; on a mounted volume it is set.\<close>

definition beamfs_free_block :: "kenv \<Rightarrow> 'a sb_alloc_scheme \<Rightarrow> nat \<Rightarrow> ino option \<Rightarrow> 'a sb_alloc_scheme" where
  "beamfs_free_block K sbi block owner =
     (if s_failed sbi then sbi
      else if block < s_data_start sbi then sbi
      else
        let b = block - s_data_start sbi; bm = the (s_block_bitmap sbi)
        in if b \<ge> s_nblocks sbi then sbi
           else if test_bit b bm then sbi
           else
             let sbi = (if b < s_alloc_goal sbi then sbi\<lparr>s_alloc_goal := b\<rparr> else sbi);
                 sbi = sbi\<lparr>s_block_bitmap := Some (bm[b := True]), s_free_blocks := s_free_blocks sbi + 1\<rparr>;
                 sbi = sbi\<lparr>s_beamfs_sb := put_le64 16 (word_of_nat (s_free_blocks sbi)) (s_beamfs_sb sbi)\<rparr>;
                 sbi = beamfs_dirty_super K sbi;
                 sbi = inode_add_bytes owner (- int BEAMFS_BLOCK_SIZE) sbi;
                 sbi = sbi\<lparr>s_treecheck := beamfs_tc_forget_parent (word_of_nat block)
                              (beamfs_tc_forget_child (word_of_nat block) (s_treecheck sbi))\<rparr>
             in snd (beamfs_write_bitmap_block K sbi b))"

subsection \<open>Inode numbers\<close>

definition beamfs_alloc_inode_num :: "kenv \<Rightarrow> 'a sb_alloc_scheme \<Rightarrow> nat \<times> 'a sb_alloc_scheme" where
  "beamfs_alloc_inode_num K sbi =
     (if s_failed sbi then (0, sbi)
      else case s_inode_bitmap sbi of
        None \<Rightarrow> (0, sbi)
      | Some bm \<Rightarrow>
          if s_free_inodes sbi = 0 then (0, sbi)
          else
            let b = find_next_bit bm (s_ninodes sbi + 1) 2
            in if b > s_ninodes sbi then (0, sbi)
               else
                 let sbi = sbi\<lparr>s_inode_bitmap := Some (bm[b := False]), s_free_inodes := s_free_inodes sbi - 1\<rparr>;
                     sbi = sbi\<lparr>s_beamfs_sb := put_le64 32 (word_of_nat (s_free_inodes sbi)) (s_beamfs_sb sbi)\<rparr>
                 in (b, beamfs_dirty_super K sbi))"

definition beamfs_ino_is_reserved :: "nat \<Rightarrow> bool" where
  "beamfs_ino_is_reserved ino \<longleftrightarrow> ino < 3"

definition beamfs_free_inode_num :: "kenv \<Rightarrow> 'a sb_alloc_scheme \<Rightarrow> nat \<Rightarrow> 'a sb_alloc_scheme" where
  "beamfs_free_inode_num K sbi ino =
     (if beamfs_ino_is_reserved ino \<or> ino > s_ninodes sbi then sbi
      else
        let bm = the (s_inode_bitmap sbi)
        in if test_bit ino bm then sbi
           else
             let sbi = sbi\<lparr>s_inode_bitmap := Some (bm[ino := True]), s_free_inodes := s_free_inodes sbi + 1\<rparr>;
                 sbi = sbi\<lparr>s_beamfs_sb := put_le64 32 (word_of_nat (s_free_inodes sbi)) (s_beamfs_sb sbi)\<rparr>
             in beamfs_dirty_super K sbi)"

subsection \<open>Loading the bitmaps at mount\<close>

definition beamfs_bitmap_blocks_count_from_flags :: "u32 \<Rightarrow> nat" where
  "beamfs_bitmap_blocks_count_from_flags s_flags =
     (let v = unat (s_flags AND 0xFFFF) in if v \<noteq> 0 then v else 1)"

text \<open>The bits of a decoded bitmap block, subblock by subblock and in each from bit 0 up, at most \<open>cnt\<close>.\<close>

definition bitmap_load_bits :: "byte list \<Rightarrow> nat \<Rightarrow> bool list" where
  "bitmap_load_bits bdata cnt =
     map (\<lambda>j. let i = j div BITS_PER_SUBBLOCK; b = j mod BITS_PER_SUBBLOCK
              in bit (bdata ! (i * BEAMFS_SUBBLOCK_TOTAL + b div 8)) (b mod 8))
       [0..<min cnt BEAMFS_BITS_PER_BITMAP_BLOCK]"

text \<open>The journalling of the corrections of one bitmap block, and whether there were any.\<close>

definition bitmap_log_step ::
    "kenv \<Rightarrow> (nat \<Rightarrow> u64) \<Rightarrow> nat \<Rightarrow> int list \<Rightarrow> byte list list \<Rightarrow> nat
       \<Rightarrow> 'a sb_alloc_scheme \<times> bool \<Rightarrow> 'a sb_alloc_scheme \<times> bool" where
  "bitmap_log_step K now disk_blk rs_results rs_positions i = (\<lambda>(sbi, corrected).
     if rs_results ! i > 0
     then (let np = min (nat (rs_results ! i)) (BEAMFS_RS_PARITY div 2)
           in beamfs_log_rs_event_flagged K (now i) sbi (word_of_nat disk_blk) (Some (rs_positions ! i)) np
                BEAMFS_SUBBLOCK_DATA (beamfs_rs_event_subblock_bits i), True)
     else (sbi, corrected))"

text \<open>The loop over the bitmap blocks. It ends at a block that cannot be read, with \<^const>\<open>None\<close>, or
  once all bits are loaded. A corrected block is marked dirty; its write at once belongs to the block
  layer.\<close>

primrec setup_bitmap_loop ::
    "kenv \<Rightarrow> (nat \<Rightarrow> byte list option) \<Rightarrow> (nat \<Rightarrow> nat \<Rightarrow> u64) \<Rightarrow> nat \<Rightarrow> nat list
       \<Rightarrow> 'a sb_alloc_scheme \<Rightarrow> bool list \<Rightarrow> buffer_head option list
       \<Rightarrow> 'a sb_alloc_scheme \<times> (bool list \<times> buffer_head option list) option" where
  "setup_bitmap_loop K bread now bitmap_blk [] sbi bits bhs = (sbi, Some (bits, bhs))"
| "setup_bitmap_loop K bread now bitmap_blk (k # ks) sbi bits bhs =
     (if length bits \<ge> s_nblocks sbi then (sbi, Some (bits, bhs))
      else case bread (bitmap_blk + k) of
        None \<Rightarrow> (sbi, None)
      | Some data \<Rightarrow>
          let (bdata, _, rs_results, rs_positions) =
                beamfs_rs_decode_region (k_rs K) data 0 BEAMFS_SUBBLOCK_TOTAL BEAMFS_SUBBLOCK_DATA
                  BEAMFS_SUBBLOCK_TOTAL BEAMFS_SUBBLOCK_DATA BEAMFS_BITMAP_SUBBLOCKS True
                  (BEAMFS_RS_PARITY div 2);
              (sbi, corrected) = fold (bitmap_log_step K (now k) (bitmap_blk + k) rs_results rs_positions)
                                   [0..<BEAMFS_BITMAP_SUBBLOCKS] (sbi, False);
              bits = bits @ bitmap_load_bits bdata (s_nblocks sbi - length bits)
          in setup_bitmap_loop K bread now bitmap_blk ks sbi bits
               (bhs[k := Some \<lparr>b_data = bdata, b_uptodate = True, b_dirty = corrected\<rparr>]))"

text \<open>The inode bitmap: bits 0 and 1 are never set, and a number is free when its slot of the inode
  table was read and has mode 0.\<close>

definition inode_bitmap_scan :: "(nat \<Rightarrow> byte list option) \<Rightarrow> nat \<Rightarrow> nat \<Rightarrow> bool list" where
  "inode_bitmap_scan bread inode_table_blk total_inodes =
     map (\<lambda>ino. ino \<ge> 2 \<and>
            (case bread (inode_table_blk + (ino - 1) div 16) of
               None \<Rightarrow> False
             | Some raw \<Rightarrow> get_le16 ((ino - 1) mod 16 * 256) raw = 0))
       [0..<total_inodes + 1]"

text \<open>\<open>bitmap_ok\<close>, \<open>needs_ok\<close>, \<open>blkhs_ok\<close> and \<open>imap_ok\<close> say which of the four allocations succeed.\<close>

definition beamfs_setup_bitmap ::
    "kenv \<Rightarrow> (nat \<Rightarrow> byte list option) \<Rightarrow> (nat \<Rightarrow> nat \<Rightarrow> u64) \<Rightarrow> bool \<Rightarrow> bool \<Rightarrow> bool \<Rightarrow> bool
       \<Rightarrow> 'a sb_alloc_scheme \<Rightarrow> errno option \<times> 'a sb_alloc_scheme" where
  "beamfs_setup_bitmap K bread now bitmap_ok needs_ok blkhs_ok imap_ok sbi =
     (let fsb = s_beamfs_sb sbi;
          total_blocks = unat (sb_block_count fsb);
          data_start = unat (sb_data_start_blk fsb);
          bitmap_blk = unat (sb_bitmap_blk fsb)
      in if total_blocks \<le> data_start then (Some EINVAL, sbi)
         else if bitmap_blk = 0 \<or> bitmap_blk \<ge> data_start then (Some EINVAL, sbi)
         else
           let sbi = sbi\<lparr>s_nblocks := total_blocks - data_start, s_data_start := data_start\<rparr>
           in if \<not> bitmap_ok then (Some ENOMEM, sbi\<lparr>s_block_bitmap := None\<rparr>)
              else
                let n = total_blocks - data_start;
                    count = beamfs_bitmap_blocks_count_from_flags (sb_flags fsb);
                    sbi = sbi\<lparr>s_block_bitmap := Some (replicate n False), s_bitmap_blocks_count := count\<rparr>
                in if \<not> needs_ok then (Some ENOMEM, sbi\<lparr>s_bitmap_needs_encode := None\<rparr>)
                   else
                     let sbi = sbi\<lparr>s_bitmap_needs_encode := Some (replicate count False)\<rparr>
                     in if \<not> blkhs_ok
                        then (Some ENOMEM, sbi\<lparr>s_bitmap_blkhs := None, s_block_bitmap := None\<rparr>)
                        else case setup_bitmap_loop K bread now bitmap_blk [0..<count] sbi [] (replicate count None) of
                          (sbi, None) \<Rightarrow> (Some EIO, sbi\<lparr>s_bitmap_blkhs := None, s_bitmap_needs_encode := None,
                                               s_block_bitmap := None\<rparr>)
                        | (sbi, Some (bits, bhs)) \<Rightarrow>
                            let sbi = sbi\<lparr>s_block_bitmap := Some (bits @ replicate (n - length bits) False),
                                          s_bitmap_blkhs := Some bhs, s_alloc_goal := 0\<rparr>;
                                total_inodes = unat (sb_inode_count fsb);
                                sbi = sbi\<lparr>s_ninodes := total_inodes\<rparr>
                            in if \<not> imap_ok
                               then (Some ENOMEM, sbi\<lparr>s_inode_bitmap := None, s_bitmap_blkhs := None,
                                                      s_bitmap_needs_encode := None, s_block_bitmap := None\<rparr>)
                               else (None, sbi\<lparr>s_inode_bitmap :=
                                      Some (inode_bitmap_scan bread (unat (sb_inode_table_blk fsb)) total_inodes)\<rparr>))"

subsection \<open>The search\<close>

lemma find_next_bit_spec:
  shows "find_next_bit bm n off < n \<Longrightarrow> off \<le> find_next_bit bm n off \<and> test_bit (find_next_bit bm n off) bm"
    and "off \<le> i \<Longrightarrow> i < find_next_bit bm n off \<Longrightarrow> \<not> test_bit i bm"
proof -
  show "off \<le> find_next_bit bm n off \<and> test_bit (find_next_bit bm n off) bm" if "find_next_bit bm n off < n"
  proof (cases "find (\<lambda>i. i < length bm \<and> bm ! i) [off..<n]")
    case None
    then show ?thesis using that by (simp add: find_next_bit_def)
  next
    case (Some m)
    then have "find_next_bit bm n off = m" by (simp add: find_next_bit_def)
    then show ?thesis using Some by (auto simp: test_bit_def find_Some_iff)
  qed
  show "\<not> test_bit i bm" if i: "off \<le> i" "i < find_next_bit bm n off"
  proof (cases "find (\<lambda>i. i < length bm \<and> bm ! i) [off..<n]")
    case None
    then have "i < n" using i(2) by (simp add: find_next_bit_def)
    then show ?thesis using None i(1) by (auto simp: test_bit_def find_None_iff)
  next
    case (Some m)
    then obtain j where j: "j < n - off" "m = off + j" "\<And>l. l < j \<Longrightarrow> \<not> (off + l < length bm \<and> bm ! (off + l))"
      by (auto simp: find_Some_iff)
    have "i - off < j" using i Some j(2) by (simp add: find_next_bit_def)
    then show ?thesis using j(3) [of "i - off"] i(1) by (simp add: test_bit_def)
  qed
qed

text \<open>A bit is open to \<open>me\<close> when it is free and, if windows are respected, in no other's window.\<close>

definition in_window :: "'a sb_alloc_scheme \<Rightarrow> ino \<Rightarrow> nat \<Rightarrow> bool" where
  "in_window sbi i b \<longleftrightarrow> i_rsv_start (s_rsv sbi i) \<le> b \<and> b < i_rsv_end (s_rsv sbi i)"

definition rsv_open :: "'a sb_alloc_scheme \<Rightarrow> bool list \<Rightarrow> ino option \<Rightarrow> bool \<Rightarrow> nat \<Rightarrow> bool" where
  "rsv_open sbi bm me respect b \<longleftrightarrow> b < s_nblocks sbi \<and> test_bit b bm
     \<and> (respect \<longrightarrow> (\<forall>i \<in> set (s_rsv_windows sbi). Some i \<noteq> me \<longrightarrow> \<not> in_window sbi i b))"

lemma rsv_covering_0:
  "beamfs_rsv_covering sbi me b = 0 \<longleftrightarrow>
     (\<forall>i \<in> set (s_rsv_windows sbi). Some i \<noteq> me \<longrightarrow> \<not> in_window sbi i b)"
proof -
  have "rsv_covering_walk (s_rsv sbi) me b os = 0 \<longleftrightarrow> (\<forall>i \<in> set os. Some i \<noteq> me \<longrightarrow> \<not> in_window sbi i b)" for os
    by (induction os) (auto simp: in_window_def)
  then show ?thesis by (simp add: beamfs_rsv_covering_def)
qed

lemma rsv_covering_skip:
  assumes "beamfs_rsv_covering sbi me b \<noteq> 0" "b \<le> j" "j < beamfs_rsv_covering sbi me b"
  shows "\<exists>i \<in> set (s_rsv_windows sbi). Some i \<noteq> me \<and> in_window sbi i j"
proof -
  have "rsv_covering_walk (s_rsv sbi) me b os \<noteq> 0 \<Longrightarrow> j < rsv_covering_walk (s_rsv sbi) me b os \<Longrightarrow>
      \<exists>i \<in> set os. Some i \<noteq> me \<and> in_window sbi i j" for os
    using assms(2) by (induction os) (auto simp: in_window_def split: if_splits)
  then show ?thesis using assms(1,3) by (simp add: beamfs_rsv_covering_def)
qed

text \<open>The loop started at \<open>b\<close> finds an open bit if there is one in what it still has to scan: from
  \<open>b\<close> on, and everything if it has not wrapped.\<close>

lemma rsv_find_loop_spec:
  shows "(rsv_find_loop sbi bm me respect wrapped b < s_nblocks sbi \<longrightarrow>
      rsv_open sbi bm me respect (rsv_find_loop sbi bm me respect wrapped b))
    \<and> rsv_find_loop sbi bm me respect wrapped b \<le> s_nblocks sbi
    \<and> ((\<exists>j. rsv_open sbi bm me respect j \<and> (wrapped \<longrightarrow> b \<le> j)) \<longrightarrow>
        rsv_find_loop sbi bm me respect wrapped b < s_nblocks sbi)"
proof (induction sbi bm me respect wrapped b rule: rsv_find_loop.induct)
  case (1 sbi bm me respect wrapped b)
  let ?n = "s_nblocks sbi" and ?b = "find_next_bit bm (s_nblocks sbi) b"
  let ?e = "if respect then beamfs_rsv_covering sbi me ?b else 0"
  have skip: "\<not> rsv_open sbi bm me respect j" if "b \<le> j" "j < ?b" for j
    using find_next_bit_spec(2) [OF that] by (simp add: rsv_open_def)
  consider "?b \<ge> ?n" "wrapped" | "?b \<ge> ?n" "\<not> wrapped" | "?b < ?n" "?e = 0"
    | "?b < ?n" "?e \<ge> ?n" "?e \<noteq> 0" "wrapped" | "?b < ?n" "?e \<ge> ?n" "?e \<noteq> 0" "\<not> wrapped"
    | "?b < ?n" "?e < ?n" "?e \<noteq> 0" by linarith
  then show ?case
  proof cases
    case 1
    then show ?thesis using skip
      by (subst (1 2 3 4) rsv_find_loop.simps) (auto simp: Let_def rsv_open_def)
  next
    case 2
    then have "rsv_find_loop sbi bm me respect wrapped b = rsv_find_loop sbi bm me respect True 0"
      by (subst rsv_find_loop.simps) (simp add: Let_def)
    then show ?thesis using 1(1) [OF refl refl] 2 by auto
  next
    case 3
    then have "rsv_find_loop sbi bm me respect wrapped b = ?b"
      by (subst rsv_find_loop.simps) (simp add: Let_def)
    moreover have "rsv_open sbi bm me respect ?b"
      using 3 find_next_bit_spec(1) [of bm ?n b] by (auto simp: rsv_open_def rsv_covering_0 split: if_splits)
    ultimately show ?thesis using 3 by simp
  next
    case 4
    then have "rsv_find_loop sbi bm me respect wrapped b = ?n"
      by (subst rsv_find_loop.simps) (simp add: Let_def)
    moreover have "\<not> rsv_open sbi bm me respect j" if "b \<le> j" for j
      using skip [OF that] 4 rsv_covering_skip [of sbi me ?b j]
      by (cases "j < ?b") (auto simp: rsv_open_def split: if_splits)
    ultimately show ?thesis using 4 by auto
  next
    case 5
    then have "rsv_find_loop sbi bm me respect wrapped b = rsv_find_loop sbi bm me respect True 0"
      by (subst rsv_find_loop.simps) (simp add: Let_def)
    then show ?thesis using 1(2) [OF refl refl _ refl] 5 by auto
  next
    case 6
    then have "rsv_find_loop sbi bm me respect wrapped b = rsv_find_loop sbi bm me respect wrapped ?e"
      by (subst rsv_find_loop.simps) (simp add: Let_def)
    moreover have "\<not> rsv_open sbi bm me respect j" if "b \<le> j" "j < ?e" for j
      using skip [OF that(1)] 6 that(2) rsv_covering_skip [of sbi me ?b j]
      by (cases "j < ?b") (auto simp: rsv_open_def split: if_splits)
    ultimately show ?thesis using 1(3) [OF refl refl _ refl] 6 by (metis leD leI)
  qed
qed

lemma rsv_find_spec:
  shows "beamfs_rsv_find sbi bm me goal respect < s_nblocks sbi \<Longrightarrow>
      rsv_open sbi bm me respect (beamfs_rsv_find sbi bm me goal respect)"
    and "beamfs_rsv_find sbi bm me goal respect \<le> s_nblocks sbi"
    and "rsv_open sbi bm me respect j \<Longrightarrow> beamfs_rsv_find sbi bm me goal respect < s_nblocks sbi"
  using rsv_find_loop_spec [of sbi bm me respect "goal = 0" goal] rsv_find_loop_spec [of sbi bm me respect True 0]
  by (auto simp: beamfs_rsv_find_def Let_def)

text \<open>The pick: a free bit when there is one, and only the windows change.\<close>

lemma rsv_drop_simps [simp]:
  "s_nblocks (beamfs_rsv_drop_locked sbi me) = s_nblocks sbi"
  "s_alloc_goal (beamfs_rsv_drop_locked sbi me) = s_alloc_goal sbi"
  by (simp_all add: beamfs_rsv_drop_locked_def)

definition only_windows :: "'a sb_alloc_scheme \<Rightarrow> 'a sb_alloc_scheme \<Rightarrow> bool" where
  "only_windows sbi sbi' \<longleftrightarrow> sbi' = sbi\<lparr>s_rsv_windows := s_rsv_windows sbi', s_rsv := s_rsv sbi'\<rparr>"

lemma only_windows_intros [simp]:
  "only_windows sbi sbi" "only_windows sbi (sbi\<lparr>s_rsv := f\<rparr>)"
  "only_windows sbi (beamfs_rsv_drop_locked sbi me)"
  "only_windows sbi (rsv_new_window (beamfs_rsv_drop_locked sbi me) me ex b)"
  by (simp_all add: only_windows_def beamfs_rsv_drop_locked_def rsv_new_window_def Let_def)

lemma rsv_alloc_frame: "only_windows sbi (snd (beamfs_rsv_alloc_locked sbi bm me))"
  by (simp add: beamfs_rsv_alloc_locked_def Let_def)

lemma rsv_alloc_pick:
  assumes "b = fst (beamfs_rsv_alloc_locked sbi bm me)"
  shows "b < s_nblocks sbi \<Longrightarrow> test_bit b bm"
    and "j < s_nblocks sbi \<Longrightarrow> test_bit j bm \<Longrightarrow> b < s_nblocks sbi"
proof -
  let ?fi = "s_rsv sbi me" and ?d = "beamfs_rsv_drop_locked sbi me"
  let ?w = "find_next_bit bm (i_rsv_end ?fi) (i_rsv_next ?fi)"
  let ?g = "if i_last_alloc ?fi \<noteq> 0 then i_last_alloc ?fi + 1 else s_alloc_goal sbi"
  let ?f = "beamfs_rsv_find ?d bm (Some me) ?g"
  consider (win) "b = ?w" "?w < i_rsv_end ?fi" "b < s_nblocks sbi" | (new) "b = ?f True" "b < s_nblocks sbi"
    | (any) "b = ?f False"
    using assms rsv_find_spec(2) [of ?d bm "Some me" ?g False]
    by (auto simp: beamfs_rsv_alloc_locked_def Let_def split: if_splits)
  then have "(b < s_nblocks sbi \<longrightarrow> test_bit b bm) \<and> (j < s_nblocks sbi \<and> test_bit j bm \<longrightarrow> b < s_nblocks sbi)"
  proof cases
    case win
    then show ?thesis using find_next_bit_spec(1) [of bm "i_rsv_end ?fi" "i_rsv_next ?fi"] by simp
  next
    case new
    then show ?thesis using rsv_find_spec(1) [of ?d bm "Some me" ?g True] by (simp add: rsv_open_def)
  next
    case any
    then show ?thesis
      using rsv_find_spec(1) [of ?d bm "Some me" ?g False] rsv_find_spec(3) [of ?d bm "Some me" False j ?g]
      by (simp add: rsv_open_def)
  qed
  then show "b < s_nblocks sbi \<Longrightarrow> test_bit b bm"
    and "j < s_nblocks sbi \<Longrightarrow> test_bit j bm \<Longrightarrow> b < s_nblocks sbi" by auto
qed

lemma alloc_pick_spec:
  shows "only_windows sbi (snd (alloc_pick sbi bm owner))"
    and "fst (alloc_pick sbi bm owner) < s_nblocks sbi \<Longrightarrow> test_bit (fst (alloc_pick sbi bm owner)) bm"
    and "j < s_nblocks sbi \<Longrightarrow> test_bit j bm \<Longrightarrow> fst (alloc_pick sbi bm owner) < s_nblocks sbi"
proof -
  show "only_windows sbi (snd (alloc_pick sbi bm owner))"
    using rsv_alloc_frame [of sbi bm] by (cases owner) (simp_all add: alloc_pick_def Let_def)
  show "fst (alloc_pick sbi bm owner) < s_nblocks sbi \<Longrightarrow> test_bit (fst (alloc_pick sbi bm owner)) bm"
  proof (cases owner)
    case None
    assume "fst (alloc_pick sbi bm owner) < s_nblocks sbi"
    then show ?thesis
      using None rsv_find_spec(1) [of sbi bm None "s_alloc_goal sbi"]
      by (auto simp: alloc_pick_def Let_def rsv_open_def split: if_splits)
  qed (use rsv_alloc_pick(1) [OF refl] in \<open>simp add: alloc_pick_def\<close>)
  show "fst (alloc_pick sbi bm owner) < s_nblocks sbi" if "j < s_nblocks sbi" "test_bit j bm"
  proof (cases owner)
    case None
    then show ?thesis
      using that rsv_find_spec(3) [of sbi bm None False j "s_alloc_goal sbi"]
      by (auto simp: alloc_pick_def Let_def rsv_open_def)
  qed (use rsv_alloc_pick(2) [OF refl that] in \<open>simp add: alloc_pick_def\<close>)
qed

subsection \<open>What the shared steps leave alone\<close>

lemma dirty_super_frame [simp]:
  fixes sbi :: "'a sb_alloc_scheme"
  shows "s_nblocks (beamfs_dirty_super K sbi) = s_nblocks sbi"
    "s_data_start (beamfs_dirty_super K sbi) = s_data_start sbi"
    "s_block_bitmap (beamfs_dirty_super K sbi) = s_block_bitmap sbi"
    "s_free_blocks (beamfs_dirty_super K sbi) = s_free_blocks sbi"
    "s_alloc_goal (beamfs_dirty_super K sbi) = s_alloc_goal sbi"
    "s_ninodes (beamfs_dirty_super K sbi) = s_ninodes sbi"
    "s_inode_bitmap (beamfs_dirty_super K sbi) = s_inode_bitmap sbi"
    "s_free_inodes (beamfs_dirty_super K sbi) = s_free_inodes sbi"
    "s_bitmap_blkhs (beamfs_dirty_super K sbi) = s_bitmap_blkhs sbi"
    "s_bitmap_blocks_count (beamfs_dirty_super K sbi) = s_bitmap_blocks_count sbi"
    "s_rsv_windows (beamfs_dirty_super K sbi) = s_rsv_windows sbi"
    "s_rsv (beamfs_dirty_super K sbi) = s_rsv sbi"
    "s_treecheck (beamfs_dirty_super K sbi) = s_treecheck sbi"
  by (simp_all add: beamfs_dirty_super_def beamfs_dirty_super_now_def beamfs_fail_def Let_def split: option.split)

lemma inode_add_bytes_frame [simp]:
  "s_nblocks (inode_add_bytes ow d sbi) = s_nblocks sbi"
  "s_data_start (inode_add_bytes ow d sbi) = s_data_start sbi"
  "s_block_bitmap (inode_add_bytes ow d sbi) = s_block_bitmap sbi"
  "s_free_blocks (inode_add_bytes ow d sbi) = s_free_blocks sbi"
  "s_alloc_goal (inode_add_bytes ow d sbi) = s_alloc_goal sbi"
  "s_ninodes (inode_add_bytes ow d sbi) = s_ninodes sbi"
  "s_inode_bitmap (inode_add_bytes ow d sbi) = s_inode_bitmap sbi"
  "s_free_inodes (inode_add_bytes ow d sbi) = s_free_inodes sbi"
  "s_bitmap_blkhs (inode_add_bytes ow d sbi) = s_bitmap_blkhs sbi"
  "s_bitmap_blocks_count (inode_add_bytes ow d sbi) = s_bitmap_blocks_count sbi"
  "s_rsv_windows (inode_add_bytes ow d sbi) = s_rsv_windows sbi"
  "s_treecheck (inode_add_bytes ow d sbi) = s_treecheck sbi"
  "s_beamfs_sb (inode_add_bytes ow d sbi) = s_beamfs_sb sbi"
  "s_failed (inode_add_bytes ow d sbi) = s_failed sbi"
  "i_rsv_start (s_rsv (inode_add_bytes ow d sbi) i) = i_rsv_start (s_rsv sbi i)"
  "i_rsv_end (s_rsv (inode_add_bytes ow d sbi) i) = i_rsv_end (s_rsv sbi i)"
  "i_rsv_next (s_rsv (inode_add_bytes ow d sbi) i) = i_rsv_next (s_rsv sbi i)"
  by (auto simp: inode_add_bytes_def split: option.split)

lemma write_bitmap_frame [simp]:
  "s_nblocks (snd (beamfs_write_bitmap_block K sbi b)) = s_nblocks sbi"
  "s_data_start (snd (beamfs_write_bitmap_block K sbi b)) = s_data_start sbi"
  "s_block_bitmap (snd (beamfs_write_bitmap_block K sbi b)) = s_block_bitmap sbi"
  "s_free_blocks (snd (beamfs_write_bitmap_block K sbi b)) = s_free_blocks sbi"
  "s_alloc_goal (snd (beamfs_write_bitmap_block K sbi b)) = s_alloc_goal sbi"
  "s_ninodes (snd (beamfs_write_bitmap_block K sbi b)) = s_ninodes sbi"
  "s_inode_bitmap (snd (beamfs_write_bitmap_block K sbi b)) = s_inode_bitmap sbi"
  "s_free_inodes (snd (beamfs_write_bitmap_block K sbi b)) = s_free_inodes sbi"
  "s_bitmap_blocks_count (snd (beamfs_write_bitmap_block K sbi b)) = s_bitmap_blocks_count sbi"
  "s_rsv_windows (snd (beamfs_write_bitmap_block K sbi b)) = s_rsv_windows sbi"
  "s_rsv (snd (beamfs_write_bitmap_block K sbi b)) = s_rsv sbi"
  "s_treecheck (snd (beamfs_write_bitmap_block K sbi b)) = s_treecheck sbi"
  "s_beamfs_sb (snd (beamfs_write_bitmap_block K sbi b)) = s_beamfs_sb sbi"
  by (auto simp: beamfs_write_bitmap_block_def beamfs_fail_def Let_def split: option.split)

lemma only_windows_frame:
  assumes "only_windows sbi sbi'"
  shows "s_nblocks sbi' = s_nblocks sbi" "s_data_start sbi' = s_data_start sbi"
    "s_block_bitmap sbi' = s_block_bitmap sbi" "s_free_blocks sbi' = s_free_blocks sbi"
    "s_alloc_goal sbi' = s_alloc_goal sbi" "s_beamfs_sb sbi' = s_beamfs_sb sbi" "s_sbh sbi' = s_sbh sbi"
    "s_failed sbi' = s_failed sbi" "s_bitmap_blkhs sbi' = s_bitmap_blkhs sbi"
    "s_bitmap_blocks_count sbi' = s_bitmap_blocks_count sbi" "s_treecheck sbi' = s_treecheck sbi"
  using assms by (metis only_windows_def sb_alloc.update_convs sb_alloc.select_convs
      sb_alloc.surjective beamfs_sb_info.select_convs)+

subsection \<open>The invariant\<close>

text \<open>The bitmap covers the data region, the counter counts its set bits and the copy of the
  superblock carries the counter. Block 0 is the superblock, so the data region starts above it.\<close>

definition alloc_inv :: "'a sb_alloc_scheme \<Rightarrow> bool" where
  "alloc_inv sbi \<longleftrightarrow> (\<exists>bm. s_block_bitmap sbi = Some bm \<and> length bm = s_nblocks sbi
       \<and> s_free_blocks sbi = count_list bm True)
     \<and> 0 < s_data_start sbi \<and> length (s_beamfs_sb sbi) = 4096
     \<and> sb_free_blocks (s_beamfs_sb sbi) = word_of_nat (s_free_blocks sbi)"

lemma count_list_update_True:
  "b < length bm \<Longrightarrow> bm ! b \<Longrightarrow> count_list bm True = Suc (count_list (bm[b := False]) True)"
proof (induction bm arbitrary: b)
  case (Cons a bm)
  then show ?case by (cases b) auto
qed simp

lemma count_list_update_False:
  "b < length bm \<Longrightarrow> \<not> bm ! b \<Longrightarrow> count_list (bm[b := True]) True = Suc (count_list bm True)"
proof (induction bm arbitrary: b)
  case (Cons a bm)
  then show ?case by (cases b) auto
qed simp

lemma dirty_super_le64:
  assumes "length (s_beamfs_sb sbi) = 4096" "off + 8 \<le> 64"
  shows "get_le64 off (s_beamfs_sb (beamfs_dirty_super K sbi)) = get_le64 off (s_beamfs_sb sbi)"
proof -
  have "get_bytes off 8 (s_beamfs_sb (beamfs_dirty_super K sbi)) = get_bytes off 8 (s_beamfs_sb sbi)"
    by (rule nth_equalityI) (use assms dirty_super_sb [OF assms(1), where K = K] in \<open>auto simp: nth_get_bytes\<close>)
  then show ?thesis by (simp add: get_le64_def)
qed

lemma count_list_pos: "0 < count_list bm True \<Longrightarrow> \<exists>j < length bm. test_bit j bm"
  by (metis count_list_0_iff gr_implies_not0 in_set_conv_nth test_bit_def)

lemma alloc_block_taken:
  fixes owner :: "ino option" and K :: kenv
  assumes inv: "alloc_inv sbi" and ok: "\<not> s_failed sbi" and bm: "s_block_bitmap sbi = Some bm"
    and free: "s_free_blocks sbi \<noteq> 0"
  defines "b \<equiv> fst (alloc_pick sbi bm owner)" and "res \<equiv> beamfs_alloc_block K sbi owner"
  shows "b < s_nblocks sbi" "bm ! b" "fst res = s_data_start sbi + b"
    and "s_block_bitmap (snd res) = Some (bm[b := False])" "s_free_blocks (snd res) = s_free_blocks sbi - 1"
    and "s_nblocks (snd res) = s_nblocks sbi" "s_data_start (snd res) = s_data_start sbi"
    and "s_rsv_windows (snd res) = s_rsv_windows (snd (alloc_pick sbi bm owner))"
    and "i_rsv_start (s_rsv (snd res) i) = i_rsv_start (s_rsv (snd (alloc_pick sbi bm owner)) i)"
    and "i_rsv_end (s_rsv (snd res) i) = i_rsv_end (s_rsv (snd (alloc_pick sbi bm owner)) i)"
    and "i_rsv_next (s_rsv (snd res) i) = i_rsv_next (s_rsv (snd (alloc_pick sbi bm owner)) i)"
    and "length (s_beamfs_sb (snd res)) = 4096"
    and "sb_free_blocks (s_beamfs_sb (snd res)) = word_of_nat (s_free_blocks sbi - 1)"
proof -
  have len: "length bm = s_nblocks sbi" "0 < count_list bm True" "length (s_beamfs_sb sbi) = 4096"
    using inv bm free by (auto simp: alloc_inv_def)
  obtain j where "j < s_nblocks sbi" "test_bit j bm" using count_list_pos len by metis
  then show b: "b < s_nblocks sbi" using alloc_pick_spec(3) by (auto simp: b_def)
  then show bit: "bm ! b" using alloc_pick_spec(2) [of sbi bm owner] by (auto simp: b_def test_bit_def)
  define p where "p = snd (alloc_pick sbi bm owner)"
  have pick: "alloc_pick sbi bm owner = (b, p)" by (simp add: b_def p_def)
  note pf = only_windows_frame [OF alloc_pick_spec(1) [of sbi bm owner], folded p_def]
  let ?s = "p\<lparr>s_alloc_goal := (if b + 1 \<ge> s_nblocks p then 0 else b + 1), s_block_bitmap := Some (bm[b := False]),
    s_free_blocks := s_free_blocks p - 1, s_beamfs_sb := put_le64 16 (word_of_nat (s_free_blocks p - 1)) (s_beamfs_sb p)\<rparr>"
  let ?d = "inode_add_bytes owner 4096 (beamfs_dirty_super K ?s)"
  have res: "res = (s_data_start sbi + b, snd (beamfs_write_bitmap_block K ?d b))"
    using ok bm free b pick pf by (simp add: res_def beamfs_alloc_block_def Let_def case_prod_unfold)
  show "fst res = s_data_start sbi + b" "s_block_bitmap (snd res) = Some (bm[b := False])"
    "s_free_blocks (snd res) = s_free_blocks sbi - 1" "s_nblocks (snd res) = s_nblocks sbi"
    "s_data_start (snd res) = s_data_start sbi"
    "s_rsv_windows (snd res) = s_rsv_windows (snd (alloc_pick sbi bm owner))"
    "i_rsv_start (s_rsv (snd res) i) = i_rsv_start (s_rsv (snd (alloc_pick sbi bm owner)) i)"
    "i_rsv_end (s_rsv (snd res) i) = i_rsv_end (s_rsv (snd (alloc_pick sbi bm owner)) i)"
    "i_rsv_next (s_rsv (snd res) i) = i_rsv_next (s_rsv (snd (alloc_pick sbi bm owner)) i)"
    using res pf by (simp_all add: p_def)
  have l: "length (s_beamfs_sb ?s) = 4096" using pf len by simp
  then show "length (s_beamfs_sb (snd res)) = 4096" using res dirty_super_sb(1) [OF l] by simp
  show "sb_free_blocks (s_beamfs_sb (snd res)) = word_of_nat (s_free_blocks sbi - 1)"
    using res dirty_super_le64 [OF l, of 16 K] pf len by (simp add: sb_free_blocks_def)
qed

lemma alloc_block_none:
  assumes "alloc_inv sbi" "s_failed sbi \<or> s_free_blocks sbi = 0"
  shows "beamfs_alloc_block K sbi owner = (0, sbi)"
  using assms by (auto simp: beamfs_alloc_block_def alloc_inv_def)

lemma alloc_block_inv:
  assumes "alloc_inv sbi"
  shows "alloc_inv (snd (beamfs_alloc_block K sbi owner))"
proof (cases "s_failed sbi \<or> s_free_blocks sbi = 0")
  case True
  then show ?thesis using assms alloc_block_none [OF assms] by simp
next
  case False
  obtain bm where bm: "s_block_bitmap sbi = Some bm" "length bm = s_nblocks sbi" "s_free_blocks sbi = count_list bm True"
    using assms by (auto simp: alloc_inv_def)
  note t = alloc_block_taken(1,2) [OF assms _ bm(1), where owner = owner]
    alloc_block_taken(3-8,12,13) [OF assms _ bm(1), where owner = owner and K = K]
  show ?thesis
    using False t bm assms count_list_update_True [of "fst (alloc_pick sbi bm owner)" bm]
    by (auto simp: alloc_inv_def)
qed

lemma free_block_taken:
  fixes owner :: "ino option" and K :: kenv
  assumes inv: "alloc_inv sbi" and ok: "\<not> s_failed sbi" and bm: "s_block_bitmap sbi = Some bm"
    and b: "b < s_nblocks sbi" "\<not> bm ! b"
  defines "sbi' \<equiv> beamfs_free_block K sbi (s_data_start sbi + b) owner"
  shows "s_block_bitmap sbi' = Some (bm[b := True])" "s_free_blocks sbi' = s_free_blocks sbi + 1"
    and "s_nblocks sbi' = s_nblocks sbi" "s_data_start sbi' = s_data_start sbi"
    and "length (s_beamfs_sb sbi') = 4096" "sb_free_blocks (s_beamfs_sb sbi') = word_of_nat (s_free_blocks sbi + 1)"
    and "s_treecheck sbi' = beamfs_tc_forget_parent (word_of_nat (s_data_start sbi + b))
           (beamfs_tc_forget_child (word_of_nat (s_data_start sbi + b)) (s_treecheck sbi))"
proof -
  have len: "length bm = s_nblocks sbi" "length (s_beamfs_sb sbi) = 4096"
    using inv bm by (auto simp: alloc_inv_def)
  let ?blk = "s_data_start sbi + b"
  let ?s = "sbi\<lparr>s_alloc_goal := (if b < s_alloc_goal sbi then b else s_alloc_goal sbi),
    s_block_bitmap := Some (bm[b := True]), s_free_blocks := s_free_blocks sbi + 1,
    s_beamfs_sb := put_le64 16 (word_of_nat (s_free_blocks sbi + 1)) (s_beamfs_sb sbi)\<rparr>"
  let ?d = "inode_add_bytes owner (- 4096) (beamfs_dirty_super K ?s)"
  let ?t = "?d\<lparr>s_treecheck := beamfs_tc_forget_parent (word_of_nat ?blk) (beamfs_tc_forget_child (word_of_nat ?blk) (s_treecheck ?d))\<rparr>"
  have res: "sbi' = snd (beamfs_write_bitmap_block K ?t b)"
  proof (cases "b < s_alloc_goal sbi")
    case True
    then show ?thesis
      using ok bm b len by (simp add: sbi'_def beamfs_free_block_def Let_def test_bit_def)
  next
    case False
    then have "sbi\<lparr>s_alloc_goal := (if b < s_alloc_goal sbi then b else s_alloc_goal sbi)\<rparr> = sbi" by simp
    then show ?thesis
      using False ok bm b len by (simp add: sbi'_def beamfs_free_block_def Let_def test_bit_def)
  qed
  show "s_block_bitmap sbi' = Some (bm[b := True])" "s_free_blocks sbi' = s_free_blocks sbi + 1"
    "s_nblocks sbi' = s_nblocks sbi" "s_data_start sbi' = s_data_start sbi"
    "s_treecheck sbi' = beamfs_tc_forget_parent (word_of_nat ?blk)
           (beamfs_tc_forget_child (word_of_nat ?blk) (s_treecheck sbi))"
    using res by simp_all
  have l: "length (s_beamfs_sb ?s) = 4096" using len by simp
  show "length (s_beamfs_sb sbi') = 4096" using res dirty_super_sb(1) [OF l] by simp
  show "sb_free_blocks (s_beamfs_sb sbi') = word_of_nat (s_free_blocks sbi + 1)"
    using res dirty_super_le64 [OF l, of 16 K] len by (simp add: sb_free_blocks_def)
qed

text \<open>Everything else \<open>beamfs_free_block\<close> is given leaves the state as it was.\<close>

lemma free_block_other:
  assumes "alloc_inv sbi"
    and "s_failed sbi \<or> block < s_data_start sbi \<or> s_data_start sbi + s_nblocks sbi \<le> block
      \<or> \<not> beamfs_block_is_allocated sbi block"
  shows "beamfs_free_block K sbi block owner = sbi"
  using assms by (auto simp: beamfs_free_block_def beamfs_block_is_allocated_def alloc_inv_def Let_def)

lemma free_block_cases:
  assumes "alloc_inv sbi"
  obtains (same) "beamfs_free_block K sbi block owner = sbi"
    "s_failed sbi \<or> block < s_data_start sbi \<or> s_data_start sbi + s_nblocks sbi \<le> block
      \<or> \<not> beamfs_block_is_allocated sbi block"
  | (freed) bm b where "\<not> s_failed sbi" "s_block_bitmap sbi = Some bm" "b < s_nblocks sbi" "\<not> bm ! b"
    "block = s_data_start sbi + b"
proof (cases "s_failed sbi \<or> block < s_data_start sbi \<or> s_data_start sbi + s_nblocks sbi \<le> block
      \<or> \<not> beamfs_block_is_allocated sbi block")
  case True
  then show thesis using same free_block_other [OF assms] by simp
next
  case False
  obtain bm where "s_block_bitmap sbi = Some bm" "length bm = s_nblocks sbi" using assms by (auto simp: alloc_inv_def)
  with False show thesis
    using freed [of bm "block - s_data_start sbi"]
    by (auto simp: beamfs_block_is_allocated_def test_bit_def Let_def split: if_splits)
qed

lemma free_block_inv:
  assumes "alloc_inv sbi"
  shows "alloc_inv (beamfs_free_block K sbi block owner)"
proof (rule free_block_cases [OF assms, of K block owner])
  fix bm b assume f: "\<not> s_failed sbi" "s_block_bitmap sbi = Some bm" "b < s_nblocks sbi" "\<not> bm ! b"
    "block = s_data_start sbi + b"
  note t = free_block_taken [OF assms f(1-4), where owner = owner and K = K, folded f(5)]
  show ?thesis
    using t assms f count_list_update_False [of b bm] by (auto simp: alloc_inv_def)
qed (use assms in simp)

text \<open>The allocated blocks after each operation.\<close>

lemma is_allocated_update:
  assumes "s_block_bitmap sbi = Some bm" "length bm = s_nblocks sbi" "b < s_nblocks sbi"
    and "s_block_bitmap sbi' = Some (bm[b := v])" "s_nblocks sbi' = s_nblocks sbi" "s_data_start sbi' = s_data_start sbi"
  shows "beamfs_block_is_allocated sbi' x =
    (if x = s_data_start sbi + b then \<not> v else beamfs_block_is_allocated sbi x)"
  using assms by (auto simp: beamfs_block_is_allocated_def test_bit_def nth_list_update Let_def)

lemma alloc_block_allocated:
  assumes "alloc_inv sbi" "fst (beamfs_alloc_block K sbi owner) \<noteq> 0"
  shows "\<not> beamfs_block_is_allocated sbi (fst (beamfs_alloc_block K sbi owner))"
    and "beamfs_block_is_allocated (snd (beamfs_alloc_block K sbi owner)) x \<longleftrightarrow>
      x = fst (beamfs_alloc_block K sbi owner) \<or> beamfs_block_is_allocated sbi x"
proof -
  have ok: "\<not> s_failed sbi" "s_free_blocks sbi \<noteq> 0" using alloc_block_none [OF assms(1), of K owner] assms(2) by fastforce+
  obtain bm where bm: "s_block_bitmap sbi = Some bm" "length bm = s_nblocks sbi" using assms by (auto simp: alloc_inv_def)
  note t = alloc_block_taken(1,2) [OF assms(1) ok(1) bm(1) ok(2), where owner = owner]
    alloc_block_taken(3-8,12,13) [OF assms(1) ok(1) bm(1) ok(2), where owner = owner and K = K]
  show "\<not> beamfs_block_is_allocated sbi (fst (beamfs_alloc_block K sbi owner))"
    using t bm by (simp add: beamfs_block_is_allocated_def test_bit_def)
  show "beamfs_block_is_allocated (snd (beamfs_alloc_block K sbi owner)) x \<longleftrightarrow>
      x = fst (beamfs_alloc_block K sbi owner) \<or> beamfs_block_is_allocated sbi x"
    using is_allocated_update [OF bm t(1,4,6,7), of x] t(3) by auto
qed

lemma free_block_allocated:
  assumes "alloc_inv sbi" "\<not> s_failed sbi" "s_data_start sbi \<le> block" "block < s_data_start sbi + s_nblocks sbi"
  shows "beamfs_block_is_allocated (beamfs_free_block K sbi block owner) x \<longleftrightarrow>
      x \<noteq> block \<and> beamfs_block_is_allocated sbi x"
proof (rule free_block_cases [OF assms(1), of K block owner])
  assume "beamfs_free_block K sbi block owner = sbi" "s_failed sbi \<or> block < s_data_start sbi \<or>
    s_data_start sbi + s_nblocks sbi \<le> block \<or> \<not> beamfs_block_is_allocated sbi block"
  then show ?thesis using assms by auto
next
  fix bm b assume f: "\<not> s_failed sbi" "s_block_bitmap sbi = Some bm" "b < s_nblocks sbi" "\<not> bm ! b"
    "block = s_data_start sbi + b"
  note t = free_block_taken [OF assms(1) f(1-4), where owner = owner and K = K, folded f(5)]
  have "length bm = s_nblocks sbi" using assms(1) f(2) by (simp add: alloc_inv_def)
  then show ?thesis using is_allocated_update [OF f(2) _ f(3) t(1,3,4), of x] f(5) by simp
qed

subsection \<open>Windows\<close>

text \<open>The windows on the list are pairwise disjoint, nobody off the list has one, and the next block
  of a window is not before it.\<close>

definition rsv_ok :: "'a sb_alloc_scheme \<Rightarrow> bool" where
  "rsv_ok sbi \<longleftrightarrow> distinct (s_rsv_windows sbi)
     \<and> (\<forall>i. i \<notin> set (s_rsv_windows sbi) \<longrightarrow> i_rsv_end (s_rsv sbi i) = 0)
     \<and> (\<forall>i \<in> set (s_rsv_windows sbi). i_rsv_start (s_rsv sbi i) \<le> i_rsv_next (s_rsv sbi i))
     \<and> (\<forall>i j b. i \<noteq> j \<and> in_window sbi i b \<longrightarrow> \<not> in_window sbi j b)"

lemma rsv_next_start_spec:
  shows "beamfs_rsv_next_start sbi me b \<le> s_nblocks sbi"
    and "i \<in> set (s_rsv_windows sbi) \<Longrightarrow> Some i \<noteq> me \<Longrightarrow> b \<le> i_rsv_start (s_rsv sbi i) \<Longrightarrow>
      beamfs_rsv_next_start sbi me b \<le> i_rsv_start (s_rsv sbi i)"
proof -
  let ?f = "\<lambda>o' lim. if Some o' = me then lim
     else if i_rsv_start (s_rsv sbi o') \<ge> b \<and> i_rsv_start (s_rsv sbi o') < lim
     then i_rsv_start (s_rsv sbi o') else lim"
  have mono: "fold ?f os lim \<le> lim" for os lim
  proof (induction os arbitrary: lim)
    case (Cons o' os)
    have "?f o' lim \<le> lim" by simp
    then show ?case using Cons.IH [of "?f o' lim"] by (simp only: fold.simps o_apply)
  qed simp
  then show "beamfs_rsv_next_start sbi me b \<le> s_nblocks sbi" by (simp add: beamfs_rsv_next_start_def)
  have "i \<in> set os \<Longrightarrow> Some i \<noteq> me \<Longrightarrow> b \<le> i_rsv_start (s_rsv sbi i) \<Longrightarrow>
      fold ?f os lim \<le> i_rsv_start (s_rsv sbi i)" for os lim
  proof (induction os arbitrary: lim)
    case (Cons o' os)
    show ?case
    proof (cases "i \<in> set os")
      case False
      then have "?f o' lim \<le> i_rsv_start (s_rsv sbi i)" using Cons.prems by auto
      then show ?thesis using mono [of os "?f o' lim"] by (simp only: fold.simps o_apply)
    next
      case True
      then show ?thesis using Cons by simp
    qed
  qed simp
  then show "i \<in> set (s_rsv_windows sbi) \<Longrightarrow> Some i \<noteq> me \<Longrightarrow> b \<le> i_rsv_start (s_rsv sbi i) \<Longrightarrow>
      beamfs_rsv_next_start sbi me b \<le> i_rsv_start (s_rsv sbi i)"
    by (simp add: beamfs_rsv_next_start_def)
qed

lemma rsv_drop_ok:
  assumes "rsv_ok sbi"
  shows "rsv_ok (beamfs_rsv_drop_locked sbi me)" "me \<notin> set (s_rsv_windows (beamfs_rsv_drop_locked sbi me))"
    and "in_window (beamfs_rsv_drop_locked sbi me) i b \<longleftrightarrow> i \<noteq> me \<and> in_window sbi i b"
  using assms by (auto simp: rsv_ok_def in_window_def beamfs_rsv_drop_locked_def)

lemma rsv_new_window_ok:
  assumes ok: "rsv_ok sbi" "me \<notin> set (s_rsv_windows sbi)" and b: "b < s_nblocks sbi"
    and out: "\<forall>i \<in> set (s_rsv_windows sbi). Some i \<noteq> Some me \<longrightarrow> \<not> in_window sbi i b"
    and size: "0 < i_rsv_size (s_rsv sbi me)"
  shows "rsv_ok (rsv_new_window sbi me ex b) \<and> in_window (rsv_new_window sbi me ex b) me b"
proof -
  let ?s = "rsv_new_window sbi me ex b"
  have others: "s_rsv ?s i = s_rsv sbi i" if "i \<noteq> me" for i
    using that by (simp add: rsv_new_window_def Let_def)
  have me: "i_rsv_start (s_rsv ?s me) = b" "i_rsv_next (s_rsv ?s me) = b + 1"
    "i_rsv_end (s_rsv ?s me) \<le> beamfs_rsv_next_start sbi (Some me) (b + 1)"
    by (simp_all add: rsv_new_window_def Let_def)
  have end': "b < beamfs_rsv_next_start sbi (Some me) (b + 1)"
  proof -
    let ?f = "\<lambda>o' lim. if Some o' = Some me then lim
       else if i_rsv_start (s_rsv sbi o') \<ge> b + 1 \<and> i_rsv_start (s_rsv sbi o') < lim
       then i_rsv_start (s_rsv sbi o') else lim"
    have "b < lim \<Longrightarrow> b < fold ?f os lim" for os lim
      by (induction os arbitrary: lim) auto
    from this [OF b, of "s_rsv_windows sbi"] show ?thesis unfolding beamfs_rsv_next_start_def .
  qed
  have win: "in_window ?s me b"
    using b end' size by (simp add: in_window_def rsv_new_window_def Let_def)
  have disj: "\<not> in_window sbi i x" if "i \<noteq> me" "in_window ?s me x" for i x
  proof
    assume i: "in_window sbi i x"
    then have mem: "i \<in> set (s_rsv_windows sbi)" using ok(1) by (auto simp: rsv_ok_def in_window_def)
    have x: "b \<le> x" "x < i_rsv_end (s_rsv ?s me)" using that(2) me(1) by (simp_all add: in_window_def)
    show False
    proof (cases "i_rsv_start (s_rsv sbi i) \<le> b")
      case True
      then show ?thesis using out mem i x(1) that(1) by (auto simp: in_window_def)
    next
      case False
      then have "beamfs_rsv_next_start sbi (Some me) (b + 1) \<le> i_rsv_start (s_rsv sbi i)"
        using rsv_next_start_spec(2) [OF mem] that(1) by simp
      then show ?thesis using x(2) me(3) i by (simp add: in_window_def)
    qed
  qed
  have iw: "in_window ?s i x = in_window sbi i x" if "i \<noteq> me" for i x
    using others [OF that] by (simp add: in_window_def)
  have lst: "s_rsv_windows ?s = me # s_rsv_windows sbi" by (simp add: rsv_new_window_def Let_def)
  have "\<not> in_window ?s j x" if "i \<noteq> j" "in_window ?s i x" for i j x
  proof (cases "i = me")
    case True
    then show ?thesis using that disj [of j x] iw [of j x] by simp
  next
    case False
    have "\<not> in_window sbi j x" using ok(1) that iw [OF False] by (auto simp: rsv_ok_def)
    moreover have "j = me \<Longrightarrow> \<not> in_window ?s me x" using disj [OF False, of x] that(2) iw [OF False] by blast
    ultimately show ?thesis using iw [of j x] by blast
  qed
  moreover have "i_rsv_start (s_rsv ?s i) \<le> i_rsv_next (s_rsv ?s i)" if "i \<in> set (s_rsv_windows ?s)" for i
    using that lst me others [of i] ok(1) by (cases "i = me") (auto simp: rsv_ok_def)
  ultimately have "rsv_ok ?s" using ok lst others by (auto simp: rsv_ok_def)
  then show ?thesis using win by simp
qed

lemma rsv_alloc_ok:
  assumes ok: "rsv_ok sbi" and room: "rsv_open sbi bm (Some me) True j"
    and size: "0 < i_rsv_size (s_rsv sbi me)"
  defines "res \<equiv> beamfs_rsv_alloc_locked sbi bm me"
  shows "rsv_ok (snd res) \<and> in_window (snd res) me (fst res)"
proof -
  let ?fi = "s_rsv sbi me" and ?d = "beamfs_rsv_drop_locked sbi me"
  let ?w = "find_next_bit bm (i_rsv_end ?fi) (i_rsv_next ?fi)"
  let ?g = "if i_last_alloc ?fi \<noteq> 0 then i_last_alloc ?fi + 1 else s_alloc_goal sbi"
  let ?b = "beamfs_rsv_find ?d bm (Some me) ?g True"
  show ?thesis
  proof (cases "i_rsv_next ?fi < i_rsv_end ?fi \<and> ?w < i_rsv_end ?fi \<and> ?w < s_nblocks sbi")
    case True
    then have res: "res = (?w, sbi\<lparr>s_rsv := (s_rsv sbi)(me := ?fi\<lparr>i_rsv_next := ?w + 1, i_last_alloc := ?w\<rparr>)\<rparr>)"
      by (simp add: res_def beamfs_rsv_alloc_locked_def Let_def)
    have iw: "in_window (snd res) i b = in_window sbi i b" for i b using res by (simp add: in_window_def)
    have mem: "me \<in> set (s_rsv_windows sbi)" using True ok by (force simp: rsv_ok_def)
    have w: "i_rsv_next ?fi \<le> ?w" using True find_next_bit_spec(1) [of bm "i_rsv_end ?fi"] by blast
    have "i_rsv_start ?fi \<le> i_rsv_next ?fi" using ok mem by (simp add: rsv_ok_def)
    then have "in_window sbi me ?w" "i_rsv_start ?fi \<le> Suc ?w" using w True by (auto simp: in_window_def)
    moreover have "rsv_ok (snd res)"
      using ok res \<open>i_rsv_start ?fi \<le> Suc ?w\<close> unfolding rsv_ok_def iw by simp
    ultimately show ?thesis using res iw by simp
  next
    case False
    have d: "rsv_ok ?d" "me \<notin> set (s_rsv_windows ?d)" using rsv_drop_ok [OF ok] by auto
    have "rsv_open ?d bm (Some me) True j"
      using room rsv_drop_ok(3) [OF ok, of me] notin_set_remove1 [of _ "s_rsv_windows sbi" me]
      by (auto simp: rsv_open_def beamfs_rsv_drop_locked_def)
    then have b: "?b < s_nblocks sbi" using rsv_find_spec(3) [of ?d] by simp
    then have op: "rsv_open ?d bm (Some me) True ?b" using rsv_find_spec(1) [of ?d bm] by simp
    have res: "res = (?b, rsv_new_window ?d me (i_rsv_end ?fi \<noteq> 0 \<and> i_rsv_next ?fi \<ge> i_rsv_end ?fi) ?b)"
      using False b by (auto simp: res_def beamfs_rsv_alloc_locked_def Let_def)
    have sz: "0 < i_rsv_size (s_rsv ?d me)" using size by (simp add: beamfs_rsv_drop_locked_def)
    have "\<forall>i \<in> set (s_rsv_windows ?d). Some i \<noteq> Some me \<longrightarrow> \<not> in_window ?d i ?b"
      using op by (simp add: rsv_open_def)
    then show ?thesis
      using rsv_new_window_ok [OF d _ _ sz, of ?b] b res by simp
  qed
qed

subsection \<open>The image on disk\<close>

text \<open>The unused codewords of a bitmap block are left zero, data and parity, so the allocator relies
  on one more fact of the library: zero data has zero parity.\<close>

locale bitmap_lib = kernel_lib +
  assumes encode_zero: "encode_rs8 (k_rs K) (replicate 239 0) = replicate 16 0"

lemma peval_zeros: "peval (replicate n 0) x = 0"
  by (induction n) simp_all

lemma encode_subblock_zero: "n \<le> 239 \<Longrightarrow> rs_encode_subblock beam_codec (replicate n 0) = replicate 16 0"
  by (rule codeword_parity [symmetric])
    (auto simp: rs_codeword_def word_at_def map_replicate_const replicate_add [symmetric] peval_zeros)

interpretation bport: bitmap_lib port_kenv
  by (rule bitmap_lib.intro [OF kport.kernel_lib_axioms], unfold_locales)
    (simp add: port_kenv_def port_env_def encode_subblock_zero)

definition bitmap_sub_ok :: "kenv \<Rightarrow> bool list \<Rightarrow> nat \<Rightarrow> nat \<Rightarrow> byte list \<Rightarrow> bool" where
  "bitmap_sub_ok K bm k i bdata \<longleftrightarrow>
     get_bytes (i * 255) 239 bdata = bitmap_bytes bm (k * 3824 + i * 239) 239
     \<and> get_bytes (i * 255 + 239) 16 bdata = rs_library.parity (k_rs K) (bitmap_bytes bm (k * 3824 + i * 239) 239)"

lemma bit_bitmap_byte: "t < 8 \<Longrightarrow> bit (bitmap_byte bm j) t \<longleftrightarrow> test_bit (8 * j + t) bm"
proof -
  have "bit (fold (\<lambda>b w. if test_bit (8 * j + b) bm then w OR push_bit b 1 else w) bs (w :: byte)) t
      \<longleftrightarrow> bit w t \<or> (t \<in> set bs \<and> test_bit (8 * j + t) bm)" if "t < 8" for bs w
    using that by (induction bs arbitrary: w) (auto simp: bit_simps)
  then show "t < 8 \<Longrightarrow> bit (bitmap_byte bm j) t \<longleftrightarrow> test_bit (8 * j + t) bm"
    by (simp add: bitmap_byte_def)
qed

lemma bitmap_byte_beyond: "length bm \<le> 8 * j \<Longrightarrow> bitmap_byte bm j = 0"
  by (rule bit_eqI) (auto simp: bit_bitmap_byte test_bit_def)

lemma bitmap_byte_update:
  "\<not> (8 * j \<le> b \<and> b < 8 * j + 8) \<Longrightarrow> bitmap_byte (bm[b := v]) j = bitmap_byte bm j"
  by (rule bit_eqI) (auto simp: bit_bitmap_byte test_bit_def)

lemma length_bitmap_bytes [simp]: "length (bitmap_bytes bm j n) = n"
  by (simp add: bitmap_bytes_def)

lemma nth_bitmap_bytes [simp]: "m < n \<Longrightarrow> bitmap_bytes bm j n ! m = bitmap_byte bm (j + m)"
  by (simp add: bitmap_bytes_def)

text \<open>What the encoder copies, the last partial codeword padded with zeros, is a plain slice.\<close>

lemma bitmap_sub_data:
  assumes "length bm = n" "i < 16" "bit0 = k * 30592 + i * 1912" "lst = min (k * 30592 + 30592) n"
    and "nbytes = min 239 ((lst - bit0 + 7) div 8)"
  shows "bitmap_bytes bm (bit0 div 8) nbytes @ replicate (239 - nbytes) 0 = bitmap_bytes bm (k * 3824 + i * 239) 239"
proof (rule nth_equalityI)
  fix m assume "m < length (bitmap_bytes bm (bit0 div 8) nbytes @ replicate (239 - nbytes) 0)"
  then have m: "m < 239" using assms(5) by simp
  have b0: "bit0 div 8 = k * 3824 + i * 239" using assms(3) by simp
  show "(bitmap_bytes bm (bit0 div 8) nbytes @ replicate (239 - nbytes) 0) ! m
      = bitmap_bytes bm (k * 3824 + i * 239) 239 ! m"
  proof (cases "m < nbytes")
    case True
    then show ?thesis using m b0 by (simp add: nth_append)
  next
    case False
    then have "lst - bit0 \<le> 8 * m" using m assms(5) by simp
    then have "length bm \<le> 8 * (k * 3824 + i * 239 + m)" using assms(1-4) m by (simp add: min_def split: if_splits)
    then show ?thesis using False m by (simp add: nth_append bitmap_byte_beyond)
  qed
qed (use assms in simp)

context bitmap_lib
begin

lemma parity_zero: "parity (replicate 239 0) = replicate 16 0"
  by (simp add: parity_def encode_zero)

lemma encode_one_region:
  assumes "length buf = 4096" "i < 16"
  shows "\<exists>c. beamfs_rs_encode_region (k_rs K) buf (i * 255) 255 (i * 255 + 239) 255 239 1 = (None, c)
    \<and> length c = 4096 \<and> get_bytes (i * 255) 239 c = get_bytes (i * 255) 239 buf
    \<and> get_bytes (i * 255 + 239) 16 c = parity (get_bytes (i * 255) 239 buf)
    \<and> (\<forall>m < 4096. m < i * 255 + 239 \<or> (i + 1) * 255 \<le> m \<longrightarrow> c ! m = buf ! m)"
proof -
  have l: "i * 255 + 255 \<le> length buf" using assms by simp
  let ?d = "get_bytes (i * 255) 239 buf"
  have "beamfs_rs_encode (k_rs K) ?d = Inr (parity ?d)" using l by (intro encode_ok) simp
  then have "beamfs_rs_encode_region (k_rs K) buf (i * 255) 255 (i * 255 + 239) 255 239 1
      = (None, put_bytes (i * 255 + 239) (parity ?d) buf)"
    by (simp add: beamfs_rs_encode_region_def)
  moreover have p: "length (parity ?d) = 16" using l by (intro length_parity) simp_all
  moreover have "get_bytes (i * 255) 239 (put_bytes (i * 255 + 239) (parity ?d) buf) = ?d"
    using l p by (intro get_put_other) auto
  moreover have "get_bytes (i * 255 + 239) 16 (put_bytes (i * 255 + 239) (parity ?d) buf) = parity ?d"
    using get_put_same [of "i * 255 + 239" "parity ?d" buf] l p by simp
  moreover have "\<forall>m < 4096. m < i * 255 + 239 \<or> (i + 1) * 255 \<le> m \<longrightarrow> put_bytes (i * 255 + 239) (parity ?d) buf ! m = buf ! m"
    using l p assms(1) by (auto simp: nth_put_bytes)
  ultimately show ?thesis using assms l by auto
qed

lemma encode_step_spec:
  assumes "length bdata = 4096" "length bm = n" "i < 16"
  shows "length (bitmap_encode_step K bm n k i bdata) = 4096"
    and "m < 4096 \<Longrightarrow> m < i * 255 \<or> (i + 1) * 255 \<le> m \<Longrightarrow> bitmap_encode_step K bm n k i bdata ! m = bdata ! m"
    and "k * 30592 + i * 1912 < n \<or> get_bytes (i * 255 + 239) 16 bdata = replicate 16 0 \<Longrightarrow>
      bitmap_sub_ok K bm k i (bitmap_encode_step K bm n k i bdata)"
proof -
  define last where "last = min (k * 30592 + 30592) n"
  define bit0 where "bit0 = k * 30592 + i * 1912"
  have l: "i * 255 + 255 \<le> length bdata" using assms by simp
  have "length (bitmap_encode_step K bm n k i bdata) = 4096
    \<and> (\<forall>m < 4096. m < i * 255 \<or> (i + 1) * 255 \<le> m \<longrightarrow> bitmap_encode_step K bm n k i bdata ! m = bdata ! m)
    \<and> (k * 30592 + i * 1912 < n \<or> get_bytes (i * 255 + 239) 16 bdata = replicate 16 0 \<longrightarrow>
       bitmap_sub_ok K bm k i (bitmap_encode_step K bm n k i bdata))"
  proof (cases "bit0 \<ge> last")
    case True
    let ?z = "replicate 239 (0 :: byte)"
    have eq: "bitmap_encode_step K bm n k i bdata = put_bytes (i * 255) ?z bdata"
      using True by (simp add: bitmap_encode_step_def Let_def last_def bit0_def)
    have n: "n \<le> bit0" using True assms(3) by (simp add: last_def bit0_def min_def split: if_splits)
    have z: "bitmap_bytes bm (k * 3824 + i * 239) 239 = ?z"
      by (rule nth_equalityI) (use n assms(2) in \<open>auto simp: bit0_def intro!: bitmap_byte_beyond\<close>)
    have "get_bytes (i * 255) 239 (put_bytes (i * 255) ?z bdata) = ?z"
      using get_put_same [of "i * 255" ?z bdata] l by simp
    moreover have "get_bytes (i * 255 + 239) 16 (put_bytes (i * 255) ?z bdata) = get_bytes (i * 255 + 239) 16 bdata"
      using l by (intro get_put_other) auto
    ultimately show ?thesis
      using l assms(1) n eq z by (auto simp: bitmap_sub_ok_def parity_zero nth_put_bytes bit0_def)
  next
    case False
    define nbytes where "nbytes = min 239 ((last - bit0 + 7) div 8)"
    let ?s = "bitmap_bytes bm (k * 3824 + i * 239) 239"
    have sub: "bitmap_bytes bm (bit0 div 8) nbytes @ replicate (239 - nbytes) 0 = ?s"
      by (rule bitmap_sub_data [OF assms(2,3) bit0_def last_def nbytes_def])
    let ?buf = "put_bytes (i * 255) ?s bdata"
    have lb: "length ?buf = 4096" using l assms(1) by simp
    have g: "get_bytes (i * 255) 239 ?buf = ?s" using get_put_same [of "i * 255" ?s bdata] l by simp
    obtain c where c: "beamfs_rs_encode_region (k_rs K) ?buf (i * 255) 255 (i * 255 + 239) 255 239 1 = (None, c)"
      "length c = 4096" "get_bytes (i * 255) 239 c = ?s" "get_bytes (i * 255 + 239) 16 c = parity ?s"
      "\<forall>m < 4096. m < i * 255 + 239 \<or> (i + 1) * 255 \<le> m \<longrightarrow> c ! m = ?buf ! m"
      using encode_one_region [OF lb assms(3)] g by auto
    have "bitmap_encode_step K bm n k i bdata = c"
      using False c(1) sub
      by (simp add: bitmap_encode_step_def Let_def last_def bit0_def nbytes_def case_prod_unfold mult.commute)
    then show ?thesis using c l assms(1) by (auto simp: bitmap_sub_ok_def nth_put_bytes)
  qed
  then show "length (bitmap_encode_step K bm n k i bdata) = 4096"
    and "m < 4096 \<Longrightarrow> m < i * 255 \<or> (i + 1) * 255 \<le> m \<Longrightarrow> bitmap_encode_step K bm n k i bdata ! m = bdata ! m"
    and "k * 30592 + i * 1912 < n \<or> get_bytes (i * 255 + 239) 16 bdata = replicate 16 0 \<Longrightarrow>
      bitmap_sub_ok K bm k i (bitmap_encode_step K bm n k i bdata)" by auto
qed

end

lemma sub_ok_cong:
  assumes "length x = 4096" "length y = 4096" "i < 16"
    and "\<And>m. i * 255 \<le> m \<Longrightarrow> m < (i + 1) * 255 \<Longrightarrow> x ! m = y ! m"
  shows "bitmap_sub_ok K bm k i x = bitmap_sub_ok K bm k i y"
proof -
  have "get_bytes (i * 255) 239 x = get_bytes (i * 255) 239 y"
    by (rule nth_equalityI) (use assms in \<open>auto simp: nth_get_bytes\<close>)
  moreover have "get_bytes (i * 255 + 239) 16 x = get_bytes (i * 255 + 239) 16 y"
    by (rule nth_equalityI) (use assms in \<open>auto simp: nth_get_bytes\<close>)
  ultimately show ?thesis by (simp add: bitmap_sub_ok_def)
qed

text \<open>The rebuild of a whole block gives sixteen good codewords, whatever was in the buffer.\<close>

lemma bitmap_encode_loop:
  fixes k :: nat
  assumes K: "bitmap_lib K" and bm: "length bm = n" and m: "m \<le> 16"
  defines "f \<equiv> fold (bitmap_encode_step K bm n k) [0..<m] (replicate 4096 0)"
  shows "length f = 4096 \<and> (\<forall>i < m. bitmap_sub_ok K bm k i f) \<and> (\<forall>p < 4096. m * 255 \<le> p \<longrightarrow> f ! p = 0)"
  using m unfolding f_def
proof (induction m)
  case (Suc m)
  let ?f = "fold (bitmap_encode_step K bm n k) [0..<m] (replicate 4096 0)"
  let ?g = "bitmap_encode_step K bm n k m ?f"
  have IH: "length ?f = 4096" "\<And>i. i < m \<Longrightarrow> bitmap_sub_ok K bm k i ?f" "\<And>p. p < 4096 \<Longrightarrow> m * 255 \<le> p \<Longrightarrow> ?f ! p = 0"
    using Suc by auto
  have m: "m < 16" using Suc.prems by simp
  note spec = bitmap_lib.encode_step_spec [OF K IH(1) bm m, where k = k]
  have "get_bytes (m * 255 + 239) 16 ?f = replicate 16 0"
    by (rule nth_equalityI) (use IH m in \<open>auto simp: nth_get_bytes\<close>)
  then have "bitmap_sub_ok K bm k m ?g" using spec(3) by simp
  moreover have "bitmap_sub_ok K bm k i ?g" if i: "i < m" for i
  proof -
    have "i * 255 + 255 \<le> m * 255" using i by (metis Suc_leI add.commute mult_Suc mult_le_mono1)
    then have "bitmap_sub_ok K bm k i ?g = bitmap_sub_ok K bm k i ?f"
      using i m spec(2) by (intro sub_ok_cong [OF spec(1) IH(1)]) simp_all
    then show ?thesis using IH(2) [OF i] by simp
  qed
  moreover have "?g ! p = 0" if "p < 4096" "Suc m * 255 \<le> p" for p
    using that spec(2) [of p] IH(3) [of p] by simp
  ultimately show ?case using spec(1) by (auto simp: less_Suc_eq)
qed simp

lemma bitmap_encode_one_ok:
  assumes "bitmap_lib K" "length bm = n"
  shows "length (beamfs_bitmap_encode_one_locked K bm n k d) = 4096"
    and "i < 16 \<Longrightarrow> bitmap_sub_ok K bm k i (beamfs_bitmap_encode_one_locked K bm n k d)"
  using bitmap_encode_loop [OF assms(1,2), of 16 k]
  by (auto simp: beamfs_bitmap_encode_one_locked_def beamfs_bitmap_encode_sub_locked_def)

text \<open>The buffers of the bitmap hold the image of the bitmap in memory.\<close>

definition image_ok :: "kenv \<Rightarrow> 'a sb_alloc_scheme \<Rightarrow> bool" where
  "image_ok K sbi \<longleftrightarrow> (\<exists>bm bhs. s_block_bitmap sbi = Some bm \<and> s_bitmap_blkhs sbi = Some bhs
     \<and> length bhs = s_bitmap_blocks_count sbi \<and> s_nblocks sbi \<le> s_bitmap_blocks_count sbi * 30592
     \<and> (\<forall>k. k * 30592 < s_nblocks sbi \<longrightarrow> (\<exists>bh. bhs ! k = Some bh \<and> b_uptodate bh \<and> length (b_data bh) = 4096
          \<and> (\<forall>i < 16. bitmap_sub_ok K bm k i (b_data bh)))))"

lemma bitmap_bytes_update:
  assumes "\<not> (8 * j \<le> b \<and> b < 8 * (j + n))"
  shows "bitmap_bytes (bm[b := v]) j n = bitmap_bytes bm j n"
  by (rule nth_equalityI) (use assms in \<open>auto intro!: bitmap_byte_update\<close>)

lemma sub_ok_update:
  assumes "i < 16" "k \<noteq> b div 30592 \<or> i \<noteq> b mod 30592 div 1912"
  shows "bitmap_sub_ok K (bm[b := v]) k i bdata = bitmap_sub_ok K bm k i bdata"
proof -
  have "\<not> (8 * (k * 3824 + i * 239) \<le> b \<and> b < 8 * (k * 3824 + i * 239 + 239))"
  proof
    assume "8 * (k * 3824 + i * 239) \<le> b \<and> b < 8 * (k * 3824 + i * 239 + 239)"
    then have b: "k * 30592 + i * 1912 \<le> b" "b < k * 30592 + i * 1912 + 1912" by simp_all
    then have k: "b div 30592 = k" using assms(1) by (intro div_nat_eqI) simp_all
    then have "b mod 30592 = b - k * 30592" by (metis minus_div_mult_eq_mod)
    then have "b mod 30592 div 1912 = i" using b by (intro div_nat_eqI) simp_all
    with k assms(2) show False by simp
  qed
  then show ?thesis by (simp add: bitmap_sub_ok_def bitmap_bytes_update)
qed

text \<open>One bit changes in memory and its codeword is rebuilt: the sixteen codewords of the block
  follow.\<close>

lemma subblocks_apart: "j \<noteq> i \<Longrightarrow> j * 255 \<le> m \<Longrightarrow> m < (j + 1) * 255 \<Longrightarrow> m < i * 255 \<or> (i + 1) * 255 \<le> (m :: nat)"
  by (cases "j < i") (auto dest: less_imp_Suc_add)

lemma bitmap_block_update:
  fixes v :: bool
  assumes K: "bitmap_lib K" and len: "length bm = n" "length bdata = 4096" and b: "b < n"
    and sub: "\<And>j. j < 16 \<Longrightarrow> bitmap_sub_ok K bm (b div 30592) j bdata" and j: "j < 16"
  defines "data \<equiv> bitmap_encode_step K (bm[b := v]) n (b div 30592) (b mod 30592 div 1912) bdata"
  shows "length data = 4096 \<and> bitmap_sub_ok K (bm[b := v]) (b div 30592) j data"
proof -
  let ?bm = "bm[b := v]" and ?k = "b div 30592" and ?i = "b mod 30592 div 1912"
  have i: "?i < 16" by (simp add: less_mult_imp_div_less)
  have lb: "length ?bm = n" using len(1) by simp
  note spec = bitmap_lib.encode_step_spec [OF K len(2) lb i, where k = ?k, folded data_def]
  have "?i * 1912 \<le> b mod 30592" by (simp add: div_times_less_eq_dividend)
  moreover have "?k * 30592 + b mod 30592 = b" by simp
  ultimately have "?k * 30592 + ?i * 1912 < n" using b by linarith
  then have here: "bitmap_sub_ok K ?bm ?k ?i data" using spec(3) by simp
  have "bitmap_sub_ok K ?bm ?k j data" if "j \<noteq> ?i"
  proof -
    have "bitmap_sub_ok K ?bm ?k j data = bitmap_sub_ok K ?bm ?k j bdata"
    proof (rule sub_ok_cong [OF spec(1) len(2) j])
      fix m assume m: "j * 255 \<le> m" "m < (j + 1) * 255"
      then have "m < 4096" using j by simp
      then show "data ! m = bdata ! m" using spec(2) subblocks_apart [OF that m] by blast
    qed
    then show ?thesis using sub [OF j] sub_ok_update [OF j, of ?k b] that by simp
  qed
  with here show ?thesis using spec(1) by (cases "j = ?i") auto
qed

lemma write_bitmap_image:
  assumes K: "bitmap_lib K" and bm: "s_block_bitmap sbi = Some (bm[b := v])" "length bm = s_nblocks sbi"
    and b: "b < s_nblocks sbi" and ok: "\<not> s_failed sbi"
    and img: "image_ok K (sbi\<lparr>s_block_bitmap := Some bm\<rparr>)"
  shows "image_ok K (snd (beamfs_write_bitmap_block K sbi b))"
proof -
  obtain bhs where bhs: "s_bitmap_blkhs sbi = Some bhs" "length bhs = s_bitmap_blocks_count sbi"
    "s_nblocks sbi \<le> s_bitmap_blocks_count sbi * 30592"
    "\<And>k. k * 30592 < s_nblocks sbi \<Longrightarrow> \<exists>bh. bhs ! k = Some bh \<and> b_uptodate bh \<and> length (b_data bh) = 4096
          \<and> (\<forall>i < 16. bitmap_sub_ok K bm k i (b_data bh))"
    using img by (auto simp: image_ok_def)
  define k i where "k = b div 30592" and "i = b mod 30592 div 1912"
  have i: "i < 16" and k: "k < s_bitmap_blocks_count sbi" "k * 30592 \<le> b"
    using b bhs(3) by (auto simp: i_def k_def less_mult_imp_div_less div_times_less_eq_dividend)
  obtain bh where bh: "bhs ! k = Some bh" "b_uptodate bh" "length (b_data bh) = 4096"
    "\<And>j. j < 16 \<Longrightarrow> bitmap_sub_ok K bm k j (b_data bh)"
    using bhs(4) [of k] k(2) b by auto
  let ?bm = "bm[b := v]" and ?data = "bitmap_encode_step K (bm[b := v]) (s_nblocks sbi) k i (b_data bh)"
  have data: "length ?data = 4096" "\<And>j. j < 16 \<Longrightarrow> bitmap_sub_ok K ?bm k j ?data"
    using bitmap_block_update [OF K bm(2) bh(3) b, where v = v, folded k_def i_def, OF bh(4)] by (auto intro: zero_less_numeral)
  let ?bhs = "bhs[k := Some (mark_buffer_dirty (bh\<lparr>b_data := ?data\<rparr>))]"
  have res: "snd (beamfs_write_bitmap_block K sbi b) = sbi\<lparr>s_bitmap_blkhs := Some ?bhs,
      s_bitmap_needs_encode := map_option (\<lambda>needs. needs[k := False]) (s_bitmap_needs_encode sbi)\<rparr>"
    using ok bhs(1) bm(1) b k(1) bh(1,2) i
    by (simp add: beamfs_write_bitmap_block_def Let_def k_def i_def beamfs_bitmap_encode_sub_locked_def)
  have "\<exists>bh'. ?bhs ! k' = Some bh' \<and> b_uptodate bh'
      \<and> length (b_data bh') = 4096 \<and> (\<forall>i < 16. bitmap_sub_ok K ?bm k' i (b_data bh'))"
    if k': "k' * 30592 < s_nblocks sbi" for k'
  proof (cases "k' = k")
    case True
    then show ?thesis using k(1) bhs(2) bh data by (simp add: mark_buffer_dirty_def)
  next
    case False
    then show ?thesis using bhs(4) [OF k'] sub_ok_update [of _ k' b K bm v] by (auto simp: k_def)
  qed
  then show ?thesis using res bm(1) bhs(2,3) by (simp add: image_ok_def)
qed

lemma image_ok_cong:
  assumes "s_block_bitmap sbi' = s_block_bitmap sbi" "s_bitmap_blkhs sbi' = s_bitmap_blkhs sbi"
    "s_bitmap_blocks_count sbi' = s_bitmap_blocks_count sbi" "s_nblocks sbi' = s_nblocks sbi"
  shows "image_ok K sbi' = image_ok K sbi"
  using assms by (simp add: image_ok_def)

text \<open>Reading a block of the image back, damaged within the radius.\<close>

lemma load_bits_image:
  assumes K: "bitmap_lib K" and len: "length r = 4096" "length c = 4096"
    and sub: "\<And>i. i < 16 \<Longrightarrow> bitmap_sub_ok K bm k i c"
    and few: "\<And>i. i < 16 \<Longrightarrow> card (region_errs r c 0 255 239 255 239 i) \<le> 8"
  shows "\<exists>buf res poss. beamfs_rs_decode_region (k_rs K) r 0 255 239 255 239 16 True 8 = (buf, 0, res, poss)
    \<and> bitmap_load_bits buf cnt = map (\<lambda>j. test_bit (k * 30592 + j) bm) [0..<min cnt 30592]"
proof -
  have lib: "rs_library (k_rs K)" using K by (simp add: bitmap_lib_def kernel_lib.k_rs_library)
  have "rs_library.region_code (k_rs K) c 0 255 239 255 239 16"
    using sub by (simp add: rs_library.region_code_def [OF lib] bitmap_sub_ok_def add.commute)
  then obtain buf res poss where d:
    "beamfs_rs_decode_region (k_rs K) r 0 255 239 255 239 16 True 8 = (buf, 0, res, poss)" "length buf = 4096"
    "\<And>s. s < 16 \<Longrightarrow> get_bytes (s * 255) 239 buf = get_bytes (s * 255) 239 c"
    using rs_library.decode_region [OF lib alternating_ok [OF len(1)], of c True 8] few len by auto
  have "bit (buf ! (j div 1912 * 255 + j mod 1912 div 8)) (j mod 1912 mod 8) = test_bit (k * 30592 + j) bm"
    if j: "j < 30592" for j
  proof -
    let ?i = "j div 1912" and ?m = "j mod 1912 div 8"
    have im: "?i < 16" "?m < 239" using j by (simp_all add: less_mult_imp_div_less)
    then have "buf ! (?i * 255 + ?m) = get_bytes (?i * 255) 239 buf ! ?m" using d(2) by (simp add: nth_get_bytes)
    also have "\<dots> = bitmap_byte bm (k * 3824 + ?i * 239 + ?m)"
      using d(3) [OF im(1)] sub [OF im(1)] im(2) by (simp add: bitmap_sub_ok_def)
    finally have byte: "buf ! (?i * 255 + ?m) = bitmap_byte bm (k * 3824 + ?i * 239 + ?m)" .
    have "8 * (k * 3824 + ?i * 239 + ?m) + j mod 1912 mod 8 = k * 30592 + (?i * 1912 + (8 * ?m + j mod 1912 mod 8))"
      by simp
    also have "8 * ?m + j mod 1912 mod 8 = j mod 1912" by simp
    also have "?i * 1912 + j mod 1912 = j" by simp
    finally show ?thesis using byte by (simp add: bit_bitmap_byte add.commute mult.commute)
  qed
  then show ?thesis using d(1) by (auto simp: bitmap_load_bits_def Let_def)
qed

lemma log_rs_event_frame [simp]:
  fixes sbi :: "'a sb_alloc_scheme"
  shows "s_nblocks (beamfs_log_rs_event_flagged K t sbi blk ps n l e) = s_nblocks sbi"
  by (simp add: beamfs_log_rs_event_flagged_def Let_def case_prod_unfold)

lemma bitmap_log_frame: "s_nblocks (fst (fold (bitmap_log_step K t blk rs ps) is (sbi, c))) = s_nblocks sbi"
proof (induction "is" arbitrary: sbi c)
  case (Cons i js)
  obtain sbi' c' where st: "bitmap_log_step K t blk rs ps i (sbi, c) = (sbi', c')" by (metis prod.collapse)
  then have "s_nblocks sbi' = s_nblocks sbi" by (auto simp: bitmap_log_step_def Let_def split: if_splits)
  then show ?case using Cons st by simp
qed simp

definition bitmap_reads :: "(nat \<Rightarrow> byte list option) \<Rightarrow> nat \<Rightarrow> nat \<Rightarrow> buffer_head option list \<Rightarrow> bool" where
  "bitmap_reads bread bitmap_blk n bhs \<longleftrightarrow> (\<forall>k. k * 30592 < n \<longrightarrow> (\<exists>r. bread (bitmap_blk + k) = Some r
     \<and> length r = 4096 \<and> (\<forall>i < 16. card (region_errs r (b_data (the (bhs ! k))) 0 255 239 255 239 i) \<le> 8)))"

lemma setup_loop_image:
  assumes K: "bitmap_lib K" and n: "length bm = n" "n \<le> nb * 30592"
    and bhs: "\<And>k. k * 30592 < n \<Longrightarrow> \<exists>bh. bhs ! k = Some bh \<and> length (b_data bh) = 4096
      \<and> (\<forall>i < 16. bitmap_sub_ok K bm k i (b_data bh))"
    and reads: "bitmap_reads bread bitmap_blk n bhs"
    and st: "s_nblocks sbi = n" "k \<le> nb" "bits = take (k * 30592) bm"
  shows "\<exists>sbi' hs'. setup_bitmap_loop K bread now bitmap_blk [k..<nb] sbi bits hs = (sbi', Some (bm, hs'))"
  using st
proof (induction "nb - k" arbitrary: k sbi bits hs)
  case 0
  then show ?case using n by simp
next
  case (Suc d)
  then have k: "k < nb" by simp
  then have ks: "[k..<nb] = k # [Suc k..<nb]" by (simp add: upt_conv_Cons)
  show ?case
  proof (cases "n \<le> k * 30592")
    case True
    then show ?thesis using Suc.prems n ks by simp
  next
    case False
    obtain bh where bh: "bhs ! k = Some bh" "length (b_data bh) = 4096" "\<And>i. i < 16 \<Longrightarrow> bitmap_sub_ok K bm k i (b_data bh)"
      using bhs [of k] False by auto
    obtain r where r: "bread (bitmap_blk + k) = Some r" "length r = 4096"
      "\<And>i. i < 16 \<Longrightarrow> card (region_errs r (b_data bh) 0 255 239 255 239 i) \<le> 8"
      using reads False bh(1) by (force simp: bitmap_reads_def)
    have lb: "length bits = k * 30592" using Suc.prems(3) n(1) False by simp
    obtain buf res poss where d: "beamfs_rs_decode_region (k_rs K) r 0 255 239 255 239 16 True 8 = (buf, 0, res, poss)"
      "bitmap_load_bits buf (n - length bits) = map (\<lambda>j. test_bit (k * 30592 + j) bm) [0..<min (n - length bits) 30592]"
      using load_bits_image [OF K r(2) bh(2), of bm k "n - length bits"] bh(3) r(3) by blast
    obtain sbi2 cor where lg: "fold (bitmap_log_step K (now k) (bitmap_blk + k) res poss) [0..<16] (sbi, False) = (sbi2, cor)"
      by (metis prod.collapse)
    then have n2: "s_nblocks sbi2 = n" using bitmap_log_frame [of K "now k" "bitmap_blk + k" res poss "[0..<16]" sbi False] Suc.prems(1) by simp
    have bits: "bits @ bitmap_load_bits buf (n - length bits) = take (Suc k * 30592) bm"
      by (rule nth_equalityI)
        (use Suc.prems(3) lb n(1) False d(2) in \<open>auto simp: nth_append test_bit_def min_def\<close>)
    show ?thesis
      using Suc.hyps(1) [of "Suc k" sbi2 "take (Suc k * 30592) bm"] Suc.hyps(2) n2 k ks r(1) d(1) lg bits lb False Suc.prems(1)
      by (simp add: Let_def)
  qed
qed

lemma setup_bitmap_image:
  assumes K: "bitmap_lib K" and img: "image_ok K sbi" and bm: "s_block_bitmap sbi = Some bm" "length bm = s_nblocks sbi"
    and bhs: "s_bitmap_blkhs sbi = Some bhs"
    and geo: "unat (sb_block_count fsb) = s_data_start sbi + s_nblocks sbi" "0 < s_nblocks sbi"
      "unat (sb_data_start_blk fsb) = s_data_start sbi" "sb_bitmap_blk fsb \<noteq> 0"
      "unat (sb_bitmap_blk fsb) < s_data_start sbi"
      "beamfs_bitmap_blocks_count_from_flags (sb_flags fsb) = s_bitmap_blocks_count sbi"
    and reads: "bitmap_reads bread (unat (sb_bitmap_blk fsb)) (s_nblocks sbi) bhs"
    and fsb: "s_beamfs_sb sbi0 = fsb"
  shows "\<exists>sbi'. beamfs_setup_bitmap K bread now True True True True sbi0 = (None, sbi') \<and> s_block_bitmap sbi' = Some bm"
proof -
  let ?n = "s_nblocks sbi" and ?c = "s_bitmap_blocks_count sbi" and ?blk = "unat (sb_bitmap_blk fsb)"
  let ?s = "sbi0\<lparr>s_nblocks := ?n, s_data_start := s_data_start sbi, s_block_bitmap := Some (replicate ?n False),
    s_bitmap_blocks_count := ?c, s_bitmap_needs_encode := Some (replicate ?c False)\<rparr>"
  have "\<exists>sbi' hs'. setup_bitmap_loop K bread now ?blk [0..<?c] ?s [] (replicate ?c None) = (sbi', Some (bm, hs'))"
  proof (rule setup_loop_image [OF K bm(2) _ _ reads])
    show "?n \<le> ?c * 30592" using img by (auto simp: image_ok_def)
    show "\<exists>bh. bhs ! k = Some bh \<and> length (b_data bh) = 4096 \<and> (\<forall>i < 16. bitmap_sub_ok K bm k i (b_data bh))"
      if "k * 30592 < ?n" for k
      using img that bm(1) bhs by (auto simp: image_ok_def)
  qed auto
  then obtain sbi' hs' where loop:
    "setup_bitmap_loop K bread now ?blk [0..<?c] ?s [] (replicate ?c None) = (sbi', Some (bm, hs'))" by blast
  have "?blk \<noteq> 0" using geo(4) by (simp add: unat_eq_zero)
  then show ?thesis
    using fsb geo loop bm(2) by (simp add: beamfs_setup_bitmap_def Let_def)
qed

text \<open>The image follows an allocation and a release, unless the volume fails on the way.\<close>

lemma alloc_block_image:
  assumes K: "bitmap_lib K" and inv: "alloc_inv sbi" and img: "image_ok K sbi"
    and ok: "\<not> s_failed (snd (beamfs_alloc_block K sbi owner))"
  shows "image_ok K (snd (beamfs_alloc_block K sbi owner))"
proof (cases "s_failed sbi \<or> s_free_blocks sbi = 0")
  case True
  then show ?thesis using img alloc_block_none [OF inv] by simp
next
  case False
  obtain bm where bm: "s_block_bitmap sbi = Some bm" "length bm = s_nblocks sbi" using inv by (auto simp: alloc_inv_def)
  define b p where "b = fst (alloc_pick sbi bm owner)" and "p = snd (alloc_pick sbi bm owner)"
  have pick: "alloc_pick sbi bm owner = (b, p)" by (simp add: b_def p_def)
  note pf = only_windows_frame [OF alloc_pick_spec(1) [of sbi bm owner], folded p_def]
  have b: "b < s_nblocks sbi" using alloc_block_taken(1) [OF inv _ bm(1)] False by (simp add: b_def)
  let ?s = "p\<lparr>s_alloc_goal := (if b + 1 \<ge> s_nblocks p then 0 else b + 1), s_block_bitmap := Some (bm[b := False]),
    s_free_blocks := s_free_blocks p - 1, s_beamfs_sb := put_le64 16 (word_of_nat (s_free_blocks p - 1)) (s_beamfs_sb p)\<rparr>"
  let ?d = "inode_add_bytes owner 4096 (beamfs_dirty_super K ?s)"
  have res: "snd (beamfs_alloc_block K sbi owner) = snd (beamfs_write_bitmap_block K ?d b)"
    using False bm b pick pf by (simp add: beamfs_alloc_block_def Let_def case_prod_unfold)
  have "\<not> s_failed ?d"
    using ok by (auto simp: res beamfs_write_bitmap_block_def simp del: inode_add_bytes_frame)
  moreover have "image_ok K (?d\<lparr>s_block_bitmap := Some bm\<rparr>) = image_ok K sbi"
    by (rule image_ok_cong) (use pf bm in simp_all)
  ultimately show ?thesis
    unfolding res using img b bm(2) pf by (intro write_bitmap_image [OF K, of _ bm _ False]) simp_all
qed

lemma free_block_image:
  assumes K: "bitmap_lib K" and inv: "alloc_inv sbi" and img: "image_ok K sbi"
    and ok: "\<not> s_failed (beamfs_free_block K sbi block owner)"
  shows "image_ok K (beamfs_free_block K sbi block owner)"
proof (rule free_block_cases [OF inv, of K block owner])
  fix bm b assume f: "\<not> s_failed sbi" "s_block_bitmap sbi = Some bm" "b < s_nblocks sbi" "\<not> bm ! b"
    "block = s_data_start sbi + b"
  have len: "length bm = s_nblocks sbi" using inv f(2) by (simp add: alloc_inv_def)
  let ?s = "(if b < s_alloc_goal sbi then sbi\<lparr>s_alloc_goal := b\<rparr> else sbi)\<lparr>
    s_block_bitmap := Some (bm[b := True]), s_free_blocks := s_free_blocks sbi + 1,
    s_beamfs_sb := put_le64 16 (word_of_nat (s_free_blocks sbi + 1)) (s_beamfs_sb sbi)\<rparr>"
  let ?d = "inode_add_bytes owner (- 4096) (beamfs_dirty_super K ?s)"
  let ?t = "?d\<lparr>s_treecheck := beamfs_tc_forget_parent (word_of_nat block) (beamfs_tc_forget_child (word_of_nat block) (s_treecheck sbi))\<rparr>"
  have res: "beamfs_free_block K sbi block owner = snd (beamfs_write_bitmap_block K ?t b)"
    using f len by (cases "b < s_alloc_goal sbi") (simp_all add: beamfs_free_block_def Let_def test_bit_def)
  have "\<not> s_failed ?t"
    using ok unfolding res by (auto simp: beamfs_write_bitmap_block_def simp del: inode_add_bytes_frame)
  moreover have "image_ok K (?t\<lparr>s_block_bitmap := Some bm\<rparr>) = image_ok K sbi"
    by (rule image_ok_cong) (use f in simp_all)
  ultimately show ?thesis
    unfolding res using img f(3) len by (intro write_bitmap_image [OF K, of _ bm _ True]) simp_all
qed (use img in simp)

end
