(* ===== verification/Alloc_Correct.thy ===== *)
theory Alloc_Correct
  imports Alloc
begin

section \<open>Properties of the allocator\<close>

text \<open>
  The claims about \<^verbatim>\<open>alloc.c\<close>, over the lemmas of the theory before: each operation against the set
  of allocated blocks, runs of operations as a step relation, the windows, the image on disk and the
  inode numbers. The witnesses run on a volume of one data block.
\<close>

subsection \<open>Runs\<close>

datatype alloc_event = Took nat | Freed nat | Discarded nat | InoTook nat | InoFreed nat

inductive alloc_step :: "kenv \<Rightarrow> sb_alloc \<Rightarrow> alloc_event \<Rightarrow> sb_alloc \<Rightarrow> bool" for K where
  took: "beamfs_alloc_block K s owner = (blk, s') \<Longrightarrow> alloc_step K s (Took blk) s'"
| freed: "alloc_step K s (Freed blk) (beamfs_free_block K s blk owner)"
| discarded: "alloc_step K s (Discarded i) (beamfs_rsv_discard s i)"
| ino_took: "beamfs_alloc_inode_num K s = (n, s') \<Longrightarrow> alloc_step K s (InoTook n) s'"
| ino_freed: "alloc_step K s (InoFreed n) (beamfs_free_inode_num K s n)"

inductive alloc_run :: "kenv \<Rightarrow> sb_alloc \<Rightarrow> alloc_event list \<Rightarrow> sb_alloc \<Rightarrow> bool" for K where
  nil: "alloc_run K s [] s"
| cons: "alloc_step K s e s' \<Longrightarrow> alloc_run K s' es s'' \<Longrightarrow> alloc_run K s (e # es) s''"

inductive_simps alloc_run_Nil [simp]: "alloc_run K s [] s'"
inductive_simps alloc_run_Cons [simp]: "alloc_run K s (e # es) s''"

lemma ino_dirty_inv:
  assumes "alloc_inv sbi"
  shows "alloc_inv (beamfs_dirty_super K (sbi\<lparr>s_inode_bitmap := x, s_free_inodes := y,
      s_beamfs_sb := put_le64 32 z (s_beamfs_sb sbi)\<rparr>))" (is "alloc_inv (beamfs_dirty_super K ?s)")
proof -
  have len: "length (s_beamfs_sb sbi) = 4096" using assms by (simp add: alloc_inv_def)
  then have l: "length (s_beamfs_sb ?s) = 4096" by simp
  have "get_le64 16 (put_le64 32 z (s_beamfs_sb sbi)) = get_le64 16 (s_beamfs_sb sbi)"
    using len by (simp add: get_le64_def put_le64_def get_put_other)
  then show ?thesis
    using assms dirty_super_le64 [OF l, of 16 K] dirty_super_sb(1) [OF l, of K]
    by (auto simp: alloc_inv_def sb_free_blocks_def)
qed

text \<open>What is allocated depends on the geometry and the bitmap alone.\<close>

lemma is_allocated_cong:
  "s_block_bitmap s' = s_block_bitmap s \<Longrightarrow> s_nblocks s' = s_nblocks s \<Longrightarrow> s_data_start s' = s_data_start s \<Longrightarrow>
   beamfs_block_is_allocated s' b = beamfs_block_is_allocated s b"
  by (cases "s_block_bitmap s") (simp_all add: beamfs_block_is_allocated_def Let_def)

lemma alloc_step_inv:
  assumes "alloc_step K s e s'" "alloc_inv s"
  shows "alloc_inv s' \<and> (beamfs_block_is_allocated s b \<and> e \<noteq> Freed b \<longrightarrow> beamfs_block_is_allocated s' b)"
  using assms(1)
proof (cases rule: alloc_step.cases)
  case (took owner blk)
  have "s' = snd (beamfs_alloc_block K s owner)" "blk = fst (beamfs_alloc_block K s owner)" using took by simp_all
  moreover have "blk = 0 \<Longrightarrow> beamfs_block_is_allocated s b \<Longrightarrow> beamfs_block_is_allocated s' b"
  proof -
    assume "blk = 0" "beamfs_block_is_allocated s b"
    moreover from this(1) have "s_failed s \<or> s_free_blocks s = 0"
      using alloc_block_taken(3) [OF assms(2), where K = K and owner = owner] took assms(2)
      by (auto simp: alloc_inv_def)
    ultimately show ?thesis using took alloc_block_none [OF assms(2)] by simp
  qed
  ultimately show ?thesis
    using alloc_block_inv [OF assms(2)] alloc_block_allocated(2) [OF assms(2), of K owner b] by auto
next
  case (freed blk owner)
  show ?thesis
  proof (cases "\<not> s_failed s \<and> s_data_start s \<le> blk \<and> blk < s_data_start s + s_nblocks s")
    case True
    then show ?thesis
      using freed free_block_inv [OF assms(2)] free_block_allocated [OF assms(2), of blk K owner b] by auto
  next
    case False
    then show ?thesis using freed assms(2) free_block_other [OF assms(2), of blk K owner] by auto
  qed
next
  case (discarded i)
  then show ?thesis
    using assms(2) is_allocated_cong [of "beamfs_rsv_drop_locked s i" s b]
    by (auto simp: alloc_inv_def beamfs_rsv_discard_def beamfs_rsv_drop_locked_def)
next
  case (ino_took n)
  then show ?thesis
    using assms(2) ino_dirty_inv [OF assms(2)]
    by (auto simp: beamfs_alloc_inode_num_def Let_def split: option.splits if_splits
        intro: is_allocated_cong [THEN iffD2])
next
  case (ino_freed n)
  then show ?thesis
    using assms(2) ino_dirty_inv [OF assms(2)]
    by (auto simp: beamfs_free_inode_num_def Let_def intro: is_allocated_cong [THEN iffD2])
qed

lemma alloc_run_keeps:
  "alloc_run K s es s' \<Longrightarrow> alloc_inv s \<Longrightarrow>
   alloc_inv s' \<and> (beamfs_block_is_allocated s b \<and> Freed b \<notin> set es \<longrightarrow> beamfs_block_is_allocated s' b)"
proof (induction rule: alloc_run.induct)
  case (cons s e s' es s'')
  then show ?case using alloc_step_inv [OF cons.hyps(1) cons.prems, of b] by auto
qed simp

lemma alloc_run_append: "alloc_run K s (xs @ ys) s'' \<longleftrightarrow> (\<exists>s'. alloc_run K s xs s' \<and> alloc_run K s' ys s'')"
  by (induction xs arbitrary: s) auto

subsection \<open>Properties\<close>

text \<open>C29: An allocation takes one free block and nothing else. On a consistent volume that has not
  failed, \<^const>\<open>beamfs_alloc_block\<close> returns 0 and changes nothing exactly when no block is free;
  otherwise it returns a block of the data region that was free, that block and no other becomes
  allocated, the free counter goes down by one, in memory and in the superblock, and the volume stays
  consistent.\<close>
theorem alloc_block_correct:
  assumes "alloc_inv sbi" "\<not> s_failed sbi" "beamfs_alloc_block K sbi owner = (blk, sbi')"
  shows "alloc_inv sbi' \<and>
    (if s_free_blocks sbi = 0 then blk = 0 \<and> sbi' = sbi
     else s_data_start sbi \<le> blk \<and> blk < s_data_start sbi + s_nblocks sbi \<and> blk \<noteq> 0
       \<and> \<not> beamfs_block_is_allocated sbi blk
       \<and> (\<forall>x. beamfs_block_is_allocated sbi' x \<longleftrightarrow> x = blk \<or> beamfs_block_is_allocated sbi x)
       \<and> s_free_blocks sbi' = s_free_blocks sbi - 1)"
proof -
  obtain bm where bm: "s_block_bitmap sbi = Some bm" using assms(1) by (auto simp: alloc_inv_def)
  have res: "blk = fst (beamfs_alloc_block K sbi owner)" "sbi' = snd (beamfs_alloc_block K sbi owner)"
    using assms(3) by simp_all
  have inv: "alloc_inv sbi'" using alloc_block_inv [OF assms(1)] res by simp
  show ?thesis
  proof (cases "s_free_blocks sbi = 0")
    case True
    then show ?thesis using alloc_block_none [OF assms(1)] assms(3) inv by simp
  next
    case False
    note t = alloc_block_taken(1) [OF assms(1,2) bm False, where owner = owner]
      alloc_block_taken(3,5) [OF assms(1,2) bm False, where owner = owner and K = K]
    have "0 < s_data_start sbi" using assms(1) by (simp add: alloc_inv_def)
    then have "blk \<noteq> 0" using t res by simp
    then show ?thesis
      using alloc_block_allocated [OF assms(1), where K = K and owner = owner] t res False inv by simp
  qed
qed

text \<open>C30: A release gives back one block, once. \<^const>\<open>beamfs_free_block\<close> of an allocated block of the
  data region makes that block free, no other, adds one to the free counter and makes the tree
  checker forget every slot that names the block; of anything else (metadata, out of range, already
  free) it changes nothing, so a second release of the same block is harmless.\<close>
theorem free_block_correct:
  assumes "alloc_inv sbi" "\<not> s_failed sbi" "tc_inv (s_treecheck sbi)" "blk < 2 ^ 64"
    and "sbi' = beamfs_free_block K sbi blk owner"
  shows "alloc_inv sbi' \<and>
    (if s_data_start sbi \<le> blk \<and> blk < s_data_start sbi + s_nblocks sbi \<and> beamfs_block_is_allocated sbi blk
     then (\<forall>x. beamfs_block_is_allocated sbi' x \<longleftrightarrow> x \<noteq> blk \<and> beamfs_block_is_allocated sbi x)
       \<and> s_free_blocks sbi' = s_free_blocks sbi + 1
       \<and> (\<forall>k. tc_abs (s_treecheck sbi') k \<noteq> Some (word_of_nat blk))
     else sbi' = sbi)"
proof (rule free_block_cases [OF assms(1), of K blk owner])
  assume "beamfs_free_block K sbi blk owner = sbi" "s_failed sbi \<or> blk < s_data_start sbi \<or>
    s_data_start sbi + s_nblocks sbi \<le> blk \<or> \<not> beamfs_block_is_allocated sbi blk"
  then show ?thesis using assms by auto
next
  fix bm b assume f: "\<not> s_failed sbi" "s_block_bitmap sbi = Some bm" "b < s_nblocks sbi" "\<not> bm ! b"
    "blk = s_data_start sbi + b"
  note t = free_block_taken [OF assms(1) f(1-4), where owner = owner and K = K, folded f(5)]
  have al: "beamfs_block_is_allocated sbi blk"
    using f by (simp add: beamfs_block_is_allocated_def test_bit_def)
  have "unat (word_of_nat blk :: u64) = blk" using assms(4) by (simp add: unat_of_nat take_bit_nat_eq_self)
  moreover have "0 < blk" using f(5) assms(1) by (simp add: alloc_inv_def)
  ultimately have nz: "(word_of_nat blk :: u64) \<noteq> 0" by (metis less_irrefl unat_0)
  let ?c = "beamfs_tc_forget_child (word_of_nat blk) (s_treecheck sbi)"
  have "tc_inv ?c" "tc_abs ?c = tc_spec (TcForgetChild (word_of_nat blk)) (tc_abs (s_treecheck sbi))"
    using tc_step_refines [OF assms(3), of "TcForgetChild (word_of_nat blk)"] by simp_all
  then have tc: "tc_abs (s_treecheck sbi') k \<noteq> Some (word_of_nat blk)" for k
    using tc_step_refines [of ?c "TcForgetParent (word_of_nat blk)"] t(7) assms(5) nz by auto
  show ?thesis
    using al f tc t(2) assms(5) free_block_inv [OF assms(1)]
      free_block_allocated [OF assms(1) f(1), where K = K and owner = owner and block = blk] by auto
qed

text \<open>C8: No block is handed out twice. In every run of allocations, releases, dropped windows and
  inode-number operations from a consistent volume, between two allocations that return the same
  block there is a release of that block.\<close>
theorem no_double_alloc:
  assumes "alloc_run K s (xs @ Took b # ys @ Took b # zs) s'" "alloc_inv s" "b \<noteq> 0"
  shows "Freed b \<in> set ys"
proof (rule ccontr)
  assume nf: "Freed b \<notin> set ys"
  obtain s1 s2 s3 s4 where r: "alloc_run K s xs s1" "alloc_step K s1 (Took b) s2" "alloc_run K s2 ys s3"
    "alloc_step K s3 (Took b) s4"
    using assms(1) by (auto simp: alloc_run_append)
  have i1: "alloc_inv s1" using alloc_run_keeps [OF r(1) assms(2)] by simp
  have i2: "alloc_inv s2" using alloc_step_inv [OF r(2) i1] by simp
  obtain ow where "beamfs_alloc_block K s1 ow = (b, s2)" using r(2) by (auto elim: alloc_step.cases)
  then have "beamfs_block_is_allocated s2 b"
    using alloc_block_allocated(2) [OF i1, of K ow b] assms(3) by simp
  then have al: "beamfs_block_is_allocated s3 b" and i3: "alloc_inv s3" using alloc_run_keeps [OF r(3) i2, of b] nf by auto
  obtain ow' where "beamfs_alloc_block K s3 ow' = (b, s4)" using r(4) by (auto elim: alloc_step.cases)
  then show False using alloc_block_allocated(1) [OF i3, of K ow'] al assms(3) by simp
qed

text \<open>C31: Writers do not interleave while there is room. If the reservation windows are pairwise
  disjoint and some free block lies outside the windows of the others, an allocation for \<open>me\<close> returns
  a block inside the window of \<open>me\<close> and inside nobody else's, and the windows are still pairwise
  disjoint afterwards.\<close>
theorem windows_stay_disjoint:
  assumes "alloc_inv sbi" "\<not> s_failed sbi" "rsv_ok sbi" "0 < i_rsv_size (s_rsv sbi me)"
    and "rsv_open sbi (the (s_block_bitmap sbi)) (Some me) True j"
    and "beamfs_alloc_block K sbi (Some me) = (blk, sbi')"
  shows "rsv_ok sbi' \<and> in_window sbi' me (blk - s_data_start sbi)
    \<and> (\<forall>i. i \<noteq> me \<longrightarrow> \<not> in_window sbi' i (blk - s_data_start sbi))"
proof -
  obtain bm where bm: "s_block_bitmap sbi = Some bm" "s_free_blocks sbi = count_list bm True"
    using assms(1) by (auto simp: alloc_inv_def)
  then have j: "rsv_open sbi bm (Some me) True j" using assms(5) by simp
  then have "True \<in> set bm" by (auto simp: rsv_open_def test_bit_def in_set_conv_nth)
  then have free: "s_free_blocks sbi \<noteq> 0" using bm(2) by (metis count_list_0_iff)
  note t = alloc_block_taken(3,8,9,10,11) [OF assms(1,2) bm(1) free, where owner = "Some me" and K = K]
  let ?p = "beamfs_rsv_alloc_locked sbi bm me"
  have ok: "rsv_ok (snd ?p)" "in_window (snd ?p) me (fst ?p)"
    using rsv_alloc_ok [OF assms(3) j assms(4)] by auto
  have w: "in_window sbi' i b = in_window (snd ?p) i b" for i b
    using t assms(6) by (simp add: in_window_def alloc_pick_def)
  have "rsv_ok sbi'"
    using ok(1) t assms(6) unfolding rsv_ok_def w by (simp add: alloc_pick_def)
  moreover have "blk - s_data_start sbi = fst ?p" using t(1) assms(6) by (simp add: alloc_pick_def)
  ultimately show ?thesis using ok w by (auto simp: rsv_ok_def)
qed

text \<open>The search is exhaustive and ends. Whatever the goal, \<^const>\<open>beamfs_rsv_find\<close> returns a free
  block that no other inode's window covers if there is one, and the number of blocks if there is
  none; when windows are not respected, any free block will do.\<close>
theorem rsv_find_exhaustive:
  "(if \<exists>j. rsv_open sbi bm me respect j
    then rsv_open sbi bm me respect (beamfs_rsv_find sbi bm me goal respect)
    else beamfs_rsv_find sbi bm me goal respect = s_nblocks sbi)"
proof (cases "\<exists>j. rsv_open sbi bm me respect j")
  case True
  then show ?thesis using rsv_find_spec(1,3) [of sbi bm me] by auto
next
  case False
  then show ?thesis using rsv_find_spec(1,2) [of sbi bm me goal respect] by (auto simp: le_less)
qed

text \<open>C18: The bitmap survives an unmount and bad cells. Take a consistent volume whose bitmap buffers
  hold the image of its bitmap, do one allocation or one release that does not fail the volume, and
  let the next mount read those buffers with at most eight wrong bytes in each codeword. Then
  \<^const>\<open>beamfs_setup_bitmap\<close>, given the same geometry and memory, succeeds and loads exactly the bitmap
  of after the operation.\<close>
theorem bitmap_remount:
  assumes K: "bitmap_lib K" and inv: "alloc_inv sbi" and img: "image_ok K sbi" and n: "0 < s_nblocks sbi"
    and op: "s1 = snd (beamfs_alloc_block K sbi owner) \<or> s1 = beamfs_free_block K sbi blk owner"
    and ok: "\<not> s_failed s1"
    and geo: "unat (sb_block_count fsb) = s_data_start s1 + s_nblocks s1"
      "unat (sb_data_start_blk fsb) = s_data_start s1" "sb_bitmap_blk fsb \<noteq> 0"
      "unat (sb_bitmap_blk fsb) < s_data_start s1"
      "beamfs_bitmap_blocks_count_from_flags (sb_flags fsb) = s_bitmap_blocks_count s1"
    and reads: "bitmap_reads bread (unat (sb_bitmap_blk fsb)) (s_nblocks s1) (the (s_bitmap_blkhs s1))"
    and mount: "s_beamfs_sb m = fsb"
  shows "\<exists>m'. beamfs_setup_bitmap K bread now True True True True m = (None, m')
    \<and> s_block_bitmap m' = s_block_bitmap s1"
proof -
  have img1: "image_ok K s1"
    using op ok alloc_block_image [OF K inv img] free_block_image [OF K inv img] by auto
  have inv1: "alloc_inv s1" using op alloc_block_inv [OF inv] free_block_inv [OF inv] by auto
  obtain bm bhs where b: "s_block_bitmap s1 = Some bm" "length bm = s_nblocks s1" "s_bitmap_blkhs s1 = Some bhs"
    using inv1 img1 by (auto simp: alloc_inv_def image_ok_def)
  have "s_nblocks s1 = s_nblocks sbi"
  proof (cases "s1 = beamfs_free_block K sbi blk owner")
    case True
    then show ?thesis by (auto simp: beamfs_free_block_def Let_def)
  next
    case False
    then show ?thesis
      using op only_windows_frame(1) [OF alloc_pick_spec(1)]
      by (auto simp: beamfs_alloc_block_def Let_def case_prod_unfold split: option.splits)
  qed
  then have n1: "0 < s_nblocks s1" using n by simp
  show ?thesis
    using setup_bitmap_image [OF K img1 b geo(1) n1 geo(2-5) _ mount] reads b by simp
qed

text \<open>The inode bitmap: numbers 0 and 1 are never free and the counter counts.\<close>

definition inode_inv :: "'a sb_alloc_scheme \<Rightarrow> bool" where
  "inode_inv sbi \<longleftrightarrow> (\<exists>bm. s_inode_bitmap sbi = Some bm \<and> length bm = s_ninodes sbi + 1
     \<and> \<not> test_bit 0 bm \<and> \<not> test_bit 1 bm \<and> s_free_inodes sbi = count_list bm True)"

lemma alloc_inode_taken:
  assumes "inode_inv sbi" "\<not> s_failed sbi" "s_inode_bitmap sbi = Some bm" "s_free_inodes sbi \<noteq> 0"
  defines "n \<equiv> find_next_bit bm (s_ninodes sbi + 1) 2"
  shows "2 \<le> n" "n \<le> s_ninodes sbi" "test_bit n bm" "\<And>m. 2 \<le> m \<Longrightarrow> m < n \<Longrightarrow> \<not> test_bit m bm"
    and "beamfs_alloc_inode_num K sbi = (n, beamfs_dirty_super K (sbi\<lparr>s_inode_bitmap := Some (bm[n := False]),
      s_free_inodes := s_free_inodes sbi - 1,
      s_beamfs_sb := put_le64 32 (word_of_nat (s_free_inodes sbi - 1)) (s_beamfs_sb sbi)\<rparr>))"
proof -
  have bm: "length bm = s_ninodes sbi + 1" "\<not> test_bit 0 bm" "\<not> test_bit 1 bm" "0 < count_list bm True"
    using assms(1,3,4) by (auto simp: inode_inv_def)
  obtain j where j: "j < length bm" "test_bit j bm" using count_list_pos bm(4) by blast
  then have "2 \<le> j" using bm(2,3) by (cases j; cases "j - 1") auto
  then have "\<not> j < n" using find_next_bit_spec(2) j(2) by (auto simp: n_def)
  then show n: "n \<le> s_ninodes sbi" using j bm(1) by simp
  then show "2 \<le> n" "test_bit n bm" using find_next_bit_spec(1) [of bm "s_ninodes sbi + 1" 2] by (auto simp: n_def)
  show "\<And>m. 2 \<le> m \<Longrightarrow> m < n \<Longrightarrow> \<not> test_bit m bm" using find_next_bit_spec(2) by (auto simp: n_def)
  show "beamfs_alloc_inode_num K sbi = (n, beamfs_dirty_super K (sbi\<lparr>s_inode_bitmap := Some (bm[n := False]),
      s_free_inodes := s_free_inodes sbi - 1,
      s_beamfs_sb := put_le64 32 (word_of_nat (s_free_inodes sbi - 1)) (s_beamfs_sb sbi)\<rparr>))"
    using assms(2-4) n by (simp add: beamfs_alloc_inode_num_def Let_def n_def)
qed

text \<open>C32: An inode number is taken once and can be given back. On a consistent volume that has not
  failed, \<^const>\<open>beamfs_alloc_inode_num\<close> returns 0 and changes nothing exactly when no number is free;
  otherwise it returns the least free number, which is at least 2 and at most the number of inodes, and
  takes it. Giving a number from 3 on back restores the bitmap and the counter.\<close>
theorem inode_num_correct:
  assumes "inode_inv sbi" "\<not> s_failed sbi" "s_inode_bitmap sbi = Some bm"
    and "beamfs_alloc_inode_num K sbi = (n, sbi')"
  shows "inode_inv sbi' \<and>
    (if s_free_inodes sbi = 0 then n = 0 \<and> sbi' = sbi
     else 2 \<le> n \<and> n \<le> s_ninodes sbi \<and> test_bit n bm \<and> (\<forall>m. 2 \<le> m \<and> m < n \<longrightarrow> \<not> test_bit m bm)
       \<and> s_inode_bitmap sbi' = Some (bm[n := False])
       \<and> (3 \<le> n \<longrightarrow> s_inode_bitmap (beamfs_free_inode_num K sbi' n) = s_inode_bitmap sbi
            \<and> s_free_inodes (beamfs_free_inode_num K sbi' n) = s_free_inodes sbi))"
proof (cases "s_free_inodes sbi = 0")
  case True
  then show ?thesis using assms by (simp add: beamfs_alloc_inode_num_def)
next
  case False
  note t = alloc_inode_taken [OF assms(1-3) False]
  have n: "n = find_next_bit bm (s_ninodes sbi + 1) 2" using t(5) [of K] assms(4) by simp
  have bm: "length bm = s_ninodes sbi + 1" "\<not> test_bit 0 bm" "\<not> test_bit 1 bm" "s_free_inodes sbi = count_list bm True"
    using assms(1,3) by (auto simp: inode_inv_def)
  note u = t(1-4) [folded n] t(5) [of K, folded n, unfolded assms(4)]
  have s': "s_inode_bitmap sbi' = Some (bm[n := False])" "s_free_inodes sbi' = s_free_inodes sbi - 1"
    "s_ninodes sbi' = s_ninodes sbi"
    using u(5) by simp_all
  have "inode_inv sbi'"
    using s' bm u(1-3) count_list_update_True [of n bm] by (auto simp: inode_inv_def test_bit_def nth_list_update)
  moreover have "bm[n := True] = bm" using u(3) list_update_id [of bm n] by (simp add: test_bit_def)
  then have "s_inode_bitmap (beamfs_free_inode_num K sbi' n) = s_inode_bitmap sbi
      \<and> s_free_inodes (beamfs_free_inode_num K sbi' n) = s_free_inodes sbi" if "3 \<le> n"
    using that s' u(2,3) bm(1) assms(3) False
    by (auto simp: beamfs_free_inode_num_def beamfs_ino_is_reserved_def Let_def test_bit_def)
  ultimately show ?thesis using False u s' by simp
qed

text \<open>C33: Inode 2 can be handed out and never comes back. The number is reserved for the conformance
  fixture, and user allocation is documented to start at 3; but the search starts at 2, so on a
  volume whose table has no inode 2 \<^const>\<open>beamfs_alloc_inode_num\<close> returns it, and
  \<^const>\<open>beamfs_free_inode_num\<close> ignores it because it is reserved.\<close>
theorem inode_two_leaks:
  assumes "inode_inv sbi" "\<not> s_failed sbi" "s_inode_bitmap sbi = Some bm" "test_bit 2 bm"
    and "beamfs_alloc_inode_num K sbi = (n, sbi')"
  shows "n = 2 \<and> beamfs_ino_is_reserved n \<and> beamfs_free_inode_num K sbi' n = sbi'
    \<and> s_free_inodes sbi' = s_free_inodes sbi - 1"
proof -
  have "True \<in> set bm" using assms(4) by (auto simp: test_bit_def in_set_conv_nth)
  then have "s_free_inodes sbi \<noteq> 0" using assms(1,3) by (auto simp: inode_inv_def count_list_0_iff)
  note t = alloc_inode_taken [OF assms(1-3) this]
  have "find_next_bit bm (s_ninodes sbi + 1) 2 = 2" using t(1,4) assms(4) by (metis le_antisym not_less order_refl)
  then show ?thesis
    using t(5) [of K] assms(5) by (auto simp: beamfs_free_inode_num_def beamfs_ino_is_reserved_def)
qed

subsection \<open>Witnesses\<close>

text \<open>One data block, number 10, free; four inode numbers, 2 and 3 free; no buffers.\<close>

definition wit_alloc :: sb_alloc where
  "wit_alloc = \<lparr>s_beamfs_sb = put_le64 16 1 (replicate 4096 0), s_sbh = None, s_sb_rs_staging = True,
     s_super_needs_encode = False, s_failed = False,
     s_nblocks = 1, s_data_start = 10, s_block_bitmap = Some [True], s_free_blocks = 1, s_alloc_goal = 0,
     s_ninodes = 3, s_inode_bitmap = Some [False, False, True, True], s_free_inodes = 2,
     s_bitmap_blkhs = None, s_bitmap_blocks_count = 1, s_bitmap_needs_encode = None,
     s_rsv_windows = [], s_rsv = (\<lambda>_. \<lparr>i_rsv_start = 0, i_rsv_end = 0, i_rsv_next = 0, i_rsv_size = 16,
       i_last_alloc = 0, i_blocks_counted = False, i_bytes = 0\<rparr>), s_treecheck = beamfs_tc_init\<rparr>"

lemma wit_alloc_simps [simp]:
  "s_failed wit_alloc = False" "s_nblocks wit_alloc = 1" "s_data_start wit_alloc = 10"
  "s_block_bitmap wit_alloc = Some [True]" "s_free_blocks wit_alloc = 1" "s_ninodes wit_alloc = 3"
  "s_inode_bitmap wit_alloc = Some [False, False, True, True]" "s_free_inodes wit_alloc = 2"
  "s_sbh wit_alloc = None" "s_bitmap_blkhs wit_alloc = None" "s_rsv_windows wit_alloc = []"
  "s_treecheck wit_alloc = beamfs_tc_init" "i_rsv_size (s_rsv wit_alloc i) = 16"
  by (simp_all add: wit_alloc_def)

lemma wit_alloc_inv: "alloc_inv wit_alloc" "inode_inv wit_alloc" "rsv_ok wit_alloc"
  "tc_inv (s_treecheck wit_alloc)"
  by (auto simp: alloc_inv_def inode_inv_def rsv_ok_def wit_alloc_def sb_free_blocks_def test_bit_def in_window_def
      tc_inv_def beamfs_tc_init_def)

text \<open>Without a superblock buffer and bitmap buffers nothing can fail the volume.\<close>

lemma no_buffers_ok:
  assumes "s_sbh s = None" "s_bitmap_blkhs s = None"
  shows "s_failed (snd (beamfs_alloc_block K s ow)) = s_failed s" "s_sbh (snd (beamfs_alloc_block K s ow)) = None"
    "s_bitmap_blkhs (snd (beamfs_alloc_block K s ow)) = None"
    "s_failed (beamfs_free_block K s b ow) = s_failed s" "s_sbh (beamfs_free_block K s b ow) = None"
    "s_bitmap_blkhs (beamfs_free_block K s b ow) = None"
proof -
  have w: "s_bitmap_blkhs t = None \<Longrightarrow> snd (beamfs_write_bitmap_block K t b) = t" for t :: "'a sb_alloc_scheme" and b
    by (simp add: beamfs_write_bitmap_block_def)
  have d: "s_sbh t = None \<Longrightarrow> beamfs_dirty_super K t = t\<lparr>s_super_needs_encode := False\<rparr>" for t :: "'a sb_alloc_scheme"
    by (simp add: beamfs_dirty_super_def beamfs_dirty_super_now_def)
  have i: "s_sbh (inode_add_bytes ow x t) = s_sbh t" for x and t :: "'a sb_alloc_scheme"
    by (simp add: inode_add_bytes_def split: option.split)
  note p = only_windows_frame [OF alloc_pick_spec(1)]
  show "s_failed (snd (beamfs_alloc_block K s ow)) = s_failed s" "s_sbh (snd (beamfs_alloc_block K s ow)) = None"
    "s_bitmap_blkhs (snd (beamfs_alloc_block K s ow)) = None"
    using assms by (simp_all add: beamfs_alloc_block_def Let_def case_prod_unfold w d i p split: option.split)
  show "s_failed (beamfs_free_block K s b ow) = s_failed s" "s_sbh (beamfs_free_block K s b ow) = None"
    "s_bitmap_blkhs (beamfs_free_block K s b ow) = None"
    using assms by (simp_all add: beamfs_free_block_def Let_def w d i)
qed

lemma one_block_alloc:
  assumes "alloc_inv s" "\<not> s_failed s" "s_nblocks s = 1" "s_block_bitmap s = Some [True]" "s_data_start s = 10"
  shows "fst (beamfs_alloc_block K s ow) = 10" "s_block_bitmap (snd (beamfs_alloc_block K s ow)) = Some [False]"
    "s_nblocks (snd (beamfs_alloc_block K s ow)) = 1" "s_data_start (snd (beamfs_alloc_block K s ow)) = 10"
    "s_free_blocks (snd (beamfs_alloc_block K s ow)) = 0"
proof -
  have f: "s_free_blocks s \<noteq> 0" "s_free_blocks s = 1" using assms(1,4) by (simp_all add: alloc_inv_def)
  have "fst (alloc_pick s [True] ow) = 0"
    using alloc_block_taken(1) [OF assms(1,2,4) f(1), where owner = ow] assms(3) by simp
  then show "fst (beamfs_alloc_block K s ow) = 10" "s_block_bitmap (snd (beamfs_alloc_block K s ow)) = Some [False]"
    "s_nblocks (snd (beamfs_alloc_block K s ow)) = 1" "s_data_start (snd (beamfs_alloc_block K s ow)) = 10"
    "s_free_blocks (snd (beamfs_alloc_block K s ow)) = 0"
    using alloc_block_taken(3-7) [OF assms(1,2,4) f(1), where owner = ow and K = K] assms(3,5) f by simp_all
qed

theorem alloc_block_correct_witness:
  "fst (beamfs_alloc_block port_kenv wit_alloc None) = 10
   \<and> s_free_blocks (snd (beamfs_alloc_block port_kenv wit_alloc None)) = 0"
proof -
  have "beamfs_alloc_block port_kenv wit_alloc None = (fst (beamfs_alloc_block port_kenv wit_alloc None),
      snd (beamfs_alloc_block port_kenv wit_alloc None))" by simp
  from alloc_block_correct [OF wit_alloc_inv(1) _ this] show ?thesis by simp
qed

theorem free_block_correct_witness:
  "s_free_blocks (beamfs_free_block port_kenv (snd (beamfs_alloc_block port_kenv wit_alloc None)) 10 None) = 1
   \<and> beamfs_free_block port_kenv wit_alloc 10 None = wit_alloc"
proof
  let ?s = "snd (beamfs_alloc_block port_kenv wit_alloc None)"
  note t = one_block_alloc [OF wit_alloc_inv(1), of port_kenv None, simplified]
  have "s_treecheck ?s = beamfs_tc_init"
    using only_windows_frame(11) [OF alloc_pick_spec(1) [of wit_alloc "[True]" None]]
    by (simp add: beamfs_alloc_block_def Let_def case_prod_unfold)
  then have tc: "tc_inv (s_treecheck ?s)" using wit_alloc_inv(4) by simp
  have "beamfs_block_is_allocated ?s 10" using t(2-4) by (simp add: beamfs_block_is_allocated_def test_bit_def)
  then show "s_free_blocks (beamfs_free_block port_kenv ?s 10 None) = 1"
    using free_block_correct [OF alloc_block_inv [OF wit_alloc_inv(1)] _ tc, where blk = 10 and K = port_kenv and owner = None]
      no_buffers_ok(1) [where s = wit_alloc and K = port_kenv and ow = None] t(3-5) by simp
  show "beamfs_free_block port_kenv wit_alloc 10 None = wit_alloc"
    using free_block_correct [OF wit_alloc_inv(1) _ wit_alloc_inv(4), of 10 _ port_kenv None]
    by (simp add: beamfs_block_is_allocated_def test_bit_def)
qed

theorem no_double_alloc_witness:
  "\<exists>s'. alloc_run port_kenv wit_alloc ([] @ Took 10 # [Freed 10] @ Took 10 # []) s'
     \<and> Freed 10 \<in> set [Freed 10]"
proof -
  let ?K = port_kenv
  let ?s1 = "snd (beamfs_alloc_block ?K wit_alloc None)"
  let ?s2 = "beamfs_free_block ?K ?s1 10 None"
  note t = one_block_alloc [OF wit_alloc_inv(1), of ?K None, simplified]
  note ok = no_buffers_ok(1-3) [where s = wit_alloc and K = ?K and ow = None, simplified]
  have i1: "alloc_inv ?s1" using alloc_block_inv [OF wit_alloc_inv(1)] .
  note u = free_block_taken [OF i1 _ t(2), of 0 ?K None, unfolded t(3,4), simplified, OF ok(1)]
  have "fst (beamfs_alloc_block ?K ?s2 None) = 10"
    by (rule one_block_alloc) (use u free_block_inv [OF i1] no_buffers_ok(4) [OF ok(2,3)] ok(1) t in simp_all)
  then have "beamfs_alloc_block ?K wit_alloc None = (10, ?s1)"
    "beamfs_alloc_block ?K ?s2 None = (10, snd (beamfs_alloc_block ?K ?s2 None))"
    using t(1) by (simp_all add: prod_eq_iff)
  then have "alloc_step ?K wit_alloc (Took 10) ?s1" "alloc_step ?K ?s1 (Freed 10) ?s2"
    "alloc_step ?K ?s2 (Took 10) (snd (beamfs_alloc_block ?K ?s2 None))"
    by (blast intro: alloc_step.intros)+
  then have run: "alloc_run ?K wit_alloc ([] @ Took 10 # [Freed 10] @ Took 10 # []) (snd (beamfs_alloc_block ?K ?s2 None))"
    by auto
  from no_double_alloc [OF this wit_alloc_inv(1)] run show ?thesis by auto
qed

theorem windows_stay_disjoint_witness:
  "rsv_ok (snd (beamfs_alloc_block port_kenv wit_alloc (Some 5)))
   \<and> in_window (snd (beamfs_alloc_block port_kenv wit_alloc (Some 5))) 5 0"
proof -
  have op: "rsv_open wit_alloc [True] (Some 5) True 0" by (simp add: rsv_open_def test_bit_def)
  show ?thesis
    using windows_stay_disjoint [OF wit_alloc_inv(1) _ wit_alloc_inv(3), of 5 0 port_kenv 10] op
      one_block_alloc(1) [OF wit_alloc_inv(1), of port_kenv "Some 5"]
    by (cases "beamfs_alloc_block port_kenv wit_alloc (Some 5)") simp
qed

theorem inode_num_correct_witness:
  "fst (beamfs_alloc_inode_num port_kenv wit_alloc) = 2"
  using inode_num_correct [OF wit_alloc_inv(2), of "[False, False, True, True]" port_kenv
      "fst (beamfs_alloc_inode_num port_kenv wit_alloc)" "snd (beamfs_alloc_inode_num port_kenv wit_alloc)"]
  by (auto simp: test_bit_def)

theorem inode_two_leaks_witness:
  "beamfs_free_inode_num port_kenv (snd (beamfs_alloc_inode_num port_kenv wit_alloc)) 2
   = snd (beamfs_alloc_inode_num port_kenv wit_alloc)"
  using inode_two_leaks [OF wit_alloc_inv(2), of "[False, False, True, True]" port_kenv
      "fst (beamfs_alloc_inode_num port_kenv wit_alloc)" "snd (beamfs_alloc_inode_num port_kenv wit_alloc)"]
  by (auto simp: test_bit_def)

text \<open>The same volume with its bitmap block in a buffer, and a superblock of that geometry.\<close>

definition wit_bhs :: sb_alloc where
  "wit_bhs = wit_alloc\<lparr>s_bitmap_blkhs := Some [Some \<lparr>b_data = beamfs_bitmap_encode_one_locked port_kenv [True] 1 0 [],
     b_uptodate = True, b_dirty = False\<rparr>]\<rparr>"

definition wit_fsb :: "byte list" where
  "wit_fsb = put_le64 2677 1 (put_le64 48 10 (put_le64 8 11 (replicate 4096 0)))"

lemma wit_fsb_simps: "sb_block_count wit_fsb = 11" "sb_data_start_blk wit_fsb = 10" "sb_bitmap_blk wit_fsb = 1"
  "beamfs_bitmap_blocks_count_from_flags (sb_flags wit_fsb) = 1"
proof -
  have p: "length b = 4096 \<Longrightarrow> get_le64 8 (put_le64 48 x b) = get_le64 8 b" "length b = 4096 \<Longrightarrow> get_le64 8 (put_le64 2677 x b) = get_le64 8 b"
    "length b = 4096 \<Longrightarrow> get_le64 48 (put_le64 2677 x b) = get_le64 48 b" for b x
    by (simp_all add: get_le64_def put_le64_def get_put_other)
  show "sb_block_count wit_fsb = 11" "sb_data_start_blk wit_fsb = 10" "sb_bitmap_blk wit_fsb = 1"
    by (simp_all add: wit_fsb_def sb_block_count_def sb_data_start_blk_def sb_bitmap_blk_def p)
  have "get_bytes 60 4 wit_fsb = replicate 4 0"
    by (simp add: wit_fsb_def put_le64_def get_put_other) (simp add: get_bytes_def)
  then have "sb_flags wit_fsb = 0" by (simp add: sb_flags_def get_le32_def le_to_cpu_def numeral_eq_Suc)
  then show "beamfs_bitmap_blocks_count_from_flags (sb_flags wit_fsb) = 1"
    by (simp add: beamfs_bitmap_blocks_count_from_flags_def)
qed

lemma wit_bhs_ok: "alloc_inv wit_bhs" "image_ok port_kenv wit_bhs" "\<not> s_failed wit_bhs"
  using wit_alloc_inv(1) bitmap_encode_one_ok [OF bport.bitmap_lib_axioms, where bm = "[True]" and n = 1 and k = 0 and d = "[]"]
  by (auto simp: wit_bhs_def alloc_inv_def image_ok_def wit_alloc_def)

theorem bitmap_remount_witness:
  "\<exists>m'. beamfs_setup_bitmap port_kenv
       (\<lambda>x. map_option b_data (the (s_bitmap_blkhs (snd (beamfs_alloc_block port_kenv wit_bhs None))) ! (x - 1)))
       (\<lambda>_ _. 0) True True True True (wit_alloc\<lparr>s_beamfs_sb := wit_fsb\<rparr>) = (None, m')
     \<and> s_block_bitmap m' = Some [False]"
proof -
  let ?s = "snd (beamfs_alloc_block port_kenv wit_bhs None)"
  note t = one_block_alloc [OF wit_bhs_ok(1,3), of port_kenv None]
  have f: "s_nblocks wit_bhs = 1" "s_block_bitmap wit_bhs = Some [True]" "s_data_start wit_bhs = 10" "s_sbh wit_bhs = None"
    by (simp_all add: wit_bhs_def)
  have ok: "\<not> s_failed ?s" "s_bitmap_blocks_count ?s = 1"
    using only_windows_frame [OF alloc_pick_spec(1) [of wit_bhs "[True]" None]] f wit_bhs_ok(3)
    by (auto simp: beamfs_alloc_block_def Let_def case_prod_unfold beamfs_write_bitmap_block_def
        beamfs_dirty_super_def beamfs_dirty_super_now_def inode_add_bytes_def wit_bhs_def wit_alloc_def)
  have img: "image_ok port_kenv ?s" using alloc_block_image [OF bport.bitmap_lib_axioms wit_bhs_ok(1,2) ok(1)] .
  obtain bhs where bhs: "s_bitmap_blkhs ?s = Some bhs" using img by (auto simp: image_ok_def)
  have "\<exists>bh. bhs ! 0 = Some bh \<and> length (b_data bh) = 4096"
    using img bhs t(3) f by (fastforce simp: image_ok_def)
  then have reads: "bitmap_reads (\<lambda>x. map_option b_data (bhs ! (x - 1))) 1 1 bhs"
    by (auto simp: bitmap_reads_def region_errs_def errors_def)
  show ?thesis
    using bitmap_remount [OF bport.bitmap_lib_axioms wit_bhs_ok(1,2) _ _ ok(1), of None undefined wit_fsb
        "\<lambda>x. map_option b_data (bhs ! (x - 1))" "wit_alloc\<lparr>s_beamfs_sb := wit_fsb\<rparr>"]
      t f reads bhs ok wit_fsb_simps by simp
qed

end
