(* ===== verification/Volume.thy ===== *)
theory Volume
  imports Alloc_Correct
begin

section \<open>A mounted volume: blocks, inodes, wear and alerts\<close>

text \<open>
  The state the rest of the driver works on: the allocator's superblock record extended by the block
  cache, the inodes in memory, the cached feature words and the counters of \<^verbatim>\<open>struct beamfs_sb_info\<close>.
  Three small files work on it alone and are modelled here: \<^verbatim>\<open>budget.c\<close> (one byte per data block, the
  most symbols a subblock of it ever needed corrected), \<^verbatim>\<open>alert.c\<close> (rate-limited notices) and
  \<^verbatim>\<open>clock.c\<close> (the pair of clock readings that dates the event journal).

  A block number is a \<^typ>\<open>nat\<close>; a pointer read from the medium is a \<^typ>\<open>u64\<close> and read as one. The
  block cache \<open>s_blk\<close> gives the buffer of a block, \<^const>\<open>None\<close> for one the device cannot read. Which
  allocations succeed (\<open>s_getblk_ok\<close> and the four fields after it) and what the clocks read (\<open>s_clk\<close>) are
  fields, so that no operation assumes either.

  What is proved: the mark of a block only rises, to the capped count, and no other moves; the
  search for worn blocks returns the first one; two notices of one class are never closer than the
  interval.
\<close>

subsection \<open>State\<close>

record clocks =
  k_ktime_ns :: u64
  k_real_ns :: u64
  k_real_seconds :: int
  k_jiffies :: u64
  k_hz :: u64
  k_time :: "int \<times> int"

text \<open>The operations an inode is given, for the assignments of \<^verbatim>\<open>i_op\<close>, \<^verbatim>\<open>i_fop\<close> and \<^verbatim>\<open>a_ops\<close>.\<close>

datatype inode_ops = Dir_ops | Inline_ops | Legacy_ops | Symlink_ops | Special_ops

text \<open>An inode in memory: \<^verbatim>\<open>struct inode\<close> and the pointers of \<^verbatim>\<open>struct beamfs_inode_info\<close>. The
  reservation fields of the latter are in the allocator's \<open>s_rsv\<close>.\<close>

record vinode =
  i_mode :: u16
  i_uid :: u32
  i_gid :: u32
  i_nlink :: u32
  i_size :: u64
  i_atime :: "int \<times> int"
  i_mtime :: "int \<times> int"
  i_ctime :: "int \<times> int"
  i_flags :: u32
  i_immutable :: bool
  i_direct :: "u64 list"
  i_indirect :: u64
  i_dindirect :: u64
  i_tindirect :: u64
  i_ops :: inode_ops
  i_dirty :: bool

datatype alert_detail =
    Unrecoverable nat
  | No_margin nat
  | Correction_rate u64 u32

text \<open>The decode of a parity region block a CPU keeps (\<^verbatim>\<open>struct ind_region_cache\<close>).\<close>

record ind_region_cache =
  rc_blocknr :: nat
  rc_gen :: u64
  rc_ret :: "errno option"
  rc_data :: "byte list"

record volume = sb_alloc +
  s_blk :: "nat \<Rightarrow> buffer_head option"
  s_verified :: "nat \<Rightarrow> bool"
  s_getblk_ok :: bool
  s_scratch_ok :: bool
  s_copy_ok :: bool
  s_rcache_ok :: bool
  s_inode_ok :: bool
  s_clk :: clocks
  s_inode :: "ino \<Rightarrow> vinode"
  s_icached :: "ino \<Rightarrow> bool"
  s_scheme :: u32
  s_feat_incompat :: u64
  s_data_csum :: bool
  s_data_selfid :: bool
  s_ind_parity_blk :: nat
  s_ind_parity_len :: nat
  s_ind_parity_mode :: u32
  s_ind_parity_gen :: u64
  s_ind_rcache :: "ind_region_cache option"
  s_budget_blk :: nat
  s_budget_len :: nat
  s_anchor_mono :: u64
  s_anchor_real :: u64
  s_anchor_quality :: u32
  s_kobj_initialized :: bool
  s_alert_last :: "u64 list"
  s_alert_last_corrected :: u64
  s_alert_rate_limit :: u32
  s_scrub_corrected :: u64
  s_uevents :: "(nat \<times> u64 \<times> alert_detail) list"

text \<open>\<^verbatim>\<open>beamfs_bread\<close>: a block that cannot be read is a volume that has failed.\<close>

definition beamfs_bread :: "'a volume_scheme \<Rightarrow> nat \<Rightarrow> buffer_head option \<times> 'a volume_scheme" where
  "beamfs_bread v block =
     (case s_blk v block of None \<Rightarrow> (None, beamfs_fail v) | Some bh \<Rightarrow> (Some bh, v))"

text \<open>The buffer of a block replaced by \<open>data\<close>, up to date and dirty: what a \<^verbatim>\<open>memcpy\<close> into \<^verbatim>\<open>b_data\<close>,
  \<^verbatim>\<open>set_buffer_uptodate\<close> and \<^verbatim>\<open>mark_buffer_dirty\<close> leave.\<close>

definition write_buffer :: "nat \<Rightarrow> byte list \<Rightarrow> 'a volume_scheme \<Rightarrow> 'a volume_scheme" where
  "write_buffer block data v =
     v\<lparr>s_blk := (s_blk v)(block \<mapsto> \<lparr>b_data = data, b_uptodate = True, b_dirty = True\<rparr>)\<rparr>"

definition upd_inode :: "ino \<Rightarrow> (vinode \<Rightarrow> vinode) \<Rightarrow> 'a volume_scheme \<Rightarrow> 'a volume_scheme" where
  "upd_inode ino f v = v\<lparr>s_inode := (s_inode v)(ino := f (s_inode v ino))\<rparr>"

definition mark_inode_dirty :: "ino \<Rightarrow> 'a volume_scheme \<Rightarrow> 'a volume_scheme" where
  "mark_inode_dirty ino = upd_inode ino (\<lambda>i. i\<lparr>i_dirty := True\<rparr>)"

subsection \<open>Alerts\<close>

definition BEAMFS_ALERT_UNCORRECTABLE :: nat where "BEAMFS_ALERT_UNCORRECTABLE = 0"
definition BEAMFS_ALERT_MARGIN :: nat where "BEAMFS_ALERT_MARGIN = 1"
definition BEAMFS_ALERT_RATE :: nat where "BEAMFS_ALERT_RATE = 2"
abbreviation "BEAMFS_ALERT_CLASSES \<equiv> 3 :: nat"
abbreviation "BEAMFS_ERROR_BUDGET_MAX \<equiv> 8 :: nat"

text \<open>\<^verbatim>\<open>msecs_to_jiffies(BEAMFS_ALERT_INTERVAL_MS)\<close> for sixty seconds, and the kernel's comparison of
  two tick counts.\<close>

definition alert_interval :: "clocks \<Rightarrow> u64" where
  "alert_interval c = 60 * k_hz c"

definition time_before :: "u64 \<Rightarrow> u64 \<Rightarrow> bool" where
  "time_before a b \<longleftrightarrow> sint (a - b) < 0"

text \<open>The notice itself, \<^verbatim>\<open>kobject_uevent_env\<close>, is an entry of \<open>s_uevents\<close>, newest first.\<close>

definition beamfs_alert :: "'a volume_scheme \<Rightarrow> nat \<Rightarrow> alert_detail \<Rightarrow> 'a volume_scheme" where
  "beamfs_alert v cls detail =
     (let now = k_jiffies (s_clk v)
      in if cls \<ge> BEAMFS_ALERT_CLASSES then v
         else if \<not> s_kobj_initialized v then v
         else if s_alert_last v ! cls \<noteq> 0
                 \<and> time_before now (s_alert_last v ! cls + alert_interval (s_clk v)) then v
         else v\<lparr>s_alert_last := (s_alert_last v)[cls := (if now \<noteq> 0 then now else 1)],
                s_uevents := (cls, now, detail) # s_uevents v\<rparr>)"

definition beamfs_alert_uncorrectable :: "'a volume_scheme \<Rightarrow> nat \<Rightarrow> 'a volume_scheme" where
  "beamfs_alert_uncorrectable v phys = beamfs_alert v BEAMFS_ALERT_UNCORRECTABLE (Unrecoverable phys)"

definition beamfs_alert_margin :: "'a volume_scheme \<Rightarrow> nat \<Rightarrow> nat \<Rightarrow> 'a volume_scheme" where
  "beamfs_alert_margin v phys used =
     (if used < BEAMFS_ERROR_BUDGET_MAX then v
      else beamfs_alert v BEAMFS_ALERT_MARGIN (No_margin phys))"

definition beamfs_alert_check_rate :: "'a volume_scheme \<Rightarrow> 'a volume_scheme" where
  "beamfs_alert_check_rate v =
     (if s_alert_rate_limit v = 0 then v
      else
        let delta = s_scrub_corrected v - s_alert_last_corrected v;
            v = v\<lparr>s_alert_last_corrected := s_scrub_corrected v\<rparr>
        in if delta < ucast (s_alert_rate_limit v) then v
           else beamfs_alert v BEAMFS_ALERT_RATE (Correction_rate delta (s_alert_rate_limit v)))"

subsection \<open>The error budget\<close>

definition budget_active :: "'a volume_scheme \<Rightarrow> bool" where
  "budget_active v \<longleftrightarrow> s_budget_blk v \<noteq> 0 \<and> s_budget_len v \<noteq> 0"

definition budget_slot :: "'a volume_scheme \<Rightarrow> nat \<Rightarrow> (nat \<times> nat) option" where
  "budget_slot v phys =
     (if \<not> budget_active v \<or> phys < s_data_start v then None
      else
        let index = phys - s_data_start v;
            region_blk = s_budget_blk v + index div BEAMFS_BLOCK_SIZE;
            offset = index mod BEAMFS_BLOCK_SIZE
        in if region_blk < s_budget_blk v + s_budget_len v then Some (region_blk, offset) else None)"

definition beamfs_budget_record :: "'a volume_scheme \<Rightarrow> nat \<Rightarrow> nat \<Rightarrow> 'a volume_scheme" where
  "beamfs_budget_record v phys symbols =
     (if symbols = 0 then v
      else case budget_slot v phys of
        None \<Rightarrow> v
      | Some (region_blk, offset) \<Rightarrow>
          let capped = word_of_nat (min symbols BEAMFS_ERROR_BUDGET_MAX) :: byte
          in case s_blk v region_blk of
               None \<Rightarrow> v
             | Some bh \<Rightarrow>
                 if b_data bh ! offset < capped
                 then beamfs_alert_margin
                        (v\<lparr>s_blk := (s_blk v)(region_blk \<mapsto>
                             mark_buffer_dirty (bh\<lparr>b_data := (b_data bh)[offset := capped]\<rparr>))\<rparr>)
                        phys (unat capped)
                 else v)"

definition beamfs_budget_read :: "'a volume_scheme \<Rightarrow> nat \<Rightarrow> byte" where
  "beamfs_budget_read v phys =
     (case budget_slot v phys of
        None \<Rightarrow> 0
      | Some (region_blk, offset) \<Rightarrow>
          (case s_blk v region_blk of None \<Rightarrow> 0 | Some bh \<Rightarrow> b_data bh ! offset))"

text \<open>The outer loop of the search: one region block at a time, the inner loop over its bytes.\<close>

function next_worn_loop :: "'a volume_scheme \<Rightarrow> byte \<Rightarrow> nat \<Rightarrow> nat \<Rightarrow> nat" where
  "next_worn_loop v threshold last' phys =
     (if phys \<ge> last' then 0
      else case budget_slot v phys of
        None \<Rightarrow> 0
      | Some (region_blk, offset) \<Rightarrow>
          let span = min (BEAMFS_BLOCK_SIZE - offset) (last' - phys)
          in case s_blk v region_blk of
               None \<Rightarrow> next_worn_loop v threshold last' (phys + span)
             | Some bh \<Rightarrow>
                 (case find (\<lambda>i. b_data bh ! (offset + i) \<ge> threshold) [0..<span] of
                    Some i \<Rightarrow> phys + i
                  | None \<Rightarrow> next_worn_loop v threshold last' (phys + span)))"
  by pat_completeness auto

lemma budget_slot_offset: "budget_slot v phys = Some (r, off) \<Longrightarrow> off < 4096"
  by (auto simp: budget_slot_def Let_def split: if_splits)

termination next_worn_loop
  by (relation "measure (\<lambda>(v, threshold, last', phys). last' - phys)")
    (auto dest: budget_slot_offset)

declare next_worn_loop.simps [simp del]

definition beamfs_budget_next_worn :: "'a volume_scheme \<Rightarrow> nat \<Rightarrow> byte \<Rightarrow> nat" where
  "beamfs_budget_next_worn v from' threshold =
     (if s_budget_len v = 0 then 0
      else next_worn_loop v threshold (s_data_start v + s_nblocks v) (max from' (s_data_start v)))"

text \<open>The bytes of one region block counted into the histogram, until every data block was seen.\<close>

primrec histogram_block :: "nat \<Rightarrow> byte list \<Rightarrow> nat \<times> nat list \<Rightarrow> nat \<times> nat list" where
  "histogram_block nblocks [] st = st"
| "histogram_block nblocks (b # bs) st =
     (case st of (seen, hist) \<Rightarrow>
        if seen \<ge> nblocks then (seen, hist)
        else let w = min (unat b) BEAMFS_ERROR_BUDGET_MAX
             in histogram_block nblocks bs (seen + 1, hist[w := hist ! w + 1]))"

definition beamfs_budget_histogram :: "'a volume_scheme \<Rightarrow> nat list" where
  "beamfs_budget_histogram v =
     (let hist = replicate (BEAMFS_ERROR_BUDGET_MAX + 1) 0
      in if \<not> budget_active v then hist
         else snd (fold (\<lambda>blk st. case s_blk v (s_budget_blk v + blk) of
                                    None \<Rightarrow> st
                                  | Some bh \<Rightarrow> histogram_block (s_nblocks v) (b_data bh) st)
                     [0..<s_budget_len v] (0, hist)))"

subsection \<open>The clock anchor\<close>

definition beamfs_clock_quality :: "u32 \<Rightarrow> clocks \<Rightarrow> u32" where
  "beamfs_clock_quality clock_source c =
     (let q = (if clock_source > 3 then 0 else clock_source)
      in if q > 0 \<and> k_real_seconds c < 1000000000 then 0 else q)"

definition beamfs_clock_anchor :: "kenv \<Rightarrow> u32 \<Rightarrow> 'a volume_scheme \<Rightarrow> 'a volume_scheme" where
  "beamfs_clock_anchor K clock_source v =
     (let quality = beamfs_clock_quality clock_source (s_clk v);
          mono_ns = k_ktime_ns (s_clk v);
          real = k_real_ns (s_clk v);
          v = v\<lparr>s_anchor_mono := mono_ns, s_anchor_real := real, s_anchor_quality := quality\<rparr>;
          fsb = put_le32 2761 quality (put_le64 2753 real (put_le64 2745 mono_ns (s_beamfs_sb v)))
      in beamfs_dirty_super K (v\<lparr>s_beamfs_sb := fsb\<rparr>))"

definition beamfs_clock_to_real :: "'a volume_scheme \<Rightarrow> u64 \<Rightarrow> u64" where
  "beamfs_clock_to_real v mono_ns =
     (if s_anchor_real v = 0 then 0
      else if mono_ns \<ge> s_anchor_mono v then s_anchor_real v + (mono_ns - s_anchor_mono v)
      else s_anchor_real v - (s_anchor_mono v - mono_ns))"

subsection \<open>What an operation of this theory leaves alone\<close>

definition budget_region :: "'a volume_scheme \<Rightarrow> nat set" where
  "budget_region v = {s_budget_blk v ..< s_budget_blk v + s_budget_len v}"

text \<open>The superblock image, the notices and the budget region are the only things an event moves.\<close>

definition quiet :: "'a volume_scheme \<Rightarrow> 'a volume_scheme \<Rightarrow> bool" where
  "quiet v v' \<longleftrightarrow>
     s_nblocks v' = s_nblocks v \<and> s_data_start v' = s_data_start v \<and> s_block_bitmap v' = s_block_bitmap v
     \<and> s_free_blocks v' = s_free_blocks v \<and> s_alloc_goal v' = s_alloc_goal v \<and> s_bitmap_blkhs v' = s_bitmap_blkhs v
     \<and> s_bitmap_blocks_count v' = s_bitmap_blocks_count v \<and> s_rsv_windows v' = s_rsv_windows v \<and> s_rsv v' = s_rsv v
     \<and> s_treecheck v' = s_treecheck v \<and> s_inode v' = s_inode v \<and> s_icached v' = s_icached v
     \<and> s_scratch_ok v' = s_scratch_ok v \<and> s_copy_ok v' = s_copy_ok v \<and> s_rcache_ok v' = s_rcache_ok v \<and> s_getblk_ok v' = s_getblk_ok v \<and> s_inode_ok v' = s_inode_ok v
     \<and> s_clk v' = s_clk v \<and> s_budget_blk v' = s_budget_blk v \<and> s_budget_len v' = s_budget_len v
     \<and> s_verified v' = s_verified v \<and> s_feat_incompat v' = s_feat_incompat v \<and> s_scheme v' = s_scheme v
     \<and> s_data_csum v' = s_data_csum v \<and> s_data_selfid v' = s_data_selfid v \<and> s_ind_parity_blk v' = s_ind_parity_blk v
     \<and> s_ind_parity_len v' = s_ind_parity_len v \<and> s_ind_parity_mode v' = s_ind_parity_mode v \<and> s_ind_parity_gen v' = s_ind_parity_gen v
     \<and> s_ind_rcache v' = s_ind_rcache v \<and> s_inode_bitmap v' = s_inode_bitmap v \<and> s_ninodes v' = s_ninodes v
     \<and> s_free_inodes v' = s_free_inodes v \<and> s_sb_rs_staging v' = s_sb_rs_staging v
     \<and> (\<forall>b. b \<notin> budget_region v \<longrightarrow> s_blk v' b = s_blk v b) \<and> (s_failed v \<longrightarrow> s_failed v')"

lemma quiet_refl [simp, intro]: "quiet v v"
  by (simp add: quiet_def)

lemma quietD:
  assumes "quiet v v'"
  shows "s_nblocks v' = s_nblocks v" "s_data_start v' = s_data_start v" "s_block_bitmap v' = s_block_bitmap v"
    "s_free_blocks v' = s_free_blocks v" "s_alloc_goal v' = s_alloc_goal v" "s_bitmap_blkhs v' = s_bitmap_blkhs v"
    "s_bitmap_blocks_count v' = s_bitmap_blocks_count v" "s_rsv_windows v' = s_rsv_windows v" "s_rsv v' = s_rsv v"
    "s_treecheck v' = s_treecheck v" "s_inode v' = s_inode v" "s_icached v' = s_icached v"
    "s_scratch_ok v' = s_scratch_ok v" "s_getblk_ok v' = s_getblk_ok v" "s_inode_ok v' = s_inode_ok v"
    "s_clk v' = s_clk v" "s_budget_blk v' = s_budget_blk v" "s_budget_len v' = s_budget_len v"
    "s_verified v' = s_verified v" "s_feat_incompat v' = s_feat_incompat v" "s_scheme v' = s_scheme v"
    "s_data_csum v' = s_data_csum v" "s_data_selfid v' = s_data_selfid v" "s_ind_parity_blk v' = s_ind_parity_blk v"
    "s_ind_parity_len v' = s_ind_parity_len v" "s_ind_parity_mode v' = s_ind_parity_mode v" "s_ind_parity_gen v' = s_ind_parity_gen v"
    "s_ind_rcache v' = s_ind_rcache v" "s_inode_bitmap v' = s_inode_bitmap v" "s_ninodes v' = s_ninodes v"
    "s_free_inodes v' = s_free_inodes v" "s_sb_rs_staging v' = s_sb_rs_staging v"
    "budget_region v' = budget_region v" "s_copy_ok v' = s_copy_ok v" "s_rcache_ok v' = s_rcache_ok v"
    "s_failed v \<Longrightarrow> s_failed v'"
  using assms by (simp_all add: quiet_def budget_region_def)

lemma quiet_blk: "quiet v v' \<Longrightarrow> b \<notin> budget_region v \<Longrightarrow> s_blk v' b = s_blk v b"
  by (simp add: quiet_def)

lemma quiet_trans: "quiet v v' \<Longrightarrow> quiet v' v'' \<Longrightarrow> quiet v v''"
  by (simp add: quiet_def budget_region_def)

lemma quiet_dirty_super: "quiet v (beamfs_dirty_super K (v\<lparr>s_beamfs_sb := fsb\<rparr>))"
  by (simp add: quiet_def beamfs_dirty_super_def beamfs_dirty_super_now_def beamfs_fail_def Let_def
      split: option.split)

lemma quiet_log [simp]: "quiet v (beamfs_log_rs_event_flagged K now v blk positions n len flags)"
  by (auto simp: beamfs_log_rs_event_flagged_def Let_def case_prod_unfold quiet_dirty_super)

lemma log_blk [simp]: "s_blk (beamfs_log_rs_event_flagged K now v blk positions n len flags) = s_blk v"
  by (simp add: beamfs_log_rs_event_flagged_def Let_def case_prod_unfold beamfs_dirty_super_def
      beamfs_dirty_super_now_def beamfs_fail_def split: option.split)

lemma quiet_alert [simp]: "quiet v (beamfs_alert v cls d)"
  by (simp add: beamfs_alert_def quiet_def Let_def)

lemma budget_slot_region: "budget_slot v phys = Some (r, off) \<Longrightarrow> r \<in> budget_region v"
  by (auto simp: budget_slot_def budget_region_def Let_def split: if_splits)

lemma quiet_budget [simp]: "quiet v (beamfs_budget_record v phys n)"
proof (cases "budget_slot v phys")
  case None
  then show ?thesis by (simp add: beamfs_budget_record_def)
next
  case (Some ro)
  obtain r off where ro: "ro = (r, off)" by (cases ro)
  have "quiet v (v\<lparr>s_blk := (s_blk v)(r \<mapsto> bh)\<rparr>)" for bh
    using budget_slot_region [OF Some [unfolded ro]] by (auto simp: quiet_def)
  then have "quiet v (beamfs_alert (v\<lparr>s_blk := (s_blk v)(r \<mapsto> bh)\<rparr>) cls d)" for bh cls d
    using quiet_trans quiet_alert by blast
  then show ?thesis
    using Some ro \<open>\<And>bh. quiet v (v\<lparr>s_blk := (s_blk v)(r \<mapsto> bh)\<rparr>)\<close>
    by (auto simp: beamfs_budget_record_def beamfs_alert_margin_def Let_def split: option.split)
qed

lemma alert_blk [simp]: "s_blk (beamfs_alert v cls d) = s_blk v" "s_blk (beamfs_alert_margin v phys n) = s_blk v"
  by (simp_all add: beamfs_alert_def beamfs_alert_margin_def Let_def)

subsection \<open>Marks and the search for worn blocks\<close>

lemma budget_slot_inj:
  assumes "budget_slot v p = Some s" "budget_slot v q = Some s" shows "p = q"
proof -
  let ?a = "p - s_data_start v" and ?b = "q - s_data_start v"
  have ge: "s_data_start v \<le> p" "s_data_start v \<le> q"
    and "?a div 4096 = ?b div 4096" "?a mod 4096 = ?b mod 4096"
    using assms by (auto simp: budget_slot_def Let_def split: if_splits)
  then have "?a = ?b" by (metis div_mult_mod_eq)
  with ge show ?thesis by linarith
qed

lemma budget_slot_cong:
  "s_budget_blk v' = s_budget_blk v \<Longrightarrow> s_budget_len v' = s_budget_len v \<Longrightarrow> s_data_start v' = s_data_start v
   \<Longrightarrow> budget_slot v' = budget_slot v"
  by (rule ext) (simp add: budget_slot_def budget_active_def)

lemma budget_record_blk:
  assumes "budget_slot v phys = Some (r, off)" "s_blk v r = Some bh" "n \<noteq> 0"
  shows "s_blk (beamfs_budget_record v phys n) =
    (if b_data bh ! off < word_of_nat (min n 8)
     then (s_blk v)(r \<mapsto> mark_buffer_dirty (bh\<lparr>b_data := (b_data bh)[off := word_of_nat (min n 8)]\<rparr>))
     else s_blk v)"
  using assms by (simp add: beamfs_budget_record_def Let_def)

text \<open>Within a region block, offset \<open>i\<close> past the byte of \<open>phys\<close> is the byte of \<open>phys + i\<close>.\<close>

lemma budget_slot_run:
  assumes s: "budget_slot v phys = Some (r, off)" and i: "off + i < 4096"
  shows "budget_slot v (phys + i) = Some (r, off + i)"
proof -
  let ?a = "phys - s_data_start v"
  have ge: "s_data_start v \<le> phys" and off: "off = ?a mod 4096" and r: "r = s_budget_blk v + ?a div 4096"
    using s by (auto simp: budget_slot_def Let_def split: if_splits)
  have "phys + i - s_data_start v = ?a div 4096 * 4096 + (off + i)"
    using ge off div_mult_mod_eq [of ?a 4096] by linarith
  then have "(phys + i - s_data_start v) div 4096 = ?a div 4096" "(phys + i - s_data_start v) mod 4096 = off + i"
    using i by simp_all
  then show ?thesis using s ge r by (auto simp: budget_slot_def Let_def split: if_splits)
qed

lemma budget_read_run:
  assumes "budget_slot v phys = Some (r, off)" "off + i < 4096"
  shows "beamfs_budget_read v (phys + i) = (case s_blk v r of None \<Rightarrow> 0 | Some bh \<Rightarrow> b_data bh ! (off + i))"
  using budget_slot_run [OF assms] by (simp add: beamfs_budget_read_def)

definition worn_first :: "'a volume_scheme \<Rightarrow> byte \<Rightarrow> nat \<Rightarrow> nat \<Rightarrow> nat \<Rightarrow> bool" where
  "worn_first v threshold from' last' r \<longleftrightarrow>
     (r \<noteq> 0 \<longrightarrow> from' \<le> r \<and> r < last' \<and> threshold \<le> beamfs_budget_read v r)
     \<and> (\<forall>p. from' \<le> p \<and> p < last' \<and> (r = 0 \<or> p < r) \<longrightarrow> beamfs_budget_read v p < threshold)"

lemma worn_first_skip:
  assumes "worn_first v th (phys + span) last' r"
    and "\<And>i. i < span \<Longrightarrow> beamfs_budget_read v (phys + i) < th"
  shows "worn_first v th phys last' r"
proof -
  have "beamfs_budget_read v p < th" if "phys \<le> p" "p < phys + span" for p
    using assms(2) [of "p - phys"] that by simp
  then show ?thesis using assms(1) unfolding worn_first_def by (meson le_add1 le_trans not_le)
qed

lemma next_worn_loop_first:
  assumes cover: "\<And>p. s_data_start v \<le> p \<Longrightarrow> p < last' \<Longrightarrow> budget_slot v p \<noteq> None"
    and "s_data_start v \<le> phys" "0 < phys" "0 < th"
  shows "worn_first v th phys last' (next_worn_loop v th last' phys)"
  using assms
proof (induction v th last' phys rule: next_worn_loop.induct)
  case (1 v th last' phys)
  show ?case
  proof (cases "phys \<ge> last'")
    case True
    then show ?thesis by (auto simp: next_worn_loop.simps worn_first_def)
  next
    case False
    then obtain r off where s: "budget_slot v phys = Some (r, off)" using 1(3) [of phys] 1(4) by force
    define span where "span = min (4096 - off) (last' - phys)"
    have in_blk: "off + i < 4096" if "i < span" for i using that unfolding span_def by linarith
    note run = budget_read_run [OF s in_blk]
    show ?thesis
    proof (cases "s_blk v r")
      case None
      then have "worn_first v th (phys + span) last' (next_worn_loop v th last' (phys + span))"
        using 1(1) [OF False s refl span_def None 1(3)] 1(4-6) by simp
      moreover have "next_worn_loop v th last' phys = next_worn_loop v th last' (phys + span)"
        using False s None by (subst next_worn_loop.simps) (simp add: span_def Let_def)
      moreover have "beamfs_budget_read v (phys + i) < th" if "i < span" for i
        using run [OF that] None 1(6) by simp
      ultimately show ?thesis using worn_first_skip [of v th phys span last'] by simp
    next
      case (Some bh)
      let ?find = "find (\<lambda>i. b_data bh ! (off + i) \<ge> th) [0..<span]"
      have unf: "next_worn_loop v th last' phys = (case ?find of Some i \<Rightarrow> phys + i
          | None \<Rightarrow> next_worn_loop v th last' (phys + span))"
        using False s Some by (subst next_worn_loop.simps) (simp add: span_def Let_def split: option.split)
      show ?thesis
      proof (cases ?find)
        case None
        then have "beamfs_budget_read v (phys + i) < th" if "i < span" for i
          using run [OF that] Some that by (auto simp: find_None_iff not_le)
        moreover have "worn_first v th (phys + span) last' (next_worn_loop v th last' (phys + span))"
          using 1(2) [OF False s refl span_def Some None 1(3)] 1(4-6) by simp
        ultimately show ?thesis using worn_first_skip [of v th phys span last'] unf None by simp
      next
        fix i assume f: "?find = Some i"
        then have i: "i < span" "th \<le> b_data bh ! (off + i)" "\<forall>j < i. b_data bh ! (off + j) < th"
          by (auto simp: find_Some_iff not_le)
        have "beamfs_budget_read v p < th" if "phys \<le> p" "p < phys + i" for p
          using run [of "p - phys"] Some i(1) i(3) [rule_format, of "p - phys"] that by simp
        then show ?thesis
          using unf f i Some run [OF i(1)] 1(5) by (auto simp: worn_first_def span_def)
      qed
    qed
  qed
qed

subsection \<open>Runs of alerts\<close>

text \<open>What can happen to the rate limiter: time passes, or a caller has something to say.\<close>

datatype alert_op = Tick nat | Uncorrectable nat | Margin nat nat | Check_rate

primrec alert_op_step :: "alert_op \<Rightarrow> 'a volume_scheme \<Rightarrow> 'a volume_scheme" where
  "alert_op_step (Tick d) v = v\<lparr>s_clk := (s_clk v)\<lparr>k_jiffies := k_jiffies (s_clk v) + word_of_nat d\<rparr>\<rparr>"
| "alert_op_step (Uncorrectable p) v = beamfs_alert_uncorrectable v p"
| "alert_op_step (Margin p n) v = beamfs_alert_margin v p n"
| "alert_op_step Check_rate v = beamfs_alert_check_rate v"

text \<open>The times of the notices of a class, newest first.\<close>

definition class_times :: "nat \<Rightarrow> 'a volume_scheme \<Rightarrow> u64 list" where
  "class_times cls v = map (fst \<circ> snd) (filter (\<lambda>e. fst e = cls) (s_uevents v))"

definition spaced :: "u64 \<Rightarrow> u64 list \<Rightarrow> bool" where
  "spaced gap ts \<longleftrightarrow> successively (\<lambda>later earlier. gap \<le> later - earlier) ts"

text \<open>What the limiter remembers of a class is the time of its last notice, one later when that was
  tick zero.\<close>

definition limiter_ok :: "'a volume_scheme \<Rightarrow> nat \<Rightarrow> bool" where
  "limiter_ok v cls \<longleftrightarrow>
     spaced (alert_interval (s_clk v)) (class_times cls v)
     \<and> (case class_times cls v of
          [] \<Rightarrow> True
        | t # _ \<Rightarrow> s_alert_last v ! cls = (if t = 0 then 1 else t))"

lemma alert_other_class:
  assumes "limiter_ok v c" "c \<noteq> cls"
  shows "limiter_ok (beamfs_alert v cls d) c"
proof -
  have "class_times c (beamfs_alert v cls d) = class_times c v"
    "s_alert_last (beamfs_alert v cls d) ! c = s_alert_last v ! c" "s_clk (beamfs_alert v cls d) = s_clk v"
    using assms(2) by (simp_all add: beamfs_alert_def Let_def class_times_def)
  then show ?thesis using assms(1) by (simp only: limiter_ok_def)
qed

lemma sint_negative:
  assumes "9223372036854775808 \<le> unat (w :: u64)" shows "sint w < 0"
proof -
  have "unat w < 2 * 9223372036854775808" using unsigned_less [of w, where 'a = nat] by simp
  then have "unat w div 9223372036854775808 < 2" by (rule less_mult_imp_div_less)
  moreover have "0 < unat w div 9223372036854775808" using assms by (simp only: div_greater_zero_iff) simp
  ultimately have "unat w div 9223372036854775808 = 1" by linarith
  then have "bit (unat w) 63" by (simp only: bit_iff_odd) simp
  then have "bit w (LENGTH(64) - Suc 0)" by (simp add: bit_unsigned_iff)
  then show ?thesis by (simp only: bit_last_iff)
qed

lemma not_time_before:
  assumes "\<not> time_before now (lst + gap)" "unat gap < 2 ^ 62"
  shows "gap \<le> now - lst" and "now - lst \<noteq> - 1"
proof -
  let ?d = "now - lst"
  have nn: "\<not> sint (?d - gap) < 0" using assms(1) unfolding time_before_def diff_diff_eq .
  then have lt: "unat (?d - gap) < 9223372036854775808" using sint_negative not_le by blast
  show le: "gap \<le> ?d"
  proof (rule ccontr)
    assume "\<not> gap \<le> ?d"
    then have "unat ?d < unat gap" by (simp only: word_le_nat_alt not_le)
    then have "unat (?d - gap) = unat ?d + 2 ^ 64 - unat gap" by (simp only: unat_sub_if' if_not_P not_le) simp
    then show False using lt assms(2) by (simp only:) simp
  qed
  show "?d \<noteq> - 1"
  proof
    assume "?d = - 1"
    then have "unat (13835058055282163712 :: u64) \<le> unat ?d"
      by (simp only: word_le_nat_alt [symmetric] word_order.extremum)
    then have "13835058055282163712 \<le> unat ?d" by simp
    moreover have "unat (?d - gap) = unat ?d - unat gap" using le by (rule unat_sub)
    ultimately show False using lt assms(2) by simp
  qed
qed

lemma class_times_alert:
  assumes "s_uevents (beamfs_alert v cls d) \<noteq> s_uevents v"
  shows "class_times cls (beamfs_alert v cls d) = k_jiffies (s_clk v) # class_times cls v"
    and "s_alert_last (beamfs_alert v cls d) =
      (s_alert_last v)[cls := (if k_jiffies (s_clk v) \<noteq> 0 then k_jiffies (s_clk v) else 1)]"
    and "cls < 3" "s_alert_last v ! cls \<noteq> 0 \<Longrightarrow>
      \<not> time_before (k_jiffies (s_clk v)) (s_alert_last v ! cls + alert_interval (s_clk v))"
  using assms by (auto simp: beamfs_alert_def Let_def class_times_def split: if_splits)

lemma alert_cases:
  obtains "beamfs_alert v cls d = v"
  | "beamfs_alert v cls d = v\<lparr>s_alert_last :=
        (s_alert_last v)[cls := (if k_jiffies (s_clk v) \<noteq> 0 then k_jiffies (s_clk v) else 1)],
      s_uevents := (cls, k_jiffies (s_clk v), d) # s_uevents v\<rparr>"
  unfolding beamfs_alert_def Let_def by presburger

lemma alert_silent:
  assumes "s_uevents (beamfs_alert v cls d) = s_uevents v" shows "beamfs_alert v cls d = v"
proof (cases rule: alert_cases [of v cls d])
  case 2
  then have "s_uevents (beamfs_alert v cls d) = (cls, k_jiffies (s_clk v), d) # s_uevents v" by simp
  with assms show ?thesis by simp
qed

lemma alert_clk [simp]: "s_clk (beamfs_alert v cls d) = s_clk v"
  by (simp add: beamfs_alert_def Let_def)

text \<open>The gap kept by one call: the tick remembered may be one past the real one.\<close>

lemma alert_gap:
  assumes ok: "limiter_ok v cls" and ts: "class_times cls v = t # ts"
    and emit: "s_uevents (beamfs_alert v cls d) \<noteq> s_uevents v"
    and gap: "unat (alert_interval (s_clk v)) < 2 ^ 62"
  shows "alert_interval (s_clk v) \<le> k_jiffies (s_clk v) - t"
proof -
  let ?now = "k_jiffies (s_clk v)" and ?lst = "s_alert_last v ! cls"
  have lst: "?lst = (if t = 0 then 1 else t)" using ok ts by (simp add: limiter_ok_def)
  then have "\<not> time_before ?now (?lst + alert_interval (s_clk v))"
    using class_times_alert(4) [OF emit] by (simp split: if_splits)
  note d = not_time_before [OF this gap]
  show ?thesis
  proof (cases "t = 0")
    case True
    then have "?now \<noteq> 0" using d(2) lst by auto
    then have "?now - 1 \<le> ?now" by (simp add: word_le_nat_alt unat_minus_one)
    moreover have "alert_interval (s_clk v) \<le> ?now - 1" using d(1) lst True by simp
    ultimately have "alert_interval (s_clk v) \<le> ?now" by (rule order_trans [rotated])
    then show ?thesis using True by simp
  next
    case False
    with lst have "?lst = t" by simp
    then show ?thesis using d(1) by (simp only:)
  qed
qed

lemma alert_limiter:
  assumes ok: "limiter_ok v c" and len: "length (s_alert_last v) = 3"
    and gap: "unat (alert_interval (s_clk v)) < 2 ^ 62"
  shows "limiter_ok (beamfs_alert v cls d) c"
proof (cases "c = cls \<and> s_uevents (beamfs_alert v cls d) \<noteq> s_uevents v")
  case True
  then have c: "c = cls" and e: "s_uevents (beamfs_alert v cls d) \<noteq> s_uevents v" by simp_all
  have "spaced (alert_interval (s_clk v)) (class_times cls (beamfs_alert v cls d))"
  proof (cases "class_times cls v")
    case Nil
    then show ?thesis by (simp add: class_times_alert(1) [OF e] spaced_def)
  next
    case (Cons t ts)
    have "spaced (alert_interval (s_clk v)) (t # ts)" using ok c Cons by (simp add: limiter_ok_def)
    then show ?thesis
      using alert_gap [OF ok [unfolded c] Cons e gap] Cons by (simp add: class_times_alert(1) [OF e] spaced_def)
  qed
  moreover have "s_alert_last (beamfs_alert v cls d) ! cls =
      (if k_jiffies (s_clk v) = 0 then 1 else k_jiffies (s_clk v))"
    using len class_times_alert(2,3) [OF e] by simp
  ultimately show ?thesis unfolding c limiter_ok_def class_times_alert(1) [OF e] by simp
next
  case False
  then consider "c \<noteq> cls" | "beamfs_alert v cls d = v" using alert_silent [of v cls d] by blast
  then show ?thesis
  proof cases
    case 1
    with ok show ?thesis by (rule alert_other_class)
  next
    case 2
    with ok show ?thesis by simp
  qed
qed

text \<open>A step of a run keeps the limiter.\<close>

definition limiter_inv :: "u64 \<Rightarrow> 'a volume_scheme \<Rightarrow> bool" where
  "limiter_inv gap v \<longleftrightarrow> length (s_alert_last v) = 3 \<and> alert_interval (s_clk v) = gap \<and> (\<forall>c. limiter_ok v c)"

lemma alert_inv: "limiter_inv gap v \<Longrightarrow> unat gap < 2 ^ 62 \<Longrightarrow> limiter_inv gap (beamfs_alert v cls d)"
  using alert_limiter [of v _ cls d]
  by (auto simp: limiter_inv_def) (simp add: beamfs_alert_def Let_def)

lemma limiter_inv_cong:
  assumes "limiter_inv gap v" "s_alert_last v' = s_alert_last v" "k_hz (s_clk v') = k_hz (s_clk v)"
    "s_uevents v' = s_uevents v"
  shows "limiter_inv gap v'"
proof -
  have "class_times c v' = class_times c v" "alert_interval (s_clk v') = alert_interval (s_clk v)" for c
    using assms(3,4) by (simp_all add: class_times_def alert_interval_def)
  then have "limiter_ok v' c = limiter_ok v c" "alert_interval (s_clk v') = alert_interval (s_clk v)" for c
    using assms(2) by (simp_all only: limiter_ok_def)
  then show ?thesis using assms(1,2) by (simp add: limiter_inv_def)
qed

lemma alert_step_inv:
  assumes "limiter_inv gap v" "unat gap < 2 ^ 62" shows "limiter_inv gap (alert_op_step op v)"
proof (cases op)
  case (Tick n)
  then show ?thesis by (intro limiter_inv_cong [OF assms(1)]) simp_all
next
  case Check_rate
  have "limiter_inv gap (v\<lparr>s_alert_last_corrected := s_scrub_corrected v\<rparr>)"
    by (intro limiter_inv_cong [OF assms(1)]) simp_all
  then show ?thesis
    using Check_rate assms by (auto simp: beamfs_alert_check_rate_def Let_def intro: alert_inv)
next
  case (Uncorrectable n)
  then show ?thesis using alert_inv [OF assms] by (simp add: beamfs_alert_uncorrectable_def)
next
  case (Margin n k)
  then show ?thesis using assms(1) alert_inv [OF assms] by (simp add: beamfs_alert_margin_def)
qed

lemma alert_run_inv:
  "limiter_inv gap v \<Longrightarrow> unat gap < 2 ^ 62 \<Longrightarrow> limiter_inv gap (fold alert_op_step ops v)"
  by (induction ops arbitrary: v) (simp_all add: alert_step_inv)

subsection \<open>Properties\<close>

text \<open>C37: The error budget is a high-water mark (budget.c). Recording \<open>n\<close> corrected symbols for a block
  whose byte is readable raises its mark to \<open>min n 8\<close> if that is more and never lowers it, and the mark
  of every other block is what it was.\<close>
theorem budget_high_water:
  assumes slot: "budget_slot v phys = Some (r, off)" and bh: "s_blk v r = Some bh"
    and len: "length (b_data bh) = 4096"
  shows "beamfs_budget_read (beamfs_budget_record v phys n) phys
      = max (beamfs_budget_read v phys) (word_of_nat (min n 8))
    \<and> (\<forall>q. q \<noteq> phys \<longrightarrow> beamfs_budget_read (beamfs_budget_record v phys n) q = beamfs_budget_read v q)"
proof (cases "n = 0")
  case True
  then show ?thesis by (simp add: beamfs_budget_record_def)
next
  case False
  let ?w = "beamfs_budget_record v phys n" and ?c = "word_of_nat (min n 8) :: byte"
  have off: "off < 4096" using slot by (rule budget_slot_offset)
  have sl: "budget_slot ?w = budget_slot v"
    by (rule budget_slot_cong) (simp_all add: quietD [OF quiet_budget])
  note blk = budget_record_blk [OF slot bh False]
  have "beamfs_budget_read ?w phys = max (beamfs_budget_read v phys) ?c"
    using slot bh len off by (auto simp: beamfs_budget_read_def sl blk mark_buffer_dirty_def max_def)
  moreover have "beamfs_budget_read ?w q = beamfs_budget_read v q" if "q \<noteq> phys" for q
  proof (cases "budget_slot v q")
    case (Some ro)
    obtain r' off' where ro: "ro = (r', off')" by (cases ro)
    have "r' \<noteq> r \<or> off' \<noteq> off" using that budget_slot_inj slot Some ro by blast
    then show ?thesis
      using Some bh ro by (auto simp: beamfs_budget_read_def sl blk mark_buffer_dirty_def)
  qed (simp add: beamfs_budget_read_def sl)
  ultimately show ?thesis by blast
qed

text \<open>C38: The search for worn blocks is exact (budget.c). When the region covers the volume, the search
  from \<open>from'\<close> returns the first data block at or after it whose mark is at least the threshold, and 0 only
  when there is none; a region block that cannot be read counts as unworn.\<close>
theorem next_worn_exact:
  assumes "s_nblocks v \<le> 4096 * s_budget_len v" "s_budget_blk v \<noteq> 0" "s_budget_len v \<noteq> 0"
    and "0 < s_data_start v" "0 < threshold"
  shows "worn_first v threshold (max from' (s_data_start v)) (s_data_start v + s_nblocks v)
           (beamfs_budget_next_worn v from' threshold)"
proof -
  have "budget_slot v p \<noteq> None" if "s_data_start v \<le> p" "p < s_data_start v + s_nblocks v" for p
  proof -
    have "p - s_data_start v < s_budget_len v * 4096" using that assms(1) by linarith
    then have "(p - s_data_start v) div 4096 < s_budget_len v" by (rule less_mult_imp_div_less)
    then show ?thesis using that assms(2,3) by (simp add: budget_slot_def budget_active_def Let_def)
  qed
  then show ?thesis
    using assms by (simp add: beamfs_budget_next_worn_def next_worn_loop_first)
qed

text \<open>C39: The notices of one class are never closer together than the interval (alert.c). From a fresh
  mount, whatever is reported and however time passes in between, consecutive notices of a class are at
  least sixty seconds of ticks apart.\<close>
theorem alerts_rate_limited:
  assumes "s_uevents v = []" "length (s_alert_last v) = 3" "unat (alert_interval (s_clk v)) < 2 ^ 62"
  shows "spaced (alert_interval (s_clk v)) (class_times cls (fold alert_op_step ops v))"
proof -
  have "limiter_inv (alert_interval (s_clk v)) v"
    using assms by (simp add: limiter_inv_def limiter_ok_def class_times_def spaced_def)
  then have "limiter_inv (alert_interval (s_clk v)) (fold alert_op_step ops v)"
    using assms(3) by (rule alert_run_inv)
  then show ?thesis unfolding limiter_inv_def limiter_ok_def by metis
qed

subsection \<open>Witnesses\<close>

text \<open>A volume of one data block, number 10: the allocator's witness with four readable blocks of zeros
  below it, block 5 being the budget region and block 3 the inode table of three inodes.\<close>

definition wit_vsb :: "byte list" where
  "wit_vsb = put_le64 40 3 (put_le64 24 3 (put_le64 16 1 (replicate 4096 0)))"

definition wit_clk :: clocks where
  "wit_clk = \<lparr>k_ktime_ns = 5, k_real_ns = 7, k_real_seconds = 1700000000, k_jiffies = 1000, k_hz = 250,
     k_time = (1700000000, 5)\<rparr>"

definition wit_inode :: vinode where
  "wit_inode = \<lparr>i_mode = 0x41ED, i_uid = 0, i_gid = 0, i_nlink = 2, i_size = 0, i_atime = (0, 0), i_mtime = (0, 0),
     i_ctime = (0, 0), i_flags = 0, i_immutable = False, i_direct = replicate 12 0, i_indirect = 0,
     i_dindirect = 0, i_tindirect = 0, i_ops = Dir_ops, i_dirty = False\<rparr>"

definition zero_bh :: buffer_head where
  "zero_bh = \<lparr>b_data = replicate 4096 0, b_uptodate = True, b_dirty = False\<rparr>"

definition wit_vol :: volume where
  "wit_vol = sb_alloc.extend (wit_alloc\<lparr>s_beamfs_sb := wit_vsb\<rparr>)
     (volume.fields (\<lambda>b. if b < 9 then Some zero_bh else None) (\<lambda>_. False) True True True True True wit_clk (\<lambda>_. wit_inode)
        (\<lambda>i. i = 1) 2 0 False False 0 0 0 0 None 5 1 0 0 0 True [0, 0, 0] 0 0 0 [])"

lemma wit_vol_simps [simp]:
  "s_failed wit_vol = False" "s_nblocks wit_vol = 1" "s_data_start wit_vol = 10"
  "s_block_bitmap wit_vol = Some [True]" "s_free_blocks wit_vol = 1" "s_sbh wit_vol = None"
  "s_bitmap_blkhs wit_vol = None" "s_blk wit_vol = (\<lambda>b. if b < 9 then Some zero_bh else None)"
  "s_getblk_ok wit_vol" "s_scratch_ok wit_vol" "s_copy_ok wit_vol" "s_rcache_ok wit_vol" "s_inode_ok wit_vol" "s_clk wit_vol = wit_clk"
  "s_inode wit_vol = (\<lambda>_. wit_inode)" "s_icached wit_vol = (\<lambda>i. i = 1)" "s_budget_blk wit_vol = 5"
  "s_budget_len wit_vol = 1" "s_ind_parity_blk wit_vol = 0" "s_ind_parity_mode wit_vol = 0"
  "s_alert_last wit_vol = [0, 0, 0]" "s_uevents wit_vol = []" "s_beamfs_sb wit_vol = wit_vsb"
  "s_feat_incompat wit_vol = 0" "s_scheme wit_vol = 2" "s_kobj_initialized wit_vol"
  by (simp_all add: wit_vol_def sb_alloc.defs volume.defs)

lemma zero_bh_simps [simp]: "b_data zero_bh = replicate 4096 0" "b_uptodate zero_bh"
  by (simp_all add: zero_bh_def)

theorem budget_high_water_witness:
  "beamfs_budget_read (beamfs_budget_record wit_vol 10 11) 10 = 8"
  using budget_high_water [of wit_vol 10 5 0 zero_bh 11]
  by (simp add: budget_slot_def budget_active_def Let_def beamfs_budget_read_def)

theorem next_worn_exact_witness:
  "worn_first (beamfs_budget_record wit_vol 10 11) 6 10 11
     (beamfs_budget_next_worn (beamfs_budget_record wit_vol 10 11) 0 6)"
  using next_worn_exact [of "beamfs_budget_record wit_vol 10 11" 6 0]
  by (simp add: quietD [OF quiet_budget])

theorem alerts_rate_limited_witness:
  "class_times 0 (fold alert_op_step [Uncorrectable 10, Tick 14999, Uncorrectable 10, Tick 1, Uncorrectable 10] wit_vol)
     = [16000, 1000]
   \<and> spaced 15000 [16000, 1000]"
  using alerts_rate_limited [of wit_vol 0 "[Uncorrectable 10, Tick 14999, Uncorrectable 10, Tick 1, Uncorrectable 10]"]
  by (simp add: class_times_def beamfs_alert_uncorrectable_def beamfs_alert_def BEAMFS_ALERT_UNCORRECTABLE_def
      alert_interval_def wit_clk_def time_before_def Let_def)

end
