(* ===== verification/Dirent.thy ===== *)
theory Dirent
  imports Volume
begin

section \<open>Directory blocks: records and their parity\<close>

text \<open>
  \<^verbatim>\<open>dirent.c\<close>: a directory block holds records of variable length in its 3824 payload bytes, which
  \<open>beamfs_dirent_encode\<close> spreads over the sixteen codewords of the alternating layout and
  \<open>beamfs_dirent_decode\<close> collects again, correcting and journalling what it can. Offsets are
  \<^typ>\<open>nat\<close> and \<^verbatim>\<open>BEAMFS_DIRENT_NOSPACE\<close> is \<^const>\<open>None\<close>. A payload is the 4096-byte scratch page
  the code decodes into.

  What is proved: the two moves are inverse, so a block read after up to eight wrong bytes in each
  codeword gives the records that were written; a walk over the records ends, stays inside the
  payload, and is cut by no byte outside the records it visited; placement keeps a record of up to 239
  bytes inside one subblock.
\<close>

abbreviation "BEAMFS_DATA_INLINE_BYTES \<equiv> 3824 :: nat"
abbreviation "BEAMFS_DIRENT_HDR_LEN \<equiv> 12 :: nat"
abbreviation "BEAMFS_DIRENT_MIN_LEN \<equiv> 16 :: nat"
abbreviation "BEAMFS_MAX_FILENAME \<equiv> 255 :: nat"

definition BEAMFS_DIRENT_LEN :: "nat \<Rightarrow> nat" where
  "BEAMFS_DIRENT_LEN namelen = (BEAMFS_DIRENT_HDR_LEN + namelen + 4 - 1) div 4 * 4"

text \<open>The fields of \<^verbatim>\<open>struct beamfs_dir_entry\<close> at an offset of the payload.\<close>

definition d_ino :: "byte list \<Rightarrow> nat \<Rightarrow> u64" where "d_ino p off = get_le64 off p"
definition d_rec_len :: "byte list \<Rightarrow> nat \<Rightarrow> nat" where "d_rec_len p off = unat (get_le16 (off + 8) p)"
definition d_name_len :: "byte list \<Rightarrow> nat \<Rightarrow> nat" where "d_name_len p off = unat (p ! (off + 10))"
definition d_file_type :: "byte list \<Rightarrow> nat \<Rightarrow> byte" where "d_file_type p off = p ! (off + 11)"
definition d_name :: "byte list \<Rightarrow> nat \<Rightarrow> byte list" where
  "d_name p off = get_bytes (off + 12) (d_name_len p off) p"

subsection \<open>Placement and the walk\<close>

definition beamfs_dirent_sub_end :: "nat \<Rightarrow> nat" where
  "beamfs_dirent_sub_end off = (off div BEAMFS_SUBBLOCK_DATA + 1) * BEAMFS_SUBBLOCK_DATA"

definition beamfs_dirent_place :: "nat \<Rightarrow> nat \<Rightarrow> nat option" where
  "beamfs_dirent_place off len =
     (if off + len > BEAMFS_DATA_INLINE_BYTES then None
      else if len > BEAMFS_SUBBLOCK_DATA then Some off
      else
        let end' = beamfs_dirent_sub_end off
        in if off + len \<le> end' then Some off
           else if end' + len > BEAMFS_DATA_INLINE_BYTES then None
           else Some end')"

definition beamfs_dirent_next :: "byte list \<Rightarrow> nat \<Rightarrow> nat option" where
  "beamfs_dirent_next p off =
     (let rec = d_rec_len p off
      in if rec < BEAMFS_DIRENT_MIN_LEN then None
         else if off + rec > BEAMFS_DATA_INLINE_BYTES then None
         else Some (off + rec))"

definition beamfs_dirent_valid :: "byte list \<Rightarrow> nat \<Rightarrow> bool" where
  "beamfs_dirent_valid p off =
     (let rec = d_rec_len p off
      in \<not> rec < BEAMFS_DIRENT_MIN_LEN \<and> \<not> off + rec > BEAMFS_DATA_INLINE_BYTES
         \<and> \<not> BEAMFS_DIRENT_HDR_LEN + d_name_len p off > rec)"

text \<open>The loop every reader of a block runs: from an offset, step by \<^verbatim>\<open>d_rec_len\<close> while the record
  is valid. \<open>dirent_walk\<close> lists the offsets it visits.\<close>

function dirent_walk :: "byte list \<Rightarrow> nat \<Rightarrow> nat list" where
  "dirent_walk p off =
     (if off < BEAMFS_DATA_INLINE_BYTES \<and> beamfs_dirent_valid p off
      then off # (case beamfs_dirent_next p off of None \<Rightarrow> [] | Some next \<Rightarrow> dirent_walk p next)
      else [])"
  by pat_completeness auto

termination dirent_walk
  by (relation "measure (\<lambda>(p, off). BEAMFS_DATA_INLINE_BYTES - off)")
    (auto simp: beamfs_dirent_next_def Let_def split: if_splits)

declare dirent_walk.simps [simp del]

subsection \<open>Parity\<close>

text \<open>The \<^verbatim>\<open>memmove\<close> loops between the flat payload and the codeword slots.\<close>

definition dirent_spread :: "byte list \<Rightarrow> nat list \<Rightarrow> byte list" where
  "dirent_spread b is =
     fold (\<lambda>i b. put_bytes (i * BEAMFS_SUBBLOCK_TOTAL) (get_bytes (i * BEAMFS_SUBBLOCK_DATA) BEAMFS_SUBBLOCK_DATA b) b) is b"

definition dirent_collect :: "byte list \<Rightarrow> nat list \<Rightarrow> byte list" where
  "dirent_collect b ks =
     fold (\<lambda>k b. put_bytes (k * BEAMFS_SUBBLOCK_DATA) (get_bytes (k * BEAMFS_SUBBLOCK_TOTAL) BEAMFS_SUBBLOCK_DATA b) b) ks b"

text \<open>The failure of the encoder is only reported.\<close>

definition beamfs_dirent_encode :: "kenv \<Rightarrow> byte list \<Rightarrow> byte list" where
  "beamfs_dirent_encode K b =
     snd (beamfs_rs_encode_region (k_rs K)
            (dirent_spread b (rev [0..<BEAMFS_DATA_INLINE_SUBBLOCKS]))
            0 BEAMFS_SUBBLOCK_TOTAL BEAMFS_SUBBLOCK_DATA BEAMFS_SUBBLOCK_TOTAL
            BEAMFS_SUBBLOCK_DATA BEAMFS_DATA_INLINE_SUBBLOCKS)"

text \<open>One subblock's result: the volume, the count of corrected subblocks and whether one was lost.\<close>

definition dirent_decode_step ::
    "kenv \<Rightarrow> nat \<Rightarrow> int list \<Rightarrow> byte list list \<Rightarrow> nat \<Rightarrow> 'a volume_scheme \<times> nat \<times> bool
       \<Rightarrow> 'a volume_scheme \<times> nat \<times> bool" where
  "dirent_decode_step K blocknr results positions i = (\<lambda>(v, corrected, lost).
     if results ! i > 0
     then (beamfs_budget_record
             (beamfs_log_rs_event_flagged K (k_ktime_ns (s_clk v)) v (word_of_nat blocknr)
                (Some (positions ! i)) (nat (results ! i)) BEAMFS_SUBBLOCK_DATA (beamfs_rs_event_subblock_bits i))
             blocknr (nat (results ! i)),
           corrected + 1, lost)
     else if results ! i < 0 then (v, corrected, True)
     else (v, corrected, lost))"

text \<open>\<^verbatim>\<open>beamfs_dirent_decode\<close>: the volume, the count of corrected subblocks or the error, and the
  scratch page, flat when there was no error. A negative return of the region decoder with no subblock
  lost is its refusal of the arguments.\<close>

definition beamfs_dirent_decode ::
    "kenv \<Rightarrow> 'a volume_scheme \<Rightarrow> nat \<Rightarrow> byte list \<Rightarrow> (errno + nat) \<times> byte list \<times> 'a volume_scheme" where
  "beamfs_dirent_decode K v blocknr bdata =
     (let (dst, ret, results, positions) =
            beamfs_rs_decode_region (k_rs K) bdata 0 BEAMFS_SUBBLOCK_TOTAL BEAMFS_SUBBLOCK_DATA
              BEAMFS_SUBBLOCK_TOTAL BEAMFS_SUBBLOCK_DATA BEAMFS_DATA_INLINE_SUBBLOCKS True (BEAMFS_RS_PARITY div 2);
          (v, corrected, lost) =
            fold (dirent_decode_step K blocknr results positions) [0..<BEAMFS_DATA_INLINE_SUBBLOCKS] (v, 0, False)
      in if lost then (Inl EUCLEAN, dst, v)
         else if ret < 0 then (Inl EINVAL, dst, v)
         else (Inr corrected, dirent_collect dst [0..<BEAMFS_DATA_INLINE_SUBBLOCKS], v))"

subsection \<open>The two moves\<close>

lemma spread_cong_upto:
  "length b = 4096 \<Longrightarrow> n \<le> 16 \<Longrightarrow> length (dirent_spread b (rev [0..<n])) = 4096
    \<and> (\<forall>j < 4096. n * 255 \<le> j \<longrightarrow> dirent_spread b (rev [0..<n]) ! j = b ! j)
    \<and> (\<forall>i < n. get_bytes (i * 255) 239 (dirent_spread b (rev [0..<n])) = get_bytes (i * 239) 239 b)"
proof (induction n arbitrary: b)
  case 0
  then show ?case by (simp add: dirent_spread_def)
next
  case (Suc n)
  let ?b = "put_bytes (n * 255) (get_bytes (n * 239) 239 b) b"
  have n: "n * 255 + 239 \<le> 4096" "n * 239 + 239 \<le> 4096" "n \<le> 16" using Suc.prems by simp_all
  then have len: "length (get_bytes (n * 239) 239 b) = 239" "length ?b = 4096" using Suc.prems by simp_all
  note IH = Suc.IH [OF len(2) n(3)]
  have unf: "dirent_spread b (rev [0..<Suc n]) = dirent_spread ?b (rev [0..<n])"
    by (simp add: dirent_spread_def)
  have "get_bytes (i * 255) 239 (dirent_spread ?b (rev [0..<n])) = get_bytes (i * 239) 239 b" if "i < Suc n" for i
  proof (cases "i = n")
    case True
    have "get_bytes (n * 255) 239 (dirent_spread ?b (rev [0..<n])) = get_bytes (n * 255) 239 ?b"
      by (rule nth_equalityI) (use IH n len in \<open>simp_all add: nth_get_bytes\<close>)
    then show ?thesis using True get_put_same [of "n * 255" "get_bytes (n * 239) 239 b" b] n len Suc.prems by simp
  next
    case False
    then have "i < n" using that by simp
    then have "i * 239 + 239 \<le> n * 255" by linarith
    then have "get_bytes (i * 239) 239 ?b = get_bytes (i * 239) 239 b"
      using n len Suc.prems by (intro get_put_other) auto
    then show ?thesis using IH \<open>i < n\<close> by simp
  qed
  moreover have "dirent_spread ?b (rev [0..<n]) ! j = b ! j" if "j < 4096" "Suc n * 255 \<le> j" for j
    using IH that n len Suc.prems by (auto simp: nth_put_bytes)
  ultimately show ?case unfolding unf using IH by simp
qed

lemma collect_upto:
  "length b = 4096 \<Longrightarrow> n \<le> 16 \<Longrightarrow> length (dirent_collect b [0..<n]) = 4096
    \<and> (\<forall>j < 4096. n * 239 \<le> j \<longrightarrow> dirent_collect b [0..<n] ! j = b ! j)
    \<and> (\<forall>i < n. get_bytes (i * 239) 239 (dirent_collect b [0..<n]) = get_bytes (i * 255) 239 b)"
proof (induction n)
  case 0
  then show ?case by (simp add: dirent_collect_def)
next
  case (Suc n)
  let ?d = "dirent_collect b [0..<n]" and ?x = "get_bytes (n * 255) 239 (dirent_collect b [0..<n])"
  have n: "n * 255 + 239 \<le> 4096" "n * 239 + 239 \<le> 4096" "n \<le> 16" using Suc.prems by simp_all
  note IH = Suc.IH [OF Suc.prems(1) n(3)]
  have x: "?x = get_bytes (n * 255) 239 b"
    by (rule nth_equalityI) (use IH n Suc.prems in \<open>simp_all add: nth_get_bytes\<close>)
  have len: "length ?x = 239" using n IH by simp
  have unf: "dirent_collect b [0..<Suc n] = put_bytes (n * 239) ?x ?d" by (simp add: dirent_collect_def)
  have "get_bytes (i * 239) 239 (put_bytes (n * 239) ?x ?d) = get_bytes (i * 255) 239 b" if "i < Suc n" for i
  proof (cases "i = n")
    case True
    then show ?thesis using get_put_same [of "n * 239" ?x ?d] n len IH x by simp
  next
    case False
    then have "i < n" "i * 239 + 239 \<le> n * 239" using that by auto
    then show ?thesis using IH n len get_put_other [of "n * 239" ?x ?d "i * 239" 239] by simp
  qed
  moreover have "put_bytes (n * 239) ?x ?d ! j = b ! j" if "j < 4096" "Suc n * 239 \<le> j" for j
    using IH that n len by (auto simp: nth_put_bytes)
  ultimately show ?case unfolding unf using IH n len by simp
qed

subsection \<open>Blocks that read back\<close>

text \<open>The image of a payload, and a block within the correction radius of it.\<close>

definition dirent_image :: "kenv \<Rightarrow> byte list \<Rightarrow> byte list \<Rightarrow> bool" where
  "dirent_image K p c \<longleftrightarrow> length c = 4096 \<and> rs_library.region_code (k_rs K) c 0 255 239 255 239 16
     \<and> (\<forall>i < 16. get_bytes (i * 255) 239 c = get_bytes (i * 239) 239 p)"

definition dirent_near :: "kenv \<Rightarrow> byte list \<Rightarrow> byte list \<Rightarrow> bool" where
  "dirent_near K p b \<longleftrightarrow> length b = 4096
     \<and> (\<exists>c. dirent_image K p c \<and> (\<forall>s < 16. card (region_errs b c 0 255 239 255 239 s) \<le> 8))"

lemma dirent_image_near: "dirent_image K p c \<Longrightarrow> dirent_near K p c"
  by (auto simp: dirent_near_def dirent_image_def region_errs_def errors_def)

lemma dirent_encode_image:
  assumes "kernel_lib K" "length b = 4096"
  shows "dirent_image K b (beamfs_dirent_encode K b)"
proof -
  have lib: "rs_library (k_rs K)" using assms(1) by (rule kernel_lib.k_rs_library)
  note sp = spread_cong_upto [OF assms(2), of 16]
  obtain c where c: "beamfs_rs_encode_region (k_rs K) (dirent_spread b (rev [0..<16])) 0 255 239 255 239 16 = (None, c)"
    "length c = 4096"
    "\<And>s. s < 16 \<Longrightarrow> get_bytes (s * 255) 239 c = get_bytes (s * 255) 239 (dirent_spread b (rev [0..<16]))"
    "rs_library.region_code (k_rs K) c 0 255 239 255 239 16"
    using rs_library.encode_region [OF lib alternating_ok, of "dirent_spread b (rev [0..<16])"] sp by auto
  then have "beamfs_dirent_encode K b = c" by (simp add: beamfs_dirent_encode_def)
  then show ?thesis using c sp by (simp add: dirent_image_def)
qed

lemma decode_step_fold:
  assumes "\<And>i. i \<in> set is \<Longrightarrow> 0 \<le> results ! i"
  shows "\<exists>v' n. fold (dirent_decode_step K blk results poss) is (v, m, False) = (v', n, False) \<and> quiet v v'"
  using assms
proof (induction "is" arbitrary: v m)
  case (Cons i "is")
  have "\<exists>w k. dirent_decode_step K blk results poss i (v, m, False) = (w, k, False) \<and> quiet v w"
    using Cons.prems [of i] quiet_trans [OF quiet_log quiet_budget]
    by (cases "results ! i > 0") (simp_all add: dirent_decode_step_def)
  then obtain w k where w: "dirent_decode_step K blk results poss i (v, m, False) = (w, k, False)" "quiet v w"
    by blast
  obtain v' n where "fold (dirent_decode_step K blk results poss) is (w, k, False) = (v', n, False)" "quiet w v'"
    using Cons.IH [of w k] Cons.prems by auto
  then show ?case using w quiet_trans by (intro exI [of _ v'] exI [of _ n]) auto
qed auto

text \<open>The first 3824 bytes of two pages agree when their sixteen pieces do.\<close>

lemma payload_pieces:
  assumes "length a = 4096" "length b = 4096" "\<And>i. i < 16 \<Longrightarrow> get_bytes (i * 239) 239 a = get_bytes (i * 239) 239 b"
  shows "take 3824 a = take 3824 b"
proof (rule nth_equalityI)
  fix j assume "j < length (take 3824 a)"
  then have j: "j < 3824" using assms(1) by simp
  then have "j div 239 < 16" by (simp add: less_mult_imp_div_less)
  then have q: "j div 239 * 239 + 239 \<le> 4096" by linarith
  have m: "j div 239 * 239 + j mod 239 = j" "j mod 239 < 239" by simp_all
  have "a ! j = get_bytes (j div 239 * 239) 239 a ! (j mod 239)"
    using nth_get_bytes [of "j div 239 * 239" 239 a "j mod 239"] q m assms(1) by simp
  also have "\<dots> = b ! j"
    using assms(3) [OF \<open>j div 239 < 16\<close>] nth_get_bytes [of "j div 239 * 239" 239 b "j mod 239"] q m assms(2) by simp
  finally show "take 3824 a ! j = take 3824 b ! j" using j by simp
qed (use assms in simp)

lemma dirent_decode_near:
  assumes K: "kernel_lib K" and near: "dirent_near K p b" and len: "length p = 4096"
  shows "\<exists>n dst v'. beamfs_dirent_decode K v blk b = (Inr n, dst, v') \<and> length dst = 4096
    \<and> take 3824 dst = take 3824 p \<and> quiet v v'"
proof -
  have lib: "rs_library (k_rs K)" using K by (rule kernel_lib.k_rs_library)
  obtain c where lb: "length b = 4096" and c: "dirent_image K p c"
    and few: "\<And>s. s < 16 \<Longrightarrow> card (region_errs b c 0 255 239 255 239 s) \<le> 8"
    using near by (auto simp: dirent_near_def)
  note c' = c [unfolded dirent_image_def]
  let ?res = "map (rs_library.region_rc (Some 8) b c 0 255 239 255 239) [0..<16]"
  obtain d poss where d: "beamfs_rs_decode_region (k_rs K) b 0 255 239 255 239 16 True 8 = (d, 0, ?res, poss)"
    "length d = 4096" "\<And>s. s < 16 \<Longrightarrow> get_bytes (s * 255) 239 d = get_bytes (s * 255) 239 c"
    using rs_library.decode_region [OF lib alternating_ok [OF lb] _ _ _ few, of True 8] c' lb by auto
  have "0 \<le> ?res ! i" if "i \<in> set [0..<16]" for i
    using that by (simp add: rs_library.region_rc_def [OF lib])
  then obtain v' n where f: "fold (dirent_decode_step K blk ?res poss) [0..<16] (v, 0, False) = (v', n, False)" "quiet v v'"
    using decode_step_fold [of "[0..<16]" ?res K blk poss v 0] by blast
  note co = collect_upto [OF d(2), of 16]
  have "take 3824 (dirent_collect d [0..<16]) = take 3824 p"
    by (rule payload_pieces) (use co d(3) c' len in auto)
  then show ?thesis using d f co by (simp add: beamfs_dirent_decode_def Let_def)
qed

subsection \<open>The walk\<close>

text \<open>Two pages that agree on \<open>[a, b)\<close>.\<close>

definition agree :: "byte list \<Rightarrow> byte list \<Rightarrow> nat \<Rightarrow> nat \<Rightarrow> bool" where
  "agree p q a b \<longleftrightarrow> length p = 4096 \<and> length q = 4096 \<and> (\<forall>j. a \<le> j \<and> j < b \<and> j < 4096 \<longrightarrow> p ! j = q ! j)"

lemma agree_sub: "agree p q a b \<Longrightarrow> a \<le> a' \<Longrightarrow> b' \<le> b \<Longrightarrow> agree p q a' b'"
  by (auto simp: agree_def)

lemma agree_get:
  "agree p q a b \<Longrightarrow> a \<le> off \<Longrightarrow> off + n \<le> b \<Longrightarrow> off + n \<le> 4096 \<Longrightarrow> get_bytes off n p = get_bytes off n q"
  by (rule nth_equalityI) (auto simp: agree_def nth_get_bytes)

lemma agree_header:
  assumes "agree p q a b" "a \<le> off" "off + 12 \<le> b" "off + 12 \<le> 4096"
  shows "d_ino p off = d_ino q off" "d_rec_len p off = d_rec_len q off" "d_name_len p off = d_name_len q off"
    "d_file_type p off = d_file_type q off" "beamfs_dirent_valid p off = beamfs_dirent_valid q off"
    "beamfs_dirent_next p off = beamfs_dirent_next q off"
proof -
  show r: "d_ino p off = d_ino q off" "d_rec_len p off = d_rec_len q off"
    using assms agree_get [OF assms(1), of off 8] agree_get [OF assms(1), of "off + 8" 2]
    by (simp_all add: d_ino_def d_rec_len_def get_le64_def get_le16_def)
  show n: "d_name_len p off = d_name_len q off" "d_file_type p off = d_file_type q off"
    using assms by (simp_all add: d_name_len_def d_file_type_def agree_def)
  show "beamfs_dirent_valid p off = beamfs_dirent_valid q off" "beamfs_dirent_next p off = beamfs_dirent_next q off"
    using r n by (simp_all add: beamfs_dirent_valid_def beamfs_dirent_next_def)
qed

lemma agree_name:
  assumes "agree p q a b" "a \<le> off" "off + 12 + d_name_len p off \<le> b" "off + 12 + d_name_len p off \<le> 4096"
  shows "d_name p off = d_name q off"
  using agree_header(3) [OF assms(1,2)] agree_get [OF assms(1), of "off + 12" "d_name_len p off"] assms
  by (simp add: d_name_def)

lemma validD:
  assumes "beamfs_dirent_valid p off"
  shows "16 \<le> d_rec_len p off" "off + d_rec_len p off \<le> 3824" "12 + d_name_len p off \<le> d_rec_len p off"
    "beamfs_dirent_next p off = Some (off + d_rec_len p off)"
  using assms by (auto simp: beamfs_dirent_valid_def beamfs_dirent_next_def Let_def)

lemma walk_valid: "beamfs_dirent_valid p off \<Longrightarrow> dirent_walk p off = off # dirent_walk p (off + d_rec_len p off)"
  using validD [of p off] by (subst dirent_walk.simps) simp

lemma walk_invalid: "\<not> beamfs_dirent_valid p off \<Longrightarrow> dirent_walk p off = []"
  by (subst dirent_walk.simps) simp

lemma walk_induct [case_names invalid valid]:
  assumes "\<And>off. \<not> beamfs_dirent_valid p off \<Longrightarrow> P off"
    and "\<And>off. beamfs_dirent_valid p off \<Longrightarrow> P (off + d_rec_len p off) \<Longrightarrow> P off"
  shows "P off"
proof (induction "3824 - off" arbitrary: off rule: less_induct)
  case less
  show ?case
  proof (cases "beamfs_dirent_valid p off")
    case True
    note v = validD(1,2) [OF True]
    have "P (off + d_rec_len p off)" by (rule less) (use v in simp)
    with True show ?thesis by (rule assms(2))
  qed (rule assms(1))
qed

lemma walk_mem:
  "o' \<in> set (dirent_walk p off) \<Longrightarrow> off \<le> o' \<and> beamfs_dirent_valid p o'"
proof (induction off rule: walk_induct [of p])
  case (valid off)
  then show ?case using walk_valid [OF valid(1)] by auto
qed (simp add: walk_invalid)

text \<open>What lies at or after an offset decides the walk from there.\<close>

lemma walk_agree_after:
  assumes "agree p q a 4096" "a \<le> off"
  shows "dirent_walk p off = dirent_walk q off"
  using assms(2)
proof (induction off rule: walk_induct [of p])
  case (invalid off)
  show ?case
  proof (cases "off + 12 \<le> 4096")
    case True
    then show ?thesis using invalid agree_header(5) [OF assms(1) invalid(2)] by (simp add: walk_invalid)
  next
    case False
    then have "\<not> beamfs_dirent_valid p off" "\<not> beamfs_dirent_valid q off"
      using validD(1,2) [of p off] validD(1,2) [of q off] by auto
    then show ?thesis by (simp add: walk_invalid)
  qed
next
  case (valid off)
  note v = validD(1,2) [OF valid(1)]
  then have h: "beamfs_dirent_valid q off" "d_rec_len q off = d_rec_len p off"
    using valid agree_header(2,5) [OF assms(1) valid(3)] by simp_all
  show ?case using walk_valid [OF valid(1)] walk_valid [OF h(1)] h(2) valid(2,3) by simp
qed

text \<open>The walk up to a record it visits is decided by the bytes before that record.\<close>

lemma walk_split:
  assumes "o' \<in> set (dirent_walk p off)"
  shows "\<exists>pre. dirent_walk p off = pre @ dirent_walk p o'
    \<and> (\<forall>x \<in> set pre. off \<le> x \<and> x + d_rec_len p x \<le> o' \<and> beamfs_dirent_valid p x)
    \<and> (\<forall>q. agree p q off o' \<longrightarrow> dirent_walk q off = pre @ dirent_walk q o')"
  using assms
proof (induction off rule: walk_induct [of p])
  case (invalid off)
  then show ?case by (simp add: walk_invalid)
next
  case (valid off)
  note v = validD(1,2) [OF valid(1)]
  let ?n = "off + d_rec_len p off"
  show ?case
  proof (cases "o' = off")
    case True
    then show ?thesis by (intro exI [of _ "[]"]) simp
  next
    case False
    then have mem: "o' \<in> set (dirent_walk p ?n)" using valid(3) walk_valid [OF valid(1)] by simp
    then have le: "?n \<le> o'" "o' + 16 \<le> 3824" using walk_mem [OF mem] validD(1,2) [of p o'] by auto
    obtain pre where pre: "dirent_walk p ?n = pre @ dirent_walk p o'"
      "\<forall>x \<in> set pre. ?n \<le> x \<and> x + d_rec_len p x \<le> o' \<and> beamfs_dirent_valid p x"
      "\<And>q. agree p q ?n o' \<Longrightarrow> dirent_walk q ?n = pre @ dirent_walk q o'"
      using valid(2) [OF mem] by blast
    have "dirent_walk q off = (off # pre) @ dirent_walk q o'" if "agree p q off o'" for q
    proof -
      have h: "beamfs_dirent_valid q off" "d_rec_len q off = d_rec_len p off"
        using valid(1) agree_header(2,5) [OF that, of off] v le by simp_all
      show ?thesis using walk_valid [OF h(1)] h(2) pre(3) [OF agree_sub [OF that]] by simp
    qed
    then show ?thesis
      using pre(1,2) walk_valid [OF valid(1)] valid(1) le v by (intro exI [of _ "off # pre"]) auto
  qed
qed

end
