(* ===== verification/IndParity.thy ===== *)
theory IndParity
  imports Dirent
begin

section \<open>Parity of the blocks of pointers\<close>

text \<open>
  \<^verbatim>\<open>indparity.c\<close>: an indirect block is 512 raw pointers; what protects it, sixteen checksums or sixteen
  parity sets over its first 3824 bytes, lives in a slot of the parity region, whose blocks are coded
  in the alternating layout. \<open>beamfs_ind_parity_update\<close> decodes the region block, replaces the slot and
  encodes it again; \<open>beamfs_ind_parity_verify\<close> checks a block against its slot and never writes it.
  The decode a CPU keeps (\<open>s_ind_rcache\<close>) is keyed by block number and generation, as in the code;
  one CPU is modelled. The buffer of the indirect block itself is the one in \<open>s_blk\<close>.

  What is proved: the two copy loops address the same bytes of the payload; an update changes the slot
  of its block and no other; an intact block passes the check after its update, and in checksum mode a
  change of up to four bytes in one subblock does not; the last 272 bytes of the block are outside every
  slot; a cached decode taken from another volume with the same generation is used as this volume's.
\<close>

definition BEAMFS_IND_PARITY_CRC :: u32 where "BEAMFS_IND_PARITY_CRC = 1"
definition BEAMFS_IND_PARITY_RS :: u32 where "BEAMFS_IND_PARITY_RS = 2"
abbreviation "BEAMFS_IND_PARITY_CRC_BYTES \<equiv> 64 :: nat"
abbreviation "BEAMFS_IND_PARITY_RS_BYTES \<equiv> 256 :: nat"
abbreviation "BEAMFS_IND_PARITY_CRC_SLOTS \<equiv> 59 :: nat"
abbreviation "BEAMFS_IND_PARITY_RS_SLOTS \<equiv> 14 :: nat"

subsection \<open>Slots\<close>

definition ind_parity_stride :: "'a volume_scheme \<Rightarrow> nat" where
  "ind_parity_stride v =
     (if s_ind_parity_mode v = BEAMFS_IND_PARITY_CRC then BEAMFS_IND_PARITY_CRC_BYTES
      else if s_ind_parity_mode v = BEAMFS_IND_PARITY_RS then BEAMFS_IND_PARITY_RS_BYTES else 0)"

definition ind_parity_slots :: "'a volume_scheme \<Rightarrow> nat" where
  "ind_parity_slots v =
     (if s_ind_parity_mode v = BEAMFS_IND_PARITY_CRC then BEAMFS_IND_PARITY_CRC_SLOTS
      else if s_ind_parity_mode v = BEAMFS_IND_PARITY_RS then BEAMFS_IND_PARITY_RS_SLOTS else 0)"

text \<open>The region block, the offset into its payload and the stride.\<close>

definition ind_parity_slot :: "'a volume_scheme \<Rightarrow> nat \<Rightarrow> (nat \<times> nat \<times> nat) option" where
  "ind_parity_slot v phys =
     (let stride = ind_parity_stride v; slots = ind_parity_slots v
      in if stride = 0 \<or> slots = 0 \<or> s_ind_parity_blk v = 0 then None
         else if phys < s_data_start v then None
         else
           let index = phys - s_data_start v;
               within = index mod slots;
               index = index div slots;
               region_blk = s_ind_parity_blk v + index;
               offset = within * stride
           in if offset + stride > BEAMFS_DATA_INLINE_BYTES then None
              else if region_blk \<ge> s_ind_parity_blk v + s_ind_parity_len v then None
              else Some (region_blk, offset, stride))"

definition beamfs_ind_parity_touched :: "'a volume_scheme \<Rightarrow> 'a volume_scheme" where
  "beamfs_ind_parity_touched v = v\<lparr>s_ind_parity_gen := s_ind_parity_gen v + 1\<rparr>"

definition beamfs_ind_parity_cache_free :: "'a volume_scheme \<Rightarrow> 'a volume_scheme" where
  "beamfs_ind_parity_cache_free v = v\<lparr>s_ind_rcache := None\<rparr>"

subsection \<open>Region blocks\<close>

definition ind_region_log_step ::
    "kenv \<Rightarrow> nat \<Rightarrow> int list \<Rightarrow> byte list list \<Rightarrow> nat \<Rightarrow> 'a volume_scheme \<times> errno option
       \<Rightarrow> 'a volume_scheme \<times> errno option" where
  "ind_region_log_step K blocknr results positions i = (\<lambda>(v, ret).
     if results ! i < 0 then (v, Some EUCLEAN)
     else if results ! i > 0
     then (beamfs_log_rs_event_flagged K (k_ktime_ns (s_clk v)) v (word_of_nat blocknr)
             (Some (positions ! i)) (nat (results ! i)) BEAMFS_SUBBLOCK_DATA (beamfs_rs_event_subblock_bits i), ret)
     else (v, ret))"

definition ind_region_read ::
    "kenv \<Rightarrow> 'a volume_scheme \<Rightarrow> nat \<Rightarrow> byte list \<Rightarrow> errno option \<times> byte list \<times> 'a volume_scheme" where
  "ind_region_read K v blocknr bdata =
     (let gen = s_ind_parity_gen v;
          hit = (case s_ind_rcache v of
                   None \<Rightarrow> False
                 | Some c \<Rightarrow> rc_blocknr c = blocknr \<and> rc_gen c = gen)
      in if hit then (rc_ret (the (s_ind_rcache v)), rc_data (the (s_ind_rcache v)), v)
         else
           let gen_at_read = s_ind_parity_gen v;
               (scratch, _, results, positions) =
                 beamfs_rs_decode_region (k_rs K) bdata 0 BEAMFS_SUBBLOCK_TOTAL BEAMFS_SUBBLOCK_DATA
                   BEAMFS_SUBBLOCK_TOTAL BEAMFS_SUBBLOCK_DATA BEAMFS_DATA_INLINE_SUBBLOCKS True (BEAMFS_RS_PARITY div 2);
               (v, ret) = fold (ind_region_log_step K blocknr results positions)
                            [0..<BEAMFS_DATA_INLINE_SUBBLOCKS] (v, None);
               v = (if s_ind_rcache v \<noteq> None \<or> s_rcache_ok v
                    then v\<lparr>s_ind_rcache := Some \<lparr>rc_blocknr = blocknr, rc_gen = gen_at_read, rc_ret = ret,
                             rc_data = scratch\<rparr>\<rparr>
                    else v)
           in (ret, scratch, v))"

text \<open>The run the two copy loops take next: where in the block, and how many bytes.\<close>

definition slot_run :: "nat \<Rightarrow> nat \<Rightarrow> nat \<Rightarrow> nat \<times> nat" where
  "slot_run off stride done' =
     (let sub = (off + done') div BEAMFS_SUBBLOCK_DATA;
          within = (off + done') mod BEAMFS_SUBBLOCK_DATA;
          run = BEAMFS_SUBBLOCK_DATA - within
      in (sub * BEAMFS_SUBBLOCK_TOTAL + within, if run > stride - done' then stride - done' else run))"

lemma slot_run_pos: "done' < stride \<Longrightarrow> 0 < snd (slot_run off stride done')"
  by (simp add: slot_run_def Let_def)

function ind_slot_gather_loop :: "byte list \<Rightarrow> nat \<Rightarrow> nat \<Rightarrow> nat \<Rightarrow> byte list" where
  "ind_slot_gather_loop scratch off stride done' =
     (if done' < stride
      then get_bytes (fst (slot_run off stride done')) (snd (slot_run off stride done')) scratch
           @ ind_slot_gather_loop scratch off stride (done' + snd (slot_run off stride done'))
      else [])"
  by pat_completeness auto

termination ind_slot_gather_loop
  by (relation "measure (\<lambda>(scratch, off, stride, done'). stride - done')")
    (auto dest: slot_run_pos [where off = off for off] simp: diff_less_mono2 slot_run_pos)

function ind_slot_scatter_loop :: "nat \<Rightarrow> nat \<Rightarrow> byte list \<Rightarrow> nat \<Rightarrow> byte list \<Rightarrow> byte list" where
  "ind_slot_scatter_loop off stride inp done' scratch =
     (if done' < stride
      then ind_slot_scatter_loop off stride inp (done' + snd (slot_run off stride done'))
             (put_bytes (fst (slot_run off stride done')) (get_bytes done' (snd (slot_run off stride done')) inp) scratch)
      else scratch)"
  by pat_completeness auto

termination ind_slot_scatter_loop
  by (relation "measure (\<lambda>(off, stride, inp, done', scratch). stride - done')")
    (auto simp: diff_less_mono2 slot_run_pos)

declare ind_slot_gather_loop.simps [simp del] ind_slot_scatter_loop.simps [simp del]

definition ind_slot_gather :: "byte list \<Rightarrow> nat \<Rightarrow> nat \<Rightarrow> byte list" where
  "ind_slot_gather scratch off stride = ind_slot_gather_loop scratch off stride 0"

definition ind_slot_scatter :: "byte list \<Rightarrow> nat \<Rightarrow> nat \<Rightarrow> byte list \<Rightarrow> byte list" where
  "ind_slot_scatter scratch off stride inp = ind_slot_scatter_loop off stride inp 0 scratch"

definition ind_region_write :: "kenv \<Rightarrow> byte list \<Rightarrow> byte list \<Rightarrow> byte list" where
  "ind_region_write K bdata scratch =
     snd (beamfs_rs_encode_region (k_rs K)
       (fold (\<lambda>i b. put_bytes (i * BEAMFS_SUBBLOCK_TOTAL)
                      (get_bytes (i * BEAMFS_SUBBLOCK_TOTAL) BEAMFS_SUBBLOCK_DATA scratch) b)
          [0..<BEAMFS_DATA_INLINE_SUBBLOCKS] bdata)
       0 BEAMFS_SUBBLOCK_TOTAL BEAMFS_SUBBLOCK_DATA BEAMFS_SUBBLOCK_TOTAL
       BEAMFS_SUBBLOCK_DATA BEAMFS_DATA_INLINE_SUBBLOCKS)"

subsection \<open>Update and check\<close>

text \<open>The slot of a block: a checksum or a parity set per subblock. The indirect block and the slot are
  laid end to end for the region coder.\<close>

definition ind_slot_crc :: "kenv \<Rightarrow> byte list \<Rightarrow> nat \<Rightarrow> u32" where
  "ind_slot_crc K block i =
     k_crc32_le K 0xFFFFFFFF (get_bytes (i * BEAMFS_SUBBLOCK_DATA) BEAMFS_SUBBLOCK_DATA block) XOR 0xFFFFFFFF"

definition ind_slot_compute :: "kenv \<Rightarrow> u32 \<Rightarrow> byte list \<Rightarrow> byte list \<Rightarrow> byte list" where
  "ind_slot_compute K mode block slotbuf =
     (if mode = BEAMFS_IND_PARITY_CRC
      then fold (\<lambda>i slot. put_le32 (4 * i) (ind_slot_crc K block i) slot) [0..<BEAMFS_DATA_INLINE_SUBBLOCKS] slotbuf
      else drop BEAMFS_BLOCK_SIZE
             (fold (\<lambda>i buf. snd (beamfs_rs_encode_region (k_rs K) buf (i * BEAMFS_SUBBLOCK_DATA) BEAMFS_SUBBLOCK_DATA
                                   (BEAMFS_BLOCK_SIZE + i * BEAMFS_RS_PARITY) BEAMFS_RS_PARITY BEAMFS_SUBBLOCK_DATA 1))
                [0..<BEAMFS_DATA_INLINE_SUBBLOCKS] (block @ slotbuf)))"

definition beamfs_ind_parity_update ::
    "kenv \<Rightarrow> 'a volume_scheme \<Rightarrow> nat \<Rightarrow> ino option \<Rightarrow> 'a volume_scheme" where
  "beamfs_ind_parity_update K v phys inode =
     (case ind_parity_slot v phys of
        None \<Rightarrow> v
      | Some (region_blk, offset, stride) \<Rightarrow>
          if stride > BEAMFS_IND_PARITY_RS_BYTES then v
          else
            let (pbh, v) = beamfs_bread v region_blk
            in case pbh of
                 None \<Rightarrow> v
               | Some pbh \<Rightarrow>
                   if \<not> s_scratch_ok v then v
                   else
                     let (rc, scratch, v) = ind_region_read K v region_blk (b_data pbh)
                     in if rc = Some EUCLEAN then v
                        else
                          let slotbuf = ind_slot_gather scratch offset stride;
                              slotbuf = ind_slot_compute K (s_ind_parity_mode v) (b_data (the (s_blk v phys))) slotbuf;
                              scratch = ind_slot_scatter scratch offset stride slotbuf;
                              pdata = ind_region_write K (b_data pbh) scratch;
                              v = v\<lparr>s_blk := (s_blk v)(region_blk \<mapsto> mark_buffer_dirty (pbh\<lparr>b_data := pdata\<rparr>)),
                                    s_verified := (s_verified v)(phys := True)\<rparr>;
                              v = beamfs_ind_parity_touched v
                          in (case inode of None \<Rightarrow> v | Some i \<Rightarrow> mark_inode_dirty i v))"

text \<open>One subblock checked against its part of the slot: the uncorrectable event carries no positions.\<close>

definition ind_verify_lost :: "kenv \<Rightarrow> nat \<Rightarrow> nat \<Rightarrow> 'a volume_scheme \<Rightarrow> 'a volume_scheme" where
  "ind_verify_lost K phys i v =
     beamfs_log_rs_event_flagged K (k_ktime_ns (s_clk v)) v (word_of_nat phys) None 0 BEAMFS_SUBBLOCK_DATA
       (beamfs_rs_event_subblock_bits i)"

definition ind_verify_crc_step ::
    "kenv \<Rightarrow> nat \<Rightarrow> byte list \<Rightarrow> byte list \<Rightarrow> nat \<Rightarrow> 'a volume_scheme \<times> errno option
       \<Rightarrow> 'a volume_scheme \<times> errno option" where
  "ind_verify_crc_step K phys block slot i = (\<lambda>(v, ret).
     if get_le32 (4 * i) slot \<noteq> ind_slot_crc K block i then (ind_verify_lost K phys i v, Some EUCLEAN) else (v, ret))"

definition ind_verify_rs_step ::
    "kenv \<Rightarrow> nat \<Rightarrow> nat \<Rightarrow> byte list \<times> 'a volume_scheme \<times> errno option \<Rightarrow> byte list \<times> 'a volume_scheme \<times> errno option" where
  "ind_verify_rs_step K phys i = (\<lambda>(buf, v, ret).
     let (buf, region_rc, results, positions) =
           beamfs_rs_decode_region (k_rs K) buf (i * BEAMFS_SUBBLOCK_DATA) BEAMFS_SUBBLOCK_DATA
             (BEAMFS_BLOCK_SIZE + i * BEAMFS_RS_PARITY) BEAMFS_RS_PARITY BEAMFS_SUBBLOCK_DATA 1 True (BEAMFS_RS_PARITY div 2)
     in if region_rc < 0 \<or> results ! 0 < 0 then (buf, ind_verify_lost K phys i v, Some EUCLEAN)
        else if results ! 0 > 0
        then (buf, beamfs_log_rs_event_flagged K (k_ktime_ns (s_clk v)) v (word_of_nat phys) (Some (positions ! 0))
                     (nat (results ! 0)) BEAMFS_SUBBLOCK_DATA (beamfs_rs_event_subblock_bits i), ret)
        else (buf, v, ret))"

definition beamfs_ind_parity_verify ::
    "kenv \<Rightarrow> 'a volume_scheme \<Rightarrow> nat \<Rightarrow> errno option \<times> 'a volume_scheme" where
  "beamfs_ind_parity_verify K v phys =
     (case ind_parity_slot v phys of
        None \<Rightarrow> (None, v)
      | Some (region_blk, offset, stride) \<Rightarrow>
          if s_verified v phys then (None, v)
          else
            let (pbh, v) = beamfs_bread v region_blk
            in case pbh of
                 None \<Rightarrow> (None, v)
               | Some pbh \<Rightarrow>
                   if stride > BEAMFS_IND_PARITY_RS_BYTES then (None, v)
                   else if \<not> s_scratch_ok v then (None, v)
                   else
                     let (rc, rscratch, v) = ind_region_read K v region_blk (b_data pbh)
                     in if rc = Some EUCLEAN then (None, v)
                        else
                          let slot = ind_slot_gather rscratch offset stride;
                              block = b_data (the (s_blk v phys))
                          in if \<forall>k \<in> set slot. k = 0
                             then (None, v\<lparr>s_verified := (s_verified v)(phys := True)\<rparr>)
                             else if s_ind_parity_mode v \<noteq> BEAMFS_IND_PARITY_CRC \<and> \<not> s_copy_ok v then (None, v)
                             else
                               let (v, ret) =
                                     (if s_ind_parity_mode v = BEAMFS_IND_PARITY_CRC
                                      then fold (ind_verify_crc_step K phys block slot)
                                             [0..<BEAMFS_DATA_INLINE_SUBBLOCKS] (v, None)
                                      else snd (fold (ind_verify_rs_step K phys)
                                                  [0..<BEAMFS_DATA_INLINE_SUBBLOCKS] (block @ slot, v, None)))
                               in (ret, if ret = None then v\<lparr>s_verified := (s_verified v)(phys := True)\<rparr> else v))"

definition beamfs_ind_parity_verify_medium ::
    "kenv \<Rightarrow> 'a volume_scheme \<Rightarrow> nat \<Rightarrow> errno option \<times> 'a volume_scheme" where
  "beamfs_ind_parity_verify_medium K v phys =
     beamfs_ind_parity_verify K (v\<lparr>s_verified := (s_verified v)(phys := False)\<rparr>) phys"

subsection \<open>The copy loops\<close>

text \<open>Where byte \<open>k\<close> of the payload sits in a region block.\<close>

definition payload_pos :: "nat \<Rightarrow> nat" where
  "payload_pos k = k div 239 * 255 + k mod 239"

lemma payload_pos_less: "k < 3824 \<Longrightarrow> payload_pos k < 4096"
proof -
  assume "k < 3824"
  then have "k div 239 < 16" by (simp add: less_mult_imp_div_less)
  moreover have "k mod 239 < 239" by simp
  ultimately show ?thesis unfolding payload_pos_def by linarith
qed

lemma payload_pos_inj: "payload_pos j = payload_pos k \<Longrightarrow> j = k"
proof -
  assume eq: "payload_pos j = payload_pos k"
  have "payload_pos x div 255 = x div 239" "payload_pos x mod 255 = x mod 239" for x
  proof -
    have "x mod 239 < 255" using mod_less_divisor [of 239 x] by linarith
    then show "payload_pos x div 255 = x div 239" "payload_pos x mod 255 = x mod 239"
      by (simp_all add: payload_pos_def)
  qed
  then show "j = k" using eq by (metis div_mult_mod_eq)
qed

lemma slot_run_step:
  assumes "done' < stride"
  shows "fst (slot_run off stride done') = payload_pos (off + done')" "done' + snd (slot_run off stride done') \<le> stride"
    "i < snd (slot_run off stride done') \<Longrightarrow> payload_pos (off + (done' + i)) = payload_pos (off + done') + i"
proof -
  let ?k = "off + done'"
  show "fst (slot_run off stride done') = payload_pos ?k" by (simp add: slot_run_def Let_def payload_pos_def)
  have "snd (slot_run off stride done') \<le> stride - done'" by (simp add: slot_run_def Let_def)
  then show "done' + snd (slot_run off stride done') \<le> stride" using assms by linarith
  assume "i < snd (slot_run off stride done')"
  then have i: "?k mod 239 + i < 239" by (auto simp: slot_run_def Let_def split: if_splits)
  have e: "?k + i = ?k div 239 * 239 + (?k mod 239 + i)" by (metis add.assoc div_mult_mod_eq)
  have "(q * 239 + r) div 239 = q" "(q * 239 + r) mod 239 = r" if "r < 239" for q r :: nat using that by simp_all
  from this [OF i, of "?k div 239"] have "(?k + i) div 239 = ?k div 239" "(?k + i) mod 239 = ?k mod 239 + i"
    unfolding e [symmetric] by (simp_all only:)
  then show "payload_pos (off + (done' + i)) = payload_pos ?k + i"
    by (simp add: payload_pos_def add.assoc)
qed

lemma slot_run_in:
  assumes "done' < stride" "off + stride \<le> 3824"
  shows "payload_pos (off + done') + snd (slot_run off stride done') \<le> 4096"
proof -
  let ?n = "snd (slot_run off stride done')"
  have n: "0 < ?n" using slot_run_pos [OF assms(1)] .
  have "payload_pos (off + (done' + (?n - 1))) = payload_pos (off + done') + (?n - 1)"
    using slot_run_step(3) [OF assms(1), where off = off and i = "?n - 1"] n by simp
  moreover have "off + (done' + (?n - 1)) < 3824" using slot_run_step(2) [OF assms(1), where off = off] n assms by linarith
  ultimately show ?thesis using payload_pos_less [of "off + (done' + (?n - 1))"] n by linarith
qed

lemma gather_loop_eq:
  assumes "length scratch = 4096" "off + stride \<le> 3824"
  shows "ind_slot_gather_loop scratch off stride done' = map (\<lambda>k. scratch ! payload_pos (off + k)) [done'..<stride]"
  using assms
proof (induction scratch off stride done' rule: ind_slot_gather_loop.induct)
  case (1 scratch off stride done')
  show ?case
  proof (cases "done' < stride")
    case True
    let ?n = "snd (slot_run off stride done')"
    note st = slot_run_step [OF True, where off = off]
    have "get_bytes (payload_pos (off + done')) ?n scratch = map (\<lambda>k. scratch ! payload_pos (off + k)) [done'..<done' + ?n]"
      by (rule nth_equalityI)
        (use slot_run_in [OF True 1(3)] st(3) 1(2) in \<open>simp_all add: nth_get_bytes\<close>)
    moreover have "[done'..<stride] = [done'..<done' + ?n] @ [done' + ?n..<stride]"
      using st(2) upt_add_eq_append [of done' "done' + ?n" "stride - (done' + ?n)"] by simp
    ultimately show ?thesis using 1 True st(1) by (subst ind_slot_gather_loop.simps) simp
  qed (simp add: ind_slot_gather_loop.simps)
qed

lemma ind_slot_gather_eq:
  "length scratch = 4096 \<Longrightarrow> off + stride \<le> 3824 \<Longrightarrow>
   ind_slot_gather scratch off stride = map (\<lambda>k. scratch ! payload_pos (off + k)) [0..<stride]"
  by (simp add: ind_slot_gather_def gather_loop_eq)

lemma scatter_loop:
  assumes "length scratch = 4096" "off + stride \<le> 3824" "length inp = stride"
  shows "length (ind_slot_scatter_loop off stride inp done' scratch) = 4096
    \<and> (\<forall>k. done' \<le> k \<longrightarrow> k < stride \<longrightarrow> ind_slot_scatter_loop off stride inp done' scratch ! payload_pos (off + k) = inp ! k)
    \<and> (\<forall>j < 4096. (\<forall>k. done' \<le> k \<longrightarrow> k < stride \<longrightarrow> j \<noteq> payload_pos (off + k)) \<longrightarrow>
         ind_slot_scatter_loop off stride inp done' scratch ! j = scratch ! j)"
  using assms
proof (induction off stride inp done' scratch rule: ind_slot_scatter_loop.induct)
  case (1 off stride inp done' scratch)
  show ?case
  proof (cases "done' < stride")
    case True
    let ?n = "snd (slot_run off stride done')" and ?x = "payload_pos (off + done')"
    let ?s = "put_bytes ?x (get_bytes done' (snd (slot_run off stride done')) inp) scratch"
    note st = slot_run_step [OF True, where off = off] and inn = slot_run_in [OF True 1(3)]
    have l: "length (get_bytes done' ?n inp) = ?n" "length ?s = 4096" using 1(2,4) st(2) inn by simp_all
    have unf: "ind_slot_scatter_loop off stride inp done' scratch = ind_slot_scatter_loop off stride inp (done' + ?n) ?s"
      using True st(1) by (subst ind_slot_scatter_loop.simps) simp
    have IH: "length (ind_slot_scatter_loop off stride inp (done' + ?n) ?s) = 4096"
      "\<And>k. done' + ?n \<le> k \<Longrightarrow> k < stride \<Longrightarrow> ind_slot_scatter_loop off stride inp (done' + ?n) ?s ! payload_pos (off + k) = inp ! k"
      "\<And>j. j < 4096 \<Longrightarrow> (\<forall>k. done' + ?n \<le> k \<longrightarrow> k < stride \<longrightarrow> j \<noteq> payload_pos (off + k)) \<Longrightarrow>
         ind_slot_scatter_loop off stride inp (done' + ?n) ?s ! j = ?s ! j"
      using 1(1) [OF True] st(1) l(2) 1(3,4) by simp_all
    have mid: "?s ! payload_pos (off + k) = inp ! k" if "done' \<le> k" "k < done' + ?n" for k
    proof -
      define i where "i = k - done'"
      then have i: "k = done' + i" using that(1) by linarith
      then have "i < ?n" using that(2) by simp
      note i = i this
      have "payload_pos (off + k) = ?x + i" unfolding i(1) by (rule st(3) [OF i(2)])
      moreover have "?s ! (?x + i) = get_bytes done' ?n inp ! i" using i(2) l(1) inn 1(2) by (simp add: nth_put_bytes)
      moreover have "get_bytes done' ?n inp ! i = inp ! k" using i st(2) 1(4) by (simp add: nth_get_bytes)
      ultimately show ?thesis by simp
    qed
    have "ind_slot_scatter_loop off stride inp done' scratch ! payload_pos (off + k) = inp ! k"
      if "done' \<le> k" "k < stride" for k
    proof (cases "k < done' + ?n")
      case True
      have "ind_slot_scatter_loop off stride inp (done' + ?n) ?s ! payload_pos (off + k) = ?s ! payload_pos (off + k)"
      proof (rule IH(3))
        show "payload_pos (off + k) < 4096" using payload_pos_less [of "off + k"] that 1(3) by simp
        show "\<forall>k'. done' + ?n \<le> k' \<longrightarrow> k' < stride \<longrightarrow> payload_pos (off + k) \<noteq> payload_pos (off + k')"
          using True payload_pos_inj [of "off + k"] by (metis add_left_cancel not_le)
      qed
      then show ?thesis using unf mid [OF that(1) True] by simp
    qed (use that IH(2) unf in simp)
    moreover have "ind_slot_scatter_loop off stride inp done' scratch ! j = scratch ! j"
      if "j < 4096" "\<forall>k. done' \<le> k \<longrightarrow> k < stride \<longrightarrow> j \<noteq> payload_pos (off + k)" for j
    proof -
      have "?s ! j = scratch ! j"
      proof (cases "?x \<le> j \<and> j < ?x + ?n")
        case True
        define i where "i = j - ?x"
        then have i: "j = ?x + i" using True by linarith
        then have "i < ?n" using True by simp
        note i = i this
        have "j = payload_pos (off + (done' + i))" unfolding i(1) by (rule st(3) [OF i(2), symmetric])
        moreover have "done' \<le> done' + i" "done' + i < stride" using i(2) st(2) by linarith+
        ultimately show ?thesis using that(2) by blast
      qed (use that l(1) inn 1(2) in \<open>auto simp: nth_put_bytes\<close>)
      then show ?thesis using IH(3) [OF that(1)] that(2) unf by simp
    qed
    ultimately show ?thesis using IH(1) unf by simp
  next
    case False
    then show ?thesis using 1(2) by (simp add: ind_slot_scatter_loop.simps)
  qed
qed

lemma ind_slot_scatter_spec:
  assumes "length scratch = 4096" "off + stride \<le> 3824" "length inp = stride"
  shows "length (ind_slot_scatter scratch off stride inp) = 4096"
    "k < stride \<Longrightarrow> ind_slot_scatter scratch off stride inp ! payload_pos (off + k) = inp ! k"
    "j < 4096 \<Longrightarrow> (\<And>k. k < stride \<Longrightarrow> j \<noteq> payload_pos (off + k)) \<Longrightarrow>
       ind_slot_scatter scratch off stride inp ! j = scratch ! j"
  using scatter_loop [OF assms, of 0] by (simp_all add: ind_slot_scatter_def)

text \<open>Storing a slot and reading slots back: the one stored, and every other as it was.\<close>

lemma gather_scatter_slot:
  assumes "length scratch = 4096" "off + stride \<le> 3824" "length inp = stride"
  shows "ind_slot_gather (ind_slot_scatter scratch off stride inp) off stride = inp"
    and "off' + stride' \<le> 3824 \<Longrightarrow> apart off stride off' stride' \<Longrightarrow>
      ind_slot_gather (ind_slot_scatter scratch off stride inp) off' stride' = ind_slot_gather scratch off' stride'"
proof -
  note sc = ind_slot_scatter_spec [OF assms]
  show "ind_slot_gather (ind_slot_scatter scratch off stride inp) off stride = inp"
    using assms sc(1,2) by (intro nth_equalityI) (simp_all add: ind_slot_gather_eq)
  assume o': "off' + stride' \<le> 3824" "apart off stride off' stride'"
  have "ind_slot_scatter scratch off stride inp ! payload_pos (off' + k) = scratch ! payload_pos (off' + k)"
    if "k < stride'" for k
  proof (rule sc(3))
    show "payload_pos (off' + k) < 4096" using payload_pos_less o'(1) that by simp
    show "payload_pos (off' + k) \<noteq> payload_pos (off + l)" if "l < stride" for l
      using payload_pos_inj [of "off' + k" "off + l"] o'(2) that \<open>k < stride'\<close> by (auto simp: apart_def)
  qed
  then show "ind_slot_gather (ind_slot_scatter scratch off stride inp) off' stride' = ind_slot_gather scratch off' stride'"
    using assms(1) sc(1) o'(1) by (simp add: ind_slot_gather_eq)
qed

text \<open>A slot depends only on the data of the subblocks.\<close>

lemma gather_cong:
  assumes "length a = 4096" "length b = 4096" "\<And>s. s < 16 \<Longrightarrow> get_bytes (s * 255) 239 a = get_bytes (s * 255) 239 b"
    "off + stride \<le> 3824"
  shows "ind_slot_gather a off stride = ind_slot_gather b off stride"
proof -
  have "a ! payload_pos j = b ! payload_pos j" if "j < 3824" for j
  proof -
    have s: "j div 239 < 16" using that by (simp add: less_mult_imp_div_less)
    then have le: "j div 239 * 255 + 239 \<le> 4096" by linarith
    have "c ! payload_pos j = get_bytes (j div 239 * 255) 239 c ! (j mod 239)" if "length c = 4096" for c :: "byte list"
      using nth_get_bytes [of "j div 239 * 255" 239 c "j mod 239"] le that by (simp add: payload_pos_def)
    then show ?thesis using assms(1-3) s by simp
  qed
  then show ?thesis using assms by (simp add: ind_slot_gather_eq)
qed

subsection \<open>What the region says\<close>

text \<open>A decode of a region block that uses no cache.\<close>

definition ind_region_decode :: "kenv \<Rightarrow> byte list \<Rightarrow> errno option \<times> byte list" where
  "ind_region_decode K b =
     (let (scratch, _, results, _) = beamfs_rs_decode_region (k_rs K) b 0 255 239 255 239 16 True 8
      in (if \<exists>i < 16. results ! i < 0 then Some EUCLEAN else None, scratch))"

text \<open>The cached decode, if its generation is current, is one of the buffer as it is.\<close>

definition rcache_ok :: "kenv \<Rightarrow> 'a volume_scheme \<Rightarrow> bool" where
  "rcache_ok K v \<longleftrightarrow>
     (\<forall>c bh. s_ind_rcache v = Some c \<longrightarrow> rc_gen c = s_ind_parity_gen v \<longrightarrow> s_blk v (rc_blocknr c) = Some bh \<longrightarrow>
        (rc_ret c, rc_data c) = ind_region_decode K (b_data bh))"

lemma region_log_fold:
  "quiet v (fst (fold (ind_region_log_step K blk results poss) is (v, r)))
   \<and> s_blk (fst (fold (ind_region_log_step K blk results poss) is (v, r))) = s_blk v
   \<and> snd (fold (ind_region_log_step K blk results poss) is (v, r)) =
       (if \<exists>i \<in> set is. results ! i < 0 then Some EUCLEAN else r)"
proof (induction "is" arbitrary: v r)
  case (Cons i "is")
  obtain w r' where w: "ind_region_log_step K blk results poss i (v, r) = (w, r')" by (cases "ind_region_log_step K blk results poss i (v, r)")
  then have "quiet v w" "s_blk w = s_blk v" "r' = (if results ! i < 0 then Some EUCLEAN else r)"
    by (auto simp: ind_region_log_step_def split: if_splits)
  then show ?case using Cons [of w r'] w quiet_trans by auto
qed simp

text \<open>A read of a region block gives its decode, cached or not, and changes nothing but the journal
  and the cache.\<close>

lemma quiet_rcache: "quiet v w \<Longrightarrow> quiet (v\<lparr>s_ind_rcache := c\<rparr>) (w\<lparr>s_ind_rcache := c\<rparr>)"
  by (simp add: quiet_def budget_region_def)

lemma quiet_rcache_keep: "quiet v w \<Longrightarrow> quiet (v\<lparr>s_ind_rcache := s_ind_rcache w\<rparr>) w"
  by (simp add: quiet_def budget_region_def)

lemma ind_region_read_spec:
  assumes ok: "rcache_ok K v" and bh: "s_blk v blk = Some bh"
    and rd: "ind_region_read K v blk (b_data bh) = (ret, scratch, v')"
  shows "(ret, scratch) = ind_region_decode K (b_data bh)" "quiet (v\<lparr>s_ind_rcache := s_ind_rcache v'\<rparr>) v'"
    "s_blk v' = s_blk v" "rcache_ok K v'"
proof -
  let ?b = "b_data bh"
  obtain d rc res poss where dec: "beamfs_rs_decode_region (k_rs K) ?b 0 255 239 255 239 16 True 8 = (d, rc, res, poss)"
    by (cases "beamfs_rs_decode_region (k_rs K) ?b 0 255 239 255 239 16 True 8")
  let ?hit = "\<exists>c. s_ind_rcache v = Some c \<and> rc_blocknr c = blk \<and> rc_gen c = s_ind_parity_gen v"
  have "(ret, scratch) = ind_region_decode K ?b \<and> quiet (v\<lparr>s_ind_rcache := s_ind_rcache v'\<rparr>) v'
    \<and> s_blk v' = s_blk v \<and> rcache_ok K v'"
  proof (cases ?hit)
    case True
    then have "ret = rc_ret (the (s_ind_rcache v))" "scratch = rc_data (the (s_ind_rcache v))" "v' = v"
      using rd by (auto simp: ind_region_read_def)
    then show ?thesis using True ok bh by (auto simp: rcache_ok_def)
  next
    case False
    define f where "f = fold (ind_region_log_step K blk res poss) [0..<16] (v, None)"
    note lf = region_log_fold [of v K blk res poss "[0..<16]" None, folded f_def]
    have dec': "ind_region_decode K ?b = (snd f, d)" using dec lf by (auto simp: ind_region_decode_def)
    let ?c = "\<lparr>rc_blocknr = blk, rc_gen = s_ind_parity_gen v, rc_ret = snd f, rc_data = d\<rparr>"
    have eq: "ret = snd f" "scratch = d"
      "v' = (if s_ind_rcache (fst f) \<noteq> None \<or> s_rcache_ok (fst f) then (fst f)\<lparr>s_ind_rcache := Some ?c\<rparr> else fst f)"
      using rd False dec by (auto simp: ind_region_read_def f_def Let_def case_prod_unfold split: option.splits)
    note q = quietD [OF conjunct1 [OF lf]]
    have cache: "s_ind_rcache v' = Some ?c \<or> s_ind_rcache v' = s_ind_rcache v \<and> v' = fst f" using eq(3) q(28) by auto
    have "rcache_ok K v'"
      using cache ok bh dec' lf q(27,28) eq(3) by (auto simp: rcache_ok_def)
    moreover have "quiet (v\<lparr>s_ind_rcache := s_ind_rcache v'\<rparr>) v'"
    proof (cases "s_ind_rcache (fst f) \<noteq> None \<or> s_rcache_ok (fst f)")
      case True
      then show ?thesis using eq(3) quiet_rcache [OF conjunct1 [OF lf]] by simp
    next
      case False
      then have "v' = fst f" using eq(3) by (simp only: if_False)
      then show ?thesis using quiet_rcache_keep [OF conjunct1 [OF lf]] by (simp only:)
    qed
    ultimately show ?thesis using eq dec' lf by auto
  qed
  then show "(ret, scratch) = ind_region_decode K ?b" "quiet (v\<lparr>s_ind_rcache := s_ind_rcache v'\<rparr>) v'"
    "s_blk v' = s_blk v" "rcache_ok K v'" by blast+
qed

text \<open>After a read the cache is empty or of the current generation, so that bumping it empties the cache.\<close>

lemma ind_region_read_gen:
  assumes "ind_region_read K v blk b = (ret, scratch, v')" "s_ind_rcache v' = Some c"
  shows "rc_gen c = s_ind_parity_gen v"
proof (cases "\<exists>c. s_ind_rcache v = Some c \<and> rc_blocknr c = blk \<and> rc_gen c = s_ind_parity_gen v")
  case False
  obtain d rc res poss where dec: "beamfs_rs_decode_region (k_rs K) b 0 255 239 255 239 16 True 8 = (d, rc, res, poss)"
    by (cases "beamfs_rs_decode_region (k_rs K) b 0 255 239 255 239 16 True 8")
  define f where "f = fold (ind_region_log_step K blk res poss) [0..<16] (v, None)"
  have "v' = (if s_ind_rcache (fst f) \<noteq> None \<or> s_rcache_ok (fst f)
      then (fst f)\<lparr>s_ind_rcache := Some \<lparr>rc_blocknr = blk, rc_gen = s_ind_parity_gen v, rc_ret = snd f, rc_data = d\<rparr>\<rparr>
      else fst f)"
    using assms(1) False dec by (auto simp: ind_region_read_def f_def Let_def case_prod_unfold split: option.splits)
  then show ?thesis using assms(2) by (auto split: if_splits)
qed (use assms in \<open>auto simp: ind_region_read_def\<close>)

text \<open>A region block written from a decoded image decodes to that image's subblocks.\<close>

lemma region_copy_fold:
  assumes "length b = 4096" "length scratch = 4096" "n \<le> 16"
  defines "c \<equiv> fold (\<lambda>i b. put_bytes (i * 255) (get_bytes (i * 255) 239 scratch) b) [0..<n] b"
  shows "length c = 4096 \<and> (\<forall>s < n. get_bytes (s * 255) 239 c = get_bytes (s * 255) 239 scratch)"
  using assms(3) unfolding c_def
proof (induction n)
  case (Suc n)
  let ?c = "fold (\<lambda>i b. put_bytes (i * 255) (get_bytes (i * 255) 239 scratch) b) [0..<n] b"
  let ?g = "get_bytes (n * 255) 239 scratch"
  have IH: "length ?c = 4096" "\<And>s. s < n \<Longrightarrow> get_bytes (s * 255) 239 ?c = get_bytes (s * 255) 239 scratch"
    using Suc by simp_all
  have le: "n * 255 + 239 \<le> 4096" using Suc.prems by linarith
  then have g: "length ?g = 239" using assms(2) by simp
  have "get_bytes (s * 255) 239 (put_bytes (n * 255) ?g ?c) = get_bytes (s * 255) 239 scratch" if "s < Suc n" for s
  proof (cases "s = n")
    case True
    then show ?thesis using get_put_same [of "n * 255" ?g ?c] g le IH(1) by simp
  next
    case False
    then have "s * 255 + 239 \<le> n * 255" "s * 255 + 239 \<le> 4096" using that le by linarith+
    then show ?thesis using get_put_other [of "n * 255" ?g ?c "s * 255" 239] g le IH that False by simp
  qed
  then show ?case using g le IH(1) by simp
qed (use assms in simp)

lemma ind_region_write_decode:
  assumes K: "kernel_lib K" and len: "length b = 4096" "length scratch = 4096"
  shows "\<exists>d. ind_region_decode K (ind_region_write K b scratch) = (None, d) \<and> length d = 4096
    \<and> (\<forall>s < 16. get_bytes (s * 255) 239 d = get_bytes (s * 255) 239 scratch)"
    and "length (ind_region_write K b scratch) = 4096"
proof -
  have lib: "rs_library (k_rs K)" using K by (rule kernel_lib.k_rs_library)
  let ?f = "fold (\<lambda>i b. put_bytes (i * 255) (get_bytes (i * 255) 239 scratch) b) [0..<16] b"
  have f: "length ?f = 4096" "\<And>s. s < 16 \<Longrightarrow> get_bytes (s * 255) 239 ?f = get_bytes (s * 255) 239 scratch"
    using region_copy_fold [OF len, of 16] by simp_all
  obtain c where c: "beamfs_rs_encode_region (k_rs K) ?f 0 255 239 255 239 16 = (None, c)" "length c = 4096"
    "\<And>s. s < 16 \<Longrightarrow> get_bytes (s * 255) 239 c = get_bytes (s * 255) 239 scratch"
    "rs_library.region_code (k_rs K) c 0 255 239 255 239 16"
    using rs_library.encode_region [OF lib alternating_ok, of ?f] f by auto
  have w: "ind_region_write K b scratch = c" using c(1) by (simp add: ind_region_write_def)
  have few: "card (region_errs c c 0 255 239 255 239 s) \<le> 8" for s by (simp add: region_errs_def errors_def)
  obtain d poss where d: "beamfs_rs_decode_region (k_rs K) c 0 255 239 255 239 16 True 8
      = (d, 0, map (rs_library.region_rc (Some 8) c c 0 255 239 255 239) [0..<16], poss)"
    "length d = 4096" "\<And>s. s < 16 \<Longrightarrow> get_bytes (s * 255) 239 d = get_bytes (s * 255) 239 c"
    using rs_library.decode_region [OF lib alternating_ok [OF c(2)] refl _ c(4) few, of True 8] c(2) by auto
  then have "ind_region_decode K c = (None, d)"
    by (auto simp: ind_region_decode_def rs_library.region_rc_def [OF lib])
  then show "\<exists>d. ind_region_decode K (ind_region_write K b scratch) = (None, d) \<and> length d = 4096
    \<and> (\<forall>s < 16. get_bytes (s * 255) 239 d = get_bytes (s * 255) 239 scratch)"
    using w d c(3) by auto
  show "length (ind_region_write K b scratch) = 4096" using w c(2) by simp
qed

lemma length_decode_region_fold:
  assumes "\<And>i. i \<in> set is \<Longrightarrow> doff + i * ds + len \<le> length b"
  shows "length (fst (fold (rs_decode_region_step env doff ds poff ps len want) is (b, w, rs, poss))) = length b"
  using assms
proof (induction "is" arbitrary: b w rs poss)
  case (Cons i js)
  let ?d = "beamfs_rs_decode env (get_bytes (doff + i * ds) len b) (get_bytes (poff + i * ps) 16 b) want"
  have "length (fst (snd ?d)) = len"
    using Cons.prems [of i] by (auto simp: beamfs_rs_decode_def Let_def split: option.split)
  then have "length (put_bytes (doff + i * ds) (fst (snd ?d)) b) = length b" using Cons.prems [of i] by simp
  then show ?case using Cons by (simp add: rs_decode_region_step_def case_prod_unfold Let_def)
qed simp

lemma length_ind_region_decode: "length b = 4096 \<Longrightarrow> length (snd (ind_region_decode K b)) = 4096"
proof -
  assume b: "length b = 4096"
  have "0 + i * 255 + 239 \<le> length b" if "i \<in> set [0..<16]" for i using that b by auto
  then have "length (fst (fold (rs_decode_region_step (k_rs K) 0 255 239 255 239 (Some 8)) [0..<16] (b, 0, [], []))) = length b"
    by (rule length_decode_region_fold)
  then show ?thesis using b
    by (simp add: ind_region_decode_def beamfs_rs_decode_region_def case_prod_unfold Let_def)
qed

subsection \<open>Slots and what they describe\<close>

text \<open>The slot of a block as the region holds it: what a decode of the region block, without the cache,
  gives. \<open>None\<close> when the block has no slot or the region block is unreadable or beyond correction.\<close>

definition stored_slot :: "kenv \<Rightarrow> 'a volume_scheme \<Rightarrow> nat \<Rightarrow> byte list option" where
  "stored_slot K v phys =
     (case ind_parity_slot v phys of
        None \<Rightarrow> None
      | Some (rb, off, stride) \<Rightarrow>
          (case s_blk v rb of
             None \<Rightarrow> None
           | Some bh \<Rightarrow>
               (case ind_region_decode K (b_data bh) of
                  (None, scratch) \<Rightarrow> Some (ind_slot_gather scratch off stride)
                | (Some _, _) \<Rightarrow> None)))"

text \<open>A slot that describes the first 3824 bytes of a block.\<close>

definition slot_describes :: "kenv \<Rightarrow> u32 \<Rightarrow> byte list \<Rightarrow> byte list \<Rightarrow> bool" where
  "slot_describes K mode block slot \<longleftrightarrow>
     (if mode = BEAMFS_IND_PARITY_CRC
      then length slot = 64 \<and> (\<forall>i < 16. get_le32 (4 * i) slot = ind_slot_crc K block i)
      else length slot = 256 \<and> rs_library.region_code (k_rs K) (block @ slot) 0 239 4096 16 239 16)"

lemma ind_parity_slotD:
  assumes "ind_parity_slot v phys = Some (rb, off, stride)"
  shows "stride = ind_parity_stride v" "off + stride \<le> 3824" "stride \<le> 256" "0 < stride"
    "rb = s_ind_parity_blk v + (phys - s_data_start v) div ind_parity_slots v"
    "off = (phys - s_data_start v) mod ind_parity_slots v * stride"
    "s_data_start v \<le> phys" "s_ind_parity_blk v \<le> rb" "rb < s_ind_parity_blk v + s_ind_parity_len v"
    "s_ind_parity_mode v = BEAMFS_IND_PARITY_CRC \<and> stride = 64 \<or> s_ind_parity_mode v = BEAMFS_IND_PARITY_RS \<and> stride = 256"
proof -
  show s: "stride = ind_parity_stride v" "off + stride \<le> 3824" "0 < stride"
    "rb = s_ind_parity_blk v + (phys - s_data_start v) div ind_parity_slots v"
    "off = (phys - s_data_start v) mod ind_parity_slots v * stride"
    "s_data_start v \<le> phys" "s_ind_parity_blk v \<le> rb" "rb < s_ind_parity_blk v + s_ind_parity_len v"
    using assms by (auto simp: ind_parity_slot_def Let_def split: if_splits)
  show m: "s_ind_parity_mode v = BEAMFS_IND_PARITY_CRC \<and> stride = 64 \<or> s_ind_parity_mode v = BEAMFS_IND_PARITY_RS \<and> stride = 256"
    using s(1,3) by (auto simp: ind_parity_stride_def split: if_splits)
  then show "stride \<le> 256" by auto
qed

lemma ind_parity_slot_cong:
  "s_ind_parity_mode w = s_ind_parity_mode v \<Longrightarrow> s_ind_parity_blk w = s_ind_parity_blk v \<Longrightarrow>
   s_ind_parity_len w = s_ind_parity_len v \<Longrightarrow> s_data_start w = s_data_start v \<Longrightarrow>
   ind_parity_slot w p = ind_parity_slot v p"
  by (simp only: ind_parity_slot_def ind_parity_stride_def ind_parity_slots_def)

text \<open>Two blocks whose slots share a region block have slots apart from each other.\<close>

lemma ind_parity_slot_apart:
  assumes p: "ind_parity_slot v p = Some (rb, off, stride)" and q: "ind_parity_slot v q = Some (rb, off', stride')"
    and ne: "p \<noteq> q"
  shows "apart off stride off' stride'"
proof -
  note P = ind_parity_slotD [OF p] and Q = ind_parity_slotD [OF q]
  let ?n = "ind_parity_slots v" and ?i = "p - s_data_start v" and ?j = "q - s_data_start v"
  have "?i div ?n = ?j div ?n" using P(5) Q(5) by simp
  moreover have "?i \<noteq> ?j" using ne P(7) Q(7) by linarith
  ultimately have "?i mod ?n \<noteq> ?j mod ?n" by (metis div_mult_mod_eq)
  then have "Suc (?i mod ?n) \<le> ?j mod ?n \<or> Suc (?j mod ?n) \<le> ?i mod ?n" by linarith
  then have "Suc (?i mod ?n) * stride \<le> ?j mod ?n * stride \<or> Suc (?j mod ?n) * stride \<le> ?i mod ?n * stride"
    using mult_le_mono1 by blast
  then show ?thesis using P(1,6) Q(1,6) by (auto simp: apart_def)
qed

lemma crc_slot_fold:
  assumes "length slot = 64" "n \<le> 16"
  shows "length (fold (\<lambda>i slot. put_le32 (4 * i) (f i) slot) [0..<n] slot) = 64
    \<and> (\<forall>i < n. get_le32 (4 * i) (fold (\<lambda>i slot. put_le32 (4 * i) (f i) slot) [0..<n] slot) = f i)"
  using assms(2)
proof (induction n)
  case (Suc n)
  let ?c = "fold (\<lambda>i slot. put_le32 (4 * i) (f i) slot) [0..<n] slot"
  have IH: "length ?c = 64" "\<And>i. i < n \<Longrightarrow> get_le32 (4 * i) ?c = f i" using Suc by simp_all
  have le: "4 * n + 4 \<le> 64" using Suc.prems by simp
  have "get_le32 (4 * i) (put_le32 (4 * n) (f n) ?c) = f i" if "i < Suc n" for i
  proof (cases "i = n")
    case True
    then show ?thesis using IH(1) le by simp
  next
    case False
    then have "get_bytes (4 * i) 4 (put_le32 (4 * n) (f n) ?c) = get_bytes (4 * i) 4 ?c"
      using that IH(1) le by (simp add: put_le32_def get_put_other)
    then show ?thesis using IH(2) [of i] that False by (simp add: get_le32_def)
  qed
  then show ?case using IH(1) le by simp
qed (use assms in simp)

lemma encode_one_fold:
  assumes "rs_library env" "\<And>i. i \<in> set is \<Longrightarrow> i * 239 + 239 \<le> length buf \<and> 4096 + i * 16 + 16 \<le> length buf"
  shows "rs_encode_region_loop env 0 239 4096 16 239 is buf
    = (None, fold (\<lambda>i buf. snd (beamfs_rs_encode_region env buf (i * 239) 239 (4096 + i * 16) 16 239 1)) is buf)"
  using assms(2)
proof (induction "is" arbitrary: buf)
  case (Cons i js)
  have le: "i * 239 + 239 \<le> length buf" "4096 + i * 16 + 16 \<le> length buf" using Cons.prems [of i] by simp_all
  let ?par = "rs_library.parity env (get_bytes (i * 239) 239 buf)"
  have enc: "beamfs_rs_encode env (get_bytes (i * 239) 239 buf) = Inr ?par"
    using rs_library.encode_ok [OF assms(1), of "get_bytes (i * 239) 239 buf"] le by simp
  moreover have "length (put_bytes (4096 + i * 16) ?par buf) = length buf"
    using rs_library.length_parity [OF assms(1), of "get_bytes (i * 239) 239 buf"] le by simp
  ultimately show ?case using Cons by (simp add: beamfs_rs_encode_region_def)
qed simp

lemma slot_region_ok: "length buf = 4352 \<Longrightarrow> region_ok buf 0 239 4096 16 239 16"
  by (auto simp: region_ok_def apart_def)

lemma region_code_cong:
  assumes "rs_library env" "\<And>s. s < n \<Longrightarrow> get_bytes (poff + s * ps) 16 a = get_bytes (poff + s * ps) 16 b"
    "\<And>s. s < n \<Longrightarrow> get_bytes (doff + s * ds) len a = get_bytes (doff + s * ds) len b"
  shows "rs_library.region_code env a doff ds poff ps len n = rs_library.region_code env b doff ds poff ps len n"
  using assms by (simp add: rs_library.region_code_def)

lemma get_append_left: "off + n \<le> length a \<Longrightarrow> get_bytes off n (a @ b) = get_bytes off n a"
  by (simp add: get_bytes_def)

lemma get_append_right: "get_bytes (length a + off) n (a @ b) = get_bytes off n b"
  by (simp add: get_bytes_def)

lemma ind_slot_compute_describes:
  assumes K: "kernel_lib K" and len: "length block = 4096"
    "length slot = (if mode = BEAMFS_IND_PARITY_CRC then 64 else 256)"
  shows "slot_describes K mode block (ind_slot_compute K mode block slot)"
    "length (ind_slot_compute K mode block slot) = length slot"
proof -
  have "slot_describes K mode block (ind_slot_compute K mode block slot)
    \<and> length (ind_slot_compute K mode block slot) = length slot"
  proof (cases "mode = BEAMFS_IND_PARITY_CRC")
    case True
    then show ?thesis using crc_slot_fold [of slot 16 "ind_slot_crc K block"] len(2)
      by (simp add: slot_describes_def ind_slot_compute_def)
  next
    case False
    have lib: "rs_library (k_rs K)" using K by (rule kernel_lib.k_rs_library)
    let ?b = "block @ slot"
    have lb: "length ?b = 4352" using len False by simp
    obtain c where c: "beamfs_rs_encode_region (k_rs K) ?b 0 239 4096 16 239 16 = (None, c)" "length c = 4352"
      "\<And>s. s < 16 \<Longrightarrow> get_bytes (s * 239) 239 c = get_bytes (s * 239) 239 ?b"
      "rs_library.region_code (k_rs K) c 0 239 4096 16 239 16"
      using rs_library.encode_region [OF lib slot_region_ok [OF lb]] lb by auto
    have "i * 239 + 239 \<le> length ?b \<and> 4096 + i * 16 + 16 \<le> length ?b" if "i \<in> set [0..<16]" for i
      using that lb by auto
    then have "rs_encode_region_loop (k_rs K) 0 239 4096 16 239 [0..<16] ?b = (None, fold (\<lambda>i buf.
        snd (beamfs_rs_encode_region (k_rs K) buf (i * 239) 239 (4096 + i * 16) 16 239 1)) [0..<16] ?b)"
      by (rule encode_one_fold [OF lib])
    then have f: "fold (\<lambda>i buf. snd (beamfs_rs_encode_region (k_rs K) buf (i * 239) 239
        (4096 + i * 16) 16 239 1)) [0..<16] ?b = c"
      using c(1) unfolding beamfs_rs_encode_region_def [of _ ?b] by simp
    then have r: "ind_slot_compute K mode block slot = drop 4096 c" using False by (simp add: ind_slot_compute_def)
    have "get_bytes (4096 + s * 16) 16 (block @ drop 4096 c) = get_bytes (4096 + s * 16) 16 c" for s
      using len(1) get_append_right [of block "s * 16" 16 "drop 4096 c"] by (simp add: get_bytes_def add.commute)
    moreover have "get_bytes (0 + s * 239) 239 (block @ drop 4096 c) = get_bytes (0 + s * 239) 239 c" if "s < 16" for s
    proof -
      have "s * 239 + 239 \<le> 4096" using that by linarith
      then show ?thesis using c(3) [OF that] len(1) by (simp add: get_append_left)
    qed
    ultimately have "rs_library.region_code (k_rs K) (block @ drop 4096 c) 0 239 4096 16 239 16"
      using region_code_cong [OF lib, of 16 4096 16 "block @ drop 4096 c" c 0 239 239] c(4) by blast
    then show ?thesis using r c(2) len(2) False by (simp add: slot_describes_def)
  qed
  then show "slot_describes K mode block (ind_slot_compute K mode block slot)"
    "length (ind_slot_compute K mode block slot) = length slot" by simp_all
qed

lemma quiet_lost [simp]: "quiet v (ind_verify_lost K phys i v)" "s_blk (ind_verify_lost K phys i v) = s_blk v"
  by (simp_all add: ind_verify_lost_def)

lemma verify_crc_fold:
  "quiet v (fst (fold (ind_verify_crc_step K phys block slot) is (v, r)))
   \<and> s_blk (fst (fold (ind_verify_crc_step K phys block slot) is (v, r))) = s_blk v
   \<and> snd (fold (ind_verify_crc_step K phys block slot) is (v, r)) =
       (if \<exists>i \<in> set is. get_le32 (4 * i) slot \<noteq> ind_slot_crc K block i then Some EUCLEAN else r)"
proof (induction "is" arbitrary: v r)
  case (Cons i "is")
  obtain w r' where w: "ind_verify_crc_step K phys block slot i (v, r) = (w, r')"
    by (cases "ind_verify_crc_step K phys block slot i (v, r)")
  then have "quiet v w" "s_blk w = s_blk v" "r' = (if get_le32 (4 * i) slot \<noteq> ind_slot_crc K block i then Some EUCLEAN else r)"
    by (auto simp: ind_verify_crc_step_def split: if_splits)
  then show ?case using Cons [of w r'] w quiet_trans by auto
qed simp

text \<open>Within the radius of the code every subblock decodes.\<close>

lemma verify_rs_fold:
  assumes K: "kernel_lib K" and len: "length r = 4352" "length c = 4352"
    and code: "rs_library.region_code (k_rs K) c 0 239 4096 16 239 16"
    and few: "\<And>s. s < 16 \<Longrightarrow> card (region_errs r c 0 239 4096 16 239 s) \<le> 8" and n: "n \<le> 16"
  shows "\<exists>v'. fold (ind_verify_rs_step K phys) [0..<n] (r, v, None) =
      (fst (fold (rs_decode_region_step (k_rs K) 0 239 4096 16 239 (Some 8)) [0..<n] (r, 0, [], [])), v', None)
    \<and> quiet v v' \<and> s_blk v' = s_blk v"
  using n
proof (induction n)
  case (Suc n)
  have lib: "rs_library (k_rs K)" using K by (rule kernel_lib.k_rs_library)
  let ?step = "rs_decode_region_step (k_rs K) 0 239 4096 16 239 (Some 8)"
  let ?rc = "rs_library.region_rc (Some 8) r c 0 239 4096 16 239"
  obtain v' where v': "fold (ind_verify_rs_step K phys) [0..<n] (r, v, None) = (fst (fold ?step [0..<n] (r, 0, [], [])), v', None)"
    "quiet v v'" "s_blk v' = s_blk v" using Suc by auto
  have loop: "\<exists>buf poss. fold ?step [0..<k] (r, 0, [], []) = (buf, 0, map ?rc [0..<k], poss)" if "k \<le> 16" for k
    using rs_library.decode_region_loop [OF lib slot_region_ok [OF len(1)] _ _ code few that, of "Some 8"] len by auto
  obtain buf poss where buf: "fold ?step [0..<n] (r, 0, [], []) = (buf, 0, map ?rc [0..<n], poss)"
    using loop [of n] Suc.prems by auto
  obtain buf' poss' where buf': "fold ?step [0..<Suc n] (r, 0, [], []) = (buf', 0, map ?rc [0..<Suc n], poss')"
    using loop [OF Suc.prems] by blast
  obtain rc d pos where d: "beamfs_rs_decode (k_rs K) (get_bytes (n * 239) 239 buf) (get_bytes (4096 + n * 16) 16 buf) (Some 8)
      = (rc, d, pos)" by (metis prod_cases3)
  have "0 \<le> rc" "buf' = put_bytes (n * 239) d buf"
    using buf buf' d by (auto simp: rs_decode_region_step_def rs_library.region_rc_def [OF lib])
  moreover have "\<exists>w. ind_verify_rs_step K phys n (buf, v', None) = (put_bytes (n * 239) d buf, w, None)
      \<and> quiet v' w \<and> s_blk w = s_blk v'" if "0 \<le> rc"
    using d that by (simp add: ind_verify_rs_step_def beamfs_rs_decode_region_def rs_decode_region_step_def)
  ultimately obtain w where "ind_verify_rs_step K phys n (buf, v', None) = (buf', w, None)" "quiet v' w" "s_blk w = s_blk v'"
    by blast
  then show ?case using v' buf buf' quiet_trans [OF v'(2)] by (intro exI [of _ w]) simp
qed simp

subsection \<open>An update, step by step\<close>

definition blocks_ok :: "'a volume_scheme \<Rightarrow> bool" where
  "blocks_ok v \<longleftrightarrow> (\<forall>b bh. s_blk v b = Some bh \<longrightarrow> length (b_data bh) = 4096)"

lemma mark_inode_dirty_sel [simp]:
  "s_blk (mark_inode_dirty i v) = s_blk v" "s_ind_parity_mode (mark_inode_dirty i v) = s_ind_parity_mode v"
  "s_ind_parity_blk (mark_inode_dirty i v) = s_ind_parity_blk v" "s_ind_parity_len (mark_inode_dirty i v) = s_ind_parity_len v"
  "s_data_start (mark_inode_dirty i v) = s_data_start v" "s_verified (mark_inode_dirty i v) = s_verified v"
  "s_ind_rcache (mark_inode_dirty i v) = s_ind_rcache v" "s_ind_parity_gen (mark_inode_dirty i v) = s_ind_parity_gen v"
  "s_scratch_ok (mark_inode_dirty i v) = s_scratch_ok v" "s_copy_ok (mark_inode_dirty i v) = s_copy_ok v"
  by (simp_all add: mark_inode_dirty_def upd_inode_def)

text \<open>What an update leaves when the region block can be read and decoded.\<close>

definition updated :: "kenv \<Rightarrow> 'a volume_scheme \<Rightarrow> nat \<Rightarrow> nat \<Rightarrow> byte list \<Rightarrow> 'a volume_scheme \<Rightarrow> bool" where
  "updated K v phys rb pdata v' \<longleftrightarrow>
     s_blk v' = (s_blk v)(rb \<mapsto> mark_buffer_dirty ((the (s_blk v rb))\<lparr>b_data := pdata\<rparr>))
     \<and> s_ind_parity_mode v' = s_ind_parity_mode v \<and> s_ind_parity_blk v' = s_ind_parity_blk v
     \<and> s_ind_parity_len v' = s_ind_parity_len v \<and> s_data_start v' = s_data_start v
     \<and> s_scratch_ok v' = s_scratch_ok v \<and> s_copy_ok v' = s_copy_ok v
     \<and> s_verified v' = (s_verified v)(phys := True)
     \<and> (\<forall>c. s_ind_rcache v' = Some c \<longrightarrow> rc_gen c \<noteq> s_ind_parity_gen v')"

lemma ind_parity_update_updated:
  assumes ok: "rcache_ok K v" "s_scratch_ok v" and slot: "ind_parity_slot v phys = Some (rb, off, stride)"
    and rb: "s_blk v rb = Some pbh" and dec: "ind_region_decode K (b_data pbh) = (None, scratch)"
  shows "updated K v phys rb
    (ind_region_write K (b_data pbh)
      (ind_slot_scatter scratch off stride
        (ind_slot_compute K (s_ind_parity_mode v) (b_data (the (s_blk v phys))) (ind_slot_gather scratch off stride))))
    (beamfs_ind_parity_update K v phys inode)"
proof -
  obtain ret scratch' w where rd: "ind_region_read K v rb (b_data pbh) = (ret, scratch', w)" by (metis prod_cases3)
  note sp = ind_region_read_spec [OF ok(1) rb rd]
  note q = quietD [OF sp(2)]
  let ?c = "ind_slot_compute K (s_ind_parity_mode v) (b_data (the (s_blk v phys))) (ind_slot_gather scratch off stride)"
  let ?w = "w\<lparr>s_blk := (s_blk w)(rb \<mapsto> mark_buffer_dirty (pbh\<lparr>b_data := ind_region_write K (b_data pbh)
         (ind_slot_scatter scratch off stride ?c)\<rparr>)), s_verified := (s_verified w)(phys := True)\<rparr>"
  let ?u = "beamfs_ind_parity_touched ?w"
  have "ret = None" "scratch' = scratch" using sp(1) dec by auto
  then have u: "beamfs_ind_parity_update K v phys inode = (case inode of None \<Rightarrow> ?u | Some i \<Rightarrow> mark_inode_dirty i ?u)"
    using slot rb rd ok(2) q(26) sp(3) ind_parity_slotD(3) [OF slot]
    by (cases inode) (simp_all add: beamfs_ind_parity_update_def beamfs_bread_def Let_def)
  have fresh: "s_ind_rcache w = Some c \<Longrightarrow> rc_gen c \<noteq> s_ind_parity_gen w + 1" for c
    using ind_region_read_gen [OF rd] q by simp
  then have "\<forall>c. s_ind_rcache ?u = Some c \<longrightarrow> rc_gen c \<noteq> s_ind_parity_gen ?u"
    by (simp add: beamfs_ind_parity_touched_def)
  then have "updated K v phys rb (ind_region_write K (b_data pbh) (ind_slot_scatter scratch off stride ?c)) ?u"
    using q sp(3) rb by (simp add: updated_def beamfs_ind_parity_touched_def)
  then show ?thesis unfolding u by (cases inode) (simp_all add: updated_def)
qed

text \<open>The slots afterwards: that of the block describes it, every other is as it was.\<close>

lemma updated_slots:
  fixes inode :: "ino option"
  assumes K: "kernel_lib K" and ok: "rcache_ok K v" "s_scratch_ok v" "blocks_ok v"
    and old: "stored_slot K v phys \<noteq> None" and bh: "s_blk v phys = Some bh"
  defines "v' \<equiv> beamfs_ind_parity_update K v phys inode"
  shows "\<exists>slot. stored_slot K v' phys = Some slot \<and> slot_describes K (s_ind_parity_mode v) (b_data bh) slot"
    and "q \<noteq> phys \<Longrightarrow> stored_slot K v' q = stored_slot K v q"
proof -
  obtain rb off stride where slot: "ind_parity_slot v phys = Some (rb, off, stride)"
    using old by (auto simp: stored_slot_def split: option.splits)
  then obtain pbh where rb: "s_blk v rb = Some pbh" using old by (auto simp: stored_slot_def split: option.splits)
  then obtain scratch where dec: "ind_region_decode K (b_data pbh) = (None, scratch)"
    using old slot by (auto simp: stored_slot_def split: prod.splits option.splits)
  note S = ind_parity_slotD [OF slot]
  have l: "length (b_data pbh) = 4096" "length (b_data bh) = 4096" using ok(3) rb bh by (auto simp: blocks_ok_def)
  then have ls: "length scratch = 4096" using length_ind_region_decode [of "b_data pbh" K] dec by simp
  let ?g = "ind_slot_gather scratch off stride"
  let ?c = "ind_slot_compute K (s_ind_parity_mode v) (b_data bh) ?g"
  let ?s = "ind_slot_scatter scratch off stride ?c"
  have lg: "length ?g = stride" using ls S(2) by (simp add: ind_slot_gather_eq)
  then have "length ?g = (if s_ind_parity_mode v = BEAMFS_IND_PARITY_CRC then 64 else 256)"
    using S(10) by (auto simp: BEAMFS_IND_PARITY_CRC_def BEAMFS_IND_PARITY_RS_def)
  note c = ind_slot_compute_describes [OF K l(2) this]
  have lc: "length ?c = stride" using c(2) lg by simp
  note gs = gather_scatter_slot [OF ls S(2) lc]
  have lsc: "length ?s = 4096" by (rule ind_slot_scatter_spec(1) [OF ls S(2) lc])
  obtain d where d: "ind_region_decode K (ind_region_write K (b_data pbh) ?s) = (None, d)" "length d = 4096"
    "\<And>s. s < 16 \<Longrightarrow> get_bytes (s * 255) 239 d = get_bytes (s * 255) 239 ?s"
    using ind_region_write_decode(1) [OF K l(1) lsc] by blast
  have u: "updated K v phys rb (ind_region_write K (b_data pbh) ?s) v'"
    using ind_parity_update_updated [OF ok(1,2) slot rb dec] bh unfolding v'_def by simp
  then have sl: "ind_parity_slot v' x = ind_parity_slot v x" for x
    by (intro ind_parity_slot_cong) (simp_all add: updated_def)
  have blk: "s_blk v' = (s_blk v)(rb \<mapsto> mark_buffer_dirty (pbh\<lparr>b_data := ind_region_write K (b_data pbh) ?s\<rparr>))"
    using u rb by (simp add: updated_def)
  have gd: "ind_slot_gather d o' st = ind_slot_gather ?s o' st" if "o' + st \<le> 3824" for o' st
    by (rule gather_cong [OF d(2) lsc d(3) that])
  have "stored_slot K v' phys = Some ?c"
    using slot sl blk d(1) gd [OF S(2)] gs(1) by (simp add: stored_slot_def mark_buffer_dirty_def)
  then show "\<exists>slot. stored_slot K v' phys = Some slot \<and> slot_describes K (s_ind_parity_mode v) (b_data bh) slot"
    using c(1) by blast
  assume ne: "q \<noteq> phys"
  show "stored_slot K v' q = stored_slot K v q"
  proof (cases "\<exists>o' st. ind_parity_slot v q = Some (rb, o', st)")
    case True
    then obtain o' st where q: "ind_parity_slot v q = Some (rb, o', st)" by blast
    have "ind_slot_gather d o' st = ind_slot_gather scratch o' st"
      using gd [OF ind_parity_slotD(2) [OF q]] gs(2) [OF ind_parity_slotD(2) [OF q] ind_parity_slot_apart [OF slot q]] ne by simp
    then show ?thesis using q sl blk d(1) dec rb by (simp add: stored_slot_def mark_buffer_dirty_def)
  next
    case False
    then show ?thesis using sl blk by (auto simp: stored_slot_def split: option.splits)
  qed
qed

text \<open>The volume after an update, with the block read again from the medium.\<close>

lemma updated_reread:
  fixes inode :: "ino option"
  assumes K: "kernel_lib K" and ok: "rcache_ok K v" "s_scratch_ok v" "blocks_ok v"
    and old: "stored_slot K v phys \<noteq> None" and bh: "s_blk v phys = Some bh"
    and sl: "ind_parity_slot v phys = Some (rb, off, stride)" "rb \<noteq> phys"
    and u: "u = beamfs_ind_parity_update K v phys inode"
    and w: "w = u\<lparr>s_blk := (s_blk u)(phys \<mapsto> bh'), s_verified := f\<rparr>"
  shows "\<exists>slot. stored_slot K w phys = Some slot \<and> slot_describes K (s_ind_parity_mode v) (b_data bh) slot"
    "rcache_ok K w" "s_scratch_ok w" "s_copy_ok w = s_copy_ok v" "s_ind_parity_mode w = s_ind_parity_mode v"
    "s_blk w phys = Some bh'"
proof -
  obtain pbh scratch where *: "s_blk v rb = Some pbh" "ind_region_decode K (b_data pbh) = (None, scratch)"
    using old sl by (auto simp: stored_slot_def split: option.splits prod.splits)
  note up = ind_parity_update_updated [OF ok(1,2) sl(1) *, where inode = inode, folded u]
  obtain slot where slot: "stored_slot K u phys = Some slot" "slot_describes K (s_ind_parity_mode v) (b_data bh) slot"
    using updated_slots(1) [OF K ok old bh, where inode = inode, folded u] by blast
  have "ind_parity_slot w phys = Some (rb, off, stride)" "ind_parity_slot u phys = Some (rb, off, stride)"
    using up ind_parity_slot_cong [of w v phys] ind_parity_slot_cong [of u v phys] sl(1) w by (simp_all add: updated_def)
  then have "stored_slot K w phys = Some slot" using slot(1) sl(2) w by (simp add: stored_slot_def)
  then show "\<exists>slot. stored_slot K w phys = Some slot \<and> slot_describes K (s_ind_parity_mode v) (b_data bh) slot"
    using slot(2) by blast
  show "rcache_ok K w" "s_scratch_ok w" "s_copy_ok w = s_copy_ok v" "s_ind_parity_mode w = s_ind_parity_mode v"
    "s_blk w phys = Some bh'"
    using up w ok(2) by (auto simp: updated_def rcache_ok_def)
qed

lemma verify_slot:
  fixes v :: "'a volume_scheme"
  assumes ok: "rcache_ok K v" "s_scratch_ok v" "s_copy_ok v" "\<not> s_verified v phys"
    and slot: "stored_slot K v phys = Some slot" and bh: "s_blk v phys = Some bh"
  obtains "\<forall>k \<in> set slot. k = 0" "fst (beamfs_ind_parity_verify K v phys) = None"
      "s_blk (snd (beamfs_ind_parity_verify K v phys)) = s_blk v"
  | w :: "'a volume_scheme" where "\<not> (\<forall>k \<in> set slot. k = 0)" "s_ind_parity_mode v = BEAMFS_IND_PARITY_CRC" "s_blk w = s_blk v"
      "fst (beamfs_ind_parity_verify K v phys) = snd (fold (ind_verify_crc_step K phys (b_data bh) slot) [0..<16] (w, None))"
      "s_blk (snd (beamfs_ind_parity_verify K v phys)) = s_blk (fst (fold (ind_verify_crc_step K phys (b_data bh) slot) [0..<16] (w, None)))"
  | w :: "'a volume_scheme" where "\<not> (\<forall>k \<in> set slot. k = 0)" "s_ind_parity_mode v \<noteq> BEAMFS_IND_PARITY_CRC" "s_blk w = s_blk v"
      "fst (beamfs_ind_parity_verify K v phys) = snd (snd (fold (ind_verify_rs_step K phys) [0..<16] (b_data bh @ slot, w, None)))"
      "s_blk (snd (beamfs_ind_parity_verify K v phys)) = s_blk (fst (snd (fold (ind_verify_rs_step K phys) [0..<16] (b_data bh @ slot, w, None))))"
proof -
  obtain rb off stride where sl: "ind_parity_slot v phys = Some (rb, off, stride)"
    using slot by (auto simp: stored_slot_def split: option.splits)
  then obtain pbh where rb: "s_blk v rb = Some pbh" using slot by (auto simp: stored_slot_def split: option.splits)
  then obtain scratch where dec: "ind_region_decode K (b_data pbh) = (None, scratch)" and g: "ind_slot_gather scratch off stride = slot"
    using slot sl by (auto simp: stored_slot_def split: prod.splits option.splits)
  obtain ret scratch' w where rd: "ind_region_read K v rb (b_data pbh) = (ret, scratch', w)" by (metis prod_cases3)
  note sp = ind_region_read_spec [OF ok(1) rb rd]
  note q = quietD [OF sp(2)]
  have "ret = None" "scratch' = scratch" using sp(1) dec by auto
  note e = this rd sl rb ok g bh sp(3) ind_parity_slotD(3) [OF sl] q(26,34)
  consider (zero) "\<forall>k \<in> set slot. k = 0"
    | (crc) "\<not> (\<forall>k \<in> set slot. k = 0)" "s_ind_parity_mode v = BEAMFS_IND_PARITY_CRC"
    | (rs) "\<not> (\<forall>k \<in> set slot. k = 0)" "s_ind_parity_mode v \<noteq> BEAMFS_IND_PARITY_CRC" by blast
  then show thesis
  proof cases
    case zero
    then show ?thesis using e by (intro that(1)) (simp_all add: beamfs_ind_parity_verify_def beamfs_bread_def)
  next
    case crc
    show ?thesis by (rule that(2) [of w]) (use crc e in \<open>auto simp: beamfs_ind_parity_verify_def beamfs_bread_def case_prod_unfold Let_def\<close>)
  next
    case rs
    show ?thesis by (rule that(3) [of w]) (use rs e in \<open>auto simp: beamfs_ind_parity_verify_def beamfs_bread_def case_prod_unfold Let_def\<close>)
  qed
qed

text \<open>A block against a slot that describes what it held: within the radius of the code in parity mode,
  with its first 3824 bytes unchanged in checksum mode, it passes.\<close>

definition ind_damage_ok :: "u32 \<Rightarrow> byte list \<Rightarrow> byte list \<Rightarrow> bool" where
  "ind_damage_ok mode block b \<longleftrightarrow>
     (\<forall>i < 16. card (errors (get_bytes (i * 239) 239 b) (get_bytes (i * 239) 239 block)) \<le>
        (if mode = BEAMFS_IND_PARITY_CRC then 0 else 8))"

lemma errors_append: "length a = length b \<Longrightarrow> errors (a @ c) (b @ c) = errors a b"
  by (auto simp: errors_def nth_append)

lemma errors_card_0: "length a = length b \<Longrightarrow> card (errors a b) = 0 \<longleftrightarrow> a = b"
  by (auto simp: errors_def intro: nth_equalityI)

lemma verify_accepts:
  assumes K: "kernel_lib K" and ok: "rcache_ok K v" "s_scratch_ok v" "s_copy_ok v" "\<not> s_verified v phys"
    and slot: "stored_slot K v phys = Some slot" and bh: "s_blk v phys = Some bh"
    and des: "slot_describes K (s_ind_parity_mode v) block slot"
    and len: "length block = 4096" "length (b_data bh) = 4096"
    and dam: "ind_damage_ok (s_ind_parity_mode v) block (b_data bh)"
  shows "fst (beamfs_ind_parity_verify K v phys) = None \<and> s_blk (snd (beamfs_ind_parity_verify K v phys)) = s_blk v"
proof (cases rule: verify_slot [OF ok slot bh])
  case (2 w)
  have "get_bytes (i * 239) 239 (b_data bh) = get_bytes (i * 239) 239 block" if "i < 16" for i
  proof -
    have "i * 239 + 239 \<le> 4096" using that by linarith
    then show ?thesis using dam 2(2) that len errors_card_0 by (simp add: ind_damage_ok_def)
  qed
  then show ?thesis using verify_crc_fold [of w K phys "b_data bh" slot "[0..<16]" None] 2 des
    by (auto simp: slot_describes_def ind_slot_crc_def)
next
  case (3 w)
  have code: "rs_library.region_code (k_rs K) (block @ slot) 0 239 4096 16 239 16" and ls: "length slot = 256"
    using des 3(2) by (simp_all add: slot_describes_def)
  have "card (region_errs (b_data bh @ slot) (block @ slot) 0 239 4096 16 239 s) \<le> 8" if "s < 16" for s
  proof -
    have "s * 239 + 239 \<le> 4096" using that by linarith
    moreover have "get_bytes (4096 + s * 16) 16 (b_data bh @ slot) = get_bytes (4096 + s * 16) 16 (block @ slot)"
      using len get_append_right [of block "s * 16"] get_append_right [of "b_data bh" "s * 16"] by simp
    ultimately show ?thesis using dam 3(2) that len
      by (simp add: region_errs_def get_append_left errors_append ind_damage_ok_def)
  qed
  then show ?thesis
    using verify_rs_fold [OF K _ _ code, of "b_data bh @ slot" 16 phys w] len ls 3 by auto
qed simp

lemma crc_subblock_detects:
  assumes K: "kernel_lib K" and len: "length block = 4096" and x: "length x \<le> 4" "put_bytes k x block \<noteq> block"
    and k: "i < 16" "i * 239 \<le> k" "k + length x \<le> i * 239 + 239"
  shows "ind_slot_crc K (put_bytes k x block) i \<noteq> ind_slot_crc K block i"
proof -
  have le: "i * 239 + 239 \<le> 4096" using k(1) by linarith
  have crc: "ind_slot_crc K b i = crc32 (get_bytes (i * 239) 239 b)" for b
    using kernel_lib.k_crc32_bitwise [OF K]
    by (simp add: ind_slot_crc_def crc32_def crc32_internal_steps crc32_step_def [abs_def])
  have g: "get_bytes (i * 239) 239 (put_bytes k x block) = put_bytes (k - i * 239) x (get_bytes (i * 239) 239 block)"
    using get_put_inside [of "i * 239" k x 239 block] k le len by simp
  have "put_bytes (k - i * 239) x (get_bytes (i * 239) 239 block) \<noteq> get_bytes (i * 239) 239 block"
    using x k le len by (simp add: put_eq_iff get_get_bytes)
  moreover have "k - i * 239 + length x \<le> length (get_bytes (i * 239) 239 block)" using k le len by simp
  ultimately show ?thesis using crc32_put [OF _ x(1), of "k - i * 239" "get_bytes (i * 239) 239 block" "[]" "[]"] g crc
    by simp
qed

subsection \<open>Properties\<close>

text \<open>C34: Updating the parity of an indirect block touches one slot. When the region block that holds
  the slot can be read and decoded, \<^const>\<open>beamfs_ind_parity_update\<close> leaves, in that slot, a description
  of the block as it stands in memory, leaves the slot of every other block as it was, whether in the
  same region block or in another, leaves the cached decode one that no later read can mistake for
  current, and writes no block but the region block.\<close>
theorem ind_parity_update_slots:
  assumes "kernel_lib K" "rcache_ok K v" "s_scratch_ok v" "blocks_ok v"
    and "stored_slot K v phys \<noteq> None" "s_blk v phys = Some bh"
    and v': "v' = beamfs_ind_parity_update K v phys inode"
  shows "(\<exists>slot. stored_slot K v' phys = Some slot \<and> slot_describes K (s_ind_parity_mode v) (b_data bh) slot)
    \<and> (\<forall>q. q \<noteq> phys \<longrightarrow> stored_slot K v' q = stored_slot K v q)
    \<and> rcache_ok K v' \<and> (\<exists>rb off stride. ind_parity_slot v phys = Some (rb, off, stride) \<and> (\<forall>b. b \<noteq> rb \<longrightarrow> s_blk v' b = s_blk v b))"
proof -
  note us = updated_slots [OF assms(1-6), where inode = inode, folded v']
  obtain rb off stride pbh scratch where *: "ind_parity_slot v phys = Some (rb, off, stride)" "s_blk v rb = Some pbh"
    "ind_region_decode K (b_data pbh) = (None, scratch)"
    using assms(5) by (auto simp: stored_slot_def split: option.splits prod.splits)
  have "rcache_ok K v' \<and> (\<forall>b. b \<noteq> rb \<longrightarrow> s_blk v' b = s_blk v b)"
    using ind_parity_update_updated [OF assms(2,3) *, where inode = inode, folded v'] by (auto simp: updated_def rcache_ok_def)
  then show ?thesis using us * by blast
qed

text \<open>C20: The check accepts what the update described. After an update, if the block is read again
  from the medium with at most eight bytes wrong in each of its sixteen 239-byte pieces (in checksum mode:
  none wrong), and any damage to the 272 bytes past them, \<^const>\<open>beamfs_ind_parity_verify_medium\<close> returns
  0 and leaves every buffer, the checked one included, as it was read.\<close>
theorem ind_parity_roundtrip:
  assumes "kernel_lib K" "rcache_ok K v" "s_scratch_ok v" "s_copy_ok v" "blocks_ok v"
    and "stored_slot K v phys \<noteq> None" "s_blk v phys = Some bh" "length (b_data bh') = 4096"
    and "ind_parity_slot v phys = Some (rb, off, stride)" "rb \<noteq> phys"
    and "ind_damage_ok (s_ind_parity_mode v) (b_data bh) (b_data bh')"
    and u: "u = beamfs_ind_parity_update K v phys inode" and w: "w = u\<lparr>s_blk := (s_blk u)(phys \<mapsto> bh')\<rparr>"
  shows "fst (beamfs_ind_parity_verify_medium K w phys) = None
    \<and> s_blk (snd (beamfs_ind_parity_verify_medium K w phys)) = s_blk w"
proof -
  let ?w = "w\<lparr>s_verified := (s_verified w)(phys := False)\<rparr>"
  have w': "?w = u\<lparr>s_blk := (s_blk u)(phys \<mapsto> bh'), s_verified := (s_verified w)(phys := False)\<rparr>" by (simp add: w)
  note r = updated_reread [OF assms(1,2,3,5,6,7,9,10) u w']
  obtain slot where slot: "stored_slot K ?w phys = Some slot" "slot_describes K (s_ind_parity_mode v) (b_data bh) slot"
    using r(1) by blast
  have "length (b_data bh) = 4096" using assms(5,7) by (simp add: blocks_ok_def)
  then show ?thesis
    using verify_accepts [of K ?w phys slot bh' "b_data bh"] assms(1,4,8,11) slot r(2-6)
    by (simp add: beamfs_ind_parity_verify_medium_def)
qed

text \<open>Damage to a protected pointer is reported. In checksum mode, when a slot describes a block
  and is not the empty slot, a change of up to four consecutive bytes inside one 239-byte piece of the
  block makes \<^const>\<open>beamfs_ind_parity_verify_medium\<close> return EUCLEAN, and no buffer is written.\<close>
theorem ind_parity_crc_detects:
  assumes "kernel_lib K" "rcache_ok K v" "s_scratch_ok v" "s_copy_ok v" "s_ind_parity_mode v = BEAMFS_IND_PARITY_CRC"
    and "stored_slot K v phys = Some slot" "slot_describes K BEAMFS_IND_PARITY_CRC block slot" "\<exists>k \<in> set slot. k \<noteq> 0"
    and "length block = 4096" "length x \<le> 4" "put_bytes k x block \<noteq> block"
    and "i < 16" "i * 239 \<le> k" "k + length x \<le> i * 239 + 239"
    and "s_blk v phys = Some bh" "b_data bh = put_bytes k x block"
  shows "fst (beamfs_ind_parity_verify_medium K v phys) = Some EUCLEAN
    \<and> s_blk (snd (beamfs_ind_parity_verify_medium K v phys)) = s_blk v"
proof -
  let ?v = "v\<lparr>s_verified := (s_verified v)(phys := False)\<rparr>"
  have sl: "stored_slot K ?v phys = Some slot"
    using assms(6) ind_parity_slot_cong [of ?v v phys] by (auto simp: stored_slot_def split: option.splits)
  have ok: "rcache_ok K ?v" "s_scratch_ok ?v" "s_copy_ok ?v" "\<not> s_verified ?v phys" "s_blk ?v phys = Some bh"
    using assms(2-4,15) by (simp_all add: rcache_ok_def)
  have bad: "get_le32 (4 * i) slot \<noteq> ind_slot_crc K (b_data bh) i"
    using crc_subblock_detects [OF assms(1,9,10,11,12,13,14)] assms(7,12,16) by (simp add: slot_describes_def)
  show ?thesis
  proof (cases rule: verify_slot [OF ok(1-4) sl ok(5)])
    case (2 w)
    then show ?thesis using verify_crc_fold [of w K phys "b_data bh" slot "[0..<16]" None] bad assms(12)
      by (auto simp: beamfs_ind_parity_verify_medium_def)
  qed (use assms(5,8) in auto)
qed

text \<open>C35: The cached decode does not know its volume. Its key is the block number and the generation,
  which every mount starts at zero; when one volume's read of a region block has filled the CPU's entry
  and a second volume with the same generation reads the block of the same number,
  \<^const>\<open>ind_region_read\<close> hands the second volume the first volume's payload, whatever its own block holds.\<close>
theorem ind_region_cache_crosses_volumes:
  assumes "ind_region_read K v blk b = (ret, scratch, v')" "s_rcache_ok v" "s_ind_parity_gen u = s_ind_parity_gen v"
    and hit: "s_ind_rcache v = None"
  shows "ind_region_read K (u\<lparr>s_ind_rcache := s_ind_rcache v'\<rparr>) blk b'
    = (ret, scratch, u\<lparr>s_ind_rcache := s_ind_rcache v'\<rparr>)"
proof -
  obtain d rc res poss where dec: "beamfs_rs_decode_region (k_rs K) b 0 255 239 255 239 16 True 8 = (d, rc, res, poss)"
    by (cases "beamfs_rs_decode_region (k_rs K) b 0 255 239 255 239 16 True 8")
  define f where "f = fold (ind_region_log_step K blk res poss) [0..<16] (v, None)"
  have "s_rcache_ok (fst f)"
    using quietD(35) [OF conjunct1 [OF region_log_fold [of v K blk res poss "[0..<16]" None]]] assms(2) by (simp add: f_def)
  then have "s_ind_rcache v' = Some \<lparr>rc_blocknr = blk, rc_gen = s_ind_parity_gen v, rc_ret = ret, rc_data = scratch\<rparr>"
    using assms(1) hit dec by (auto simp: ind_region_read_def f_def Let_def case_prod_unfold split: option.splits)
  then show ?thesis using assms(3) by (simp add: ind_region_read_def)
qed

subsection \<open>Witnesses\<close>

text \<open>A volume whose parity region is block 4, in either mode; block 10 is an indirect block whose first
  four bytes are set, so that the checksum of its first piece is not zero.\<close>

definition wit_ind_bh :: buffer_head where
  "wit_ind_bh = zero_bh\<lparr>b_data := replicate 4 0xFF @ replicate 4092 0\<rparr>"

definition wit_region_bh :: buffer_head where
  "wit_region_bh = zero_bh\<lparr>b_data := ind_region_write port_kenv (replicate 4096 0) (replicate 4096 0)\<rparr>"

definition wit_ind :: "u32 \<Rightarrow> volume" where
  "wit_ind mode = wit_vol\<lparr>s_blk := (s_blk wit_vol)(4 \<mapsto> wit_region_bh, 10 \<mapsto> wit_ind_bh),
     s_ind_parity_blk := 4, s_ind_parity_len := 1, s_ind_parity_mode := mode\<rparr>"

lemma wit_ind_slot: "ind_parity_slot (wit_ind BEAMFS_IND_PARITY_CRC) 10 = Some (4, 0, 64)"
  "ind_parity_slot (wit_ind BEAMFS_IND_PARITY_RS) 10 = Some (4, 0, 256)"
  by (simp_all add: ind_parity_slot_def ind_parity_stride_def ind_parity_slots_def wit_ind_def
      BEAMFS_IND_PARITY_CRC_def BEAMFS_IND_PARITY_RS_def)

lemma wit_ind_rcache: "rcache_ok K (wit_ind mode)"
  by (simp add: rcache_ok_def wit_ind_def wit_vol_def sb_alloc.defs volume.defs)

lemma wit_ind_simps [simp]: "s_scratch_ok (wit_ind mode)" "s_copy_ok (wit_ind mode)" "s_rcache_ok (wit_ind mode)"
  "s_ind_parity_mode (wit_ind mode) = mode" "s_blk (wit_ind mode) 10 = Some wit_ind_bh"
  "s_ind_rcache (wit_ind mode) = None" "s_blk (wit_ind mode) 4 = Some wit_region_bh"
  by (simp_all add: wit_ind_def wit_vol_def sb_alloc.defs volume.defs)

lemma wit_ind_blocks: "blocks_ok (wit_ind mode)"
  using ind_region_write_decode(2) [OF kport.kernel_lib_axioms, of "replicate 4096 0" "replicate 4096 0"]
  by (auto simp: blocks_ok_def wit_ind_def wit_region_bh_def wit_ind_bh_def split: if_splits)

lemma wit_ind_stored:
  "ind_parity_slot (wit_ind mode) 10 = Some (4, 0, st) \<Longrightarrow> stored_slot port_kenv (wit_ind mode) 10 \<noteq> None"
  using ind_region_write_decode(1) [OF kport.kernel_lib_axioms, of "replicate 4096 0" "replicate 4096 0"]
  by (auto simp: stored_slot_def wit_region_bh_def)

lemmas wit_ind_facts = kport.kernel_lib_axioms wit_ind_rcache wit_ind_blocks wit_ind_stored [OF wit_ind_slot(1)]
  wit_ind_stored [OF wit_ind_slot(2)] wit_ind_slot

theorem ind_parity_update_slots_witness:
  "\<exists>slot. stored_slot port_kenv (beamfs_ind_parity_update port_kenv (wit_ind BEAMFS_IND_PARITY_RS) 10 None) 10 = Some slot
     \<and> slot_describes port_kenv BEAMFS_IND_PARITY_RS (b_data wit_ind_bh) slot"
  using ind_parity_update_slots [of port_kenv "wit_ind BEAMFS_IND_PARITY_RS" 10 wit_ind_bh _ None, OF _ _ _ _ _ _ refl]
    wit_ind_facts by auto

text \<open>The block of the witness read back with four bytes of its first piece and one past the last wrong.\<close>

definition wit_ind_bh' :: buffer_head where
  "wit_ind_bh' = zero_bh\<lparr>b_data := replicate 4095 0 @ [1]\<rparr>"

lemma wit_ind_damage: "ind_damage_ok BEAMFS_IND_PARITY_RS (b_data wit_ind_bh) (b_data wit_ind_bh')"
proof -
  have e: "errors (get_bytes (i * 239) 239 (b_data wit_ind_bh')) (get_bytes (i * 239) 239 (b_data wit_ind_bh)) \<subseteq> {..<4}"
    if "i < 16" for i
  proof -
    have "i * 239 + 239 \<le> 3824" using that by linarith
    then show ?thesis
      by (auto simp: errors_def nth_get_bytes wit_ind_bh_def wit_ind_bh'_def nth_append split: if_splits)
  qed
  have "card (errors (get_bytes (i * 239) 239 (b_data wit_ind_bh')) (get_bytes (i * 239) 239 (b_data wit_ind_bh))) \<le> 8"
    if "i < 16" for i
    using card_mono [OF _ e [OF that]] by simp
  then show ?thesis by (simp add: ind_damage_ok_def BEAMFS_IND_PARITY_RS_def BEAMFS_IND_PARITY_CRC_def)
qed

theorem ind_parity_roundtrip_witness:
  "fst (beamfs_ind_parity_verify_medium port_kenv
     ((beamfs_ind_parity_update port_kenv (wit_ind BEAMFS_IND_PARITY_RS) 10 None)
        \<lparr>s_blk := (s_blk (beamfs_ind_parity_update port_kenv (wit_ind BEAMFS_IND_PARITY_RS) 10 None))(10 \<mapsto> wit_ind_bh')\<rparr>) 10)
   = None"
  using ind_parity_roundtrip [of port_kenv "wit_ind BEAMFS_IND_PARITY_RS" 10 wit_ind_bh wit_ind_bh' 4 0 256 _ None, OF _ _ _ _ _ _ _ _ _ _ _ refl refl]
    wit_ind_facts wit_ind_damage by (simp add: wit_ind_bh'_def)

text \<open>The same volume in checksum mode after an update, its block read back with its first byte changed.\<close>

definition wit_ind_crc :: volume where
  "wit_ind_crc = (let u = beamfs_ind_parity_update port_kenv (wit_ind BEAMFS_IND_PARITY_CRC) 10 None
     in u\<lparr>s_blk := (s_blk u)(10 \<mapsto> wit_ind_bh\<lparr>b_data := put_bytes 0 [7] (b_data wit_ind_bh)\<rparr>), s_verified := \<lambda>_. False\<rparr>)"

lemma wit_crc_nonzero: "ind_slot_crc port_kenv (b_data wit_ind_bh) 0 = 0xFFFFFFFF"
proof -
  have "get_bytes 0 239 (b_data wit_ind_bh) = replicate 4 0xFF @ replicate 235 0"
    by (simp add: wit_ind_bh_def get_bytes_def)
  moreover have "foldl crc32_step 0xFFFFFFFF (replicate 4 0xFF) = 0" by code_simp
  ultimately show ?thesis
    by (simp add: ind_slot_crc_def port_kenv_def crc32_internal_steps crc32_fold_zeros)
qed

theorem ind_parity_crc_detects_witness:
  "fst (beamfs_ind_parity_verify_medium port_kenv wit_ind_crc 10) = Some EUCLEAN"
proof -
  note r = updated_reread [OF kport.kernel_lib_axioms wit_ind_rcache _ wit_ind_blocks wit_ind_stored [OF wit_ind_slot(1)] _
      wit_ind_slot(1) _ refl wit_ind_crc_def [unfolded Let_def], of wit_ind_bh]
  obtain slot where slot: "stored_slot port_kenv wit_ind_crc 10 = Some slot"
    "slot_describes port_kenv BEAMFS_IND_PARITY_CRC (b_data wit_ind_bh) slot"
    using r(1) by auto
  have "get_le32 (4 * 0) slot = ind_slot_crc port_kenv (b_data wit_ind_bh) 0" "length slot = 64"
    using slot(2) unfolding slot_describes_def by (simp_all only: if_True zero_less_numeral)
  then have "get_le32 0 slot = 0xFFFFFFFF" "length slot = 64" using wit_crc_nonzero by simp_all
  moreover have "get_le32 0 (replicate 64 0) = 0"
    by (simp add: get_le32_def get_bytes_def le_to_cpu_def eval_nat_numeral)
  ultimately have "slot \<noteq> replicate 64 0" by auto
  then have "\<exists>k \<in> set slot. k \<noteq> 0" using \<open>length slot = 64\<close> by (metis replicate_eqI)
  moreover have "put_bytes 0 [7] (b_data wit_ind_bh) \<noteq> b_data wit_ind_bh"
  proof
    assume "put_bytes 0 [7] (b_data wit_ind_bh) = b_data wit_ind_bh"
    then have "hd (put_bytes 0 [7] (b_data wit_ind_bh)) = hd (b_data wit_ind_bh)" by simp
    then show False by (simp add: wit_ind_bh_def put_bytes_def)
  qed
  ultimately show ?thesis
    using ind_parity_crc_detects [of port_kenv wit_ind_crc 10 slot "b_data wit_ind_bh" "[7]" 0 0, OF _ _ _ _ _ slot]
      r kport.kernel_lib_axioms by (simp add: wit_ind_bh_def)
qed

theorem ind_region_cache_crosses_volumes_witness:
  "\<exists>ret scratch v'. ind_region_read port_kenv (wit_ind BEAMFS_IND_PARITY_RS) 4 (b_data wit_region_bh) = (ret, scratch, v')
     \<and> ind_region_read port_kenv ((wit_ind BEAMFS_IND_PARITY_RS)\<lparr>s_ind_rcache := s_ind_rcache v'\<rparr>) 4 (replicate 4096 1)
       = (ret, scratch, (wit_ind BEAMFS_IND_PARITY_RS)\<lparr>s_ind_rcache := s_ind_rcache v'\<rparr>)"
proof -
  obtain ret scratch v' where r: "ind_region_read port_kenv (wit_ind BEAMFS_IND_PARITY_RS) 4 (b_data wit_region_bh) = (ret, scratch, v')"
    by (metis prod_cases3)
  show ?thesis using r ind_region_cache_crosses_volumes [OF r, where u = "wit_ind BEAMFS_IND_PARITY_RS"] by simp
qed

end
