(* ===== verification/Inode.thy ===== *)
theory Inode
  imports IndParity "HOL-Library.Signed_Division"
begin

section \<open>Inodes on the medium and in memory\<close>

text \<open>
  \<^verbatim>\<open>inode.c\<close> and the inode writer of \<^verbatim>\<open>namei.c\<close>. An inode is 256 bytes of a table block: a head, a
  checksum, the block pointers, and a parity set over the 172 bytes before it. \<open>beamfs_iget\<close> reads one
  into the cache, \<open>beamfs_write_inode_raw_flags\<close> writes one back.

  What is proved: reading back a written inode gives it, after damage to up to eight bytes of its
  codeword too, if the checksum sees the damage; the corrected image is what the medium gets; damage
  that clears the mode is reported as a stale handle and never corrected. User and group numbers are those
  of the initial user namespace, where \<^verbatim>\<open>make_kuid\<close> and \<^verbatim>\<open>make_kgid\<close> keep them.
\<close>

subsection \<open>The on-disk inode\<close>

abbreviation "BEAMFS_INODE_SIZE \<equiv> 256 :: nat"
abbreviation "BEAMFS_INODE_RS_DATA \<equiv> 172 :: nat"
abbreviation "BEAMFS_DIRECT_BLOCKS \<equiv> 12 :: nat"
abbreviation "BEAMFS_RESERVED_INO_ROOT \<equiv> 1 :: nat"
definition BEAMFS_DATA_PROTECTION_UNIVERSAL_INLINE :: u32 where "BEAMFS_DATA_PROTECTION_UNIVERSAL_INLINE = 2"
definition BEAMFS_DATA_PROTECTION_INODE_UNIVERSAL :: u32 where "BEAMFS_DATA_PROTECTION_INODE_UNIVERSAL = 5"
definition BEAMFS_FEATURE_INCOMPAT_PER_INODE_RS :: u64 where "BEAMFS_FEATURE_INCOMPAT_PER_INODE_RS = 0x100"
abbreviation "NSEC_PER_SEC \<equiv> 1000000000 :: int"

definition S_ISDIR :: "u16 \<Rightarrow> bool" where "S_ISDIR m \<longleftrightarrow> m AND 0xF000 = 0x4000"
definition S_ISREG :: "u16 \<Rightarrow> bool" where "S_ISREG m \<longleftrightarrow> m AND 0xF000 = 0x8000"
definition S_ISLNK :: "u16 \<Rightarrow> bool" where "S_ISLNK m \<longleftrightarrow> m AND 0xF000 = 0xA000"

text \<open>\<^verbatim>\<open>div_s64_rem\<close> truncates towards zero.\<close>

definition beamfs_split_ns :: "int \<Rightarrow> int \<times> int" where
  "beamfs_split_ns ns =
     (let sec = ns sdiv NSEC_PER_SEC; rem = ns smod NSEC_PER_SEC
      in if rem < 0 then (sec - 1, rem + NSEC_PER_SEC) else (sec, rem))"

definition beamfs_join_ns :: "int \<times> int \<Rightarrow> u64" where
  "beamfs_join_ns t = word_of_int (fst t * NSEC_PER_SEC + snd t)"

definition beamfs_inode_crc :: "kenv \<Rightarrow> byte list \<Rightarrow> u32" where
  "beamfs_inode_crc K raw =
     beamfs_crc32 (k_crc32_le K)
       (get_bytes 0 BEAMFS_INODE_CRC_HEAD_LEN raw @ get_bytes BEAMFS_INODE_CRC_TAIL_OFF BEAMFS_INODE_CRC_TAIL_LEN raw)"

text \<open>The table block of an inode and the place of the inode in it.\<close>

definition inode_block :: "'a volume_scheme \<Rightarrow> ino \<Rightarrow> nat" where
  "inode_block v ino = unat (sb_inode_table_blk (s_beamfs_sb v) + word_of_nat ((ino - 1) div 16))"

definition inode_off :: "ino \<Rightarrow> nat" where
  "inode_off ino = (ino - 1) mod 16 * BEAMFS_INODE_SIZE"

subsection \<open>Reading\<close>

text \<open>The fields of an inode in memory from its image. The operations follow the file type and the scheme;
  an inode of the reserved range other than the root is immutable.\<close>

definition inode_set_ops :: "u32 \<Rightarrow> u16 \<Rightarrow> inode_ops" where
  "inode_set_ops scheme mode =
     (if S_ISDIR mode then Dir_ops
      else if S_ISREG mode
      then if scheme = BEAMFS_DATA_PROTECTION_UNIVERSAL_INLINE then Inline_ops else Legacy_ops
      else if S_ISLNK mode then Symlink_ops
      else Special_ops)"

definition inode_populate :: "u32 \<Rightarrow> ino \<Rightarrow> byte list \<Rightarrow> vinode" where
  "inode_populate scheme ino raw =
     \<lparr>i_mode = get_le16 0 raw, i_uid = get_le32 4 raw, i_gid = get_le32 8 raw,
      i_nlink = ucast (get_le16 2 raw), i_size = get_le64 12 raw,
      i_atime = beamfs_split_ns (sint (get_le64 20 raw)), i_mtime = beamfs_split_ns (sint (get_le64 28 raw)),
      i_ctime = beamfs_split_ns (sint (get_le64 36 raw)), i_flags = get_le32 44 raw,
      i_immutable = (beamfs_ino_is_reserved ino \<and> ino \<noteq> BEAMFS_RESERVED_INO_ROOT),
      i_direct = map (\<lambda>i. get_le64 (52 + 8 * i) raw) [0..<BEAMFS_DIRECT_BLOCKS],
      i_indirect = get_le64 148 raw, i_dindirect = get_le64 156 raw, i_tindirect = get_le64 164 raw,
      i_ops = inode_set_ops scheme (get_le16 0 raw), i_dirty = False\<rparr>"

text \<open>The two-stage check of an image: the corrected image and the number of symbols, when the first
  checksum failed.\<close>

definition inode_recover ::
    "kenv \<Rightarrow> 'a volume_scheme \<Rightarrow> byte list \<Rightarrow> errno + (byte list \<times> (nat \<times> byte list) option)" where
  "inode_recover K v raw =
     (if get_le16 0 raw = 0 then Inl ESTALE
      else if beamfs_inode_crc K raw = get_le32 48 raw then Inr (raw, None)
      else if sb_data_protection_scheme (s_beamfs_sb v) \<noteq> BEAMFS_DATA_PROTECTION_INODE_UNIVERSAL
              \<and> s_feat_incompat v AND BEAMFS_FEATURE_INCOMPAT_PER_INODE_RS = 0
      then Inl EIO
      else if \<not> s_copy_ok v then Inl ENOMEM
      else
        let (nerr, data, positions) =
              beamfs_rs_decode (k_rs K) (get_bytes 0 BEAMFS_INODE_RS_DATA raw)
                (get_bytes BEAMFS_INODE_RS_DATA BEAMFS_RS_PARITY raw) (Some (BEAMFS_RS_PARITY div 2));
            fixed = put_bytes 0 data raw
        in if nerr < 0 then Inl EIO
           else if beamfs_inode_crc K fixed \<noteq> get_le32 48 fixed then Inl EIO
           else Inr (fixed, Some (nat nerr, positions)))"

definition beamfs_iget :: "kenv \<Rightarrow> 'a volume_scheme \<Rightarrow> ino \<Rightarrow> (errno + ino) \<times> 'a volume_scheme" where
  "beamfs_iget K v ino =
     (if ino < BEAMFS_RESERVED_INO_ROOT \<or> ino > unat (sb_inode_count (s_beamfs_sb v)) then (Inl EUCLEAN, v)
      else if \<not> s_icached v ino \<and> \<not> s_inode_ok v then (Inl ENOMEM, v)
      else if s_icached v ino then (Inr ino, v)
      else
        let block = inode_block v ino;
            (bh, v) = beamfs_bread v block
        in case bh of
             None \<Rightarrow> (Inl EIO, v)
           | Some bh \<Rightarrow>
               (case inode_recover K v (get_bytes (inode_off ino) BEAMFS_INODE_SIZE (b_data bh)) of
                  Inl e \<Rightarrow> (Inl e, v)
                | Inr (raw, corrected) \<Rightarrow>
                    let v = (case corrected of
                               None \<Rightarrow> v
                             | Some (nerr, positions) \<Rightarrow>
                                 let np = (if nerr > BEAMFS_RS_PARITY div 2 then BEAMFS_RS_PARITY div 2 else nerr);
                                     v = v\<lparr>s_blk := (s_blk v)(block \<mapsto>
                                             mark_buffer_dirty (bh\<lparr>b_data := put_bytes (inode_off ino) raw (b_data bh)\<rparr>))\<rparr>
                                 in if nerr > 0
                                    then beamfs_log_rs_event_flagged K (k_ktime_ns (s_clk v)) v (word_of_nat block)
                                           (Some positions) np BEAMFS_INODE_RS_DATA BEAMFS_RS_EVENT_FLAG_INODE
                                    else v)
                    in (Inr ino, v\<lparr>s_inode := (s_inode v)(ino := inode_populate (s_scheme v) ino raw),
                                   s_icached := (s_icached v)(ino := True)\<rparr>)))"

subsection \<open>Writing\<close>

text \<open>The image of an inode over the bytes that were there.\<close>

definition inode_put_fields :: "vinode \<Rightarrow> byte list \<Rightarrow> byte list" where
  "inode_put_fields i raw =
     (let raw = put_le16 0 (i_mode i) raw;
          raw = put_le32 4 (i_uid i) raw;
          raw = put_le32 8 (i_gid i) raw;
          raw = put_le16 2 (ucast (i_nlink i)) raw;
          raw = put_le64 12 (i_size i) raw;
          raw = put_le64 20 (beamfs_join_ns (i_atime i)) raw;
          raw = put_le64 28 (beamfs_join_ns (i_mtime i)) raw;
          raw = put_le64 36 (beamfs_join_ns (i_ctime i)) raw;
          raw = put_le32 44 (i_flags i) raw;
          raw = put_bytes 52 (concat (map (cpu_to_le 8) (i_direct i))) raw;
          raw = put_le64 148 (i_indirect i) raw;
          raw = put_le64 156 (i_dindirect i) raw
      in put_le64 164 (i_tindirect i) raw)"

definition inode_image :: "kenv \<Rightarrow> vinode \<Rightarrow> byte list \<Rightarrow> byte list" where
  "inode_image K i raw =
     (let raw = inode_put_fields i raw;
          raw = put_le32 48 (beamfs_inode_crc K raw) raw;
          raw = put_bytes (BEAMFS_INODE_RS_DATA + BEAMFS_RS_PARITY) (replicate 68 0) raw
      in case beamfs_rs_encode (k_rs K) (get_bytes 0 BEAMFS_INODE_RS_DATA raw) of
           Inl e \<Rightarrow> raw
         | Inr par \<Rightarrow> put_bytes BEAMFS_INODE_RS_DATA par raw)"

text \<open>A synchronous write clears the dirty bit; \<open>io_ok\<close> is whether the device took it.\<close>

definition beamfs_write_inode_raw_flags ::
    "kenv \<Rightarrow> 'a volume_scheme \<Rightarrow> ino \<Rightarrow> bool \<Rightarrow> bool \<Rightarrow> errno option \<times> 'a volume_scheme" where
  "beamfs_write_inode_raw_flags K v ino sync io_ok =
     (if s_failed v then (Some EIO, v)
      else
        let block = inode_block v ino;
            (bh, v) = beamfs_bread v block
        in case bh of
             None \<Rightarrow> (Some EIO, v)
           | Some bh \<Rightarrow>
               let raw = inode_image K (s_inode v ino) (get_bytes (inode_off ino) BEAMFS_INODE_SIZE (b_data bh));
                   bh = mark_buffer_dirty (bh\<lparr>b_data := put_bytes (inode_off ino) raw (b_data bh)\<rparr>);
                   bh = (if sync then bh\<lparr>b_dirty := False, b_uptodate := io_ok\<rparr> else bh);
                   v = v\<lparr>s_blk := (s_blk v)(block \<mapsto> bh)\<rparr>
               in if sync \<and> \<not> io_ok then (Some EIO, v) else (None, v))"

definition beamfs_write_inode_raw :: "kenv \<Rightarrow> 'a volume_scheme \<Rightarrow> ino \<Rightarrow> errno option \<times> 'a volume_scheme" where
  "beamfs_write_inode_raw K v ino = beamfs_write_inode_raw_flags K v ino False True"

text \<open>\<open>sret\<close> and \<open>mret\<close> are what the two \<^verbatim>\<open>mmb_sync\<close> calls return, for the volume's list and the inode's.\<close>

definition beamfs_write_inode ::
    "kenv \<Rightarrow> 'a volume_scheme \<Rightarrow> ino \<Rightarrow> bool \<Rightarrow> bool \<Rightarrow> errno option \<Rightarrow> errno option
       \<Rightarrow> errno option \<times> 'a volume_scheme" where
  "beamfs_write_inode K v ino sync io_ok sret mret =
     (let (ret, v) = beamfs_write_inode_raw_flags K v ino sync io_ok;
          ret = (if ret = None then mret else ret);
          ret = (if ret = None then sret else ret)
      in (ret, v))"

subsection \<open>Times\<close>

lemma split_ns_floor: "beamfs_split_ns ns = (ns div NSEC_PER_SEC, ns mod NSEC_PER_SEC)"
proof (cases "0 \<le> ns")
  case True
  then have "ns sdiv NSEC_PER_SEC = ns div NSEC_PER_SEC" "ns smod NSEC_PER_SEC = ns mod NSEC_PER_SEC"
    by (cases "ns = 0"; simp add: signed_divide_int_def signed_modulo_int_def)+
  then show ?thesis by (simp add: beamfs_split_ns_def Let_def)
next
  case False
  define B where "B = NSEC_PER_SEC"
  define q where "q = (- ns) div B"
  define r where "r = (- ns) mod B"
  have B: "0 < B" by (simp add: B_def)
  have n: "ns = - (B * q + r)" and r: "0 \<le> r" "r < B" using B by (simp_all add: q_def r_def)
  have s: "ns sdiv B = - q" "ns smod B = - r"
    using False B by (simp_all add: signed_divide_int_def signed_modulo_int_def q_def r_def)
  have e: "beamfs_split_ns ns = (if - r < 0 then (- q - 1, - r + B) else (- q, - r))"
    unfolding beamfs_split_ns_def B_def [symmetric] Let_def s by simp
  show ?thesis
  proof (cases "r = 0")
    case True
    then have "ns = B * (- q) + 0" using n by simp
    then have "ns div B = - q" "ns mod B = 0" using B int_div_pos_eq [of ns B "- q" 0] int_mod_pos_eq [of ns B "- q" 0] by auto
    then show ?thesis using e True by (simp add: B_def [symmetric])
  next
    case False
    then have "ns = B * (- q - 1) + (B - r)" "0 \<le> B - r" "B - r < B" using n r by (simp_all add: algebra_simps)
    then have "ns div B = - q - 1" "ns mod B = B - r" using int_div_pos_eq int_mod_pos_eq by blast+
    then show ?thesis using e False r by (simp add: B_def [symmetric])
  qed
qed

definition time_ok :: "int \<times> int \<Rightarrow> bool" where
  "time_ok t \<longleftrightarrow> 0 \<le> snd t \<and> snd t < NSEC_PER_SEC
     \<and> - 9223372036854775808 \<le> fst t * NSEC_PER_SEC + snd t \<and> fst t * NSEC_PER_SEC + snd t < 9223372036854775808"

lemma split_join_ns:
  assumes "time_ok t"
  shows "beamfs_split_ns (sint (beamfs_join_ns t)) = t"
proof -
  have "sint (beamfs_join_ns t) = fst t * NSEC_PER_SEC + snd t"
    using assms unfolding time_ok_def beamfs_join_ns_def int_word_sint by simp
  then show ?thesis using assms by (simp add: split_ns_floor time_ok_def prod_eq_iff)
qed

subsection \<open>Images\<close>

lemma concat_le8: "length (concat (map (cpu_to_le 8) (xs :: u64 list))) = 8 * length xs"
  by (induction xs) simp_all

lemma concat_le8_at:
  "i < length xs \<Longrightarrow> get_bytes (8 * i) 8 (concat (map (cpu_to_le 8) (xs :: u64 list))) = cpu_to_le 8 (xs ! i)"
proof (induction xs arbitrary: i)
  case (Cons x xs)
  show ?case
  proof (cases i)
    case 0
    then show ?thesis by (simp add: get_bytes_def)
  next
    case (Suc j)
    then show ?thesis using Cons get_append_right [of "cpu_to_le 8 x" "8 * j" 8] by simp
  qed
qed simp

text \<open>A sequence of writes to places apart from each other, and what is read back.\<close>

definition writes :: "(nat \<times> byte list) list \<Rightarrow> byte list \<Rightarrow> byte list" where
  "writes ws b = fold (\<lambda>(off, x) b. put_bytes off x b) ws b"

lemma length_writes: "\<forall>(off, x) \<in> set ws. off + length x \<le> length b \<Longrightarrow> length (writes ws b) = length b"
  unfolding writes_def by (induction ws arbitrary: b) auto

lemma get_writes_other:
  assumes "\<forall>(off, x) \<in> set ws. off + length x \<le> length b \<and> apart off (length x) k n" "k + n \<le> length b"
  shows "get_bytes k n (writes ws b) = get_bytes k n b"
  using assms unfolding writes_def by (induction ws arbitrary: b) (auto simp: get_put_apart)

lemma get_writes:
  assumes "\<forall>(off, x) \<in> set ws. off + length x \<le> length b \<and> (off = k \<and> x = y \<or> apart off (length x) k (length y))"
    and "(k, y) \<in> set ws"
  shows "get_bytes k (length y) (writes ws b) = y"
  using assms
proof (induction ws arbitrary: b)
  case (Cons w ws)
  obtain off x where w: "w = (off, x)" by (cases w)
  let ?b = "put_bytes off x b"
  have l: "length ?b = length b" using Cons.prems(1) w by simp
  show ?case
  proof (cases "(k, y) \<in> set ws")
    case True
    then show ?thesis using Cons.IH [of ?b] Cons.prems(1) l w by (simp add: writes_def)
  next
    case False
    then have "off = k" "x = y" using Cons.prems(2) w by auto
    moreover have "\<forall>(off, x) \<in> set ws. off + length x \<le> length ?b \<and> apart off (length x) k (length y)"
      using Cons.prems(1) False l by auto
    ultimately show ?thesis using get_writes_other [of ws ?b k "length y"] Cons.prems(1) w l get_put_same [of k y b]
      by (auto simp: writes_def)
  qed
qed simp

lemma inode_put_fields_writes:
  "inode_put_fields i raw = writes
     [(0, cpu_to_le 2 (i_mode i)), (4, cpu_to_le 4 (i_uid i)), (8, cpu_to_le 4 (i_gid i)),
      (2, cpu_to_le 2 (ucast (i_nlink i) :: u16)), (12, cpu_to_le 8 (i_size i)), (20, cpu_to_le 8 (beamfs_join_ns (i_atime i))),
      (28, cpu_to_le 8 (beamfs_join_ns (i_mtime i))), (36, cpu_to_le 8 (beamfs_join_ns (i_ctime i))),
      (44, cpu_to_le 4 (i_flags i)), (52, concat (map (cpu_to_le 8) (i_direct i))), (148, cpu_to_le 8 (i_indirect i)),
      (156, cpu_to_le 8 (i_dindirect i)), (164, cpu_to_le 8 (i_tindirect i))] raw"
  by (simp add: inode_put_fields_def writes_def Let_def field_defs)

lemma inode_put_fields_at:
  assumes "length raw = 256" "length (i_direct i) = 12"
  shows "get_bytes 0 2 (inode_put_fields i raw) = cpu_to_le 2 (i_mode i)"
    "get_bytes 4 4 (inode_put_fields i raw) = cpu_to_le 4 (i_uid i)"
    "get_bytes 8 4 (inode_put_fields i raw) = cpu_to_le 4 (i_gid i)"
    "get_bytes 2 2 (inode_put_fields i raw) = cpu_to_le 2 (ucast (i_nlink i) :: u16)"
    "get_bytes 12 8 (inode_put_fields i raw) = cpu_to_le 8 (i_size i)"
    "get_bytes 20 8 (inode_put_fields i raw) = cpu_to_le 8 (beamfs_join_ns (i_atime i))"
    "get_bytes 28 8 (inode_put_fields i raw) = cpu_to_le 8 (beamfs_join_ns (i_mtime i))"
    "get_bytes 36 8 (inode_put_fields i raw) = cpu_to_le 8 (beamfs_join_ns (i_ctime i))"
    "get_bytes 44 4 (inode_put_fields i raw) = cpu_to_le 4 (i_flags i)"
    "get_bytes 52 96 (inode_put_fields i raw) = concat (map (cpu_to_le 8) (i_direct i))"
    "get_bytes 148 8 (inode_put_fields i raw) = cpu_to_le 8 (i_indirect i)"
    "get_bytes 156 8 (inode_put_fields i raw) = cpu_to_le 8 (i_dindirect i)"
    "get_bytes 164 8 (inode_put_fields i raw) = cpu_to_le 8 (i_tindirect i)"
    "length (inode_put_fields i raw) = 256"
  unfolding inode_put_fields_writes
  using get_writes [where k = 0 and y = "cpu_to_le 2 (i_mode i)"] get_writes [where k = 4 and y = "cpu_to_le 4 (i_uid i)"]
    get_writes [where k = 8 and y = "cpu_to_le 4 (i_gid i)"] get_writes [where k = 2 and y = "cpu_to_le 2 (ucast (i_nlink i) :: u16)"]
    get_writes [where k = 12 and y = "cpu_to_le 8 (i_size i)"] get_writes [where k = 20 and y = "cpu_to_le 8 (beamfs_join_ns (i_atime i))"]
    get_writes [where k = 28 and y = "cpu_to_le 8 (beamfs_join_ns (i_mtime i))"]
    get_writes [where k = 36 and y = "cpu_to_le 8 (beamfs_join_ns (i_ctime i))"]
    get_writes [where k = 44 and y = "cpu_to_le 4 (i_flags i)"]
    get_writes [where k = 52 and y = "concat (map (cpu_to_le 8) (i_direct i))"]
    get_writes [where k = 148 and y = "cpu_to_le 8 (i_indirect i)"]
    get_writes [where k = 156 and y = "cpu_to_le 8 (i_dindirect i)"]
    get_writes [where k = 164 and y = "cpu_to_le 8 (i_tindirect i)"]
  by (simp_all add: assms concat_le8 apart_def length_writes)

text \<open>An image with its checksum and parity: what a write leaves.\<close>

definition inode_coded :: "kenv \<Rightarrow> vinode \<Rightarrow> byte list \<Rightarrow> bool" where
  "inode_coded K i c \<longleftrightarrow> length c = 256
     \<and> (\<forall>off n. off + n \<le> 48 \<or> 52 \<le> off \<and> off + n \<le> 172 \<longrightarrow>
          get_bytes off n c = get_bytes off n (inode_put_fields i (replicate 256 0)))
     \<and> get_le32 48 c = beamfs_inode_crc K c
     \<and> get_bytes 172 16 c = rs_library.parity (k_rs K) (get_bytes 0 172 c)"

lemma nth_writes_covered:
  assumes "\<forall>(off, x) \<in> set ws. off + length x \<le> length b" "length b' = length b" "j < length b"
    and "b ! j = b' ! j \<or> (\<exists>(off, x) \<in> set ws. off \<le> j \<and> j < off + length x)"
  shows "writes ws b ! j = writes ws b' ! j"
  using assms
proof (induction ws arbitrary: b b')
  case (Cons w ws)
  obtain off x where w: "w = (off, x)" by (cases w)
  let ?b = "put_bytes off x b" and ?b' = "put_bytes off x b'"
  have "?b ! j = ?b' ! j \<or> (\<exists>(off, x) \<in> set ws. off \<le> j \<and> j < off + length x)"
    using Cons.prems w by (auto simp: nth_put_bytes)
  then show ?case using Cons.IH [of ?b ?b'] Cons.prems w by (auto simp: writes_def)
qed (simp add: writes_def)

lemma fields_cover:
  "\<forall>j \<in> set [0..<172]. j < 48 \<or> 52 \<le> j \<longrightarrow>
     list_ex (\<lambda>(off, n). off \<le> j \<and> j < off + n)
       [(0, 2), (4, 4), (8, 4), (2, 2), (12, 8), (20, 8), (28, 8), (36, 8), (44, 4), (52, 96), (148, 8), (156, 8), (164, 8 :: nat)]"
  by code_simp

lemma put_fields_all:
  assumes "length raw = 256" "length raw' = 256" "length (i_direct i) = 12" "j < 48 \<or> 52 \<le> j \<and> j < 172"
  shows "inode_put_fields i raw ! j = inode_put_fields i raw' ! j"
  unfolding inode_put_fields_writes
proof (rule nth_writes_covered)
  let ?ws = "[(0, 2), (4, 4), (8, 4), (2, 2), (12, 8), (20, 8), (28, 8), (36, 8), (44, 4), (52, 96), (148, 8), (156, 8), (164, 8 :: nat)]"
  have "list_ex (\<lambda>(off, n). off \<le> j \<and> j < off + n) ?ws"
  proof (rule fields_cover [rule_format])
    show "j \<in> set [0..<172]" unfolding set_upt using assms(4) by (simp only: atLeastLessThan_iff) linarith
    show "j < 48 \<or> 52 \<le> j" using assms(4) by linarith
  qed
  then show "raw ! j = raw' ! j \<or> (\<exists>(off, x) \<in> set [(0, cpu_to_le 2 (i_mode i)), (4, cpu_to_le 4 (i_uid i)), (8, cpu_to_le 4 (i_gid i)),
      (2, cpu_to_le 2 (ucast (i_nlink i) :: u16)), (12, cpu_to_le 8 (i_size i)), (20, cpu_to_le 8 (beamfs_join_ns (i_atime i))),
      (28, cpu_to_le 8 (beamfs_join_ns (i_mtime i))), (36, cpu_to_le 8 (beamfs_join_ns (i_ctime i))),
      (44, cpu_to_le 4 (i_flags i)), (52, concat (map (cpu_to_le 8) (i_direct i))), (148, cpu_to_le 8 (i_indirect i)),
      (156, cpu_to_le 8 (i_dindirect i)), (164, cpu_to_le 8 (i_tindirect i))]. off \<le> j \<and> j < off + length x)"
    using assms(3) by (simp add: concat_le8)
qed (use assms in \<open>auto simp: concat_le8\<close>)

lemma inode_crc_put:
  assumes "length c = 256" "off + length x \<le> 256" "48 \<le> off \<and> off + length x \<le> 52 \<or> 172 \<le> off"
  shows "beamfs_inode_crc K (put_bytes off x c) = beamfs_inode_crc K c"
  using assms by (auto simp: beamfs_inode_crc_def get_put_other)

lemma inode_image_coded:
  assumes K: "kernel_lib K" and len: "length raw = 256" "length (i_direct i) = 12"
  shows "inode_coded K i (inode_image K i raw)"
proof -
  have lib: "rs_library (k_rs K)" using K by (rule kernel_lib.k_rs_library)
  let ?f = "inode_put_fields i raw"
  let ?c = "put_le32 48 (beamfs_inode_crc K ?f) ?f"
  let ?z = "put_bytes 188 (replicate 68 0) ?c"
  have lf: "length ?f = 256" using inode_put_fields_at(14) [OF len] .
  then have l: "length ?c = 256" "length ?z = 256" by simp_all
  let ?p = "rs_library.parity (k_rs K) (get_bytes 0 172 ?z)"
  have lp: "length ?p = 16" using rs_library.length_parity [OF lib, of "get_bytes 0 172 ?z"] l by simp
  have im: "inode_image K i raw = put_bytes 172 ?p ?z"
    using rs_library.encode_ok [OF lib, of "get_bytes 0 172 ?z"] l by (simp add: inode_image_def Let_def)
  have g: "get_bytes off n (inode_image K i raw) = get_bytes off n ?f" if "off + n \<le> 48 \<or> 52 \<le> off \<and> off + n \<le> 172" for off n
    using that im lp l lf by (auto simp: get_put_other put_le32_def)
  have "get_bytes off n ?f = get_bytes off n (inode_put_fields i (replicate 256 0))"
    if "off + n \<le> 48 \<or> 52 \<le> off \<and> off + n \<le> 172" for off n
    by (rule nth_equalityI)
      (use that lf inode_put_fields_at(14) [of "replicate 256 0"] len put_fields_all [OF len(1) _ len(2), of "replicate 256 0"]
        in \<open>auto simp: nth_get_bytes\<close>)
  moreover have "beamfs_inode_crc K (inode_image K i raw) = beamfs_inode_crc K ?f"
    unfolding beamfs_inode_crc_def by (simp add: g)
  moreover have "get_le32 48 (inode_image K i raw) = beamfs_inode_crc K ?f"
    using im lp l lf get_put_le(2) [of 48 ?f] by (simp add: get_le32_def get_put_other)
  moreover have "get_bytes 172 16 (inode_image K i raw) = ?p" "get_bytes 0 172 (inode_image K i raw) = get_bytes 0 172 ?z"
    using im lp l get_put_same [of 172 ?p ?z] by (simp_all add: get_put_other)
  moreover have "length (inode_image K i raw) = 256" using im lp l by simp
  ultimately show ?thesis using g unfolding inode_coded_def by auto
qed

text \<open>The inodes the cache holds: within what an image can say.\<close>

definition inode_wf :: "u32 \<Rightarrow> ino \<Rightarrow> vinode \<Rightarrow> bool" where
  "inode_wf scheme ino i \<longleftrightarrow> length (i_direct i) = 12 \<and> unat (i_nlink i) < 65536
     \<and> time_ok (i_atime i) \<and> time_ok (i_mtime i) \<and> time_ok (i_ctime i)
     \<and> i_ops i = inode_set_ops scheme (i_mode i)
     \<and> i_immutable i = (beamfs_ino_is_reserved ino \<and> ino \<noteq> 1)"

lemma le_roundtrip_at [simp]:
  "le_to_cpu (cpu_to_le 2 (a :: u16)) = a" "le_to_cpu (cpu_to_le 4 (b :: u32)) = b" "le_to_cpu (cpu_to_le 8 (c :: u64)) = c"
  by (simp_all add: le_roundtrip)

lemma inode_populate_coded:
  assumes c: "inode_coded K i c" and wf: "inode_wf scheme ino i" and r: "length r = 256" "take 172 r = take 172 c"
  shows "inode_populate scheme ino r = i\<lparr>i_dirty := False\<rparr>"
proof -
  have len: "length (i_direct i) = 12" using wf by (simp add: inode_wf_def)
  let ?z = "replicate 256 0"
  have z: "length ?z = 256" by simp
  note f = inode_put_fields_at [OF z len]
  have g: "get_bytes off n r = get_bytes off n (inode_put_fields i ?z)" if "off + n \<le> 48 \<or> 52 \<le> off \<and> off + n \<le> 172" for off n
  proof -
    have "get_bytes off n r = get_bytes off n (take 172 r)" "get_bytes off n c = get_bytes off n (take 172 c)"
      using that by (auto simp: get_bytes_def drop_take min_def)
    then have "get_bytes off n r = get_bytes off n c" using r(2) by simp
    then show ?thesis using c that unfolding inode_coded_def by presburger
  qed
  have "map (\<lambda>j. get_le64 (52 + 8 * j) r) [0..<12] = i_direct i"
  proof (rule nth_equalityI)
    fix j assume "j < length (map (\<lambda>j. get_le64 (52 + 8 * j) r) [0..<12])"
    then have j: "j < 12" by simp
    then have "get_bytes (52 + 8 * j) 8 (inode_put_fields i ?z) = get_bytes (8 * j) 8 (get_bytes 52 96 (inode_put_fields i ?z))"
      by (simp add: get_get_bytes)
    then show "map (\<lambda>j. get_le64 (52 + 8 * j) r) [0..<12] ! j = i_direct i ! j"
      using j g [of "52 + 8 * j" 8] f(10) concat_le8_at [of j "i_direct i"] len by (simp add: get_le64_def)
  qed (use len in simp)
  moreover have "ucast (ucast (i_nlink i) :: u16) = i_nlink i"
    using wf by (intro word_unat_eq_iff [THEN iffD2]) (simp add: inode_wf_def unsigned_ucast_eq unsigned_take_bit_eq take_bit_nat_eq_self)
  moreover have "get_le16 0 r = i_mode i" "get_le32 4 r = i_uid i" "get_le32 8 r = i_gid i"
    "get_le16 2 r = ucast (i_nlink i)" "get_le64 12 r = i_size i" "get_le64 20 r = beamfs_join_ns (i_atime i)"
    "get_le64 28 r = beamfs_join_ns (i_mtime i)" "get_le64 36 r = beamfs_join_ns (i_ctime i)" "get_le32 44 r = i_flags i"
    "get_le64 148 r = i_indirect i" "get_le64 156 r = i_dindirect i" "get_le64 164 r = i_tindirect i"
    by (simp_all add: get_le16_def get_le32_def get_le64_def g f)
  ultimately show ?thesis
    using wf by (intro vinode.equality) (simp_all add: inode_populate_def inode_wf_def split_join_ns del: upt_rec_numeral)
qed

subsection \<open>Recovery\<close>

text \<open>The bytes of an image the code protects, damaged within its radius.\<close>

definition inode_errs :: "byte list \<Rightarrow> byte list \<Rightarrow> nat set" where
  "inode_errs r c = errors (get_bytes 0 188 r) (get_bytes 0 188 c)"

definition inode_rs_active :: "'a volume_scheme \<Rightarrow> bool" where
  "inode_rs_active v \<longleftrightarrow> sb_data_protection_scheme (s_beamfs_sb v) = BEAMFS_DATA_PROTECTION_INODE_UNIVERSAL
     \<or> s_feat_incompat v AND BEAMFS_FEATURE_INCOMPAT_PER_INODE_RS \<noteq> 0"

lemma inode_crc_cong:
  fixes a b :: "byte list"
  assumes "take 172 a = take 172 b"
  shows "beamfs_inode_crc K a = beamfs_inode_crc K b" "get_le32 48 a = get_le32 48 b" "get_le16 0 a = get_le16 0 b"
proof -
  have g: "get_bytes off n x = get_bytes off n (take 172 x)" if "off + n \<le> 172" for off n and x :: "byte list"
    using that by (auto simp: get_bytes_def drop_take min_def)
  have e: "get_bytes off n a = get_bytes off n b" if "off + n \<le> 172" for off n using g [OF that, of a] g [OF that, of b] assms by simp
  show "beamfs_inode_crc K a = beamfs_inode_crc K b" "get_le32 48 a = get_le32 48 b" "get_le16 0 a = get_le16 0 b"
    by (simp_all add: beamfs_inode_crc_def get_le32_def get_le16_def e)
qed

lemma inode_recover_near:
  assumes K: "kernel_lib K" and c: "inode_coded K i c" and r: "length r = 256" "get_le16 0 r \<noteq> 0"
    and few: "card (inode_errs r c) \<le> 8"
    and seen: "take 172 r = take 172 c \<or> beamfs_inode_crc K r \<noteq> get_le32 48 r"
    and rs: "inode_rs_active v" "s_copy_ok v"
  shows "\<exists>fixed corr. inode_recover K v r = Inr (fixed, corr) \<and> length fixed = 256 \<and> take 172 fixed = take 172 c
    \<and> (corr = None \<longrightarrow> fixed = r)"
proof (cases "beamfs_inode_crc K r = get_le32 48 r")
  case True
  then show ?thesis using r seen by (simp add: inode_recover_def)
next
  case False
  have lib: "rs_library (k_rs K)" using K by (rule kernel_lib.k_rs_library)
  let ?d = "get_bytes 0 172 c"
  have lc: "length c = 256" and par: "get_bytes 172 16 c = rs_library.parity (k_rs K) ?d"
    and crc: "get_le32 48 c = beamfs_inode_crc K c" using c by (simp_all add: inode_coded_def)
  have sp: "get_bytes 0 188 x = get_bytes 0 172 x @ get_bytes 172 16 x" for x :: "byte list"
    using take_add [of 172 16 x] by (simp add: get_bytes_def)
  have "card (errors (get_bytes 0 172 r @ get_bytes 172 16 r) (?d @ rs_library.parity (k_rs K) ?d)) \<le> 8"
    using few sp par by (simp add: inode_errs_def)
  then obtain n pos where d: "beamfs_rs_decode (k_rs K) (get_bytes 0 172 r) (get_bytes 172 16 r) (Some 8) = (int n, ?d, pos)"
    using rs_library.decode_ok [OF lib, of ?d "get_bytes 0 172 r" "get_bytes 172 16 r" "Some 8"] lc r(1) by auto
  let ?f = "put_bytes 0 ?d r"
  have f: "length ?f = 256" "take 172 ?f = take 172 c" using lc r(1) by (simp_all add: put_bytes_def get_bytes_def)
  have "inode_recover K v r = Inr (?f, Some (n, pos))"
    using False r(2) rs d crc inode_crc_cong [OF f(2)] by (auto simp: inode_recover_def inode_rs_active_def)
  then show ?thesis using f by simp
qed

text \<open>What a read leaves, on each way out.\<close>

lemma log_inode_sel [simp]:
  "s_inode (beamfs_log_rs_event_flagged K now v blk positions n len flags) = s_inode v"
  "s_icached (beamfs_log_rs_event_flagged K now v blk positions n len flags) = s_icached v"
  "s_scheme (beamfs_log_rs_event_flagged K now v blk positions n len flags) = s_scheme v"
  by (rule quietD [OF quiet_log])+

lemma iget_cases:
  assumes "beamfs_iget K v ino = (ret, v')"
  obtains e where "ret = Inl e" "s_inode v' = s_inode v" "s_icached v' = s_icached v" "s_scheme v' = s_scheme v" "s_blk v' = s_blk v"
  | "ret = Inr ino" "v' = v" "s_icached v ino"
  | bh raw corr where "ret = Inr ino" "\<not> s_icached v ino" "s_blk v (inode_block v ino) = Some bh"
      "inode_recover K v (get_bytes (inode_off ino) 256 (b_data bh)) = Inr (raw, corr)"
      "s_inode v' = (s_inode v)(ino := inode_populate (s_scheme v) ino raw)" "s_icached v' = (s_icached v)(ino := True)"
      "s_scheme v' = s_scheme v" "corr = None \<Longrightarrow> s_blk v' = s_blk v"
      "corr \<noteq> None \<Longrightarrow> s_blk v' = (s_blk v)(inode_block v ino \<mapsto>
         mark_buffer_dirty (bh\<lparr>b_data := put_bytes (inode_off ino) raw (b_data bh)\<rparr>))"
proof -
  consider (range) "ino < 1 \<or> ino > unat (sb_inode_count (s_beamfs_sb v)) \<or> \<not> s_icached v ino \<and> \<not> s_inode_ok v"
    | (hit) "\<not> (ino < 1 \<or> ino > unat (sb_inode_count (s_beamfs_sb v)) \<or> \<not> s_icached v ino \<and> \<not> s_inode_ok v)" "s_icached v ino"
    | (miss) "\<not> (ino < 1 \<or> ino > unat (sb_inode_count (s_beamfs_sb v)))" "s_inode_ok v" "\<not> s_icached v ino" by blast
  then show thesis
  proof cases
    case range
    then obtain e where "ret = Inl e" "v' = v" using assms by (auto simp: beamfs_iget_def split: if_splits)
    then show ?thesis by (intro that(1)) auto
  next
    case hit
    then show ?thesis using assms by (intro that(2)) (auto simp: beamfs_iget_def)
  next
    case miss
    show ?thesis
    proof (cases "s_blk v (inode_block v ino)")
      case None
      then show ?thesis using assms miss by (intro that(1)) (auto simp: beamfs_iget_def beamfs_bread_def beamfs_fail_def)
    next
      case (Some bh)
      note b = Some
      show ?thesis
      proof (cases "inode_recover K v (get_bytes (inode_off ino) 256 (b_data bh))")
        case (Inl e)
        then show ?thesis using assms miss b by (intro that(1)) (auto simp: beamfs_iget_def beamfs_bread_def)
      next
        case (Inr p)
        obtain raw corr where p: "p = (raw, corr)" by (cases p)
        show ?thesis
          by (rule that(3) [of bh raw corr])
            (use assms miss b Inr p in \<open>auto simp: beamfs_iget_def beamfs_bread_def Let_def split: option.splits if_splits\<close>)
      qed
    qed
  qed
qed

subsection \<open>Properties\<close>

text \<open>C15: An inode written is the inode read back, through damage the code corrects. After
  \<^const>\<open>beamfs_write_inode_raw\<close>, the inode leaves the cache and the table block is read again with up to
  eight of the 188 bytes of the inode's codeword wrong, among them not both bytes of a mode that reads
  zero, and the checksum notices if any of the 172 data bytes is wrong. With inode parity active
  \<^const>\<open>beamfs_iget\<close> then brings back every field of the inode, and changes no other inode in memory.\<close>
theorem inode_roundtrip:
  assumes "kernel_lib K" "inode_wf (s_scheme v) ino (s_inode v ino)" "1 \<le> ino" "ino \<le> unat (sb_inode_count (s_beamfs_sb v))"
    and "\<not> s_failed v" "s_inode_ok v" "s_copy_ok v" "inode_rs_active v"
    and "s_blk v (inode_block v ino) = Some bh" "length (b_data bh) = 4096"
    and "beamfs_write_inode_raw K v ino = (e, v1)" "s_blk v1 (inode_block v ino) = Some bh1"
    and "length (b_data bh2) = 4096" "r = get_bytes (inode_off ino) 256 (b_data bh2)"
    and "card (inode_errs r (get_bytes (inode_off ino) 256 (b_data bh1))) \<le> 8" "get_le16 0 r \<noteq> 0"
    and "take 172 r = take 172 (get_bytes (inode_off ino) 256 (b_data bh1)) \<or> beamfs_inode_crc K r \<noteq> get_le32 48 r"
    and "v2 = v1\<lparr>s_blk := (s_blk v1)(inode_block v ino \<mapsto> bh2), s_icached := (s_icached v1)(ino := False)\<rparr>"
  shows "\<exists>v3. beamfs_iget K v2 ino = (Inr ino, v3) \<and> s_icached v3 ino
    \<and> s_inode v3 = (s_inode v)(ino := (s_inode v ino)\<lparr>i_dirty := False\<rparr>)"
proof -
  let ?i = "s_inode v ino" and ?blk = "inode_block v ino" and ?off = "inode_off ino"
  let ?c = "inode_image K ?i (get_bytes ?off 256 (b_data bh))"
  have off: "?off + 256 \<le> 4096" by (simp add: inode_off_def)
  have coded: "inode_coded K ?i ?c"
    using inode_image_coded [OF assms(1), of "get_bytes ?off 256 (b_data bh)" ?i] assms(2,10) off by (simp add: inode_wf_def)
  then have lc: "length ?c = 256" by (simp add: inode_coded_def)
  have v1: "v1 = v\<lparr>s_blk := (s_blk v)(?blk \<mapsto> mark_buffer_dirty (bh\<lparr>b_data := put_bytes ?off ?c (b_data bh)\<rparr>))\<rparr>"
    using assms(5,9,11) by (simp add: beamfs_write_inode_raw_def beamfs_write_inode_raw_flags_def beamfs_bread_def Let_def)
  then have c: "get_bytes ?off 256 (b_data bh1) = ?c"
    using assms(10,12) off lc get_put_same [of ?off ?c "b_data bh"] by (auto simp: mark_buffer_dirty_def)
  have lr: "length r = 256" using assms(13,14) off by simp
  have act: "inode_rs_active v2" "s_copy_ok v2" using assms(7,8,18) v1 by (simp_all add: inode_rs_active_def)
  obtain fixed corr where f: "inode_recover K v2 r = Inr (fixed, corr)" "length fixed = 256" "take 172 fixed = take 172 ?c"
    using inode_recover_near [OF assms(1) coded lr assms(16) _ _ act] assms(15,17) c by auto
  have pop: "inode_populate (s_scheme v) ino fixed = ?i\<lparr>i_dirty := False\<rparr>"
    by (rule inode_populate_coded [OF coded assms(2) f(2,3)])
  obtain ret v3 where g: "beamfs_iget K v2 ino = (ret, v3)" by (cases "beamfs_iget K v2 ino")
  have blk: "inode_block v2 ino = ?blk" "s_blk v2 ?blk = Some bh2" "\<not> s_icached v2 ino"
    "sb_inode_count (s_beamfs_sb v2) = sb_inode_count (s_beamfs_sb v)" "s_inode_ok v2"
    using assms(6,18) v1 by (simp_all add: inode_block_def)
  have ret: "ret = Inr ino" using g blk f(1) assms(3,4,14) by (auto simp: beamfs_iget_def beamfs_bread_def Let_def split: if_splits)
  from g show ?thesis
  proof (cases rule: iget_cases)
    case (3 b raw corr')
    then have "raw = fixed" using blk f(1) assms(14) by simp
    moreover have "s_scheme v2 = s_scheme v" "s_inode v2 = s_inode v" using assms(18) v1 by simp_all
    ultimately show ?thesis using 3(5,6) g ret pop by simp
  qed (use ret blk in auto)
qed

text \<open>Damage that clears the mode is not corrected. An image that a write left, with nothing wrong but
  its two mode bytes now zero, is two symbols away from its codeword, within what the parity corrects;
  \<^const>\<open>beamfs_iget\<close> takes it for a free inode and returns ESTALE, in every scheme.\<close>
theorem iget_mode_cleared:
  assumes "kernel_lib K" "length (i_direct i) = 12" "length raw = 256" "1 \<le> ino" "ino \<le> unat (sb_inode_count (s_beamfs_sb v))"
    and "\<not> s_icached v ino" "s_inode_ok v" "s_blk v (inode_block v ino) = Some bh"
    and "get_bytes (inode_off ino) 256 (b_data bh) = put_bytes 0 [0, 0] (inode_image K i raw)"
  shows "card (inode_errs (put_bytes 0 [0, 0] (inode_image K i raw)) (inode_image K i raw)) \<le> 2
    \<and> beamfs_iget K v ino = (Inl ESTALE, v)"
proof -
  let ?c = "inode_image K i raw"
  have lc: "length ?c = 256" using inode_image_coded [OF assms(1,3,2)] by (simp add: inode_coded_def)
  have "inode_errs (put_bytes 0 [0, 0] ?c) ?c \<subseteq> {..<2}"
    using lc by (auto simp: inode_errs_def errors_def nth_get_bytes nth_put_bytes split: if_splits)
  then have "card (inode_errs (put_bytes 0 [0, 0] ?c) ?c) \<le> 2" using card_mono [OF finite_lessThan [of 2]] by fastforce
  moreover have "get_le16 0 (put_bytes 0 [0, 0] ?c) = 0"
    using get_put_same [of 0 "[0, 0]" ?c] lc by (simp add: get_le16_def le_to_cpu_def numeral_2_eq_2)
  then have "inode_recover K v (put_bytes 0 [0, 0] ?c) = Inl ESTALE" by (simp add: inode_recover_def)
  then have "beamfs_iget K v ino = (Inl ESTALE, v)" using assms(4-9) by (simp add: beamfs_iget_def beamfs_bread_def)
  ultimately show ?thesis by blast
qed

subsection \<open>Witnesses\<close>

definition wit_ivol :: volume where
  "wit_ivol = wit_vol\<lparr>s_feat_incompat := 0x100\<rparr>"

lemma wit_vsb_at: "sb_inode_count wit_vsb = 3" "sb_inode_table_blk wit_vsb = 3"
  by (simp_all add: wit_vsb_def sb_inode_count_def sb_inode_table_blk_def get_le64_def put_le64_def get_put_other)
    (simp_all add: get_put_le(3) [unfolded get_le64_def put_le64_def])

lemma wit_ivol_at: "inode_block wit_ivol 1 = 3" "inode_off 1 = 0" "s_blk wit_ivol 3 = Some zero_bh" "inode_rs_active wit_ivol"
  "s_scheme wit_ivol = 2" "s_inode wit_ivol = (\<lambda>_. wit_inode)" "s_icached wit_ivol = (\<lambda>i. i = 1)" "s_beamfs_sb wit_ivol = wit_vsb"
  "\<not> s_failed wit_ivol" "s_inode_ok wit_ivol" "s_copy_ok wit_ivol" "inode_wf 2 1 wit_inode" "length (i_direct wit_inode) = 12"
  by (simp_all add: wit_ivol_def inode_block_def inode_off_def wit_vsb_at inode_rs_active_def BEAMFS_FEATURE_INCOMPAT_PER_INODE_RS_def
      inode_wf_def wit_inode_def time_ok_def inode_set_ops_def S_ISDIR_def)

lemma inode_crc_port: "beamfs_inode_crc port_kenv raw = crc32_inode raw"
  by (simp add: beamfs_inode_crc_def port_kenv_def beamfs_crc32_def crc32_inode_def crc32_def)

text \<open>The image of the root inode, and the same image with a byte of the group wrong.\<close>

definition wit_inode_image :: "byte list" where
  "wit_inode_image = inode_image port_kenv wit_inode (replicate 256 0)"

lemma wit_inode_image_coded: "inode_coded port_kenv wit_inode wit_inode_image" "length wit_inode_image = 256"
  "wit_inode_image ! 8 = 0" "get_le16 0 wit_inode_image = 0x41ED"
proof -
  show c: "inode_coded port_kenv wit_inode wit_inode_image"
    using inode_image_coded [OF kport.kernel_lib_axioms, of "replicate 256 0" wit_inode] wit_ivol_at(13) by (simp add: wit_inode_image_def)
  then show l: "length wit_inode_image = 256" by (simp add: inode_coded_def)
  note f = inode_put_fields_at [of "replicate 256 0" wit_inode, OF _ wit_ivol_at(13)]
  have "get_bytes 8 4 wit_inode_image = cpu_to_le 4 (0 :: u32)" "get_bytes 0 2 wit_inode_image = cpu_to_le 2 (0x41ED :: u16)"
    using c f by (simp_all add: inode_coded_def) (simp_all add: wit_inode_def)
  moreover have "cpu_to_le 4 (0 :: u32) ! 0 = 0" by (simp add: cpu_to_le_def)
  ultimately show "wit_inode_image ! 8 = 0" "get_le16 0 wit_inode_image = 0x41ED"
    using nth_get_bytes [of 8 4 wit_inode_image 0] l by (simp_all add: get_le16_def)
qed

definition wit_damaged :: "byte list" where
  "wit_damaged = put_bytes 8 [1] wit_inode_image"

lemma wit_damaged_facts: "card (inode_errs wit_damaged wit_inode_image) \<le> 8" "get_le16 0 wit_damaged \<noteq> 0"
  "beamfs_inode_crc port_kenv wit_damaged \<noteq> get_le32 48 wit_damaged" "length wit_damaged = 256"
proof -
  note w = wit_inode_image_coded
  show "length wit_damaged = 256" using w(2) by (simp add: wit_damaged_def)
  have "inode_errs wit_damaged wit_inode_image \<subseteq> {8}"
    using w(2) by (auto simp: inode_errs_def errors_def nth_get_bytes nth_put_bytes wit_damaged_def split: if_splits)
  then have "card (inode_errs wit_damaged wit_inode_image) \<le> 1" using card_mono [of "{8 :: nat}"] by fastforce
  then show "card (inode_errs wit_damaged wit_inode_image) \<le> 8" by simp
  show "get_le16 0 wit_damaged \<noteq> 0" using w(2,4) by (simp add: wit_damaged_def get_le16_def get_put_other)
  have "put_bytes 8 [1] wit_inode_image \<noteq> wit_inode_image"
  proof
    assume "put_bytes 8 [1] wit_inode_image = wit_inode_image"
    from arg_cong [OF this, of "\<lambda>l. l ! 8"] show False using w(2,3) by (simp add: nth_put_bytes)
  qed
  then have "crc32_inode wit_damaged \<noteq> crc32_inode wit_inode_image"
    using crc32_regions_detect [of 48 52 120 wit_inode_image "[1]" 8] w(2) by (simp add: crc32_inode_def wit_damaged_def)
  moreover have "get_le32 48 wit_damaged = get_le32 48 wit_inode_image" using w(2) by (simp add: wit_damaged_def get_le32_def get_put_other)
  ultimately show "beamfs_inode_crc port_kenv wit_damaged \<noteq> get_le32 48 wit_damaged"
    using w(1) by (simp add: inode_coded_def inode_crc_port)
qed

definition wit_reread :: volume where
  "wit_reread = (let v1 = snd (beamfs_write_inode_raw port_kenv wit_ivol 1)
     in v1\<lparr>s_blk := (s_blk v1)(3 \<mapsto> zero_bh\<lparr>b_data := wit_damaged @ replicate 3840 0\<rparr>), s_icached := (s_icached v1)(1 := False)\<rparr>)"

theorem inode_roundtrip_witness:
  "\<exists>v3. beamfs_iget port_kenv wit_reread 1 = (Inr 1, v3) \<and> s_inode v3 1 = wit_inode"
proof -
  have img: "inode_image port_kenv wit_inode (get_bytes 0 256 (b_data zero_bh)) = wit_inode_image"
    by (simp add: wit_inode_image_def get_bytes_def)
  have w: "beamfs_write_inode_raw port_kenv wit_ivol 1 = (None, snd (beamfs_write_inode_raw port_kenv wit_ivol 1))"
    "s_blk (snd (beamfs_write_inode_raw port_kenv wit_ivol 1)) 3
       = Some (mark_buffer_dirty (zero_bh\<lparr>b_data := put_bytes 0 wit_inode_image (b_data zero_bh)\<rparr>))"
    using img wit_ivol_at by (simp_all add: beamfs_write_inode_raw_def beamfs_write_inode_raw_flags_def beamfs_bread_def Let_def)
  have b1: "get_bytes 0 256 (b_data (mark_buffer_dirty (zero_bh\<lparr>b_data := put_bytes 0 wit_inode_image (b_data zero_bh)\<rparr>))) = wit_inode_image"
    using wit_inode_image_coded(2) by (simp add: mark_buffer_dirty_def put_bytes_def get_bytes_def)
  have r: "get_bytes 0 256 (b_data (zero_bh\<lparr>b_data := wit_damaged @ replicate 3840 0\<rparr>)) = wit_damaged"
    using wit_damaged_facts(4) by (simp add: get_bytes_def)
  let ?bh1 = "mark_buffer_dirty (zero_bh\<lparr>b_data := put_bytes 0 wit_inode_image (b_data zero_bh)\<rparr>)"
  let ?bh2 = "zero_bh\<lparr>b_data := wit_damaged @ replicate 3840 0\<rparr>"
  have "\<exists>v3. beamfs_iget port_kenv wit_reread 1 = (Inr 1, v3) \<and> s_icached v3 1
    \<and> s_inode v3 = (s_inode wit_ivol)(1 := (s_inode wit_ivol 1)\<lparr>i_dirty := False\<rparr>)"
  proof (rule inode_roundtrip [where bh = zero_bh and ?bh1.0 = ?bh1 and ?bh2.0 = ?bh2 and r = wit_damaged, OF kport.kernel_lib_axioms])
    show "beamfs_write_inode_raw port_kenv wit_ivol 1 = (None, snd (beamfs_write_inode_raw port_kenv wit_ivol 1))" by (rule w(1))
    show "s_blk (snd (beamfs_write_inode_raw port_kenv wit_ivol 1)) (inode_block wit_ivol 1) = Some ?bh1"
      unfolding wit_ivol_at(1) by (rule w(2))
    show "wit_damaged = get_bytes (inode_off 1) 256 (b_data ?bh2)" unfolding wit_ivol_at(2) by (rule r [symmetric])
    show "card (inode_errs wit_damaged (get_bytes (inode_off 1) 256 (b_data ?bh1))) \<le> 8"
      unfolding wit_ivol_at(2) b1 by (rule wit_damaged_facts(1))
    show "wit_reread = (snd (beamfs_write_inode_raw port_kenv wit_ivol 1))
        \<lparr>s_blk := (s_blk (snd (beamfs_write_inode_raw port_kenv wit_ivol 1)))(inode_block wit_ivol 1 \<mapsto> ?bh2),
         s_icached := (s_icached (snd (beamfs_write_inode_raw port_kenv wit_ivol 1)))(1 := False)\<rparr>"
      unfolding wit_reread_def Let_def wit_ivol_at(1) ..
  qed (use wit_ivol_at wit_vsb_at wit_damaged_facts in simp_all)
  then show ?thesis using wit_ivol_at(6) by (auto simp: wit_inode_def)
qed

theorem iget_mode_cleared_witness:
  "fst (beamfs_iget port_kenv
     (wit_ivol\<lparr>s_blk := (s_blk wit_ivol)(3 \<mapsto> zero_bh\<lparr>b_data := put_bytes 0 [0, 0] wit_inode_image @ replicate 3840 0\<rparr>),
               s_icached := (\<lambda>_. False)\<rparr>) 1) = Inl ESTALE"
proof -
  let ?v = "wit_ivol\<lparr>s_blk := (s_blk wit_ivol)(3 \<mapsto> zero_bh\<lparr>b_data := put_bytes 0 [0, 0] wit_inode_image @ replicate 3840 0\<rparr>),
               s_icached := (\<lambda>_. False)\<rparr>"
  have b: "inode_block ?v 1 = 3" using wit_ivol_at(1) by (simp add: inode_block_def)
  have g: "get_bytes (inode_off 1) 256 (b_data (zero_bh\<lparr>b_data := put_bytes 0 [0, 0] wit_inode_image @ replicate 3840 0\<rparr>))
      = put_bytes 0 [0, 0] (inode_image port_kenv wit_inode (replicate 256 0))"
    using wit_inode_image_coded(2) wit_ivol_at(2) by (simp add: get_bytes_def wit_inode_image_def)
  show ?thesis
    using iget_mode_cleared [OF kport.kernel_lib_axioms wit_ivol_at(13) _ _ _ _ _ _ g, of ?v] b wit_ivol_at wit_vsb_at by simp
qed

end
