(* ===== verification/Frame.thy ===== *)
theory Frame
  imports Inode
begin

section \<open>What the operations leave alone\<close>

text \<open>
  The rest of the driver reads blocks, corrects them, journals what it corrected, takes and gives back
  blocks, and keeps the parity of pointer blocks. Each of these touches its own part of the volume: the
  relation \<open>frame\<close> says that a step leaves the layout, the resources, the inodes (but for their dirty mark)
  and every block of the data region as they were, and keeps the allocator consistent. It is shown here
  once for every service, so that the theories of directories, pointer trees and names reason about the
  blocks they write themselves.
\<close>

subsection \<open>The relation\<close>

definition same_inode :: "vinode \<Rightarrow> vinode \<Rightarrow> bool" where
  "same_inode i j \<longleftrightarrow> j\<lparr>i_dirty := False\<rparr> = i\<lparr>i_dirty := False\<rparr>"

lemma same_inodeI [simp, intro]: "same_inode i i" "same_inode i (i\<lparr>i_dirty := d\<rparr>)"
  by (simp_all add: same_inode_def)

lemma same_inode_trans: "same_inode i j \<Longrightarrow> same_inode j k \<Longrightarrow> same_inode i k"
  by (simp add: same_inode_def)

lemma same_inodeD:
  assumes "same_inode i j"
  shows "i_mode j = i_mode i" "i_uid j = i_uid i" "i_gid j = i_gid i" "i_nlink j = i_nlink i" "i_size j = i_size i"
    "i_direct j = i_direct i" "i_indirect j = i_indirect i" "i_dindirect j = i_dindirect i" "i_tindirect j = i_tindirect i"
    "i_flags j = i_flags i" "i_immutable j = i_immutable i" "i_ops j = i_ops i"
    "i_atime j = i_atime i" "i_mtime j = i_mtime i" "i_ctime j = i_ctime i"
  using assms by (cases i; cases j; simp add: same_inode_def)+

text \<open>The fields of the superblock that place the inode table and name the scheme.\<close>

definition sb_kept :: "byte list \<Rightarrow> byte list \<Rightarrow> bool" where
  "sb_kept a b \<longleftrightarrow> length b = length a \<and> (\<forall>j. 24 \<le> j \<and> j < 32 \<or> 40 \<le> j \<and> j < 60 \<or> 2677 \<le> j \<and> j < 2741 \<longrightarrow> b ! j = a ! j)"

lemma sb_kept_refl [simp, intro]: "sb_kept a a"
  by (simp add: sb_kept_def)

lemma sb_kept_trans: "sb_kept a b \<Longrightarrow> sb_kept b c \<Longrightarrow> sb_kept a c"
  by (simp add: sb_kept_def)

lemma sb_keptD:
  assumes "sb_kept a b" "length a = 4096"
  shows "sb_inode_count b = sb_inode_count a" "sb_inode_table_blk b = sb_inode_table_blk a"
    "sb_data_protection_scheme b = sb_data_protection_scheme a"
proof -
  have g: "get_bytes off n b = get_bytes off n a"
    if "24 \<le> off \<and> off + n \<le> 32 \<or> 40 \<le> off \<and> off + n \<le> 60 \<or> 2677 \<le> off \<and> off + n \<le> 2741" for off n
    by (rule nth_equalityI) (use assms that in \<open>auto simp: sb_kept_def nth_get_bytes\<close>)
  show "sb_inode_count b = sb_inode_count a" "sb_inode_table_blk b = sb_inode_table_blk a"
    "sb_data_protection_scheme b = sb_data_protection_scheme a"
    by (simp_all add: sb_inode_count_def sb_inode_table_blk_def sb_data_protection_scheme_def get_le64_def get_le32_def g)
qed

text \<open>The regions a step may write on the side: the error budget and the parity of the pointer blocks.\<close>

definition side_region :: "'a volume_scheme \<Rightarrow> nat set" where
  "side_region v = budget_region v \<union> {s_ind_parity_blk v..<s_ind_parity_blk v + s_ind_parity_len v}"

lemma side_region_cong:
  "s_budget_blk v' = s_budget_blk v \<Longrightarrow> s_budget_len v' = s_budget_len v \<Longrightarrow> s_ind_parity_blk v' = s_ind_parity_blk v
    \<Longrightarrow> s_ind_parity_len v' = s_ind_parity_len v \<Longrightarrow> side_region v' = side_region v"
  by (simp add: side_region_def budget_region_def)

definition frame :: "'a volume_scheme \<Rightarrow> 'a volume_scheme \<Rightarrow> bool" where
  "frame v v' \<longleftrightarrow>
     s_nblocks v' = s_nblocks v \<and> s_data_start v' = s_data_start v \<and> (alloc_inv v \<longrightarrow> alloc_inv v' \<and> sb_kept (s_beamfs_sb v) (s_beamfs_sb v'))
     \<and> s_icached v' = s_icached v \<and> (\<forall>i. same_inode (s_inode v i) (s_inode v' i))
     \<and> s_scratch_ok v' = s_scratch_ok v \<and> s_copy_ok v' = s_copy_ok v \<and> s_getblk_ok v' = s_getblk_ok v
     \<and> s_inode_ok v' = s_inode_ok v \<and> s_rcache_ok v' = s_rcache_ok v \<and> s_clk v' = s_clk v
     \<and> s_scheme v' = s_scheme v \<and> s_feat_incompat v' = s_feat_incompat v
     \<and> s_data_csum v' = s_data_csum v \<and> s_data_selfid v' = s_data_selfid v
     \<and> s_budget_blk v' = s_budget_blk v \<and> s_budget_len v' = s_budget_len v
     \<and> s_ind_parity_blk v' = s_ind_parity_blk v \<and> s_ind_parity_len v' = s_ind_parity_len v
     \<and> s_ind_parity_mode v' = s_ind_parity_mode v
     \<and> (\<forall>b \<ge> s_data_start v. s_blk v' b = s_blk v b) \<and> (s_failed v \<longrightarrow> s_failed v')
     \<and> (\<forall>b. b \<notin> side_region v \<longrightarrow> s_blk v' b = s_blk v b)
     \<and> s_inode_bitmap v' = s_inode_bitmap v \<and> s_ninodes v' = s_ninodes v"

lemma frame_refl [simp, intro]: "frame v v"
  by (simp add: frame_def)

lemma frame_trans [trans]:
  assumes "frame v v'" "frame v' v''"
  shows "frame v v''"
proof -
  have "side_region v' = side_region v" using assms(1) by (intro side_region_cong) (simp_all add: frame_def)
  moreover have "same_inode (s_inode v i) (s_inode v'' i)" for i
    using assms same_inode_trans [of "s_inode v i" "s_inode v' i" "s_inode v'' i"] by (simp add: frame_def)
  moreover have "sb_kept (s_beamfs_sb v) (s_beamfs_sb v'')" if "alloc_inv v"
    using assms that sb_kept_trans [of "s_beamfs_sb v" "s_beamfs_sb v'" "s_beamfs_sb v''"] by (simp add: frame_def)
  ultimately show ?thesis using assms by (simp add: frame_def)
qed

lemma frameD:
  assumes "frame v v'"
  shows "s_nblocks v' = s_nblocks v" "s_data_start v' = s_data_start v" "alloc_inv v \<Longrightarrow> alloc_inv v'"
    "s_icached v' = s_icached v" "same_inode (s_inode v i) (s_inode v' i)" "s_scratch_ok v' = s_scratch_ok v"
    "s_copy_ok v' = s_copy_ok v" "s_getblk_ok v' = s_getblk_ok v" "s_inode_ok v' = s_inode_ok v"
    "s_rcache_ok v' = s_rcache_ok v" "s_clk v' = s_clk v" "s_scheme v' = s_scheme v"
    "s_feat_incompat v' = s_feat_incompat v" "s_data_csum v' = s_data_csum v" "s_data_selfid v' = s_data_selfid v"
    "s_budget_blk v' = s_budget_blk v" "s_budget_len v' = s_budget_len v" "s_ind_parity_blk v' = s_ind_parity_blk v"
    "s_ind_parity_len v' = s_ind_parity_len v" "s_ind_parity_mode v' = s_ind_parity_mode v"
    "s_data_start v \<le> b \<Longrightarrow> s_blk v' b = s_blk v b" "alloc_inv v \<Longrightarrow> sb_kept (s_beamfs_sb v) (s_beamfs_sb v')"
    "s_failed v \<Longrightarrow> s_failed v'" "b \<notin> side_region v \<Longrightarrow> s_blk v' b = s_blk v b"
    "s_inode_bitmap v' = s_inode_bitmap v" "s_ninodes v' = s_ninodes v"
  using assms by (simp_all add: frame_def)

text \<open>The regions below the data, where \<^verbatim>\<open>mkfs\<close> puts both; block numbers fit their 64 bits.\<close>

definition layout_ok :: "'a volume_scheme \<Rightarrow> bool" where
  "layout_ok v \<longleftrightarrow> (\<forall>b \<in> budget_region v. b < s_data_start v)
     \<and> s_ind_parity_blk v + s_ind_parity_len v \<le> s_data_start v
     \<and> s_data_start v + s_nblocks v \<le> 2 ^ 64"

lemma frame_layout: "frame v v' \<Longrightarrow> layout_ok v' = layout_ok v"
  by (simp add: frame_def layout_ok_def budget_region_def)

text \<open>Which blocks are taken does not change either, where the step is not the allocator's.\<close>

definition keeps :: "'a volume_scheme \<Rightarrow> 'a volume_scheme \<Rightarrow> bool" where
  "keeps v v' \<longleftrightarrow> frame v v' \<and> s_block_bitmap v' = s_block_bitmap v"

lemma keeps_refl [simp, intro]: "keeps v v"
  by (simp add: keeps_def)

lemma keeps_trans [trans]: "keeps v v' \<Longrightarrow> keeps v' v'' \<Longrightarrow> keeps v v''"
  unfolding keeps_def by (metis frame_trans)

lemma keeps_frame: "keeps v v' \<Longrightarrow> frame v v'"
  by (simp add: keeps_def)

lemma keeps_allocated: "keeps v v' \<Longrightarrow> beamfs_block_is_allocated v' b = beamfs_block_is_allocated v b"
  by (rule is_allocated_cong) (simp_all add: keeps_def frame_def)

subsection \<open>Journal, budget and reads\<close>

lemma dirty_super_kept:
  assumes "length (s_beamfs_sb v) = 4096"
  shows "sb_kept (s_beamfs_sb v) (s_beamfs_sb (beamfs_dirty_super K v))"
  using dirty_super_sb [OF assms, where K = K] assms by (simp add: sb_kept_def)

lemma log_cases:
  fixes v :: "'a volume_scheme"
  obtains "beamfs_log_rs_event_flagged K now v blk positions n len flags = v"
  | ev fl head where "head < 64" "length ev = 40"
      "beamfs_log_rs_event_flagged K now v blk positions n len flags
         = beamfs_dirty_super K (v\<lparr>s_beamfs_sb := rs_event_sb K (s_beamfs_sb v) ev fl head\<rparr>)"
proof (cases "s_sbh v = None \<or> n > 8 \<or> (n = 0) \<noteq> (positions = None) \<or> len = 0 \<or> len > 239")
  case True
  then have "beamfs_log_rs_event_flagged K now v blk positions n len flags = v"
    unfolding beamfs_log_rs_event_flagged_def by (auto simp only: if_True if_False refl split: if_split)
  then show thesis by (rule that(1))
next
  case False
  let ?fl = "snd (rs_event_policy positions n len) OR (flags AND NOT 3)"
  let ?ev = "beamfs_rs_event K blk now (word_of_nat n) (fst (rs_event_policy positions n len)) ?fl"
  let ?head = "unat (sb_rs_journal_head (s_beamfs_sb v)) mod 64"
  have "beamfs_log_rs_event_flagged K now v blk positions n len flags
      = beamfs_dirty_super K (v\<lparr>s_beamfs_sb := rs_event_sb K (s_beamfs_sb v) ?ev ?fl ?head\<rparr>)"
    using False by (auto simp: beamfs_log_rs_event_flagged_def Let_def rs_event_sb_def
        BEAMFS_RS_EVENT_FLAG_ENTROPY_VALID_def BEAMFS_RS_EVENT_FLAG_UNCORRECTABLE_def split: prod.splits)
  then show thesis by (intro that(2) [of ?head ?ev ?fl]) simp_all
qed

lemma log_sb:
  fixes v :: "'a volume_scheme"
  assumes "length (s_beamfs_sb v) = 4096"
  shows "sb_kept (s_beamfs_sb v) (s_beamfs_sb (beamfs_log_rs_event_flagged K now v blk positions n len flags))
    \<and> get_le64 16 (s_beamfs_sb (beamfs_log_rs_event_flagged K now v blk positions n len flags)) = get_le64 16 (s_beamfs_sb v)"
proof (cases rule: log_cases [of K now v blk positions n len flags])
  case (2 ev fl head)
  let ?f = "rs_event_sb K (s_beamfs_sb v) ev fl head"
  let ?s = "s_beamfs_sb (beamfs_dirty_super K (v\<lparr>s_beamfs_sb := ?f\<rparr>))"
  note sp = rs_event_sb_spec(1,5) [OF assms 2(2,1), where K = K and flags = fl]
  have l: "length ?s = 4096" "\<And>j. j < 4096 \<Longrightarrow> j < 64 \<or> 68 \<le> j \<Longrightarrow> ?s ! j = ?f ! j"
    using dirty_super_sb [where sbi = "v\<lparr>s_beamfs_sb := ?f\<rparr>" and K = K] sp(1) by simp_all
  have nth: "?s ! j = s_beamfs_sb v ! j" if "j < 60 \<or> 2677 \<le> j \<and> j < 4096" for j
    using l(2) [of j] sp(2) [of j] that 2(1) by auto
  have "get_bytes 16 8 ?s = get_bytes 16 8 (s_beamfs_sb v)"
    by (rule nth_equalityI) (use l(1) assms nth in \<open>auto simp: nth_get_bytes\<close>)
  then show ?thesis unfolding 2(3) using l(1) assms nth by (auto simp: sb_kept_def get_le64_def)
qed simp

lemma log_keeps [simp]: "keeps v (beamfs_log_rs_event_flagged K now v blk positions n len flags)"
proof -
  let ?v = "beamfs_log_rs_event_flagged K now v blk positions n len flags"
  have q: "quiet v ?v" by simp
  have "alloc_inv ?v \<and> sb_kept (s_beamfs_sb v) (s_beamfs_sb ?v)" if "alloc_inv v"
    using that log_sb [of v K now blk positions n len flags] quietD(1-4) [OF q]
    by (auto simp: alloc_inv_def sb_free_blocks_def sb_kept_def)
  then show ?thesis using quietD [OF q] by (simp add: keeps_def frame_def)
qed

lemma fail_keeps [simp]: "keeps v (beamfs_fail v)"
  by (simp add: keeps_def frame_def beamfs_fail_def alloc_inv_def)

lemma bread_keeps: "beamfs_bread v b = (r, v') \<Longrightarrow> keeps v v'"
  by (auto simp: beamfs_bread_def split: option.splits)

lemma budget_record_sb [simp]: "s_beamfs_sb (beamfs_budget_record v phys n) = s_beamfs_sb v"
  by (simp add: beamfs_budget_record_def beamfs_alert_margin_def beamfs_alert_def Let_def split: option.split)

lemma budget_keeps: "layout_ok v \<Longrightarrow> keeps v (beamfs_budget_record v phys n)"
proof -
  assume lay: "layout_ok v"
  have q: "quiet v (beamfs_budget_record v phys n)" by simp
  have "s_blk (beamfs_budget_record v phys n) b = s_blk v b" if "s_data_start v \<le> b" for b
    using quiet_blk [OF q, of b] lay that by (metis layout_ok_def leD)
  moreover have "s_blk (beamfs_budget_record v phys n) b = s_blk v b" if "b \<notin> side_region v" for b
    using quiet_blk [OF q, of b] that by (simp add: side_region_def)
  ultimately show ?thesis using quietD [OF q] by (simp add: keeps_def frame_def alloc_inv_def)
qed

lemma keeps_layout: "keeps v v' \<Longrightarrow> layout_ok v' = layout_ok v"
  by (simp add: keeps_def frame_layout)

lemma decode_step_keeps:
  assumes "layout_ok v"
  shows "keeps v (fst (dirent_decode_step K blk results poss i (v, c, bad)))"
  using assms by (simp add: dirent_decode_step_def keeps_trans [OF log_keeps budget_keeps] keeps_layout [OF log_keeps])

lemma decode_fold_keeps:
  "layout_ok v \<Longrightarrow> keeps v (fst (fold (dirent_decode_step K blk results poss) is (v, c, bad)))"
proof (induction "is" arbitrary: v c bad)
  case (Cons i "is")
  obtain w c' bad' where w: "dirent_decode_step K blk results poss i (v, c, bad) = (w, c', bad')" by (metis prod_cases3)
  then have "keeps v w" using decode_step_keeps [OF Cons.prems, of K blk results poss i c bad] by simp
  then show ?case using Cons.IH [of w c' bad'] Cons.prems keeps_layout keeps_trans w by fastforce
qed simp

lemma decode_keeps:
  assumes "beamfs_dirent_decode K v blk b = (r, dst, v')" "layout_ok v"
  shows "keeps v v'"
  using assms decode_fold_keeps [OF assms(2)]
  by (auto simp: beamfs_dirent_decode_def Let_def split: prod.splits if_splits) (metis fst_conv)+

subsection \<open>Parity of pointer blocks\<close>

lemma rcache_keeps [simp]: "keeps v (v\<lparr>s_ind_rcache := c\<rparr>)" "keeps v (v\<lparr>s_verified := f\<rparr>)" "keeps v (v\<lparr>s_ind_parity_gen := g\<rparr>)"
  by (simp_all add: keeps_def frame_def alloc_inv_def)

lemma region_log_keeps: "keeps v (fst (fold (ind_region_log_step K blk results poss) is (v, r)))"
proof (induction "is" arbitrary: v r)
  case (Cons i "is")
  obtain w r' where w: "ind_region_log_step K blk results poss i (v, r) = (w, r')"
    by (cases "ind_region_log_step K blk results poss i (v, r)")
  then have "keeps v w" by (auto simp: ind_region_log_step_def split: if_splits)
  then show ?case using Cons.IH [of w r'] w by (auto intro: keeps_trans)
qed simp

lemma region_read_keeps:
  assumes "ind_region_read K v blk b = (ret, scratch, v')"
  shows "keeps v v'"
proof -
  have "keeps v (w\<lparr>s_ind_rcache := c\<rparr>)" "keeps v w"
    if "fold (ind_region_log_step K blk res poss) is (v, None) = (w, r)" for res poss "is" w r c
    using keeps_trans [OF _ rcache_keeps(1)] region_log_keeps [of v K blk res poss "is" None] that by auto
  then show ?thesis using assms
    by (auto simp: ind_region_read_def Let_def split: prod.splits if_splits)
qed

lemma mark_inode_dirty_keeps [simp]: "keeps v (mark_inode_dirty i v)"
  by (simp add: keeps_def frame_def mark_inode_dirty_def upd_inode_def alloc_inv_def)

text \<open>A block below the data region is nobody's business but its own.\<close>

lemma low_block_keeps: "b < s_data_start v \<Longrightarrow> b \<in> side_region v \<Longrightarrow> keeps v (v\<lparr>s_blk := (s_blk v)(b := x)\<rparr>)"
  by (auto simp: keeps_def frame_def alloc_inv_def)

lemma ind_parity_slot_low: "layout_ok v \<Longrightarrow> ind_parity_slot v phys = Some (rb, off, st) \<Longrightarrow> rb < s_data_start v"
  using ind_parity_slotD(9) by (fastforce simp: layout_ok_def)

lemma ind_parity_slot_side: "ind_parity_slot v phys = Some (rb, off, st) \<Longrightarrow> rb \<in> side_region v"
  using ind_parity_slotD(8,9) by (fastforce simp: side_region_def)

lemma keeps_side: "keeps v v' \<Longrightarrow> side_region v' = side_region v"
  by (rule side_region_cong) (simp_all add: keeps_def frame_def)

lemma ind_parity_update_keeps:
  assumes "layout_ok v"
  shows "keeps v (beamfs_ind_parity_update K v phys inode)"
proof (cases "ind_parity_slot v phys")
  case (Some p)
  then obtain rb off st where sl: "ind_parity_slot v phys = Some (rb, off, st)" by (metis prod_cases3)
  obtain r w where b: "beamfs_bread v rb = (r, w)" by (cases "beamfs_bread v rb")
  have w: "keeps v w" using bread_keeps [OF b] .
  show ?thesis
  proof (cases "r = None \<or> \<not> s_scratch_ok w")
    case True
    then show ?thesis using sl b w ind_parity_slotD(3) [OF sl]
      by (auto simp: beamfs_ind_parity_update_def split: option.split)
  next
    case False
    then obtain pbh where pbh: "r = Some pbh" by auto
    obtain rc scratch u where rd: "ind_region_read K w rb (b_data pbh) = (rc, scratch, u)" by (metis prod_cases3)
    have u: "keeps v u" using keeps_trans [OF w region_read_keeps [OF rd]] .
    have low: "rb < s_data_start u" using ind_parity_slot_low [OF assms sl] frameD(2) [OF keeps_frame [OF u]] by simp
    have side: "rb \<in> side_region u" using ind_parity_slot_side [OF sl] keeps_side [OF u] by simp
    have "keeps u (u\<lparr>s_blk := (s_blk u)(rb := x), s_verified := f, s_ind_parity_gen := g\<rparr>)" for x f g
      using keeps_trans [OF keeps_trans [OF low_block_keeps [OF low side] rcache_keeps(2)] rcache_keeps(3)] by blast
    then have "keeps v (u\<lparr>s_blk := (s_blk u)(rb := x), s_verified := f, s_ind_parity_gen := g\<rparr>)" for x f g
      using keeps_trans [OF u] by blast
    moreover from this have "keeps v (mark_inode_dirty i (u\<lparr>s_blk := (s_blk u)(rb := x), s_verified := f, s_ind_parity_gen := g\<rparr>))"
      for i x f g using keeps_trans mark_inode_dirty_keeps by blast
    ultimately show ?thesis using sl b pbh rd u False ind_parity_slotD(3) [OF sl]
      by (auto simp: beamfs_ind_parity_update_def beamfs_ind_parity_touched_def Let_def split: option.split)
  qed
qed (simp add: beamfs_ind_parity_update_def)

lemma ind_verify_lost_keeps [simp]: "keeps v (ind_verify_lost K phys i v)"
  by (simp add: ind_verify_lost_def)

lemma verify_crc_keeps: "keeps v (fst (fold (ind_verify_crc_step K phys block slot) is (v, r)))"
proof (induction "is" arbitrary: v r)
  case (Cons i "is")
  obtain w r' where w: "ind_verify_crc_step K phys block slot i (v, r) = (w, r')"
    by (cases "ind_verify_crc_step K phys block slot i (v, r)")
  then have "keeps v w" by (auto simp: ind_verify_crc_step_def split: if_splits)
  then show ?case using Cons.IH [of w r'] w by (auto intro: keeps_trans)
qed simp

lemma verify_rs_keeps: "keeps v (fst (snd (fold (ind_verify_rs_step K phys) is (buf, v, r))))"
proof (induction "is" arbitrary: buf v r)
  case (Cons i "is")
  obtain b w r' where w: "ind_verify_rs_step K phys i (buf, v, r) = (b, w, r')" by (metis prod_cases3)
  then have "keeps v w" by (auto simp: ind_verify_rs_step_def Let_def split: if_splits prod.splits)
  then show ?case using Cons.IH [of w b r'] w by (auto intro: keeps_trans)
qed simp

lemma ind_parity_verify_keeps:
  assumes "beamfs_ind_parity_verify K v phys = (ret, v')"
  shows "keeps v v'"
proof (cases "ind_parity_slot v phys")
  case (Some p)
  then obtain rb off st where sl: "ind_parity_slot v phys = Some (rb, off, st)" by (metis prod_cases3)
  obtain r w where b: "beamfs_bread v rb = (r, w)" by (cases "beamfs_bread v rb")
  have w: "keeps v w" using bread_keeps [OF b] .
  show ?thesis
  proof (cases "s_verified v phys \<or> r = None \<or> \<not> s_scratch_ok w")
    case True
    then show ?thesis using sl b w assms
      by (auto simp: beamfs_ind_parity_verify_def split: option.splits if_splits)
  next
    case False
    then obtain pbh where pbh: "r = Some pbh" by auto
    obtain rc scratch u where rd: "ind_region_read K w rb (b_data pbh) = (rc, scratch, u)" by (metis prod_cases3)
    have u: "keeps v u" using keeps_trans [OF w region_read_keeps [OF rd]] .
    have ret: "keeps v x \<and> keeps v (x\<lparr>s_verified := f\<rparr>)"
      if "keeps u x" for x f using u that keeps_trans rcache_keeps(2) by blast
    have "keeps u x" if "fold (ind_verify_crc_step K phys bl slot) is (u, None) = (x, r')" for x r' bl slot "is"
      using verify_crc_keeps [of u K phys bl slot "is" None] that by simp
    moreover have "keeps u x" if "snd (fold (ind_verify_rs_step K phys) is (bb, u, None)) = (x, r')" for x r' bb "is"
      using verify_rs_keeps [of u K phys "is" bb None] that by simp
    ultimately show ?thesis using sl b pbh rd False ret ret [OF keeps_refl] assms w
      by (auto simp: beamfs_ind_parity_verify_def Let_def split: prod.splits if_splits)
  qed
qed (use assms in \<open>simp add: beamfs_ind_parity_verify_def\<close>)

subsection \<open>Taking and giving back a block\<close>

text \<open>The allocator works on its own part of the superblock information: what the volume adds to it is
  not touched.\<close>

lemma fail_more [simp]: "sb_alloc.more (beamfs_fail s) = sb_alloc.more s"
  by (simp add: beamfs_fail_def)

lemma dirty_super_more [simp]: "sb_alloc.more (beamfs_dirty_super K s) = sb_alloc.more s"
  by (simp add: beamfs_dirty_super_def beamfs_dirty_super_now_def Let_def split: option.split)

lemma add_bytes_more [simp]: "sb_alloc.more (inode_add_bytes ow d s) = sb_alloc.more s"
  by (simp add: inode_add_bytes_def split: option.split)

lemma write_bitmap_more [simp]: "sb_alloc.more (snd (beamfs_write_bitmap_block K s b)) = sb_alloc.more s"
  by (simp add: beamfs_write_bitmap_block_def Let_def split: option.split)

lemma only_windows_more:
  assumes "only_windows s t"
  shows "sb_alloc.more t = sb_alloc.more s" "s_inode_bitmap t = s_inode_bitmap s" "s_ninodes t = s_ninodes s"
  using arg_cong [OF assms [unfolded only_windows_def], of sb_alloc.more] arg_cong [OF assms [unfolded only_windows_def], of s_inode_bitmap]
    arg_cong [OF assms [unfolded only_windows_def], of s_ninodes] by simp_all

lemma put_kept: "length a = 4096 \<Longrightarrow> sb_kept a (put_le64 16 x a)"
  by (simp add: sb_kept_def put_le64_def nth_put_bytes)

lemma dirty_kept:
  fixes t :: "'a beamfs_sb_info_scheme"
  assumes "length a = 4096" "s_beamfs_sb t = put_le64 16 x a"
  shows "sb_kept a (s_beamfs_sb (beamfs_dirty_super K t))"
  using dirty_super_sb [where sbi = t and K = K] put_kept [OF assms(1), of x] assms by (simp add: sb_kept_def)

lemma alloc_block_more:
  assumes "length (s_beamfs_sb s) = 4096"
  shows "sb_alloc.more (snd (beamfs_alloc_block K s owner)) = sb_alloc.more s
    \<and> s_inode_bitmap (snd (beamfs_alloc_block K s owner)) = s_inode_bitmap s \<and> s_ninodes (snd (beamfs_alloc_block K s owner)) = s_ninodes s
    \<and> sb_kept (s_beamfs_sb s) (s_beamfs_sb (snd (beamfs_alloc_block K s owner)))"
proof (cases "s_failed s \<or> s_block_bitmap s = None \<or> s_free_blocks s = 0")
  case False
  then obtain bm where bm: "s_block_bitmap s = Some bm" by auto
  obtain b p where p: "alloc_pick s bm owner = (b, p)" by fastforce
  have m: "sb_alloc.more p = sb_alloc.more s" "s_beamfs_sb p = s_beamfs_sb s" "s_inode_bitmap p = s_inode_bitmap s" "s_ninodes p = s_ninodes s"
    using alloc_pick_spec(1) [of s bm owner] only_windows_more only_windows_frame(6) unfolding p by fastforce+
  show ?thesis
  proof (cases "b < s_nblocks p")
    case True
    then show ?thesis using False bm p m
      by (simp add: beamfs_alloc_block_def Let_def case_prod_beta dirty_kept [OF assms] del: beamfs_sb_info.update_convs)
  qed (use False bm p m in \<open>simp add: beamfs_alloc_block_def\<close>)
qed (auto simp: beamfs_alloc_block_def split: option.split)

lemma free_block_more:
  assumes "length (s_beamfs_sb s) = 4096"
  shows "sb_alloc.more (beamfs_free_block K s block owner) = sb_alloc.more s
    \<and> s_inode_bitmap (beamfs_free_block K s block owner) = s_inode_bitmap s \<and> s_ninodes (beamfs_free_block K s block owner) = s_ninodes s
    \<and> sb_kept (s_beamfs_sb s) (s_beamfs_sb (beamfs_free_block K s block owner))"
  by (simp add: beamfs_free_block_def Let_def dirty_kept [OF assms])

lemma more_frame:
  fixes v v' :: "'a volume_scheme"
  assumes "sb_alloc.more v' = sb_alloc.more v" "s_inode_bitmap v' = s_inode_bitmap v" "s_ninodes v' = s_ninodes v"
    "s_nblocks v' = s_nblocks v" "s_data_start v' = s_data_start v"
    "alloc_inv v \<Longrightarrow> alloc_inv v' \<and> sb_kept (s_beamfs_sb v) (s_beamfs_sb v')" "s_failed v \<Longrightarrow> s_failed v'"
  shows "frame v v'"
proof -
  have e: "s_blk v' = s_blk v" "s_getblk_ok v' = s_getblk_ok v" "s_scratch_ok v' = s_scratch_ok v"
    "s_copy_ok v' = s_copy_ok v" "s_rcache_ok v' = s_rcache_ok v" "s_inode_ok v' = s_inode_ok v" "s_clk v' = s_clk v"
    "s_inode v' = s_inode v" "s_icached v' = s_icached v" "s_scheme v' = s_scheme v" "s_feat_incompat v' = s_feat_incompat v"
    "s_data_csum v' = s_data_csum v" "s_data_selfid v' = s_data_selfid v" "s_ind_parity_blk v' = s_ind_parity_blk v"
    "s_ind_parity_len v' = s_ind_parity_len v" "s_ind_parity_mode v' = s_ind_parity_mode v"
    "s_budget_blk v' = s_budget_blk v" "s_budget_len v' = s_budget_len v"
    using assms(1) by (cases v, cases v', simp)+
  then show ?thesis using assms(2-) by (simp add: frame_def)
qed

lemma alloc_block_frame:
  fixes v v' :: "'a volume_scheme"
  assumes "beamfs_alloc_block K v owner = (b, v')" "alloc_inv v"
  shows "frame v v'" "s_blk v' = s_blk v" "b = 0 \<Longrightarrow> v' = v"
    and "b \<noteq> 0 \<Longrightarrow> \<not> beamfs_block_is_allocated v b" "b \<noteq> 0 \<Longrightarrow> s_data_start v \<le> b \<and> b < s_data_start v + s_nblocks v"
    and "beamfs_block_is_allocated v' x \<longleftrightarrow> beamfs_block_is_allocated v x \<or> x = b \<and> b \<noteq> 0"
proof -
  obtain bm where bm: "s_block_bitmap v = Some bm" using assms(2) by (auto simp: alloc_inv_def)
  have len: "length (s_beamfs_sb v) = 4096" and ds: "0 < s_data_start v" using assms(2) by (auto simp: alloc_inv_def)
  note m = alloc_block_more [OF len, of K owner, unfolded assms(1) snd_conv]
  note t = alloc_block_taken(3,6,7) [OF assms(2) _ bm, where owner = owner and K = K, unfolded assms(1) fst_conv snd_conv]
    alloc_block_taken(1) [OF assms(2) _ bm, where owner = owner]
  have inv: "alloc_inv v'" using alloc_block_inv [OF assms(2), of K owner] assms(1) by simp
  have none: "b = 0 \<and> v' = v" if "s_failed v \<or> s_free_blocks v = 0"
    using alloc_block_none [OF assms(2) that, of K owner] assms(1) by simp
  have same: "s_nblocks v' = s_nblocks v" "s_data_start v' = s_data_start v" using none t(2,3) by auto
  show "frame v v'" using more_frame [of v' v] m same inv none by blast
  show "s_blk v' = s_blk v" using m by (cases v, cases v') simp
  show z: "b = 0 \<Longrightarrow> v' = v" using none t(1) ds by fastforce
  note a = alloc_block_allocated [OF assms(2), of K owner, unfolded assms(1) fst_conv snd_conv]
  show "b \<noteq> 0 \<Longrightarrow> \<not> beamfs_block_is_allocated v b" by (rule a(1))
  show "b \<noteq> 0 \<Longrightarrow> s_data_start v \<le> b \<and> b < s_data_start v + s_nblocks v" using none t(1,4) by fastforce
  show "beamfs_block_is_allocated v' x \<longleftrightarrow> beamfs_block_is_allocated v x \<or> x = b \<and> b \<noteq> 0" using z a(2) [of x] by blast
qed

lemma free_block_frame:
  fixes v :: "'a volume_scheme"
  assumes "alloc_inv v"
  shows "frame v (beamfs_free_block K v b owner)" "s_blk (beamfs_free_block K v b owner) = s_blk v"
    and "x \<noteq> b \<Longrightarrow> beamfs_block_is_allocated (beamfs_free_block K v b owner) x = beamfs_block_is_allocated v x"
proof -
  let ?v = "beamfs_free_block K v b owner"
  have len: "length (s_beamfs_sb v) = 4096" using assms(1) by (auto simp: alloc_inv_def)
  note m = free_block_more [OF len, of K b owner]
  have same: "s_nblocks ?v = s_nblocks v \<and> s_data_start ?v = s_data_start v"
  proof (rule free_block_cases [OF assms, of K b owner])
    fix bm k assume f: "\<not> s_failed v" "s_block_bitmap v = Some bm" "k < s_nblocks v" "\<not> bm ! k" "b = s_data_start v + k"
    show ?thesis using free_block_taken(3,4) [OF assms f(1-4), where owner = owner and K = K, folded f(5)] by simp
  qed simp
  moreover have "?v = v" if "s_failed v" using that by (simp add: beamfs_free_block_def)
  ultimately show "frame v ?v" using more_frame [of ?v v] m free_block_inv [OF assms, of K b owner] by metis
  show "s_blk ?v = s_blk v" using m by (cases v, cases ?v) simp
  show "x \<noteq> b \<Longrightarrow> beamfs_block_is_allocated ?v x = beamfs_block_is_allocated v x"
    using free_block_allocated [OF assms, of b K owner x] free_block_other [OF assms, of b K owner] by (metis not_le)
qed

subsection \<open>Steps that write\<close>

text \<open>A step that may change the inodes \<open>D\<close> and the data blocks \<open>B\<close>, whatever it does to the bitmap.\<close>

definition alters :: "ino set \<Rightarrow> nat set \<Rightarrow> 'a volume_scheme \<Rightarrow> 'a volume_scheme \<Rightarrow> bool" where
  "alters D B v v' \<longleftrightarrow>
     s_nblocks v' = s_nblocks v \<and> s_data_start v' = s_data_start v \<and> (alloc_inv v \<longrightarrow> alloc_inv v' \<and> sb_kept (s_beamfs_sb v) (s_beamfs_sb v'))
     \<and> (\<forall>i. i \<notin> D \<longrightarrow> s_icached v' i = s_icached v i \<and> same_inode (s_inode v i) (s_inode v' i))
     \<and> s_scratch_ok v' = s_scratch_ok v \<and> s_copy_ok v' = s_copy_ok v \<and> s_getblk_ok v' = s_getblk_ok v
     \<and> s_inode_ok v' = s_inode_ok v \<and> s_rcache_ok v' = s_rcache_ok v \<and> s_clk v' = s_clk v
     \<and> s_scheme v' = s_scheme v \<and> s_feat_incompat v' = s_feat_incompat v
     \<and> s_data_csum v' = s_data_csum v \<and> s_data_selfid v' = s_data_selfid v
     \<and> s_budget_blk v' = s_budget_blk v \<and> s_budget_len v' = s_budget_len v
     \<and> s_ind_parity_blk v' = s_ind_parity_blk v \<and> s_ind_parity_len v' = s_ind_parity_len v
     \<and> s_ind_parity_mode v' = s_ind_parity_mode v
     \<and> (\<forall>b \<ge> s_data_start v. b \<notin> B \<longrightarrow> s_blk v' b = s_blk v b) \<and> (s_failed v \<longrightarrow> s_failed v')
     \<and> (\<forall>b. b \<notin> B \<union> side_region v \<longrightarrow> s_blk v' b = s_blk v b)
     \<and> s_inode_bitmap v' = s_inode_bitmap v \<and> s_ninodes v' = s_ninodes v"

lemma altersD:
  assumes "alters D B v v'"
  shows "s_nblocks v' = s_nblocks v" "s_data_start v' = s_data_start v" "alloc_inv v \<Longrightarrow> alloc_inv v'"
    "i \<notin> D \<Longrightarrow> s_icached v' i = s_icached v i" "i \<notin> D \<Longrightarrow> same_inode (s_inode v i) (s_inode v' i)" "s_scratch_ok v' = s_scratch_ok v"
    "s_copy_ok v' = s_copy_ok v" "s_getblk_ok v' = s_getblk_ok v" "s_inode_ok v' = s_inode_ok v" "s_clk v' = s_clk v"
    "s_data_start v \<le> b \<Longrightarrow> b \<notin> B \<Longrightarrow> s_blk v' b = s_blk v b"
    "alloc_inv v \<Longrightarrow> sb_kept (s_beamfs_sb v) (s_beamfs_sb v')" "s_failed v \<Longrightarrow> s_failed v'" "b \<notin> B \<Longrightarrow> b \<notin> side_region v \<Longrightarrow> s_blk v' b = s_blk v b"
    "s_inode_bitmap v' = s_inode_bitmap v" "s_ninodes v' = s_ninodes v"
  using assms by (simp_all add: alters_def)

lemma alters_refl [simp, intro]: "alters D B v v"
  by (simp add: alters_def)

lemma alters_mono:
  assumes "alters D B v v'" "D \<subseteq> D'" "B \<subseteq> B'"
  shows "alters D' B' v v'"
proof -
  have "s_icached v' i = s_icached v i \<and> same_inode (s_inode v i) (s_inode v' i)" if "i \<notin> D'" for i
    using altersD(4,5) [OF assms(1), of i] that assms(2) by blast
  moreover have "s_blk v' b = s_blk v b" if "s_data_start v \<le> b" "b \<notin> B'" for b
    using altersD(11) [OF assms(1) that(1)] that assms(3) by blast
  moreover have "s_blk v' b = s_blk v b" if "b \<notin> B' \<union> side_region v" for b
    using altersD(14) [OF assms(1), of b] that assms(3) by blast
  ultimately show ?thesis using assms(1) by (simp add: alters_def)
qed

lemma alters_side: "alters D B v v' \<Longrightarrow> side_region v' = side_region v"
  by (rule side_region_cong) (simp_all add: alters_def)

lemma alters_trans:
  assumes "alters D B v v'" "alters D B v' v''"
  shows "alters D B v v''"
proof -
  note alters_side [OF assms(1)]
  moreover
  have "same_inode (s_inode v i) (s_inode v'' i)" if "i \<notin> D" for i
    by (rule same_inode_trans [OF altersD(5) [OF assms(1) that] altersD(5) [OF assms(2) that]])
  moreover have "sb_kept (s_beamfs_sb v) (s_beamfs_sb v'')" if "alloc_inv v"
    by (rule sb_kept_trans [OF altersD(12) [OF assms(1) that] altersD(12) [OF assms(2) altersD(3) [OF assms(1) that]]])
  ultimately show ?thesis using assms by (simp add: alters_def)
qed

lemma alters_layout: "alters D B v v' \<Longrightarrow> layout_ok v' = layout_ok v"
  by (simp add: alters_def layout_ok_def budget_region_def)

lemma frame_alters: "frame v v' \<Longrightarrow> alters D B v v'"
  by (simp add: alters_def frame_def)

text \<open>The same, giving no block back.\<close>

definition changes :: "ino set \<Rightarrow> nat set \<Rightarrow> 'a volume_scheme \<Rightarrow> 'a volume_scheme \<Rightarrow> bool" where
  "changes D B v v' \<longleftrightarrow> alters D B v v' \<and> (\<forall>b. beamfs_block_is_allocated v b \<longrightarrow> beamfs_block_is_allocated v' b)"

lemma changesD:
  assumes "changes D B v v'"
  shows "s_nblocks v' = s_nblocks v" "s_data_start v' = s_data_start v" "alloc_inv v \<Longrightarrow> alloc_inv v'"
    "i \<notin> D \<Longrightarrow> s_icached v' i = s_icached v i" "i \<notin> D \<Longrightarrow> same_inode (s_inode v i) (s_inode v' i)" "s_scratch_ok v' = s_scratch_ok v"
    "s_getblk_ok v' = s_getblk_ok v" "s_inode_ok v' = s_inode_ok v" "s_clk v' = s_clk v"
    "s_data_start v \<le> b \<Longrightarrow> b \<notin> B \<Longrightarrow> s_blk v' b = s_blk v b"
    "beamfs_block_is_allocated v b \<Longrightarrow> beamfs_block_is_allocated v' b"
    "alloc_inv v \<Longrightarrow> sb_kept (s_beamfs_sb v) (s_beamfs_sb v')" "s_failed v \<Longrightarrow> s_failed v'" "alters D B v v'"
  using assms by (simp_all add: changes_def alters_def)

lemma changes_refl [simp, intro]: "changes D B v v"
  by (simp add: changes_def)

lemma changes_mono:
  "changes D B v v' \<Longrightarrow> D \<subseteq> D' \<Longrightarrow> B \<subseteq> B' \<Longrightarrow> changes D' B' v v'"
  unfolding changes_def using alters_mono by blast

lemma changes_trans: "changes D B v v' \<Longrightarrow> changes D B v' v'' \<Longrightarrow> changes D B v v''"
  unfolding changes_def using alters_trans by blast

lemma changes_layout: "changes D B v v' \<Longrightarrow> layout_ok v' = layout_ok v"
  by (simp add: changes_def alters_def layout_ok_def budget_region_def)

lemma frame_changes: "frame v v' \<Longrightarrow> (\<And>b. beamfs_block_is_allocated v b \<Longrightarrow> beamfs_block_is_allocated v' b) \<Longrightarrow> changes D B v v'"
  by (simp add: changes_def frame_alters)

lemma keeps_changes: "keeps v v' \<Longrightarrow> changes D B v v'"
  by (rule frame_changes) (simp_all add: keeps_frame keeps_allocated)

lemma alloc_block_changes:
  "beamfs_alloc_block K v owner = (b, v') \<Longrightarrow> alloc_inv v \<Longrightarrow> changes D B v (v' :: 'a volume_scheme)"
  by (rule frame_changes) (simp_all add: alloc_block_frame(1,6))

lemma alloc_block_inode:
  fixes v v' :: "'a volume_scheme"
  assumes "beamfs_alloc_block K v owner = (b, v')" "alloc_inv v"
  shows "s_inode v' = s_inode v" "s_inode (beamfs_free_block K v' b owner) = s_inode v"
    and "b \<noteq> 0 \<Longrightarrow> changes {} {} v (beamfs_free_block K v' b owner)"
proof -
  note f = alloc_block_frame [OF assms]
  have l: "length (s_beamfs_sb v) = 4096" and iw: "alloc_inv v'" using assms(2) frameD(3) [OF f(1)] by (simp_all add: alloc_inv_def)
  then have l': "length (s_beamfs_sb v') = 4096" by (simp add: alloc_inv_def)
  show i: "s_inode v' = s_inode v" using alloc_block_more [OF l, of K owner] assms(1) by (cases v, cases v') simp
  show "s_inode (beamfs_free_block K v' b owner) = s_inode v"
    unfolding i [symmetric] using free_block_more [OF l', of K b owner] by (cases v', cases "beamfs_free_block K v' b owner") simp
  show "changes {} {} v (beamfs_free_block K v' b owner)" if "b \<noteq> 0"
    using frame_trans [OF f(1) free_block_frame(1) [OF iw]] f(4,6) free_block_frame(3) [OF iw, of _ b K owner] that
    by (intro frame_changes) metis+
qed

lemma allocated_simps [simp]:
  "beamfs_block_is_allocated (v\<lparr>s_blk := m\<rparr>) b = beamfs_block_is_allocated v b"
  "beamfs_block_is_allocated (v\<lparr>s_inode := g\<rparr>) b = beamfs_block_is_allocated v b"
  by (rule is_allocated_cong; simp)+

lemma write_buffer_changes: "b \<in> B \<Longrightarrow> changes D B v (write_buffer b data v)"
  by (simp add: changes_def alters_def write_buffer_def alloc_inv_def)

lemma set_blk_changes: "b \<in> B \<Longrightarrow> changes D B v (v\<lparr>s_blk := (s_blk v)(b := x)\<rparr>)"
  by (simp add: changes_def alters_def alloc_inv_def)

lemma upd_inode_changes: "i \<in> D \<Longrightarrow> changes D B v (upd_inode i f v)"
  by (simp add: changes_def alters_def upd_inode_def alloc_inv_def)

lemma upd_inode_simps [simp]:
  "s_inode (upd_inode i f v) j = (if j = i then f (s_inode v i) else s_inode v j)" "s_blk (upd_inode i f v) = s_blk v"
  "s_data_start (upd_inode i f v) = s_data_start v" "beamfs_block_is_allocated (upd_inode i f v) b = beamfs_block_is_allocated v b"
  by (simp_all add: upd_inode_def)

lemma write_buffer_simps [simp]:
  "s_inode (write_buffer b data v) = s_inode v" "s_data_start (write_buffer b data v) = s_data_start v"
  "s_blk (write_buffer b data v) x = (if x = b then Some \<lparr>b_data = data, b_uptodate = True, b_dirty = True\<rparr> else s_blk v x)"
  "beamfs_block_is_allocated (write_buffer b data v) x = beamfs_block_is_allocated v x"
  by (simp_all add: write_buffer_def)

subsection \<open>Blocks of pointers\<close>

lemma get_put_ptr:
  assumes "length d = 4096" "i < 512" "j < 512"
  shows "get_le64 (8 * j) (put_le64 (8 * i) x d) = (if j = i then x else get_le64 (8 * j) d)"
proof -
  consider "j = i" | "8 * j + 8 \<le> 8 * i" | "8 * i + 8 \<le> 8 * j" by linarith
  then show ?thesis
  proof cases
    case 1
    then show ?thesis using assms get_put_le(3) [of "8 * i" d x] by simp
  qed (use assms in \<open>simp_all add: get_le64_def put_le64_def get_put_other\<close>)
qed

lemma get_zero_block [simp]: "off + 8 \<le> 4096 \<Longrightarrow> get_le64 off (replicate 4096 0) = 0"
proof -
  assume "off + 8 \<le> 4096"
  then have "get_bytes off 8 (replicate 4096 0) = replicate 8 (0 :: byte)"
    by (intro nth_equalityI) (simp_all add: nth_get_bytes)
  then show ?thesis by (simp add: get_le64_def le_to_cpu_def eval_nat_numeral)
qed

subsection \<open>Inode numbers and windows\<close>

lemma rsv_discard_keeps [simp]: "keeps v (beamfs_rsv_discard v i)"
  by (simp add: keeps_def frame_def beamfs_rsv_discard_def beamfs_rsv_drop_locked_def alloc_inv_def)

text \<open>Taking and giving back an inode number touches nothing but the map of the numbers.\<close>

definition renumbers :: "'a volume_scheme \<Rightarrow> 'a volume_scheme \<Rightarrow> bool" where
  "renumbers v v' \<longleftrightarrow> keeps v (v'\<lparr>s_inode_bitmap := s_inode_bitmap v\<rparr>)"

lemma inums_irrelevant [simp]:
  "alloc_inv (v\<lparr>s_inode_bitmap := x\<rparr>) = alloc_inv v" "layout_ok (v\<lparr>s_inode_bitmap := x\<rparr>) = layout_ok v"
  "side_region (v\<lparr>s_inode_bitmap := x\<rparr>) = side_region v"
  "beamfs_block_is_allocated (v\<lparr>s_inode_bitmap := x\<rparr>) b = beamfs_block_is_allocated v b"
  using is_allocated_cong [of "v\<lparr>s_inode_bitmap := x\<rparr>" v b]
  by (simp_all add: alloc_inv_def layout_ok_def side_region_def budget_region_def)

lemma renumbersD:
  assumes "renumbers v v'"
  shows "s_nblocks v' = s_nblocks v" "s_data_start v' = s_data_start v" "alloc_inv v \<Longrightarrow> alloc_inv v'"
    "s_icached v' = s_icached v" "same_inode (s_inode v i) (s_inode v' i)" "s_inode_ok v' = s_inode_ok v"
    "alloc_inv v \<Longrightarrow> sb_kept (s_beamfs_sb v) (s_beamfs_sb v')" "s_failed v \<Longrightarrow> s_failed v'" "b \<notin> side_region v \<Longrightarrow> s_blk v' b = s_blk v b"
    "s_ninodes v' = s_ninodes v" "beamfs_block_is_allocated v' b = beamfs_block_is_allocated v b" "s_clk v' = s_clk v"
    "side_region v' = side_region v" "layout_ok v' = layout_ok v" "s_data_start v \<le> b \<Longrightarrow> s_blk v' b = s_blk v b"
    "s_scratch_ok v' = s_scratch_ok v" "s_getblk_ok v' = s_getblk_ok v" "s_scheme v' = s_scheme v"
proof -
  note k = assms [unfolded renumbers_def]
  note f = frameD [OF keeps_frame [OF k]]
  show "s_nblocks v' = s_nblocks v" "s_data_start v' = s_data_start v" "s_icached v' = s_icached v" "s_inode_ok v' = s_inode_ok v"
    "s_ninodes v' = s_ninodes v" "s_clk v' = s_clk v" "same_inode (s_inode v i) (s_inode v' i)" "s_failed v \<Longrightarrow> s_failed v'"
    "s_scratch_ok v' = s_scratch_ok v" "s_getblk_ok v' = s_getblk_ok v" "s_scheme v' = s_scheme v"
    using f(1,2,4,9,26,11,5,23,6,8,12) by simp_all
  show "alloc_inv v \<Longrightarrow> alloc_inv v'" "alloc_inv v \<Longrightarrow> sb_kept (s_beamfs_sb v) (s_beamfs_sb v')" using f(3,22) by simp_all
  show "b \<notin> side_region v \<Longrightarrow> s_blk v' b = s_blk v b" "s_data_start v \<le> b \<Longrightarrow> s_blk v' b = s_blk v b" using f(24,21) by simp_all
  show "beamfs_block_is_allocated v' b = beamfs_block_is_allocated v b" using keeps_allocated [OF k, of b] by simp
  show "layout_ok v' = layout_ok v" using frame_layout [OF keeps_frame [OF k]] by simp
  show "side_region v' = side_region v" using keeps_side [OF k] by simp
qed

lemma ino_dirty_renumbers:
  fixes v :: "'a volume_scheme"
  shows "renumbers v (beamfs_dirty_super K (v\<lparr>s_inode_bitmap := x, s_free_inodes := y, s_beamfs_sb := put_le64 32 z (s_beamfs_sb v)\<rparr>))"
    (is "renumbers v ?w")
proof -
  let ?s = "v\<lparr>s_inode_bitmap := x, s_free_inodes := y, s_beamfs_sb := put_le64 32 z (s_beamfs_sb v)\<rparr>"
  have "sb_kept (s_beamfs_sb v) (s_beamfs_sb ?w)" if "length (s_beamfs_sb v) = 4096"
    using dirty_super_sb [where sbi = ?s and K = K] that by (simp add: sb_kept_def put_le64_def nth_put_bytes)
  then have "alloc_inv ?w \<and> sb_kept (s_beamfs_sb v) (s_beamfs_sb ?w)" if "alloc_inv v"
    using that ino_dirty_inv [OF that, where K = K and x = x and y = y and z = z] by (simp add: alloc_inv_def)
  then show ?thesis
    by (simp add: renumbers_def keeps_def frame_def beamfs_dirty_super_def beamfs_dirty_super_now_def beamfs_fail_def Let_def split: option.split)
qed

lemma renumbers_refl [simp]: "renumbers v v"
  by (simp add: renumbers_def)

lemma free_inode_renumbers: "renumbers v (beamfs_free_inode_num K v n)"
  using ino_dirty_renumbers [of v K] by (simp add: beamfs_free_inode_num_def Let_def)

lemma alloc_inode_renumbers: "beamfs_alloc_inode_num K v = (n, v') \<Longrightarrow> renumbers v v'"
  using ino_dirty_renumbers [of v K] by (auto simp: beamfs_alloc_inode_num_def Let_def split: option.splits if_splits)

end
