(* ===== verification/Dirblock.thy ===== *)
theory Dirblock
  imports Dirent
begin

section \<open>The records of one directory block\<close>

text \<open>
  The inner loops of \<^verbatim>\<open>beamfs_add_dirent\<close>, \<^verbatim>\<open>beamfs_del_dirent\<close>, \<^verbatim>\<open>beamfs_dir_is_empty\<close>
  (\<^verbatim>\<open>namei.c\<close>), \<^verbatim>\<open>beamfs_lookup\<close> and \<^verbatim>\<open>beamfs_readdir\<close> (\<^verbatim>\<open>dir.c\<close>): what each does to, or reads from, the
  payload of one block. Each walks the records from the top, which \<^const>\<open>dirent_walk\<close> lists.

  The specification of a block is the list of its live entries in the order of the walk. What is
  proved: filling a free record inserts exactly one entry, removing one deletes exactly it, and no other
  entry changes; a block whose live records carry less than a minimal record of slack (\<open>tidy\<close>) stays
  so, which is why the code's branch that splits a live record is never taken on a volume the driver
  wrote.
\<close>

subsection \<open>Operations\<close>

text \<open>The comparison of an entry with a name, as the three searches make it.\<close>

definition dirent_match :: "byte list \<Rightarrow> byte list \<Rightarrow> nat \<Rightarrow> bool" where
  "dirent_match p name off \<longleftrightarrow>
     d_ino p off \<noteq> 0 \<and> d_name_len p off = length name \<and> get_bytes (off + 12) (length name) p = name"

definition dirent_find :: "byte list \<Rightarrow> byte list \<Rightarrow> nat option" where
  "dirent_find p name = find (dirent_match p name) (dirent_walk p 0)"

text \<open>The search for room: a free record that is large enough, or the tail of a live one. The result is
  the place and the page, the live record shortened in the second case.\<close>

primrec dirent_room :: "byte list \<Rightarrow> nat \<Rightarrow> nat list \<Rightarrow> (nat \<times> byte list) option" where
  "dirent_room p want [] = None"
| "dirent_room p want (off # offs) =
     (let rec = d_rec_len p off;
          used = (if d_ino p off \<noteq> 0 then BEAMFS_DIRENT_LEN (d_name_len p off) else 0)
      in if d_ino p off = 0 \<and> rec \<ge> want then Some (off, p)
         else if d_ino p off \<noteq> 0 \<and> rec - used \<ge> want \<and> beamfs_dirent_place (off + used) want = Some (off + used)
         then Some (off + used, put_le16 (off + 8) (word_of_nat used) p)
         else dirent_room p want offs)"

text \<open>The code at \<^verbatim>\<open>place_it\<close>.\<close>

definition dirent_fill :: "byte list \<Rightarrow> nat \<Rightarrow> nat \<Rightarrow> byte list \<Rightarrow> u64 \<Rightarrow> byte \<Rightarrow> byte list" where
  "dirent_fill p place want name ino file_type =
     (let rec = d_rec_len p place;
          (p, keep) =
            (if rec \<ge> want + BEAMFS_DIRENT_MIN_LEN
             then (put_le16 (place + want + 8) (word_of_nat (rec - want))
                     (put_bytes (place + want) (replicate BEAMFS_DIRENT_HDR_LEN 0) p), want)
             else (p, max rec want));
          p = put_bytes place (replicate BEAMFS_DIRENT_HDR_LEN 0) p;
          p = put_le64 place ino p;
          p = put_le16 (place + 8) (word_of_nat keep) p;
          p = p[place + 10 := word_of_nat (length name)];
          p = p[place + 11 := file_type]
      in put_bytes (place + 12) name p)"

definition dirent_add :: "byte list \<Rightarrow> byte list \<Rightarrow> u64 \<Rightarrow> byte \<Rightarrow> byte list option" where
  "dirent_add p name ino file_type =
     (let want = BEAMFS_DIRENT_LEN (length name)
      in case dirent_room p want (dirent_walk p 0) of
           None \<Rightarrow> None
         | Some (place, p) \<Rightarrow> Some (dirent_fill p place want name ino file_type))"

text \<open>The removal loop, with the offset of the record before in \<open>prev_off\<close>.\<close>

primrec dirent_remove :: "byte list \<Rightarrow> byte list \<Rightarrow> nat option \<Rightarrow> nat list \<Rightarrow> byte list option" where
  "dirent_remove p name prev_off [] = None"
| "dirent_remove p name prev_off (off # offs) =
     (if dirent_match p name off
      then let p = put_le64 off 0 p
           in case prev_off of
                None \<Rightarrow> Some p
              | Some prev \<Rightarrow>
                  if d_ino p prev = 0 \<and> prev div BEAMFS_SUBBLOCK_DATA = off div BEAMFS_SUBBLOCK_DATA
                  then Some (put_le16 (prev + 8) (word_of_nat (d_rec_len p prev + d_rec_len p off)) p)
                  else Some p
      else dirent_remove p name (Some off) offs)"

definition dirent_del :: "byte list \<Rightarrow> byte list \<Rightarrow> byte list option" where
  "dirent_del p name = dirent_remove p name None (dirent_walk p 0)"

definition dirent_is_dot :: "byte list \<Rightarrow> nat \<Rightarrow> bool" where
  "dirent_is_dot p off \<longleftrightarrow>
     d_name_len p off = 1 \<and> p ! (off + 12) = 0x2E
     \<or> d_name_len p off = 2 \<and> p ! (off + 12) = 0x2E \<and> p ! (off + 13) = 0x2E"

definition dirent_block_empty :: "byte list \<Rightarrow> bool" where
  "dirent_block_empty p \<longleftrightarrow> find (\<lambda>off. d_ino p off \<noteq> 0 \<and> \<not> dirent_is_dot p off) (dirent_walk p 0) = None"

text \<open>The page of a new directory block: one free record over the whole payload.\<close>

definition dirent_fresh :: "byte list" where
  "dirent_fresh = put_le16 8 (word_of_nat BEAMFS_DATA_INLINE_BYTES) (replicate BEAMFS_BLOCK_SIZE 0)"

subsection \<open>The live entries\<close>

type_synonym entry = "byte list \<times> u64 \<times> byte"

definition rec_entries :: "byte list \<Rightarrow> nat list \<Rightarrow> entry list" where
  "rec_entries p offs =
     map (\<lambda>off. (d_name p off, d_ino p off, d_file_type p off)) (filter (\<lambda>off. d_ino p off \<noteq> 0) offs)"

definition entries :: "byte list \<Rightarrow> entry list" where
  "entries p = rec_entries p (dirent_walk p 0)"

definition tidy :: "byte list \<Rightarrow> bool" where
  "tidy p \<longleftrightarrow> length p = 4096
     \<and> (\<forall>off \<in> set (dirent_walk p 0). d_ino p off \<noteq> 0 \<longrightarrow>
          d_rec_len p off < BEAMFS_DIRENT_LEN (d_name_len p off) + 16)"

lemma rec_entries_append [simp]: "rec_entries p (xs @ ys) = rec_entries p xs @ rec_entries p ys"
  by (simp add: rec_entries_def)

lemma rec_entries_Nil [simp]: "rec_entries p [] = []"
  by (simp add: rec_entries_def)

lemma rec_entries_Cons:
  "rec_entries p (off # offs) =
     (if d_ino p off \<noteq> 0 then [(d_name p off, d_ino p off, d_file_type p off)] else []) @ rec_entries p offs"
  by (simp add: rec_entries_def)

lemma rec_entries_agree:
  assumes "agree p q a b" "\<And>x. x \<in> set offs \<Longrightarrow> a \<le> x \<and> x + d_rec_len p x \<le> b \<and> beamfs_dirent_valid p x"
  shows "rec_entries q offs = rec_entries p offs"
  using assms(2)
proof (induction offs)
  case (Cons x offs)
  note v = validD(1,2,3) [of p x]
  have x: "a \<le> x" "x + d_rec_len p x \<le> b" "beamfs_dirent_valid p x" using Cons.prems [of x] by auto
  then have "d_ino q x = d_ino p x" "d_file_type q x = d_file_type p x" "d_name q x = d_name p x"
    using agree_header [OF assms(1), of x] agree_name [OF assms(1), of x] v by auto
  then show ?case using Cons by (simp add: rec_entries_Cons)
qed simp

lemma LEN_bounds: "12 + n \<le> BEAMFS_DIRENT_LEN n" "BEAMFS_DIRENT_LEN n \<le> 15 + n" "0 < n \<Longrightarrow> 16 \<le> BEAMFS_DIRENT_LEN n"
  using div_le_mono [of 16 "n + 15" 4] unfolding BEAMFS_DIRENT_LEN_def by auto

lemma tidy_length [simp]: "tidy p \<Longrightarrow> length p = 4096"
  by (simp add: tidy_def)

subsection \<open>Filling a free record\<close>

lemma agree_put:
  "length p = 4096 \<Longrightarrow> k + length x \<le> 4096 \<Longrightarrow> k + length x \<le> a \<or> b \<le> k \<Longrightarrow> agree p (put_bytes k x p) a b"
  by (auto simp: agree_def nth_put_bytes)

lemma agree_trans: "agree p q a b \<Longrightarrow> agree q r a b \<Longrightarrow> agree p r a b"
  by (auto simp: agree_def)

lemma agree_update: "length p = 4096 \<Longrightarrow> k < a \<or> b \<le> k \<Longrightarrow> agree p (p[k := x]) a b"
  by (auto simp: agree_def nth_list_update)

lemma get_update_other: "k < off \<or> off + n \<le> k \<Longrightarrow> get_bytes off n (p[k := x]) = get_bytes off n p"
  by (auto simp: get_bytes_def drop_update_swap take_update_cancel not_less)

text \<open>A header written at an offset, and the free header of a remainder.\<close>

definition put_header :: "nat \<Rightarrow> u64 \<Rightarrow> nat \<Rightarrow> nat \<Rightarrow> byte \<Rightarrow> byte list \<Rightarrow> byte list" where
  "put_header k ino rec nlen ft p =
     (put_le16 (k + 8) (word_of_nat rec) (put_le64 k ino (put_bytes k (replicate 12 0) p)))
       [k + 10 := word_of_nat nlen, k + 11 := ft]"

lemma put_header:
  assumes len: "length p = 4096" and k: "k + 12 \<le> 4096" and r: "rec < 65536" and n: "nlen < 256"
  shows "length (put_header k ino rec nlen ft p) = 4096"
    "c \<le> k \<or> k + 12 \<le> a \<Longrightarrow> agree p (put_header k ino rec nlen ft p) a c"
    "d_ino (put_header k ino rec nlen ft p) k = ino" "d_rec_len (put_header k ino rec nlen ft p) k = rec"
    "d_name_len (put_header k ino rec nlen ft p) k = nlen" "d_file_type (put_header k ino rec nlen ft p) k = ft"
proof -
  let ?x = "put_bytes k (replicate 12 0) p"
  let ?y = "put_le64 k ino ?x"
  let ?z = "put_le16 (k + 8) (word_of_nat rec) ?y"
  have l: "length ?x = 4096" "length ?y = 4096" "length ?z = 4096" using len k by simp_all
  show "length (put_header k ino rec nlen ft p) = 4096" using l by (simp add: put_header_def)
  show "agree p (put_header k ino rec nlen ft p) a c" if "c \<le> k \<or> k + 12 \<le> a"
  proof -
    have "agree p ?x a c" "agree ?x ?y a c" "agree ?y ?z a c"
      using that l len k by (auto simp: put_le64_def put_le16_def intro!: agree_put)
    moreover have "agree ?z (?z[k + 10 := word_of_nat nlen]) a c"
      "agree (?z[k + 10 := word_of_nat nlen]) (put_header k ino rec nlen ft p) a c"
      using that l by (auto simp: put_header_def intro!: agree_update)
    ultimately show ?thesis by (blast intro: agree_trans)
  qed
  have "get_bytes k 8 (put_header k ino rec nlen ft p) = get_bytes k 8 ?z"
    "get_bytes (k + 8) 2 (put_header k ino rec nlen ft p) = get_bytes (k + 8) 2 ?z"
    by (simp_all add: put_header_def get_update_other)
  moreover have "get_bytes k 8 ?z = cpu_to_le 8 ino"
    using l k get_put_same [of k "cpu_to_le 8 ino" ?x] by (simp add: put_le16_def get_put_other) (simp add: put_le64_def)
  moreover have "get_bytes (k + 8) 2 ?z = cpu_to_le 2 (word_of_nat rec :: u16)"
    using l k get_put_same [of "k + 8" "cpu_to_le 2 (word_of_nat rec :: u16)" ?y] by (simp add: put_le16_def)
  ultimately show "d_ino (put_header k ino rec nlen ft p) k = ino" "d_rec_len (put_header k ino rec nlen ft p) k = rec"
    using r by (simp_all add: d_ino_def d_rec_len_def get_le64_def get_le16_def unat_of_nat)
  show "d_name_len (put_header k ino rec nlen ft p) k = nlen" "d_file_type (put_header k ino rec nlen ft p) k = ft"
    using l k n by (simp_all add: d_name_len_def d_file_type_def put_header_def unat_of_nat)
qed

lemma put_free_header:
  assumes "length p = 4096" "k + 12 \<le> 4096"
  shows "put_le16 (k + 8) (word_of_nat rec) (put_bytes k (replicate 12 0) p) = put_header k 0 rec 0 0 p"
proof -
  have z: "cpu_to_le 8 (0 :: u64) = replicate 8 0"
    by (simp add: cpu_to_le_def map_replicate_const)
  show ?thesis
  proof (rule nth_equalityI)
    fix j assume "j < length (put_le16 (k + 8) (word_of_nat rec) (put_bytes k (replicate 12 0) p))"
    then have "j < 4096" using assms by simp
    then show "put_le16 (k + 8) (word_of_nat rec) (put_bytes k (replicate 12 0) p) ! j = put_header k 0 rec 0 0 p ! j"
      using assms by (auto simp: put_header_def put_le16_def put_le64_def z nth_put_bytes nth_list_update)
  qed (use assms in \<open>simp add: put_header_def\<close>)
qed

text \<open>The page after a fill: what is outside the record stays, the header says what was asked, and a
  remainder large enough becomes a free record.\<close>

lemma dirent_fill_spec:
  fixes ino :: u64 and ft :: byte
  assumes len: "length p = 4096" and v: "beamfs_dirent_valid p o'" and want: "want = BEAMFS_DIRENT_LEN (length name)"
    and fits: "want \<le> d_rec_len p o'" and name: "name \<noteq> []" "length name \<le> 255"
  defines "q \<equiv> dirent_fill p o' want name ino ft" and "rec \<equiv> d_rec_len p o'"
  shows "length q = 4096" "agree p q 0 o'" "agree p q (o' + rec) 4096"
    "d_ino q o' = ino" "d_name q o' = name" "d_file_type q o' = ft"
    "d_rec_len q o' = (if rec \<ge> want + 16 then want else rec)" "beamfs_dirent_valid q o'"
    "rec \<ge> want + 16 \<Longrightarrow> d_ino q (o' + want) = 0 \<and> d_rec_len q (o' + want) = rec - want
       \<and> beamfs_dirent_valid q (o' + want)"
proof -
  let ?split = "rec \<ge> want + 16"
  have b: "16 \<le> rec" "o' + rec \<le> 3824" using validD(1,2) [OF v] by (simp_all add: rec_def)
  have w: "12 + length name \<le> want" "16 \<le> want" "want \<le> rec"
    using LEN_bounds [of "length name"] want fits name by (simp_all add: rec_def)
  define keep where "keep = (if ?split then want else rec)"
  define p1 where "p1 = (if ?split then put_header (o' + want) 0 (rec - want) 0 0 p else p)"
  define p2 where "p2 = put_header o' ino keep (length name) ft p1"
  have q: "q = put_bytes (o' + 12) name p2"
    using w b len put_free_header [OF len, of "o' + want" "rec - want"]
    by (simp add: q_def dirent_fill_def p2_def p1_def keep_def rec_def Let_def max_def put_header_def)
  have "o' + want + 12 \<le> 4096" "rec - want < 65536" if ?split using that b by linarith+
  note h1 = put_header [OF len this, where nlen = 0 and ino = 0 and ft = 0, simplified]
  have l1: "length p1 = 4096" using len h1(1) b by (auto simp: p1_def)
  have k: "o' + 12 \<le> 4096" "keep < 65536" "length name < 256" using b w name by (auto simp: keep_def)
  note h2 = put_header [OF l1 k, where ino = ino and ft = ft, folded p2_def]
  have a3: "agree p2 q a c" if "c \<le> o' + 12 \<or> o' + 12 + length name \<le> a" for a c
    using that h2(1) b w unfolding q by (intro agree_put) auto
  show lq: "length q = 4096" using h2(1) b w by (simp add: q)
  have a1: "agree p p1 a c" if "c \<le> o' + want \<or> o' + rec \<le> a" for a c
  proof (cases ?split)
    case True
    moreover from this that have "c \<le> o' + want \<or> o' + want + 12 \<le> a" by linarith
    ultimately show ?thesis using h1(2) by (simp add: p1_def)
  qed (simp add: p1_def agree_def len)
  show "agree p q 0 o'"
    using agree_trans [OF agree_trans [OF a1 h2(2)] a3, of o' 0] by simp
  show "agree p q (o' + rec) 4096"
    using agree_trans [OF agree_trans [OF a1 h2(2)] a3, of 4096 "o' + rec"] w b by simp
  note g = agree_header [OF a3 [of "o' + 12" o'], of o']
  show "d_ino q o' = ino" "d_file_type q o' = ft" using g h2 k by simp_all
  show rl: "d_rec_len q o' = (if ?split then want else rec)" using g h2 k by (simp add: keep_def)
  have nl: "d_name_len q o' = length name" using g h2 k by simp
  show "d_name q o' = name"
    using h2(1) b w nl get_put_same [of "o' + 12" name p2] by (simp add: d_name_def q)
  show "beamfs_dirent_valid q o'"
    using rl nl b w by (auto simp: beamfs_dirent_valid_def Let_def)
  show "d_ino q (o' + want) = 0 \<and> d_rec_len q (o' + want) = rec - want \<and> beamfs_dirent_valid q (o' + want)" if ?split
  proof -
    have "agree p1 q (o' + want) 4096"
      using agree_trans [OF h2(2) a3, of 4096 "o' + want"] w by simp
    note g = agree_header [OF this, of "o' + want"]
    then show ?thesis
      using h1(3-5) that b by (auto simp: p1_def beamfs_dirent_valid_def Let_def)
  qed
qed

text \<open>On a tidy page the search only ever finds a free record.\<close>

lemma dirent_room_tidy:
  assumes "\<forall>off \<in> set offs. d_ino p off \<noteq> 0 \<longrightarrow> d_rec_len p off < BEAMFS_DIRENT_LEN (d_name_len p off) + 16" "16 \<le> want"
  shows "dirent_room p want offs =
    map_option (\<lambda>off. (off, p)) (find (\<lambda>off. d_ino p off = 0 \<and> want \<le> d_rec_len p off) offs)"
  using assms by (induction offs) (auto simp: Let_def)

lemma tidyI:
  assumes "length p = 4096"
    and "\<And>off. off \<in> set (dirent_walk p 0) \<Longrightarrow> d_ino p off \<noteq> 0 \<Longrightarrow>
      d_rec_len p off < BEAMFS_DIRENT_LEN (d_name_len p off) + 16"
  shows "tidy p"
  using assms by (simp add: tidy_def)

lemma tidyD:
  "tidy p \<Longrightarrow> off \<in> set (dirent_walk p 0) \<Longrightarrow> d_ino p off \<noteq> 0 \<Longrightarrow>
   d_rec_len p off < BEAMFS_DIRENT_LEN (d_name_len p off) + 16"
  by (simp add: tidy_def)

lemma d_name_length: "beamfs_dirent_valid p off \<Longrightarrow> length p = 4096 \<Longrightarrow> length (d_name p off) = d_name_len p off"
  using validD(1-3) [of p off] by (simp add: d_name_def)

text \<open>A fill of a record of the walk: the records before and after are untouched.\<close>

lemma dirent_fill_walk:
  fixes ft :: byte
  assumes t: "tidy p" and o: "o' \<in> set (dirent_walk p 0)" and free: "d_ino p o' = 0"
    and fits: "BEAMFS_DIRENT_LEN (length name) \<le> d_rec_len p o'" and name: "name \<noteq> []" "length name \<le> 255"
    and ino: "ino \<noteq> 0"
  defines "q \<equiv> dirent_fill p o' (BEAMFS_DIRENT_LEN (length name)) name ino ft"
  shows "\<exists>xs ys. entries p = xs @ ys \<and> entries q = xs @ (name, ino, ft) # ys" and "tidy q"
proof -
  let ?rec = "d_rec_len p o'" and ?want = "BEAMFS_DIRENT_LEN (length name)"
  have len: "length p = 4096" using t by simp
  have v: "beamfs_dirent_valid p o'" using walk_mem [OF o] by simp
  note f = dirent_fill_spec [OF len v refl fits name, of ino ft, folded q_def]
  have b: "16 \<le> ?rec" "o' + ?rec \<le> 3824" using validD(1,2) [OF v] by simp_all
  obtain pre where pre: "dirent_walk p 0 = pre @ dirent_walk p o'" "dirent_walk q 0 = pre @ dirent_walk q o'"
    "\<And>x. x \<in> set pre \<Longrightarrow> x + d_rec_len p x \<le> o' \<and> beamfs_dirent_valid p x"
    using walk_split [OF o] f(2) by auto
  define suf where "suf = dirent_walk p (o' + ?rec)"
  have suf: "dirent_walk q (o' + ?rec) = suf" using walk_agree_after [OF f(3)] by (simp add: suf_def)
  have wp: "dirent_walk p 0 = pre @ o' # suf" using pre(1) walk_valid [OF v] by (simp add: suf_def)
  define rest where "rest = (if ?want + 16 \<le> ?rec then [o' + ?want] else [])"
  have wq: "dirent_walk q 0 = pre @ o' # rest @ suf"
    using pre(2) f(7) f(9) walk_valid [OF f(8)] walk_valid [of q "o' + ?want"] suf
    by (auto simp: rest_def)
  have mem: "x \<in> set suf \<Longrightarrow> o' + ?rec \<le> x \<and> x + d_rec_len p x \<le> 4096 \<and> beamfs_dirent_valid p x" for x
    using walk_mem [of x p "o' + ?rec"] validD(2) [of p x] by (auto simp: suf_def)
  have e1: "rec_entries q pre = rec_entries p pre"
    by (rule rec_entries_agree [OF f(2)]) (use pre(3) in auto)
  have e2: "rec_entries q suf = rec_entries p suf"
    by (rule rec_entries_agree [OF f(3)]) (use mem in auto)
  have e3: "rec_entries q rest = []" using f(9) by (auto simp: rest_def rec_entries_Cons)
  have "entries p = rec_entries p pre @ rec_entries p suf"
    using free by (simp add: entries_def wp rec_entries_Cons)
  moreover have "entries q = rec_entries p pre @ (name, ino, ft) # rec_entries p suf"
    using ino f(4-6) e1 e2 e3 by (simp add: entries_def wq rec_entries_Cons)
  ultimately show "\<exists>xs ys. entries p = xs @ ys \<and> entries q = xs @ (name, ino, ft) # ys" by blast
  show "tidy q"
  proof (rule tidyI [OF f(1)])
    fix x assume x: "x \<in> set (dirent_walk q 0)" "d_ino q x \<noteq> 0"
    then consider "x \<in> set pre" | "x = o'" | "x \<in> set rest" | "x \<in> set suf" using wq by auto
    then show "d_rec_len q x < BEAMFS_DIRENT_LEN (d_name_len q x) + 16"
    proof cases
      case 1
      then have "agree p q 0 o'" "x + 12 \<le> o'" "o' \<le> 4096" using f(2) pre(3) [OF 1] validD(1) [of p x] b by auto
      then show ?thesis using agree_header [of p q 0 o' x] x tidyD [OF t, of x] 1 wp by simp
    next
      case 2
      then show ?thesis using f(5,7) d_name_length [OF f(8,1)] by auto
    next
      case 3
      then show ?thesis using f(9) x by (auto simp: rest_def split: if_splits)
    next
      case 4
      then show ?thesis
        using agree_header [OF f(3), of x] mem [OF 4] validD(1) [of p x] x tidyD [OF t, of x] wp by simp
    qed
  qed
qed

subsection \<open>What the operations do to the entries\<close>

definition names :: "entry list \<Rightarrow> byte list list" where
  "names es = map fst es"

lemma names_simps [simp]: "names [] = []" "names (e # es) = fst e # names es" "names (xs @ ys) = names xs @ names ys"
  by (simp_all add: names_def)

lemma dirent_match_iff:
  assumes "beamfs_dirent_valid p off" "length p = 4096"
  shows "dirent_match p name off \<longleftrightarrow> d_ino p off \<noteq> 0 \<and> d_name p off = name"
  using d_name_length [OF assms] by (auto simp: dirent_match_def d_name_def)

lemma names_rec_entries:
  assumes "\<And>x. x \<in> set offs \<Longrightarrow> beamfs_dirent_valid p x" "length p = 4096"
  shows "name \<in> set (names (rec_entries p offs)) \<longleftrightarrow> (\<exists>x \<in> set offs. dirent_match p name x)"
  using assms dirent_match_iff [OF _ assms(2)] by (force simp: names_def rec_entries_def)

lemma find_split:
  assumes "find P xs = Some x"
  obtains us vs where "xs = us @ x # vs" "P x" "\<forall>y \<in> set us. \<not> P y"
proof -
  obtain i where i: "i < length xs" "P (xs ! i)" "x = xs ! i" "\<forall>j < i. \<not> P (xs ! j)"
    using assms by (auto simp: find_Some_iff)
  have "xs = take i xs @ x # drop (Suc i) xs" using i by (simp add: id_take_nth_drop)
  moreover have "\<forall>y \<in> set (take i xs). \<not> P y" using i by (auto simp: in_set_conv_nth)
  ultimately show ?thesis using that i by blast
qed

lemma dirent_add_entries:
  assumes t: "tidy p" and name: "name \<noteq> []" "length name \<le> 255" and ino: "ino \<noteq> 0"
    and add: "dirent_add p name ino ft = Some q"
  shows "\<exists>xs ys. entries p = xs @ ys \<and> entries q = xs @ (name, ino, ft) # ys" and "tidy q"
proof -
  let ?want = "BEAMFS_DIRENT_LEN (length name)"
  have w: "16 \<le> ?want" using LEN_bounds(3) name(1) by simp
  have "dirent_room p ?want (dirent_walk p 0) =
      map_option (\<lambda>off. (off, p)) (find (\<lambda>off. d_ino p off = 0 \<and> ?want \<le> d_rec_len p off) (dirent_walk p 0))"
    by (rule dirent_room_tidy) (use t w in \<open>auto simp: tidy_def\<close>)
  then obtain o' where f: "find (\<lambda>off. d_ino p off = 0 \<and> ?want \<le> d_rec_len p off) (dirent_walk p 0) = Some o'"
    and q: "q = dirent_fill p o' ?want name ino ft"
    using add by (auto simp: dirent_add_def Let_def split: option.splits)
  from f have o: "o' \<in> set (dirent_walk p 0)" "d_ino p o' = 0" "?want \<le> d_rec_len p o'"
    by (rule find_split, simp)+
  show "\<exists>xs ys. entries p = xs @ ys \<and> entries q = xs @ (name, ino, ft) # ys" "tidy q"
    unfolding q by (rule dirent_fill_walk [OF t o(1-3) name ino])+
qed

lemma dirent_add_none:
  assumes t: "tidy p" and name: "name \<noteq> []" and add: "dirent_add p name ino ft = None"
    and o: "o' \<in> set (dirent_walk p 0)" "d_ino p o' = 0"
  shows "d_rec_len p o' < BEAMFS_DIRENT_LEN (length name)"
proof -
  let ?want = "BEAMFS_DIRENT_LEN (length name)"
  have w: "16 \<le> ?want" using LEN_bounds(3) name(1) by simp
  have "dirent_room p ?want (dirent_walk p 0) =
      map_option (\<lambda>off. (off, p)) (find (\<lambda>off. d_ino p off = 0 \<and> ?want \<le> d_rec_len p off) (dirent_walk p 0))"
    by (rule dirent_room_tidy) (use t w in \<open>auto simp: tidy_def\<close>)
  then have "find (\<lambda>off. d_ino p off = 0 \<and> ?want \<le> d_rec_len p off) (dirent_walk p 0) = None"
    using add by (auto simp: dirent_add_def Let_def split: option.splits)
  then show ?thesis using o by (auto simp: find_None_iff not_le)
qed

lemma walk_all_valid: "x \<in> set (dirent_walk p off) \<Longrightarrow> beamfs_dirent_valid p x"
  using walk_mem by blast

lemma dirent_find_entries:
  assumes len: "length p = 4096"
  shows "dirent_find p name = None \<Longrightarrow> name \<notin> set (names (entries p))"
    and "dirent_find p name = Some o' \<Longrightarrow> \<exists>xs ys. entries p = xs @ (name, d_ino p o', d_file_type p o') # ys
      \<and> name \<notin> set (names xs) \<and> d_ino p o' \<noteq> 0"
proof -
  have v: "\<And>x. x \<in> set (dirent_walk p 0) \<Longrightarrow> beamfs_dirent_valid p x" by (rule walk_all_valid)
  show "dirent_find p name = None \<Longrightarrow> name \<notin> set (names (entries p))"
    unfolding entries_def dirent_find_def using names_rec_entries [OF v len] by (auto simp: find_None_iff)
  assume "dirent_find p name = Some o'"
  then obtain us vs where w: "dirent_walk p 0 = us @ o' # vs" "dirent_match p name o'" "\<forall>y \<in> set us. \<not> dirent_match p name y"
    unfolding dirent_find_def by (rule find_split)
  have vo: "beamfs_dirent_valid p o'" and vu: "\<And>x. x \<in> set us \<Longrightarrow> beamfs_dirent_valid p x" using v w(1) by auto
  have m: "d_ino p o' \<noteq> 0" "d_name p o' = name" using w(2) dirent_match_iff [OF vo len] by simp_all
  have "name \<notin> set (names (rec_entries p us))" using names_rec_entries [OF vu len] w(3) by blast
  moreover have "entries p = rec_entries p us @ (name, d_ino p o', d_file_type p o') # rec_entries p vs"
    using m by (simp add: entries_def w(1) rec_entries_Cons)
  ultimately show "\<exists>xs ys. entries p = xs @ (name, d_ino p o', d_file_type p o') # ys
      \<and> name \<notin> set (names xs) \<and> d_ino p o' \<noteq> 0" using m by blast
qed

lemma entries_fresh: "entries dirent_fresh = []" "tidy dirent_fresh" "dirent_walk dirent_fresh 0 = [0]"
  "d_ino dirent_fresh 0 = 0" "d_rec_len dirent_fresh 0 = 3824"
proof -
  have len: "length dirent_fresh = 4096" by (simp add: dirent_fresh_def)
  have r: "d_rec_len dirent_fresh 0 = 3824"
    by (simp add: d_rec_len_def dirent_fresh_def unat_of_nat)
  have "get_bytes 0 8 dirent_fresh = replicate 8 0"
    by (simp add: dirent_fresh_def put_le16_def get_put_other) (simp add: get_bytes_def)
  then have i: "d_ino dirent_fresh 0 = 0" by (simp add: d_ino_def get_le64_def le_to_cpu_def numeral_eq_Suc)
  have n: "d_name_len dirent_fresh 0 = 0"
    by (simp add: d_name_len_def dirent_fresh_def put_le16_def nth_put_bytes)
  have v: "beamfs_dirent_valid dirent_fresh 0" using r n by (simp add: beamfs_dirent_valid_def)
  have w: "dirent_walk dirent_fresh 0 = [0]"
    using walk_valid [OF v] r dirent_walk.simps [of dirent_fresh 3824] by simp
  then show "dirent_walk dirent_fresh 0 = [0]" .
  show "entries dirent_fresh = []" "tidy dirent_fresh" "d_ino dirent_fresh 0 = 0" "d_rec_len dirent_fresh 0 = 3824"
    using w i r len by (simp_all add: entries_def rec_entries_Cons tidy_def)
qed

subsection \<open>Removing an entry\<close>

text \<open>The loop stops at the first match; \<open>prev\<close> is the record before it in the walk.\<close>

lemma dirent_remove_split:
  assumes "dirent_remove p name prev offs = Some q"
  obtains us o' vs where "offs = us @ o' # vs" "dirent_match p name o'" "\<forall>y \<in> set us. \<not> dirent_match p name y"
    "q = (let p' = put_le64 o' 0 p in
            case (if us = [] then prev else Some (last us)) of
              None \<Rightarrow> p'
            | Some pr \<Rightarrow> if d_ino p' pr = 0 \<and> pr div 239 = o' div 239
                         then put_le16 (pr + 8) (word_of_nat (d_rec_len p' pr + d_rec_len p' o')) p' else p')"
proof -
  have "\<exists>us o' vs. offs = us @ o' # vs \<and> dirent_match p name o' \<and> (\<forall>y \<in> set us. \<not> dirent_match p name y)
    \<and> q = (let p' = put_le64 o' 0 p in
            case (if us = [] then prev else Some (last us)) of
              None \<Rightarrow> p'
            | Some pr \<Rightarrow> if d_ino p' pr = 0 \<and> pr div 239 = o' div 239
                         then put_le16 (pr + 8) (word_of_nat (d_rec_len p' pr + d_rec_len p' o')) p' else p')"
    using assms
  proof (induction offs arbitrary: prev)
    case (Cons x offs)
    show ?case
    proof (cases "dirent_match p name x")
      case True
      then show ?thesis using Cons.prems
        by (intro exI [of _ "[]"] exI [of _ x] exI [of _ offs]) (auto simp: Let_def split: option.splits if_splits)
    next
      case False
      then have "dirent_remove p name (Some x) offs = Some q" using Cons.prems by simp
      from Cons.IH [OF this] obtain us o' vs where *: "offs = us @ o' # vs" "dirent_match p name o'"
        "\<forall>y \<in> set us. \<not> dirent_match p name y"
        "q = (let p' = put_le64 o' 0 p in
            case (if us = [] then Some x else Some (last us)) of
              None \<Rightarrow> p'
            | Some pr \<Rightarrow> if d_ino p' pr = 0 \<and> pr div 239 = o' div 239
                         then put_le16 (pr + 8) (word_of_nat (d_rec_len p' pr + d_rec_len p' o')) p' else p')"
        by blast
      have "(if x # us = [] then prev else Some (last (x # us))) = (if us = [] then Some x else Some (last us))" by simp
      with * False show ?thesis
        by (intro exI [of _ "x # us"] exI [of _ o'] exI [of _ vs]) (simp only: append_Cons set_simps, simp)
    qed
  qed simp
  then show ?thesis using that by blast
qed

lemma dirent_remove_none:
  "dirent_remove p name prev offs = None \<Longrightarrow> x \<in> set offs \<Longrightarrow> \<not> dirent_match p name x"
  by (induction offs arbitrary: prev) (auto simp: Let_def split: if_splits option.splits)

lemma walk_suffix:
  "dirent_walk p off = us @ x # vs \<Longrightarrow> dirent_walk p x = x # vs"
proof (induction off arbitrary: us rule: walk_induct [of p])
  case (invalid off)
  then show ?case by (simp add: walk_invalid)
next
  case (valid off)
  show ?case
  proof (cases us)
    case Nil
    then show ?thesis using valid(3) walk_valid [OF valid(1)] by auto
  next
    case (Cons u us')
    then have "dirent_walk p (off + d_rec_len p off) = us' @ x # vs" using valid(3) walk_valid [OF valid(1)] by auto
    then show ?thesis by (rule valid(2))
  qed
qed

text \<open>Everything around one record of the walk.\<close>

lemma walk_at:
  assumes w: "dirent_walk p 0 = us @ x # vs"
  shows "beamfs_dirent_valid p x" "vs = dirent_walk p (x + d_rec_len p x)"
    "y \<in> set us \<Longrightarrow> y + d_rec_len p y \<le> x \<and> beamfs_dirent_valid p y"
    "y \<in> set vs \<Longrightarrow> x + d_rec_len p x \<le> y \<and> beamfs_dirent_valid p y"
    "agree p q 0 x \<Longrightarrow> dirent_walk q 0 = us @ dirent_walk q x"
proof -
  have mem: "x \<in> set (dirent_walk p 0)" using w by simp
  then show v: "beamfs_dirent_valid p x" by (rule walk_all_valid)
  show vs: "vs = dirent_walk p (x + d_rec_len p x)" using walk_suffix [OF w] walk_valid [OF v] by simp
  show "y \<in> set vs \<Longrightarrow> x + d_rec_len p x \<le> y \<and> beamfs_dirent_valid p y" using walk_mem vs by blast
  obtain pre where pre: "dirent_walk p 0 = pre @ dirent_walk p x"
    "\<forall>x' \<in> set pre. 0 \<le> x' \<and> x' + d_rec_len p x' \<le> x \<and> beamfs_dirent_valid p x'"
    "\<forall>q. agree p q 0 x \<longrightarrow> dirent_walk q 0 = pre @ dirent_walk q x"
    using walk_split [OF mem] by blast
  then have "pre = us" using w walk_suffix [OF w] by simp
  then show "y \<in> set us \<Longrightarrow> y + d_rec_len p y \<le> x \<and> beamfs_dirent_valid p y"
    "agree p q 0 x \<Longrightarrow> dirent_walk q 0 = us @ dirent_walk q x" using pre by auto
qed

text \<open>Records of \<open>q\<close> that are those of \<open>p\<close> keep their entries and stay tidy.\<close>

lemma records_kept:
  assumes t: "tidy p" and sub: "set offs \<subseteq> set (dirent_walk p 0)" and ag: "agree p q a b"
    and rng: "\<And>x. x \<in> set offs \<Longrightarrow> a \<le> x \<and> x + d_rec_len p x \<le> b"
  shows "rec_entries q offs = rec_entries p offs"
    and "x \<in> set offs \<Longrightarrow> d_ino q x \<noteq> 0 \<Longrightarrow> d_rec_len q x < BEAMFS_DIRENT_LEN (d_name_len q x) + 16"
proof -
  have v: "beamfs_dirent_valid p x" if "x \<in> set offs" for x using that sub walk_all_valid by blast
  show "rec_entries q offs = rec_entries p offs" by (rule rec_entries_agree [OF ag]) (use rng v in auto)
  assume x: "x \<in> set offs" "d_ino q x \<noteq> 0"
  then show "d_rec_len q x < BEAMFS_DIRENT_LEN (d_name_len q x) + 16"
    using agree_header [OF ag, of x] rng [OF x(1)] validD(1,2) [OF v [OF x(1)]] tidyD [OF t, of x] sub by auto
qed

text \<open>Clearing \<^verbatim>\<open>d_ino\<close> leaves the record where it is.\<close>

lemma clear_ino_walk:
  assumes t: "tidy p" and w: "dirent_walk p 0 = us @ x # vs"
  defines "q \<equiv> put_le64 x 0 p"
  shows "agree p q 0 x" "agree p q (x + 8) 4096" "d_ino q x = 0" "d_rec_len q x = d_rec_len p x" "length q = 4096"
    "dirent_walk q 0 = us @ x # vs"
proof -
  have len: "length p = 4096" using t by simp
  note at = walk_at [OF w]
  have b: "16 \<le> d_rec_len p x" "x + d_rec_len p x \<le> 3824" using validD(1,2) [OF at(1)] by simp_all
  show l: "length q = 4096" using len b by (simp add: q_def)
  show a: "agree p q 0 x" "agree p q (x + 8) 4096" using len b by (simp_all add: q_def put_le64_def agree_put)
  show "d_ino q x = 0" using len b by (simp add: d_ino_def q_def)
  have "get_bytes (x + 8) 2 p = get_bytes (x + 8) 2 q" using agree_get [OF a(2)] b by simp
  then show r: "d_rec_len q x = d_rec_len p x" by (simp add: d_rec_len_def get_le16_def)
  moreover have "d_name_len q x = d_name_len p x" using a(2) b by (simp add: d_name_len_def agree_def)
  ultimately have "beamfs_dirent_valid q x" using at(1) by (simp add: beamfs_dirent_valid_def)
  moreover have "dirent_walk q (x + d_rec_len p x) = vs" using walk_agree_after [OF a(2), of "x + d_rec_len p x"] at(2) b by simp
  ultimately show "dirent_walk q 0 = us @ x # vs" using at(5) [OF a(1)] walk_valid [of q x] r by simp
qed

lemma d_rec_len_put:
  "k + 10 \<le> length p \<Longrightarrow> r < 65536 \<Longrightarrow> d_rec_len (put_le16 (k + 8) (word_of_nat r) p) k = r"
  by (simp add: d_rec_len_def unat_of_nat)

lemma del_keep:
  assumes t: "tidy p" and w: "dirent_walk p 0 = us @ x # vs"
  shows "entries (put_le64 x 0 p) = rec_entries p us @ rec_entries p vs" "tidy (put_le64 x 0 p)"
proof -
  let ?q = "put_le64 x 0 p"
  note at = walk_at [OF w] and c = clear_ino_walk [OF t w]
  note u = records_kept [OF t _ c(1), of us] and v = records_kept [OF t _ c(2), of vs]
  have su: "set us \<subseteq> set (dirent_walk p 0)" "\<And>y. y \<in> set us \<Longrightarrow> 0 \<le> y \<and> y + d_rec_len p y \<le> x"
    using w at(3) by auto
  have sv: "set vs \<subseteq> set (dirent_walk p 0)" using w by auto
  have sv2: "x + 8 \<le> y \<and> y + d_rec_len p y \<le> 4096" if "y \<in> set vs" for y
    using at(4) [OF that] validD(1) [OF at(1)] validD(2) [of p y] by auto
  show "entries ?q = rec_entries p us @ rec_entries p vs"
    using u(1) [OF su] v(1) [OF sv sv2] c(3,6) by (simp add: entries_def rec_entries_Cons)
  show "tidy ?q"
    using c(3,5,6) u(2) [OF su] v(2) [OF sv sv2] by (intro tidyI) auto
qed

lemma del_merge:
  assumes t: "tidy p" and w: "dirent_walk p 0 = us @ pr # x # vs" and free: "d_ino p pr = 0"
  defines "q \<equiv> put_le16 (pr + 8) (word_of_nat (d_rec_len p pr + d_rec_len p x)) (put_le64 x 0 p)"
  shows "entries q = rec_entries p us @ rec_entries p vs" "tidy q"
proof -
  let ?p = "put_le64 x 0 p" and ?r = "d_rec_len p pr + d_rec_len p x"
  have w2: "dirent_walk p 0 = (us @ [pr]) @ x # vs" using w by simp
  note ap = walk_at [OF w] and ax = walk_at [OF w2] and c = clear_ino_walk [OF t w2]
  have x: "x = pr + d_rec_len p pr" using ap(2) walk_valid [of p "pr + d_rec_len p pr"] walk_invalid
    by (metis list.distinct(1) list.inject)
  have b: "16 \<le> d_rec_len p pr" "16 \<le> d_rec_len p x" "x + d_rec_len p x \<le> 3824" "12 + d_name_len p pr \<le> d_rec_len p pr"
    using validD(1,2) [OF ax(1)] validD(1,3) [OF ap(1)] by simp_all
  have lq: "length q = 4096" using c(5) b x by (simp add: q_def)
  have a1: "agree ?p q 0 (pr + 8)" and a2: "agree ?p q (pr + 10) 4096"
    using c(5) b x by (simp_all add: q_def put_le16_def agree_put)
  have g1: "agree p q 0 pr" using agree_trans [OF agree_sub [OF c(1)] agree_sub [OF a1]] x b by simp
  have g2: "agree p q (x + d_rec_len p x) 4096"
    using agree_trans [OF agree_sub [OF c(2)] agree_sub [OF a2], of "x + d_rec_len p x" 4096] x b by simp
  have "d_rec_len q pr = ?r" using c(5) b x d_rec_len_put [of pr ?p ?r] by (simp add: q_def)
  moreover have "d_name_len q pr = d_name_len p pr"
    using c(1) a2 x b by (simp add: d_name_len_def agree_def)
  ultimately have v: "beamfs_dirent_valid q pr" and r: "d_rec_len q pr = ?r"
    using b x by (simp_all add: beamfs_dirent_valid_def)
  have "get_bytes pr 8 p = get_bytes pr 8 q"
    using agree_get [OF c(1), of pr 8] agree_get [OF a1, of pr 8] x b by simp
  then have i: "d_ino q pr = 0" using free by (simp add: d_ino_def get_le64_def)
  have wq: "dirent_walk q 0 = us @ pr # vs"
    using ap(5) [OF g1] walk_valid [OF v] r walk_agree_after [OF g2 le_refl] ax(2) x by (simp add: add.assoc)
  have su: "set us \<subseteq> set (dirent_walk p 0)" "\<And>y. y \<in> set us \<Longrightarrow> 0 \<le> y \<and> y + d_rec_len p y \<le> pr"
    using w ap(3) by auto
  have sv: "set vs \<subseteq> set (dirent_walk p 0)" using w by auto
  have sv2: "x + d_rec_len p x \<le> y \<and> y + d_rec_len p y \<le> 4096" if "y \<in> set vs" for y
    using ax(4) [OF that] validD(2) [of p y] by auto
  note u = records_kept [OF t su(1) g1 su(2)] and v' = records_kept [OF t sv g2 sv2]
  show "entries q = rec_entries p us @ rec_entries p vs"
    using u(1) v'(1) i by (simp add: entries_def wq rec_entries_Cons)
  show "tidy q" using lq wq i u(2) v'(2) by (intro tidyI) auto
qed

lemma dirent_del_entries:
  assumes t: "tidy p" and del: "dirent_del p name = Some q"
  shows "\<exists>xs ino ft ys. entries p = xs @ (name, ino, ft) # ys \<and> entries q = xs @ ys \<and> name \<notin> set (names xs)"
    and "tidy q"
proof -
  have len: "length p = 4096" using t by simp
  obtain us o' vs where w: "dirent_walk p 0 = us @ o' # vs" "dirent_match p name o'" "\<forall>y \<in> set us. \<not> dirent_match p name y"
    and q: "q = (let p' = put_le64 o' 0 p in
            case (if us = [] then None else Some (last us)) of
              None \<Rightarrow> p'
            | Some pr \<Rightarrow> if d_ino p' pr = 0 \<and> pr div 239 = o' div 239
                         then put_le16 (pr + 8) (word_of_nat (d_rec_len p' pr + d_rec_len p' o')) p' else p')"
    using del unfolding dirent_del_def by (rule dirent_remove_split)
  note at = walk_at [OF w(1)]
  let ?p = "put_le64 o' 0 p" and ?rec = "d_rec_len p o'"
  note c = clear_ino_walk [OF t w(1)]
  have b: "16 \<le> ?rec" "o' + ?rec \<le> 3824" using validD(1,2) [OF at(1)] by simp_all
  have m: "d_ino p o' \<noteq> 0" "d_name p o' = name" using w(2) dirent_match_iff [OF at(1) len] by simp_all
  have nus: "name \<notin> set (names (rec_entries p us))"
    using names_rec_entries [of us p name] at(3) len w(3) by blast
  have ep: "entries p = rec_entries p us @ (name, d_ino p o', d_file_type p o') # rec_entries p vs"
    using m by (simp add: entries_def w(1) rec_entries_Cons)
  have "entries q = rec_entries p us @ rec_entries p vs \<and> tidy q"
  proof (cases us rule: rev_cases)
    case Nil
    then show ?thesis using del_keep [OF t w(1)] q by simp
  next
    case (snoc us' pr)
    have w2: "dirent_walk p 0 = us' @ pr # o' # vs" using w(1) snoc by simp
    have pr: "pr + d_rec_len p pr \<le> o'" "16 \<le> d_rec_len p pr" using at(3) [of pr] snoc validD(1) [of p pr] by auto
    have h: "d_ino ?p pr = d_ino p pr" "d_rec_len ?p pr = d_rec_len p pr"
      using agree_header(1,2) [OF c(1), of pr] pr b by simp_all
    show ?thesis
    proof (cases "d_ino p pr = 0 \<and> pr div 239 = o' div 239")
      case True
      then have "entries q = rec_entries p us' @ rec_entries p vs \<and> tidy q"
        using del_merge [OF t w2] q h c(4) snoc by (simp add: Let_def)
      then show ?thesis using True snoc by (simp add: rec_entries_Cons)
    next
      case False
      then show ?thesis using del_keep [OF t w(1)] q h snoc by (auto simp: Let_def)
    qed
  qed
  then show "\<exists>xs ino ft ys. entries p = xs @ (name, ino, ft) # ys \<and> entries q = xs @ ys \<and> name \<notin> set (names xs)"
    "tidy q" using ep nus by blast+
qed

end
