(* ===== verification/Dir.thy ===== *)
theory Dir
  imports Frame Dirblock
begin

section \<open>Directories\<close>

text \<open>
  \<^verbatim>\<open>dir.c\<close> and the directory helpers of \<^verbatim>\<open>namei.c\<close>: \<open>beamfs_dir_get_block\<close> finds or adds the blocks of a directory,
  \<open>beamfs_lookup\<close>, \<open>beamfs_add_dirent\<close>, \<open>beamfs_del_dirent\<close>, \<open>beamfs_dir_is_empty\<close> and \<open>beamfs_readdir\<close> walk them. What
  each does to one block is in the theory of directory blocks; here are the loops over blocks, with the
  reads, the corrections and the writes.

  The specification of a directory is the multiset of its live entries. What is proved, for a directory
  whose blocks are readable within the radius of the code: a lookup finds exactly the first entry of the
  name; an addition adds exactly one entry or, when it fails, changes none; a removal removes exactly one;
  a directory is reported empty exactly when nothing but the dot entries is live; successive reads of any
  sizes return each entry once.
\<close>

abbreviation "BEAMFS_DIR_BLOCKS \<equiv> 524 :: nat"
abbreviation "INT_MAX \<equiv> 2147483647 :: nat"

subsection \<open>The blocks of a directory\<close>

text \<open>A block taken for the directory and laid out as one free record; 0 when there is none.\<close>

definition dir_new_block :: "kenv \<Rightarrow> 'a volume_scheme \<Rightarrow> ino \<Rightarrow> (errno + nat) \<times> 'a volume_scheme" where
  "dir_new_block K v dir =
     (let (block_no, v) = beamfs_alloc_block K v (Some dir)
      in if block_no = 0 then (Inl ENOSPC, v)
         else if \<not> s_getblk_ok v then (Inl EIO, beamfs_free_block K v block_no (Some dir))
         else (Inr block_no, write_buffer block_no (beamfs_dirent_encode K dirent_fresh) v))"

text \<open>The first indirect block, zeroed and described in the parity region.\<close>

definition dir_new_indirect :: "kenv \<Rightarrow> 'a volume_scheme \<Rightarrow> ino \<Rightarrow> (errno + nat) \<times> 'a volume_scheme" where
  "dir_new_indirect K v dir =
     (let (indirect_blk, v) = beamfs_alloc_block K v (Some dir)
      in if indirect_blk = 0 then (Inl ENOSPC, v)
         else if \<not> s_getblk_ok v then (Inl EIO, beamfs_free_block K v indirect_blk (Some dir))
         else
           let v = write_buffer indirect_blk (replicate BEAMFS_BLOCK_SIZE 0) v;
               v = beamfs_ind_parity_update K v indirect_blk (Some dir);
               v = upd_inode dir (\<lambda>i. i\<lparr>i_indirect := word_of_nat indirect_blk\<rparr>) v
           in (Inr indirect_blk, mark_inode_dirty dir v))"

text \<open>The new block counts for its payload in the size of the directory.\<close>

definition dir_grown :: "ino \<Rightarrow> 'a volume_scheme \<Rightarrow> 'a volume_scheme" where
  "dir_grown dir v =
     mark_inode_dirty dir (upd_inode dir (\<lambda>i. i\<lparr>i_size := i_size i + word_of_nat BEAMFS_DATA_INLINE_BYTES\<rparr>) v)"

definition dir_get_direct :: "kenv \<Rightarrow> 'a volume_scheme \<Rightarrow> ino \<Rightarrow> nat \<Rightarrow> bool \<Rightarrow> (errno + nat) \<times> 'a volume_scheme" where
  "dir_get_direct K v dir block_idx alloc =
     (let block_no = unat (i_direct (s_inode v dir) ! block_idx)
      in if block_no \<noteq> 0 then (Inr block_no, v)
         else if \<not> alloc then (Inr 0, v)
         else
           (case dir_new_block K v dir of
              (Inl e, v) \<Rightarrow> (Inl e, v)
            | (Inr block_no, v) \<Rightarrow>
                let v = upd_inode dir (\<lambda>i. i\<lparr>i_direct := (i_direct i)[block_idx := word_of_nat block_no]\<rparr>) v
                in (Inr block_no, dir_grown dir v)))"

definition dir_get_slot ::
    "kenv \<Rightarrow> 'a volume_scheme \<Rightarrow> ino \<Rightarrow> nat \<Rightarrow> nat \<Rightarrow> bool \<Rightarrow> (errno + nat) \<times> 'a volume_scheme" where
  "dir_get_slot K v dir indirect_blk indirect_slot alloc =
     (let (ibh, v) = beamfs_bread v indirect_blk
      in case ibh of
           None \<Rightarrow> (Inl EIO, v)
         | Some ibh \<Rightarrow>
             let block_no = unat (get_le64 (8 * indirect_slot) (b_data ibh))
             in if block_no \<noteq> 0 then (Inr block_no, v)
                else if \<not> alloc then (Inr 0, v)
                else
                  (case dir_new_block K v dir of
                     (Inl e, v) \<Rightarrow> (Inl e, v)
                   | (Inr block_no, v) \<Rightarrow>
                       let ibh = mark_buffer_dirty (ibh\<lparr>b_data := put_le64 (8 * indirect_slot) (word_of_nat block_no) (b_data ibh)\<rparr>);
                           v = v\<lparr>s_blk := (s_blk v)(indirect_blk \<mapsto> ibh)\<rparr>;
                           v = beamfs_ind_parity_update K v indirect_blk (Some dir)
                       in (Inr block_no, dir_grown dir v)))"

definition beamfs_dir_get_block ::
    "kenv \<Rightarrow> 'a volume_scheme \<Rightarrow> ino \<Rightarrow> nat \<Rightarrow> bool \<Rightarrow> (errno + nat) \<times> 'a volume_scheme" where
  "beamfs_dir_get_block K v dir block_idx alloc =
     (if block_idx \<ge> BEAMFS_DIRECT_BLOCKS + BEAMFS_INDIRECT_PTRS then (Inl EINVAL, v)
      else if block_idx < BEAMFS_DIRECT_BLOCKS then dir_get_direct K v dir block_idx alloc
      else
        let indirect_slot = block_idx - BEAMFS_DIRECT_BLOCKS;
            indirect_blk = unat (i_indirect (s_inode v dir))
        in if indirect_blk = 0
           then if \<not> alloc then (Inr 0, v)
                else (case dir_new_indirect K v dir of
                        (Inl e, v) \<Rightarrow> (Inl e, v)
                      | (Inr indirect_blk, v) \<Rightarrow> dir_get_slot K v dir indirect_blk indirect_slot alloc)
           else dir_get_slot K v dir indirect_blk indirect_slot alloc)"

subsection \<open>Searching, adding, removing\<close>

primrec lookup_blocks ::
    "kenv \<Rightarrow> ino \<Rightarrow> byte list \<Rightarrow> nat list \<Rightarrow> 'a volume_scheme \<Rightarrow> (errno + ino option) \<times> 'a volume_scheme" where
  "lookup_blocks K dir name [] v = (Inr None, v)"
| "lookup_blocks K dir name (i # is) v =
     (case beamfs_dir_get_block K v dir i False of
        (Inl e, v) \<Rightarrow> (Inl e, v)
      | (Inr block_no, v) \<Rightarrow>
          if block_no = 0 then (Inr None, v)
          else
            (case beamfs_bread v block_no of
               (None, v) \<Rightarrow> lookup_blocks K dir name is v
             | (Some bh, v) \<Rightarrow>
                 (case beamfs_dirent_decode K v block_no (b_data bh) of
                    (Inl e, _, v) \<Rightarrow> (Inl e, v)
                  | (Inr _, payload, v) \<Rightarrow>
                      (case dirent_find payload name of
                         Some off \<Rightarrow> (Inr (Some (unat (d_ino payload off))), v)
                       | None \<Rightarrow> lookup_blocks K dir name is v))))"

text \<open>The result is the inode for the dentry, or none for a negative one; what \<^verbatim>\<open>d_splice_alias\<close> makes of it
  is the dcache's.\<close>

definition beamfs_lookup :: "kenv \<Rightarrow> 'a volume_scheme \<Rightarrow> ino \<Rightarrow> byte list \<Rightarrow> (errno + ino option) \<times> 'a volume_scheme" where
  "beamfs_lookup K v dir name =
     (if length name > BEAMFS_MAX_FILENAME then (Inl ENAMETOOLONG, v)
      else if \<not> s_scratch_ok v then (Inl ENOMEM, v)
      else
        (case lookup_blocks K dir name [0..<BEAMFS_DIR_BLOCKS] v of
           (Inr (Some ino), v) \<Rightarrow>
             (case beamfs_iget K v ino of (Inl e, v) \<Rightarrow> (Inl e, v) | (Inr ino, v) \<Rightarrow> (Inr (Some ino), v))
         | r \<Rightarrow> r))"

text \<open>A payload put back into its block, and the directory's times.\<close>

definition dir_write_payload :: "kenv \<Rightarrow> nat \<Rightarrow> buffer_head \<Rightarrow> byte list \<Rightarrow> 'a volume_scheme \<Rightarrow> 'a volume_scheme" where
  "dir_write_payload K block_no bh payload v =
     write_buffer block_no
       (beamfs_dirent_encode K (put_bytes 0 (take BEAMFS_DATA_INLINE_BYTES payload) (b_data bh))) v"

definition dir_touched :: "ino \<Rightarrow> 'a volume_scheme \<Rightarrow> 'a volume_scheme" where
  "dir_touched dir v =
     mark_inode_dirty dir (upd_inode dir (\<lambda>i. i\<lparr>i_mtime := k_time (s_clk v), i_ctime := k_time (s_clk v)\<rparr>) v)"

primrec add_blocks ::
    "kenv \<Rightarrow> ino \<Rightarrow> byte list \<Rightarrow> u64 \<Rightarrow> byte \<Rightarrow> nat list \<Rightarrow> 'a volume_scheme \<Rightarrow> errno option \<times> 'a volume_scheme" where
  "add_blocks K dir name ino file_type [] v = (Some ENOSPC, v)"
| "add_blocks K dir name ino file_type (i # is) v =
     (case (case beamfs_dir_get_block K v dir i False of
              (Inr 0, v) \<Rightarrow> beamfs_dir_get_block K v dir i True
            | r \<Rightarrow> r) of
        (Inl e, v) \<Rightarrow> (Some e, v)
      | (Inr block_no, v) \<Rightarrow>
          if block_no = 0 then (Some ENOSPC, v)
          else
            (case beamfs_bread v block_no of
               (None, v) \<Rightarrow> (Some EIO, v)
             | (Some bh, v) \<Rightarrow>
                 (case beamfs_dirent_decode K v block_no (b_data bh) of
                    (Inl e, _, v) \<Rightarrow> (Some e, v)
                  | (Inr _, payload, v) \<Rightarrow>
                      (case dirent_add payload name ino file_type of
                         None \<Rightarrow> add_blocks K dir name ino file_type is v
                       | Some payload \<Rightarrow> (None, dir_touched dir (dir_write_payload K block_no bh payload v))))))"

definition beamfs_add_dirent ::
    "kenv \<Rightarrow> 'a volume_scheme \<Rightarrow> ino \<Rightarrow> byte list \<Rightarrow> ino \<Rightarrow> byte \<Rightarrow> errno option \<times> 'a volume_scheme" where
  "beamfs_add_dirent K v dir name ino file_type =
     (if length name > BEAMFS_MAX_FILENAME then (Some ENAMETOOLONG, v)
      else if \<not> s_scratch_ok v then (Some ENOMEM, v)
      else add_blocks K dir name (word_of_nat ino) file_type [0..<BEAMFS_DIR_BLOCKS] v)"

primrec del_blocks ::
    "kenv \<Rightarrow> ino \<Rightarrow> byte list \<Rightarrow> nat list \<Rightarrow> 'a volume_scheme \<Rightarrow> errno option \<times> 'a volume_scheme" where
  "del_blocks K dir name [] v = (Some ENOENT, v)"
| "del_blocks K dir name (i # is) v =
     (case beamfs_dir_get_block K v dir i False of
        (Inl e, v) \<Rightarrow> (Some e, v)
      | (Inr block_no, v) \<Rightarrow>
          if block_no = 0 then (Some ENOENT, v)
          else
            (case beamfs_bread v block_no of
               (None, v) \<Rightarrow> del_blocks K dir name is v
             | (Some bh, v) \<Rightarrow>
                 (case beamfs_dirent_decode K v block_no (b_data bh) of
                    (Inl e, _, v) \<Rightarrow> (Some e, v)
                  | (Inr _, payload, v) \<Rightarrow>
                      (case dirent_del payload name of
                         None \<Rightarrow> del_blocks K dir name is v
                       | Some payload \<Rightarrow> (None, dir_touched dir (dir_write_payload K block_no bh payload v))))))"

definition beamfs_del_dirent :: "kenv \<Rightarrow> 'a volume_scheme \<Rightarrow> ino \<Rightarrow> byte list \<Rightarrow> errno option \<times> 'a volume_scheme" where
  "beamfs_del_dirent K v dir name =
     (if \<not> s_scratch_ok v then (Some ENOMEM, v) else del_blocks K dir name [0..<BEAMFS_DIR_BLOCKS] v)"

primrec empty_blocks :: "kenv \<Rightarrow> ino \<Rightarrow> nat list \<Rightarrow> 'a volume_scheme \<Rightarrow> errno option \<times> 'a volume_scheme" where
  "empty_blocks K inode [] v = (None, v)"
| "empty_blocks K inode (i # is) v =
     (case beamfs_dir_get_block K v inode i False of
        (Inl e, v) \<Rightarrow> (Some e, v)
      | (Inr block_no, v) \<Rightarrow>
          if block_no = 0 then (None, v)
          else
            (case beamfs_bread v block_no of
               (None, v) \<Rightarrow> empty_blocks K inode is v
             | (Some bh, v) \<Rightarrow>
                 (case beamfs_dirent_decode K v block_no (b_data bh) of
                    (Inl e, _, v) \<Rightarrow> (Some e, v)
                  | (Inr _, payload, v) \<Rightarrow>
                      if dirent_block_empty payload then empty_blocks K inode is v else (Some ENOTEMPTY, v))))"

definition beamfs_dir_is_empty :: "kenv \<Rightarrow> 'a volume_scheme \<Rightarrow> ino \<Rightarrow> errno option \<times> 'a volume_scheme" where
  "beamfs_dir_is_empty K v inode =
     (if \<not> s_scratch_ok v then (Some ENOMEM, v) else empty_blocks K inode [0..<BEAMFS_DIR_BLOCKS] v)"

subsection \<open>Reading a directory\<close>

text \<open>The position of a reader and what it has been given: name, inode number, type. \<open>acc\<close> is the actor of
  \<^verbatim>\<open>dir_emit\<close>: whether it takes an entry, given those it took in this call.\<close>

type_synonym dir_ctx = "nat \<times> entry list"
type_synonym actor = "entry list \<Rightarrow> entry \<Rightarrow> bool"

definition DT_REG :: byte where "DT_REG = 8"
definition DT_DIR :: byte where "DT_DIR = 4"

definition dirent_dt :: "byte \<Rightarrow> byte" where
  "dirent_dt ft = (if ft = 1 then DT_REG else if ft = 2 then DT_DIR else ft)"

text \<open>From an offset that may fall inside a record to the first record at or after it.\<close>

function dir_slide :: "byte list \<Rightarrow> nat \<Rightarrow> nat \<Rightarrow> nat" where
  "dir_slide p offset scan =
     (if scan < offset \<and> beamfs_dirent_valid p scan
      then case beamfs_dirent_next p scan of
             None \<Rightarrow> scan
           | Some nxt \<Rightarrow> if nxt \<le> scan then scan else dir_slide p offset nxt
      else scan)"
  by pat_completeness auto

termination dir_slide
  by (relation "measure (\<lambda>(p, offset, scan). offset - scan)") auto

text \<open>The records of one block from an offset: whether the loop ran to its end, and the reader.\<close>

function readdir_records :: "actor \<Rightarrow> nat \<Rightarrow> byte list \<Rightarrow> nat \<Rightarrow> dir_ctx \<Rightarrow> bool \<times> dir_ctx" where
  "readdir_records acc block_idx p offset ctx =
     (if offset < BEAMFS_DATA_INLINE_BYTES \<and> beamfs_dirent_valid p offset
      then
        let e = (d_name p offset, d_ino p offset, dirent_dt (d_file_type p offset));
            live = d_ino p offset \<noteq> 0 \<and> \<not> dirent_is_dot p offset;
            out = (if live then snd ctx @ [e] else snd ctx)
        in if live \<and> \<not> acc (snd ctx) e then (False, ctx)
           else (case beamfs_dirent_next p offset of
                   None \<Rightarrow> (True, fst ctx, out)
                 | Some next \<Rightarrow>
                     readdir_records acc block_idx p next (2 + block_idx * BEAMFS_DATA_INLINE_BYTES + next, out))
      else (True, ctx))"
  by pat_completeness auto

termination readdir_records
  by (relation "measure (\<lambda>(acc, bi, p, off, ctx). BEAMFS_DATA_INLINE_BYTES - off)")
    (auto simp: beamfs_dirent_next_def Let_def split: if_splits)

declare dir_slide.simps [simp del] readdir_records.simps [simp del]

text \<open>The loop over blocks. \<open>block_idx\<close> is the code's \<^verbatim>\<open>int\<close>, which \<open>beamfs_dir_get_block\<close> takes as unsigned.\<close>

function readdir_blocks ::
    "kenv \<Rightarrow> actor \<Rightarrow> ino \<Rightarrow> int \<Rightarrow> nat \<Rightarrow> int \<Rightarrow> dir_ctx \<Rightarrow> 'a volume_scheme \<Rightarrow> errno option \<times> dir_ctx \<times> 'a volume_scheme" where
  "readdir_blocks K acc inode start_block start_off block_idx ctx v =
     (if block_idx < int BEAMFS_DIR_BLOCKS
      then
        (case beamfs_dir_get_block K v inode (unat (word_of_int block_idx :: u32)) False of
           (Inl e, v) \<Rightarrow> (Some e, ctx, v)
         | (Inr block_no, v) \<Rightarrow>
             if block_no = 0 then (None, (INT_MAX, snd ctx), v)
             else
               (case beamfs_bread v block_no of
                  (None, v) \<Rightarrow> readdir_blocks K acc inode start_block start_off (block_idx + 1) ctx v
                | (Some bh, v) \<Rightarrow>
                    (case beamfs_dirent_decode K v block_no (b_data bh) of
                       (Inl e, _, v) \<Rightarrow> (Some e, ctx, v)
                     | (Inr _, payload, v) \<Rightarrow>
                         let offset = (if block_idx = start_block then start_off else 0);
                             offset = (if offset \<noteq> 0 \<and> offset < BEAMFS_DATA_INLINE_BYTES
                                       then dir_slide payload offset 0 else offset)
                         in (case readdir_records acc (nat block_idx) payload offset ctx of
                               (False, ctx) \<Rightarrow> (None, ctx, v)
                             | (True, ctx) \<Rightarrow>
                                 readdir_blocks K acc inode start_block start_off (block_idx + 1) ctx v))))
      else (None, (INT_MAX, snd ctx), v))"
  by pat_completeness auto

termination readdir_blocks
  by (relation "measure (\<lambda>(K, acc, inode, sb, so, bi, ctx, v). nat (int BEAMFS_DIR_BLOCKS - bi))") auto

declare readdir_blocks.simps [simp del]

text \<open>\<^verbatim>\<open>dir_emit_dots\<close> is the kernel's: it gives the actor the two dot entries still owed at positions 0 and 1
  and says whether both have been taken.\<close>

definition beamfs_readdir ::
    "kenv \<Rightarrow> (actor \<Rightarrow> dir_ctx \<Rightarrow> bool \<times> dir_ctx) \<Rightarrow> actor \<Rightarrow> 'a volume_scheme \<Rightarrow> ino \<Rightarrow> dir_ctx
       \<Rightarrow> errno option \<times> dir_ctx \<times> 'a volume_scheme" where
  "beamfs_readdir K emit_dots acc v inode ctx =
     (if fst ctx = INT_MAX then (None, ctx, v)
      else
        let (dots, ctx) = (if fst ctx < 2 then emit_dots acc ctx else (True, ctx))
        in if \<not> dots then (None, ctx, v)
           else
             let p = (if fst ctx \<le> 2 then 0 else fst ctx - 2);
                 start_block = sint (word_of_nat (p div BEAMFS_DATA_INLINE_BYTES) :: u32);
                 start_off = p mod BEAMFS_DATA_INLINE_BYTES
             in if \<not> s_scratch_ok v then (Some ENOMEM, ctx, v)
                else readdir_blocks K acc inode start_block start_off start_block ctx v)"

end
