(* ===== verification/Dir_Correct.thy ===== *)
theory Dir_Correct
  imports Dir
begin

section \<open>Directories keep their entries\<close>

text \<open>
  The specification of a directory is the list of its live entries, block after block. \<open>dir_rep\<close> ties it to a
  volume: the pointers of the inode and of its indirect block give a run of distinct allocated blocks, each
  readable within the radius of the code as a tidy page, and nothing after the run. It is shown that the
  reads change nothing of it, that \<open>beamfs_dir_get_block\<close> extends the run by one fresh block, and that the
  operations do to the entries what their names say.
\<close>

subsection \<open>Pages that agree on the payload\<close>

lemma agree_payload: "length p = 4096 \<Longrightarrow> length q = 4096 \<Longrightarrow> take 3824 p = take 3824 q \<Longrightarrow> agree p q 0 3824"
  unfolding agree_def by (metis nth_take)

lemma walk_agree_payload:
  assumes "agree p q 0 3824"
  shows "dirent_walk p off = dirent_walk q off"
proof (induction off rule: walk_induct [of p])
  case (invalid off)
  have "\<not> beamfs_dirent_valid q off"
  proof
    assume v: "beamfs_dirent_valid q off"
    then have "off + 12 \<le> 3824" using validD(1,2) [OF v] by linarith
    then show False using agree_header(5) [OF assms, of off] v invalid by simp
  qed
  then show ?case using invalid by (simp add: walk_invalid)
next
  case (valid off)
  have "off + 12 \<le> 3824" using validD(1,2) [OF valid(1)] by linarith
  then have h: "beamfs_dirent_valid q off" "d_rec_len q off = d_rec_len p off"
    using agree_header(2,5) [OF assms, of off] valid(1) by simp_all
  then show ?case using valid walk_valid by metis
qed

lemma record_agree:
  assumes "agree p q 0 3824" "beamfs_dirent_valid p off"
  shows "d_ino q off = d_ino p off" "d_rec_len q off = d_rec_len p off" "d_name_len q off = d_name_len p off"
    "d_file_type q off = d_file_type p off" "d_name q off = d_name p off" "dirent_is_dot q off = dirent_is_dot p off"
    "beamfs_dirent_valid q off" "dirent_match q name off = dirent_match p name off"
proof -
  note v = validD(1-3) [OF assms(2)]
  then have o: "off + 12 \<le> 3824" by linarith
  show h: "d_ino q off = d_ino p off" "d_rec_len q off = d_rec_len p off" "d_name_len q off = d_name_len p off"
    "d_file_type q off = d_file_type p off" "beamfs_dirent_valid q off"
    using agree_header [OF assms(1), of off] o assms(2) by simp_all
  show "d_name q off = d_name p off" using agree_name [OF assms(1), of off] v by simp
  have "q ! (off + 12) = p ! (off + 12)" "q ! (off + 13) = p ! (off + 13)"
    using assms(1) v by (simp_all add: agree_def)
  then show "dirent_is_dot q off = dirent_is_dot p off" using h by (simp add: dirent_is_dot_def)
  have "length p = 4096" "length q = 4096" using assms(1) by (simp_all add: agree_def)
  then show "dirent_match q name off = dirent_match p name off"
    using dirent_match_iff [OF assms(2)] dirent_match_iff [OF h(5)] h(1) \<open>d_name q off = d_name p off\<close> by simp
qed

lemma page_agree:
  assumes "agree p q 0 3824"
  shows "entries q = entries p" "tidy q = tidy p" "dirent_block_empty q = dirent_block_empty p"
    "dirent_find q name = dirent_find p name"
proof -
  have w: "dirent_walk q 0 = dirent_walk p 0" using walk_agree_payload [OF assms] by simp
  have v: "beamfs_dirent_valid p x" if "x \<in> set (dirent_walk p 0)" for x using that by (rule walk_all_valid)
  note r = record_agree [OF assms v]
  show "entries q = entries p" unfolding entries_def rec_entries_def w
    using r(1,4,5) by (auto intro!: map_cong filter_cong)
  show "tidy q = tidy p" using assms r(1-3) by (auto simp: tidy_def w agree_def)
  show "dirent_block_empty q = dirent_block_empty p" unfolding dirent_block_empty_def w
    using r(1,6) by (simp cong: find_cong)
  show "dirent_find q name = dirent_find p name" unfolding dirent_find_def w
    using r(8) by (simp cong: find_cong)
qed

subsection \<open>A directory on a volume\<close>

definition dir_ptr :: "'a volume_scheme \<Rightarrow> ino \<Rightarrow> nat \<Rightarrow> nat" where
  "dir_ptr v dir i =
     (if i < 12 then unat (i_direct (s_inode v dir) ! i)
      else if i_indirect (s_inode v dir) = 0 then 0
      else unat (get_le64 (8 * (i - 12)) (b_data (the (s_blk v (unat (i_indirect (s_inode v dir))))))))"

text \<open>A page of the directory: where it is, and what it reads as.\<close>

definition dir_page :: "kenv \<Rightarrow> 'a volume_scheme \<Rightarrow> nat \<Rightarrow> byte list \<Rightarrow> bool" where
  "dir_page K v b p \<longleftrightarrow> b \<noteq> 0 \<and> s_data_start v \<le> b \<and> beamfs_block_is_allocated v b \<and> tidy p
     \<and> (\<exists>bh. s_blk v b = Some bh \<and> dirent_near K p (b_data bh))"

definition dir_ind :: "'a volume_scheme \<Rightarrow> nat \<Rightarrow> bool" where
  "dir_ind v ib \<longleftrightarrow> ib = 0 \<or> s_data_start v \<le> ib \<and> beamfs_block_is_allocated v ib
     \<and> (\<exists>ibh. s_blk v ib = Some ibh \<and> length (b_data ibh) = 4096)"

definition dir_rep :: "kenv \<Rightarrow> 'a volume_scheme \<Rightarrow> ino \<Rightarrow> nat list \<Rightarrow> byte list list \<Rightarrow> bool" where
  "dir_rep K v dir bs ps \<longleftrightarrow>
     length (i_direct (s_inode v dir)) = 12 \<and> length bs \<le> BEAMFS_DIR_BLOCKS \<and> distinct bs
     \<and> list_all2 (dir_page K v) bs ps
     \<and> (\<forall>i < BEAMFS_DIR_BLOCKS. dir_ptr v dir i = (if i < length bs then bs ! i else 0))
     \<and> dir_ind v (unat (i_indirect (s_inode v dir))) \<and> unat (i_indirect (s_inode v dir)) \<notin> set bs"

lemma dir_repD:
  assumes "dir_rep K v dir bs ps"
  shows "length (i_direct (s_inode v dir)) = 12" "length ps = length bs" "length bs \<le> 524" "distinct bs"
    "i < length bs \<Longrightarrow> dir_page K v (bs ! i) (ps ! i)" "i < length bs \<Longrightarrow> dir_ptr v dir i = bs ! i"
    "length bs \<le> i \<Longrightarrow> i < 524 \<Longrightarrow> dir_ptr v dir i = 0"
    "dir_ind v (unat (i_indirect (s_inode v dir)))" "unat (i_indirect (s_inode v dir)) \<notin> set bs"
  using assms by (auto simp: dir_rep_def list_all2_conv_all_nth)

text \<open>What a directory rests on: its inode's pointers, the blocks of the data region, and which are taken.\<close>

definition dir_kept :: "ino \<Rightarrow> nat set \<Rightarrow> 'a volume_scheme \<Rightarrow> 'a volume_scheme \<Rightarrow> bool" where
  "dir_kept dir B v v' \<longleftrightarrow> s_data_start v' = s_data_start v
     \<and> i_direct (s_inode v' dir) = i_direct (s_inode v dir) \<and> i_indirect (s_inode v' dir) = i_indirect (s_inode v dir)
     \<and> (\<forall>b \<in> B. s_data_start v \<le> b \<longrightarrow> s_blk v' b = s_blk v b
          \<and> (beamfs_block_is_allocated v b \<longrightarrow> beamfs_block_is_allocated v' b))"

lemma dir_rep_kept:
  assumes rep: "dir_rep K v dir bs ps" and k: "dir_kept dir (insert (unat (i_indirect (s_inode v dir))) (set bs)) v v'"
  shows "dir_rep K v' dir bs ps"
proof -
  let ?ib = "unat (i_indirect (s_inode v dir))"
  have i: "i_direct (s_inode v' dir) = i_direct (s_inode v dir)" "i_indirect (s_inode v' dir) = i_indirect (s_inode v dir)"
    and ds: "s_data_start v' = s_data_start v"
    and b: "\<And>b. b \<in> insert ?ib (set bs) \<Longrightarrow> s_data_start v \<le> b \<Longrightarrow>
      s_blk v' b = s_blk v b \<and> (beamfs_block_is_allocated v b \<longrightarrow> beamfs_block_is_allocated v' b)"
    using k by (auto simp: dir_kept_def)
  have pg: "dir_page K v' x p" if "x \<in> set bs" "dir_page K v x p" for x p
    using that b [of x] ds by (auto simp: dir_page_def)
  have ind: "?ib = 0 \<or> s_data_start v \<le> ?ib" using dir_repD(8) [OF rep] by (auto simp: dir_ind_def)
  have "dir_ind v' ?ib" using dir_repD(8) [OF rep] b [of ?ib] ds by (auto simp: dir_ind_def)
  moreover have "dir_ptr v' dir j = dir_ptr v dir j" for j
    using i b [of ?ib] ind by (auto simp: dir_ptr_def unat_eq_0)
  moreover have "list_all2 (dir_page K v') bs ps"
    using rep pg by (auto simp: dir_rep_def list_all2_conv_all_nth)
  ultimately show ?thesis using rep i by (simp add: dir_rep_def)
qed

lemma keeps_dir_kept: "keeps v v' \<Longrightarrow> dir_kept dir B v v'"
  using keeps_frame [of v v'] frameD(2) [of v v'] same_inodeD(6,7) [OF frameD(5) [of v v' dir]] frameD(21) [of v v'] keeps_allocated [of v v']
  by (auto simp: dir_kept_def)

lemma dir_rep_keeps: "dir_rep K v dir bs ps \<Longrightarrow> keeps v v' \<Longrightarrow> dir_rep K v' dir bs ps"
  using dir_rep_kept keeps_dir_kept by blast

text \<open>Finding a block changes nothing.\<close>

lemma dir_get_block_read:
  assumes "dir_rep K v dir bs ps" "i < 524"
  shows "beamfs_dir_get_block K v dir i False = (Inr (if i < length bs then bs ! i else 0), v)"
proof -
  have p: "dir_ptr v dir i = (if i < length bs then bs ! i else 0)" using assms by (simp add: dir_rep_def)
  show ?thesis
  proof (cases "i < 12 \<or> i_indirect (s_inode v dir) = 0")
    case True
    then show ?thesis using p assms(2)
      by (auto simp: beamfs_dir_get_block_def dir_get_direct_def dir_ptr_def Let_def split: if_splits)
  next
    case False
    then obtain ibh where "s_blk v (unat (i_indirect (s_inode v dir))) = Some ibh"
      using dir_repD(8) [OF assms(1)] by (auto simp: dir_ind_def unat_eq_0)
    then show ?thesis using p False assms(2)
      by (simp add: beamfs_dir_get_block_def dir_get_slot_def beamfs_bread_def dir_ptr_def Let_def unat_eq_0)
  qed
qed

text \<open>Reading a block of the directory: the page comes back, and the directory is as it was.\<close>

lemma dir_read_page:
  assumes K: "kernel_lib K" and lay: "layout_ok v" and rep: "dir_rep K v dir bs ps" and i: "i < length bs"
  obtains bh n q v' where "bs ! i \<noteq> 0" "beamfs_bread v (bs ! i) = (Some bh, v)" "length (b_data bh) = 4096"
    "beamfs_dirent_decode K v (bs ! i) (b_data bh) = (Inr n, q, v')" "agree (ps ! i) q 0 3824" "tidy q"
    "keeps v v'" "layout_ok v'" "dir_rep K v' dir bs ps"
proof -
  obtain bh where pg: "bs ! i \<noteq> 0" "tidy (ps ! i)" "s_blk v (bs ! i) = Some bh" "dirent_near K (ps ! i) (b_data bh)"
    using dir_repD(5) [OF rep i] by (auto simp: dir_page_def)
  have l: "length (ps ! i) = 4096" "length (b_data bh) = 4096" using pg by (simp_all add: dirent_near_def)
  obtain n q v' where d: "beamfs_dirent_decode K v (bs ! i) (b_data bh) = (Inr n, q, v')" "length q = 4096"
    "take 3824 q = take 3824 (ps ! i)" using dirent_decode_near [OF K pg(4) l(1)] by blast
  have a: "agree (ps ! i) q 0 3824" using agree_payload [OF l(1) d(2)] d(3) by simp
  have k: "keeps v v'" by (rule decode_keeps [OF d(1) lay])
  show thesis using that [of bh n q v'] pg(1,3) l(2) d(1) a page_agree(2) [OF a] pg(2) k
      keeps_layout [OF k] lay dir_rep_keeps [OF rep k] by (simp add: beamfs_bread_def)
qed

subsection \<open>Lookup and emptiness\<close>

definition dir_entries :: "byte list list \<Rightarrow> entry list" where
  "dir_entries ps = concat (map entries ps)"

lemma dir_entries_simps [simp]:
  "dir_entries [] = []" "dir_entries (p # ps) = entries p @ dir_entries ps"
  "dir_entries (ps @ qs) = dir_entries ps @ dir_entries qs"
  by (simp_all add: dir_entries_def)

lemma map_of_notin: "name \<notin> set (names es) \<longleftrightarrow> map_of es name = None"
  by (simp add: names_def map_of_eq_None_iff)

lemma dirent_find_map_of:
  assumes "length p = 4096"
  shows "map_of (entries p) name = map_option (\<lambda>off. (d_ino p off, d_file_type p off)) (dirent_find p name)"
proof (cases "dirent_find p name")
  case None
  then show ?thesis using dirent_find_entries(1) [OF assms None] by (simp add: map_of_notin)
next
  case (Some off)
  then show ?thesis using dirent_find_entries(2) [OF assms Some] by (auto simp: map_of_notin map_add_def)
qed

lemma upt_step: "k < n \<Longrightarrow> [k..<n] = k # [Suc k..<n]"
  by (rule upt_conv_Cons)

lemma lookup_blocks_spec:
  assumes K: "kernel_lib K" and "layout_ok v" "dir_rep K v dir bs ps"
  shows "\<exists>v'. lookup_blocks K dir name [k..<524] v
      = (Inr (map_option (\<lambda>(ino, ft). unat ino) (map_of (dir_entries (drop k ps)) name)), v') \<and> keeps v v'"
  using assms(2-)
proof (induction "524 - k" arbitrary: k v)
  case 0
  then show ?case using dir_repD(2,3) [OF 0(3)] by simp
next
  case (Suc n)
  then have k: "k < 524" and n: "n = 524 - Suc k" by simp_all
  note lp = dir_repD(2,3) [OF Suc.prems(2)] and g = dir_get_block_read [OF Suc.prems(2) k]
  show ?case
  proof (cases "k < length bs")
    case True
    obtain bh m q w where r: "bs ! k \<noteq> 0" "beamfs_bread v (bs ! k) = (Some bh, v)"
      "beamfs_dirent_decode K v (bs ! k) (b_data bh) = (Inr m, q, w)" "agree (ps ! k) q 0 3824" "tidy q"
      "keeps v w" "layout_ok w" "dir_rep K w dir bs ps"
      using dir_read_page [OF K Suc.prems True] by metis
    obtain v' where v': "lookup_blocks K dir name [Suc k..<524] w
        = (Inr (map_option (\<lambda>(ino, ft). unat ino) (map_of (dir_entries (drop (Suc k) ps)) name)), v')" "keeps w v'"
      using Suc.hyps(1) [OF n r(7,8)] by blast
    have d: "drop k ps = ps ! k # drop (Suc k) ps" using True lp by (simp add: Cons_nth_drop_Suc)
    show ?thesis using True g r v' keeps_trans [OF r(6) v'(2)] page_agree(1) [OF r(4)]
        dirent_find_map_of [OF tidy_length [OF r(5)], of name] d
      by (cases "dirent_find q name") (simp_all add: upt_step [OF k] map_add_def del: upt_Suc)
  next
    case False
    then show ?thesis using g lp by (simp add: upt_step [OF k] del: upt_Suc)
  qed
qed

lemma dot_name:
  assumes "beamfs_dirent_valid p x" "length p = 4096"
  shows "dirent_is_dot p x \<longleftrightarrow> d_name p x \<in> {[0x2E], [0x2E, 0x2E]}"
proof -
  have l: "x + 12 + d_name_len p x \<le> 4096" using validD(1-3) [OF assms(1)] by linarith
  have "d_name p x = [0x2E] \<longleftrightarrow> d_name_len p x = 1 \<and> p ! (x + 12) = 0x2E"
    using d_name_length [OF assms] l assms nth_get_bytes [of "x + 12" "d_name_len p x" p 0]
    by (auto simp: d_name_def list_eq_iff_nth_eq)
  moreover have "d_name p x = [0x2E, 0x2E] \<longleftrightarrow> d_name_len p x = 2 \<and> p ! (x + 12) = 0x2E \<and> p ! (x + 13) = 0x2E"
    using d_name_length [OF assms] l assms nth_get_bytes [of "x + 12" "d_name_len p x" p 0]
      nth_get_bytes [of "x + 12" "d_name_len p x" p 1]
    by (auto simp: d_name_def list_eq_iff_nth_eq less_Suc_eq numeral_2_eq_2 add.commute)
  ultimately show ?thesis by (simp add: dirent_is_dot_def)
qed

lemma dirent_block_empty_entries:
  assumes "length p = 4096"
  shows "dirent_block_empty p \<longleftrightarrow> set (names (entries p)) \<subseteq> {[0x2E], [0x2E, 0x2E]}"
  using dot_name [OF walk_all_valid assms]
  by (force simp: dirent_block_empty_def find_None_iff names_def entries_def rec_entries_def)

definition only_dots :: "entry list \<Rightarrow> bool" where
  "only_dots es \<longleftrightarrow> set (names es) \<subseteq> {[0x2E], [0x2E, 0x2E]}"

lemma empty_blocks_spec:
  assumes K: "kernel_lib K" and "layout_ok v" "dir_rep K v dir bs ps"
  shows "\<exists>v'. empty_blocks K dir [k..<524] v
      = (if only_dots (dir_entries (drop k ps)) then None else Some ENOTEMPTY, v') \<and> keeps v v'"
  using assms(2-)
proof (induction "524 - k" arbitrary: k v)
  case 0
  then show ?case using dir_repD(2,3) [OF 0(3)] by (simp add: only_dots_def)
next
  case (Suc n)
  then have k: "k < 524" and n: "n = 524 - Suc k" by simp_all
  note lp = dir_repD(2,3) [OF Suc.prems(2)] and g = dir_get_block_read [OF Suc.prems(2) k]
  show ?case
  proof (cases "k < length bs")
    case True
    obtain bh m q w where r: "bs ! k \<noteq> 0" "beamfs_bread v (bs ! k) = (Some bh, v)"
      "beamfs_dirent_decode K v (bs ! k) (b_data bh) = (Inr m, q, w)" "agree (ps ! k) q 0 3824" "tidy q"
      "keeps v w" "layout_ok w" "dir_rep K w dir bs ps"
      using dir_read_page [OF K Suc.prems True] by metis
    obtain v' where v': "empty_blocks K dir [Suc k..<524] w
        = (if only_dots (dir_entries (drop (Suc k) ps)) then None else Some ENOTEMPTY, v')" "keeps w v'"
      using Suc.hyps(1) [OF n r(7,8)] by blast
    have d: "drop k ps = ps ! k # drop (Suc k) ps" using True lp by (simp add: Cons_nth_drop_Suc)
    show ?thesis using True g r v' keeps_trans [OF r(6) v'(2)] page_agree(1) [OF r(4)]
        dirent_block_empty_entries [OF tidy_length [OF r(5)]] d
      by (auto simp: upt_step [OF k] only_dots_def simp del: upt_Suc)
  next
    case False
    then show ?thesis using g lp by (simp add: upt_step [OF k] only_dots_def del: upt_Suc)
  qed
qed

subsection \<open>Writing a page\<close>

lemma dir_rep_write:
  assumes K: "kernel_lib K" and rep: "dir_rep K v dir bs ps" and i: "i < length bs" and bh: "length (b_data bh) = 4096"
    and q: "tidy q"
  obtains r where "agree q r 0 3824" "dir_rep K (dir_touched dir (dir_write_payload K (bs ! i) bh q v)) dir bs (ps[i := r])"
    "changes {dir} (set bs) v (dir_touched dir (dir_write_payload K (bs ! i) bh q v))"
proof -
  let ?w = "dir_write_payload K (bs ! i) bh q v"
  let ?v = "dir_touched dir ?w"
  define r where "r = put_bytes 0 (take 3824 q) (b_data bh)"
  have l: "length q = 4096" using q by simp
  have r: "length r = 4096" "agree q r 0 3824"
    using l bh by (auto simp: r_def agree_def nth_put_bytes)
  have near: "dirent_near K r (beamfs_dirent_encode K r)" by (intro dirent_image_near dirent_encode_image K r(1))
  have tr: "tidy r" using page_agree(2) [OF r(2)] q by simp
  have vi: "i_direct (s_inode ?v dir) = i_direct (s_inode v dir)" "i_indirect (s_inode ?v dir) = i_indirect (s_inode v dir)"
    by (simp_all add: dir_touched_def dir_write_payload_def mark_inode_dirty_def)
  have ds: "s_data_start ?v = s_data_start v" and al: "\<And>x. beamfs_block_is_allocated ?v x = beamfs_block_is_allocated v x"
    by (simp_all add: dir_touched_def dir_write_payload_def mark_inode_dirty_def)
  have blk: "s_blk ?v x = (if x = bs ! i then Some \<lparr>b_data = beamfs_dirent_encode K r, b_uptodate = True, b_dirty = True\<rparr> else s_blk v x)" for x
    by (simp add: dir_touched_def dir_write_payload_def mark_inode_dirty_def r_def)
  have nib: "unat (i_indirect (s_inode v dir)) \<noteq> bs ! i" using dir_repD(9) [OF rep] i by (metis nth_mem)
  have "list_all2 (dir_page K ?v) bs (ps[i := r])"
    unfolding list_all2_conv_all_nth
  proof (intro conjI allI impI)
    fix j assume j: "j < length bs"
    then have "bs ! j = bs ! i \<longleftrightarrow> j = i" using dir_repD(4) [OF rep] i by (simp add: nth_eq_iff_index_eq)
    then show "dir_page K ?v (bs ! j) (ps[i := r] ! j)"
      using dir_repD(5) [OF rep j] dir_repD(2) [OF rep] j near tr by (cases "j = i") (auto simp: dir_page_def ds al blk)
  qed (use dir_repD(2) [OF rep] in simp)
  moreover have "dir_ptr ?v dir j = dir_ptr v dir j" for j using nib by (simp add: dir_ptr_def vi blk)
  moreover have "dir_ind ?v (unat (i_indirect (s_inode v dir)))" using dir_repD(8) [OF rep] nib by (auto simp: dir_ind_def ds al blk)
  ultimately have "dir_rep K ?v dir bs (ps[i := r])" using rep vi by (simp add: dir_rep_def)
  moreover have "changes {dir} (set bs) v ?v"
    unfolding dir_touched_def mark_inode_dirty_def dir_write_payload_def
    by (rule changes_trans [OF changes_trans [OF write_buffer_changes upd_inode_changes] upd_inode_changes]) (use i in simp_all)
  ultimately show thesis using that r(2) by blast
qed

subsection \<open>Removing\<close>

lemma dirent_del_none:
  assumes "tidy p"
  shows "dirent_del p name = None \<longleftrightarrow> name \<notin> set (names (entries p))"
proof -
  have v: "\<And>x. x \<in> set (dirent_walk p 0) \<Longrightarrow> beamfs_dirent_valid p x" by (rule walk_all_valid)
  have "dirent_remove p name prev offs = None \<longleftrightarrow> (\<forall>x \<in> set offs. \<not> dirent_match p name x)" for prev offs
    by (induction offs arbitrary: prev) (auto simp: Let_def split: option.split)
  then show ?thesis using names_rec_entries [OF v, where name = name] assms by (simp add: dirent_del_def entries_def)
qed

text \<open>One entry taken out of a list: the first of its name.\<close>

definition removes_first :: "byte list \<Rightarrow> entry list \<Rightarrow> entry list \<Rightarrow> bool" where
  "removes_first name es es' \<longleftrightarrow> (\<exists>xs ino ft ys. es = xs @ (name, ino, ft) # ys \<and> es' = xs @ ys \<and> name \<notin> set (names xs))"

lemma removes_first_append:
  "removes_first name es es' \<Longrightarrow> removes_first name (es @ zs) (es' @ zs)"
  "removes_first name es es' \<Longrightarrow> name \<notin> set (names zs) \<Longrightarrow> removes_first name (zs @ es) (zs @ es')"
proof -
  assume "removes_first name es es'"
  then obtain xs ino ft ys where e: "es = xs @ (name, ino, ft) # ys" "es' = xs @ ys" "name \<notin> set (names xs)"
    by (auto simp: removes_first_def)
  show "removes_first name (es @ zs) (es' @ zs)" unfolding removes_first_def
    by (intro exI [of _ xs] exI [of _ ino] exI [of _ ft] exI [of _ "ys @ zs"]) (use e in simp)
  show "removes_first name (zs @ es) (zs @ es')" if "name \<notin> set (names zs)" unfolding removes_first_def
    by (intro exI [of _ "zs @ xs"] exI [of _ ino] exI [of _ ft] exI [of _ ys]) (use e that in simp)
qed

text \<open>What the removal loop may end with, from block \<open>k\<close> on.\<close>

definition del_result :: "kenv \<Rightarrow> ino \<Rightarrow> byte list \<Rightarrow> nat list \<Rightarrow> byte list list \<Rightarrow> nat \<Rightarrow> 'a volume_scheme
    \<Rightarrow> errno option \<times> 'a volume_scheme \<Rightarrow> bool" where
  "del_result K dir name bs ps k v res \<longleftrightarrow> (case res of
       (Some e, v') \<Rightarrow> e = ENOENT \<and> name \<notin> set (names (dir_entries (drop k ps))) \<and> keeps v v'
     | (None, v') \<Rightarrow> \<exists>ps'. take k ps' = take k ps \<and> removes_first name (dir_entries (drop k ps)) (dir_entries (drop k ps'))
         \<and> dir_rep K v' dir bs ps' \<and> changes {dir} (set bs) v v' \<and> i_indirect (s_inode v' dir) = i_indirect (s_inode v dir))"

lemma del_result_skip:
  assumes "del_result K dir name bs ps (Suc k) w res" "keeps v w" "name \<notin> set (names (entries (ps ! k)))" "k < length ps"
  shows "del_result K dir name bs ps k v res"
proof -
  have d: "drop k ps = ps ! k # drop (Suc k) ps" using assms(4) by (simp add: Cons_nth_drop_Suc)
  have t: "take k ps' = take k ps \<and> drop k ps' = ps ! k # drop (Suc k) ps'" if "take (Suc k) ps' = take (Suc k) ps" for ps'
  proof -
    have "k < length ps'" using arg_cong [OF that, of length] assms(4) by simp
    then show ?thesis using that assms(4) Cons_nth_drop_Suc [of k ps'] by (auto simp: take_Suc_conv_app_nth)
  qed
  obtain r v' where res: "res = (r, v')" by (cases res)
  show ?thesis
  proof (cases r)
    case None
    then obtain ps' where p: "take (Suc k) ps' = take (Suc k) ps" "dir_rep K v' dir bs ps'" "changes {dir} (set bs) w v'"
      "removes_first name (dir_entries (drop (Suc k) ps)) (dir_entries (drop (Suc k) ps'))" "i_indirect (s_inode v' dir) = i_indirect (s_inode w dir)"
      using assms(1) by (auto simp: del_result_def res)
    have "removes_first name (dir_entries (drop k ps)) (dir_entries (drop k ps'))"
      using removes_first_append(2) [OF p(4) assms(3)] t [OF p(1)] d by simp
    then show ?thesis using None p t [OF p(1)] changes_trans [OF keeps_changes [OF assms(2)] p(3)]
        same_inodeD(7) [OF frameD(5) [OF keeps_frame [OF assms(2)], of dir]]
      by (auto simp: del_result_def res)
  next
    case (Some e)
    then show ?thesis using assms(1,3) keeps_trans [OF assms(2), of v'] d by (simp add: del_result_def res)
  qed
qed

lemma del_result_hit:
  assumes K: "kernel_lib K" and rep: "dir_rep K w dir bs ps" and k: "k < length bs" and bh: "length (b_data bh) = 4096"
    and w: "keeps v w" and q: "agree (ps ! k) q 0 3824" "tidy q" and del: "dirent_del q name = Some q'"
  shows "del_result K dir name bs ps k v (None, dir_touched dir (dir_write_payload K (bs ! k) bh q' w))"
proof -
  let ?v = "dir_touched dir (dir_write_payload K (bs ! k) bh q' w)"
  have kp: "k < length ps" using k dir_repD(2) [OF rep] by simp
  note dd = dirent_del_entries [OF q(2) del]
  obtain r where r: "agree q' r 0 3824" "dir_rep K ?v dir bs (ps[k := r])" "changes {dir} (set bs) w ?v"
    using dir_rep_write [OF K rep k bh dd(2)] by metis
  have "removes_first name (entries (ps ! k)) (entries r)"
    using dd(1) page_agree(1) [OF r(1)] page_agree(1) [OF q(1)] by (simp add: removes_first_def)
  moreover have "drop k ps = ps ! k # drop (Suc k) ps" "drop k (ps[k := r]) = r # drop (Suc k) ps"
    using kp by (simp_all add: Cons_nth_drop_Suc [symmetric])
  moreover have "i_indirect (s_inode ?v dir) = i_indirect (s_inode v dir)"
    using same_inodeD(7) [OF frameD(5) [OF keeps_frame [OF w], of dir]] by (simp add: dir_touched_def mark_inode_dirty_def dir_write_payload_def)
  ultimately show ?thesis using r changes_trans [OF keeps_changes [OF w] r(3)]
    by (auto simp: del_result_def removes_first_append intro!: exI [of _ "ps[k := r]"])
qed

lemma del_blocks_spec:
  assumes K: "kernel_lib K" and "layout_ok v" "dir_rep K v dir bs ps"
  shows "del_result K dir name bs ps k v (del_blocks K dir name [k..<524] v)"
  using assms(2-)
proof (induction "524 - k" arbitrary: k v)
  case 0
  then show ?case using dir_repD(2,3) [OF 0(3)] by (simp add: del_result_def)
next
  case (Suc n)
  then have k: "k < 524" and n: "n = 524 - Suc k" by simp_all
  note lp = dir_repD(2,3) [OF Suc.prems(2)] and g = dir_get_block_read [OF Suc.prems(2) k]
  show ?case
  proof (cases "k < length bs")
    case True
    obtain bh m q w where r: "bs ! k \<noteq> 0" "beamfs_bread v (bs ! k) = (Some bh, v)" "length (b_data bh) = 4096"
      "beamfs_dirent_decode K v (bs ! k) (b_data bh) = (Inr m, q, w)" "agree (ps ! k) q 0 3824" "tidy q"
      "keeps v w" "layout_ok w" "dir_rep K w dir bs ps"
      using dir_read_page [OF K Suc.prems True] by metis
    show ?thesis
    proof (cases "dirent_del q name")
      case None
      then have nn: "name \<notin> set (names (entries (ps ! k)))" using dirent_del_none [OF r(6)] page_agree(1) [OF r(5)] by simp
      show ?thesis using True g r None lp del_result_skip [OF Suc.hyps(1) [OF n r(8,9)] r(7) nn]
        by (simp add: upt_step [OF k] del: upt_Suc)
    next
      case (Some q')
      show ?thesis using True g r Some del_result_hit [OF K r(9) True r(3,7,5,6) Some]
        by (simp add: upt_step [OF k] del: upt_Suc)
    qed
  next
    case False
    then show ?thesis using g lp by (simp add: upt_step [OF k] del_result_def del: upt_Suc)
  qed
qed

subsection \<open>A new block\<close>

text \<open>What a directory may write: the blocks that were free, its own, and its block of pointers.\<close>

definition dir_reach :: "'a volume_scheme \<Rightarrow> ino \<Rightarrow> nat list \<Rightarrow> nat set" where
  "dir_reach v dir bs = {x. \<not> beamfs_block_is_allocated v x} \<union> set bs \<union> {unat (i_indirect (s_inode v dir))}"

lemma dir_rep_changes:
  assumes rep: "dir_rep K v dir bs ps" and c: "changes D B v v'" "B \<inter> insert (unat (i_indirect (s_inode v dir))) (set bs) = {}"
    and i: "i_direct (s_inode v' dir) = i_direct (s_inode v dir)" "i_indirect (s_inode v' dir) = i_indirect (s_inode v dir)"
  shows "dir_rep K v' dir bs ps"
  using changesD(2,10,11) [OF c(1)] c(2) i by (intro dir_rep_kept [OF rep]) (auto simp: dir_kept_def)

lemma dir_new_block_spec:
  assumes K: "kernel_lib K" and inv: "alloc_inv v" and lay: "layout_ok v" and new: "dir_new_block K v dir = (r, v')"
  shows "s_inode v' = s_inode v"
    and "r = Inl e \<Longrightarrow> changes {} {} v v'"
    and "r = Inr b \<Longrightarrow> changes {} {b} v v'" "r = Inr b \<Longrightarrow> \<not> beamfs_block_is_allocated v b" "r = Inr b \<Longrightarrow> dir_page K v' b dirent_fresh"
      "r = Inr b \<Longrightarrow> unat (word_of_nat b :: u64) = b"
proof -
  obtain x w where a: "beamfs_alloc_block K v (Some dir) = (x, w)" by fastforce
  note f = alloc_block_frame [OF a inv]
  note g = alloc_block_inode [OF a inv]
  show "s_inode v' = s_inode v" using new a g by (auto simp: dir_new_block_def split: if_splits)
  show "changes {} {} v v'" if "r = Inl e"
    using new a that f(3) g(3) by (auto simp: dir_new_block_def split: if_splits)
  assume "r = Inr b"
  then have b: "b = x" "x \<noteq> 0" "v' = write_buffer x (beamfs_dirent_encode K dirent_fresh) w"
    using new a by (auto simp: dir_new_block_def split: if_splits)
  note fx = f(4,5) [OF b(2)]
  show "changes {} {b} v v'" unfolding b
    by (rule changes_trans [OF alloc_block_changes [OF a inv] write_buffer_changes]) simp
  show "\<not> beamfs_block_is_allocated v b" using fx b by simp
  have "dirent_near K dirent_fresh (beamfs_dirent_encode K dirent_fresh)"
    by (intro dirent_image_near dirent_encode_image K tidy_length entries_fresh(2))
  then show "dir_page K v' b dirent_fresh" using f(6) [of x] fx b frameD(2) [OF f(1)] entries_fresh(2)
    by (simp add: dir_page_def)
  show "unat (word_of_nat b :: u64) = b" using fx b lay by (simp add: layout_ok_def unat_of_nat)
qed

lemma dir_rep_extend:
  assumes rep: "dir_rep K v dir bs ps" and room: "length bs < 524" and b: "\<not> beamfs_block_is_allocated v b"
    and c: "changes D B v v'" "B \<inter> set bs = {}" and page: "dir_page K v' b p"
    and ptr: "\<And>i. i < 524 \<Longrightarrow> dir_ptr v' dir i = (if i = length bs then b else dir_ptr v dir i)"
    and len: "length (i_direct (s_inode v' dir)) = 12"
    and ib: "dir_ind v' (unat (i_indirect (s_inode v' dir)))" "unat (i_indirect (s_inode v' dir)) \<notin> insert b (set bs)"
  shows "dir_rep K v' dir (bs @ [b]) (ps @ [p])"
proof -
  note d = dir_repD [OF rep]
  have nb: "b \<notin> set bs" using d(5) b by (metis dir_page_def in_set_conv_nth)
  have "dir_page K v' (bs ! j) (ps ! j)" if "j < length bs" for j
  proof -
    have "bs ! j \<notin> B" using c(2) that by (auto dest: nth_mem)
    then show ?thesis using d(5) [OF that] changesD(2,10,11) [OF c(1)] by (auto simp: dir_page_def)
  qed
  then have "list_all2 (dir_page K v') bs ps" using d(2) by (simp add: list_all2_conv_all_nth)
  then have "list_all2 (dir_page K v') (bs @ [b]) (ps @ [p])" using page by (simp add: list_all2_appendI)
  then show ?thesis using d(4) nb room len ib ptr d(6,7) by (auto simp: dir_rep_def nth_append)
qed

text \<open>Growing by one block: a direct one.\<close>

lemma dir_grown_changes [simp]: "changes {dir} B v (dir_grown dir v)"
  unfolding dir_grown_def mark_inode_dirty_def by (rule changes_trans [OF upd_inode_changes upd_inode_changes]) simp_all

lemma dir_upd_sel [simp]:
  "dir_page K (upd_inode i f v) b p = dir_page K v b p" "dir_ind (upd_inode i f v) b = dir_ind v b"
  "dir_page K (mark_inode_dirty i v) b p = dir_page K v b p" "dir_ind (mark_inode_dirty i v) b = dir_ind v b"
  by (simp_all add: mark_inode_dirty_def dir_page_def dir_ind_def)

lemma dir_grown_sel [simp]:
  "i_direct (s_inode (dir_grown dir v) dir) = i_direct (s_inode v dir)"
  "i_indirect (s_inode (dir_grown dir v) dir) = i_indirect (s_inode v dir)" "s_blk (dir_grown dir v) = s_blk v"
  "dir_page K (dir_grown dir v) b p = dir_page K v b p" "dir_ind (dir_grown dir v) b = dir_ind v b"
  by (simp_all add: dir_grown_def mark_inode_dirty_def dir_page_def dir_ind_def)

definition grow_result :: "kenv \<Rightarrow> ino \<Rightarrow> nat list \<Rightarrow> byte list list \<Rightarrow> 'a volume_scheme \<Rightarrow> (errno + nat) \<times> 'a volume_scheme \<Rightarrow> bool" where
  "grow_result K dir bs ps v res \<longleftrightarrow> changes {dir} (dir_reach v dir bs) v (snd res)
     \<and> unat (i_indirect (s_inode (snd res) dir)) \<in> dir_reach v dir bs \<and> (case fst res of
       Inl e \<Rightarrow> dir_rep K (snd res) dir bs ps
     | Inr b \<Rightarrow> \<not> beamfs_block_is_allocated v b \<and> dir_rep K (snd res) dir (bs @ [b]) (ps @ [dirent_fresh]))"

lemma dir_get_direct_grow:
  assumes K: "kernel_lib K" and inv: "alloc_inv v" and lay: "layout_ok v" and rep: "dir_rep K v dir bs ps" and n: "length bs < 12"
  shows "grow_result K dir bs ps v (dir_get_direct K v dir (length bs) True)"
proof -
  note d = dir_repD [OF rep]
  have z: "unat (i_direct (s_inode v dir) ! length bs) = 0" using d(7) [of "length bs"] n by (simp add: dir_ptr_def)
  obtain r w where new: "dir_new_block K v dir = (r, w)" by fastforce
  note N = dir_new_block_spec [OF K inv lay new]
  show ?thesis
  proof (cases r)
    case (Inl e)
    have "dir_get_direct K v dir (length bs) True = (Inl e, w)" using z new Inl by (simp add: dir_get_direct_def)
    moreover have "dir_rep K w dir bs ps" by (rule dir_rep_changes [OF rep N(2) [OF Inl]]) (simp_all add: N(1))
    ultimately show ?thesis using changes_mono [OF N(2) [OF Inl]] by (simp add: grow_result_def N(1) dir_reach_def)
  next
    case (Inr b)
    let ?u = "upd_inode dir (\<lambda>i. i\<lparr>i_direct := (i_direct i)[length bs := word_of_nat b]\<rparr>) w"
    let ?v = "dir_grown dir ?u"
    have e: "dir_get_direct K v dir (length bs) True = (Inr b, ?v)" using z new Inr by (simp add: dir_get_direct_def)
    have nal: "\<not> beamfs_block_is_allocated v b" by (rule N(4) [OF Inr])
    have c: "changes {dir} {b} v ?v"
      by (rule changes_trans [OF changes_trans [OF changes_mono [OF N(3) [OF Inr]] upd_inode_changes] dir_grown_changes]) simp_all
    have nb: "b \<notin> set bs" "b \<noteq> unat (i_indirect (s_inode v dir)) \<or> b = 0" "b \<noteq> 0"
      using d(5,8) nal N(5) [OF Inr] by (auto simp: dir_page_def dir_ind_def in_set_conv_nth)
    have ind: "i_indirect (s_inode ?v dir) = i_indirect (s_inode v dir)" by (simp add: N(1))
    have blk: "s_blk ?v (unat (i_indirect (s_inode v dir))) = s_blk v (unat (i_indirect (s_inode v dir)))"
      if "i_indirect (s_inode v dir) \<noteq> 0" using changesD(10) [OF c] d(8) nb that by (auto simp: dir_ind_def unat_eq_0)
    have "dir_rep K ?v dir (bs @ [b]) (ps @ [dirent_fresh])"
    proof (rule dir_rep_extend [OF rep _ nal c])
      show "dir_page K ?v b dirent_fresh" using N(5) [OF Inr] by simp
      show "dir_ptr ?v dir i = (if i = length bs then b else dir_ptr v dir i)" for i
        using ind blk N(6) [OF Inr] n d(1) by (auto simp: dir_ptr_def N(1) nth_list_update)
      show "dir_ind ?v (unat (i_indirect (s_inode ?v dir)))"
        using d(8) blk changesD(2,11) [OF c] unfolding ind by (auto simp: dir_ind_def unat_eq_0)
    qed (use n nb d(1,9) in \<open>auto simp: N(1)\<close>)
    then show ?thesis using nal ind changes_mono [OF c, of "{dir}" "dir_reach v dir bs"] by (simp add: e grow_result_def dir_reach_def)
  qed
qed

text \<open>One behind the block of pointers.\<close>

lemma dir_get_slot_grow:
  assumes K: "kernel_lib K" and inv: "alloc_inv v" and lay: "layout_ok v" and rep: "dir_rep K v dir bs ps"
    and n: "12 \<le> length bs" "length bs < 524" and ib: "i_indirect (s_inode v dir) \<noteq> 0"
  shows "grow_result K dir bs ps v (dir_get_slot K v dir (unat (i_indirect (s_inode v dir))) (length bs - 12) True)"
proof -
  let ?ib = "unat (i_indirect (s_inode v dir))"
  note d = dir_repD [OF rep]
  obtain ibh where ibh: "s_blk v ?ib = Some ibh" "length (b_data ibh) = 4096" "s_data_start v \<le> ?ib" "beamfs_block_is_allocated v ?ib"
    using d(8) ib by (auto simp: dir_ind_def unat_eq_0)
  have z: "get_le64 (8 * (length bs - 12)) (b_data ibh) = 0"
    using d(7) [of "length bs"] n ib ibh(1) by (simp add: dir_ptr_def unat_eq_0)
  have rd: "beamfs_bread v ?ib = (Some ibh, v)" using ibh(1) by (simp add: beamfs_bread_def)
  obtain r w where new: "dir_new_block K v dir = (r, w)" by fastforce
  note N = dir_new_block_spec [OF K inv lay new]
  show ?thesis
  proof (cases r)
    case (Inl e)
    have "dir_get_slot K v dir ?ib (length bs - 12) True = (Inl e, w)" using z rd new Inl by (simp add: dir_get_slot_def)
    moreover have "dir_rep K w dir bs ps" by (rule dir_rep_changes [OF rep N(2) [OF Inl]]) (simp_all add: N(1))
    ultimately show ?thesis using changes_mono [OF N(2) [OF Inl]] by (simp add: grow_result_def N(1) dir_reach_def)
  next
    case (Inr b)
    let ?d = "put_le64 (8 * (length bs - 12)) (word_of_nat b) (b_data ibh)"
    let ?w = "w\<lparr>s_blk := (s_blk w)(?ib \<mapsto> mark_buffer_dirty (ibh\<lparr>b_data := ?d\<rparr>))\<rparr>"
    let ?u = "beamfs_ind_parity_update K ?w ?ib (Some dir)"
    let ?v = "dir_grown dir ?u"
    have e: "dir_get_slot K v dir ?ib (length bs - 12) True = (Inr b, ?v)"
      using z rd new Inr by (simp add: dir_get_slot_def)
    have nal: "\<not> beamfs_block_is_allocated v b" by (rule N(4) [OF Inr])
    have b: "b \<noteq> ?ib" "b \<noteq> 0" "b \<notin> set bs" using nal ibh(4) N(5) [OF Inr] d(5) by (auto simp: dir_page_def in_set_conv_nth)
    have c1: "changes {dir} {b, ?ib} v ?w"
      by (rule changes_trans [OF changes_mono [OF N(3) [OF Inr]] set_blk_changes]) simp_all
    have k: "keeps ?w ?u" using ind_parity_update_keeps changes_layout [OF c1] lay by blast
    have c: "changes {dir} {b, ?ib} v ?v" by (rule changes_trans [OF changes_trans [OF c1 keeps_changes [OF k]] dir_grown_changes])
    have ino: "i_direct (s_inode ?u dir) = i_direct (s_inode v dir)" "i_indirect (s_inode ?u dir) = i_indirect (s_inode v dir)"
      using same_inodeD(6,7) [OF frameD(5) [OF keeps_frame [OF k], of dir]] N(1) by simp_all
    have dsw: "s_data_start ?w = s_data_start v" using changesD(2) [OF c1] .
    have blk: "s_blk ?u x = s_blk ?w x" if "s_data_start v \<le> x" for x using frameD(21) [OF keeps_frame [OF k]] that dsw by simp
    obtain ub where ub: "s_blk ?u ?ib = Some ub" "b_data ub = ?d" "length ?d = 4096"
      using blk [OF ibh(3)] ibh(2) n by (auto simp: mark_buffer_dirty_def put_le64_def)
    have pu: "dir_page K ?u b dirent_fresh"
      using N(5) [OF Inr] blk [of b] b keeps_allocated [OF k] frameD(2) [OF keeps_frame [OF k]] dsw changesD(2) [OF N(3) [OF Inr]]
      by (simp add: dir_page_def)
    have "dir_rep K ?v dir (bs @ [b]) (ps @ [dirent_fresh])"
    proof (rule dir_rep_extend [OF rep n(2) nal c])
      show "dir_page K ?v b dirent_fresh" using pu by simp
      show "dir_ptr ?v dir i = (if i = length bs then b else dir_ptr v dir i)" if "i < 524" for i
        using ino ub ib ibh(1) N(6) [OF Inr] n that get_put_ptr [OF ibh(2), of "length bs - 12" "i - 12" "word_of_nat b"]
        by (auto simp: dir_ptr_def)
      show "dir_ind ?v (unat (i_indirect (s_inode ?v dir)))"
        using ino ub ibh(3,4) changesD(2,11) [OF c] by (auto simp: dir_ind_def)
    qed (use n b d(1,9) ino in auto)
    then show ?thesis using nal ino changes_mono [OF c, of "{dir}" "dir_reach v dir bs"] by (simp add: e grow_result_def dir_reach_def)
  qed
qed

text \<open>A block of zero pointers added to a directory without one leaves the directory what it was.\<close>

lemma dir_rep_indirect:
  assumes rep: "dir_rep K v dir bs ps" and z: "i_indirect (s_inode v dir) = 0" and c: "changes D {x} v v'"
    and x: "\<not> beamfs_block_is_allocated v x" "beamfs_block_is_allocated v' x" "s_data_start v \<le> x"
    and ino: "i_direct (s_inode v' dir) = i_direct (s_inode v dir)" "unat (i_indirect (s_inode v' dir)) = x"
    and xb: "s_blk v' x = Some xb" "b_data xb = replicate 4096 0"
  shows "dir_rep K v' dir bs ps"
proof -
  note d = dir_repD [OF rep]
  have nb: "x \<notin> set bs" using d(5) x(1) by (auto simp: dir_page_def in_set_conv_nth)
  have "dir_page K v' (bs ! j) (ps ! j)" if "j < length bs" for j
  proof -
    have "bs ! j \<noteq> x" using nb that nth_mem by blast
    then show ?thesis using d(5) [OF that] changesD(2,10,11) [OF c] by (auto simp: dir_page_def)
  qed
  then have "list_all2 (dir_page K v') bs ps" using d(2) by (simp add: list_all2_conv_all_nth)
  moreover have "dir_ptr v' dir i = dir_ptr v dir i" if "i < 524" for i
    using that z ino xb by (auto simp: dir_ptr_def)
  moreover have "dir_ind v' x" using x xb changesD(2) [OF c] by (simp add: dir_ind_def)
  ultimately show ?thesis using d(1,3,4,6,7) nb ino by (simp add: dir_rep_def)
qed

text \<open>The first block of pointers: it points nowhere, so the directory is what it was.\<close>

lemma dir_new_indirect_rep:
  assumes K: "kernel_lib K" and inv: "alloc_inv v" and lay: "layout_ok v" and rep: "dir_rep K v dir bs ps"
    and z: "i_indirect (s_inode v dir) = 0" and new: "dir_new_indirect K v dir = (r, v')"
  shows "changes {dir} (dir_reach v dir bs) v v'" "dir_rep K v' dir bs ps" "unat (i_indirect (s_inode v' dir)) \<in> dir_reach v dir bs"
    and "r = Inr ib \<Longrightarrow> unat (i_indirect (s_inode v' dir)) = ib \<and> ib \<noteq> 0 \<and> \<not> beamfs_block_is_allocated v ib"
proof -
  note d = dir_repD [OF rep]
  obtain x w where a: "beamfs_alloc_block K v (Some dir) = (x, w)" by fastforce
  note f = alloc_block_frame [OF a inv]
  note g = alloc_block_inode [OF a inv]
  have "changes {dir} (dir_reach v dir bs) v v' \<and> dir_rep K v' dir bs ps \<and> unat (i_indirect (s_inode v' dir)) \<in> dir_reach v dir bs \<and>
    (r = Inr ib \<longrightarrow> unat (i_indirect (s_inode v' dir)) = ib \<and> ib \<noteq> 0 \<and> \<not> beamfs_block_is_allocated v ib)"
  proof (cases "x = 0 \<or> \<not> s_getblk_ok w")
    case True
    then have e: "changes {} {} v v'" "s_inode v' = s_inode v" "\<nexists>b. r = Inr b"
      using new a f(3) g by (auto simp: dir_new_indirect_def split: if_splits)
    then show ?thesis using changes_mono [OF e(1)] dir_rep_changes [OF rep e(1)] by (simp add: dir_reach_def)
  next
    case False
    then have x: "x \<noteq> 0" by simp
    let ?w = "write_buffer x (replicate 4096 0) w"
    let ?p = "beamfs_ind_parity_update K ?w x (Some dir)"
    have v': "r = Inr x" "v' = mark_inode_dirty dir (upd_inode dir (\<lambda>i. i\<lparr>i_indirect := word_of_nat x\<rparr>) ?p)"
      using new a False by (auto simp: dir_new_indirect_def)
    note fx = f(4,5) [OF x]
    have u: "unat (word_of_nat x :: u64) = x" using fx lay by (simp add: layout_ok_def unat_of_nat)
    have c1: "changes {dir} {x} v ?w" by (rule changes_trans [OF alloc_block_changes [OF a inv] write_buffer_changes]) simp
    have k: "keeps ?w ?p" using ind_parity_update_keeps changes_layout [OF c1] lay by blast
    have c: "changes {dir} {x} v v'" unfolding v' mark_inode_dirty_def
      by (rule changes_trans [OF changes_trans [OF changes_trans [OF c1 keeps_changes [OF k]] upd_inode_changes] upd_inode_changes]) simp_all
    have pi: "i_direct (s_inode ?p dir) = i_direct (s_inode v dir)"
      using same_inodeD(6) [OF frameD(5) [OF keeps_frame [OF k], of dir]] g(1) by simp
    have ino: "i_direct (s_inode v' dir) = i_direct (s_inode v dir)" "i_indirect (s_inode v' dir) = word_of_nat x"
      using pi by (simp_all add: v' mark_inode_dirty_def)
    have "s_blk v' x = s_blk ?w x"
      using frameD(21) [OF keeps_frame [OF k], of x] fx changesD(2) [OF c1] by (simp add: v' mark_inode_dirty_def)
    then obtain xb where xb: "s_blk v' x = Some xb" "b_data xb = replicate 4096 0" by simp
    have al: "beamfs_block_is_allocated v' x"
      using f(6) [of x] x keeps_allocated [OF k, of x] by (simp add: v' mark_inode_dirty_def)
    have "dir_rep K v' dir bs ps" using dir_rep_indirect [OF rep z c fx(1) al _ ino(1) _ xb] fx(2) ino(2) u by simp
    then show ?thesis using changes_mono [OF c, of "{dir}" "dir_reach v dir bs"] v'(1) fx(1) ino(2) u x by (auto simp: dir_reach_def)
  qed
  then show "changes {dir} (dir_reach v dir bs) v v'" "dir_rep K v' dir bs ps" "unat (i_indirect (s_inode v' dir)) \<in> dir_reach v dir bs"
    "r = Inr ib \<Longrightarrow> unat (i_indirect (s_inode v' dir)) = ib \<and> ib \<noteq> 0 \<and> \<not> beamfs_block_is_allocated v ib" by blast+
qed

lemma dir_get_block_grow:
  assumes K: "kernel_lib K" and inv: "alloc_inv v" and lay: "layout_ok v" and rep: "dir_rep K v dir bs ps" and n: "length bs < 524"
  shows "grow_result K dir bs ps v (beamfs_dir_get_block K v dir (length bs) True)"
proof (cases "length bs < 12 \<or> i_indirect (s_inode v dir) \<noteq> 0")
  case True
  then show ?thesis using dir_get_direct_grow [OF K inv lay rep] dir_get_slot_grow [OF K inv lay rep _ n] n
    by (auto simp: beamfs_dir_get_block_def unat_eq_0)
next
  case False
  then have z: "i_indirect (s_inode v dir) = 0" and n12: "12 \<le> length bs" by simp_all
  obtain r w where new: "dir_new_indirect K v dir = (r, w)" by fastforce
  note N = dir_new_indirect_rep [OF K inv lay rep z new]
  show ?thesis
  proof (cases r)
    case (Inl e)
    then show ?thesis using False n new N(1-3) by (simp add: beamfs_dir_get_block_def grow_result_def)
  next
    case (Inr ib)
    note ib = N(4) [OF Inr]
    have "grow_result K dir bs ps w (dir_get_slot K w dir ib (length bs - 12) True)"
      using dir_get_slot_grow [OF K changesD(3) [OF N(1) inv] _ N(2) n12 n] changes_layout [OF N(1)] lay ib by (auto simp: unat_gt_0)
    moreover have "dir_reach w dir bs \<subseteq> dir_reach v dir bs" using changesD(11) [OF N(1)] ib by (auto simp: dir_reach_def)
    ultimately have "grow_result K dir bs ps v (dir_get_slot K w dir ib (length bs - 12) True)"
      using changes_trans [OF N(1) changes_mono] changesD(11) [OF N(1)] by (auto simp: grow_result_def split: sum.splits)
    then show ?thesis using False n new Inr by (simp add: beamfs_dir_get_block_def)
  qed
qed

subsection \<open>Adding\<close>

definition adds_one :: "entry \<Rightarrow> entry list \<Rightarrow> entry list \<Rightarrow> bool" where
  "adds_one e es es' \<longleftrightarrow> (\<exists>xs ys. es = xs @ ys \<and> es' = xs @ e # ys)"

text \<open>A page without a free record large enough for the name.\<close>

definition full :: "byte list \<Rightarrow> byte list \<Rightarrow> bool" where
  "full name p \<longleftrightarrow> (\<forall>off \<in> set (dirent_walk p 0). d_ino p off = 0 \<longrightarrow> d_rec_len p off < BEAMFS_DIRENT_LEN (length name))"

lemma full_agree: "agree p q 0 3824 \<Longrightarrow> full name q = full name p"
  using walk_agree_payload [of p q 0] record_agree(1,2) [of p q] walk_all_valid [of _ p 0]
  by (auto simp: full_def)

lemma fresh_not_full: "length name \<le> 255 \<Longrightarrow> \<not> full name dirent_fresh"
  using LEN_bounds(2) [of "length name"] by (simp add: full_def entries_fresh)

lemma adds_one_append: "adds_one e es es' \<Longrightarrow> adds_one e (zs @ es @ us) (zs @ es' @ us)"
  unfolding adds_one_def by (metis append.assoc append_Cons)

definition add_result :: "kenv \<Rightarrow> ino \<Rightarrow> entry \<Rightarrow> nat list \<Rightarrow> byte list list \<Rightarrow> 'a volume_scheme \<Rightarrow> errno option \<times> 'a volume_scheme \<Rightarrow> bool" where
  "add_result K dir e bs ps v res \<longleftrightarrow> changes {dir} (dir_reach v dir bs) v (snd res)
     \<and> unat (i_indirect (s_inode (snd res) dir)) \<in> dir_reach v dir bs \<and> (case fst res of
       Some err \<Rightarrow> dir_rep K (snd res) dir bs ps \<and> (\<forall>p \<in> set ps. full (fst e) p)
     | None \<Rightarrow> \<exists>bs' ps'. dir_rep K (snd res) dir bs' ps' \<and> adds_one e (dir_entries ps) (dir_entries ps') \<and> set bs' \<subseteq> dir_reach v dir bs)"

lemma add_result_keeps:
  assumes "add_result K dir e bs ps w res" "changes {dir} (dir_reach v dir bs) v w"
    "i_indirect (s_inode w dir) = i_indirect (s_inode v dir)"
  shows "add_result K dir e bs ps v res"
proof -
  have "dir_reach w dir bs \<subseteq> dir_reach v dir bs" using changesD(11) [OF assms(2)] assms(3) by (auto simp: dir_reach_def)
  then show ?thesis using assms(1) changes_trans [OF assms(2) changes_mono] by (fastforce simp: add_result_def split: option.split)
qed

text \<open>The entry goes into block \<open>k\<close>.\<close>

lemma add_result_hit:
  assumes K: "kernel_lib K" and rep: "dir_rep K w dir bs ps" and k: "k < length bs" and bh: "length (b_data bh) = 4096"
    and q: "agree (ps ! k) q 0 3824" "tidy q" and name: "name \<noteq> []" "length name \<le> 255" "ino \<noteq> 0"
    and add: "dirent_add q name ino ft = Some q'"
  shows "add_result K dir (name, ino, ft) bs ps w (None, dir_touched dir (dir_write_payload K (bs ! k) bh q' w))"
proof -
  let ?v = "dir_touched dir (dir_write_payload K (bs ! k) bh q' w)"
  have kp: "k < length ps" using k dir_repD(2) [OF rep] by simp
  note dd = dirent_add_entries [OF q(2) name add]
  obtain r where r: "agree q' r 0 3824" "dir_rep K ?v dir bs (ps[k := r])" "changes {dir} (set bs) w ?v"
    using dir_rep_write [OF K rep k bh dd(2)] by metis
  have a: "adds_one (name, ino, ft) (entries (ps ! k)) (entries r)"
    using dd(1) page_agree(1) [OF r(1)] page_agree(1) [OF q(1)] by (simp add: adds_one_def)
  have "ps = take k ps @ ps ! k # drop (Suc k) ps" "ps[k := r] = take k ps @ r # drop (Suc k) ps"
    using kp by (simp_all add: id_take_nth_drop upd_conv_take_nth_drop)
  then have "adds_one (name, ino, ft) (dir_entries ps) (dir_entries (ps[k := r]))"
    using adds_one_append [OF a] by (metis dir_entries_simps(2,3))
  moreover have "i_indirect (s_inode ?v dir) = i_indirect (s_inode w dir)"
    by (simp add: dir_touched_def mark_inode_dirty_def dir_write_payload_def)
  ultimately show ?thesis using r changes_mono [OF r(3), of "{dir}" "dir_reach w dir bs"] by (auto simp: add_result_def dir_reach_def)
qed

lemma dirent_add_full:
  assumes "tidy q" "name \<noteq> []" "dirent_add q name ino ft = None"
  shows "full name q"
  using dirent_add_none [OF assms] by (simp add: full_def)

lemma add_result_grown:
  assumes g: "grow_result K dir bs ps v (Inr b, w)" and a: "add_result K dir e (bs @ [b]) (ps @ [dirent_fresh]) w (None, v')"
  shows "add_result K dir e bs ps v (None, v')"
proof -
  have c: "changes {dir} (dir_reach v dir bs) v w" using g by (simp add: grow_result_def)
  have "dir_reach w dir (bs @ [b]) \<subseteq> dir_reach v dir bs"
    using g changesD(11) [OF c] by (auto simp: grow_result_def dir_reach_def)
  then show ?thesis using a changes_trans [OF c changes_mono, of "{dir}" "dir_reach w dir (bs @ [b])" v']
    by (fastforce simp: add_result_def entries_fresh(1))
qed

text \<open>Every block is full: a new one is taken for the entry.\<close>

lemma add_blocks_new:
  assumes K: "kernel_lib K" and name: "name \<noteq> []" "length name \<le> 255" "ino \<noteq> 0"
    and inv: "alloc_inv v" and lay: "layout_ok v" and rep: "dir_rep K v dir bs ps" and k: "k < 524" and kl: "k = length bs"
    and f: "\<forall>p \<in> set (take k ps). full name p"
  shows "add_result K dir (name, ino, ft) bs ps v (add_blocks K dir name ino ft [k..<524] v)"
proof -
  note lp = dir_repD(2,3) [OF rep]
  have g0: "beamfs_dir_get_block K v dir k False = (Inr 0, v)" using dir_get_block_read [OF rep k] kl by simp
  obtain rr w where new: "beamfs_dir_get_block K v dir k True = (rr, w)" by fastforce
  have gr: "grow_result K dir bs ps v (rr, w)" using dir_get_block_grow [OF K inv lay rep] k new kl by simp
  show ?thesis
  proof (cases rr)
    case (Inl e)
    have "\<forall>p \<in> set ps. full name p" using f kl lp by simp
    then show ?thesis using gr g0 new Inl
      by (simp add: upt_step [OF k] add_result_def grow_result_def del: upt_Suc)
  next
    case (Inr b)
    then have repw: "dir_rep K w dir (bs @ [b]) (ps @ [dirent_fresh])" and c: "changes {dir} (dir_reach v dir bs) v w"
      using gr by (simp_all add: grow_result_def)
    have layw: "layout_ok w" using changes_layout [OF c] lay by simp
    have kb: "k < length (bs @ [b])" "(bs @ [b]) ! k = b" using kl by simp_all
    obtain bh m q u where r: "b \<noteq> 0" "beamfs_bread w b = (Some bh, w)" "length (b_data bh) = 4096"
      "beamfs_dirent_decode K w b (b_data bh) = (Inr m, q, u)" "agree ((ps @ [dirent_fresh]) ! k) q 0 3824" "tidy q"
      "keeps w u" "layout_ok u" "dir_rep K u dir (bs @ [b]) (ps @ [dirent_fresh])"
      using dir_read_page [OF K layw repw kb(1)] unfolding kb(2) by metis
    have "\<not> full name q" using full_agree [OF r(5)] fresh_not_full [OF name(2)] kl lp by (simp add: nth_append)
    then obtain q' where q': "dirent_add q name ino ft = Some q'" using dirent_add_full [OF r(6) name(1)] by fastforce
    have "add_result K dir (name, ino, ft) (bs @ [b]) (ps @ [dirent_fresh]) u (None, dir_touched dir (dir_write_payload K b bh q' u))"
      using add_result_hit [OF K r(9) kb(1) r(3,5,6) name q'] unfolding kb(2) .
    then have "add_result K dir (name, ino, ft) bs ps v (None, dir_touched dir (dir_write_payload K b bh q' u))"
      using add_result_grown [of K dir bs ps v b w] gr Inr
        add_result_keeps [OF _ keeps_changes [OF r(7)] same_inodeD(7) [OF frameD(5) [OF keeps_frame [OF r(7)]]]] by blast
    then show ?thesis using g0 new Inr r q' by (simp add: upt_step [OF k] del: upt_Suc)
  qed
qed

lemma add_blocks_spec:
  assumes K: "kernel_lib K" and name: "name \<noteq> []" "length name \<le> 255" "ino \<noteq> 0"
    and "alloc_inv v" "layout_ok v" "dir_rep K v dir bs ps" "k \<le> length bs" "\<forall>p \<in> set (take k ps). full name p"
  shows "add_result K dir (name, ino, ft) bs ps v (add_blocks K dir name ino ft [k..<524] v)"
  using assms(5-)
proof (induction "524 - k" arbitrary: k v)
  case 0
  then show ?case using dir_repD(2,3) [OF 0(4)] by (simp add: add_result_def dir_reach_def)
next
  case (Suc n)
  then have k: "k < 524" and n: "n = 524 - Suc k" by simp_all
  note rep = Suc.prems(3)
  note lp = dir_repD(2,3) [OF rep] and g = dir_get_block_read [OF rep k]
  show ?case
  proof (cases "k < length bs")
    case True
    obtain bh m q w where r: "bs ! k \<noteq> 0" "beamfs_bread v (bs ! k) = (Some bh, v)" "length (b_data bh) = 4096"
      "beamfs_dirent_decode K v (bs ! k) (b_data bh) = (Inr m, q, w)" "agree (ps ! k) q 0 3824" "tidy q"
      "keeps v w" "layout_ok w" "dir_rep K w dir bs ps"
      using dir_read_page [OF K Suc.prems(2,3) True] by metis
    have kw: "add_result K dir (name, ino, ft) bs ps v res" if "add_result K dir (name, ino, ft) bs ps w res" for res
      by (rule add_result_keeps [OF that keeps_changes [OF r(7)] same_inodeD(7) [OF frameD(5) [OF keeps_frame [OF r(7)]]]])
    show ?thesis
    proof (cases "dirent_add q name ino ft")
      case None
      then have "full name (ps ! k)" using dirent_add_full [OF r(6) name(1) None] full_agree [OF r(5)] by simp
      then have "\<forall>p \<in> set (take (Suc k) ps). full name p" using Suc.prems(5) True lp by (auto simp: take_Suc_conv_app_nth)
      then show ?thesis using True g r None kw [OF Suc.hyps(1) [OF n _ r(8,9)]] frameD(3) [OF keeps_frame [OF r(7)] Suc.prems(1)]
        by (auto simp: upt_step [OF k] simp del: upt_Suc split: nat.split)
    next
      case (Some q')
      show ?thesis using True g r Some kw [OF add_result_hit [OF K r(9) True r(3,5,6) name Some]]
        by (auto simp: upt_step [OF k] simp del: upt_Suc split: nat.split)
    qed
  next
    case False
    then show ?thesis using add_blocks_new [OF K name Suc.prems(1-3) k _ Suc.prems(5)] Suc.prems(4) by simp
  qed
qed

subsection \<open>The operations\<close>

text \<open>C13: Looking a name up in a directory finds the first live entry of that name, in the order of the blocks
  and of the records in them, and returns what \<open>beamfs_iget\<close> makes of its inode number; when no live entry
  has the name, the answer is none. Damage of up to eight bytes in each subblock of each block does not
  change the answer, and the lookup leaves the data region, the inodes and the allocator as they were.\<close>
theorem dir_lookup_exact:
  assumes "kernel_lib K" "layout_ok v" "dir_rep K v dir bs ps" "s_scratch_ok v" "length name \<le> 255"
  shows "\<exists>w. keeps v w \<and> beamfs_lookup K v dir name =
    (case map_of (dir_entries ps) name of
       None \<Rightarrow> (Inr None, w)
     | Some (ino, ft) \<Rightarrow>
         (case beamfs_iget K w (unat ino) of (Inl e, v') \<Rightarrow> (Inl e, v') | (Inr i, v') \<Rightarrow> (Inr (Some i), v')))"
proof -
  obtain w where "lookup_blocks K dir name [0..<524] v
      = (Inr (map_option (\<lambda>(ino, ft). unat ino) (map_of (dir_entries ps) name)), w)" "keeps v w"
    using lookup_blocks_spec [OF assms(1-3), of name 0] by auto
  then show ?thesis using assms(4,5)
    by (cases "map_of (dir_entries ps) name") (auto simp: beamfs_lookup_def intro!: exI [of _ w])
qed

text \<open>C9: Adding an entry adds exactly that entry: when \<open>beamfs_add_dirent\<close> returns success, the live entries of
  the directory are those before with the new one at one place, all of them readable again; when it fails,
  the entries are those before and no block of the directory had a free record large enough. Only the
  directory's inode and blocks, and blocks that were free, are written.\<close>
theorem add_dirent_adds_one:
  assumes "kernel_lib K" "layout_ok v" "alloc_inv v" "dir_rep K v dir bs ps" "s_scratch_ok v"
    and "name \<noteq> []" "length name \<le> 255" "0 < ino" "ino < 2 ^ 64"
  shows "case beamfs_add_dirent K v dir name ino ft of
      (Some e, v') \<Rightarrow> changes {dir} (dir_reach v dir bs) v v' \<and> dir_rep K v' dir bs ps \<and> (\<forall>p \<in> set ps. full name p)
    | (None, v') \<Rightarrow> changes {dir} (dir_reach v dir bs) v v' \<and>
        (\<exists>bs' ps'. dir_rep K v' dir bs' ps' \<and> adds_one (name, word_of_nat ino, ft) (dir_entries ps) (dir_entries ps'))"
proof -
  have "(word_of_nat ino :: u64) \<noteq> 0" using assms(8,9) by (simp add: word_of_nat_eq_0_iff dvd_imp_le not_less [symmetric]) (auto dest: dvd_imp_le)
  then have "add_result K dir (name, word_of_nat ino, ft) bs ps v (beamfs_add_dirent K v dir name ino ft)"
    using add_blocks_spec [OF assms(1,6,7) _ assms(3,2,4), of "word_of_nat ino" 0 ft] assms(5,7) by (simp add: beamfs_add_dirent_def)
  then show ?thesis by (fastforce simp: add_result_def split: prod.split option.split)
qed

text \<open>Removing a name removes exactly one entry, the first of that name, and every other entry stays where it
  was in the order; when no live entry has the name the result is \<^verbatim>\<open>-ENOENT\<close> and nothing of the directory
  changes. These are the only two outcomes, whatever damage within the radius its blocks carry.\<close>
theorem del_dirent_removes_one:
  assumes "kernel_lib K" "layout_ok v" "dir_rep K v dir bs ps" "s_scratch_ok v"
  shows "case beamfs_del_dirent K v dir name of
      (Some e, v') \<Rightarrow> e = ENOENT \<and> name \<notin> set (names (dir_entries ps)) \<and> keeps v v'
    | (None, v') \<Rightarrow> \<exists>ps'. dir_rep K v' dir bs ps' \<and> removes_first name (dir_entries ps) (dir_entries ps')
        \<and> changes {dir} (set bs) v v'"
proof -
  have "del_result K dir name bs ps 0 v (beamfs_del_dirent K v dir name)"
    using del_blocks_spec [OF assms(1-3), of name 0] assms(4) by (simp add: beamfs_del_dirent_def)
  then show ?thesis by (auto simp: del_result_def split: prod.splits option.splits)
qed

subsection \<open>Witnesses\<close>

text \<open>A directory of one block, number 10, holding one entry, on a volume with one more block free.\<close>

definition wit_page :: "byte list" where
  "wit_page = the (dirent_add dirent_fresh [0x61] 2 1)"

lemma wit_page: "tidy wit_page" "entries wit_page = [([0x61], 2, 1)]"
proof -
  obtain q where q: "dirent_add dirent_fresh [0x61] 2 1 = Some q"
    using fresh_not_full [of "[0x61]"] dirent_add_full [OF entries_fresh(2), of "[0x61]" 2 1] by fastforce
  show "tidy wit_page" "entries wit_page = [([0x61], 2, 1)]"
    using dirent_add_entries [OF entries_fresh(2) _ _ _ q] entries_fresh(1) q by (auto simp: wit_page_def)
qed

definition wit_dir_bh :: buffer_head where
  "wit_dir_bh = \<lparr>b_data = beamfs_dirent_encode port_kenv wit_page, b_uptodate = True, b_dirty = False\<rparr>"

definition wit_dvol :: volume where
  "wit_dvol = wit_vol\<lparr>s_nblocks := 2, s_block_bitmap := Some [False, True],
     s_inode := (\<lambda>_. wit_inode)(1 := wit_inode\<lparr>i_direct := 10 # replicate 11 0, i_size := 3824\<rparr>),
     s_blk := (\<lambda>b. if b < 9 then Some zero_bh else if b = 10 then Some wit_dir_bh else None)\<rparr>"

lemma wit_dvol_ok:
  "alloc_inv wit_dvol" "layout_ok wit_dvol" "s_scratch_ok wit_dvol" "dir_rep port_kenv wit_dvol 1 [10] [wit_page]"
proof -
  show "alloc_inv wit_dvol"
    by (simp add: wit_dvol_def alloc_inv_def sb_free_blocks_def wit_vsb_def get_le64_def put_le64_def get_put_other)
      (simp add: get_put_le(3) [unfolded get_le64_def put_le64_def])
  show "layout_ok wit_dvol" "s_scratch_ok wit_dvol"
    by (simp_all add: wit_dvol_def layout_ok_def budget_region_def wit_vol_def sb_alloc.defs volume.defs)
  have "dirent_near port_kenv wit_page (b_data wit_dir_bh)" unfolding wit_dir_bh_def
    by (simp add: dirent_image_near dirent_encode_image [OF kport.kernel_lib_axioms] wit_page(1))
  then have "dir_page port_kenv wit_dvol 10 wit_page"
    by (simp add: dir_page_def wit_dvol_def wit_page(1) beamfs_block_is_allocated_def test_bit_def)
  moreover have "dir_ptr wit_dvol 1 i = (if i < 1 then [10] ! i else 0)" for i
    by (cases i) (simp_all add: dir_ptr_def wit_dvol_def wit_inode_def nth_Cons')
  ultimately show "dir_rep port_kenv wit_dvol 1 [10] [wit_page]"
    by (simp add: dir_rep_def dir_ind_def wit_dvol_def wit_inode_def)
qed

theorem dir_lookup_exact_witness:
  "\<exists>w. keeps wit_dvol w \<and> beamfs_lookup port_kenv wit_dvol 1 [0x61] =
     (case beamfs_iget port_kenv w 2 of (Inl e, v') \<Rightarrow> (Inl e, v') | (Inr i, v') \<Rightarrow> (Inr (Some i), v'))"
  using dir_lookup_exact [OF kport.kernel_lib_axioms wit_dvol_ok(2,4,3), of "[0x61]"] by (simp add: wit_page(2))

theorem add_dirent_adds_one_witness:
  "case beamfs_add_dirent port_kenv wit_dvol 1 [0x62] 3 1 of
     (Some e, v') \<Rightarrow> dir_rep port_kenv v' 1 [10] [wit_page] \<and> full [0x62] wit_page
   | (None, v') \<Rightarrow> \<exists>bs' ps'. dir_rep port_kenv v' 1 bs' ps' \<and> adds_one ([0x62], 3, 1) [([0x61], 2, 1)] (dir_entries ps')"
  using add_dirent_adds_one [OF kport.kernel_lib_axioms wit_dvol_ok(2,1,4,3), of "[0x62]" 3 1]
  by (auto simp: wit_page(2) split: prod.splits option.splits)

theorem del_dirent_removes_one_witness:
  "case beamfs_del_dirent port_kenv wit_dvol 1 [0x61] of
     (Some e, v') \<Rightarrow> False
   | (None, v') \<Rightarrow> \<exists>ps'. dir_rep port_kenv v' 1 [10] ps' \<and> dir_entries ps' = []"
proof -
  have "es = []" if "removes_first [0x61] [([0x61], 2, 1)] es" for es
    using that by (auto simp: removes_first_def Cons_eq_append_conv)
  then show ?thesis using del_dirent_removes_one [OF kport.kernel_lib_axioms wit_dvol_ok(2,4,3), of "[0x61]"]
    by (fastforce simp: wit_page(2) split: prod.splits option.splits)
qed

end
