(* ===== verification/Dir_Read.thy ===== *)
theory Dir_Read
  imports Dir_Correct
begin

section \<open>Reading a directory to its end\<close>

text \<open>
  \<^verbatim>\<open>beamfs_readdir\<close> is called again and again with the position it left. What remains to be read from a
  position is \<open>remaining\<close>: it is defined for every position, also one inside a record. A call returns a beginning
  of what remains and leaves the position at the rest; calls whose actor takes at least one entry reach the
  end, whatever their sizes, having returned each live entry once.
\<close>

subsection \<open>What remains to be read\<close>

definition shown :: "entry list \<Rightarrow> entry list" where
  "shown es = map (\<lambda>(n, ino, ft). (n, ino, dirent_dt ft)) (filter (\<lambda>(n, _). n \<notin> {[0x2E], [0x2E, 0x2E]}) es)"

lemma shown_simps [simp]: "shown [] = []" "shown (xs @ ys) = shown xs @ shown ys"
  "shown ((n, ino, ft) # es) = (if n \<in> {[0x2E], [0x2E, 0x2E]} then shown es else (n, ino, dirent_dt ft) # shown es)"
  by (simp_all add: shown_def)

definition page_from :: "byte list \<Rightarrow> nat \<Rightarrow> entry list" where
  "page_from p off = shown (rec_entries p (dirent_walk p (if off = 0 then 0 else dir_slide p off 0)))"

definition rest_from :: "byte list list \<Rightarrow> nat \<Rightarrow> nat \<Rightarrow> entry list" where
  "rest_from ps b off = (if b < length ps then page_from (ps ! b) off @ shown (dir_entries (drop (Suc b) ps)) else [])"

definition remaining :: "entry list \<Rightarrow> byte list list \<Rightarrow> nat \<Rightarrow> entry list" where
  "remaining dots ps pos =
     (if pos = INT_MAX then [] else if pos < 2 then drop pos dots @ rest_from ps 0 0
      else rest_from ps ((pos - 2) div 3824) ((pos - 2) mod 3824))"

lemma rest_from_0: "rest_from ps b 0 = shown (dir_entries (drop b ps))"
  by (auto simp: rest_from_def page_from_def entries_def Cons_nth_drop_Suc [symmetric])

lemma remaining_at:
  assumes "b < 524" "n < 3824"
  shows "remaining dots ps (2 + b * 3824 + n) = rest_from ps b n"
  using assms by (simp add: remaining_def)

subsection \<open>One block\<close>

text \<open>Two pages with the same payload are read alike.\<close>

lemma slide_step:
  "s < off \<Longrightarrow> beamfs_dirent_valid p s \<Longrightarrow> dir_slide p off s = dir_slide p off (s + d_rec_len p s)"
  "\<not> (s < off \<and> beamfs_dirent_valid p s) \<Longrightarrow> dir_slide p off s = s"
  using validD(1,4) [of p s] by (subst dir_slide.simps, simp)+

lemma slide_agree:
  assumes "agree p q 0 3824"
  shows "dir_slide q off s = dir_slide p off s"
proof (induction s rule: walk_induct [of p])
  case (invalid s)
  then have "\<not> beamfs_dirent_valid q s"
    using walk_agree_payload [OF assms, of s] by (metis list.distinct(1) walk_invalid walk_valid)
  then show ?case using invalid by (simp add: slide_step(2))
next
  case (valid s)
  then show ?case using record_agree(2,7) [OF assms valid(1)]
    by (cases "s < off") (simp_all add: slide_step)
qed

lemma rec_entries_walk_agree:
  assumes "agree p q 0 3824"
  shows "rec_entries q (dirent_walk q off) = rec_entries p (dirent_walk p off)"
proof -
  have w: "dirent_walk q off = dirent_walk p off" using walk_agree_payload [OF assms] by simp
  have v: "beamfs_dirent_valid p x" if "x \<in> set (dirent_walk p off)" for x using that by (rule walk_all_valid)
  note r = record_agree(1,4,5) [OF assms v]
  show ?thesis unfolding rec_entries_def w using r by (auto intro!: map_cong filter_cong)
qed

text \<open>The slide stops at the end of a record it passes.\<close>

lemma slide_boundary:
  assumes "x \<in> set (dirent_walk p s)" "n = x + d_rec_len p x"
  shows "dir_slide p n s = n"
  using assms(1)
proof (induction s rule: walk_induct [of p])
  case (invalid s)
  then show ?case by (simp add: walk_invalid)
next
  case (valid s)
  have le: "s \<le> x" "beamfs_dirent_valid p x" using walk_mem [OF valid(3)] by simp_all
  have sn: "s < n" using le validD(1) [OF le(2)] assms(2) by linarith
  show ?case
  proof (cases "x = s")
    case True
    then show ?thesis using slide_step(1) [OF sn valid(1)] slide_step(2) [of n n p] assms(2) by simp
  next
    case False
    then have "x \<in> set (dirent_walk p (s + d_rec_len p s))" using valid(3) by (simp add: walk_valid [OF valid(1)])
    then show ?thesis using valid(2) slide_step(1) [OF sn valid(1)] by simp
  qed
qed

lemma slide_ge: "s \<le> dir_slide p off s"
proof (induction s rule: walk_induct [of p])
  case (valid s)
  then show ?case by (cases "s < off") (auto simp: slide_step)
qed (simp add: slide_step(2))

lemma slide_through:
  assumes "x \<in> set (dirent_walk p (dir_slide p off s))" "n = x + d_rec_len p x"
  shows "dir_slide p n s = n"
  using assms(1)
proof (induction s rule: walk_induct [of p])
  case (invalid s)
  then show ?case by (simp add: slide_step(2) walk_invalid)
next
  case (valid s)
  show ?case
  proof (cases "s < off")
    case True
    note st = slide_step(1) [OF True valid(1)]
    have x: "x \<in> set (dirent_walk p (dir_slide p off (s + d_rec_len p s)))" using valid(3) st by simp
    then have "s < n" using slide_ge [of "s + d_rec_len p s" p off] walk_mem [OF x] validD(1) [OF valid(1)] assms(2) by linarith
    then show ?thesis using valid(2) [OF x] slide_step(1) [OF _ valid(1)] by simp
  next
    case False
    then show ?thesis using slide_boundary [OF _ assms(2), of s] valid(3) by (simp add: slide_step(2))
  qed
qed

text \<open>The records from an offset: a beginning of them is given out, the position moves to a boundary or
  stays.\<close>

definition records_result :: "actor \<Rightarrow> nat \<Rightarrow> byte list \<Rightarrow> nat \<Rightarrow> dir_ctx \<Rightarrow> bool \<times> dir_ctx \<Rightarrow> bool" where
  "records_result acc b p off ctx res \<longleftrightarrow> (\<exists>es es'. shown (rec_entries p (dirent_walk p off)) = es @ es'
     \<and> snd (snd res) = snd ctx @ es \<and> (if fst res then es' = [] else es' \<noteq> [] \<and> \<not> acc (snd ctx @ es) (hd es'))
     \<and> (fst (snd res) = fst ctx \<and> es = []
        \<or> (\<exists>x \<in> set (dirent_walk p off). fst (snd res) = 2 + b * 3824 + (x + d_rec_len p x)
             \<and> shown (rec_entries p (dirent_walk p (x + d_rec_len p x))) = es')))"

lemma readdir_records_spec:
  assumes "length p = 4096"
  shows "records_result acc b p off ctx (readdir_records acc b p off ctx)"
proof (induction off arbitrary: ctx rule: walk_induct [of p])
  case (invalid off)
  then show ?case by (subst readdir_records.simps) (simp add: records_result_def walk_invalid)
next
  case (valid off)
  note v = validD(1,2,4) [OF valid(1)] and w = walk_valid [OF valid(1)]
  let ?n = "off + d_rec_len p off"
  let ?e = "(d_name p off, d_ino p off, dirent_dt (d_file_type p off))"
  let ?live = "d_ino p off \<noteq> 0 \<and> \<not> dirent_is_dot p off"
  let ?ctx = "(2 + b * 3824 + ?n, if ?live then snd ctx @ [?e] else snd ctx)"
  have s: "shown (rec_entries p (dirent_walk p off)) = (if ?live then [?e] else []) @ shown (rec_entries p (dirent_walk p ?n))"
    using dot_name [OF valid(1) assms] by (simp add: w rec_entries_Cons)
  show ?case
  proof (cases "?live \<and> \<not> acc (snd ctx) ?e")
    case True
    then have "readdir_records acc b p off ctx = (False, ctx)"
      using v valid(1) by (subst readdir_records.simps) simp
    then show ?thesis using True s by (simp add: records_result_def)
  next
    case False
    then have e: "readdir_records acc b p off ctx = readdir_records acc b p ?n ?ctx"
      using v valid(1) by (subst readdir_records.simps) (auto simp: Let_def)
    obtain es es' where r: "shown (rec_entries p (dirent_walk p ?n)) = es @ es'"
      "snd (snd (readdir_records acc b p ?n ?ctx)) = snd ?ctx @ es"
      "if fst (readdir_records acc b p ?n ?ctx) then es' = [] else es' \<noteq> [] \<and> \<not> acc (snd ?ctx @ es) (hd es')"
      "fst (snd (readdir_records acc b p ?n ?ctx)) = 2 + b * 3824 + ?n \<and> es = []
        \<or> (\<exists>x \<in> set (dirent_walk p ?n). fst (snd (readdir_records acc b p ?n ?ctx)) = 2 + b * 3824 + (x + d_rec_len p x)
             \<and> shown (rec_entries p (dirent_walk p (x + d_rec_len p x))) = es')"
      using valid(2) [of ?ctx] by (auto simp only: records_result_def fst_conv)
    show ?thesis unfolding records_result_def e
      by (rule exI [of _ "(if ?live then [?e] else []) @ es"], rule exI [of _ es']) (use r s w in auto)
  qed
qed

lemma records_result_agree:
  assumes "agree p q 0 3824" "records_result acc b q off ctx res"
  shows "records_result acc b p off ctx res"
proof -
  have w: "dirent_walk q off = dirent_walk p off" using walk_agree_payload [OF assms(1)] by simp
  have "d_rec_len q x = d_rec_len p x" if "x \<in> set (dirent_walk p off)" for x
    by (rule record_agree(2) [OF assms(1) walk_all_valid [OF that]])
  then show ?thesis using assms(2) unfolding records_result_def rec_entries_walk_agree [OF assms(1)] w
    by (simp only: rec_entries_walk_agree [OF assms(1), of off, unfolded w] cong: bex_cong)
qed

subsection \<open>One call\<close>

text \<open>What a call may leave: a beginning has been given out; the position is at the rest, and there is one
  only when the actor refused its first entry.\<close>

definition call_result :: "actor \<Rightarrow> entry list \<Rightarrow> byte list list \<Rightarrow> entry list \<Rightarrow> entry list \<Rightarrow> 'a volume_scheme
    \<Rightarrow> errno option \<times> dir_ctx \<times> 'a volume_scheme \<Rightarrow> bool" where
  "call_result acc dots ps out todo v res \<longleftrightarrow> (\<exists>pos' es v'. res = (None, (pos', out @ es), v') \<and> keeps v v'
     \<and> todo = es @ remaining dots ps pos' \<and> pos' \<le> INT_MAX
     \<and> (pos' = INT_MAX \<or> remaining dots ps pos' \<noteq> [] \<and> \<not> acc (out @ es) (hd (remaining dots ps pos'))))"

text \<open>The position at the end of a record of block \<open>b\<close>: the records after it, and the blocks after \<open>b\<close>.\<close>

lemma boundary_remaining:
  assumes x: "x \<in> set (dirent_walk p off)" and b: "b < length ps" "length ps \<le> 524" and p: "p = ps ! b"
    and off: "off = (if o' = 0 then 0 else dir_slide p o' 0)" and n: "n = x + d_rec_len p x"
  shows "remaining dots ps (2 + b * 3824 + n) = shown (rec_entries p (dirent_walk p n)) @ shown (dir_entries (drop (Suc b) ps))"
    and "2 + b * 3824 + n \<le> INT_MAX"
proof -
  have le: "0 < n" "n \<le> 3824" using walk_all_valid [OF x] validD(1,2) [of p x] n by auto
  then show "2 + b * 3824 + n \<le> INT_MAX" using b by linarith
  have sl: "dir_slide p n 0 = n"
  proof (cases "o' = 0")
    case True
    then show ?thesis using slide_boundary [OF _ n, of 0] x off by simp
  next
    case False
    then show ?thesis using slide_through [OF _ n, of o' 0] x off by simp
  qed
  show "remaining dots ps (2 + b * 3824 + n) = shown (rec_entries p (dirent_walk p n)) @ shown (dir_entries (drop (Suc b) ps))"
  proof (cases "n = 3824")
    case True
    then have "remaining dots ps (2 + b * 3824 + n) = rest_from ps (Suc b) 0" using b by (simp add: remaining_def)
    moreover have "\<not> beamfs_dirent_valid p 3824" using validD(1,2) [of p 3824] by auto
    ultimately show ?thesis using True by (simp add: rest_from_0 walk_invalid)
  next
    case False
    then show ?thesis using remaining_at [of b n dots ps] sl le b p by (auto simp: rest_from_def page_from_def)
  qed
qed

lemma call_result_prepend:
  "call_result acc dots ps (out @ es) todo v res \<Longrightarrow> call_result acc dots ps out (es @ todo) v res"
  unfolding call_result_def by (metis append.assoc)

text \<open>A block given out: the rest of the directory is at the new position.\<close>

lemma block_left:
  assumes r: "records_result acc b p off (pos, out) (fin, pos', out')" and b: "b < length ps" "length ps \<le> 524" and p: "p = ps ! b"
    and off: "off = (if o' = 0 then 0 else dir_slide p o' 0)" and pos: "remaining dots ps pos = rest_from ps b o'" and le: "pos \<le> INT_MAX"
  obtains es where "out' = out @ es" "rest_from ps b o' = es @ remaining dots ps pos'" "pos' \<le> INT_MAX"
    "fin \<Longrightarrow> remaining dots ps pos' = rest_from ps (Suc b) 0"
    "\<not> fin \<Longrightarrow> remaining dots ps pos' \<noteq> [] \<and> \<not> acc (out @ es) (hd (remaining dots ps pos'))"
proof -
  obtain es es' where e: "shown (rec_entries p (dirent_walk p off)) = es @ es'" "out' = out @ es"
    "if fin then es' = [] else es' \<noteq> [] \<and> \<not> acc (out @ es) (hd es')"
    "pos' = pos \<and> es = [] \<or> (\<exists>x \<in> set (dirent_walk p off). pos' = 2 + b * 3824 + (x + d_rec_len p x)
             \<and> shown (rec_entries p (dirent_walk p (x + d_rec_len p x))) = es')"
    using r unfolding records_result_def fst_conv snd_conv by blast
  let ?r = "shown (dir_entries (drop (Suc b) ps))"
  have R: "rest_from ps b o' = es @ es' @ ?r" using e(1) b p off by (auto simp: rest_from_def page_from_def)
  have "remaining dots ps pos' = es' @ ?r \<and> pos' \<le> INT_MAX"
  proof (cases "pos' = pos \<and> es = []")
    case True
    then show ?thesis using pos R le by simp
  next
    case False
    then obtain x where x: "x \<in> set (dirent_walk p off)" "pos' = 2 + b * 3824 + (x + d_rec_len p x)"
      "shown (rec_entries p (dirent_walk p (x + d_rec_len p x))) = es'" using e(4) by blast
    note br = boundary_remaining [OF x(1) b p off refl]
    show ?thesis using br(1) [of dots] br(2) x(2,3) by simp
  qed
  then show thesis using that [OF e(2)] e(3) R by (auto simp: rest_from_0 split: if_splits)
qed

lemma readdir_blocks_spec:
  assumes K: "kernel_lib K" and so: "so < 3824" and "layout_ok v" "dir_rep K v dir bs ps" "b \<le> 524" "sb \<le> int b"
    and "remaining dots ps pos = rest_from ps b (if int b = sb then so else 0)" "pos \<le> INT_MAX"
  shows "call_result acc dots ps out (remaining dots ps pos) v (readdir_blocks K acc dir sb so (int b) (pos, out) v)"
  using assms(3-)
proof (induction "524 - b" arbitrary: b v pos out)
  case 0
  then have "remaining dots ps pos = []" using dir_repD(2,3) [OF 0(3)] by (simp add: rest_from_def)
  moreover have "remaining dots ps INT_MAX = []" by (simp add: remaining_def)
  ultimately show ?case using 0 by (subst readdir_blocks.simps) (simp add: call_result_def)
next
  case (Suc n)
  then have b: "b < 524" and n: "n = 524 - Suc b" by simp_all
  note lp = dir_repD(2,3) [OF Suc.prems(2)] and g = dir_get_block_read [OF Suc.prems(2) b]
  let ?o = "if int b = sb then so else 0"
  have ub: "unat (word_of_int (int b) :: u32) = b" using b by (simp add: unat_of_nat)
  show ?case
  proof (cases "b < length bs")
    case True
    obtain bh m q w where r: "bs ! b \<noteq> 0" "beamfs_bread v (bs ! b) = (Some bh, v)" 
      "beamfs_dirent_decode K v (bs ! b) (b_data bh) = (Inr m, q, w)" "agree (ps ! b) q 0 3824" "tidy q"
      "keeps v w" "layout_ok w" "dir_rep K w dir bs ps"
      using dir_read_page [OF K Suc.prems(1,2) True] by metis
    let ?off = "if ?o = 0 then 0 else dir_slide (ps ! b) ?o 0"
    obtain fin pos' out' where rr: "readdir_records acc b q ?off (pos, out) = (fin, pos', out')" by (metis prod_cases3)
    have rp: "records_result acc b (ps ! b) ?off (pos, out) (fin, pos', out')"
      using records_result_agree [OF r(4)] readdir_records_spec [OF tidy_length [OF r(5)], of acc b ?off "(pos, out)"] rr by simp
    have bp: "b < length ps" "length ps \<le> 524" using True lp by simp_all
    obtain es where e: "out' = out @ es" "rest_from ps b ?o = es @ remaining dots ps pos'" "pos' \<le> INT_MAX"
      "fin \<Longrightarrow> remaining dots ps pos' = rest_from ps (Suc b) 0"
      "\<not> fin \<Longrightarrow> remaining dots ps pos' \<noteq> [] \<and> \<not> acc (out @ es) (hd (remaining dots ps pos'))"
      using block_left [OF rp bp refl refl Suc.prems(5,6)] by metis
    have st: "readdir_blocks K acc dir sb so (int b) (pos, out) v
        = (if fin then readdir_blocks K acc dir sb so (int (Suc b)) (pos', out') w else (None, (pos', out'), w))"
      using True b g r(1-3) rr so slide_agree [OF r(4)] ub
      by (subst readdir_blocks.simps) (auto simp: Let_def add.commute)
    show ?thesis
    proof (cases fin)
      case True
      have "call_result acc dots ps out' (remaining dots ps pos') w (readdir_blocks K acc dir sb so (int (Suc b)) (pos', out') w)"
        using Suc.hyps(1) [OF n r(7,8), of pos' out'] e(3,4) True b Suc.prems(4) by simp
      then show ?thesis unfolding st using True e(1,2) Suc.prems(5) keeps_trans [OF r(6)]
        by (auto simp: call_result_def)
    next
      case False
      then show ?thesis unfolding st using e r(6) Suc.prems(5) by (auto simp: call_result_def)
    qed
  next
    case False
    then have "remaining dots ps pos = []" using Suc.prems(5) lp by (simp add: rest_from_def)
    moreover have "remaining dots ps INT_MAX = []" by (simp add: remaining_def)
    ultimately show ?thesis using g b False ub by (subst readdir_blocks.simps) (simp add: call_result_def)
  qed
qed

text \<open>\<^verbatim>\<open>dir_emit_dots\<close> as the kernel documents it: the dot entries still owed are offered in turn, and the
  position counts those taken.\<close>

locale dot_emitter =
  fixes emit_dots :: "actor \<Rightarrow> dir_ctx \<Rightarrow> bool \<times> dir_ctx" and dot dotdot :: entry
  assumes dots_0: "emit_dots acc (0, out) = (if acc out dot then emit_dots acc (1, out @ [dot]) else (False, 0, out))"
    and dots_1: "emit_dots acc (1, out) = (if acc out dotdot then (True, 2, out @ [dotdot]) else (False, 1, out))"
begin

lemma dots_result:
  assumes "pos < 2" "emit_dots acc (pos, out) = (ok, pos', out')"
  shows "\<exists>es. out' = out @ es \<and> drop pos [dot, dotdot] = es @ drop pos' [dot, dotdot] \<and> (ok \<longrightarrow> pos' = 2)
    \<and> (\<not> ok \<longrightarrow> pos' < 2 \<and> \<not> acc (out @ es) (hd (drop pos' [dot, dotdot])))"
proof -
  consider "pos = 0" | "pos = 1" using assms(1) by linarith
  then show ?thesis using assms(2) by cases (auto simp: dots_0 dots_1 [unfolded One_nat_def] split: if_splits)
qed

end

text \<open>A call from any position the VFS can seek a directory to.\<close>

lemma readdir_call:
  assumes K: "kernel_lib K" and D: "dot_emitter emit_dots dot dotdot" and lay: "layout_ok v" and rep: "dir_rep K v dir bs ps"
    and ok: "s_scratch_ok v" and pos: "pos \<le> INT_MAX"
  shows "call_result acc [dot, dotdot] ps out (remaining [dot, dotdot] ps pos) v (beamfs_readdir K emit_dots acc v dir (pos, out))"
proof -
  let ?dots = "[dot, dotdot]"
  have go: "call_result acc ?dots ps out' (remaining ?dots ps pos') v
      (readdir_blocks K acc dir (int b) ofs (int b) (pos', out') v)"
    if "2 \<le> pos'" "pos' < INT_MAX" "b = (pos' - 2) div 3824" "ofs = (pos' - 2) mod 3824" for pos' out' b ofs
  proof (cases "b \<le> 524")
    case True
    then show ?thesis using readdir_blocks_spec [OF K _ lay rep True, of ofs "int b" ?dots pos' acc out'] that
      by (simp add: remaining_def)
  next
    case False
    then have "remaining ?dots ps pos' = []" using that dir_repD(2,3) [OF rep] by (simp add: remaining_def rest_from_def)
    then show ?thesis using False by (subst readdir_blocks.simps) (simp add: call_result_def remaining_def)
  qed
  have sb: "sint (word_of_nat (x div 3824) :: u32) = int (x div 3824)" if "x < INT_MAX" for x
  proof -
    have "x div 3824 < 2 ^ 31" using that by (simp add: less_mult_imp_div_less)
    then show ?thesis using int_word_sint [where 'a = 32, of "int (x div 3824)"] by simp
  qed
  have tail: "call_result acc ?dots ps out' (remaining ?dots ps pos') v
      (let p = (if pos' \<le> 2 then 0 else pos' - 2); start_block = sint (word_of_nat (p div BEAMFS_DATA_INLINE_BYTES) :: u32);
           start_off = p mod BEAMFS_DATA_INLINE_BYTES
       in readdir_blocks K acc dir start_block start_off start_block (pos', out') v)"
    if "2 \<le> pos'" "pos' < INT_MAX" for pos' out'
    using go [OF that refl refl, of out'] sb [of "pos' - 2"] that by (cases "pos' = 2") (simp_all add: Let_def)
  consider "pos = INT_MAX" | "2 \<le> pos" "pos < INT_MAX" | "pos < 2" using pos by linarith
  then show ?thesis
  proof cases
    case 1
    then show ?thesis by (simp add: beamfs_readdir_def call_result_def remaining_def)
  next
    case 2
    then show ?thesis using tail [OF 2, of out] ok by (cases "pos = 2") (simp_all add: beamfs_readdir_def Let_def)
  next
    case 3
    obtain t pos' out' where em: "emit_dots acc (pos, out) = (t, pos', out')" by (metis prod_cases3)
    obtain es where es: "out' = out @ es" "drop pos ?dots = es @ drop pos' ?dots" "t \<Longrightarrow> pos' = 2"
      "\<not> t \<Longrightarrow> pos' < 2 \<and> \<not> acc (out @ es) (hd (drop pos' ?dots))"
      using dot_emitter.dots_result [OF D 3 em] by blast
    show ?thesis
    proof (cases t)
      case True
      have "remaining ?dots ps pos = es @ remaining ?dots ps 2" using True 3 es(2,3) by (simp add: remaining_def)
      then show ?thesis using True call_result_prepend [OF tail [of 2 out', unfolded es(1)]] 3 em es(1,3) ok
        by (simp add: beamfs_readdir_def Let_def)
    next
      case False
      then have "drop pos' ?dots \<noteq> []" using es(4) by auto
      then show ?thesis using False 3 em es by (auto simp: beamfs_readdir_def call_result_def remaining_def)
    qed
  qed
qed

subsection \<open>Calls until the end\<close>

text \<open>A reader: one call per actor, each from the position the last one left, until an error.\<close>

primrec readdir_all ::
    "kenv \<Rightarrow> (actor \<Rightarrow> dir_ctx \<Rightarrow> bool \<times> dir_ctx) \<Rightarrow> ino \<Rightarrow> actor list \<Rightarrow> nat \<Rightarrow> 'a volume_scheme
       \<Rightarrow> errno option \<times> entry list \<times> nat \<times> 'a volume_scheme" where
  "readdir_all K emit_dots dir [] pos v = (None, [], pos, v)"
| "readdir_all K emit_dots dir (acc # accs) pos v =
     (case beamfs_readdir K emit_dots acc v dir (pos, []) of
        (Some e, (pos, es), v) \<Rightarrow> (Some e, es, pos, v)
      | (None, (pos, es), v) \<Rightarrow>
          (case readdir_all K emit_dots dir accs pos v of (r, es', pos, v) \<Rightarrow> (r, es @ es', pos, v)))"

lemma readdir_all_spec:
  assumes K: "kernel_lib K" and D: "dot_emitter emit_dots dot dotdot" and "layout_ok v" "dir_rep K v dir bs ps" "s_scratch_ok v" "pos \<le> INT_MAX"
    and some: "\<forall>acc \<in> set accs. \<forall>e. acc [] e"
  shows "\<exists>es pos' v'. readdir_all K emit_dots dir accs pos v = (None, es, pos', v') \<and> keeps v v'
    \<and> remaining [dot, dotdot] ps pos = es @ remaining [dot, dotdot] ps pos'
    \<and> (pos' = INT_MAX \<or> length accs \<le> length es \<and> (accs \<noteq> [] \<longrightarrow> remaining [dot, dotdot] ps pos' \<noteq> []))"
  using assms(3-)
proof (induction accs arbitrary: pos v)
  case (Cons acc accs)
  let ?R = "remaining [dot, dotdot] ps"
  obtain pos1 es1 v1 where c: "beamfs_readdir K emit_dots acc v dir (pos, []) = (None, (pos1, es1), v1)" "keeps v v1"
    "?R pos = es1 @ ?R pos1" "pos1 \<le> INT_MAX" "pos1 = INT_MAX \<or> ?R pos1 \<noteq> [] \<and> \<not> acc es1 (hd (?R pos1))"
    using readdir_call [OF K D Cons.prems(1-4), of acc "[]"] by (auto simp: call_result_def)
  have one: "pos1 = INT_MAX \<or> es1 \<noteq> []" using c(5) Cons.prems(5) by (metis list.set_intros(1))
  obtain es pos' v' where r: "readdir_all K emit_dots dir accs pos1 v1 = (None, es, pos', v')" "keeps v1 v'"
    "?R pos1 = es @ ?R pos'" "pos' = INT_MAX \<or> length accs \<le> length es \<and> (accs \<noteq> [] \<longrightarrow> ?R pos' \<noteq> [])"
    using Cons.IH [of v1 pos1] keeps_layout [OF c(2)] dir_rep_keeps [OF Cons.prems(2) c(2)] frameD(6) [OF keeps_frame [OF c(2)]] c(4) Cons.prems
    by auto
  have end': "pos1 = INT_MAX \<longrightarrow> pos' = INT_MAX" if "accs \<noteq> []"
    using r(3,4) that by (auto simp: remaining_def)
  have "pos' = INT_MAX \<or> length (acc # accs) \<le> length (es1 @ es) \<and> ?R pos' \<noteq> []"
  proof (cases "accs = []")
    case True
    then show ?thesis using r(1) c(5) one by (auto simp: Suc_le_eq)
  next
    case False
    then show ?thesis using end' r(4) one by (cases es1) auto
  qed
  then show ?case using c(1,3) r(1,3) keeps_trans [OF c(2) r(2)] by simp
qed (auto intro!: exI)

text \<open>C14: Reading a directory ends and returns everything once. Whatever calls are made one after the other, each
  from the position the last one left, what they return together is a beginning of the two dot entries
  followed by the live entries in their order, and the rest of them is what remains at the position. When
  each call takes at least one entry, as many calls as there are entries are enough to reach the end of
  directory mark, and then every entry has been returned exactly once and none twice.\<close>
theorem readdir_reaches_end:
  assumes "kernel_lib K" "dot_emitter emit_dots dot dotdot" "layout_ok v" "dir_rep K v dir bs ps" "s_scratch_ok v"
    and "\<forall>acc \<in> set accs. \<forall>e. acc [] e"
  shows "\<exists>es pos v'. readdir_all K emit_dots dir accs 0 v = (None, es, pos, v') \<and> keeps v v'
    \<and> dot # dotdot # shown (dir_entries ps) = es @ remaining [dot, dotdot] ps pos
    \<and> (length (shown (dir_entries ps)) + 2 \<le> length accs \<longrightarrow> pos = INT_MAX \<and> es = dot # dotdot # shown (dir_entries ps))"
proof -
  have all: "remaining [dot, dotdot] ps 0 = dot # dotdot # shown (dir_entries ps)" by (simp add: remaining_def rest_from_0)
  obtain es pos v' where r: "readdir_all K emit_dots dir accs 0 v = (None, es, pos, v')" "keeps v v'"
    "dot # dotdot # shown (dir_entries ps) = es @ remaining [dot, dotdot] ps pos"
    "pos = INT_MAX \<or> length accs \<le> length es \<and> (accs \<noteq> [] \<longrightarrow> remaining [dot, dotdot] ps pos \<noteq> [])"
    using readdir_all_spec [OF assms(1-5) _ assms(6), of 0] all by auto
  have "pos = INT_MAX" if "length (shown (dir_entries ps)) + 2 \<le> length accs"
  proof (rule ccontr)
    assume "pos \<noteq> INT_MAX"
    then have "length accs \<le> length es" "remaining [dot, dotdot] ps pos \<noteq> []" using r(4) that by auto
    moreover from this(2) have "0 < length (remaining [dot, dotdot] ps pos)" by simp
    moreover have "2 + length (shown (dir_entries ps)) = length es + length (remaining [dot, dotdot] ps pos)"
      using arg_cong [OF r(3), of length] by simp
    ultimately show False using that by linarith
  qed
  then show ?thesis using r by (auto simp: remaining_def)
qed

text \<open>The kernel's helper, and a reader that takes one entry at a time.\<close>

definition port_emit_dots :: "actor \<Rightarrow> dir_ctx \<Rightarrow> bool \<times> dir_ctx" where
  "port_emit_dots acc ctx =
     (let (ok, ctx) = (if fst ctx = 0
                       then if acc (snd ctx) ([0x2E], 1, DT_DIR) then (True, 1, snd ctx @ [([0x2E], 1, DT_DIR)]) else (False, ctx)
                       else (True, ctx))
      in if \<not> ok then (False, ctx)
         else if fst ctx = 1
         then if acc (snd ctx) ([0x2E, 0x2E], 1, DT_DIR) then (True, 2, snd ctx @ [([0x2E, 0x2E], 1, DT_DIR)]) else (False, ctx)
         else (True, ctx))"

interpretation pdots: dot_emitter port_emit_dots "([0x2E], 1, DT_DIR)" "([0x2E, 0x2E], 1, DT_DIR)"
  by unfold_locales (simp_all add: port_emit_dots_def)

theorem readdir_reaches_end_witness:
  "\<exists>v'. readdir_all port_kenv port_emit_dots 1 (replicate 3 (\<lambda>es e. es = [])) 0 wit_dvol
     = (None, [([0x2E], 1, DT_DIR), ([0x2E, 0x2E], 1, DT_DIR), ([0x61], 2, DT_REG)], INT_MAX, v') \<and> keeps wit_dvol v'"
  using readdir_reaches_end [OF kport.kernel_lib_axioms pdots.dot_emitter_axioms wit_dvol_ok(2,4,3), of "replicate 3 (\<lambda>es e. es = [])"]
  by (auto simp: wit_page(2) dirent_dt_def simp del: readdir_all.simps)

end
