(* ===== verification/DataBlock.thy ===== *)
theory DataBlock
  imports Frame
begin

section \<open>Data blocks\<close>

text \<open>
  A block of file data as \<^verbatim>\<open>file_inline.c\<close> lays it down and reads it back, in the two layouts a volume can
  have. Alternating: sixteen runs of 239 bytes with the parity of each behind it, the descriptor in the
  sixteen bytes left at the end. Capsule: 3808 bytes of payload and the descriptor behind them, all of it
  inside sixteen interleaved codewords. The descriptor holds a checksum of the payload and a digest of
  the inode and the index the block was written for.

  Shown: whatever slice of the payload is asked for comes back from a block damaged up to the radius of the
  code; a block reached for another inode or another index is refused; a refused read names the wrong
  block in the journal.
\<close>

subsection \<open>Layout\<close>

abbreviation (input) BEAMFS_DATA_INLINE_TOTAL :: nat where "BEAMFS_DATA_INLINE_TOTAL \<equiv> 4080"
abbreviation (input) BEAMFS_DATA_INLINE_PAD :: nat where "BEAMFS_DATA_INLINE_PAD \<equiv> 16"
abbreviation (input) BEAMFS_CAPSULE_DATA_OFF :: nat where "BEAMFS_CAPSULE_DATA_OFF \<equiv> 0"
abbreviation (input) BEAMFS_CAPSULE_DATA_BYTES :: nat where "BEAMFS_CAPSULE_DATA_BYTES \<equiv> 3808"
abbreviation (input) BEAMFS_CAPSULE_CSUM_OFF :: nat where "BEAMFS_CAPSULE_CSUM_OFF \<equiv> 3808"
abbreviation (input) BEAMFS_CAPSULE_SELFID_OFF :: nat where "BEAMFS_CAPSULE_SELFID_OFF \<equiv> 3816"
abbreviation (input) BEAMFS_CAPSULE_PARITY_OFF :: nat where "BEAMFS_CAPSULE_PARITY_OFF \<equiv> 3824"
abbreviation (input) BEAMFS_DATA_CSUM_TYPE_OFF :: nat where "BEAMFS_DATA_CSUM_TYPE_OFF \<equiv> 4080"
abbreviation (input) BEAMFS_DATA_SELFID_OFF :: nat where "BEAMFS_DATA_SELFID_OFF \<equiv> 4088"

definition BEAMFS_CSUM_CRC32 :: byte where "BEAMFS_CSUM_CRC32 = 1"
definition BEAMFS_FEATURE_INCOMPAT_RS_INTERLEAVE :: u64 where
  "BEAMFS_FEATURE_INCOMPAT_RS_INTERLEAVE = 0x40000"

definition interleaved :: "'a volume_scheme \<Rightarrow> bool" where
  "interleaved v \<longleftrightarrow> s_feat_incompat v AND BEAMFS_FEATURE_INCOMPAT_RS_INTERLEAVE \<noteq> 0"

definition beamfs_block_payload :: "'a volume_scheme \<Rightarrow> nat" where
  "beamfs_block_payload v = (if interleaved v then BEAMFS_CAPSULE_DATA_BYTES else BEAMFS_DATA_INLINE_BYTES)"

definition beamfs_desc_off :: "'a volume_scheme \<Rightarrow> nat" where
  "beamfs_desc_off v = (if interleaved v then BEAMFS_CAPSULE_CSUM_OFF else BEAMFS_DATA_CSUM_TYPE_OFF)"

definition beamfs_selfid_off :: "'a volume_scheme \<Rightarrow> nat" where
  "beamfs_selfid_off v = (if interleaved v then BEAMFS_CAPSULE_SELFID_OFF else BEAMFS_DATA_SELFID_OFF)"

definition beamfs_data_selfid :: "kenv \<Rightarrow> u64 \<Rightarrow> u64 \<Rightarrow> u64" where
  "beamfs_data_selfid K ino iblock =
     (let lo = beamfs_crc32 (k_crc32_le K) (cpu_to_le 8 ino);
          hi = beamfs_crc32 (k_crc32_le K) (cpu_to_le 8 iblock)
      in push_bit 32 (ucast hi) OR ucast lo)"

subsection \<open>Writing\<close>

definition beamfs_lay_data_payload :: "'a volume_scheme \<Rightarrow> byte list \<Rightarrow> byte list \<Rightarrow> byte list" where
  "beamfs_lay_data_payload v block payload =
     (if interleaved v
      then put_bytes BEAMFS_CAPSULE_DATA_OFF (get_bytes 0 BEAMFS_CAPSULE_DATA_BYTES payload) block
      else fold (\<lambda>i. put_bytes (i * BEAMFS_SUBBLOCK_TOTAL)
                       (get_bytes (i * BEAMFS_SUBBLOCK_DATA) BEAMFS_SUBBLOCK_DATA payload))
             [0..<BEAMFS_DATA_INLINE_SUBBLOCKS] block)"

definition beamfs_seal_data_block :: "kenv \<Rightarrow> 'a volume_scheme \<Rightarrow> byte list \<Rightarrow> errno option \<times> byte list" where
  "beamfs_seal_data_block K v block =
     (if interleaved v
      then beamfs_rs_encode_woven (k_rs K) block BEAMFS_CAPSULE_DATA_OFF BEAMFS_CAPSULE_PARITY_OFF
             BEAMFS_RS_PARITY BEAMFS_SUBBLOCK_DATA BEAMFS_DATA_INLINE_SUBBLOCKS
      else beamfs_rs_encode_region (k_rs K) block 0 BEAMFS_SUBBLOCK_TOTAL BEAMFS_SUBBLOCK_DATA
             BEAMFS_SUBBLOCK_TOTAL BEAMFS_SUBBLOCK_DATA BEAMFS_DATA_INLINE_SUBBLOCKS)"

definition beamfs_inline_stamp_tail_pad ::
    "kenv \<Rightarrow> 'a volume_scheme \<Rightarrow> byte list \<Rightarrow> byte list \<Rightarrow> u64 \<Rightarrow> u64 \<Rightarrow> byte list" where
  "beamfs_inline_stamp_tail_pad K v block payload ino iblock =
     (let doff = beamfs_desc_off v;
          soff = beamfs_selfid_off v;
          covered = beamfs_block_payload v;
          block = put_bytes BEAMFS_DATA_INLINE_TOTAL (replicate BEAMFS_DATA_INLINE_PAD 0) block;
          block = put_bytes doff (replicate 16 0) block;
          block = (if s_data_csum v
                   then put_le32 (doff + 4) (beamfs_crc32 (k_crc32_le K) (get_bytes 0 covered payload))
                          (block[doff := BEAMFS_CSUM_CRC32])
                   else block)
      in if s_data_selfid v then put_le64 soff (beamfs_data_selfid K ino iblock) block else block)"

definition beamfs_stamp_data_block ::
    "kenv \<Rightarrow> 'a volume_scheme \<Rightarrow> byte list \<Rightarrow> byte list \<Rightarrow> u64 \<Rightarrow> u64 \<Rightarrow> byte list" where
  "beamfs_stamp_data_block = beamfs_inline_stamp_tail_pad"

subsection \<open>Reading\<close>

definition beamfs_inline_payload_crc :: "kenv \<Rightarrow> 'a volume_scheme \<Rightarrow> byte list \<Rightarrow> u32" where
  "beamfs_inline_payload_crc K v codeword =
     (if interleaved v
      then k_crc32_le K 0xFFFFFFFF (get_bytes BEAMFS_CAPSULE_DATA_OFF BEAMFS_CAPSULE_DATA_BYTES codeword) XOR 0xFFFFFFFF
      else fold (\<lambda>i c. k_crc32_le K c (get_bytes (i * BEAMFS_SUBBLOCK_TOTAL) BEAMFS_SUBBLOCK_DATA codeword))
             [0..<BEAMFS_DATA_INLINE_SUBBLOCKS] 0xFFFFFFFF XOR 0xFFFFFFFF)"

definition rmw_flags :: "bool \<Rightarrow> u32" where
  "rmw_flags rmw_path = (if rmw_path then BEAMFS_RS_EVENT_FLAG_RMW_NEUTRALISED else 0)"

text \<open>The decode of the copy. The two arrays it fills are local and not initialised: an early return of
  the interleaved decoder leaves the results as they were, and that decoder has no positions to give. What
  the stack held there is the argument \<open>stale\<close>, the results and the positions of each subblock.\<close>

type_synonym stack = "int list \<times> byte list list"

definition inline_decode_copy ::
    "kenv \<Rightarrow> stack \<Rightarrow> 'a volume_scheme \<Rightarrow> byte list \<Rightarrow> byte list \<times> int list \<times> byte list list" where
  "inline_decode_copy K stale v tmp =
     (if interleaved v
      then
        let (tmp, _, results) =
              beamfs_rs_decode_woven (k_rs K) tmp BEAMFS_CAPSULE_DATA_OFF BEAMFS_CAPSULE_PARITY_OFF
                BEAMFS_RS_PARITY BEAMFS_SUBBLOCK_DATA BEAMFS_DATA_INLINE_SUBBLOCKS
        in (tmp, results @ drop (length results) (fst stale), snd stale)
      else
        let (tmp, _, results, positions) =
              beamfs_rs_decode_region (k_rs K) tmp 0 BEAMFS_SUBBLOCK_TOTAL BEAMFS_SUBBLOCK_DATA BEAMFS_SUBBLOCK_TOTAL
                BEAMFS_SUBBLOCK_DATA BEAMFS_DATA_INLINE_SUBBLOCKS True (BEAMFS_RS_PARITY div 2)
        in (tmp, results, positions))"

definition inline_log_step ::
    "kenv \<Rightarrow> nat \<Rightarrow> bool \<Rightarrow> int list \<Rightarrow> byte list list \<Rightarrow> nat \<Rightarrow> 'a volume_scheme \<times> bool \<Rightarrow> 'a volume_scheme \<times> bool" where
  "inline_log_step K phys rmw_path rs_results rs_positions i = (\<lambda>(v, uncorrectable).
     let rc = rs_results ! i;
         xflags = rmw_flags rmw_path
     in if rc < 0
        then (beamfs_alert_uncorrectable
                (beamfs_log_rs_event_flagged K (k_ktime_ns (s_clk v)) v (word_of_nat phys) None 0
                   BEAMFS_SUBBLOCK_DATA (xflags OR beamfs_rs_event_subblock_bits i)) phys, True)
        else if rc > 0
        then
          let np = min (nat rc) (BEAMFS_RS_PARITY div 2);
              v = beamfs_log_rs_event_flagged K (k_ktime_ns (s_clk v)) v (word_of_nat phys) (Some (rs_positions ! i)) np
                    BEAMFS_SUBBLOCK_DATA (xflags OR beamfs_rs_event_subblock_bits i)
          in (beamfs_budget_record v phys np, uncorrectable)
        else (v, uncorrectable))"

text \<open>The checksum and the identity; \<open>True\<close> is a mismatch, journalled.\<close>

definition inline_refuse :: "kenv \<Rightarrow> 'a volume_scheme \<Rightarrow> nat \<Rightarrow> bool \<Rightarrow> 'a volume_scheme" where
  "inline_refuse K v phys rmw_path =
     beamfs_log_rs_event_flagged K (k_ktime_ns (s_clk v)) v
       (word_of_nat phys * word_of_nat BEAMFS_DATA_INLINE_SUBBLOCKS) None 0 BEAMFS_SUBBLOCK_DATA (rmw_flags rmw_path)"

definition inline_check ::
    "kenv \<Rightarrow> 'a volume_scheme \<Rightarrow> byte list \<Rightarrow> nat \<Rightarrow> u64 \<Rightarrow> u64 \<Rightarrow> bool \<Rightarrow> bool \<times> 'a volume_scheme" where
  "inline_check K v tmp phys ino iblock rmw_path =
     (if s_data_csum v \<and> tmp ! beamfs_desc_off v \<noteq> BEAMFS_CSUM_CRC32
      then (True, inline_refuse K v phys rmw_path)
      else if s_data_csum v \<and> get_le32 (beamfs_desc_off v + 4) tmp \<noteq> beamfs_inline_payload_crc K v tmp
      then (True, inline_refuse K v phys rmw_path)
      else if s_data_selfid v \<and> beamfs_data_selfid K ino iblock \<noteq> get_le64 (beamfs_selfid_off v) tmp
      then (True, inline_refuse K v phys rmw_path)
      else (False, v))"

definition inline_slice :: "'a volume_scheme \<Rightarrow> byte list \<Rightarrow> nat \<Rightarrow> nat \<Rightarrow> byte list" where
  "inline_slice v tmp slice_offset slice_length =
     (let slice_end = slice_offset + slice_length;
          sb_first = slice_offset div BEAMFS_SUBBLOCK_DATA;
          sb_last = (slice_end - 1) div BEAMFS_SUBBLOCK_DATA
      in if interleaved v
         then get_bytes (BEAMFS_CAPSULE_DATA_OFF + slice_offset) slice_length tmp
         else
           concat (map (\<lambda>sb_idx.
             let sb_user_start = sb_idx * BEAMFS_SUBBLOCK_DATA;
                 sb_user_end = sb_user_start + BEAMFS_SUBBLOCK_DATA;
                 from_in_sb = (if slice_offset > sb_user_start then slice_offset - sb_user_start else 0);
                 to_in_sb = (if slice_end < sb_user_end then slice_end - sb_user_start else BEAMFS_SUBBLOCK_DATA);
                 copy_len = to_in_sb - from_in_sb
             in get_bytes (sb_idx * BEAMFS_SUBBLOCK_TOTAL + from_in_sb) copy_len tmp) [sb_first..<sb_last + 1]))"

text \<open>The result is the bytes copied to the destination, which every caller provides.\<close>

definition beamfs_inline_decode_block_into_buf ::
    "kenv \<Rightarrow> stack \<Rightarrow> 'a volume_scheme \<Rightarrow> byte list \<Rightarrow> nat \<Rightarrow> u64 \<Rightarrow> u64 \<Rightarrow> nat \<Rightarrow> nat \<Rightarrow> bool
       \<Rightarrow> (errno + byte list) \<times> 'a volume_scheme" where
  "beamfs_inline_decode_block_into_buf K stale v raw phys ino iblock slice_offset slice_length rmw_path =
     (if phys = 0 then (Inl EINVAL, v)
      else if slice_length = 0 then (Inl EINVAL, v)
      else if slice_offset + slice_length > BEAMFS_DATA_INLINE_BYTES then (Inl EINVAL, v)
      else if \<not> s_scratch_ok v then (Inl ENOMEM, v)
      else
        let (tmp, rs_results, rs_positions) = inline_decode_copy K stale v (get_bytes 0 BEAMFS_BLOCK_SIZE raw);
            (v, uncorrectable) = fold (inline_log_step K phys rmw_path rs_results rs_positions)
                                   [0..<BEAMFS_DATA_INLINE_SUBBLOCKS] (v, False)
        in if uncorrectable then (Inl EIO, v)
           else
             let (bad, v) = inline_check K v tmp phys ino iblock rmw_path
             in if bad then (Inl EIO, v) else (Inr (inline_slice v tmp slice_offset slice_length), v))"

definition beamfs_inline_decode_symlink ::
    "kenv \<Rightarrow> stack \<Rightarrow> 'a volume_scheme \<Rightarrow> byte list \<Rightarrow> nat \<Rightarrow> u64 \<Rightarrow> nat \<Rightarrow> (errno + byte list) \<times> 'a volume_scheme" where
  "beamfs_inline_decode_symlink K stale v raw phys ino len =
     (if len > beamfs_block_payload v then (Inl EUCLEAN, v)
      else beamfs_inline_decode_block_into_buf K stale v raw phys ino 0 0 len False)"

subsection \<open>What a sealed block holds\<close>

lemma layout_cong:
  assumes "keeps v v'"
  shows "interleaved v' = interleaved v" "beamfs_desc_off v' = beamfs_desc_off v" "beamfs_selfid_off v' = beamfs_selfid_off v"
    "beamfs_block_payload v' = beamfs_block_payload v" "s_data_csum v' = s_data_csum v" "s_data_selfid v' = s_data_selfid v"
proof -
  show "interleaved v' = interleaved v"
    using frameD(13) [OF keeps_frame [OF assms]] by (simp add: interleaved_def)
  then show "beamfs_desc_off v' = beamfs_desc_off v" "beamfs_selfid_off v' = beamfs_selfid_off v"
    "beamfs_block_payload v' = beamfs_block_payload v"
    by (simp_all add: beamfs_desc_off_def beamfs_selfid_off_def beamfs_block_payload_def)
  show "s_data_csum v' = s_data_csum v" "s_data_selfid v' = s_data_selfid v"
    using frameD(14,15) [OF keeps_frame [OF assms]] by simp_all
qed

text \<open>The payload and the descriptor as the readers find them.\<close>

definition holds_payload :: "'a volume_scheme \<Rightarrow> byte list \<Rightarrow> byte list \<Rightarrow> bool" where
  "holds_payload v t payload \<longleftrightarrow>
     (if interleaved v then get_bytes 0 3808 t = payload
      else \<forall>s < 16. get_bytes (s * 255) 239 t = get_bytes (s * 239) 239 payload)"

definition holds_data :: "kenv \<Rightarrow> 'a volume_scheme \<Rightarrow> byte list \<Rightarrow> byte list \<Rightarrow> u64 \<Rightarrow> u64 \<Rightarrow> bool" where
  "holds_data K v t payload ino iblock \<longleftrightarrow>
     length t = 4096 \<and> holds_payload v t payload
     \<and> (s_data_csum v \<longrightarrow> t ! beamfs_desc_off v = BEAMFS_CSUM_CRC32
          \<and> get_le32 (beamfs_desc_off v + 4) t = beamfs_crc32 (k_crc32_le K) payload)
     \<and> (s_data_selfid v \<longrightarrow> get_le64 (beamfs_selfid_off v) t = beamfs_data_selfid K ino iblock)"

lemma fold_lay:
  assumes "length block = 4096" "length payload = 3824" "n \<le> 16"
  shows "length (fold (\<lambda>i. put_bytes (i * 255) (get_bytes (i * 239) 239 payload)) [0..<n] block) = 4096
    \<and> (\<forall>s < n. get_bytes (s * 255) 239 (fold (\<lambda>i. put_bytes (i * 255) (get_bytes (i * 239) 239 payload)) [0..<n] block)
          = get_bytes (s * 239) 239 payload)"
  using assms(3)
proof (induction n)
  case (Suc n)
  let ?b = "fold (\<lambda>i. put_bytes (i * 255) (get_bytes (i * 239) 239 payload)) [0..<n] block"
  have lb: "length ?b = 4096" and IH: "\<And>s. s < n \<Longrightarrow> get_bytes (s * 255) 239 ?b = get_bytes (s * 239) 239 payload"
    using Suc by simp_all
  have lp: "length (get_bytes (n * 239) 239 payload) = 239" using Suc.prems assms(2) by simp
  have lb': "length (put_bytes (n * 255) (get_bytes (n * 239) 239 payload) ?b) = 4096"
    using lb lp Suc.prems by simp
  have "get_bytes (s * 255) 239 (put_bytes (n * 255) (get_bytes (n * 239) 239 payload) ?b) = get_bytes (s * 239) 239 payload"
    if "s < Suc n" for s
  proof (cases "s = n")
    case True
    then show ?thesis using get_put_same [of "n * 255" "get_bytes (n * 239) 239 payload" ?b] lb lp Suc.prems by simp
  next
    case False
    then have sn: "s < n" using that by simp
    have "get_bytes (s * 255) 239 (put_bytes (n * 255) (get_bytes (n * 239) 239 payload) ?b) = get_bytes (s * 255) 239 ?b"
      using sn lb lp Suc.prems by (intro get_put_apart) (auto simp: apart_def)
    then show ?thesis using IH [OF sn] by simp
  qed
  then show ?case using lb' by simp
qed (use assms in simp)

lemma lay_payload:
  assumes "length block = 4096" "length payload = beamfs_block_payload v"
  shows "length (beamfs_lay_data_payload v block payload) = 4096"
    and "holds_payload v (beamfs_lay_data_payload v block payload) payload"
proof -
  have "length (beamfs_lay_data_payload v block payload) = 4096 \<and> holds_payload v (beamfs_lay_data_payload v block payload) payload"
  proof (cases "interleaved v")
    case True
    then have p: "length payload = 3808" "get_bytes 0 3808 payload = payload"
      using assms(2) by (simp_all add: beamfs_block_payload_def get_bytes_def)
    then show ?thesis using True assms(1) get_put_same [of 0 payload block]
      by (simp add: beamfs_lay_data_payload_def holds_payload_def)
  next
    case False
    then have "length payload = 3824" using assms(2) by (simp add: beamfs_block_payload_def)
    from fold_lay [OF assms(1) this order_refl] show ?thesis
      using False unfolding beamfs_lay_data_payload_def holds_payload_def by simp
  qed
  then show "length (beamfs_lay_data_payload v block payload) = 4096"
    "holds_payload v (beamfs_lay_data_payload v block payload) payload" by simp_all
qed

lemma get_bytes_cong:
  assumes "length t' = length t" "off + n \<le> length t" "\<And>j. off \<le> j \<Longrightarrow> j < off + n \<Longrightarrow> t' ! j = t ! j"
  shows "get_bytes off n t' = get_bytes off n t"
  by (rule nth_equalityI) (use assms in \<open>auto simp: nth_get_bytes\<close>)

text \<open>Every byte of the payload lies before the descriptor.\<close>

lemma holds_payload_cong:
  assumes "length t = 4096" "length t' = 4096" "\<And>j. j < beamfs_desc_off v \<Longrightarrow> t' ! j = t ! j"
  shows "holds_payload v t' payload = holds_payload v t payload"
proof (cases "interleaved v")
  case True
  then have "get_bytes 0 3808 t' = get_bytes 0 3808 t"
    using assms by (intro get_bytes_cong) (auto simp: beamfs_desc_off_def)
  then show ?thesis using True by (simp add: holds_payload_def)
next
  case False
  then have "get_bytes (s * 255) 239 t' = get_bytes (s * 255) 239 t" if "s < 16" for s
    using assms that by (intro get_bytes_cong) (auto simp: beamfs_desc_off_def)
  then show ?thesis using False by (simp add: holds_payload_def)
qed

lemma desc_bounds: "beamfs_desc_off v + 16 \<le> 4096" "beamfs_selfid_off v = beamfs_desc_off v + 8" "beamfs_desc_off v \<le> 4080"
    "beamfs_block_payload v \<le> 3824" "beamfs_block_payload v \<le> beamfs_desc_off v"
  by (simp_all add: beamfs_desc_off_def beamfs_selfid_off_def beamfs_block_payload_def)

lemma get_le_upd:
  "length b = 4096 \<Longrightarrow> off + 8 \<le> 4096 \<Longrightarrow> j < off \<or> off + 8 \<le> j \<Longrightarrow> j < 4096 \<Longrightarrow> put_le64 off w b ! j = b ! j"
  "length b = 4096 \<Longrightarrow> off + 4 \<le> 4096 \<Longrightarrow> j < off \<or> off + 4 \<le> j \<Longrightarrow> j < 4096 \<Longrightarrow> put_le32 off w' b ! j = b ! j"
  by (auto simp: put_le64_def put_le32_def nth_put_bytes)

lemma get_le32_put_le64:
  assumes "length b = 4096" "off + 12 \<le> 4096" "k = off + 4"
  shows "get_le32 off (put_le64 k w b) = get_le32 off b"
  using assms by (simp add: get_le32_def put_le64_def get_put_other)

lemma stamp_holds:
  assumes b: "length block = 4096" and p: "length payload = beamfs_block_payload v" "holds_payload v block payload"
  shows "holds_data K v (beamfs_inline_stamp_tail_pad K v block payload ino iblock) payload ino iblock"
proof -
  let ?d = "beamfs_desc_off v" and ?crc = "beamfs_crc32 (k_crc32_le K) payload"
  define b2 where "b2 = put_bytes ?d (replicate 16 0) (put_bytes 4080 (replicate 16 0) block)"
  define b3 where "b3 = (if s_data_csum v then put_le32 (?d + 4) ?crc (b2[?d := BEAMFS_CSUM_CRC32]) else b2)"
  define t where "t = (if s_data_selfid v then put_le64 (?d + 8) (beamfs_data_selfid K ino iblock) b3 else b3)"
  have "get_bytes 0 (beamfs_block_payload v) payload = payload" using p(1) by (simp add: get_bytes_def)
  then have t: "beamfs_inline_stamp_tail_pad K v block payload ino iblock = t"
    unfolding beamfs_inline_stamp_tail_pad_def Let_def t_def b3_def b2_def desc_bounds(2) by simp
  have l: "length b2 = 4096" "length b3 = 4096" "length t = 4096"
    using b desc_bounds(1) [of v] by (simp_all add: b2_def b3_def t_def)
  have "t ! j = block ! j" if "j < ?d" for j
  proof -
    have "b2 ! j = block ! j" using that b desc_bounds(1,3) [of v] by (simp add: b2_def nth_put_bytes)
    moreover have "b3 ! j = b2 ! j" using that l(1) desc_bounds(1,3) [of v] by (simp add: b3_def get_le_upd)
    moreover have "t ! j = b3 ! j" using that l(2) desc_bounds(1,3) [of v] by (simp add: t_def get_le_upd)
    ultimately show ?thesis by simp
  qed
  then have "holds_payload v t payload" using holds_payload_cong [OF b l(3)] p(2) by blast
  moreover have "t ! ?d = BEAMFS_CSUM_CRC32" "get_le32 (?d + 4) t = ?crc" if "s_data_csum v"
  proof -
    have "b3 ! ?d = BEAMFS_CSUM_CRC32" "get_le32 (?d + 4) b3 = ?crc"
      using that l(1) desc_bounds(1,3) [of v] by (simp_all add: b3_def get_le_upd)
    then show "t ! ?d = BEAMFS_CSUM_CRC32" "get_le32 (?d + 4) t = ?crc"
      using l(2) desc_bounds(1,3) [of v] get_le32_put_le64 [of b3 "?d + 4" "?d + 8" "beamfs_data_selfid K ino iblock"]
      by (simp_all add: t_def get_le_upd)
  qed
  moreover have "get_le64 (?d + 8) t = beamfs_data_selfid K ino iblock" if "s_data_selfid v"
    using that l(2) desc_bounds(1) [of v] by (simp add: t_def)
  ultimately show ?thesis using l(3) unfolding t holds_data_def desc_bounds(2) by blast
qed

text \<open>Sealing writes the parity only.\<close>

context rs_library
begin

lemma encode_region_loop_after:
  assumes "length buf = 4096" "set is \<subseteq> {..<16}"
  shows "\<exists>c. rs_encode_region_loop env 0 255 239 255 239 is buf = (None, c) \<and> length c = 4096 \<and> drop 4080 c = drop 4080 buf"
  using assms
proof (induction "is" arbitrary: buf)
  case (Cons i js)
  have i: "i < 16" using Cons.prems(2) by simp
  have d: "length (get_bytes (i * 255) 239 buf) = 239" using i Cons.prems(1) by simp
  let ?p = "parity (get_bytes (i * 255) 239 buf)"
  have lp: "length ?p = 16" using d by simp
  have "length (put_bytes (239 + i * 255) ?p buf) = 4096" using lp i Cons.prems(1) by simp
  then obtain c where c: "rs_encode_region_loop env 0 255 239 255 239 js (put_bytes (239 + i * 255) ?p buf) = (None, c)"
    "length c = 4096" "drop 4080 c = drop 4080 (put_bytes (239 + i * 255) ?p buf)"
    using Cons.IH Cons.prems(2) by fastforce
  have "drop 4080 (put_bytes (239 + i * 255) ?p buf) = drop 4080 buf"
    by (rule nth_equalityI) (use lp i Cons.prems(1) in \<open>simp_all add: nth_put_bytes\<close>)
  then show ?case using c encode_ok [of "get_bytes (i * 255) 239 buf"] d by simp
qed simp

end

definition sealed :: "kenv \<Rightarrow> 'a volume_scheme \<Rightarrow> byte list \<Rightarrow> bool" where
  "sealed K v c \<longleftrightarrow>
     (if interleaved v then rs_library.woven_code (k_rs K) c 0 3824 16 239 16
      else rs_library.region_code (k_rs K) c 0 255 239 255 239 16)"

lemma seal_block:
  assumes K: "kernel_lib K" and h: "holds_data K v block payload ino iblock"
  shows "\<exists>c. beamfs_seal_data_block K v block = (None, c) \<and> sealed K v c \<and> holds_data K v c payload ino iblock"
proof -
  have lib: "rs_library (k_rs K)" and l: "length block = 4096"
    using kernel_lib.k_rs_library [OF K] h by (auto simp: holds_data_def)
  show ?thesis
  proof (cases "interleaved v")
    case True
    obtain c where c: "beamfs_seal_data_block K v block = (None, c)" "length c = 4096" "take 3824 c = take 3824 block" "sealed K v c"
      using encode_block [OF lib l] True by (auto simp: beamfs_seal_data_block_def beamfs_rs_encode_block_def sealed_def)
    have n: "c ! j = block ! j" if "j < 3824" for j using c(3) that by (metis nth_take)
    have "holds_payload v c payload = holds_payload v block payload"
      using True n by (intro holds_payload_cong [OF l c(2)]) (simp add: beamfs_desc_off_def)
    moreover have "get_bytes off k c = get_bytes off k block" if "off + k \<le> 3824" for off k
      using n that l c(2) by (intro get_bytes_cong) auto
    ultimately show ?thesis using c(1,2,4) h True n
      by (auto simp: holds_data_def get_le32_def get_le64_def beamfs_desc_off_def beamfs_selfid_off_def)
  next
    case False
    obtain c where c: "beamfs_seal_data_block K v block = (None, c)" "length c = 4096" "sealed K v c"
      "\<And>s. s < 16 \<Longrightarrow> get_bytes (s * 255) 239 c = get_bytes (s * 255) 239 block"
      using rs_library.encode_region [OF lib alternating_ok [OF l]] False l
      by (auto simp: beamfs_seal_data_block_def sealed_def)
    have "set [0..<16] \<subseteq> {..<16::nat}" by (simp add: atLeast0LessThan)
    from rs_library.encode_region_loop_after [OF lib l this] have "drop 4080 c = drop 4080 block"
      using c(1) False by (auto simp: beamfs_seal_data_block_def beamfs_rs_encode_region_def)
    then have n: "c ! j = block ! j" if "4080 \<le> j" "j < 4096" for j
      using nth_drop [of 4080 c "j - 4080"] nth_drop [of 4080 block "j - 4080"] that l c(2) by simp
    then have "get_bytes off k c = get_bytes off k block" if "4080 \<le> off" "off + k \<le> 4096" for off k
      using that l c(2) by (intro get_bytes_cong) auto
    moreover have "holds_payload v c payload = holds_payload v block payload"
      using False c(4) by (simp add: holds_payload_def)
    ultimately show ?thesis using c(1-3) h False n
      by (auto simp: holds_data_def get_le32_def get_le64_def beamfs_desc_off_def beamfs_selfid_off_def)
  qed
qed

subsection \<open>Reading it back\<close>

text \<open>Damage the code can undo: eight symbols of every codeword. The descriptor of the alternating layout is
  outside every codeword and has to be intact.\<close>

definition data_damage_ok :: "'a volume_scheme \<Rightarrow> byte list \<Rightarrow> byte list \<Rightarrow> bool" where
  "data_damage_ok v c r \<longleftrightarrow>
     length r = 4096
     \<and> (if interleaved v then \<forall>s < 16. card (woven_errs r c 0 3824 16 239 16 s) \<le> 8
        else (\<forall>s < 16. card (region_errs r c 0 255 239 255 239 s) \<le> 8) \<and> drop 4080 r = drop 4080 c)"

lemma errors_refl: "errors a a = {}"
  by (simp add: errors_def)

lemma woven_errs_refl: "woven_errs c c doff poff stride len n s = {}"
  by (simp add: woven_errs_def errors_refl)

lemma data_damage_refl: "length c = 4096 \<Longrightarrow> data_damage_ok v c c"
  by (simp add: data_damage_ok_def woven_errs_def region_errs_def errors_refl)

lemma decode_capsule:
  assumes lib: "rs_library (k_rs K)" and v: "interleaved v" and h: "holds_data K v c payload ino iblock"
    and s: "sealed K v c" and r: "data_damage_ok v c r"
  shows "\<exists>t results pos. inline_decode_copy K stale v r = (t, results, pos) \<and> holds_data K v t payload ino iblock
    \<and> (\<forall>i < 16. 0 \<le> results ! i \<and> (r = c \<longrightarrow> results ! i = 0))"
proof -
  have l: "length c = 4096" "length r = 4096" using h r by (simp_all add: holds_data_def data_damage_ok_def)
  let ?res = "map (\<lambda>s. int (card (woven_errs r c 0 3824 16 239 16 s))) [0..<16]"
  let ?t = "take 3824 c @ drop 3824 r"
  obtain worst where d: "beamfs_rs_decode_woven (k_rs K) r 0 3824 16 239 16 = (?t, worst, ?res)"
    using decode_block [OF lib l(2,1)] s r v by (auto simp: sealed_def data_damage_ok_def beamfs_rs_decode_block_def)
  have lt: "length ?t = 4096" using l by simp
  have n: "?t ! j = c ! j" if "j < 3824" for j using that l by (simp add: nth_append)
  have "holds_payload v ?t payload = holds_payload v c payload"
    using v n by (intro holds_payload_cong [OF l(1) lt]) (simp add: beamfs_desc_off_def)
  moreover have g: "get_bytes off k ?t = get_bytes off k c" if "off + k \<le> 3824" for off k
    using n that l lt by (intro get_bytes_cong) auto
  moreover have "get_le32 3812 ?t = get_le32 3812 c" "get_le64 3816 ?t = get_le64 3816 c"
    using g [of 3812 4] g [of 3816 8] by (simp_all add: get_le32_def get_le64_def)
  ultimately have "holds_data K v ?t payload ino iblock"
    using h v lt n [of 3808] by (simp add: holds_data_def beamfs_desc_off_def beamfs_selfid_off_def)
  moreover have "inline_decode_copy K stale v r = (?t, ?res @ drop 16 (fst stale), snd stale)"
    using d v by (simp add: inline_decode_copy_def)
  moreover have "\<forall>i < 16. 0 \<le> (?res @ drop 16 (fst stale)) ! i \<and> (r = c \<longrightarrow> (?res @ drop 16 (fst stale)) ! i = 0)"
    by (simp add: nth_append woven_errs_refl)
  ultimately show ?thesis by blast
qed

lemma decode_alternating:
  assumes lib: "rs_library (k_rs K)" and v: "\<not> interleaved v" and h: "holds_data K v c payload ino iblock"
    and s: "sealed K v c" and r: "data_damage_ok v c r"
  shows "\<exists>t results pos. inline_decode_copy K stale v r = (t, results, pos) \<and> holds_data K v t payload ino iblock
    \<and> (\<forall>i < 16. 0 \<le> results ! i \<and> (r = c \<longrightarrow> results ! i = 0))"
proof -
  have l: "length c = 4096" "length r = 4096" using h r by (simp_all add: holds_data_def data_damage_ok_def)
  let ?res = "map (rs_library.region_rc (Some 8) r c 0 255 239 255 239) [0..<16]"
  obtain t pos where d: "beamfs_rs_decode_region (k_rs K) r 0 255 239 255 239 16 True 8 = (t, 0, ?res, pos)"
    "length t = 4096" "\<And>s. s < 16 \<Longrightarrow> get_bytes (s * 255) 239 t = get_bytes (s * 255) 239 c"
    "\<And>j. j < 4096 \<Longrightarrow> \<forall>s < 16. j < s * 255 \<or> s * 255 + 239 \<le> j \<Longrightarrow> t ! j = r ! j"
    using rs_library.decode_region [OF lib alternating_ok [OF l(2)], of c True 8] s r v l
    by (auto simp: sealed_def data_damage_ok_def)
  have n: "t ! j = c ! j" if "4080 \<le> j" "j < 4096" for j
  proof -
    have "t ! j = r ! j" using d(4) [of j] that by auto
    also have "\<dots> = c ! j"
      using r v that l nth_drop [of 4080 r "j - 4080"] nth_drop [of 4080 c "j - 4080"] by (simp add: data_damage_ok_def)
    finally show ?thesis .
  qed
  have g: "get_bytes off k t = get_bytes off k c" if "4080 \<le> off" "off + k \<le> 4096" for off k
    using n that l d(2) by (intro get_bytes_cong) auto
  have "get_le32 4084 t = get_le32 4084 c" "get_le64 4088 t = get_le64 4088 c"
    using g [of 4084 4] g [of 4088 8] by (simp_all add: get_le32_def get_le64_def)
  then have "holds_data K v t payload ino iblock"
    using h v d(2,3) n [of 4080] by (simp add: holds_data_def holds_payload_def beamfs_desc_off_def beamfs_selfid_off_def)
  moreover have "inline_decode_copy K stale v r = (t, ?res, pos)" using d(1) v by (simp add: inline_decode_copy_def)
  ultimately show ?thesis by (simp add: rs_library.region_rc_def [OF lib] errors_refl)
qed

lemmas decode_copy_damaged = decode_capsule decode_alternating

lemma inline_log_fold:
  assumes "\<forall>i \<in> set is. 0 \<le> results ! i" "layout_ok v"
  shows "\<exists>v'. fold (inline_log_step K phys rmw results pos) is (v, False) = (v', False) \<and> keeps v v'
    \<and> s_verified v' = s_verified v \<and> ((\<forall>i \<in> set is. results ! i = 0) \<longrightarrow> v' = v)"
  using assms
proof (induction "is" arbitrary: v)
  case (Cons i js)
  show ?case
  proof (cases "results ! i = 0")
    case True
    then show ?thesis using Cons by (simp add: inline_log_step_def)
  next
    case False
    then have pos: "results ! i > 0" using Cons.prems(1) by simp
    let ?l = "beamfs_log_rs_event_flagged K (k_ktime_ns (s_clk v)) v (word_of_nat phys) (Some (pos ! i))
                (min (nat (results ! i)) 8) 239 (rmw_flags rmw OR beamfs_rs_event_subblock_bits i)"
    let ?v = "beamfs_budget_record ?l phys (min (nat (results ! i)) 8)"
    have k1: "keeps v ?l" by simp
    then have lay: "layout_ok ?l" using keeps_layout [OF k1] Cons.prems(2) by (simp only:)
    have k: "keeps v ?v" by (rule keeps_trans [OF k1 budget_keeps [OF lay]])
    have "inline_log_step K phys rmw results pos i (v, False) = (?v, False)"
      using pos by (simp add: inline_log_step_def Let_def)
    moreover have "quiet v ?v" by (rule quiet_trans [OF quiet_log quiet_budget])
    then have "s_verified ?v = s_verified v" by (simp only: quiet_def)
    moreover obtain v' where "fold (inline_log_step K phys rmw results pos) js (?v, False) = (v', False)" "keeps ?v v'"
      "s_verified v' = s_verified ?v"
      using Cons.IH [of ?v] Cons.prems keeps_layout [OF k] by auto
    moreover have "keeps v v'" if "keeps ?v v'" for v' using keeps_trans [OF k that] .
    ultimately show ?thesis using False by (intro exI [of _ v']) simp
  qed
qed simp

text \<open>The checksum over the runs is that of the payload.\<close>

context kernel_lib
begin

lemma k_crc32_append: "k_crc32_le K c (a @ b) = k_crc32_le K (k_crc32_le K c a) b"
  by (simp add: k_crc32_bitwise)

lemma k_crc32_crc32: "beamfs_crc32 (k_crc32_le K) buf = crc32 buf"
  by (simp add: beamfs_crc32_def crc32_def k_crc32_bitwise crc32_internal_steps crc32_step_def [abs_def])

lemma crc32_runs:
  assumes "n * 239 \<le> length payload"
  shows "fold (\<lambda>i c. k_crc32_le K c (get_bytes (i * 239) 239 payload)) [0..<n] c = k_crc32_le K c (get_bytes 0 (n * 239) payload)"
  using assms
proof (induction n)
  case 0
  then show ?case by (simp add: get_bytes_def k_crc32_bitwise)
next
  case (Suc n)
  have "get_bytes 0 (Suc n * 239) payload = get_bytes 0 (n * 239) payload @ get_bytes (n * 239) 239 payload"
    by (simp add: get_bytes_def add.commute [of 239] take_add)
  then show ?case using Suc by (simp add: k_crc32_append)
qed

end

lemma payload_crc_holds:
  assumes K: "kernel_lib K" and p: "length payload = beamfs_block_payload v" "holds_payload v t payload"
  shows "beamfs_inline_payload_crc K v t = beamfs_crc32 (k_crc32_le K) payload"
proof (cases "interleaved v")
  case True
  then show ?thesis using p by (simp add: beamfs_inline_payload_crc_def holds_payload_def beamfs_crc32_def)
next
  case False
  have l: "length payload = 3824" using False p(1) by (simp add: beamfs_block_payload_def)
  have "fold (\<lambda>i c. k_crc32_le K c (get_bytes (i * 255) 239 t)) [0..<16] 0xFFFFFFFF
      = fold (\<lambda>i c. k_crc32_le K c (get_bytes (i * 239) 239 payload)) [0..<16] 0xFFFFFFFF"
    using p(2) False by (intro fold_cong) (simp_all add: holds_payload_def)
  also have "\<dots> = k_crc32_le K 0xFFFFFFFF (get_bytes 0 (16 * 239) payload)"
    using l by (intro kernel_lib.crc32_runs [OF K]) simp
  finally show ?thesis using False l
    by (simp add: beamfs_inline_payload_crc_def beamfs_crc32_def get_bytes_def)
qed

text \<open>The copy of a slice out of the runs.\<close>

lemma get_bytes_add: "get_bytes off (a + b) p = get_bytes off a p @ get_bytes (off + a) b p"
  by (simp add: get_bytes_def take_add add.commute)

lemma slice_runs:
  assumes "f * 239 \<le> off" "off < e" "f \<le> l" "off < Suc f * 239"
  shows "concat (map (\<lambda>i. get_bytes (max off (i * 239)) (min e (Suc i * 239) - max off (i * 239)) p) [f..<Suc l])
    = get_bytes off (min e (Suc l * 239) - off) p"
  using assms(3)
proof (induction l rule: dec_induct)
  case base
  then show ?case using assms by (simp add: max_def)
next
  case (step l)
  let ?piece = "\<lambda>i. get_bytes (max off (i * 239)) (min e (Suc i * 239) - max off (i * 239)) p"
  have m: "max off (Suc l * 239) = Suc l * 239" using assms(4) step(1) by (simp add: max_def)
  have "concat (map ?piece [f..<Suc (Suc l)]) = concat (map ?piece [f..<Suc l]) @ ?piece (Suc l)"
    using step(1) by simp
  also have "\<dots> = get_bytes off (min e (Suc l * 239) - off) p
      @ get_bytes (Suc l * 239) (min e (Suc (Suc l) * 239) - Suc l * 239) p"
    using step(3) m by (simp only:)
  also have "\<dots> = get_bytes off (min e (Suc (Suc l) * 239) - off) p"
  proof (cases "e \<le> Suc l * 239")
    case True
    then have "min e (Suc (Suc l) * 239) - Suc l * 239 = 0" "min e (Suc (Suc l) * 239) = min e (Suc l * 239)" by simp_all
    then show ?thesis by (simp add: get_bytes_def)
  next
    case False
    have o: "off < Suc l * 239" using assms(4) step(1) by simp
    then have "min e (Suc (Suc l) * 239) - off = (min e (Suc l * 239) - off) + (min e (Suc (Suc l) * 239) - Suc l * 239)"
      "off + (min e (Suc l * 239) - off) = Suc l * 239"
      using False by auto
    then show ?thesis by (simp only: get_bytes_add)
  qed
  finally show ?case .
qed

lemma slice_holds:
  assumes h: "holds_payload v t payload" and l: "length t = 4096"
    and s: "0 < len" "off + len \<le> beamfs_block_payload v"
  shows "inline_slice v t off len = get_bytes off len payload"
proof (cases "interleaved v")
  case True
  then have "get_bytes off len payload = get_bytes (0 + off) len t"
    using get_get_bytes [of off len 3808 0 t] h s by (simp add: holds_payload_def beamfs_block_payload_def)
  then show ?thesis using True by (simp add: inline_slice_def)
next
  case False
  let ?e = "off + len" and ?f = "off div 239" and ?l = "(off + len - 1) div 239"
  have e: "?e \<le> 3824" using s(2) False by (simp add: beamfs_block_payload_def)
  have "get_bytes (i * 255 + (if i * 239 < off then off - i * 239 else 0))
      ((if ?e < i * 239 + 239 then ?e - i * 239 else 239) - (if i * 239 < off then off - i * 239 else 0)) t
    = get_bytes (max off (i * 239)) (min ?e (Suc i * 239) - max off (i * 239)) payload"
    if i: "i \<in> set [?f..<?l + 1]" for i
  proof -
    let ?from = "if i * 239 < off then off - i * 239 else 0" and ?to = "if ?e < i * 239 + 239 then ?e - i * 239 else 239"
    have b: "i \<le> ?l" "?f \<le> i" using i by auto
    have "?l * 239 \<le> off + len - 1" by simp
    moreover have "i * 239 \<le> ?l * 239" using b(1) by simp
    ultimately have "i * 239 < ?e" using s(1) by linarith
    then have i16: "i < 16" using e by simp
    have "off < Suc ?f * 239" using div_mult_mod_eq [of off 239] mod_less_divisor [of 239 off] by simp
    moreover have "Suc ?f * 239 \<le> Suc i * 239" using b(2) by (intro mult_le_mono1) simp
    ultimately have "off < Suc i * 239" by linarith
    then have ft: "?from \<le> ?to" "?to \<le> 239" using \<open>i * 239 < ?e\<close> by auto
    have "get_bytes (i * 255 + ?from) (?to - ?from) t = get_bytes ?from (?to - ?from) (get_bytes (i * 255) 239 t)"
      using ft by (subst get_get_bytes) simp_all
    also have "\<dots> = get_bytes (i * 239 + ?from) (?to - ?from) payload"
      using ft h False i16 by (simp only: holds_payload_def if_False simp_thms) (subst get_get_bytes, simp_all)
    also have "\<dots> = get_bytes (max off (i * 239)) (min ?e (Suc i * 239) - max off (i * 239)) payload"
      using \<open>i * 239 < ?e\<close> by (auto simp: max_def min_def intro!: arg_cong2 [where f = "\<lambda>a b. get_bytes a b payload"])
    finally show ?thesis .
  qed
  then have "inline_slice v t off len
      = concat (map (\<lambda>i. get_bytes (max off (i * 239)) (min ?e (Suc i * 239) - max off (i * 239)) payload) [?f..<?l + 1])"
    using False unfolding inline_slice_def Let_def by (simp only: if_False) (intro arg_cong [where f = concat] map_cong refl, simp)
  also have "\<dots> = get_bytes off (min ?e (Suc ?l * 239) - off) payload"
  proof -
    have "off < Suc ?f * 239" using div_mult_mod_eq [of off 239] mod_less_divisor [of 239 off] by simp
    moreover have "?f \<le> ?l" using s(1) by (intro div_le_mono) simp
    ultimately show ?thesis using slice_runs [of ?f off ?e ?l payload] s(1) by simp
  qed
  also have "min ?e (Suc ?l * 239) = ?e"
  proof -
    have "off + len - 1 < Suc ?l * 239"
      using div_mult_mod_eq [of "off + len - 1" 239] mod_less_divisor [of 239 "off + len - 1"] by simp
    then show ?thesis by simp
  qed
  finally show ?thesis by simp
qed

text \<open>The digest of an inode number and an index below \<^verbatim>\<open>2^32\<close> determines both.\<close>

lemma digest_eq:
  "(push_bit 32 (ucast (a :: u32)) OR ucast (b :: u32) :: u64) = push_bit 32 (ucast c) OR ucast d \<longleftrightarrow> a = c \<and> b = d"
proof -
  have "ucast (push_bit 32 (ucast a) OR ucast b :: u64) = b" for a b :: u32
    by (rule bit_eqI) (auto simp: bit_simps)
  moreover have "ucast (drop_bit 32 (push_bit 32 (ucast a) OR ucast b :: u64)) = a" for a b :: u32
    by (rule bit_eqI) (auto simp: bit_simps dest: bit_imp_le_length)
  ultimately show ?thesis by metis
qed

lemma cpu_to_le_small:
  assumes "x < 2 ^ 32"
  shows "cpu_to_le 8 (word_of_nat x :: u64) = cpu_to_le 4 (word_of_nat x :: u64) @ replicate 4 0"
proof -
  have z: "ucast (drop_bit (8 * k) (word_of_nat x :: u64)) = (0 :: byte)" if "4 \<le> k" for k
  proof (rule bit_eqI)
    fix n
    have "\<not> bit x (n + 8 * k)"
    proof -
      have "(2::nat) ^ 32 \<le> 2 ^ (n + 8 * k)" using that by (intro power_increasing) auto
      then have "x < 2 ^ (n + 8 * k)" using assms by linarith
      then show ?thesis by (simp add: bit_iff_odd)
    qed
    then show "bit (ucast (drop_bit (8 * k) (word_of_nat x :: u64)) :: byte) n = bit (0 :: byte) n"
      by (auto simp: bit_simps bit_of_nat_iff_bit add.commute)
  qed
  have "[0..<8] = [0..<4] @ [4, 5, 6, 7::nat]" by (simp add: upt_rec)
  then have "cpu_to_le 8 (word_of_nat x :: u64)
      = cpu_to_le 4 (word_of_nat x :: u64) @ map (\<lambda>i. ucast (drop_bit (8 * i) (word_of_nat x :: u64))) [4, 5, 6, 7]"
    unfolding cpu_to_le_def by (metis map_append)
  also have "map (\<lambda>i. ucast (drop_bit (8 * i) (word_of_nat x :: u64))) [4, 5, 6, 7] = replicate 4 (0 :: byte)"
    using z [of 4] z [of 5] z [of 6] z [of 7] by (simp add: numeral_eq_Suc)
  finally show ?thesis .
qed

lemma crc32_le64_inj:
  assumes "x < 2 ^ 32" "y < 2 ^ 32" "crc32 (cpu_to_le 8 (word_of_nat x :: u64)) = crc32 (cpu_to_le 8 (word_of_nat y :: u64))"
  shows "x = y"
proof -
  have "cpu_to_le 4 (word_of_nat x :: u64) = cpu_to_le 4 (word_of_nat y :: u64)"
    using crc32_burst [of "cpu_to_le 4 (word_of_nat x :: u64)" "cpu_to_le 4 (word_of_nat y :: u64)" "[]" "replicate 4 0"] assms
    by (auto simp: cpu_to_le_small)
  then have "cpu_to_le 8 (word_of_nat x :: u64) = cpu_to_le 8 (word_of_nat y :: u64)"
    using assms(1,2) by (simp add: cpu_to_le_small)
  then have "(word_of_nat x :: u64) = word_of_nat y" by (metis le_roundtrips(3))
  then have "unat (word_of_nat x :: u64) = unat (word_of_nat y :: u64)" by simp
  then show ?thesis using assms(1,2) by (simp add: unat_of_nat)
qed

lemma selfid_inj:
  assumes "kernel_lib K" "ino < 2 ^ 32" "iblock < 2 ^ 32" "ino' < 2 ^ 32" "iblock' < 2 ^ 32"
    and "beamfs_data_selfid K (word_of_nat ino) (word_of_nat iblock) = beamfs_data_selfid K (word_of_nat ino') (word_of_nat iblock')"
  shows "ino = ino' \<and> iblock = iblock'"
  using assms(6) crc32_le64_inj [OF assms(2,4)] crc32_le64_inj [OF assms(3,5)]
  by (auto simp: beamfs_data_selfid_def Let_def digest_eq kernel_lib.k_crc32_crc32 [OF assms(1)])

lemma check_holds:
  assumes "kernel_lib K" "holds_data K v t payload ino iblock" "length payload = beamfs_block_payload v"
  shows "inline_check K v t phys ino' iblock' rmw =
    (if s_data_selfid v \<and> beamfs_data_selfid K ino' iblock' \<noteq> beamfs_data_selfid K ino iblock
     then (True, inline_refuse K v phys rmw) else (False, v))"
proof -
  have "beamfs_inline_payload_crc K v t = beamfs_crc32 (k_crc32_le K) payload"
    using payload_crc_holds [OF assms(1,3)] assms(2) by (simp add: holds_data_def)
  then show ?thesis using assms(2) by (auto simp: inline_check_def holds_data_def)
qed

lemma holds_data_keeps: "keeps v v' \<Longrightarrow> holds_data K v' t payload ino iblock = holds_data K v t payload ino iblock"
  by (simp add: holds_data_def holds_payload_def layout_cong)

text \<open>What a read of a damaged block comes to.\<close>

text \<open>A decode up to the slice it copies out.\<close>

lemma decode_block_core:
  assumes K: "kernel_lib K" and v: "layout_ok v" "s_scratch_ok v"
    and p: "length payload = beamfs_block_payload v" and h: "holds_data K v c payload ino iblock"
    and s: "sealed K v c" and r: "data_damage_ok v c r"
    and a: "phys \<noteq> 0" "0 < len" "off + len \<le> 3824"
  shows "\<exists>v' t. keeps v v' \<and> s_verified v' = s_verified v \<and> (r = c \<longrightarrow> v' = v) \<and> holds_data K v' t payload ino iblock
    \<and> beamfs_inline_decode_block_into_buf K stale v r phys ino' iblock' off len rmw =
        (if s_data_selfid v \<and> beamfs_data_selfid K ino' iblock' \<noteq> beamfs_data_selfid K ino iblock
         then (Inl EIO, inline_refuse K v' phys rmw) else (Inr (inline_slice v' t off len), v'))"
proof -
  obtain t results pos where d: "inline_decode_copy K stale v r = (t, results, pos)" "holds_data K v t payload ino iblock"
    "\<forall>i < 16. 0 \<le> results ! i \<and> (r = c \<longrightarrow> results ! i = 0)"
    using decode_copy_damaged [OF kernel_lib.k_rs_library [OF K] _ h s r] by blast
  have "\<forall>i \<in> set [0..<16]. 0 \<le> results ! i" using d(3) by simp
  from inline_log_fold [OF this v(1), where K = K and phys = phys and rmw = rmw and pos = pos] obtain v' where
    f: "fold (inline_log_step K phys rmw results pos) [0..<16] (v, False) = (v', False)" "keeps v v'"
      "(\<forall>i \<in> set [0..<16]. results ! i = 0) \<longrightarrow> v' = v" "s_verified v' = s_verified v" by blast
  have h': "holds_data K v' t payload ino iblock" using d(2) holds_data_keeps [OF f(2)] by simp
  have "get_bytes 0 4096 r = r" using r by (simp add: data_damage_ok_def get_bytes_def)
  moreover have "r = c \<longrightarrow> v' = v" using d(3) f(3) by simp
  ultimately show ?thesis
    using a v(2) d(1) f(1,2,4) layout_cong(6) [OF f(2)] h'
      check_holds [OF K h', of phys ino' iblock' rmw] p layout_cong(4) [OF f(2)]
    by (intro exI [of _ v'] exI [of _ t]) (simp add: beamfs_inline_decode_block_into_buf_def Let_def)
qed

lemma decode_block_into_buf_spec:
  assumes K: "kernel_lib K" and v: "layout_ok v" "s_scratch_ok v"
    and p: "length payload = beamfs_block_payload v" and h: "holds_data K v c payload ino iblock"
    and s: "sealed K v c" and r: "data_damage_ok v c r"
    and a: "phys \<noteq> 0" "0 < len" "off + len \<le> beamfs_block_payload v"
  shows "\<exists>v'. keeps v v' \<and> (r = c \<longrightarrow> v' = v)
    \<and> beamfs_inline_decode_block_into_buf K stale v r phys ino' iblock' off len rmw =
        (if s_data_selfid v \<and> beamfs_data_selfid K ino' iblock' \<noteq> beamfs_data_selfid K ino iblock
         then (Inl EIO, inline_refuse K v' phys rmw) else (Inr (get_bytes off len payload), v'))"
proof -
  have "off + len \<le> 3824" using a(3) desc_bounds(4) [of v] by simp
  from decode_block_core [OF K v p h s r a(1,2) this, of stale ino' iblock' rmw] obtain v' t where
    d: "keeps v v'" "r = c \<longrightarrow> v' = v" "holds_data K v' t payload ino iblock"
      "beamfs_inline_decode_block_into_buf K stale v r phys ino' iblock' off len rmw =
        (if s_data_selfid v \<and> beamfs_data_selfid K ino' iblock' \<noteq> beamfs_data_selfid K ino iblock
         then (Inl EIO, inline_refuse K v' phys rmw) else (Inr (inline_slice v' t off len), v'))" by blast
  have "inline_slice v' t off len = get_bytes off len payload"
    using slice_holds [OF _ _ a(2), of v' t payload off] d(3) a(3) layout_cong(4) [OF d(1)] by (simp add: holds_data_def)
  then show ?thesis using d by (intro exI [of _ v']) simp
qed

subsection \<open>Properties\<close>

text \<open>C2: A block of file data survives damage up to the radius of the code, in both layouts. Whatever the
  block held before, laying a payload down, stamping the descriptor and sealing succeeds; and after up
  to eight symbols of every codeword changed (and, in the alternating layout, none of the descriptor,
  which no codeword covers), \<^const>\<open>beamfs_inline_decode_block_into_buf\<close> returns exactly the slice of the
  payload it is asked for, whatever the uninitialised arrays held, and changes nothing of the volume but
  the journal, the budget and the alerts.\<close>
theorem data_block_roundtrip:
  assumes "kernel_lib K" "layout_ok v" "s_scratch_ok v" "length block = 4096" "length payload = beamfs_block_payload v"
  shows "\<exists>c. beamfs_seal_data_block K v
        (beamfs_stamp_data_block K v (beamfs_lay_data_payload v block payload) payload ino iblock) = (None, c) \<and> length c = 4096
    \<and> (\<forall>r phys off len rmw stale. data_damage_ok v c r \<and> phys \<noteq> 0 \<and> 0 < len \<and> off + len \<le> beamfs_block_payload v \<longrightarrow>
         (\<exists>v'. beamfs_inline_decode_block_into_buf K stale v r phys ino iblock off len rmw = (Inr (get_bytes off len payload), v')
            \<and> keeps v v'))"
proof -
  let ?b = "beamfs_stamp_data_block K v (beamfs_lay_data_payload v block payload) payload ino iblock"
  have "holds_data K v ?b payload ino iblock"
    using stamp_holds [OF lay_payload(1) assms(5) lay_payload(2)] assms(4,5) by (simp add: beamfs_stamp_data_block_def)
  from seal_block [OF assms(1) this] obtain c where c: "beamfs_seal_data_block K v ?b = (None, c)" "sealed K v c"
    "holds_data K v c payload ino iblock" by blast
  have "\<exists>v'. beamfs_inline_decode_block_into_buf K stale v r phys ino iblock off len rmw = (Inr (get_bytes off len payload), v')
      \<and> keeps v v'"
    if "data_damage_ok v c r \<and> phys \<noteq> 0 \<and> 0 < len \<and> off + len \<le> beamfs_block_payload v" for r phys off len rmw stale
    using decode_block_into_buf_spec [OF assms(1-3,5) c(3,2), of r phys len off stale ino iblock rmw] that by auto
  then show ?thesis using c(1,3) unfolding holds_data_def by blast
qed

text \<open>C21: A read that reaches the wrong block is refused. On a volume with identity digests, a block sealed
  for one inode and index, damaged up to the radius of the code and reached for another inode or
  another index (all below \<^verbatim>\<open>2^32\<close>: there the digest has no collisions), is not returned: the result is
  \<^const>\<open>EIO\<close>. The refusal is journalled under sixteen times the number of the block, which is not the
  number of that block.\<close>
theorem misdirected_read_refused:
  assumes "kernel_lib K" "layout_ok v" "s_scratch_ok v" "s_data_selfid v" "length block = 4096"
    "length payload = beamfs_block_payload v"
    and ids: "ino < 2 ^ 32" "iblock < 2 ^ 32" "ino' < 2 ^ 32" "iblock' < 2 ^ 32" "(ino', iblock') \<noteq> (ino, iblock)"
  shows "\<exists>c. beamfs_seal_data_block K v (beamfs_stamp_data_block K v (beamfs_lay_data_payload v block payload) payload
          (word_of_nat ino) (word_of_nat iblock)) = (None, c) \<and> length c = 4096
    \<and> (\<forall>r phys off len rmw stale. data_damage_ok v c r \<and> phys \<noteq> 0 \<and> 0 < len \<and> off + len \<le> beamfs_block_payload v \<longrightarrow>
         (\<exists>v'. keeps v v' \<and> (r = c \<longrightarrow> v' = v)
            \<and> beamfs_inline_decode_block_into_buf K stale v r phys (word_of_nat ino') (word_of_nat iblock') off len rmw =
                (Inl EIO, beamfs_log_rs_event_flagged K (k_ktime_ns (s_clk v')) v' (word_of_nat phys * 16) None 0 239
                   (rmw_flags rmw))))"
proof -
  let ?ino = "word_of_nat ino" and ?ib = "word_of_nat iblock" and ?ino' = "word_of_nat ino'" and ?ib' = "word_of_nat iblock'"
  let ?b = "beamfs_stamp_data_block K v (beamfs_lay_data_payload v block payload) payload ?ino ?ib"
  have "holds_data K v ?b payload ?ino ?ib"
    using stamp_holds [OF lay_payload(1) assms(6) lay_payload(2)] assms(5,6) by (simp add: beamfs_stamp_data_block_def)
  from seal_block [OF assms(1) this] obtain c where c: "beamfs_seal_data_block K v ?b = (None, c)" "sealed K v c"
    "holds_data K v c payload ?ino ?ib" by blast
  have ne: "beamfs_data_selfid K ?ino' ?ib' \<noteq> beamfs_data_selfid K ?ino ?ib"
    using selfid_inj [OF assms(1) ids(3,4,1,2)] ids(5) by blast
  have "\<exists>v'. keeps v v' \<and> (r = c \<longrightarrow> v' = v)
      \<and> beamfs_inline_decode_block_into_buf K stale v r phys ?ino' ?ib' off len rmw =
          (Inl EIO, beamfs_log_rs_event_flagged K (k_ktime_ns (s_clk v')) v' (word_of_nat phys * 16) None 0 239 (rmw_flags rmw))"
    if "data_damage_ok v c r \<and> phys \<noteq> 0 \<and> 0 < len \<and> off + len \<le> beamfs_block_payload v" for r phys off len rmw stale
    using decode_block_into_buf_spec [OF assms(1-3,6) c(3,2), of r phys len off stale ?ino' ?ib' rmw] that ne assms(4)
    by (simp add: inline_refuse_def)
  then show ?thesis using c(1,3) unfolding holds_data_def by blast
qed

subsection \<open>Witnesses\<close>

definition wit_data :: "u64 \<Rightarrow> volume" where
  "wit_data feat = wit_vol\<lparr>s_feat_incompat := feat, s_data_csum := True, s_data_selfid := True\<rparr>"

lemma wit_data_ok: "layout_ok (wit_data feat)" "s_scratch_ok (wit_data feat)" "s_data_selfid (wit_data feat)"
    "interleaved (wit_data 0x40000)" "\<not> interleaved (wit_data 0)"
    "beamfs_block_payload (wit_data 0x40000) = 3808" "beamfs_block_payload (wit_data 0) = 3824"
  by (simp_all add: wit_data_def layout_ok_def budget_region_def budget_active_def interleaved_def beamfs_block_payload_def
      BEAMFS_FEATURE_INCOMPAT_RS_INTERLEAVE_def wit_vol_def sb_alloc.defs volume.defs)

theorem data_block_roundtrip_witness:
  "\<exists>c. beamfs_seal_data_block port_kenv (wit_data 0x40000) (beamfs_stamp_data_block port_kenv (wit_data 0x40000)
        (beamfs_lay_data_payload (wit_data 0x40000) (replicate 4096 1) (replicate 3808 7)) (replicate 3808 7) 5 6) = (None, c)
    \<and> fst (beamfs_inline_decode_block_into_buf port_kenv ([], []) (wit_data 0x40000) c 10 5 6 200 500 False)
        = Inr (get_bytes 200 500 (replicate 3808 7))"
proof -
  let ?v = "wit_data 0x40000" and ?b = "replicate 4096 1 :: byte list" and ?p = "replicate 3808 7 :: byte list"
  have "length ?b = 4096" "length ?p = beamfs_block_payload ?v" using wit_data_ok(6) by simp_all
  from data_block_roundtrip [OF kport.kernel_lib_axioms wit_data_ok(1,2) this, of 5 6] obtain c where
    c: "beamfs_seal_data_block port_kenv ?v (beamfs_stamp_data_block port_kenv ?v (beamfs_lay_data_payload ?v ?b ?p) ?p 5 6) = (None, c)"
      "length c = 4096"
      "\<And>r phys off len rmw stale. data_damage_ok ?v c r \<and> phys \<noteq> 0 \<and> 0 < len \<and> off + len \<le> beamfs_block_payload ?v \<Longrightarrow>
         \<exists>v'. beamfs_inline_decode_block_into_buf port_kenv stale ?v r phys 5 6 off len rmw = (Inr (get_bytes off len ?p), v')
            \<and> keeps ?v v'"
    by blast
  from c(3) [of c 10 500 200 "([], [])" False] obtain v' where
    "beamfs_inline_decode_block_into_buf port_kenv ([], []) ?v c 10 5 6 200 500 False = (Inr (get_bytes 200 500 ?p), v')"
    using data_damage_refl [OF c(2), of ?v] wit_data_ok(6) by auto
  then show ?thesis using c(1) by (intro exI [of _ c]) (simp only: fst_conv simp_thms)
qed

theorem misdirected_read_refused_witness:
  "\<exists>c. beamfs_seal_data_block port_kenv (wit_data 0) (beamfs_stamp_data_block port_kenv (wit_data 0)
        (beamfs_lay_data_payload (wit_data 0) (replicate 4096 1) (replicate 3824 7)) (replicate 3824 7)
        (word_of_nat 5) (word_of_nat 6)) = (None, c)
    \<and> fst (beamfs_inline_decode_block_into_buf port_kenv ([], []) (wit_data 0) c 10 (word_of_nat 5) (word_of_nat 9) 200 500 False)
        = Inl EIO"
proof -
  let ?v = "wit_data 0" and ?b = "replicate 4096 1 :: byte list" and ?p = "replicate 3824 7 :: byte list"
  have "length ?b = 4096" "length ?p = beamfs_block_payload ?v" using wit_data_ok(7) by simp_all
  from misdirected_read_refused [OF kport.kernel_lib_axioms wit_data_ok(1-3) this, of 5 6 5 9] obtain c where
    c: "beamfs_seal_data_block port_kenv ?v (beamfs_stamp_data_block port_kenv ?v (beamfs_lay_data_payload ?v ?b ?p) ?p
          (word_of_nat 5) (word_of_nat 6)) = (None, c)" "length c = 4096"
      "\<And>r phys off len rmw stale. data_damage_ok ?v c r \<and> phys \<noteq> 0 \<and> 0 < len \<and> off + len \<le> beamfs_block_payload ?v \<Longrightarrow>
         \<exists>v'. keeps ?v v' \<and> (r = c \<longrightarrow> v' = ?v)
            \<and> beamfs_inline_decode_block_into_buf port_kenv stale ?v r phys (word_of_nat 5) (word_of_nat 9) off len rmw =
                (Inl EIO, beamfs_log_rs_event_flagged port_kenv (k_ktime_ns (s_clk v')) v' (word_of_nat phys * 16) None 0 239
                   (rmw_flags rmw))"
    by (simp only: of_nat_numeral) force
  from c(3) [of c 10 500 200 "([], [])" False] obtain v' where
    "beamfs_inline_decode_block_into_buf port_kenv ([], []) ?v c 10 (word_of_nat 5) (word_of_nat 9) 200 500 False = (Inl EIO, v')"
    using data_damage_refl [OF c(2), of ?v] wit_data_ok(7) by auto
  then show ?thesis using c(1) by (intro exI [of _ c]) (simp only: fst_conv simp_thms)
qed

end
