(* ===== verification/BlockTree.thy ===== *)
theory BlockTree
  imports DataBlock
begin

section \<open>The block tree of a file\<close>

text \<open>
  \<^verbatim>\<open>beamfs_inline_lookup_phys\<close>, \<^verbatim>\<open>beamfs_inline_lookup_or_alloc_phys_new\<close> and \<^verbatim>\<open>beamfs_count_blocks\<close> of
  \<^verbatim>\<open>file_inline.c\<close>: twelve direct pointers and trees of one, two and three levels of blocks of 512 pointers. The
  lookup checks the range, the allocation and the parity of every block it goes through and the range
  and the allocation of the one it returns; the allocating lookup adds the missing levels and the data block, each
  zeroed before the pointer to it is stored.

  The code writes the same steps out once per level with other log lines; here each step is a definition and
  the four cases compose them. The tracepoints and the log lines are not modelled, nor is
  \<^verbatim>\<open>CONFIG_BEAMFS_ORDERED_META\<close>, which adds a synchronous write between a block and its pointer. A null
  \<^verbatim>\<open>phys_out\<close>, which no caller passes, is not either.
\<close>

abbreviation "BEAMFS_MAX_IBLOCK_INDIRECT \<equiv> 524 :: nat"
abbreviation "BEAMFS_MAX_IBLOCK_DINDIRECT \<equiv> 262668 :: nat"
abbreviation "BEAMFS_MAX_IBLOCK_TINDIRECT \<equiv> 134480396 :: nat"

subsection \<open>Checks\<close>

definition in_data_region :: "'a volume_scheme \<Rightarrow> nat \<Rightarrow> bool" where
  "in_data_region v block \<longleftrightarrow> \<not> (block < s_data_start v \<or> block \<ge> s_data_start v + s_nblocks v)"

definition beamfs_check_intermediate_block ::
    "kenv \<Rightarrow> 'a volume_scheme \<Rightarrow> nat \<Rightarrow> errno option \<times> 'a volume_scheme" where
  "beamfs_check_intermediate_block K v block =
     (if \<not> in_data_region v block
      then (Some EUCLEAN, beamfs_log_rs_event_flagged K (k_ktime_ns (s_clk v)) v (word_of_nat block) None 0 BEAMFS_SUBBLOCK_DATA 0)
      else if \<not> beamfs_block_is_allocated v block
      then (Some EUCLEAN, beamfs_log_rs_event_flagged K (k_ktime_ns (s_clk v)) v (word_of_nat block) None 0 BEAMFS_SUBBLOCK_DATA 0)
      else (None, v))"

text \<open>The pointers of a block of pointers: 512 little-endian words.\<close>

definition ind_ptr :: "byte list \<Rightarrow> nat \<Rightarrow> nat" where
  "ind_ptr data slot = unat (get_le64 (8 * slot) data)"

text \<open>The block read with \<^verbatim>\<open>sb_bread\<close> and its parity verified.\<close>

definition read_verified :: "kenv \<Rightarrow> 'a volume_scheme \<Rightarrow> nat \<Rightarrow> (errno + byte list) \<times> 'a volume_scheme" where
  "read_verified K v blk =
     (case s_blk v blk of
        None \<Rightarrow> (Inl EIO, v)
      | Some bh \<Rightarrow>
          let (ret, v) = beamfs_ind_parity_verify K v blk
          in if ret \<noteq> None then (Inl EUCLEAN, v) else (Inr (b_data bh), v))"

subsection \<open>Looking a block up\<close>

text \<open>One level: the check, the read, the parity, the pointer of the slot.\<close>

definition lookup_level :: "kenv \<Rightarrow> 'a volume_scheme \<Rightarrow> nat \<Rightarrow> nat \<Rightarrow> (errno + nat) \<times> 'a volume_scheme" where
  "lookup_level K v blk slot =
     (case beamfs_check_intermediate_block K v blk of
        (Some e, v) \<Rightarrow> (Inl e, v)
      | (None, v) \<Rightarrow>
          (case read_verified K v blk of
             (Inl e, v) \<Rightarrow> (Inl e, v)
           | (Inr data, v) \<Rightarrow> (Inr (ind_ptr data slot), v)))"

text \<open>The pointer that names a data block; 0 is a hole.\<close>

definition lookup_terminal :: "'a volume_scheme \<Rightarrow> nat \<Rightarrow> (errno + nat) \<times> 'a volume_scheme" where
  "lookup_terminal v phys =
     (if phys \<noteq> 0 \<and> \<not> in_data_region v phys then (Inl EUCLEAN, v)
      else if phys \<noteq> 0 \<and> \<not> beamfs_block_is_allocated v phys then (Inl EUCLEAN, v)
      else (Inr phys, v))"

definition lookup_direct :: "'a volume_scheme \<Rightarrow> ino \<Rightarrow> nat \<Rightarrow> (errno + nat) \<times> 'a volume_scheme" where
  "lookup_direct v ino iblock = lookup_terminal v (unat (i_direct (s_inode v ino) ! iblock))"

definition lookup_indirect :: "kenv \<Rightarrow> 'a volume_scheme \<Rightarrow> ino \<Rightarrow> nat \<Rightarrow> (errno + nat) \<times> 'a volume_scheme" where
  "lookup_indirect K v ino iblock =
     (let indirect_slot = iblock - BEAMFS_DIRECT_BLOCKS;
          indirect_blk = unat (i_indirect (s_inode v ino))
      in if indirect_blk = 0 then (Inr 0, v)
         else case lookup_level K v indirect_blk indirect_slot of
                (Inl e, v) \<Rightarrow> (Inl e, v)
              | (Inr phys, v) \<Rightarrow> lookup_terminal v phys)"

definition lookup_dindirect :: "kenv \<Rightarrow> 'a volume_scheme \<Rightarrow> ino \<Rightarrow> nat \<Rightarrow> (errno + nat) \<times> 'a volume_scheme" where
  "lookup_dindirect K v ino iblock =
     (let didx = iblock - BEAMFS_MAX_IBLOCK_INDIRECT;
          l1_slot = didx div BEAMFS_INDIRECT_PTRS;
          l2_slot = didx mod BEAMFS_INDIRECT_PTRS;
          dindirect_blk = unat (i_dindirect (s_inode v ino))
      in if dindirect_blk = 0 then (Inr 0, v)
         else case lookup_level K v dindirect_blk l1_slot of
                (Inl e, v) \<Rightarrow> (Inl e, v)
              | (Inr l1_blk, v) \<Rightarrow>
                  if l1_blk = 0 then (Inr 0, v)
                  else case lookup_level K v l1_blk l2_slot of
                         (Inl e, v) \<Rightarrow> (Inl e, v)
                       | (Inr phys, v) \<Rightarrow> lookup_terminal v phys)"

definition lookup_tindirect :: "kenv \<Rightarrow> 'a volume_scheme \<Rightarrow> ino \<Rightarrow> nat \<Rightarrow> (errno + nat) \<times> 'a volume_scheme" where
  "lookup_tindirect K v ino iblock =
     (let tidx = iblock - BEAMFS_MAX_IBLOCK_DINDIRECT;
          l1_slot = tidx div (BEAMFS_INDIRECT_PTRS * BEAMFS_INDIRECT_PTRS);
          l2_slot = (tidx div BEAMFS_INDIRECT_PTRS) mod BEAMFS_INDIRECT_PTRS;
          l3_slot = tidx mod BEAMFS_INDIRECT_PTRS;
          tindirect_blk = unat (i_tindirect (s_inode v ino))
      in if tindirect_blk = 0 then (Inr 0, v)
         else case lookup_level K v tindirect_blk l1_slot of
                (Inl e, v) \<Rightarrow> (Inl e, v)
              | (Inr l1_blk, v) \<Rightarrow>
                  if l1_blk = 0 then (Inr 0, v)
                  else case lookup_level K v l1_blk l2_slot of
                         (Inl e, v) \<Rightarrow> (Inl e, v)
                       | (Inr l2_blk, v) \<Rightarrow>
                           if l2_blk = 0 then (Inr 0, v)
                           else case lookup_level K v l2_blk l3_slot of
                                  (Inl e, v) \<Rightarrow> (Inl e, v)
                                | (Inr phys, v) \<Rightarrow> lookup_terminal v phys)"

definition beamfs_inline_lookup_phys :: "kenv \<Rightarrow> 'a volume_scheme \<Rightarrow> ino \<Rightarrow> nat \<Rightarrow> (errno + nat) \<times> 'a volume_scheme" where
  "beamfs_inline_lookup_phys K v ino iblock =
     (if iblock < BEAMFS_DIRECT_BLOCKS then lookup_direct v ino iblock
      else if iblock < BEAMFS_DIRECT_BLOCKS + BEAMFS_INDIRECT_PTRS then lookup_indirect K v ino iblock
      else if iblock < BEAMFS_MAX_IBLOCK_DINDIRECT then lookup_dindirect K v ino iblock
      else if iblock < BEAMFS_MAX_IBLOCK_TINDIRECT then lookup_tindirect K v ino iblock
      else (Inl EOPNOTSUPP, v))"

subsection \<open>Allocating\<close>

text \<open>What a caller is told when the allocator had nothing.\<close>

definition alloc_error :: "'a volume_scheme \<Rightarrow> errno" where
  "alloc_error v = (if s_failed v then EIO else ENOSPC)"

definition tc_zeroed_step :: "nat \<Rightarrow> 'a volume_scheme \<Rightarrow> 'a volume_scheme" where
  "tc_zeroed_step blk v = v\<lparr>s_treecheck := beamfs_tc_zeroed (word_of_nat blk) (s_treecheck v)\<rparr>"

text \<open>The entry of a new slot is allocated; \<open>s_copy_ok\<close> stands for that memory.\<close>

definition tc_store_step :: "ino \<Rightarrow> nat \<Rightarrow> nat \<Rightarrow> nat \<Rightarrow> nat \<Rightarrow> 'a volume_scheme \<Rightarrow> 'a volume_scheme" where
  "tc_store_step ino parent slot old child v =
     v\<lparr>s_treecheck := beamfs_tc_store (s_copy_ok v) ino (word_of_nat parent) (word_of_nat slot) (word_of_nat old)
                         (word_of_nat child) ''beamfs_inline_lookup_or_alloc_phys_new'' (s_treecheck v)\<rparr>"

definition beamfs_attach_dirty :: "nat \<Rightarrow> 'a volume_scheme \<Rightarrow> 'a volume_scheme" where
  "beamfs_attach_dirty blk v =
     (case s_blk v blk of
        None \<Rightarrow> v
      | Some bh \<Rightarrow> if \<not> b_uptodate bh then beamfs_fail v else v\<lparr>s_blk := (s_blk v)(blk \<mapsto> mark_buffer_dirty bh)\<rparr>)"

text \<open>A new block of pointers, zeroed and described in the parity region.\<close>

definition new_pointer_block :: "kenv \<Rightarrow> 'a volume_scheme \<Rightarrow> ino \<Rightarrow> (errno + nat) \<times> 'a volume_scheme" where
  "new_pointer_block K v ino =
     (let (blk, v) = beamfs_alloc_block K v (Some ino)
      in if blk = 0 then (Inl (alloc_error v), v)
         else if \<not> s_getblk_ok v then (Inl EIO, beamfs_free_block K v blk (Some ino))
         else
           let v = tc_zeroed_step blk v;
               v = write_buffer blk (replicate BEAMFS_BLOCK_SIZE 0) v;
               v = beamfs_ind_parity_update K v blk (Some ino)
           in (Inr blk, v))"

text \<open>A new data block: zeros, stamped and sealed. An error of the encoder is logged and the block kept.\<close>

definition zero_data_block :: "kenv \<Rightarrow> 'a volume_scheme \<Rightarrow> ino \<Rightarrow> nat \<Rightarrow> byte list" where
  "zero_data_block K v ino iblock =
     snd (beamfs_seal_data_block K v
            (beamfs_inline_stamp_tail_pad K v (replicate BEAMFS_BLOCK_SIZE 0) (replicate BEAMFS_BLOCK_SIZE 0)
               (word_of_nat ino) (word_of_nat iblock)))"

definition new_data_block :: "kenv \<Rightarrow> 'a volume_scheme \<Rightarrow> ino \<Rightarrow> nat \<Rightarrow> (errno + nat) \<times> 'a volume_scheme" where
  "new_data_block K v ino iblock =
     (let (blk, v) = beamfs_alloc_block K v (Some ino)
      in if blk = 0 then (Inl (alloc_error v), v)
         else if \<not> s_getblk_ok v then (Inl EIO, beamfs_free_block K v blk (Some ino))
         else (Inr blk, write_buffer blk (zero_data_block K v ino iblock) v))"

text \<open>A pointer stored in a slot of its parent, the parity of the parent and its buffer after it.\<close>

definition install_ptr :: "kenv \<Rightarrow> ino \<Rightarrow> nat \<Rightarrow> nat \<Rightarrow> nat \<Rightarrow> 'a volume_scheme \<Rightarrow> 'a volume_scheme" where
  "install_ptr K ino parent slot child v =
     (let bh = the (s_blk v parent);
          v = tc_store_step ino parent slot (ind_ptr (b_data bh) slot) child v;
          v = v\<lparr>s_blk := (s_blk v)(parent \<mapsto> bh\<lparr>b_data := put_le64 (8 * slot) (word_of_nat child) (b_data bh)\<rparr>)\<rparr>;
          v = beamfs_ind_parity_update K v parent (Some ino)
      in beamfs_attach_dirty parent v)"

definition set_ctime_current :: "ino \<Rightarrow> 'a volume_scheme \<Rightarrow> 'a volume_scheme" where
  "set_ctime_current ino v = upd_inode ino (\<lambda>i. i\<lparr>i_ctime := k_time (s_clk v)\<rparr>) v"

text \<open>The child of a slot, added when there is none.\<close>

definition alloc_child :: "kenv \<Rightarrow> 'a volume_scheme \<Rightarrow> ino \<Rightarrow> nat \<Rightarrow> nat \<Rightarrow> (errno + nat) \<times> 'a volume_scheme" where
  "alloc_child K v ino parent slot =
     (case read_verified K v parent of
        (Inl e, v) \<Rightarrow> (Inl e, v)
      | (Inr data, v) \<Rightarrow>
          if ind_ptr data slot \<noteq> 0 then (Inr (ind_ptr data slot), v)
          else case new_pointer_block K v ino of
                 (Inl e, v) \<Rightarrow> (Inl e, v)
               | (Inr child, v) \<Rightarrow>
                   (Inr child, mark_inode_dirty ino (install_ptr K ino parent slot child (mark_inode_dirty ino v))))"

text \<open>The data block of a slot; the flag says whether it was added.\<close>

definition alloc_leaf ::
    "kenv \<Rightarrow> 'a volume_scheme \<Rightarrow> ino \<Rightarrow> nat \<Rightarrow> nat \<Rightarrow> nat \<Rightarrow> (errno + nat \<times> bool) \<times> 'a volume_scheme" where
  "alloc_leaf K v ino iblock parent slot =
     (case read_verified K v parent of
        (Inl e, v) \<Rightarrow> (Inl e, v)
      | (Inr data, v) \<Rightarrow>
          if ind_ptr data slot \<noteq> 0 then (Inr (ind_ptr data slot, False), v)
          else case new_data_block K v ino iblock of
                 (Inl e, v) \<Rightarrow> (Inl e, v)
               | (Inr phys, v) \<Rightarrow>
                   (Inr (phys, True), mark_inode_dirty ino (set_ctime_current ino (install_ptr K ino parent slot phys v))))"

text \<open>The root of a tree, added when the inode has none.\<close>

definition alloc_root ::
    "kenv \<Rightarrow> 'a volume_scheme \<Rightarrow> ino \<Rightarrow> (vinode \<Rightarrow> u64) \<Rightarrow> (u64 \<Rightarrow> vinode \<Rightarrow> vinode) \<Rightarrow> (errno + nat) \<times> 'a volume_scheme" where
  "alloc_root K v ino get put =
     (if get (s_inode v ino) \<noteq> 0 then (Inr (unat (get (s_inode v ino))), v)
      else case new_pointer_block K v ino of
             (Inl e, v) \<Rightarrow> (Inl e, v)
           | (Inr blk, v) \<Rightarrow> (Inr blk, mark_inode_dirty ino (upd_inode ino (put (word_of_nat blk)) v)))"

definition alloc_direct :: "kenv \<Rightarrow> 'a volume_scheme \<Rightarrow> ino \<Rightarrow> nat \<Rightarrow> (errno + nat \<times> bool) \<times> 'a volume_scheme" where
  "alloc_direct K v ino iblock =
     (let phys = unat (i_direct (s_inode v ino) ! iblock)
      in if phys \<noteq> 0 then (Inr (phys, False), v)
         else case new_data_block K v ino iblock of
                (Inl e, v) \<Rightarrow> (Inl e, v)
              | (Inr phys, v) \<Rightarrow>
                  (Inr (phys, True),
                   mark_inode_dirty ino (upd_inode ino (\<lambda>i. i\<lparr>i_direct := (i_direct i)[iblock := word_of_nat phys]\<rparr>) v)))"

definition alloc_indirect :: "kenv \<Rightarrow> 'a volume_scheme \<Rightarrow> ino \<Rightarrow> nat \<Rightarrow> (errno + nat \<times> bool) \<times> 'a volume_scheme" where
  "alloc_indirect K v ino iblock =
     (case alloc_root K v ino i_indirect (\<lambda>b i. i\<lparr>i_indirect := b\<rparr>) of
        (Inl e, v) \<Rightarrow> (Inl e, v)
      | (Inr indirect_blk, v) \<Rightarrow> alloc_leaf K v ino iblock indirect_blk (iblock - BEAMFS_DIRECT_BLOCKS))"

definition alloc_dindirect :: "kenv \<Rightarrow> 'a volume_scheme \<Rightarrow> ino \<Rightarrow> nat \<Rightarrow> (errno + nat \<times> bool) \<times> 'a volume_scheme" where
  "alloc_dindirect K v ino iblock =
     (let didx = iblock - BEAMFS_MAX_IBLOCK_INDIRECT;
          l1_slot = didx div BEAMFS_INDIRECT_PTRS;
          l2_slot = didx mod BEAMFS_INDIRECT_PTRS
      in case alloc_root K v ino i_dindirect (\<lambda>b i. i\<lparr>i_dindirect := b\<rparr>) of
           (Inl e, v) \<Rightarrow> (Inl e, v)
         | (Inr dindirect_blk, v) \<Rightarrow>
             (case alloc_child K v ino dindirect_blk l1_slot of
                (Inl e, v) \<Rightarrow> (Inl e, v)
              | (Inr l1_blk, v) \<Rightarrow> alloc_leaf K v ino iblock l1_blk l2_slot))"

definition alloc_tindirect :: "kenv \<Rightarrow> 'a volume_scheme \<Rightarrow> ino \<Rightarrow> nat \<Rightarrow> (errno + nat \<times> bool) \<times> 'a volume_scheme" where
  "alloc_tindirect K v ino iblock =
     (let tidx = iblock - BEAMFS_MAX_IBLOCK_DINDIRECT;
          l1_slot = tidx div (BEAMFS_INDIRECT_PTRS * BEAMFS_INDIRECT_PTRS);
          l2_slot = (tidx div BEAMFS_INDIRECT_PTRS) mod BEAMFS_INDIRECT_PTRS;
          l3_slot = tidx mod BEAMFS_INDIRECT_PTRS
      in case alloc_root K v ino i_tindirect (\<lambda>b i. i\<lparr>i_tindirect := b\<rparr>) of
           (Inl e, v) \<Rightarrow> (Inl e, v)
         | (Inr tindirect_blk, v) \<Rightarrow>
             (case alloc_child K v ino tindirect_blk l1_slot of
                (Inl e, v) \<Rightarrow> (Inl e, v)
              | (Inr l1_blk, v) \<Rightarrow>
                  (case alloc_child K v ino l1_blk l2_slot of
                     (Inl e, v) \<Rightarrow> (Inl e, v)
                   | (Inr l2_blk, v) \<Rightarrow> alloc_leaf K v ino iblock l2_blk l3_slot)))"

text \<open>\<open>freeing\<close>: the inode is being destroyed.\<close>

definition beamfs_inline_lookup_or_alloc_phys_new ::
    "kenv \<Rightarrow> bool \<Rightarrow> 'a volume_scheme \<Rightarrow> ino \<Rightarrow> nat \<Rightarrow> (errno + nat \<times> bool) \<times> 'a volume_scheme" where
  "beamfs_inline_lookup_or_alloc_phys_new K freeing v ino iblock =
     (if freeing then (Inl EIO, v)
      else if s_free_blocks v = 0 then (Inl ENOSPC, v)
      else if iblock < BEAMFS_DIRECT_BLOCKS then alloc_direct K v ino iblock
      else if iblock < BEAMFS_DIRECT_BLOCKS + BEAMFS_INDIRECT_PTRS then alloc_indirect K v ino iblock
      else if iblock < BEAMFS_MAX_IBLOCK_DINDIRECT then alloc_dindirect K v ino iblock
      else if iblock < BEAMFS_MAX_IBLOCK_TINDIRECT then alloc_tindirect K v ino iblock
      else (Inl EOPNOTSUPP, v))"

subsection \<open>Counting\<close>

text \<open>The count so far and the first error. \<open>mem\<close>: the array of children could be allocated.\<close>

primrec count_kids :: "(nat \<Rightarrow> nat \<times> 'a volume_scheme \<Rightarrow> errno option \<times> nat \<times> 'a volume_scheme) \<Rightarrow> nat list
    \<Rightarrow> nat \<times> 'a volume_scheme \<Rightarrow> errno option \<times> nat \<times> 'a volume_scheme" where
  "count_kids f [] st = (None, st)"
| "count_kids f (k # ks) st =
     (case f k st of (Some e, st) \<Rightarrow> (Some e, st) | (None, st) \<Rightarrow> count_kids f ks st)"

primrec beamfs_count_tree ::
    "nat \<Rightarrow> kenv \<Rightarrow> nat \<Rightarrow> nat \<times> 'a volume_scheme \<Rightarrow> errno option \<times> nat \<times> 'a volume_scheme" where
  "beamfs_count_tree 0 K blk st = (None, st)"
| "beamfs_count_tree (Suc depth) K blk st =
     (let (count, v) = st
      in case beamfs_check_intermediate_block K v blk of
           (Some e, v) \<Rightarrow> (Some e, count, v)
         | (None, v) \<Rightarrow>
             (case read_verified K v blk of
                (Inl e, v) \<Rightarrow> (Some e, count, v)
              | (Inr data, v) \<Rightarrow>
                  if depth > 0 \<and> \<not> s_copy_ok v then (Some ENOMEM, count, v)
                  else
                    let ptrs = filter (\<lambda>p. p \<noteq> 0) (map (ind_ptr data) [0..<BEAMFS_INDIRECT_PTRS])
                    in if depth > 0 then count_kids (beamfs_count_tree depth K) ptrs (count + 1, v)
                       else (None, count + 1 + length ptrs, v)))"

definition count_roots :: "kenv \<Rightarrow> (nat \<times> nat) list \<Rightarrow> nat \<times> 'a volume_scheme \<Rightarrow> errno option \<times> nat \<times> 'a volume_scheme" where
  "count_roots K roots st =
     foldl (\<lambda>(ret, st) (depth, root). if ret = None \<and> root \<noteq> 0 then beamfs_count_tree depth K root st else (ret, st))
       (None, st) roots"

definition beamfs_count_blocks :: "kenv \<Rightarrow> 'a volume_scheme \<Rightarrow> ino \<Rightarrow> errno option \<times> nat \<times> 'a volume_scheme" where
  "beamfs_count_blocks K v ino =
     (let fi = s_inode v ino
      in if S_ISLNK (i_mode fi)
         then (None, (if sint (i_size fi) \<ge> 96 \<and> i_direct fi ! 0 \<noteq> 0 then 1 else 0), v)
         else if \<not> S_ISREG (i_mode fi) \<and> \<not> S_ISDIR (i_mode fi) then (None, 0, v)
         else count_roots K [(1, unat (i_indirect fi)), (2, unat (i_dindirect fi)), (3, unat (i_tindirect fi))]
                (length (filter (\<lambda>p. p \<noteq> 0) (take BEAMFS_DIRECT_BLOCKS (i_direct fi))), v))"

end
