(* ===== verification/BlockTree_Correct.thy ===== *)
theory BlockTree_Correct
  imports BlockTree
begin

section \<open>Correctness of the block tree\<close>

text \<open>
  The tree in the buffers as a finite function: \<open>tree_get d v b i\<close> follows the pointers from block \<open>b\<close> down \<open>d\<close>
  levels to the data block of index \<open>i\<close>, 0 for a hole, and \<open>file_map\<close> does it for a file. A tree is in order
  (\<open>tree_ok\<close>) when every block it names is in the data region and allocated, every block of pointers is
  readable, and no block is named twice. Shown: a lookup returns nothing but allocated blocks of the data region,
  and on a tree in order exactly the map; an allocating lookup is an update of the map at one index,
  whatever it fails at, and keeps the tree in order; a new block reads back as zeros.
\<close>

subsection \<open>The map of a tree\<close>

definition node_ptr :: "'a volume_scheme \<Rightarrow> nat \<Rightarrow> nat \<Rightarrow> nat" where
  "node_ptr v b s = (case s_blk v b of None \<Rightarrow> 0 | Some bh \<Rightarrow> ind_ptr (b_data bh) s)"

primrec tree_get :: "nat \<Rightarrow> 'a volume_scheme \<Rightarrow> nat \<Rightarrow> nat \<Rightarrow> nat" where
  "tree_get 0 v b i = b"
| "tree_get (Suc d) v b i = (if b = 0 then 0 else tree_get d v (node_ptr v b (i div 512 ^ d)) (i mod 512 ^ d))"

text \<open>The blocks of pointers of a tree, and all its blocks.\<close>

primrec tree_nodes :: "nat \<Rightarrow> 'a volume_scheme \<Rightarrow> nat \<Rightarrow> nat set" where
  "tree_nodes 0 v b = {}"
| "tree_nodes (Suc d) v b = (if b = 0 then {} else insert b (\<Union>s \<in> {..<512}. tree_nodes d v (node_ptr v b s)))"

primrec tree_blocks :: "nat \<Rightarrow> 'a volume_scheme \<Rightarrow> nat \<Rightarrow> nat set" where
  "tree_blocks 0 v b = (if b = 0 then {} else {b})"
| "tree_blocks (Suc d) v b = (if b = 0 then {} else insert b (\<Union>s \<in> {..<512}. tree_blocks d v (node_ptr v b s)))"

definition good_block :: "'a volume_scheme \<Rightarrow> nat \<Rightarrow> bool" where
  "good_block v b \<longleftrightarrow> in_data_region v b \<and> beamfs_block_is_allocated v b"

definition readable :: "'a volume_scheme \<Rightarrow> nat \<Rightarrow> bool" where
  "readable v b \<longleftrightarrow> (\<exists>bh. s_blk v b = Some bh \<and> length (b_data bh) = 4096 \<and> b_uptodate bh)"

primrec tree_ok :: "nat \<Rightarrow> 'a volume_scheme \<Rightarrow> nat \<Rightarrow> bool" where
  "tree_ok 0 v b \<longleftrightarrow> b = 0 \<or> good_block v b"
| "tree_ok (Suc d) v b \<longleftrightarrow> b = 0 \<or> good_block v b \<and> readable v b
     \<and> (\<forall>s < 512. tree_ok d v (node_ptr v b s) \<and> b \<notin> tree_blocks d v (node_ptr v b s))
     \<and> (\<forall>s < 512. \<forall>t < 512. s \<noteq> t \<longrightarrow> tree_blocks d v (node_ptr v b s) \<inter> tree_blocks d v (node_ptr v b t) = {})"

lemma tree_zero [simp]: "tree_get d v 0 i = 0" "tree_nodes d v 0 = {}" "tree_blocks d v 0 = {}" "tree_ok d v 0"
  by (cases d; simp)+

lemma tree_blocks_pos: "x \<in> tree_blocks d v b \<Longrightarrow> x \<noteq> 0"
  by (induction d arbitrary: b) (auto split: if_splits)

lemma tree_nodes_blocks: "tree_nodes d v b \<subseteq> tree_blocks d v b"
proof (induction d arbitrary: b)
  case (Suc d)
  have "(\<Union>s \<in> {..<512}. tree_nodes d v (node_ptr v b s)) \<subseteq> (\<Union>s \<in> {..<512}. tree_blocks d v (node_ptr v b s))"
    by (rule UN_mono [OF subset_refl Suc])
  then show ?case by auto
qed simp

lemma tree_blocks_good: "tree_ok d v b \<Longrightarrow> x \<in> tree_blocks d v b \<Longrightarrow> good_block v x"
  by (induction d arbitrary: b) (auto split: if_splits)

lemma good_allocated: "good_block v x \<Longrightarrow> beamfs_block_is_allocated v x" "good_block v x \<Longrightarrow> s_data_start v \<le> x"
  by (simp_all add: good_block_def in_data_region_def)

lemma node_ptr_cong: "s_blk v' b = s_blk v b \<Longrightarrow> node_ptr v' b s = node_ptr v b s"
  by (simp add: node_ptr_def)

lemma slot_bounds: "i < 512 ^ Suc d \<Longrightarrow> i div 512 ^ d < 512" "i mod 512 ^ d < (512 :: nat) ^ d"
  by (simp_all add: less_mult_imp_div_less)

lemma tree_cong:
  assumes "\<And>x. x \<in> tree_nodes d v b \<Longrightarrow> s_blk v' x = s_blk v x"
  shows "i < 512 ^ d \<Longrightarrow> tree_get d v' b i = tree_get d v b i" "tree_nodes d v' b = tree_nodes d v b"
    "tree_blocks d v' b = tree_blocks d v b"
proof -
  have "(\<forall>i < 512 ^ d. tree_get d v' b i = tree_get d v b i) \<and> tree_nodes d v' b = tree_nodes d v b \<and> tree_blocks d v' b = tree_blocks d v b"
    using assms
  proof (induction d arbitrary: b)
    case (Suc d)
    show ?case
    proof (cases "b = 0")
      case False
      have p: "node_ptr v' b s = node_ptr v b s" for s
        using Suc.prems [of b] False by (intro node_ptr_cong) simp
      have c: "(\<forall>i < 512 ^ d. tree_get d v' (node_ptr v b s) i = tree_get d v (node_ptr v b s) i)
          \<and> tree_nodes d v' (node_ptr v b s) = tree_nodes d v (node_ptr v b s)
          \<and> tree_blocks d v' (node_ptr v b s) = tree_blocks d v (node_ptr v b s)" if "s < 512" for s
        using Suc.IH [of "node_ptr v b s"] Suc.prems that False by auto
      have "tree_get (Suc d) v' b i = tree_get (Suc d) v b i" if "i < 512 ^ Suc d" for i
        using c [OF slot_bounds(1) [OF that]] slot_bounds(2) [of i d] p by simp
      moreover have "tree_nodes (Suc d) v' b = tree_nodes (Suc d) v b" "tree_blocks (Suc d) v' b = tree_blocks (Suc d) v b"
        using c p by simp_all
      ultimately show ?thesis by blast
    qed simp
  qed simp
  then show "i < 512 ^ d \<Longrightarrow> tree_get d v' b i = tree_get d v b i" "tree_nodes d v' b = tree_nodes d v b"
    "tree_blocks d v' b = tree_blocks d v b"
    by simp_all
qed

text \<open>A tree whose blocks of pointers were left alone and none of whose blocks was given back.\<close>

lemma tree_ok_kept:
  assumes "tree_ok d v b" "s_nblocks v' = s_nblocks v" "s_data_start v' = s_data_start v"
    and "\<And>x. x \<in> tree_nodes d v b \<Longrightarrow> s_blk v' x = s_blk v x"
    and "\<And>x. x \<in> tree_blocks d v b \<Longrightarrow> beamfs_block_is_allocated v' x"
  shows "tree_ok d v' b"
  using assms(1,4,5)
proof (induction d arbitrary: b)
  case 0
  then show ?case using assms(2,3) by (auto simp: good_block_def in_data_region_def)
next
  case (Suc d)
  show ?case
  proof (cases "b = 0")
    case False
    have b: "s_blk v' b = s_blk v b" using Suc.prems(2) [of b] False by simp
    have p: "node_ptr v' b s = node_ptr v b s" for s by (rule node_ptr_cong [OF b])
    have c: "tree_ok d v' (node_ptr v b s)" "tree_blocks d v' (node_ptr v b s) = tree_blocks d v (node_ptr v b s)" if "s < 512" for s
    proof -
      show "tree_ok d v' (node_ptr v b s)"
        using Suc.IH [of "node_ptr v b s"] Suc.prems that False by auto
      show "tree_blocks d v' (node_ptr v b s) = tree_blocks d v (node_ptr v b s)"
        using Suc.prems(2) that False by (intro tree_cong(3)) auto
    qed
    have g: "good_block v' b"
      using Suc.prems(1) Suc.prems(3) [of b] False assms(2,3) by (auto simp: good_block_def in_data_region_def)
    have r: "readable v' b" using Suc.prems(1) False b by (simp add: readable_def)
    show ?thesis using Suc.prems(1) False g r c p by simp
  qed simp
qed

definition free_blocks :: "'a volume_scheme \<Rightarrow> nat set" where
  "free_blocks v = {x. \<not> beamfs_block_is_allocated v x}"

lemma tree_changes:
  assumes "tree_ok d v b" "changes D B v v'" "tree_nodes d v b \<inter> B = {}"
  shows "tree_ok d v' b" "i < 512 ^ d \<Longrightarrow> tree_get d v' b i = tree_get d v b i" "tree_nodes d v' b = tree_nodes d v b"
    "tree_blocks d v' b = tree_blocks d v b"
proof -
  have n: "s_blk v' x = s_blk v x" if "x \<in> tree_nodes d v b" for x
  proof -
    have "x \<in> tree_blocks d v b" using tree_nodes_blocks that by blast
    then have "s_data_start v \<le> x" using tree_blocks_good [OF assms(1)] good_allocated(2) by blast
    then show ?thesis using changesD(10) [OF assms(2)] assms(3) that by blast
  qed
  have "beamfs_block_is_allocated v' x" if "x \<in> tree_blocks d v b" for x
    by (rule changesD(11) [OF assms(2) good_allocated(1) [OF tree_blocks_good [OF assms(1) that]]])
  then show "tree_ok d v' b"
    using changesD(1,2) [OF assms(2)] n by (intro tree_ok_kept [OF assms(1)])
  show "i < 512 ^ d \<Longrightarrow> tree_get d v' b i = tree_get d v b i" "tree_nodes d v' b = tree_nodes d v b"
    "tree_blocks d v' b = tree_blocks d v b"
    using tree_cong [OF n] by simp_all
qed

text \<open>One slot of a node replaced, with what hangs below it.\<close>

lemma tree_rebuild:
  assumes ok: "tree_ok (Suc d) v b" and b: "b \<noteq> 0" "s < 512"
    and ptr: "\<And>t. t < 512 \<Longrightarrow> node_ptr v' b t = (if t = s then c else node_ptr v b t)" and rd: "readable v' b"
    and ch: "changes D B v v'" "B \<subseteq> insert b (tree_nodes d v (node_ptr v b s) \<union> free_blocks v)"
    and sub: "tree_ok d v' c" "tree_blocks d v' c \<subseteq> tree_blocks d v (node_ptr v b s) \<union> free_blocks v"
      "tree_nodes d v' c \<subseteq> tree_nodes d v (node_ptr v b s) \<union> free_blocks v"
  shows "tree_ok (Suc d) v' b" "tree_blocks (Suc d) v' b \<subseteq> tree_blocks (Suc d) v b \<union> free_blocks v"
    and "tree_nodes (Suc d) v' b \<subseteq> tree_nodes (Suc d) v b \<union> free_blocks v"
    and "i < 512 ^ Suc d \<Longrightarrow> tree_get (Suc d) v' b i
      = (if i div 512 ^ d = s then tree_get d v' c (i mod 512 ^ d) else tree_get (Suc d) v b i)"
proof -
  let ?p = "node_ptr v b"
  have okd: "tree_ok d v (?p t)" "b \<notin> tree_blocks d v (?p t)" if "t < 512" for t using ok b(1) that by simp_all
  have dis: "tree_blocks d v (?p t) \<inter> tree_blocks d v (?p u) = {}" if "t < 512" "u < 512" "t \<noteq> u" for t u
    using ok b(1) that by simp
  have alloc: "x \<notin> free_blocks v" if "x \<in> tree_blocks d v (?p t)" "t < 512" for x t
    using tree_blocks_good [OF okd(1) [OF that(2)] that(1)] good_allocated(1) by (auto simp: free_blocks_def)
  have bal: "b \<notin> free_blocks v" using ok b(1) by (auto simp: free_blocks_def good_block_def)
  have sib: "tree_nodes d v (?p t) \<inter> B = {}" if t: "t < 512" "t \<noteq> s" for t
  proof -
    have "tree_nodes d v (?p t) \<inter> tree_nodes d v (?p s) = {}"
      using dis [OF t(1) b(2) t(2)] tree_nodes_blocks by fast
    moreover have "tree_nodes d v (?p t) \<inter> free_blocks v = {}" using alloc [OF _ t(1)] tree_nodes_blocks by fast
    moreover have "b \<notin> tree_nodes d v (?p t)" using okd(2) [OF t(1)] tree_nodes_blocks by fast
    ultimately show ?thesis using ch(2) by blast
  qed
  note sibs = tree_changes [OF okd(1) ch(1) sib]
  have blk: "tree_blocks d v' (if t = s then c else ?p t) \<subseteq> tree_blocks d v (?p t) \<union> free_blocks v" if "t < 512" for t
    using sub(2) sibs(4) that by (cases "t = s") auto
  show "tree_blocks (Suc d) v' b \<subseteq> tree_blocks (Suc d) v b \<union> free_blocks v"
  proof
    fix x assume "x \<in> tree_blocks (Suc d) v' b"
    then consider "x = b" | t where "t < 512" "x \<in> tree_blocks d v' (node_ptr v' b t)" using b(1) by auto
    then show "x \<in> tree_blocks (Suc d) v b \<union> free_blocks v"
    proof cases
      case (2 t)
      then have "x \<in> tree_blocks d v (?p t) \<union> free_blocks v" using blk [OF 2(1)] ptr [OF 2(1)] by auto
      then show ?thesis using 2(1) b(1) by auto
    qed (use b(1) in simp)
  qed
  have nod: "tree_nodes d v' (if t = s then c else ?p t) \<subseteq> tree_nodes d v (?p t) \<union> free_blocks v" if "t < 512" for t
    using sub(3) sibs(3) that by (cases "t = s") auto
  show "tree_nodes (Suc d) v' b \<subseteq> tree_nodes (Suc d) v b \<union> free_blocks v"
  proof
    fix x assume "x \<in> tree_nodes (Suc d) v' b"
    then consider "x = b" | t where "t < 512" "x \<in> tree_nodes d v' (node_ptr v' b t)" using b(1) by auto
    then show "x \<in> tree_nodes (Suc d) v b \<union> free_blocks v"
    proof cases
      case (2 t)
      then have "x \<in> tree_nodes d v (?p t) \<union> free_blocks v" using nod [OF 2(1)] ptr [OF 2(1)] by auto
      then show ?thesis using 2(1) b(1) by auto
    qed (use b(1) in simp)
  qed
  have notb: "b \<notin> tree_blocks d v' (if t = s then c else ?p t)" if "t < 512" for t
    using blk [OF that] okd(2) [OF that] bal by blast
  have sep: "tree_blocks d v' (if t = s then c else ?p t) \<inter> tree_blocks d v' (if u = s then c else ?p u) = {}"
    if tu: "t < 512" "u < 512" "t \<noteq> u" for t u
  proof -
    have *: "tree_blocks d v' c \<inter> tree_blocks d v (?p w) = {}" if w: "w < 512" "w \<noteq> s" for w
      using sub(2) dis [OF w(1) b(2) w(2)] alloc [OF _ w(1)] by blast
    have "tree_blocks d v' (?p t) = tree_blocks d v (?p t)" if "t \<noteq> s" using sibs(4) [OF tu(1) tu(1) that] .
    moreover have "tree_blocks d v' (?p u) = tree_blocks d v (?p u)" if "u \<noteq> s" using sibs(4) [OF tu(2) tu(2) that] .
    ultimately show ?thesis using dis [OF tu] * [OF tu(1)] * [OF tu(2)] tu(3)
      by (cases "t = s"; cases "u = s") (simp_all add: Int_commute)
  qed
  have "tree_ok d v' (if t = s then c else ?p t)" if "t < 512" for t
    using sub(1) sibs(1) [OF that that] by simp
  moreover have "good_block v' b"
    using ok b(1) changesD(1,2) [OF ch(1)] changesD(11) [OF ch(1), of b] by (simp add: good_block_def in_data_region_def)
  ultimately show "tree_ok (Suc d) v' b" using rd ptr notb sep by simp
  show "tree_get (Suc d) v' b i
      = (if i div 512 ^ d = s then tree_get d v' c (i mod 512 ^ d) else tree_get (Suc d) v b i)" if i: "i < 512 ^ Suc d"
    using b(1) ptr [OF slot_bounds(1) [OF i]] sibs(2) [OF slot_bounds(1) [OF i] slot_bounds(1) [OF i] _ slot_bounds(2) [of i d]]
    by simp
qed

subsection \<open>The steps\<close>

lemma read_verified_spec:
  assumes "read_verified K v b = (r, v')"
  shows "keeps v v'" "r = Inr data \<Longrightarrow> \<exists>bh. s_blk v b = Some bh \<and> data = b_data bh"
proof -
  have "keeps v v' \<and> (r = Inr data \<longrightarrow> (\<exists>bh. s_blk v b = Some bh \<and> data = b_data bh))"
  proof (cases "s_blk v b")
    case (Some bh)
    obtain ret w where w: "beamfs_ind_parity_verify K v b = (ret, w)" by (cases "beamfs_ind_parity_verify K v b")
    then show ?thesis using assms Some ind_parity_verify_keeps [OF w] by (auto simp: read_verified_def split: if_splits)
  qed (use assms in \<open>auto simp: read_verified_def\<close>)
  then show "keeps v v'" "r = Inr data \<Longrightarrow> \<exists>bh. s_blk v b = Some bh \<and> data = b_data bh" by auto
qed

lemma tc_step_keeps [simp]: "keeps v (tc_zeroed_step b v)" "keeps v (tc_store_step ino p s old c v)"
  by (simp_all add: tc_zeroed_step_def tc_store_step_def keeps_def frame_def alloc_inv_def)

lemma good_fresh:
  assumes "beamfs_alloc_block K v owner = (b, w)" "alloc_inv v" "b \<noteq> 0"
  shows "b \<in> free_blocks v" "good_block w b" "s_data_start v \<le> b"
  using alloc_block_frame(4,5,6) [OF assms(1,2)] frameD(1,2) [OF alloc_block_frame(1) [OF assms(1,2)]] assms(3)
  by (auto simp: free_blocks_def good_block_def in_data_region_def)

lemma good_block_changes: "changes D B v v' \<Longrightarrow> good_block v b \<Longrightarrow> good_block v' b"
  using changesD(1,2,11) [of D B v v'] by (simp add: good_block_def in_data_region_def)

lemma new_block_changes:
  assumes a: "beamfs_alloc_block K v owner = (b, w)" "alloc_inv v" "b \<noteq> 0" and c: "changes {} {b} w v'"
  shows "changes {} (free_blocks v) v v'" "good_block v' b" "b \<in> free_blocks v" "alloc_inv v'"
proof -
  note g = good_fresh [OF a]
  show "changes {} (free_blocks v) v v'"
    using alloc_block_changes [OF a(1,2)] changes_mono [OF c, of "{}" "free_blocks v"] g(1) by (auto intro: changes_trans)
  show "good_block v' b" by (rule good_block_changes [OF c g(2)])
  show "b \<in> free_blocks v" by (rule g(1))
  show "alloc_inv v'" using changesD(3) [OF c] frameD(3) [OF alloc_block_frame(1) [OF a(1,2)] a(2)] by blast
qed

lemma new_pointer_block_spec:
  assumes n: "new_pointer_block K v ino = (r, v')" and v: "alloc_inv v" "layout_ok v"
  shows "changes {} (free_blocks v) v v'" and "r = Inl e \<Longrightarrow> changes {} {} v v'"
    and "r = Inr b \<Longrightarrow> b \<in> free_blocks v \<and> b \<noteq> 0 \<and> good_block v' b \<and> readable v' b \<and> (\<forall>s < 512. node_ptr v' b s = 0)"
proof -
  obtain blk w where a: "beamfs_alloc_block K v (Some ino) = (blk, w)" by (cases "beamfs_alloc_block K v (Some ino)")
  have "changes {} (free_blocks v) v v' \<and> (r = Inl e \<longrightarrow> changes {} {} v v')
    \<and> (r = Inr b \<longrightarrow> b \<in> free_blocks v \<and> b \<noteq> 0 \<and> good_block v' b \<and> readable v' b \<and> (\<forall>s < 512. node_ptr v' b s = 0))"
  proof (cases "blk = 0 \<or> \<not> s_getblk_ok w")
    case True
    have "changes {} {} v v'" "\<exists>e. r = Inl e"
      using True n a alloc_block_changes [OF a v(1)] alloc_block_inode(3) [OF a v(1)]
      by (auto simp: new_pointer_block_def split: if_splits)
    then show ?thesis using changes_mono [of "{}" "{}" v v' "{}" "free_blocks v"] by auto
  next
    case False
    let ?z = "tc_zeroed_step blk w" and ?w = "write_buffer blk (replicate 4096 0) (tc_zeroed_step blk w)"
    have e: "v' = beamfs_ind_parity_update K ?w blk (Some ino)" "r = Inr blk"
      using n a False by (auto simp: new_pointer_block_def Let_def)
    have cw: "changes {} {blk} w ?w"
      using keeps_changes [OF tc_step_keeps(1)] write_buffer_changes [of blk "{blk}"] by (rule changes_trans) simp
    have "layout_ok ?w" using changes_layout [OF cw] changes_layout [OF alloc_block_changes [OF a v(1), of "{}" "{}"]] v(2) by simp
    then have k: "keeps ?w v'" using e(1) ind_parity_update_keeps by blast
    note nb = new_block_changes [OF a v(1) _ changes_trans [OF cw keeps_changes [OF k]]]
    have "s_data_start ?w \<le> blk"
      using good_fresh(3) [OF a v(1)] False frameD(2) [OF alloc_block_frame(1) [OF a v(1)]] changesD(2) [OF cw] by simp
    then have "s_blk v' blk = s_blk ?w blk" by (rule frameD(21) [OF keeps_frame [OF k]])
    then have "readable v' blk" "\<forall>s < 512. node_ptr v' blk s = 0"
      by (simp_all add: readable_def node_ptr_def ind_ptr_def)
    then show ?thesis using nb False e(2) by auto
  qed
  then show "changes {} (free_blocks v) v v'" "r = Inl e \<Longrightarrow> changes {} {} v v'"
    "r = Inr b \<Longrightarrow> b \<in> free_blocks v \<and> b \<noteq> 0 \<and> good_block v' b \<and> readable v' b \<and> (\<forall>s < 512. node_ptr v' b s = 0)"
    by auto
qed

lemma zero_data_block_cong:
  assumes "s_feat_incompat w = s_feat_incompat v" "s_data_csum w = s_data_csum v" "s_data_selfid w = s_data_selfid v"
  shows "zero_data_block K w ino iblock = zero_data_block K v ino iblock"
  using assms by (simp add: zero_data_block_def beamfs_seal_data_block_def beamfs_inline_stamp_tail_pad_def interleaved_def
      beamfs_desc_off_def beamfs_selfid_off_def beamfs_block_payload_def)

definition fresh_data :: "kenv \<Rightarrow> 'a volume_scheme \<Rightarrow> ino \<Rightarrow> nat \<Rightarrow> buffer_head" where
  "fresh_data K v ino iblock = \<lparr>b_data = zero_data_block K v ino iblock, b_uptodate = True, b_dirty = True\<rparr>"

lemma new_data_block_spec:
  assumes n: "new_data_block K v ino iblock = (r, v')" and v: "alloc_inv v"
  shows "changes {} (free_blocks v) v v'" and "r = Inl e \<Longrightarrow> changes {} {} v v'"
    and "r = Inr b \<Longrightarrow> b \<in> free_blocks v \<and> b \<noteq> 0 \<and> good_block v' b \<and> s_blk v' b = Some (fresh_data K v ino iblock)"
proof -
  obtain blk w where a: "beamfs_alloc_block K v (Some ino) = (blk, w)" by (cases "beamfs_alloc_block K v (Some ino)")
  have "changes {} (free_blocks v) v v' \<and> (r = Inl e \<longrightarrow> changes {} {} v v')
    \<and> (r = Inr b \<longrightarrow> b \<in> free_blocks v \<and> b \<noteq> 0 \<and> good_block v' b \<and> s_blk v' b = Some (fresh_data K v ino iblock))"
  proof (cases "blk = 0 \<or> \<not> s_getblk_ok w")
    case True
    have "changes {} {} v v'" "\<exists>e. r = Inl e"
      using True n a alloc_block_changes [OF a v(1)] alloc_block_inode(3) [OF a v(1)]
      by (auto simp: new_data_block_def split: if_splits)
    then show ?thesis using changes_mono [of "{}" "{}" v v' "{}" "free_blocks v"] by auto
  next
    case False
    have e: "v' = write_buffer blk (zero_data_block K w ino iblock) w" "r = Inr blk"
      using n a False by (auto simp: new_data_block_def Let_def)
    have "changes {} {blk} w v'" unfolding e(1) by (rule write_buffer_changes) simp
    note nb = new_block_changes [OF a v(1) _ this]
    have "zero_data_block K w ino iblock = zero_data_block K v ino iblock"
      using frameD(13-15) [OF alloc_block_frame(1) [OF a v(1)]] by (rule zero_data_block_cong)
    then show ?thesis using nb False e by (auto simp: fresh_data_def)
  qed
  then show "changes {} (free_blocks v) v v'" "r = Inl e \<Longrightarrow> changes {} {} v v'"
    "r = Inr b \<Longrightarrow> b \<in> free_blocks v \<and> b \<noteq> 0 \<and> good_block v' b \<and> s_blk v' b = Some (fresh_data K v ino iblock)"
    by auto
qed

lemma ind_ptr_put:
  assumes "length d = 4096" "s < 512" "t < 512" "c < 2 ^ 64"
  shows "ind_ptr (put_le64 (8 * s) (word_of_nat c) d) t = (if t = s then c else ind_ptr d t)"
  using get_put_ptr [OF assms(1-3), of "word_of_nat c"] assms(4) by (simp add: ind_ptr_def unat_of_nat)

lemma good_bound: "layout_ok v \<Longrightarrow> good_block v b \<Longrightarrow> b < 2 ^ 64"
  by (simp add: layout_ok_def good_block_def in_data_region_def)

lemma install_ptr_spec:
  assumes v: "layout_ok v" "s_data_start v \<le> p" "readable v p" and s: "s < 512" "c < 2 ^ 64"
  shows "changes {} {p} v (install_ptr K ino p s c v)" "readable (install_ptr K ino p s c v) p"
    and "t < 512 \<Longrightarrow> node_ptr (install_ptr K ino p s c v) p t = (if t = s then c else node_ptr v p t)"
proof -
  obtain bh where bh: "s_blk v p = Some bh" "length (b_data bh) = 4096" "b_uptodate bh" using v(3) by (auto simp: readable_def)
  let ?bh = "bh\<lparr>b_data := put_le64 (8 * s) (word_of_nat c) (b_data bh)\<rparr>"
  define w where "w = tc_store_step ino p s (ind_ptr (b_data bh) s) c v"
  define u where "u = w\<lparr>s_blk := (s_blk w)(p \<mapsto> ?bh)\<rparr>"
  define x where "x = beamfs_ind_parity_update K u p (Some ino)"
  have i: "install_ptr K ino p s c v = beamfs_attach_dirty p x"
    unfolding install_ptr_def Let_def x_def u_def w_def using bh(1) by simp
  have cw: "changes {} {p} v w" unfolding w_def by (rule keeps_changes [OF tc_step_keeps(2)])
  have cu: "changes {} {p} v u" unfolding u_def by (rule changes_trans [OF cw set_blk_changes]) simp
  have k: "keeps u x" unfolding x_def using ind_parity_update_keeps changes_layout [OF cu] v(1) by blast
  have "s_blk x p = s_blk u p" using frameD(21) [OF keeps_frame [OF k], of p] changesD(2) [OF cu] v(2) by simp
  then have xp: "s_blk x p = Some ?bh" by (simp add: u_def)
  then have a: "beamfs_attach_dirty p x = x\<lparr>s_blk := (s_blk x)(p \<mapsto> mark_buffer_dirty ?bh)\<rparr>"
    using bh(3) by (simp add: beamfs_attach_dirty_def)
  show "changes {} {p} v (install_ptr K ino p s c v)"
    unfolding i a by (rule changes_trans [OF changes_trans [OF cu keeps_changes [OF k]] set_blk_changes]) simp
  show "readable (install_ptr K ino p s c v) p"
    unfolding i a using bh(2,3) s(1) by (simp add: readable_def mark_buffer_dirty_def)
  show "node_ptr (install_ptr K ino p s c v) p t = (if t = s then c else node_ptr v p t)" if "t < 512"
    unfolding i a using ind_ptr_put [OF bh(2) s(1) that s(2)] bh(1) by (simp add: node_ptr_def mark_buffer_dirty_def)
qed

lemma changes_free: "changes D B v v' \<Longrightarrow> free_blocks v' \<subseteq> free_blocks v"
  using changesD(11) [of D B v v'] by (auto simp: free_blocks_def)

lemma tree_fresh:
  assumes "\<forall>s < 512. node_ptr v b s = 0" "good_block v b" "readable v b" "b \<noteq> 0"
  shows "tree_ok (Suc d) v b" "tree_blocks (Suc d) v b = {b}" "i < 512 ^ Suc d \<Longrightarrow> tree_get (Suc d) v b i = 0"
  using assms slot_bounds(1) [of i d] by auto

lemma tree_keeps:
  assumes "tree_ok d v b" "keeps v v'"
  shows "tree_ok d v' b" "i < 512 ^ d \<Longrightarrow> tree_get d v' b i = tree_get d v b i" "tree_nodes d v' b = tree_nodes d v b"
    "tree_blocks d v' b = tree_blocks d v b"
  using tree_changes [OF assms(1) keeps_changes [OF assms(2), where B = "{}" and D = "{}"]] by auto

text \<open>What an operation on the tree under \<open>b\<close> may do: its own blocks of pointers and free blocks change, the
  times and the dirty mark of its inode, and the map becomes \<open>f\<close>.\<close>

definition touched :: "vinode \<Rightarrow> vinode \<Rightarrow> bool" where
  "touched i j \<longleftrightarrow> same_inode (i\<lparr>i_ctime := i_ctime j\<rparr>) j"

lemma touchedI [simp, intro]: "touched i i" "same_inode i j \<Longrightarrow> touched i j"
  by (cases i; cases j; simp add: touched_def same_inode_def)+

lemma touched_trans: "touched i j \<Longrightarrow> touched j k \<Longrightarrow> touched i k"
  by (cases i; cases j; cases k; simp add: touched_def same_inode_def)

lemma touchedD:
  assumes "touched i j"
  shows "i_direct j = i_direct i" "i_indirect j = i_indirect i" "i_dindirect j = i_dindirect i" "i_tindirect j = i_tindirect i"
    "i_size j = i_size i" "i_mode j = i_mode i" "i_nlink j = i_nlink i"
  using assms by (cases i; cases j; simp add: touched_def same_inode_def)+

definition tree_upd :: "ino \<Rightarrow> nat \<Rightarrow> 'a volume_scheme \<Rightarrow> nat \<Rightarrow> (nat \<Rightarrow> nat) \<Rightarrow> 'a volume_scheme \<Rightarrow> bool" where
  "tree_upd ino d v b f v' \<longleftrightarrow>
     changes {ino} (tree_nodes d v b \<union> free_blocks v) v v' \<and> touched (s_inode v ino) (s_inode v' ino) \<and> tree_ok d v' b
     \<and> tree_blocks d v' b \<subseteq> tree_blocks d v b \<union> free_blocks v
     \<and> tree_nodes d v' b \<subseteq> tree_nodes d v b \<union> free_blocks v
     \<and> (\<forall>i < 512 ^ d. tree_get d v' b i = f i)"

lemma tree_updD:
  assumes "tree_upd ino d v b f v'"
  shows "changes {ino} (tree_nodes d v b \<union> free_blocks v) v v'" "touched (s_inode v ino) (s_inode v' ino)" "tree_ok d v' b"
    "tree_blocks d v' b \<subseteq> tree_blocks d v b \<union> free_blocks v" "tree_nodes d v' b \<subseteq> tree_nodes d v b \<union> free_blocks v"
    "i < 512 ^ d \<Longrightarrow> tree_get d v' b i = f i"
  using assms by (simp_all add: tree_upd_def)

lemma tree_upd_trans:
  assumes "tree_upd ino d v b f v1" "tree_upd ino d v1 b g v2"
  shows "tree_upd ino d v b g v2"
proof -
  note a = tree_updD [OF assms(1)] and b = tree_updD [OF assms(2)]
  have f: "free_blocks v1 \<subseteq> free_blocks v" by (rule changes_free [OF a(1)])
  have "changes {ino} (tree_nodes d v b \<union> free_blocks v) v1 v2"
    by (rule changes_mono [OF b(1)]) (use a(5) f in auto)
  from changes_trans [OF a(1) this] show ?thesis
    using touched_trans [OF a(2) b(2)] b(3,6) a(4,5) b(4,5) f unfolding tree_upd_def by blast
qed

lemma changes_touched: "changes {} B v v' \<Longrightarrow> touched (s_inode v ino) (s_inode v' ino)"
  using changesD(5) [of "{}" B v v' ino] by simp

lemma tree_upd_same:
  assumes "tree_ok d v b" "changes {} {} v v'"
  shows "tree_upd ino d v b (tree_get d v b) v'"
  using tree_changes [OF assms] changes_mono [OF assms(2), of "{ino}" "tree_nodes d v b \<union> free_blocks v"]
    changes_touched [OF assms(2)] by (auto simp: tree_upd_def)

lemma tree_upd_install:
  assumes ok: "tree_ok (Suc d) v b" and b: "b \<noteq> 0" "s < 512" "node_ptr v b s = 0" and lay: "layout_ok v"
    and w: "changes {} (free_blocks v) v w" and c: "c \<in> free_blocks v" "c \<noteq> 0" "good_block w c"
    and sub: "tree_ok d w c" "tree_blocks d w c = {c}" "\<And>i. i < 512 ^ d \<Longrightarrow> tree_get d w c i = g i"
    and post: "changes {ino} {} (install_ptr K ino b s c w) v'" "touched (s_inode (install_ptr K ino b s c w) ino) (s_inode v' ino)"
  shows "tree_upd ino (Suc d) v b (\<lambda>i. if i div 512 ^ d = s then g (i mod 512 ^ d) else tree_get (Suc d) v b i) v'"
    "node_ptr v' b s = c" "s_blk v' c = s_blk w c"
proof -
  let ?x = "install_ptr K ino b s c w"
  have gb: "good_block v b" "readable v b" using ok b(1) by simp_all
  have bf: "b \<notin> free_blocks v" and bc: "b \<noteq> c" using gb(1) c(1) by (auto simp: good_block_def free_blocks_def)
  have sb: "s_blk w b = s_blk v b" by (rule changesD(10) [OF w good_allocated(2) [OF gb(1)] bf])
  have lw: "layout_ok w" using changes_layout [OF w] lay by simp
  have ds: "s_data_start w \<le> b" using good_allocated(2) [OF gb(1)] changesD(2) [OF w] by simp
  have rw: "readable w b" using gb(2) sb by (simp add: readable_def)
  have c64: "c < 2 ^ 64" by (rule good_bound [OF lw c(3)])
  note I = install_ptr_spec [OF lw ds rw b(2) c64, where K = K and ino = ino]
  have dx: "s_data_start ?x \<le> b" "s_data_start ?x \<le> c" "s_data_start w \<le> c"
    using changesD(2) [OF I(1)] ds good_allocated(2) [OF c(3)] by simp_all
  have vb: "s_blk v' b = s_blk ?x b" and vc: "s_blk v' c = s_blk ?x c"
    using changesD(10) [OF post(1)] dx by simp_all
  show vcw: "s_blk v' c = s_blk w c" using changesD(10) [OF I(1) dx(3)] bc vc by simp
  have ptr: "node_ptr v' b t = (if t = s then c else node_ptr v b t)" if "t < 512" for t
    using I(3) [OF that] node_ptr_cong [OF vb] node_ptr_cong [OF sb] by simp
  show "node_ptr v' b s = c" using ptr [OF b(2)] by simp
  have cw: "changes {ino} {b} w v'"
    using changes_mono [OF I(1), of "{ino}" "{b}"] changes_mono [OF post(1), of "{ino}" "{b}"] changes_trans by blast
  have cv: "changes {ino} (insert b (free_blocks v)) v v'"
    using changes_mono [OF w, of "{ino}" "insert b (free_blocks v)"] changes_mono [OF cw, of "{ino}" "insert b (free_blocks v)"]
      changes_trans by blast
  have nb: "tree_nodes d w c \<inter> {b} = {}" using tree_nodes_blocks [of d w c] sub(2) bc by auto
  note S = tree_changes [OF sub(1) cw nb]
  have "readable v' b" using I(2) vb by (simp add: readable_def)
  note R = tree_rebuild [OF ok b(1,2) ptr this cv _ S(1)]
  have fs: "tree_blocks d v' c \<subseteq> free_blocks v" "tree_nodes d v' c \<subseteq> free_blocks v"
    using S(4) sub(2) c(1) tree_nodes_blocks [of d v' c] by auto
  have R': "tree_ok (Suc d) v' b" "tree_blocks (Suc d) v' b \<subseteq> tree_blocks (Suc d) v b \<union> free_blocks v"
    "tree_nodes (Suc d) v' b \<subseteq> tree_nodes (Suc d) v b \<union> free_blocks v"
    "\<And>i. i < 512 ^ Suc d \<Longrightarrow> tree_get (Suc d) v' b i
      = (if i div 512 ^ d = s then tree_get d v' c (i mod 512 ^ d) else tree_get (Suc d) v b i)"
    by (rule R; use fs in auto)+
  have "tree_get d v' c (i mod 512 ^ d) = g (i mod 512 ^ d)" for i
    using S(2) [OF slot_bounds(2)] sub(3) [OF slot_bounds(2)] by simp
  moreover have "touched (s_inode v ino) (s_inode v' ino)"
    by (rule touched_trans [OF touched_trans [OF changes_touched [OF w] changes_touched [OF I(1)]] post(2)])
  moreover have "changes {ino} (tree_nodes (Suc d) v b \<union> free_blocks v) v v'"
    by (rule changes_mono [OF cv]) (use b(1) in auto)
  ultimately show "tree_upd ino (Suc d) v b (\<lambda>i. if i div 512 ^ d = s then g (i mod 512 ^ d) else tree_get (Suc d) v b i) v'"
    using R' unfolding tree_upd_def by simp
qed

lemma tree_get_zero_slot:
  "b \<noteq> 0 \<Longrightarrow> node_ptr v b s = 0 \<Longrightarrow> i div 512 ^ d = s \<Longrightarrow> tree_get (Suc d) v b i = 0"
  by simp

lemma tree_upd_cong: "tree_upd ino d v b f v' \<Longrightarrow> (\<And>i. i < 512 ^ d \<Longrightarrow> f i = g i) \<Longrightarrow> tree_upd ino d v b g v'"
  by (simp add: tree_upd_def)

lemma tree_upd_keeps: "tree_ok d v b \<Longrightarrow> keeps v v' \<Longrightarrow> tree_upd ino d v b (tree_get d v b) v'"
  by (rule tree_upd_same) (auto intro: keeps_changes)

lemma tree_upd_ctx:
  assumes "tree_upd ino d v b f v'" "alloc_inv v" "layout_ok v"
  shows "alloc_inv v'" "layout_ok v'"
  using changesD(3) [OF tree_updD(1) [OF assms(1)]] changes_layout [OF tree_updD(1) [OF assms(1)]] assms(2,3) by simp_all

lemma mark_dirty_post:
  "changes {ino} {} v (mark_inode_dirty ino v)" "touched (s_inode v ino) (s_inode (mark_inode_dirty ino v) ino)"
  "changes {ino} {} v (mark_inode_dirty ino (set_ctime_current ino v))"
  "touched (s_inode v ino) (s_inode (mark_inode_dirty ino (set_ctime_current ino v)) ino)"
proof -
  show "changes {ino} {} v (mark_inode_dirty ino v)" by (rule keeps_changes) simp
  have "changes {ino} {} v (set_ctime_current ino v)" unfolding set_ctime_current_def by (rule upd_inode_changes) simp
  then show "changes {ino} {} v (mark_inode_dirty ino (set_ctime_current ino v))"
    by (rule changes_trans) (rule keeps_changes, simp)
  show "touched (s_inode v ino) (s_inode (mark_inode_dirty ino v) ino)"
    by (simp add: mark_inode_dirty_def)
  show "touched (s_inode v ino) (s_inode (mark_inode_dirty ino (set_ctime_current ino v)) ino)"
    by (simp add: mark_inode_dirty_def set_ctime_current_def touched_def same_inode_def)
qed

lemma alloc_child_spec:
  assumes r: "alloc_child K v ino b s = (r, v')" and ok: "tree_ok (Suc (Suc d)) v b" and b: "b \<noteq> 0" "s < 512"
    and v: "alloc_inv v" "layout_ok v"
  shows "tree_upd ino (Suc (Suc d)) v b (tree_get (Suc (Suc d)) v b) v'" "r = Inr c \<Longrightarrow> node_ptr v' b s = c \<and> c \<noteq> 0"
proof -
  let ?D = "Suc (Suc d)"
  obtain rd w where w: "read_verified K v b = (rd, w)" by (cases "read_verified K v b")
  note k = read_verified_spec(1) [OF w]
  note T = tree_keeps [OF ok k]
  have kw: "tree_upd ino ?D v b (tree_get ?D v b) w" by (rule tree_upd_keeps [OF ok k])
  have "tree_upd ino ?D v b (tree_get ?D v b) v' \<and> (r = Inr c \<longrightarrow> node_ptr v' b s = c \<and> c \<noteq> 0)"
  proof (cases rd)
    case (Inl e)
    then show ?thesis using r w kw by (auto simp: alloc_child_def)
  next
    case (Inr data)
    have "s_blk w b = s_blk v b"
      using frameD(21) [OF keeps_frame [OF k]] good_allocated(2) [of v b] ok b(1) by simp
    then have np: "node_ptr w b s = ind_ptr data s"
      using read_verified_spec(2) [OF w Inr] by (auto simp: node_ptr_def)
    show ?thesis
    proof (cases "ind_ptr data s = 0")
      case False
      then show ?thesis using r w Inr kw np by (auto simp: alloc_child_def)
    next
      case True
      obtain nr u where n: "new_pointer_block K w ino = (nr, u)" by (cases "new_pointer_block K w ino")
      have wv: "alloc_inv w" "layout_ok w" using tree_upd_ctx [OF kw v] by simp_all
      note N = new_pointer_block_spec [OF n wv]
      show ?thesis
      proof (cases nr)
        case (Inl e)
        then have "v' = u" "r = Inl e" using r w Inr n True by (auto simp: alloc_child_def)
        moreover have "tree_upd ino ?D w b (tree_get ?D w b) u" by (rule tree_upd_same [OF T(1) N(2) [OF Inl]])
        ultimately show ?thesis using tree_upd_cong [OF tree_upd_trans [OF kw]] T(2) by auto
      next
        case (Inr x)
        note N3 = N(3) [OF Inr]
        let ?u = "mark_inode_dirty ino u"
        have e: "v' = mark_inode_dirty ino (install_ptr K ino b s x ?u)" "r = Inr x"
          using r w \<open>rd = Inr data\<close> n True Inr by (auto simp: alloc_child_def)
        have ku: "keeps u ?u" by simp
        have cu: "changes {} (free_blocks w) w ?u" by (rule changes_trans [OF N(1) keeps_changes [OF ku]])
        have g: "good_block ?u x" using N3 by (auto simp: good_block_def in_data_region_def mark_inode_dirty_def upd_inode_def)
        have z: "\<forall>s < 512. node_ptr ?u x s = 0" "readable ?u x" "x \<noteq> 0" using N3 by (simp_all add: readable_def node_ptr_def)
        note F = tree_fresh [OF z(1) g z(2,3)]
        note I = tree_upd_install [OF T(1) b _ wv(2) cu _ _ g F mark_dirty_post(1,2)]
        have "tree_upd ino ?D w b (\<lambda>i. if i div 512 ^ Suc d = s then 0 else tree_get ?D w b i) v'" "node_ptr v' b s = x"
          unfolding e by (rule I; use N3 np True in auto)+
        moreover have "(if i div 512 ^ Suc d = s then 0 else tree_get ?D w b i) = tree_get ?D v b i" if "i < 512 ^ ?D" for i
          using T(2) [OF that] tree_get_zero_slot [OF b(1), of w s i "Suc d"] np True by auto
        ultimately show ?thesis using tree_upd_trans [OF kw] tree_upd_cong N3 e(2) by blast
      qed
    qed
  qed
  then show "tree_upd ino (Suc (Suc d)) v b (tree_get (Suc (Suc d)) v b) v'" "r = Inr c \<Longrightarrow> node_ptr v' b s = c \<and> c \<noteq> 0"
    by auto
qed

text \<open>What the allocating lookup does to the tree it works in: index \<open>i\<close> gets the block it returns.\<close>

definition alloc_result ::
    "kenv \<Rightarrow> ino \<Rightarrow> nat \<Rightarrow> nat \<Rightarrow> 'a volume_scheme \<Rightarrow> nat \<Rightarrow> nat \<Rightarrow> errno + nat \<times> bool \<Rightarrow> 'a volume_scheme \<Rightarrow> bool" where
  "alloc_result K ino iblock d v b i r v' \<longleftrightarrow>
     tree_upd ino d v b (\<lambda>j. if j = i then (case r of Inr (p, new) \<Rightarrow> p | Inl e \<Rightarrow> tree_get d v b i) else tree_get d v b j) v'
     \<and> (\<forall>p new. r = Inr (p, new) \<longrightarrow> p \<noteq> 0 \<and> (new \<longleftrightarrow> tree_get d v b i = 0)
          \<and> (new \<longrightarrow> p \<in> free_blocks v \<and> s_blk v' p = Some (fresh_data K v ino iblock)))"

lemma alloc_result_same:
  assumes "tree_upd ino d v b (tree_get d v b) v'"
  shows "alloc_result K ino iblock d v b i (Inl e) v'"
    and "tree_get d v b i = p \<Longrightarrow> p \<noteq> 0 \<Longrightarrow> alloc_result K ino iblock d v b i (Inr (p, False)) v'"
  using assms by (auto simp: alloc_result_def intro: tree_upd_cong)

lemma fresh_data_changes:
  assumes "changes D B v w"
  shows "fresh_data K w ino iblock = fresh_data K v ino iblock"
proof -
  have "zero_data_block K w ino iblock = zero_data_block K v ino iblock"
    by (rule zero_data_block_cong) (use assms in \<open>simp_all add: changes_def alters_def\<close>)
  then show ?thesis by (simp add: fresh_data_def)
qed

lemma alloc_leaf_spec:
  assumes r: "alloc_leaf K v ino iblock b s = (r, v')" and ok: "tree_ok (Suc 0) v b" and b: "b \<noteq> 0" "s < 512"
    and v: "alloc_inv v" "layout_ok v"
  shows "alloc_result K ino iblock (Suc 0) v b s r v'"
proof -
  obtain rd w where w: "read_verified K v b = (rd, w)" by (cases "read_verified K v b")
  note k = read_verified_spec(1) [OF w]
  note T = tree_keeps [OF ok k]
  have kw: "tree_upd ino (Suc 0) v b (tree_get (Suc 0) v b) w" by (rule tree_upd_keeps [OF ok k])
  show ?thesis
  proof (cases rd)
    case (Inl e)
    then have "v' = w" "r = Inl e" using r w by (auto simp: alloc_leaf_def)
    then show ?thesis using alloc_result_same(1) [OF kw] by simp
  next
    case (Inr data)
    have sb: "s_blk w b = s_blk v b"
      using frameD(21) [OF keeps_frame [OF k]] good_allocated(2) [of v b] ok b(1) by simp
    then have np: "node_ptr w b s = ind_ptr data s" "node_ptr v b s = ind_ptr data s"
      using read_verified_spec(2) [OF w Inr] by (auto simp: node_ptr_def)
    then have tg: "tree_get (Suc 0) v b s = ind_ptr data s" "tree_get (Suc 0) w b s = ind_ptr data s" using b(1) by simp_all
    show ?thesis
    proof (cases "ind_ptr data s = 0")
      case False
      then have "v' = w" "r = Inr (ind_ptr data s, False)" using r w Inr by (auto simp: alloc_leaf_def)
      then show ?thesis using alloc_result_same(2) [OF kw tg(1) False] by simp
    next
      case True
      obtain nr u where n: "new_data_block K w ino iblock = (nr, u)" by (cases "new_data_block K w ino iblock")
      have wv: "alloc_inv w" "layout_ok w" using tree_upd_ctx [OF kw v] by simp_all
      note N = new_data_block_spec [OF n wv(1)]
      show ?thesis
      proof (cases nr)
        case (Inl e)
        then have e: "v' = u" "r = Inl e" using r w Inr n True by (auto simp: alloc_leaf_def)
        have "tree_upd ino (Suc 0) w b (tree_get (Suc 0) w b) u" by (rule tree_upd_same [OF T(1) N(2) [OF Inl]])
        from tree_upd_cong [OF tree_upd_trans [OF kw this] T(2)]
        show ?thesis unfolding e by (rule alloc_result_same(1))
      next
        case (Inr x)
        note N3 = N(3) [OF Inr]
        have e: "v' = mark_inode_dirty ino (set_ctime_current ino (install_ptr K ino b s x u))" "r = Inr (x, True)"
          using r w \<open>rd = Inr data\<close> n True Inr by (auto simp: alloc_leaf_def)
        have F: "tree_ok 0 u x" "tree_blocks 0 u x = {x}" "\<And>i. i < 512 ^ 0 \<Longrightarrow> tree_get 0 u x i = x" using N3 by simp_all
        note I = tree_upd_install [OF T(1) b _ wv(2) N(1) _ _ _ F mark_dirty_post(3,4)]
        have *: "tree_upd ino (Suc 0) w b (\<lambda>i. if i div 512 ^ 0 = s then x else tree_get (Suc 0) w b i) v'" "s_blk v' x = s_blk u x"
          unfolding e by (rule I; use N3 np True in auto)+
        have "tree_upd ino (Suc 0) v b (\<lambda>j. if j = s then x else tree_get (Suc 0) v b j) v'"
          by (rule tree_upd_cong [OF tree_upd_trans [OF kw *(1)]]) (use T(2) in auto)
        moreover have "x \<in> free_blocks v" using N3 changes_free [OF keeps_changes [OF k]] by blast
        ultimately show ?thesis using N3 *(2) tg True fresh_data_changes [OF keeps_changes [OF k]]
          unfolding e(2) alloc_result_def sum.case prod.case by simp
      qed
    qed
  qed
qed

text \<open>The levels below a root: the children down to the block of pointers that holds the slot.\<close>

primrec alloc_walk ::
    "nat \<Rightarrow> kenv \<Rightarrow> 'a volume_scheme \<Rightarrow> ino \<Rightarrow> nat \<Rightarrow> nat \<Rightarrow> nat \<Rightarrow> (errno + nat \<times> bool) \<times> 'a volume_scheme" where
  "alloc_walk 0 K v ino iblock b i = alloc_leaf K v ino iblock b i"
| "alloc_walk (Suc d) K v ino iblock b i =
     (case alloc_child K v ino b (i div 512 ^ Suc d) of
        (Inl e, v) \<Rightarrow> (Inl e, v)
      | (Inr c, v) \<Rightarrow> alloc_walk d K v ino iblock c (i mod 512 ^ Suc d))"

lemma alloc_result_trans:
  assumes "tree_upd ino d v b (tree_get d v b) v1" "alloc_result K ino iblock d v1 b i r v2" "i < 512 ^ d"
  shows "alloc_result K ino iblock d v b i r v2"
proof -
  note a = tree_updD [OF assms(1)]
  have "tree_upd ino d v1 b (\<lambda>j. if j = i then (case r of Inr (p, new) \<Rightarrow> p | Inl e \<Rightarrow> tree_get d v1 b i) else tree_get d v1 b j) v2"
    using assms(2) by (simp add: alloc_result_def)
  from tree_upd_trans [OF assms(1) this]
  have "tree_upd ino d v b (\<lambda>j. if j = i then (case r of Inr (p, new) \<Rightarrow> p | Inl e \<Rightarrow> tree_get d v b i) else tree_get d v b j) v2"
    by (rule tree_upd_cong) (use a(6) assms(3) in \<open>auto split: sum.split\<close>)
  then show ?thesis
    using assms(2) a(6) [OF assms(3)] changes_free [OF a(1)] fresh_data_changes [OF a(1), of K ino iblock]
    unfolding alloc_result_def by auto
qed

text \<open>A result for a subtree is one for the tree above it.\<close>

lemma alloc_result_lift:
  assumes ok: "tree_ok (Suc d) v b" and b: "b \<noteq> 0" "i < 512 ^ Suc d"
    and r: "alloc_result K ino iblock d v (node_ptr v b (i div 512 ^ d)) (i mod 512 ^ d) r v'"
  shows "alloc_result K ino iblock (Suc d) v b i r v'"
proof -
  let ?s = "i div 512 ^ d" and ?m = "i mod 512 ^ d" and ?c = "node_ptr v b (i div 512 ^ d)"
  let ?f = "\<lambda>j. if j = ?m then (case r of Inr (p, new) \<Rightarrow> p | Inl e \<Rightarrow> tree_get d v ?c ?m) else tree_get d v ?c j"
  note s = slot_bounds(1) [OF b(2)]
  have u: "tree_upd ino d v ?c ?f v'" using r by (simp add: alloc_result_def)
  note U = tree_updD [OF u]
  have gb: "good_block v b" "readable v b" "b \<notin> tree_blocks d v ?c" using ok b(1) s by simp_all
  then have nb: "b \<notin> tree_nodes d v ?c \<union> free_blocks v"
    using tree_nodes_blocks [of d v ?c] good_allocated(1) [OF gb(1)] by (auto simp: free_blocks_def)
  have sb: "s_blk v' b = s_blk v b" by (rule changesD(10) [OF U(1) good_allocated(2) [OF gb(1)] nb])
  have ptr: "node_ptr v' b t = (if t = ?s then ?c else node_ptr v b t)" for t
    using node_ptr_cong [OF sb] by simp
  have rd: "readable v' b" using gb(2) sb by (simp add: readable_def)
  have cv: "changes {ino} (insert b (tree_nodes d v ?c \<union> free_blocks v)) v v'"
    by (rule changes_mono [OF U(1)]) auto
  note R = tree_rebuild [OF ok b(1) s ptr rd cv subset_refl U(3,4,5)]
  have "tree_get (Suc d) v' b j = (if j = i then (case r of Inr (p, new) \<Rightarrow> p | Inl e \<Rightarrow> tree_get (Suc d) v b i) else tree_get (Suc d) v b j)"
    if j: "j < 512 ^ Suc d" for j
  proof (cases "j div 512 ^ d = ?s")
    case True
    then have ji: "j mod 512 ^ d = ?m \<longleftrightarrow> j = i" by (metis div_mult_mod_eq)
    have "tree_get (Suc d) v b k = tree_get d v ?c (k mod 512 ^ d)" if "k div 512 ^ d = ?s" for k
      using b(1) that by simp
    then show ?thesis using R(4) [OF j] True ji U(6) [OF slot_bounds(2) [of j d]] by (simp del: tree_get.simps split: sum.split)
  next
    case False
    then show ?thesis using R(4) [OF j] by (auto simp del: tree_get.simps)
  qed
  moreover have "changes {ino} (tree_nodes (Suc d) v b \<union> free_blocks v) v v'"
    by (rule changes_mono [OF U(1)]) (use b(1) s in auto)
  ultimately have "tree_upd ino (Suc d) v b
      (\<lambda>j. if j = i then (case r of Inr (p, new) \<Rightarrow> p | Inl e \<Rightarrow> tree_get (Suc d) v b i) else tree_get (Suc d) v b j) v'"
    using U(2) R(1-3) unfolding tree_upd_def by blast
  moreover have "tree_get (Suc d) v b i = tree_get d v ?c ?m" using b(1) by simp
  ultimately show ?thesis using r unfolding alloc_result_def by (simp del: tree_get.simps)
qed

lemma alloc_walk_spec:
  assumes "alloc_walk d K v ino iblock b i = (r, v')" "tree_ok (Suc d) v b" "b \<noteq> 0" "i < 512 ^ Suc d" "alloc_inv v" "layout_ok v"
  shows "alloc_result K ino iblock (Suc d) v b i r v'"
  using assms
proof (induction d arbitrary: v b i)
  case 0
  then show ?case using alloc_leaf_spec [of K v ino iblock b i r v'] by simp
next
  case (Suc d)
  let ?s = "i div 512 ^ Suc d"
  have s: "?s < 512" by (rule slot_bounds(1) [OF Suc.prems(4)])
  obtain cr w where c: "alloc_child K v ino b ?s = (cr, w)" by (cases "alloc_child K v ino b ?s")
  note C = alloc_child_spec [OF c Suc.prems(2,3) s Suc.prems(5,6)]
  show ?case
  proof (cases cr)
    case (Inl e)
    then have "r = Inl e" "v' = w" using Suc.prems(1) c by auto
    then show ?thesis using alloc_result_same(1) [OF C(1)] by simp
  next
    case (Inr x)
    then have a: "alloc_walk d K w ino iblock x (i mod 512 ^ Suc d) = (r, v')" using Suc.prems(1) c by simp
    have x: "node_ptr w b ?s = x" "x \<noteq> 0" using C(2) [OF Inr] by simp_all
    note ok = tree_updD(3) [OF C(1)]
    have ctx: "alloc_inv w" "layout_ok w" using tree_upd_ctx [OF C(1) Suc.prems(5,6)] by simp_all
    have "tree_ok (Suc d) w (node_ptr w b ?s)" using ok Suc.prems(3) s by (simp only: tree_ok.simps(2) [of "Suc d"]) blast
    then have "alloc_result K ino iblock (Suc d) w x (i mod 512 ^ Suc d) r v'"
      using Suc.IH [OF a] x ctx slot_bounds(2) [of i "Suc d"] by simp
    then have "alloc_result K ino iblock (Suc (Suc d)) w b i r v'"
      using alloc_result_lift [OF ok Suc.prems(3,4)] x(1) by simp
    then show ?thesis by (rule alloc_result_trans [OF C(1) _ Suc.prems(4)])
  qed
qed

subsection \<open>Files\<close>

text \<open>The fifteen trees of an inode: twelve of depth 0, then one each of depth 1, 2 and 3.\<close>

definition file_root :: "vinode \<Rightarrow> nat \<Rightarrow> nat" where
  "file_root i k = (if k < 12 then unat (i_direct i ! k) else if k = 12 then unat (i_indirect i)
     else if k = 13 then unat (i_dindirect i) else unat (i_tindirect i))"

definition file_depth :: "nat \<Rightarrow> nat" where
  "file_depth k = k - 11"

definition file_pos :: "nat \<Rightarrow> nat \<times> nat" where
  "file_pos iblock = (if iblock < 12 then (iblock, 0) else if iblock < 524 then (12, iblock - 12)
     else if iblock < 262668 then (13, iblock - 524) else (14, iblock - 262668))"

definition ftree :: "'a volume_scheme \<Rightarrow> ino \<Rightarrow> nat \<Rightarrow> nat \<Rightarrow> nat" where
  "ftree v ino k i = tree_get (file_depth k) v (file_root (s_inode v ino) k) i"

definition fblocks :: "'a volume_scheme \<Rightarrow> ino \<Rightarrow> nat \<Rightarrow> nat set" where
  "fblocks v ino k = tree_blocks (file_depth k) v (file_root (s_inode v ino) k)"

definition fnodes :: "'a volume_scheme \<Rightarrow> ino \<Rightarrow> nat \<Rightarrow> nat set" where
  "fnodes v ino k = tree_nodes (file_depth k) v (file_root (s_inode v ino) k)"

definition file_map :: "'a volume_scheme \<Rightarrow> ino \<Rightarrow> nat \<Rightarrow> nat" where
  "file_map v ino iblock = ftree v ino (fst (file_pos iblock)) (snd (file_pos iblock))"

definition file_blocks :: "'a volume_scheme \<Rightarrow> ino \<Rightarrow> nat set" where
  "file_blocks v ino = (\<Union>k < 15. fblocks v ino k)"

definition file_ok :: "'a volume_scheme \<Rightarrow> ino \<Rightarrow> bool" where
  "file_ok v ino \<longleftrightarrow> length (i_direct (s_inode v ino)) = 12
     \<and> (\<forall>k < 15. tree_ok (file_depth k) v (file_root (s_inode v ino) k))
     \<and> (\<forall>k < 15. \<forall>l < 15. k \<noteq> l \<longrightarrow> fblocks v ino k \<inter> fblocks v ino l = {})"

abbreviation "MAX_IBLOCK \<equiv> 134480396 :: nat"

lemma file_pos_bounds: "iblock < MAX_IBLOCK \<Longrightarrow> fst (file_pos iblock) < 15 \<and> snd (file_pos iblock) < 512 ^ file_depth (fst (file_pos iblock))"
  by (auto simp: file_pos_def file_depth_def)

lemma file_pos_inj: "file_pos i = file_pos j \<longleftrightarrow> i = j"
  by (auto simp: file_pos_def split: if_splits)

text \<open>An operation on tree \<open>k\<close> of a file.\<close>

definition file_upd :: "ino \<Rightarrow> nat \<Rightarrow> 'a volume_scheme \<Rightarrow> (nat \<Rightarrow> nat) \<Rightarrow> 'a volume_scheme \<Rightarrow> bool" where
  "file_upd ino k v f v' \<longleftrightarrow>
     changes {ino} (fnodes v ino k \<union> free_blocks v) v v'
     \<and> file_ok v' ino
     \<and> (\<forall>l < 15. l \<noteq> k \<longrightarrow> fblocks v' ino l = fblocks v ino l \<and> fnodes v' ino l = fnodes v ino l
          \<and> (\<forall>i < 512 ^ file_depth l. ftree v' ino l i = ftree v ino l i))
     \<and> fblocks v' ino k \<subseteq> fblocks v ino k \<union> free_blocks v \<and> fnodes v' ino k \<subseteq> fnodes v ino k \<union> free_blocks v
     \<and> (\<forall>i < 512 ^ file_depth k. ftree v' ino k i = f i)
     \<and> i_size (s_inode v' ino) = i_size (s_inode v ino) \<and> i_mode (s_inode v' ino) = i_mode (s_inode v ino)
     \<and> i_nlink (s_inode v' ino) = i_nlink (s_inode v ino)"

lemma file_updD:
  assumes "file_upd ino k v f v'"
  shows "changes {ino} (fnodes v ino k \<union> free_blocks v) v v'" "file_ok v' ino"
    "l < 15 \<Longrightarrow> l \<noteq> k \<Longrightarrow> fblocks v' ino l = fblocks v ino l \<and> fnodes v' ino l = fnodes v ino l"
    "l < 15 \<Longrightarrow> l \<noteq> k \<Longrightarrow> i < 512 ^ file_depth l \<Longrightarrow> ftree v' ino l i = ftree v ino l i"
    "fblocks v' ino k \<subseteq> fblocks v ino k \<union> free_blocks v" "fnodes v' ino k \<subseteq> fnodes v ino k \<union> free_blocks v"
    "i < 512 ^ file_depth k \<Longrightarrow> ftree v' ino k i = f i"
    "i_size (s_inode v' ino) = i_size (s_inode v ino)" "i_mode (s_inode v' ino) = i_mode (s_inode v ino)"
    "i_nlink (s_inode v' ino) = i_nlink (s_inode v ino)"
  using assms by (simp_all add: file_upd_def)

lemma file_okD:
  assumes "file_ok v ino"
  shows "length (i_direct (s_inode v ino)) = 12" "k < 15 \<Longrightarrow> tree_ok (file_depth k) v (file_root (s_inode v ino) k)"
    "k < 15 \<Longrightarrow> l < 15 \<Longrightarrow> k \<noteq> l \<Longrightarrow> fblocks v ino k \<inter> fblocks v ino l = {}"
    "k < 15 \<Longrightarrow> x \<in> fblocks v ino k \<Longrightarrow> x \<notin> free_blocks v"
proof -
  show "length (i_direct (s_inode v ino)) = 12" "k < 15 \<Longrightarrow> tree_ok (file_depth k) v (file_root (s_inode v ino) k)"
    "k < 15 \<Longrightarrow> l < 15 \<Longrightarrow> k \<noteq> l \<Longrightarrow> fblocks v ino k \<inter> fblocks v ino l = {}"
    using assms by (simp_all add: file_ok_def)
  then show "k < 15 \<Longrightarrow> x \<in> fblocks v ino k \<Longrightarrow> x \<notin> free_blocks v"
    using tree_blocks_good [of "file_depth k" v "file_root (s_inode v ino) k" x] good_allocated(1) [of v x]
    by (auto simp: fblocks_def free_blocks_def)
qed

lemma fnodes_fblocks: "fnodes v ino k \<subseteq> fblocks v ino k"
  by (simp add: fnodes_def fblocks_def tree_nodes_blocks)

text \<open>Another tree of the file is not touched by a change of tree \<open>k\<close> and of free blocks.\<close>

lemma file_other:
  assumes ok: "file_ok v ino" and kl: "k < 15" "l < 15" "l \<noteq> k" and r: "file_root (s_inode v' ino) l = file_root (s_inode v ino) l"
    and ch: "changes D B v v'" "B \<subseteq> fnodes v ino k \<union> free_blocks v"
  shows "tree_ok (file_depth l) v' (file_root (s_inode v' ino) l)" "fblocks v' ino l = fblocks v ino l" "fnodes v' ino l = fnodes v ino l"
    "i < 512 ^ file_depth l \<Longrightarrow> ftree v' ino l i = ftree v ino l i"
proof -
  have "fnodes v ino l \<inter> fnodes v ino k = {}"
    using file_okD(3) [OF ok kl(2,1,3)] fnodes_fblocks [of v ino l] fnodes_fblocks [of v ino k] by blast
  moreover have "fnodes v ino l \<inter> free_blocks v = {}" using file_okD(4) [OF ok kl(2)] fnodes_fblocks [of v ino l] by blast
  ultimately have "fnodes v ino l \<inter> B = {}" using ch(2) by blast
  note T = tree_changes [OF file_okD(2) [OF ok kl(2)] ch(1) this [unfolded fnodes_def]]
  show "tree_ok (file_depth l) v' (file_root (s_inode v' ino) l)" "fblocks v' ino l = fblocks v ino l" "fnodes v' ino l = fnodes v ino l"
    "i < 512 ^ file_depth l \<Longrightarrow> ftree v' ino l i = ftree v ino l i"
    using T by (simp_all add: r fblocks_def fnodes_def ftree_def)
qed

lemma file_rebuild:
  assumes ok: "file_ok v ino" and k: "k < 15"
    and r: "\<And>l. l < 15 \<Longrightarrow> l \<noteq> k \<Longrightarrow> file_root (s_inode v' ino) l = file_root (s_inode v ino) l"
      "length (i_direct (s_inode v' ino)) = 12"
    and ch: "changes {ino} B v v'" "B \<subseteq> fnodes v ino k \<union> free_blocks v"
    and t: "tree_ok (file_depth k) v' (file_root (s_inode v' ino) k)" "fblocks v' ino k \<subseteq> fblocks v ino k \<union> free_blocks v"
      "fnodes v' ino k \<subseteq> fnodes v ino k \<union> free_blocks v" "\<And>i. i < 512 ^ file_depth k \<Longrightarrow> ftree v' ino k i = f i"
    and a: "i_size (s_inode v' ino) = i_size (s_inode v ino)" "i_mode (s_inode v' ino) = i_mode (s_inode v ino)"
      "i_nlink (s_inode v' ino) = i_nlink (s_inode v ino)"
  shows "file_upd ino k v f v'"
proof -
  note O = file_other [OF ok k _ _ r(1) ch]
  have ok': "tree_ok (file_depth l) v' (file_root (s_inode v' ino) l)" if "l < 15" for l
    using O(1) [OF that] t(1) that by (cases "l = k") auto
  have kd: "fblocks v' ino k \<inter> fblocks v' ino l = {}" if "l < 15" "l \<noteq> k" for l
    using O(2) [OF that(1) that(2) that] file_okD(3) [OF ok k that(1)] file_okD(4) [OF ok that(1)] that t(2) by fastforce
  have "fblocks v' ino m \<inter> fblocks v' ino l = {}" if ml: "m < 15" "l < 15" "m \<noteq> l" for m l
  proof (cases "m = k \<or> l = k")
    case True
    then show ?thesis using kd [of l] kd [of m] ml by auto
  next
    case False
    then show ?thesis using O(2) ml file_okD(3) [OF ok ml] by auto
  qed
  then have "file_ok v' ino" using ok' r(2) by (simp add: file_ok_def)
  moreover have "changes {ino} (fnodes v ino k \<union> free_blocks v) v v'" by (rule changes_mono [OF ch(1)]) (use ch(2) in auto)
  moreover have "\<forall>l < 15. l \<noteq> k \<longrightarrow> fblocks v' ino l = fblocks v ino l \<and> fnodes v' ino l = fnodes v ino l
      \<and> (\<forall>i < 512 ^ file_depth l. ftree v' ino l i = ftree v ino l i)" using O(2,3,4) by blast
  ultimately show ?thesis using t(2-4) a unfolding file_upd_def by blast
qed

lemma file_upd_cong: "file_upd ino k v f v' \<Longrightarrow> (\<And>i. i < 512 ^ file_depth k \<Longrightarrow> f i = g i) \<Longrightarrow> file_upd ino k v g v'"
  by (simp add: file_upd_def)

lemma file_upd_trans:
  assumes "file_upd ino k v f v1" "file_upd ino k v1 g v2"
  shows "file_upd ino k v g v2"
proof -
  note a = file_updD [OF assms(1)] and b = file_updD [OF assms(2)]
  have f: "free_blocks v1 \<subseteq> free_blocks v" by (rule changes_free [OF a(1)])
  have "changes {ino} (fnodes v ino k \<union> free_blocks v) v1 v2" by (rule changes_mono [OF b(1)]) (use a(6) f in auto)
  from changes_trans [OF a(1) this] have "changes {ino} (fnodes v ino k \<union> free_blocks v) v v2" .
  moreover have "fblocks v2 ino l = fblocks v ino l \<and> fnodes v2 ino l = fnodes v ino l
      \<and> (\<forall>i < 512 ^ file_depth l. ftree v2 ino l i = ftree v ino l i)" if "l < 15" "l \<noteq> k" for l
    using a(3,4) [OF that] b(3,4) [OF that] by simp
  moreover have "fblocks v2 ino k \<subseteq> fblocks v ino k \<union> free_blocks v" "fnodes v2 ino k \<subseteq> fnodes v ino k \<union> free_blocks v"
    using a(5,6) b(5,6) f by blast+
  ultimately show ?thesis using a(8-10) b(2,7-10) by (simp add: file_upd_def)
qed

lemma file_upd_ctx:
  assumes "file_upd ino k v f v'" "alloc_inv v" "layout_ok v"
  shows "alloc_inv v'" "layout_ok v'"
  using changesD(3) [OF file_updD(1) [OF assms(1)]] changes_layout [OF file_updD(1) [OF assms(1)]] assms(2,3) by simp_all

lemma same_root: "touched i j \<Longrightarrow> file_root j k = file_root i k"
  by (simp add: file_root_def touchedD)

text \<open>An operation on a tree of the inode that leaves the inode alone.\<close>

lemma file_upd_tree:
  assumes ok: "file_ok v ino" and k: "k < 15" and u: "tree_upd ino (file_depth k) v (file_root (s_inode v ino) k) f v'"
  shows "file_upd ino k v f v'"
proof -
  note U = tree_updD [OF u]
  have r: "file_root (s_inode v' ino) l = file_root (s_inode v ino) l" for l by (rule same_root [OF U(2)])
  show ?thesis
    by (rule file_rebuild [OF ok k r _ U(1)])
      (use U touchedD [OF U(2)] file_okD(1) [OF ok] in \<open>simp_all add: r fnodes_def fblocks_def ftree_def\<close>)
qed

lemma file_upd_same:
  assumes "file_ok v ino" "k < 15" "changes {} {} v v'"
  shows "file_upd ino k v (ftree v ino k) v'"
  using file_upd_tree [OF assms(1,2) tree_upd_same [OF file_okD(2) [OF assms(1,2)] assms(3)]]
  by (rule file_upd_cong) (simp add: ftree_def)

text \<open>A new block becomes the root of an empty tree.\<close>

lemma file_upd_root:
  assumes ok: "file_ok v ino" and k: "k < 15" and z: "file_root (s_inode v ino) k = 0" and lay: "layout_ok v"
    and w: "changes {} (free_blocks v) v w" and b: "b \<in> free_blocks v" "b \<noteq> 0" "good_block w b"
    and t: "tree_ok (file_depth k) w b" "tree_blocks (file_depth k) w b = {b}" "\<And>i. i < 512 ^ file_depth k \<Longrightarrow> tree_get (file_depth k) w b i = g i"
    and v': "v' = mark_inode_dirty ino (upd_inode ino h w)"
    and h: "\<And>i l. length (i_direct i) = 12 \<Longrightarrow> l < 15 \<Longrightarrow> file_root (h i) l = (if l = k then b else file_root i l)"
      "\<And>i. length (i_direct (h i)) = length (i_direct i) \<and> i_size (h i) = i_size i \<and> i_mode (h i) = i_mode i \<and> i_nlink (h i) = i_nlink i"
  shows "file_upd ino k v g v'" "file_root (s_inode v' ino) k = b" "s_blk v' = s_blk w"
proof -
  have sw: "same_inode (s_inode v ino) (s_inode w ino)" using changesD(5) [OF w] by simp
  have len: "length (i_direct (s_inode w ino)) = 12" using same_inodeD(6) [OF sw] file_okD(1) [OF ok] by simp
  have iv: "s_inode v' ino = (h (s_inode w ino))\<lparr>i_dirty := True\<rparr>" by (simp add: v' mark_inode_dirty_def)
  have fd: "file_root (i\<lparr>i_dirty := d\<rparr>) l = file_root i l" for i d l by (simp add: file_root_def)
  have r: "file_root (s_inode v' ino) l = (if l = k then b else file_root (s_inode v ino) l)" if "l < 15" for l
    using h(1) [OF len that] same_root [OF touchedI(2) [OF sw]] by (simp add: iv fd)
  show rk: "file_root (s_inode v' ino) k = b" using r [OF k] by simp
  show bl: "s_blk v' = s_blk w" by (simp add: v' mark_inode_dirty_def)
  have "changes {ino} {} w (upd_inode ino h w)" by (rule upd_inode_changes) simp
  moreover have "changes {ino} {} (upd_inode ino h w) v'" unfolding v' by (rule keeps_changes) simp
  ultimately have cw: "changes {ino} {} w v'" by (rule changes_trans)
  have cv: "changes {ino} (free_blocks v) v v'"
    using changes_mono [OF w, of "{ino}"] changes_mono [OF cw, of "{ino}" "free_blocks v"] changes_trans by blast
  have T: "tree_ok (file_depth k) v' b" "\<And>i. i < 512 ^ file_depth k \<Longrightarrow> tree_get (file_depth k) v' b i = tree_get (file_depth k) w b i"
    "tree_nodes (file_depth k) v' b = tree_nodes (file_depth k) w b" "tree_blocks (file_depth k) v' b = tree_blocks (file_depth k) w b"
    using tree_changes [OF t(1) cw] by simp_all
  show "file_upd ino k v g v'"
  proof (rule file_rebuild [OF ok k _ _ cv])
    show "fblocks v' ino k \<subseteq> fblocks v ino k \<union> free_blocks v" "fnodes v' ino k \<subseteq> fnodes v ino k \<union> free_blocks v"
      using T(4) t(2) b(1) tree_nodes_blocks [of "file_depth k" v' b] by (auto simp: fblocks_def fnodes_def rk)
    show "ftree v' ino k i = g i" if "i < 512 ^ file_depth k" for i using T(2) t(3) that by (simp add: ftree_def rk)
  qed (use r rk T(1) h(2) same_inodeD(1,4,5,6) [OF sw] file_okD(1) [OF ok] in \<open>simp_all add: iv\<close>)
qed

lemma unat_of_block: "b < 2 ^ 64 \<Longrightarrow> unat (word_of_nat b :: u64) = b"
  by (simp add: unat_of_nat)

text \<open>The accessors of the root of tree \<open>k\<close>.\<close>

definition root_access :: "nat \<Rightarrow> (vinode \<Rightarrow> u64) \<Rightarrow> (u64 \<Rightarrow> vinode \<Rightarrow> vinode) \<Rightarrow> bool" where
  "root_access k get put \<longleftrightarrow> 12 \<le> k \<and> k < 15 \<and> (\<forall>i. unat (get i) = file_root i k)
     \<and> (\<forall>i b l. l < 15 \<longrightarrow> file_root (put b i) l = (if l = k then unat b else file_root i l))
     \<and> (\<forall>i b. i_direct (put b i) = i_direct i \<and> i_size (put b i) = i_size i \<and> i_mode (put b i) = i_mode i \<and> i_nlink (put b i) = i_nlink i)"

lemma root_accesses:
  "root_access 12 i_indirect (\<lambda>b i. i\<lparr>i_indirect := b\<rparr>)" "root_access 13 i_dindirect (\<lambda>b i. i\<lparr>i_dindirect := b\<rparr>)"
  "root_access 14 i_tindirect (\<lambda>b i. i\<lparr>i_tindirect := b\<rparr>)"
  by (auto simp: root_access_def file_root_def)

lemma alloc_root_spec:
  assumes r: "alloc_root K v ino get put = (r, v')" and a: "root_access k get put" and ok: "file_ok v ino"
    and v: "alloc_inv v" "layout_ok v"
  shows "file_upd ino k v (ftree v ino k) v'" "r = Inr b \<Longrightarrow> b \<noteq> 0 \<and> file_root (s_inode v' ino) k = b"
proof -
  have k: "k < 15" "12 \<le> k" and g: "\<And>i. unat (get i) = file_root i k"
    and p: "\<And>i b l. l < 15 \<Longrightarrow> file_root (put b i) l = (if l = k then unat b else file_root i l)"
      "\<And>i b. i_direct (put b i) = i_direct i \<and> i_size (put b i) = i_size i \<and> i_mode (put b i) = i_mode i \<and> i_nlink (put b i) = i_nlink i"
    using a by (simp_all add: root_access_def)
  have "file_upd ino k v (ftree v ino k) v' \<and> (r = Inr b \<longrightarrow> b \<noteq> 0 \<and> file_root (s_inode v' ino) k = b)"
  proof (cases "get (s_inode v ino) = 0")
    case False
    then have "v' = v" "r = Inr (file_root (s_inode v ino) k)" "file_root (s_inode v ino) k \<noteq> 0"
      using r g [of "s_inode v ino"] by (auto simp: alloc_root_def unat_gt_0 [symmetric])
    then show ?thesis using file_upd_same [OF ok k(1)] by auto
  next
    case True
    then have z: "file_root (s_inode v ino) k = 0" using g [of "s_inode v ino"] by simp
    obtain nr w where n: "new_pointer_block K v ino = (nr, w)" by (cases "new_pointer_block K v ino")
    note N = new_pointer_block_spec [OF n v]
    show ?thesis
    proof (cases nr)
      case (Inl e)
      then have "v' = w" "r = Inl e" using r n True by (auto simp: alloc_root_def)
      then show ?thesis using file_upd_same [OF ok k(1) N(2) [OF Inl]] by simp
    next
      case (Inr x)
      note N3 = N(3) [OF Inr]
      have e: "v' = mark_inode_dirty ino (upd_inode ino (put (word_of_nat x)) w)" "r = Inr x"
        using r n True Inr by (auto simp: alloc_root_def)
      have ux: "unat (word_of_nat x :: u64) = x"
        using good_bound [of w x] changes_layout [OF N(1)] v(2) N3 by (intro unat_of_block) simp
      obtain d where d: "file_depth k = Suc d" using k(2) by (cases "file_depth k") (simp_all add: file_depth_def)
      note F = tree_fresh [of w x, where d = d, folded d]
      have "file_upd ino k v (\<lambda>_. 0) v'" "file_root (s_inode v' ino) k = x"
        by (rule file_upd_root [OF ok k(1) z v(2) N(1) _ _ _ _ _ _ e(1)]; use N3 F p ux in simp)+
      moreover have "0 = ftree v ino k i" for i by (simp add: ftree_def z)
      ultimately show ?thesis using e(2) N3 file_upd_cong [of ino k v "\<lambda>_. 0" v' "ftree v ino k"] by auto
    qed
  qed
  then show "file_upd ino k v (ftree v ino k) v'" "r = Inr b \<Longrightarrow> b \<noteq> 0 \<and> file_root (s_inode v' ino) k = b" by auto
qed

definition file_result ::
    "kenv \<Rightarrow> ino \<Rightarrow> nat \<Rightarrow> 'a volume_scheme \<Rightarrow> errno + nat \<times> bool \<Rightarrow> 'a volume_scheme \<Rightarrow> bool" where
  "file_result K ino iblock v r v' \<longleftrightarrow>
     file_upd ino (fst (file_pos iblock)) v
       (\<lambda>j. if j = snd (file_pos iblock) then (case r of Inr (p, new) \<Rightarrow> p | Inl e \<Rightarrow> file_map v ino iblock)
            else ftree v ino (fst (file_pos iblock)) j) v'
     \<and> (\<forall>p new. r = Inr (p, new) \<longrightarrow> p \<noteq> 0 \<and> (new \<longleftrightarrow> file_map v ino iblock = 0)
          \<and> (new \<longrightarrow> p \<in> free_blocks v \<and> s_blk v' p = Some (fresh_data K v ino iblock)))"

lemma file_result_same:
  assumes "file_upd ino (fst (file_pos iblock)) v (ftree v ino (fst (file_pos iblock))) v'"
  shows "file_result K ino iblock v (Inl e) v'"
    and "file_map v ino iblock = p \<Longrightarrow> p \<noteq> 0 \<Longrightarrow> file_result K ino iblock v (Inr (p, False)) v'"
  using assms by (auto simp: file_result_def file_map_def intro: file_upd_cong)

lemma alloc_direct_spec:
  assumes r: "alloc_direct K v ino iblock = (r, v')" and ok: "file_ok v ino" and i: "iblock < 12" and v: "alloc_inv v" "layout_ok v"
  shows "file_result K ino iblock v r v'"
proof -
  have pos: "file_pos iblock = (iblock, 0)" "file_depth iblock = 0" and k: "iblock < 15" using i by (simp_all add: file_pos_def file_depth_def)
  have fm: "file_map v ino iblock = unat (i_direct (s_inode v ino) ! iblock)" "file_root (s_inode v ino) iblock = unat (i_direct (s_inode v ino) ! iblock)"
    using i by (simp_all add: file_map_def pos ftree_def file_root_def)
  have same: "file_upd ino iblock v (ftree v ino iblock) v" by (rule file_upd_same [OF ok k changes_refl])
  show ?thesis
  proof (cases "unat (i_direct (s_inode v ino) ! iblock) = 0")
    case False
    then have "r = Inr (file_map v ino iblock, False)" "v' = v" using r fm by (auto simp: alloc_direct_def)
    then show ?thesis using file_result_same(2) [of ino iblock v v'] same pos False fm(1) by simp
  next
    case True
    obtain nr w where n: "new_data_block K v ino iblock = (nr, w)" by (cases "new_data_block K v ino iblock")
    note N = new_data_block_spec [OF n v(1)]
    show ?thesis
    proof (cases nr)
      case (Inl e)
      then have "v' = w" "r = Inl e" using r n True by (auto simp: alloc_direct_def)
      then show ?thesis using file_result_same(1) [of ino iblock v v'] file_upd_same [OF ok k N(2) [OF Inl]] pos by simp
    next
      case (Inr x)
      note N3 = N(3) [OF Inr]
      have e: "v' = mark_inode_dirty ino (upd_inode ino (\<lambda>i. i\<lparr>i_direct := (i_direct i)[iblock := word_of_nat x]\<rparr>) w)" "r = Inr (x, True)"
        using r n True Inr by (auto simp: alloc_direct_def)
      have ux: "unat (word_of_nat x :: u64) = x"
        using good_bound [of w x] changes_layout [OF N(1)] v(2) N3 by (intro unat_of_block) simp
      have "file_upd ino iblock v (\<lambda>_. x) v'" "s_blk v' = s_blk w"
        by (rule file_upd_root [OF ok k _ v(2) N(1) _ _ _ _ _ _ e(1)];
            use N3 ux i fm(2) True in \<open>auto simp: pos(2) file_root_def nth_list_update\<close>)+
      then show ?thesis using e(2) N3 fm(1) True file_upd_cong [of ino iblock v "\<lambda>_. x" v']
        unfolding file_result_def e(2) sum.case prod.case by (auto simp: pos)
    qed
  qed
qed

lemma file_result_lift:
  assumes ok: "file_ok v ino" and pos: "file_pos iblock = (k, i)" "k < 15" "i < 512 ^ file_depth k"
    and r: "alloc_result K ino iblock (file_depth k) v (file_root (s_inode v ino) k) i r v'"
  shows "file_result K ino iblock v r v'"
proof -
  have fm: "file_map v ino iblock = tree_get (file_depth k) v (file_root (s_inode v ino) k) i"
    by (simp add: file_map_def pos(1) ftree_def)
  have "file_upd ino k v (\<lambda>j. if j = i then (case r of Inr (p, new) \<Rightarrow> p | Inl e \<Rightarrow> file_map v ino iblock) else ftree v ino k j) v'"
  proof (rule file_upd_cong [OF file_upd_tree [OF ok pos(2)]])
    show "tree_upd ino (file_depth k) v (file_root (s_inode v ino) k)
      (\<lambda>j. if j = i then (case r of Inr (p, new) \<Rightarrow> p | Inl e \<Rightarrow> tree_get (file_depth k) v (file_root (s_inode v ino) k) i)
           else tree_get (file_depth k) v (file_root (s_inode v ino) k) j) v'"
      using r by (simp add: alloc_result_def)
  qed (simp add: fm ftree_def split: sum.split)
  then show ?thesis using r unfolding file_result_def alloc_result_def pos(1) fst_conv snd_conv fm by blast
qed

lemma file_result_trans:
  assumes "file_upd ino (fst (file_pos iblock)) v (ftree v ino (fst (file_pos iblock))) v1" "file_result K ino iblock v1 r v2"
    "iblock < MAX_IBLOCK"
  shows "file_result K ino iblock v r v2"
proof -
  let ?k = "fst (file_pos iblock)" and ?i = "snd (file_pos iblock)"
  note a = file_updD [OF assms(1)]
  have fm: "file_map v1 ino iblock = file_map v ino iblock"
    using a(7) file_pos_bounds [OF assms(3)] by (simp add: file_map_def)
  have "file_upd ino ?k v1 (\<lambda>j. if j = ?i then (case r of Inr (p, new) \<Rightarrow> p | Inl e \<Rightarrow> file_map v1 ino iblock) else ftree v1 ino ?k j) v2"
    using assms(2) by (simp add: file_result_def)
  from file_upd_trans [OF assms(1) this]
  have "file_upd ino ?k v (\<lambda>j. if j = ?i then (case r of Inr (p, new) \<Rightarrow> p | Inl e \<Rightarrow> file_map v ino iblock) else ftree v ino ?k j) v2"
    by (rule file_upd_cong) (use a(7) fm in \<open>auto split: sum.split\<close>)
  then show ?thesis using assms(2) fm changes_free [OF a(1)] fresh_data_changes [OF a(1), of K ino iblock]
    unfolding file_result_def by auto
qed

lemma alloc_tree_spec:
  assumes r: "(case alloc_root K v ino get put of (Inl e, v) \<Rightarrow> (Inl e, v) | (Inr b, v) \<Rightarrow> alloc_walk d K v ino iblock b i) = (r, v')"
    and a: "root_access k get put" and pos: "file_pos iblock = (k, i)" "file_depth k = Suc d" "iblock < MAX_IBLOCK"
    and ok: "file_ok v ino" and v: "alloc_inv v" "layout_ok v"
  shows "file_result K ino iblock v r v'"
proof -
  have k: "k < 15" and i: "i < 512 ^ file_depth k" using file_pos_bounds [OF pos(3)] pos(1) by simp_all
  obtain rr w where R: "alloc_root K v ino get put = (rr, w)" by (cases "alloc_root K v ino get put")
  note A = alloc_root_spec [OF R a ok v]
  show ?thesis
  proof (cases rr)
    case (Inl e)
    then have "r = Inl e" "v' = w" using r R by auto
    then show ?thesis using file_result_same(1) [of ino iblock v v'] A(1) pos(1) by simp
  next
    case (Inr b)
    then have wk: "alloc_walk d K w ino iblock b i = (r, v')" using r R by simp
    have b: "b \<noteq> 0" "file_root (s_inode w ino) k = b" using A(2) [OF Inr] by simp_all
    note okw = file_updD(2) [OF A(1)]
    have "tree_ok (Suc d) w b" using file_okD(2) [OF okw k] b(2) pos(2) by simp
    from alloc_walk_spec [OF wk this b(1) i [unfolded pos(2)] file_upd_ctx [OF A(1) v]]
    have "alloc_result K ino iblock (file_depth k) w (file_root (s_inode w ino) k) i r v'" by (simp add: pos(2) b(2) del: power_Suc)
    from file_result_lift [OF okw pos(1) k i this] show ?thesis
      using file_result_trans [of ino iblock v w K r v'] A(1) pos(1,3) by simp
  qed
qed

lemma alloc_levels:
  "alloc_indirect K v ino iblock = (case alloc_root K v ino i_indirect (\<lambda>b i. i\<lparr>i_indirect := b\<rparr>) of
     (Inl e, v) \<Rightarrow> (Inl e, v) | (Inr b, v) \<Rightarrow> alloc_walk 0 K v ino iblock b (iblock - 12))"
  "alloc_dindirect K v ino iblock = (case alloc_root K v ino i_dindirect (\<lambda>b i. i\<lparr>i_dindirect := b\<rparr>) of
     (Inl e, v) \<Rightarrow> (Inl e, v) | (Inr b, v) \<Rightarrow> alloc_walk 1 K v ino iblock b (iblock - 524))"
  "alloc_tindirect K v ino iblock = (case alloc_root K v ino i_tindirect (\<lambda>b i. i\<lparr>i_tindirect := b\<rparr>) of
     (Inl e, v) \<Rightarrow> (Inl e, v) | (Inr b, v) \<Rightarrow> alloc_walk 2 K v ino iblock b (iblock - 262668))"
proof -
  have m: "n mod 262144 div 512 = n div 512 mod 512" "n mod 262144 mod 512 = n mod 512" for n :: nat
    using mod_mult2_eq [of n 512 512] mod_mod_cancel [of 512 262144 n] by simp_all
  show "alloc_indirect K v ino iblock = (case alloc_root K v ino i_indirect (\<lambda>b i. i\<lparr>i_indirect := b\<rparr>) of
     (Inl e, v) \<Rightarrow> (Inl e, v) | (Inr b, v) \<Rightarrow> alloc_walk 0 K v ino iblock b (iblock - 12))"
    by (simp add: alloc_indirect_def split: prod.split sum.split)
  show "alloc_dindirect K v ino iblock = (case alloc_root K v ino i_dindirect (\<lambda>b i. i\<lparr>i_dindirect := b\<rparr>) of
     (Inl e, v) \<Rightarrow> (Inl e, v) | (Inr b, v) \<Rightarrow> alloc_walk 1 K v ino iblock b (iblock - 524))"
    by (simp add: alloc_dindirect_def Let_def split: prod.split sum.split)
  show "alloc_tindirect K v ino iblock = (case alloc_root K v ino i_tindirect (\<lambda>b i. i\<lparr>i_tindirect := b\<rparr>) of
     (Inl e, v) \<Rightarrow> (Inl e, v) | (Inr b, v) \<Rightarrow> alloc_walk 2 K v ino iblock b (iblock - 262668))"
    by (simp add: alloc_tindirect_def Let_def m numeral_2_eq_2 split: prod.split sum.split)
qed

lemma lookup_or_alloc_spec:
  assumes r: "beamfs_inline_lookup_or_alloc_phys_new K freeing v ino iblock = (r, v')" and ok: "file_ok v ino"
    and i: "iblock < MAX_IBLOCK" and v: "alloc_inv v" "layout_ok v"
  shows "file_result K ino iblock v r v'"
proof (cases "freeing \<or> s_free_blocks v = 0")
  case True
  then have "v' = v" "\<exists>e. r = Inl e" using r by (auto simp: beamfs_inline_lookup_or_alloc_phys_new_def split: if_splits)
  then show ?thesis
    using file_result_same(1) [OF file_upd_same [OF ok _ changes_refl]] file_pos_bounds [OF i] by auto
next
  case False
  note e = r [unfolded beamfs_inline_lookup_or_alloc_phys_new_def]
  consider "iblock < 12" | "12 \<le> iblock" "iblock < 524" | "524 \<le> iblock" "iblock < 262668" | "262668 \<le> iblock" by linarith
  then show ?thesis
  proof cases
    case 1
    then show ?thesis using e False alloc_direct_spec [OF _ ok 1 v, of K r v'] by simp
  next
    case 2
    then show ?thesis using e False
      by (intro alloc_tree_spec [OF _ root_accesses(1) _ _ i ok v, where d = 0 and i = "iblock - 12"])
        (simp_all add: alloc_levels file_pos_def file_depth_def)
  next
    case 3
    then show ?thesis using e False
      by (intro alloc_tree_spec [OF _ root_accesses(2) _ _ i ok v, where d = 1 and i = "iblock - 524"])
        (simp_all add: alloc_levels file_pos_def file_depth_def)
  next
    case 4
    then show ?thesis using e False i
      by (intro alloc_tree_spec [OF _ root_accesses(3) _ _ i ok v, where d = 2 and i = "iblock - 262668"])
        (simp_all add: alloc_levels file_pos_def file_depth_def)
  qed
qed

subsection \<open>The lookup\<close>

lemma check_keeps: "beamfs_check_intermediate_block K v b = (e, v') \<Longrightarrow> keeps v v'"
  by (auto simp: beamfs_check_intermediate_block_def split: if_splits)

lemma lookup_level_keeps:
  assumes "lookup_level K v b s = (r, v')"
  shows "keeps v v'"
proof -
  obtain e w where c: "beamfs_check_intermediate_block K v b = (e, w)" by (cases "beamfs_check_intermediate_block K v b")
  obtain rd u where r: "read_verified K w b = (rd, u)" by (cases "read_verified K w b")
  have "keeps v w" "keeps v u" using check_keeps [OF c] keeps_trans [OF check_keeps [OF c] read_verified_spec(1) [OF r]] by simp_all
  then show ?thesis using assms c r by (auto simp: lookup_level_def split: option.splits sum.splits)
qed

lemma lookup_terminal_good: "lookup_terminal v p = (r, v') \<Longrightarrow> v' = v \<and> (\<forall>q. r = Inr q \<longrightarrow> q = 0 \<or> good_block v q)"
  by (auto simp: lookup_terminal_def good_block_def split: if_splits)

lemma good_block_keeps: "keeps v v' \<Longrightarrow> good_block v' p = good_block v p"
  using keeps_allocated [of v v' p] frameD(1,2) [of v v'] by (simp add: good_block_def in_data_region_def keeps_frame)

text \<open>The walk down the levels, as for the allocating lookup.\<close>

primrec lookup_walk :: "nat \<Rightarrow> kenv \<Rightarrow> 'a volume_scheme \<Rightarrow> nat \<Rightarrow> nat \<Rightarrow> (errno + nat) \<times> 'a volume_scheme" where
  "lookup_walk 0 K v b i = lookup_terminal v b"
| "lookup_walk (Suc d) K v b i =
     (if b = 0 then (Inr 0, v)
      else case lookup_level K v b (i div 512 ^ d) of
             (Inl e, v) \<Rightarrow> (Inl e, v)
           | (Inr c, v) \<Rightarrow> lookup_walk d K v c (i mod 512 ^ d))"

lemma lookup_terminal_0 [simp]: "lookup_terminal v 0 = (Inr 0, v)"
  by (simp add: lookup_terminal_def)

lemma lookup_phys_walk:
  assumes "iblock < MAX_IBLOCK"
  shows "beamfs_inline_lookup_phys K v ino iblock =
    lookup_walk (file_depth (fst (file_pos iblock))) K v (file_root (s_inode v ino) (fst (file_pos iblock))) (snd (file_pos iblock))"
proof -
  have m: "n mod 262144 div 512 = n div 512 mod 512" "n mod 262144 mod 512 = n mod 512" for n :: nat
    using mod_mult2_eq [of n 512 512] mod_mod_cancel [of 512 262144 n] by simp_all
  have d: "file_depth 12 = Suc 0" "file_depth 13 = Suc (Suc 0)" "file_depth 14 = Suc (Suc (Suc 0))" "k < 12 \<Longrightarrow> file_depth k = 0" for k
    by (simp_all add: file_depth_def)
  consider "iblock < 12" | "12 \<le> iblock" "iblock < 524" | "524 \<le> iblock" "iblock < 262668" | "262668 \<le> iblock" by linarith
  then show ?thesis
  proof cases
    case 1
    then show ?thesis by (simp add: beamfs_inline_lookup_phys_def lookup_direct_def file_pos_def d file_root_def)
  next
    case 2
    then show ?thesis
      by (simp add: beamfs_inline_lookup_phys_def lookup_indirect_def file_pos_def d file_root_def Let_def split: prod.split sum.split)
  next
    case 3
    then show ?thesis
      by (simp add: beamfs_inline_lookup_phys_def lookup_dindirect_def file_pos_def d file_root_def Let_def split: prod.split sum.split)
  next
    case 4
    then show ?thesis using assms
      by (simp add: beamfs_inline_lookup_phys_def lookup_tindirect_def file_pos_def d file_root_def Let_def m split: prod.split sum.split)
  qed
qed

lemma lookup_walk_good:
  "lookup_walk d K v b i = (r, v') \<Longrightarrow> keeps v v' \<and> (\<forall>p. r = Inr p \<longrightarrow> p = 0 \<or> good_block v p)"
proof (induction d arbitrary: v b i)
  case 0
  then show ?case using lookup_terminal_good [of v b r v'] by simp
next
  case (Suc d)
  obtain lr w where l: "lookup_level K v b (i div 512 ^ d) = (lr, w)" by (cases "lookup_level K v b (i div 512 ^ d)")
  note k = lookup_level_keeps [OF l]
  show ?case
  proof (cases "b = 0 \<or> (\<exists>e. lr = Inl e)")
    case True
    then show ?thesis using Suc.prems l k by (auto split: if_splits)
  next
    case False
    then obtain c where c: "b \<noteq> 0" "lr = Inr c" by (cases lr) auto
    then have "lookup_walk d K w c (i mod 512 ^ d) = (r, v')" using Suc.prems l by simp
    from Suc.IH [OF this] show ?thesis using keeps_trans [OF k] good_block_keeps [OF k] by auto
  qed
qed

text \<open>A block of pointers the parity does not object to.\<close>

definition trusted :: "'a volume_scheme \<Rightarrow> nat \<Rightarrow> bool" where
  "trusted v b \<longleftrightarrow> ind_parity_slot v b = None \<or> s_verified v b"

lemma trusted_verify: "trusted v b \<Longrightarrow> beamfs_ind_parity_verify K v b = (None, v)"
  by (auto simp: trusted_def beamfs_ind_parity_verify_def split: option.split)

lemma lookup_walk_exact:
  "tree_ok d v b \<Longrightarrow> \<forall>x \<in> tree_nodes d v b. trusted v x \<Longrightarrow> i < 512 ^ d \<Longrightarrow> lookup_walk d K v b i = (Inr (tree_get d v b i), v)"
proof (induction d arbitrary: b i)
  case 0
  then show ?case by (auto simp: lookup_terminal_def good_block_def)
next
  case (Suc d)
  show ?case
  proof (cases "b = 0")
    case False
    let ?c = "node_ptr v b (i div 512 ^ d)"
    have b: "good_block v b" "readable v b" "trusted v b" using Suc.prems(1,2) False by simp_all
    then have "lookup_level K v b (i div 512 ^ d) = (Inr ?c, v)"
      using trusted_verify [of v b K]
      by (auto simp: lookup_level_def beamfs_check_intermediate_block_def good_block_def readable_def read_verified_def node_ptr_def)
    moreover have "lookup_walk d K v ?c (i mod 512 ^ d) = (Inr (tree_get d v ?c (i mod 512 ^ d)), v)"
      using Suc.prems(1,2) False slot_bounds(1) [OF Suc.prems(3)] slot_bounds(2) [of i d] by (intro Suc.IH) auto
    ultimately show ?thesis using False by simp
  qed simp
qed

definition file_nodes :: "'a volume_scheme \<Rightarrow> ino \<Rightarrow> nat set" where
  "file_nodes v ino = (\<Union>k < 15. fnodes v ino k)"

lemma lookup_phys_map:
  assumes "file_ok v ino" "\<forall>x \<in> file_nodes v ino. trusted v x" "iblock < MAX_IBLOCK"
  shows "beamfs_inline_lookup_phys K v ino iblock = (Inr (file_map v ino iblock), v)"
proof -
  let ?k = "fst (file_pos iblock)"
  have k: "?k < 15" using file_pos_bounds [OF assms(3)] by simp
  then have "\<forall>x \<in> tree_nodes (file_depth ?k) v (file_root (s_inode v ino) ?k). trusted v x"
    using assms(2) by (auto simp: file_nodes_def fnodes_def)
  then show ?thesis
    using lookup_phys_walk [OF assms(3), of K v ino] lookup_walk_exact [OF file_okD(2) [OF assms(1) k]] file_pos_bounds [OF assms(3)]
    by (simp add: file_map_def ftree_def)
qed

text \<open>The new block holds zeros.\<close>

lemma zero_block_holds:
  assumes "kernel_lib K"
  shows "holds_data K v (zero_data_block K v ino iblock) (replicate (beamfs_block_payload v) 0) (word_of_nat ino) (word_of_nat iblock)"
    "sealed K v (zero_data_block K v ino iblock)"
proof -
  let ?z = "replicate 4096 0 :: byte list" and ?p = "replicate (beamfs_block_payload v) 0 :: byte list"
  have g: "get_bytes 0 (beamfs_block_payload v) ?z = ?p" "get_bytes 0 (beamfs_block_payload v) ?p = ?p"
    using desc_bounds(4) [of v] by (simp_all add: get_bytes_def)
  have gz: "get_bytes off n (replicate m 0) = replicate n (0 :: byte)" if "off + n \<le> m" for off n m
    using that by (simp add: get_bytes_def)
  have "holds_payload v ?z ?p" by (simp add: holds_payload_def beamfs_block_payload_def gz)
  moreover have "beamfs_inline_stamp_tail_pad K v ?z ?z ino' ib = beamfs_inline_stamp_tail_pad K v ?z ?p ino' ib" for ino' ib
    unfolding beamfs_inline_stamp_tail_pad_def Let_def g by (rule refl)
  ultimately have "holds_data K v (beamfs_inline_stamp_tail_pad K v ?z ?z (word_of_nat ino) (word_of_nat iblock)) ?p
      (word_of_nat ino) (word_of_nat iblock)"
    using stamp_holds [of ?z ?p v K] by simp
  from seal_block [OF assms this]
  show "holds_data K v (zero_data_block K v ino iblock) ?p (word_of_nat ino) (word_of_nat iblock)"
    "sealed K v (zero_data_block K v ino iblock)"
    by (auto simp: zero_data_block_def)
qed

subsection \<open>Properties\<close>

text \<open>A lookup never hands out a block it should not. Whatever the inode and the blocks of pointers
  hold, corrupted or not, \<^const>\<open>beamfs_inline_lookup_phys\<close> returns a hole, an error, or a block that lies in the data
  region and that the bitmap calls allocated; and it changes nothing but the journal and what the parity check
  remembers.\<close>
theorem lookup_phys_safe:
  assumes "beamfs_inline_lookup_phys K v ino iblock = (Inr p, v')"
  shows "(p = 0 \<or> s_data_start v \<le> p \<and> p < s_data_start v + s_nblocks v \<and> beamfs_block_is_allocated v p) \<and> keeps v v'"
proof -
  have "iblock < MAX_IBLOCK" using assms by (auto simp: beamfs_inline_lookup_phys_def split: if_splits)
  from lookup_walk_good [OF assms [unfolded lookup_phys_walk [OF this]]] show ?thesis
    by (auto simp: good_block_def in_data_region_def)
qed

text \<open>C17: The lookup computes the map of the file. For a file whose tree is in order and whose blocks of
  pointers pass their parity check, \<^const>\<open>beamfs_inline_lookup_phys\<close> returns for every index up to the capacity of
  the three levels exactly the pointer found by following the tree, and a hole where a level is missing; beyond
  the capacity it is \<^const>\<open>EOPNOTSUPP\<close>.\<close>
theorem lookup_phys_exact:
  assumes "file_ok v ino" "\<forall>x \<in> file_nodes v ino. trusted v x"
  shows "beamfs_inline_lookup_phys K v ino iblock =
    (if iblock < BEAMFS_MAX_IBLOCK_TINDIRECT then Inr (file_map v ino iblock) else Inl EOPNOTSUPP, v)"
proof (cases "iblock < MAX_IBLOCK")
  case True
  then show ?thesis using lookup_phys_map [OF assms True, of K] by simp
qed (simp add: beamfs_inline_lookup_phys_def)

text \<open>C3: The allocating lookup is an update of the map at one index. On a file whose tree is in order,
  \<^const>\<open>beamfs_inline_lookup_or_alloc_phys_new\<close>, whether it succeeds or fails at any of its steps, leaves the tree in order,
  the allocator consistent, every other index of the file as it was, every block that was allocated and is
  not a block of pointers of the file as it was, and gives no block back. When it succeeds, the index maps to
  the block returned; it reports a new block exactly when the index was a hole, and then the block was free.
  When it fails, the map of the file is unchanged.\<close>
theorem lookup_or_alloc_updates_map:
  assumes "alloc_inv v" "layout_ok v" "file_ok v ino" "iblock < BEAMFS_MAX_IBLOCK_TINDIRECT"
    and r: "beamfs_inline_lookup_or_alloc_phys_new K freeing v ino iblock = (r, v')"
  shows "alloc_inv v' \<and> file_ok v' ino
    \<and> (\<forall>j < BEAMFS_MAX_IBLOCK_TINDIRECT. file_map v' ino j =
         (if j = iblock then (case r of Inr (p, new) \<Rightarrow> p | Inl e \<Rightarrow> file_map v ino j) else file_map v ino j))
    \<and> (\<forall>p new. r = Inr (p, new) \<longrightarrow> p \<noteq> 0 \<and> (new \<longleftrightarrow> file_map v ino iblock = 0) \<and> (new \<longrightarrow> \<not> beamfs_block_is_allocated v p))
    \<and> (\<forall>b. beamfs_block_is_allocated v b \<longrightarrow> beamfs_block_is_allocated v' b
         \<and> (s_data_start v \<le> b \<and> b \<notin> file_nodes v ino \<longrightarrow> s_blk v' b = s_blk v b))"
proof -
  let ?k = "fst (file_pos iblock)" and ?i = "snd (file_pos iblock)"
  have R: "file_result K ino iblock v r v'" by (rule lookup_or_alloc_spec [OF r assms(3,4,1,2)])
  then have u: "file_upd ino ?k v (\<lambda>j. if j = ?i then (case r of Inr (p, new) \<Rightarrow> p | Inl e \<Rightarrow> file_map v ino iblock) else ftree v ino ?k j) v'"
    by (simp add: file_result_def)
  note U = file_updD [OF u]
  have "file_map v' ino j = (if j = iblock then (case r of Inr (p, new) \<Rightarrow> p | Inl e \<Rightarrow> file_map v ino j) else file_map v ino j)"
    if j: "j < BEAMFS_MAX_IBLOCK_TINDIRECT" for j
  proof (cases "fst (file_pos j) = ?k")
    case True
    have "snd (file_pos j) = ?i \<longleftrightarrow> j = iblock" using True file_pos_inj [of j iblock] by (metis prod.expand)
    then show ?thesis using U(7) [of "snd (file_pos j)"] file_pos_bounds [OF j] True by (auto simp: file_map_def split: sum.split)
  next
    case False
    then show ?thesis using U(4) [OF _ False] file_pos_bounds [OF j] by (auto simp: file_map_def)
  qed
  moreover have "s_blk v' b = s_blk v b" if "beamfs_block_is_allocated v b" "s_data_start v \<le> b" "b \<notin> file_nodes v ino" for b
  proof -
    have "b \<notin> fnodes v ino ?k \<union> free_blocks v" using that file_pos_bounds [OF assms(4)] by (auto simp: file_nodes_def free_blocks_def)
    then show ?thesis by (rule changesD(10) [OF U(1) that(2)])
  qed
  moreover have "p \<noteq> 0 \<and> (new \<longleftrightarrow> file_map v ino iblock = 0) \<and> (new \<longrightarrow> \<not> beamfs_block_is_allocated v p)" if "r = Inr (p, new)" for p new
    using R that by (simp add: file_result_def free_blocks_def)
  ultimately show ?thesis using U(2) changesD(11) [OF U(1)] file_upd_ctx(1) [OF u assms(1,2)] by simp
qed

text \<open>C23: A block the allocating lookup adds reads back as zeros. The buffer it leaves for the new block holds a
  sealed data block of zeros for that inode and index: after any damage within the radius of the code every slice of
  it decodes to zeros, on volumes of either layout, with or without checksums and identities.\<close>
theorem new_block_reads_zeros:
  assumes K: "kernel_lib K" and v: "alloc_inv v" "layout_ok v" "file_ok v ino" "iblock < BEAMFS_MAX_IBLOCK_TINDIRECT" "s_scratch_ok v"
    and r: "beamfs_inline_lookup_or_alloc_phys_new K freeing v ino iblock = (Inr (p, True), v')"
  shows "\<exists>bh. s_blk v' p = Some bh \<and> (\<forall>raw off len rmw stale. data_damage_ok v' (b_data bh) raw \<and> 0 < len \<and> off + len \<le> beamfs_block_payload v'
    \<longrightarrow> fst (beamfs_inline_decode_block_into_buf K stale v' raw p (word_of_nat ino) (word_of_nat iblock) off len rmw) = Inr (replicate len 0))"
proof -
  let ?bh = "fresh_data K v' ino iblock"
  have R: "file_result K ino iblock v (Inr (p, True)) v'" by (rule lookup_or_alloc_spec [OF r v(3,4,1,2)])
  then have u: "changes {ino} (fnodes v ino (fst (file_pos iblock)) \<union> free_blocks v) v v'" "p \<noteq> 0" "s_blk v' p = Some (fresh_data K v ino iblock)"
    by (auto simp: file_result_def intro: file_updD(1))
  then have sp: "s_blk v' p = Some ?bh" using fresh_data_changes [OF u(1), of K ino iblock] by simp
  have ctx: "layout_ok v'" "s_scratch_ok v'" using changes_layout [OF u(1)] changesD(6) [OF u(1)] v(2,5) by simp_all
  have "fst (beamfs_inline_decode_block_into_buf K stale v' raw p (word_of_nat ino) (word_of_nat iblock) off len rmw) = Inr (replicate len 0)"
    if a: "data_damage_ok v' (b_data ?bh) raw \<and> 0 < len \<and> off + len \<le> beamfs_block_payload v'" for raw off len rmw stale
  proof -
    have "get_bytes off len (replicate (beamfs_block_payload v') 0) = replicate len (0 :: byte)" using a by (auto simp: get_bytes_def)
    then show ?thesis
      using decode_block_into_buf_spec [OF K ctx _ zero_block_holds [OF K, of v' ino iblock], of raw p len off stale
          "word_of_nat ino" "word_of_nat iblock" rmw] a u(2)
      by (auto simp: fresh_data_def)
  qed
  then show ?thesis using sp by blast
qed

text \<open>On a full volume the allocating lookup refuses blocks the file already has. When no block is free,
  \<^const>\<open>beamfs_inline_lookup_or_alloc_phys_new\<close> returns \<^const>\<open>ENOSPC\<close> for every index, including one
  that \<^const>\<open>beamfs_inline_lookup_phys\<close> maps to an allocated block of the file and that needs no allocation.\<close>
theorem full_volume_refuses_mapped:
  assumes "s_free_blocks v = 0" "beamfs_inline_lookup_phys K v ino iblock = (Inr p, w)" "p \<noteq> 0"
  shows "beamfs_inline_lookup_or_alloc_phys_new K False v ino iblock = (Inl ENOSPC, v) \<and> beamfs_block_is_allocated v p"
proof -
  have "iblock < MAX_IBLOCK" using assms(2) by (auto simp: beamfs_inline_lookup_phys_def split: if_splits)
  from lookup_walk_good [OF assms(2) [unfolded lookup_phys_walk [OF this]]] have "beamfs_block_is_allocated v p"
    using assms(3) by (auto simp: good_block_def)
  then show ?thesis using assms(1) by (simp add: beamfs_inline_lookup_or_alloc_phys_new_def)
qed

subsection \<open>Witnesses\<close>

text \<open>The one data block of the volume, free in \<open>wit_data\<close>, taken by inode 1 in \<open>wit_full\<close>.\<close>

definition wit_full :: volume where
  "wit_full = (wit_data 0)\<lparr>s_block_bitmap := Some [False], s_free_blocks := 0,
     s_inode := (\<lambda>_. wit_inode\<lparr>i_direct := 10 # replicate 11 0\<rparr>)\<rparr>"

lemma wit_full_simps [simp]:
  "s_free_blocks wit_full = 0" "s_data_start wit_full = 10" "s_nblocks wit_full = 1" "beamfs_block_is_allocated wit_full 10"
  "s_inode wit_full = (\<lambda>_. wit_inode\<lparr>i_direct := 10 # replicate 11 0\<rparr>)" "s_block_bitmap wit_full = Some [False]"
  by (simp_all add: wit_full_def wit_data_def beamfs_block_is_allocated_def test_bit_def)

lemma wit_full_lookup: "beamfs_inline_lookup_phys port_kenv wit_full 1 0 = (Inr 10, wit_full)"
  by (simp add: beamfs_inline_lookup_phys_def lookup_direct_def lookup_terminal_def in_data_region_def)

lemma wit_full_root: "file_root (s_inode wit_full 1) k = (if k = 0 then 10 else 0)"
proof (cases "k < 12")
  case True
  then show ?thesis by (cases k) (simp_all add: file_root_def wit_inode_def)
qed (simp add: file_root_def wit_inode_def)

lemma wit_full_ok: "file_ok wit_full 1" "file_nodes wit_full 1 = {}"
proof -
  have d: "file_depth 0 = 0" by (simp add: file_depth_def)
  have g: "good_block wit_full 10" by (simp add: good_block_def in_data_region_def)
  have "tree_ok (file_depth k) wit_full (file_root (s_inode wit_full 1) k)" for k
    using g by (simp only: wit_full_root) (simp add: d)
  moreover have "fblocks wit_full 1 k = (if k = 0 then {10} else {})" for k
    unfolding fblocks_def wit_full_root by (simp add: d)
  moreover have "length (i_direct (s_inode wit_full 1)) = 12" by simp
  ultimately show "file_ok wit_full 1" by (simp add: file_ok_def)
  have "fnodes wit_full 1 k = {}" for k unfolding fnodes_def wit_full_root by (simp add: d)
  then show "file_nodes wit_full 1 = {}" by (simp add: file_nodes_def)
qed

theorem lookup_phys_safe_witness: "beamfs_block_is_allocated wit_full 10 \<and> (10 :: nat) < s_data_start wit_full + s_nblocks wit_full"
  using lookup_phys_safe [OF wit_full_lookup] by simp

theorem lookup_phys_exact_witness: "beamfs_inline_lookup_phys port_kenv wit_full 1 0 = (Inr (file_map wit_full 1 0), wit_full)
    \<and> file_map wit_full 1 0 = 10"
  using lookup_phys_exact [OF wit_full_ok(1), of port_kenv 0] wit_full_ok(2) wit_full_lookup by simp

theorem full_volume_refuses_mapped_witness:
  "beamfs_inline_lookup_or_alloc_phys_new port_kenv False wit_full 1 0 = (Inl ENOSPC, wit_full)"
  using full_volume_refuses_mapped [OF _ wit_full_lookup] by simp

lemma wit_data_inv: "alloc_inv (wit_data f)"
  by (simp add: wit_data_def alloc_inv_def sb_free_blocks_def wit_vsb_def get_le64_def put_le64_def get_put_other)
    (simp add: get_put_le(3) [unfolded get_le64_def put_le64_def])

lemma wit_data_file: "file_ok (wit_data f) 1" "file_map (wit_data f) 1 0 = 0"
proof -
  have r: "file_root (s_inode (wit_data f) 1) k = 0" for k
    by (simp add: wit_data_def file_root_def wit_inode_def)
  then show "file_ok (wit_data f) 1"
    unfolding file_ok_def fblocks_def r by (simp add: wit_data_def wit_inode_def)
  show "file_map (wit_data f) 1 0 = 0" unfolding file_map_def ftree_def r by simp
qed

lemma wit_data_alloc:
  "\<exists>v'. beamfs_inline_lookup_or_alloc_phys_new port_kenv False (wit_data f) 1 0 = (Inr (10, True), v')"
proof -
  let ?v = "wit_data f"
  obtain b w where a: "beamfs_alloc_block port_kenv ?v (Some 1) = (b, w)" by (cases "beamfs_alloc_block port_kenv ?v (Some 1)")
  have s: "\<not> s_failed ?v" "s_free_blocks ?v = 1" "s_data_start ?v = 10" "s_nblocks ?v = 1" "s_getblk_ok ?v"
    by (simp_all add: wit_data_def)
  have bm: "s_block_bitmap ?v = Some [True]" by (simp add: wit_data_def)
  have "fst (beamfs_alloc_block port_kenv ?v (Some 1)) = s_data_start ?v + fst (alloc_pick ?v [True] (Some 1))" "fst (alloc_pick ?v [True] (Some 1)) < 1"
    using alloc_block_taken(3) [OF wit_data_inv s(1) bm] alloc_block_taken(1) [OF wit_data_inv s(1) bm] s(2,4) by auto
  then have "b = 10" using a s(3) by simp
  moreover have "s_getblk_ok w" using frameD(8) [OF alloc_block_frame(1) [OF a wit_data_inv]] s(5) by simp
  ultimately show ?thesis using a s(2)
    by (simp add: beamfs_inline_lookup_or_alloc_phys_new_def alloc_direct_def new_data_block_def wit_data_def wit_inode_def)
qed

theorem lookup_or_alloc_updates_map_witness:
  "\<exists>v'. beamfs_inline_lookup_or_alloc_phys_new port_kenv False (wit_data 0) 1 0 = (Inr (10, True), v')
     \<and> file_ok v' 1 \<and> file_map v' 1 0 = 10 \<and> \<not> beamfs_block_is_allocated (wit_data 0) 10"
proof -
  obtain v' where v': "beamfs_inline_lookup_or_alloc_phys_new port_kenv False (wit_data 0) 1 0 = (Inr (10, True), v')"
    using wit_data_alloc by blast
  have "(0 :: nat) < BEAMFS_MAX_IBLOCK_TINDIRECT" by simp
  from lookup_or_alloc_updates_map [OF wit_data_inv wit_data_ok(1) wit_data_file(1) this v'] v' show ?thesis by auto
qed

theorem new_block_reads_zeros_witness:
  "\<exists>v' bh. beamfs_inline_lookup_or_alloc_phys_new port_kenv False (wit_data 0x40000) 1 0 = (Inr (10, True), v') \<and> s_blk v' 10 = Some bh
    \<and> (\<forall>raw off len rmw stale. data_damage_ok v' (b_data bh) raw \<and> 0 < len \<and> off + len \<le> beamfs_block_payload v'
       \<longrightarrow> fst (beamfs_inline_decode_block_into_buf port_kenv stale v' raw 10 (word_of_nat 1) (word_of_nat 0) off len rmw) = Inr (replicate len 0))"
proof -
  obtain v' where v': "beamfs_inline_lookup_or_alloc_phys_new port_kenv False (wit_data 0x40000) 1 0 = (Inr (10, True), v')"
    using wit_data_alloc by blast
  have "(0 :: nat) < BEAMFS_MAX_IBLOCK_TINDIRECT" by simp
  from new_block_reads_zeros [OF kport.kernel_lib_axioms wit_data_inv wit_data_ok(1) wit_data_file(1) this wit_data_ok(2) v'] v'
  show ?thesis by blast
qed

end
