(* ===== verification/Truncate.thy ===== *)
theory Truncate
  imports BlockTree_Correct
begin

section \<open>Giving blocks back: truncation and eviction\<close>

text \<open>
  \<^verbatim>\<open>beamfs_free_ind_range\<close>, \<^verbatim>\<open>beamfs_free_data_blocks\<close> and \<^verbatim>\<open>beamfs_evict_inode\<close> of \<^verbatim>\<open>super.c\<close>, and
  \<^verbatim>\<open>beamfs_inline_free_blocks_from\<close>, \<^verbatim>\<open>beamfs_inline_zero_tail_block\<close> and \<^verbatim>\<open>beamfs_inline_setattr\<close> of
  \<^verbatim>\<open>file_inline.c\<close>. A truncation walks the tree of a file from the first index that goes, frees what lies
  above it, and frees a block of pointers once nothing survives below it. An eviction does it from index 0.

  The page cache is not modelled, nor are the lists of dirty metadata buffers: writing a buffer out does not
  change what it holds. Logical indices are natural numbers: the largest a tree reaches is below \<open>2 ^ 28\<close>.
\<close>

subsection \<open>Freeing part of a tree\<close>

definition beamfs_free_one_block :: "kenv \<Rightarrow> 'a volume_scheme \<Rightarrow> nat \<Rightarrow> bool \<times> 'a volume_scheme" where
  "beamfs_free_one_block K v blk =
     (if blk = 0 then (False, v)
      else if \<not> beamfs_block_is_allocated v blk
      then (False, beamfs_log_rs_event_flagged K (k_ktime_ns (s_clk v)) v (word_of_nat blk) None 0 BEAMFS_SUBBLOCK_DATA 0)
      else (True, beamfs_free_block K v blk None))"

text \<open>A slot of a block of pointers cleared, in the tree checker first.\<close>

definition clear_slot :: "nat \<Rightarrow> nat \<Rightarrow> 'a volume_scheme \<Rightarrow> 'a volume_scheme" where
  "clear_slot blk j v =
     (let bh = the (s_blk v blk);
          v = v\<lparr>s_treecheck := beamfs_tc_clear (word_of_nat blk) (word_of_nat j) (s_treecheck v)\<rparr>
      in v\<lparr>s_blk := (s_blk v)(blk \<mapsto> bh\<lparr>b_data := put_le64 (8 * j) 0 (b_data bh)\<rparr>)\<rparr>)"

definition mmb_mark_buffer_dirty :: "nat \<Rightarrow> 'a volume_scheme \<Rightarrow> 'a volume_scheme" where
  "mmb_mark_buffer_dirty blk v = v\<lparr>s_blk := (s_blk v)(blk := map_option mark_buffer_dirty (s_blk v blk))\<rparr>"

text \<open>\<^verbatim>\<open>bforget\<close>: what the buffer holds is not to be written.\<close>

definition bforget :: "nat \<Rightarrow> 'a volume_scheme \<Rightarrow> 'a volume_scheme" where
  "bforget blk v = v\<lparr>s_blk := (s_blk v)(blk := map_option (\<lambda>bh. bh\<lparr>b_dirty := False\<rparr>) (s_blk v blk))\<rparr>"

text \<open>One turn of the loop over the slots: the pointers that survive, whether the block was changed, the volume.
  \<open>sub\<close> is the recursive call on a child, used above the last level.\<close>

definition free_ind_slot ::
    "kenv \<Rightarrow> (nat \<Rightarrow> nat \<Rightarrow> 'a volume_scheme \<Rightarrow> bool \<times> 'a volume_scheme) \<Rightarrow> nat \<Rightarrow> nat \<Rightarrow> nat \<Rightarrow> nat
       \<Rightarrow> nat \<times> bool \<times> 'a volume_scheme \<Rightarrow> nat \<Rightarrow> nat \<times> bool \<times> 'a volume_scheme" where
  "free_ind_slot K sub depth blk base first = (\<lambda>(survivors, dirtied, v) j.
     let child = ind_ptr (b_data (the (s_blk v blk))) j;
         child_base = base + j * BEAMFS_INDIRECT_PTRS ^ depth
     in if child = 0 then (survivors, dirtied, v)
        else if depth > 0
        then
          let (gone, v) = sub child child_base v
          in if gone then (survivors, True, clear_slot blk j v) else (survivors + 1, dirtied, v)
        else if child_base < first then (survivors + 1, dirtied, v)
        else (survivors, True, clear_slot blk j (snd (beamfs_free_one_block K v child))))"

text \<open>The parity and the buffer after the loop.\<close>

definition free_ind_flush :: "kenv \<Rightarrow> ino option \<Rightarrow> nat \<Rightarrow> 'a volume_scheme \<Rightarrow> 'a volume_scheme" where
  "free_ind_flush K inode blk v =
     (let v = mmb_mark_buffer_dirty blk (beamfs_ind_parity_update K v blk inode)
      in case inode of None \<Rightarrow> v | Some ino \<Rightarrow> mark_inode_dirty ino v)"

primrec beamfs_free_ind_range ::
    "nat \<Rightarrow> kenv \<Rightarrow> ino option \<Rightarrow> nat \<Rightarrow> nat \<Rightarrow> nat \<Rightarrow> 'a volume_scheme \<Rightarrow> bool \<times> 'a volume_scheme" where
  "beamfs_free_ind_range 0 K inode first blk base v = (False, v)"
| "beamfs_free_ind_range (Suc depth) K inode first blk base v =
     (if blk = 0 then (True, v)
      else if base + BEAMFS_INDIRECT_PTRS ^ depth * BEAMFS_INDIRECT_PTRS \<le> first then (False, v)
      else case beamfs_bread v blk of
             (None, v) \<Rightarrow> (False, v)
           | (Some ibh, v) \<Rightarrow>
               let (survivors, dirtied, v) =
                     foldl (free_ind_slot K (beamfs_free_ind_range depth K inode first) depth blk base first)
                       (0, False, v) [0..<BEAMFS_INDIRECT_PTRS];
                   v = (if dirtied then free_ind_flush K inode blk v else v)
               in if survivors = 0 then (True, snd (beamfs_free_one_block K (bforget blk v) blk)) else (False, v))"

subsection \<open>Eviction\<close>

text \<open>The direct blocks, each once: \<open>seen\<close> is \<^const>\<open>None\<close> when its array could not be allocated.\<close>

primrec free_direct :: "kenv \<Rightarrow> ino \<Rightarrow> nat list \<Rightarrow> nat list option \<Rightarrow> 'a volume_scheme \<Rightarrow> 'a volume_scheme" where
  "free_direct K ino [] seen v = v"
| "free_direct K ino (i # is) seen v =
     (let blk = unat (i_direct (s_inode v ino) ! i);
          fresh = (blk \<noteq> 0 \<and> (case seen of None \<Rightarrow> True | Some bs \<Rightarrow> blk \<notin> set bs));
          v = (if fresh then beamfs_free_block K v blk None else v);
          seen = (if fresh then map_option (\<lambda>bs. bs @ [blk]) seen else seen)
      in free_direct K ino is seen (upd_inode ino (\<lambda>n. n\<lparr>i_direct := (i_direct n)[i := 0]\<rparr>) v))"

definition free_root ::
    "kenv \<Rightarrow> ino \<Rightarrow> nat \<Rightarrow> nat \<Rightarrow> (vinode \<Rightarrow> u64) \<Rightarrow> (u64 \<Rightarrow> vinode \<Rightarrow> vinode) \<Rightarrow> 'a volume_scheme \<Rightarrow> 'a volume_scheme" where
  "free_root K ino depth base get put v =
     (if get (s_inode v ino) = 0 then v
      else upd_inode ino (put 0) (snd (beamfs_free_ind_range depth K (Some ino) 0 (unat (get (s_inode v ino))) base v)))"

definition beamfs_free_data_blocks :: "kenv \<Rightarrow> 'a volume_scheme \<Rightarrow> ino \<Rightarrow> 'a volume_scheme" where
  "beamfs_free_data_blocks K v ino =
     (if S_ISLNK (i_mode (s_inode v ino))
      then
        let blk = unat (i_direct (s_inode v ino) ! 0);
            v = (if sint (i_size (s_inode v ino)) \<ge> 96 \<and> blk \<noteq> 0 then beamfs_free_block K v blk None else v)
        in upd_inode ino (\<lambda>n. n\<lparr>i_direct := replicate BEAMFS_DIRECT_BLOCKS 0\<rparr>) v
      else
        let v = free_direct K ino [0..<BEAMFS_DIRECT_BLOCKS] (if s_copy_ok v then Some [] else None) v;
            v = free_root K ino 1 BEAMFS_DIRECT_BLOCKS i_indirect (\<lambda>b n. n\<lparr>i_indirect := b\<rparr>) v;
            v = free_root K ino 2 BEAMFS_MAX_IBLOCK_INDIRECT i_dindirect (\<lambda>b n. n\<lparr>i_dindirect := b\<rparr>) v
        in free_root K ino 3 BEAMFS_MAX_IBLOCK_DINDIRECT i_tindirect (\<lambda>b n. n\<lparr>i_tindirect := b\<rparr>) v)"

definition beamfs_evict_inode :: "kenv \<Rightarrow> 'a volume_scheme \<Rightarrow> ino \<Rightarrow> 'a volume_scheme" where
  "beamfs_evict_inode K v ino =
     (let v = beamfs_rsv_discard v ino;
          unlinked = (i_nlink (s_inode v ino) = 0);
          v = (if unlinked
               then
                 let v = beamfs_free_data_blocks K v ino;
                     v = upd_inode ino (\<lambda>n. n\<lparr>i_mode := 0\<rparr>) v
                 in snd (beamfs_write_inode_raw K v ino)
               else v);
          v = v\<lparr>s_icached := (s_icached v)(ino := False)\<rparr>
      in if unlinked then beamfs_free_inode_num K v ino else v)"

subsection \<open>Truncation\<close>

text \<open>The index of the loop is an \<^verbatim>\<open>unsigned int\<close>: the first index freed is cut to 32 bits.\<close>

definition free_direct_from :: "kenv \<Rightarrow> ino \<Rightarrow> nat \<Rightarrow> 'a volume_scheme \<Rightarrow> 'a volume_scheme" where
  "free_direct_from K ino b_first_freed v =
     foldl (\<lambda>v i. let blk = unat (i_direct (s_inode v ino) ! i)
                  in if blk = 0 then v
                     else upd_inode ino (\<lambda>n. n\<lparr>i_direct := (i_direct n)[i := 0]\<rparr>) (beamfs_free_block K v blk (Some ino)))
       v [b_first_freed mod 2 ^ 32..<BEAMFS_DIRECT_BLOCKS]"

text \<open>The single indirect block; \<^const>\<open>False\<close> is an early return. The pointers are collected, cleared, and
  freed after the buffer is unlocked.\<close>

definition free_single_from :: "kenv \<Rightarrow> ino \<Rightarrow> nat \<Rightarrow> 'a volume_scheme \<Rightarrow> bool \<times> 'a volume_scheme" where
  "free_single_from K ino b_first_freed v =
     (let indirect_blk = unat (i_indirect (s_inode v ino))
      in if indirect_blk = 0 then (True, v)
         else case read_verified K v indirect_blk of
                (Inl e, v) \<Rightarrow> (False, v)
              | (Inr ptrs, v) \<Rightarrow>
                  if \<not> s_copy_ok v then (False, v)
                  else
                    let slot_first = (if b_first_freed \<ge> BEAMFS_DIRECT_BLOCKS then b_first_freed - BEAMFS_DIRECT_BLOCKS else 0);
                        slots = filter (\<lambda>j. ind_ptr ptrs j \<noteq> 0) [slot_first..<BEAMFS_INDIRECT_PTRS];
                        v = foldl (\<lambda>v j. clear_slot indirect_blk j v) v slots;
                        v = free_ind_flush K (Some ino) indirect_blk v;
                        v = foldl (\<lambda>v j. beamfs_free_block K v (ind_ptr ptrs j) (Some ino)) v slots
                    in if slot_first = 0
                       then (True, upd_inode ino (\<lambda>n. n\<lparr>i_indirect := 0\<rparr>) (beamfs_free_block K v indirect_blk (Some ino)))
                       else (True, v))"

definition free_root_from ::
    "kenv \<Rightarrow> ino \<Rightarrow> nat \<Rightarrow> nat \<Rightarrow> (vinode \<Rightarrow> u64) \<Rightarrow> (u64 \<Rightarrow> vinode \<Rightarrow> vinode) \<Rightarrow> nat \<Rightarrow> 'a volume_scheme
       \<Rightarrow> 'a volume_scheme" where
  "free_root_from K ino depth base get put b_first_freed v =
     (if get (s_inode v ino) = 0 then v
      else
        let (gone, v) = beamfs_free_ind_range depth K (Some ino) b_first_freed (unat (get (s_inode v ino))) base v
        in if gone then upd_inode ino (put 0) v else v)"

definition beamfs_inline_free_blocks_from :: "kenv \<Rightarrow> 'a volume_scheme \<Rightarrow> ino \<Rightarrow> nat \<Rightarrow> 'a volume_scheme" where
  "beamfs_inline_free_blocks_from K v ino b_first_freed =
     (let v = free_direct_from K ino b_first_freed v;
          (on, v) = free_single_from K ino b_first_freed v
      in if \<not> on then v
         else
           let v = free_root_from K ino 2 BEAMFS_MAX_IBLOCK_INDIRECT i_dindirect (\<lambda>b n. n\<lparr>i_dindirect := b\<rparr>) b_first_freed v;
               v = free_root_from K ino 3 BEAMFS_MAX_IBLOCK_DINDIRECT i_tindirect (\<lambda>b n. n\<lparr>i_tindirect := b\<rparr>) b_first_freed v
           in mark_inode_dirty ino v)"

definition beamfs_phys_is_sane :: "'a volume_scheme \<Rightarrow> nat \<Rightarrow> bool \<times> 'a volume_scheme" where
  "beamfs_phys_is_sane v phys =
     (if phys = 0 then (True, v)
      else if \<not> in_data_region v phys then (False, beamfs_fail v)
      else (True, v))"

text \<open>The block written back synchronously; \<open>io_ok\<close> is whether the device took it.\<close>

definition zero_tail_rewrite ::
    "kenv \<Rightarrow> stack \<Rightarrow> bool \<Rightarrow> 'a volume_scheme \<Rightarrow> ino \<Rightarrow> nat \<Rightarrow> nat \<Rightarrow> nat \<Rightarrow> errno option \<times> 'a volume_scheme" where
  "zero_tail_rewrite K stale io_ok v ino b zero_offset phys =
     (if phys = 0 then (None, v)
      else if \<not> s_scratch_ok v then (Some ENOMEM, v)
      else case s_blk v phys of
             None \<Rightarrow> (Some EIO, v)
           | Some bh \<Rightarrow>
               (case beamfs_inline_decode_block_into_buf K stale v (b_data bh) phys (word_of_nat ino) (word_of_nat b)
                       0 BEAMFS_DATA_INLINE_BYTES True of
                  (Inl e, v) \<Rightarrow> (Some e, v)
                | (Inr scratch, v) \<Rightarrow>
                    let scratch = put_bytes zero_offset (replicate (BEAMFS_DATA_INLINE_BYTES - zero_offset) 0) scratch;
                        block = beamfs_lay_data_payload v (b_data bh) scratch;
                        block = beamfs_inline_stamp_tail_pad K v block scratch (word_of_nat ino) (word_of_nat b);
                        (ret, block) = beamfs_seal_data_block K v block;
                        bh = bh\<lparr>b_data := block\<rparr>
                    in if ret \<noteq> None then (ret, v\<lparr>s_blk := (s_blk v)(phys \<mapsto> bh)\<rparr>)
                       else (if io_ok then None else Some EIO,
                             v\<lparr>s_blk := (s_blk v)(phys \<mapsto> bh\<lparr>b_dirty := False, b_uptodate := io_ok\<rparr>)\<rparr>)))"

definition beamfs_inline_zero_tail_block ::
    "kenv \<Rightarrow> stack \<Rightarrow> bool \<Rightarrow> bool \<Rightarrow> 'a volume_scheme \<Rightarrow> ino \<Rightarrow> nat \<Rightarrow> nat \<Rightarrow> errno option \<times> 'a volume_scheme" where
  "beamfs_inline_zero_tail_block K stale freeing io_ok v ino b zero_offset =
     (if zero_offset \<ge> BEAMFS_DATA_INLINE_BYTES then (None, v)
      else
        let (_, v) = beamfs_inline_lookup_phys K v ino b
        in case beamfs_inline_lookup_or_alloc_phys_new K freeing v ino b of
             (Inl e, v) \<Rightarrow> (Some e, v)
           | (Inr (phys, _), v) \<Rightarrow>
               let (sane, v) = beamfs_phys_is_sane v phys
               in if \<not> sane then (Some EUCLEAN, v) else zero_tail_rewrite K stale io_ok v ino b zero_offset phys)"

text \<open>\<open>prepare\<close> and \<open>newsize\<close> are what \<^verbatim>\<open>setattr_prepare\<close> and \<^verbatim>\<open>inode_newsize_ok\<close> return, \<open>copy\<close> is what
  \<^verbatim>\<open>setattr_copy\<close> does to the inode, \<open>ia_size\<close> is the size asked for, if any.\<close>

definition set_size :: "ino \<Rightarrow> u64 \<Rightarrow> 'a volume_scheme \<Rightarrow> 'a volume_scheme" where
  "set_size ino new_size = upd_inode ino (\<lambda>n. n\<lparr>i_size := new_size\<rparr>)"

definition truncate_down ::
    "kenv \<Rightarrow> stack \<Rightarrow> bool \<Rightarrow> bool \<Rightarrow> 'a volume_scheme \<Rightarrow> ino \<Rightarrow> u64 \<Rightarrow> errno option \<times> 'a volume_scheme" where
  "truncate_down K stale freeing io_ok v ino new_size =
     (let payload = beamfs_block_payload v;
          v = set_size ino new_size v;
          b_first_freed = (unat new_size + payload - 1) div payload;
          tail_off = unat new_size mod payload;
          (ret, v) = (if tail_off \<noteq> 0 \<and> sint new_size > 0
                      then beamfs_inline_zero_tail_block K stale freeing io_ok v ino (unat new_size div payload) tail_off
                      else (None, v))
      in if ret \<noteq> None then (ret, v) else (None, beamfs_inline_free_blocks_from K v ino b_first_freed))"

definition beamfs_inline_setattr ::
    "kenv \<Rightarrow> stack \<Rightarrow> bool \<Rightarrow> bool \<Rightarrow> errno option \<Rightarrow> errno option \<Rightarrow> (vinode \<Rightarrow> vinode) \<Rightarrow> 'a volume_scheme \<Rightarrow> ino
       \<Rightarrow> u64 option \<Rightarrow> errno option \<times> 'a volume_scheme" where
  "beamfs_inline_setattr K stale freeing io_ok prepare newsize copy v ino ia_size =
     (if prepare \<noteq> None then (prepare, v)
      else
        let (ret, v) =
              (case ia_size of
                 None \<Rightarrow> (None, v)
               | Some new_size \<Rightarrow>
                   if newsize \<noteq> None then (newsize, v)
                   else
                     let old_size = i_size (s_inode v ino);
                         (ret, v) =
                           (if sint new_size < sint old_size then truncate_down K stale freeing io_ok v ino new_size
                            else (None, if sint new_size > sint old_size then set_size ino new_size v else v))
                     in if ret \<noteq> None then (ret, v)
                        else (None, upd_inode ino (\<lambda>n. n\<lparr>i_mtime := k_time (s_clk v), i_ctime := k_time (s_clk v)\<rparr>) v))
        in if ret \<noteq> None then (ret, v) else (None, mark_inode_dirty ino (upd_inode ino copy v)))"

end
