(* ===== verification/Truncate_Correct.thy ===== *)
theory Truncate_Correct
  imports Truncate
begin

section \<open>Correctness of truncation and eviction\<close>

text \<open>
  Cutting a tree at an index keeps the map below it, clears it above, and gives back exactly the blocks the
  tree does not name any more; nothing is freed that the file still uses, and nothing of another file.
\<close>

subsection \<open>Steps that give blocks back\<close>

text \<open>The blocks \<open>F\<close> are given back, all of them unless the volume fails on the way.\<close>

definition releases :: "ino set \<Rightarrow> nat set \<Rightarrow> nat set \<Rightarrow> 'a volume_scheme \<Rightarrow> 'a volume_scheme \<Rightarrow> bool" where
  "releases D B F v v' \<longleftrightarrow> alters D B v v'
     \<and> (\<forall>b. b \<notin> F \<longrightarrow> beamfs_block_is_allocated v' b = beamfs_block_is_allocated v b)
     \<and> (\<forall>b. beamfs_block_is_allocated v' b \<longrightarrow> beamfs_block_is_allocated v b)
     \<and> (\<not> s_failed v' \<longrightarrow> (\<forall>b \<in> F. \<not> beamfs_block_is_allocated v' b))"

lemma releasesD:
  assumes "releases D B F v v'"
  shows "alters D B v v'" "b \<notin> F \<Longrightarrow> beamfs_block_is_allocated v' b = beamfs_block_is_allocated v b"
    "beamfs_block_is_allocated v' b \<Longrightarrow> beamfs_block_is_allocated v b"
    "\<not> s_failed v' \<Longrightarrow> b \<in> F \<Longrightarrow> \<not> beamfs_block_is_allocated v' b"
  using assms by (auto simp: releases_def)

lemma releases_refl [simp, intro]: "releases D B {} v v"
  by (simp add: releases_def)

lemma releases_mono: "releases D B F v v' \<Longrightarrow> D \<subseteq> D' \<Longrightarrow> B \<subseteq> B' \<Longrightarrow> releases D' B' F v v'"
  unfolding releases_def using alters_mono by blast

lemma releases_trans:
  assumes "releases D B F v v'" "releases D B G v' v''"
  shows "releases D B (F \<union> G) v v''"
proof -
  note a = releasesD [OF assms(1)] and b = releasesD [OF assms(2)]
  have f: "\<not> s_failed v'" if "\<not> s_failed v''" using altersD(13) [OF b(1)] that by blast
  have "\<not> beamfs_block_is_allocated v'' x" if "\<not> s_failed v''" "x \<in> F \<union> G" for x
    using that a(4) [OF f [OF that(1)], of x] b(3) [of x] b(4) [of x] by blast
  then show ?thesis
    using alters_trans [OF a(1) b(1)] a(2,3) b(2,3) unfolding releases_def by simp
qed

lemma releases_ctx:
  assumes "releases D B F v v'"
  shows "alloc_inv v \<Longrightarrow> alloc_inv v'" "layout_ok v' = layout_ok v" "s_nblocks v' = s_nblocks v" "s_data_start v' = s_data_start v"
  using altersD(1-3) [OF releasesD(1) [OF assms]] alters_layout [OF releasesD(1) [OF assms]] by simp_all

lemma keeps_releases: "keeps v v' \<Longrightarrow> releases D B {} v v'"
  by (simp add: releases_def frame_alters keeps_frame keeps_allocated)

lemma set_blk_releases: "b \<in> B \<Longrightarrow> releases D B {} v (v\<lparr>s_blk := (s_blk v)(b := x)\<rparr>)"
  by (simp add: releases_def alters_def alloc_inv_def)

lemma upd_inode_releases: "i \<in> D \<Longrightarrow> releases D B {} v (upd_inode i f v)"
  using changesD(14) [OF upd_inode_changes [of i D B v f]] by (simp add: releases_def)

lemma free_block_releases:
  fixes v :: "'a volume_scheme"
  assumes "alloc_inv v" "in_data_region v b"
  shows "releases D B {b} v (beamfs_free_block K v b owner)"
proof -
  note f = free_block_frame [OF assms(1), where K = K and b = b and owner = owner]
  have "\<not> beamfs_block_is_allocated (beamfs_free_block K v b owner) b" if "\<not> s_failed v"
    using free_block_allocated [OF assms(1) that, of b K owner b] assms(2) by (simp add: in_data_region_def)
  moreover have "beamfs_free_block K v b owner = v" if "s_failed v" using free_block_other [OF assms(1)] that by simp
  moreover have "beamfs_block_is_allocated (beamfs_free_block K v b owner) x \<Longrightarrow> beamfs_block_is_allocated v x" for x
    using calculation f(3) [of x] by (cases "x = b"; cases "s_failed v") auto
  ultimately show ?thesis
    unfolding releases_def using frame_alters [OF f(1)] f(3) by (cases "s_failed v") auto
qed

lemma free_one_block_releases:
  fixes v :: "'a volume_scheme"
  assumes "alloc_inv v" "in_data_region v b" "b \<noteq> 0"
  shows "releases D B {b} v (snd (beamfs_free_one_block K v b))"
proof (cases "beamfs_block_is_allocated v b")
  case True
  then show ?thesis using free_block_releases [OF assms(1,2)] assms(3) by (simp add: beamfs_free_one_block_def)
next
  case False
  let ?v = "beamfs_log_rs_event_flagged K (k_ktime_ns (s_clk v)) v (word_of_nat b) None 0 239 0"
  have k: "keeps v ?v" by simp
  have "releases D B {b} v ?v"
    using keeps_releases [OF k, of D B] keeps_allocated [OF k, of b] False by (simp add: releases_def)
  then show ?thesis using False assms(3) by (simp add: beamfs_free_one_block_def)
qed

lemma tree_releases:
  assumes "tree_ok d v b" "releases D B F v v'" "tree_nodes d v b \<inter> B = {}" "tree_blocks d v b \<inter> F = {}"
  shows "tree_ok d v' b" "i < 512 ^ d \<Longrightarrow> tree_get d v' b i = tree_get d v b i" "tree_nodes d v' b = tree_nodes d v b"
    "tree_blocks d v' b = tree_blocks d v b"
proof -
  note r = releasesD [OF assms(2)] and c = releases_ctx [OF assms(2)]
  have n: "s_blk v' x = s_blk v x" if "x \<in> tree_nodes d v b" for x
  proof -
    have "x \<in> tree_blocks d v b" using tree_nodes_blocks that by blast
    then have "s_data_start v \<le> x" using tree_blocks_good [OF assms(1)] good_allocated(2) by blast
    then show ?thesis using altersD(11) [OF r(1)] assms(3) that by blast
  qed
  have "beamfs_block_is_allocated v' x" if "x \<in> tree_blocks d v b" for x
    using r(2) [of x] good_allocated(1) [OF tree_blocks_good [OF assms(1) that]] assms(4) that by blast
  then show "tree_ok d v' b" using c(3,4) n by (intro tree_ok_kept [OF assms(1)])
  show "i < 512 ^ d \<Longrightarrow> tree_get d v' b i = tree_get d v b i" "tree_nodes d v' b = tree_nodes d v b"
    "tree_blocks d v' b = tree_blocks d v b"
    using tree_cong [OF n] by simp_all
qed

subsection \<open>Cutting a tree\<close>

text \<open>The tree under \<open>b\<close>, whose first index is \<open>base\<close>, has become the tree under \<open>c\<close>: what lies below \<open>first\<close> stays.\<close>

definition cut_tree :: "nat \<Rightarrow> nat \<Rightarrow> nat \<Rightarrow> 'a volume_scheme \<Rightarrow> nat \<Rightarrow> nat \<Rightarrow> nat set \<Rightarrow> 'a volume_scheme \<Rightarrow> bool" where
  "cut_tree d first base v b c F v' \<longleftrightarrow> F \<subseteq> tree_blocks d v b \<and> releases {} (tree_nodes d v b) F v v' \<and> tree_ok d v' c
     \<and> tree_blocks d v' c = tree_blocks d v b - F \<and> tree_nodes d v' c \<subseteq> tree_nodes d v b
     \<and> (\<forall>i < 512 ^ d. tree_get d v' c i = (if base + i < first then tree_get d v b i else 0))"

lemma cut_treeD:
  assumes "cut_tree d first base v b c F v'"
  shows "F \<subseteq> tree_blocks d v b" "releases {} (tree_nodes d v b) F v v'" "tree_ok d v' c"
    "tree_blocks d v' c = tree_blocks d v b - F" "tree_nodes d v' c \<subseteq> tree_nodes d v b"
    "i < 512 ^ d \<Longrightarrow> tree_get d v' c i = (if base + i < first then tree_get d v b i else 0)"
  using assms by (simp_all add: cut_tree_def)

text \<open>One slot of a block of pointers: the tree below it cut, and the slot cleared or left.\<close>

lemma cut_slot:
  assumes ok: "tree_ok (Suc d) v b" and b: "b \<noteq> 0" "s < 512" and cut: "cut_tree d first base v (node_ptr v b s) c F w"
    and w: "releases {} {b} {} w w'" "readable w' b" "\<forall>t < 512. node_ptr w' b t = (if t = s then c else node_ptr v b t)"
  shows "releases {} (tree_nodes (Suc d) v b) F v w'" "F \<subseteq> tree_blocks (Suc d) v b - {b}" "tree_ok (Suc d) w' b"
    and "tree_blocks (Suc d) w' b = tree_blocks (Suc d) v b - F" "tree_nodes (Suc d) w' b \<subseteq> tree_nodes (Suc d) v b"
    and "t < 512 \<Longrightarrow> i < 512 ^ d \<Longrightarrow> tree_get d w' (node_ptr w' b t) i
      = (if t = s \<and> \<not> base + i < first then 0 else tree_get d v (node_ptr v b t) i)"
proof -
  let ?p = "node_ptr v b"
  note C = cut_treeD [OF cut] and w3 = w(3) [rule_format]
  have okd: "tree_ok d v (?p t)" "b \<notin> tree_blocks d v (?p t)" if "t < 512" for t using ok b(1) that by simp_all
  have dis: "tree_blocks d v (?p t) \<inter> tree_blocks d v (?p u) = {}" if "t < 512" "u < 512" "t \<noteq> u" for t u
    using ok b(1) that by simp
  have sub: "tree_nodes d v (?p s) \<subseteq> tree_nodes (Suc d) v b" "tree_blocks d v (?p s) \<subseteq> tree_blocks (Suc d) v b"
    using b by auto
  show bF: "F \<subseteq> tree_blocks (Suc d) v b - {b}" using C(1) sub(2) okd(2) [OF b(2)] by blast
  have r1: "releases {} (insert b (tree_nodes d v (?p s))) F v w" by (rule releases_mono [OF C(2)]) auto
  have r2: "releases {} (insert b (tree_nodes d v (?p s))) {} w w'" by (rule releases_mono [OF w(1)]) auto
  have r: "releases {} (insert b (tree_nodes d v (?p s))) F v w'" using releases_trans [OF r1 r2] by simp
  then show "releases {} (tree_nodes (Suc d) v b) F v w'" by (rule releases_mono) (use sub b(1) in auto)
  have T: "tree_ok d w' (?p t)" "i < 512 ^ d \<Longrightarrow> tree_get d w' (?p t) i = tree_get d v (?p t) i"
    "tree_nodes d w' (?p t) = tree_nodes d v (?p t)" "tree_blocks d w' (?p t) = tree_blocks d v (?p t)" if t: "t < 512" "t \<noteq> s" for t i
  proof -
    have nb: "tree_nodes d v (?p t) \<inter> insert b (tree_nodes d v (?p s)) = {}"
      using dis [OF t(1) b(2) t(2)] okd(2) [OF t(1)] tree_nodes_blocks [of d v "?p t"] tree_nodes_blocks [of d v "?p s"] by blast
    have "tree_blocks d v (?p t) \<inter> F = {}" using dis [OF t(1) b(2) t(2)] C(1) by blast
    note R = tree_releases [OF okd(1) [OF t(1)] r nb this]
    show "tree_ok d w' (?p t)" "i < 512 ^ d \<Longrightarrow> tree_get d w' (?p t) i = tree_get d v (?p t) i"
      "tree_nodes d w' (?p t) = tree_nodes d v (?p t)" "tree_blocks d w' (?p t) = tree_blocks d v (?p t)"
      using R by simp_all
  qed
  have bc: "b \<notin> tree_blocks d w c" using C(4) okd(2) [OF b(2)] by blast
  then have "tree_nodes d w c \<inter> {b} = {}" using tree_nodes_blocks [of d w c] by blast
  note S = tree_releases [OF C(3) w(1) this]
  have Sc: "tree_ok d w' c" "tree_blocks d w' c = tree_blocks d v (?p s) - F" "tree_nodes d w' c \<subseteq> tree_nodes d v (?p s)"
    using S(1,3,4) C(4,5) by simp_all
  have P: "tree_ok d w' (node_ptr w' b t)" "tree_blocks d w' (node_ptr w' b t) = tree_blocks d v (?p t) - F"
    "tree_nodes d w' (node_ptr w' b t) \<subseteq> tree_nodes d v (?p t)" if t: "t < 512" for t
  proof (atomize (full), cases "t = s")
    case False
    have "tree_blocks d v (?p t) \<inter> F = {}" using dis [OF t b(2) False] C(1) by blast
    then show "tree_ok d w' (node_ptr w' b t) \<and> tree_blocks d w' (node_ptr w' b t) = tree_blocks d v (?p t) - F
        \<and> tree_nodes d w' (node_ptr w' b t) \<subseteq> tree_nodes d v (?p t)"
      using T(1,3,4) [OF t False] w3 [OF t] False by auto
  qed (use Sc w3 [OF t] in simp)
  have bF': "b \<notin> F" using bF by blast
  have "(\<Union>t \<in> {..<512}. tree_blocks d w' (node_ptr w' b t)) = (\<Union>t \<in> {..<512}. tree_blocks d v (?p t)) - F"
    using P(2) by auto
  then show "tree_blocks (Suc d) w' b = tree_blocks (Suc d) v b - F" using b(1) bF' by (simp add: insert_Diff_if)
  have "(\<Union>t \<in> {..<512}. tree_nodes d w' (node_ptr w' b t)) \<subseteq> (\<Union>t \<in> {..<512}. tree_nodes d v (?p t))"
    using P(3) by (intro UN_mono) auto
  then show "tree_nodes (Suc d) w' b \<subseteq> tree_nodes (Suc d) v b" using b(1) by auto
  have "good_block w' b"
    using ok b(1) releases_ctx(3,4) [OF r] releasesD(2) [OF r, of b] bF' by (simp add: good_block_def in_data_region_def)
  moreover have "b \<notin> tree_blocks d w' (node_ptr w' b t)" if "t < 512" for t using P(2) [OF that] okd(2) [OF that] by simp
  moreover have "tree_blocks d w' (node_ptr w' b t) \<inter> tree_blocks d w' (node_ptr w' b u) = {}" if "t < 512" "u < 512" "t \<noteq> u" for t u
    using P(2) [OF that(1)] P(2) [OF that(2)] dis [OF that] by blast
  ultimately show "tree_ok (Suc d) w' b" using w(2) P(1) by simp
  show "tree_get d w' (node_ptr w' b t) i = (if t = s \<and> \<not> base + i < first then 0 else tree_get d v (?p t) i)"
    if t: "t < 512" "i < 512 ^ d" for t i
    using w3 [OF t(1)] T(2) [OF t(1) _ t(2)] S(2) [OF _ t(2)] C(6) [OF t(2)] by (cases "t = s") auto
qed

text \<open>What the loop does with a child, at the last level and above it.\<close>

definition cut_child :: "kenv \<Rightarrow> nat \<Rightarrow> ino option \<Rightarrow> nat \<Rightarrow> nat \<Rightarrow> nat \<Rightarrow> 'a volume_scheme \<Rightarrow> bool \<times> 'a volume_scheme" where
  "cut_child K d inode first b base v =
     (if d = 0 then if base < first then (False, v) else (True, snd (beamfs_free_one_block K v b))
      else beamfs_free_ind_range d K inode first b base v)"

lemma free_ind_slot_cut:
  "free_ind_slot K (beamfs_free_ind_range d K inode first) d blk base first (n, dirt, v) j =
     (let child = node_ptr v blk j
      in if child = 0 then (n, dirt, v)
         else let (gone, v) = cut_child K d inode first child (base + j * 512 ^ d) v
              in if gone then (n, True, clear_slot blk j v) else (n + 1, dirt, v))"
  if "s_blk v blk \<noteq> None"
  using that by (auto simp: free_ind_slot_def cut_child_def node_ptr_def Let_def split: prod.split)

lemma clear_slot_spec:
  assumes "readable v b" "s < 512"
  shows "releases {} {b} {} v (clear_slot b s v)" "readable (clear_slot b s v) b"
    and "t < 512 \<Longrightarrow> node_ptr (clear_slot b s v) b t = (if t = s then 0 else node_ptr v b t)"
proof -
  obtain bh where bh: "s_blk v b = Some bh" "length (b_data bh) = 4096" "b_uptodate bh" using assms(1) by (auto simp: readable_def)
  let ?w = "v\<lparr>s_treecheck := beamfs_tc_clear (word_of_nat b) (word_of_nat s) (s_treecheck v)\<rparr>"
  let ?bh = "bh\<lparr>b_data := put_le64 (8 * s) 0 (b_data bh)\<rparr>"
  have e: "clear_slot b s v = ?w\<lparr>s_blk := (s_blk ?w)(b := Some ?bh)\<rparr>" using bh(1) by (simp add: clear_slot_def Let_def)
  have "keeps v ?w" by (simp add: keeps_def frame_def alloc_inv_def)
  from releases_trans [OF keeps_releases [OF this, of "{}" "{b}"] set_blk_releases [of b "{b}" "{}" ?w "Some ?bh"]]
  show "releases {} {b} {} v (clear_slot b s v)" unfolding e by simp
  show "readable (clear_slot b s v) b" unfolding e using bh(2,3) assms(2) by (simp add: readable_def)
  show "node_ptr (clear_slot b s v) b t = (if t = s then 0 else node_ptr v b t)" if "t < 512"
    unfolding e using ind_ptr_put [OF bh(2) assms(2) that, of 0] bh(1) by (simp add: node_ptr_def)
qed

text \<open>The state of the loop after \<open>m\<close> slots.\<close>

definition cut_loop :: "nat \<Rightarrow> nat \<Rightarrow> nat \<Rightarrow> 'a volume_scheme \<Rightarrow> nat \<Rightarrow> nat \<Rightarrow> nat \<Rightarrow> nat set \<Rightarrow> 'a volume_scheme \<Rightarrow> bool" where
  "cut_loop d first base v b m n F v' \<longleftrightarrow> F \<subseteq> tree_blocks (Suc d) v b - {b} \<and> releases {} (tree_nodes (Suc d) v b) F v v'
     \<and> tree_ok (Suc d) v' b \<and> tree_blocks (Suc d) v' b = tree_blocks (Suc d) v b - F
     \<and> tree_nodes (Suc d) v' b \<subseteq> tree_nodes (Suc d) v b
     \<and> (\<forall>t < 512. \<forall>i < 512 ^ d. tree_get d v' (node_ptr v' b t) i
          = (if t < m \<and> \<not> base + t * 512 ^ d + i < first then 0 else tree_get d v (node_ptr v b t) i))
     \<and> (n = 0 \<longrightarrow> (\<forall>t < m. node_ptr v' b t = 0)) \<and> (first \<le> base \<longrightarrow> n = 0)"

lemma cut_loopD:
  assumes "cut_loop d first base v b m n F v'"
  shows "F \<subseteq> tree_blocks (Suc d) v b - {b}" "releases {} (tree_nodes (Suc d) v b) F v v'" "tree_ok (Suc d) v' b"
    "tree_blocks (Suc d) v' b = tree_blocks (Suc d) v b - F" "tree_nodes (Suc d) v' b \<subseteq> tree_nodes (Suc d) v b"
    "t < 512 \<Longrightarrow> i < 512 ^ d \<Longrightarrow> tree_get d v' (node_ptr v' b t) i
       = (if t < m \<and> \<not> base + t * 512 ^ d + i < first then 0 else tree_get d v (node_ptr v b t) i)"
    "n = 0 \<Longrightarrow> t < m \<Longrightarrow> node_ptr v' b t = 0" "first \<le> base \<Longrightarrow> n = 0"
  using assms by (simp_all add: cut_loop_def)

lemma cut_loop_step:
  assumes L: "cut_loop d first base v b m n F w" and b: "b \<noteq> 0" "m < 512"
    and cut: "cut_tree d first (base + m * 512 ^ d) w (node_ptr w b m) c G u"
    and w: "releases {} {b} {} u u'" "readable u' b" "\<forall>t < 512. node_ptr u' b t = (if t = m then c else node_ptr w b t)"
    and n: "n' = 0 \<Longrightarrow> n = 0 \<and> c = 0" "first \<le> base \<Longrightarrow> n' = n"
  shows "cut_loop d first base v b (Suc m) n' (F \<union> G) u'"
proof -
  note l = cut_loopD [OF L] and s = cut_slot [OF l(3) b cut w]
  have "releases {} (tree_nodes (Suc d) v b) G w u'" by (rule releases_mono [OF s(1)]) (use l(5) in auto)
  from releases_trans [OF l(2) this] have "releases {} (tree_nodes (Suc d) v b) (F \<union> G) v u'" .
  moreover have "F \<union> G \<subseteq> tree_blocks (Suc d) v b - {b}" using l(1,4) s(2) by blast
  moreover have "tree_blocks (Suc d) u' b = tree_blocks (Suc d) v b - (F \<union> G)" using l(4) s(4) by blast
  moreover have "tree_nodes (Suc d) u' b \<subseteq> tree_nodes (Suc d) v b" using l(5) s(5) by blast
  moreover have "tree_get d u' (node_ptr u' b t) i
      = (if t < Suc m \<and> \<not> base + t * 512 ^ d + i < first then 0 else tree_get d v (node_ptr v b t) i)"
    if "t < 512" "i < 512 ^ d" for t i
    using s(6) [OF that] l(6) [OF that] by (cases "t = m") auto
  moreover have "node_ptr u' b t = 0" if "n' = 0" "t < Suc m" for t
    using n(1) that w(3) [rule_format, of t] l(7) [of t] b(2) by (cases "t = m") auto
  moreover have "first \<le> base \<longrightarrow> n' = 0" using n(2) l(8) by simp
  ultimately show ?thesis unfolding cut_loop_def using s(3) by blast
qed

lemma cut_child_step:
  assumes L: "cut_loop d first base v b m n F w" and b: "b \<noteq> 0" "m < 512"
    and sub: "\<And>c g u. c \<noteq> 0 \<Longrightarrow> tree_ok d w c \<Longrightarrow> cut_child K d inode first c (base + m * 512 ^ d) w = (g, u)
      \<Longrightarrow> (\<exists>G. cut_tree d first (base + m * 512 ^ d) w c (if g then 0 else c) G u) \<and> (first \<le> base + m * 512 ^ d \<longrightarrow> g)"
    and step: "free_ind_slot K (beamfs_free_ind_range d K inode first) d b base first (n, dirt, w) m = (n', dirt', w')"
  shows "\<exists>G. cut_loop d first base v b (Suc m) n' G w'"
proof -
  note l = cut_loopD [OF L]
  let ?c = "node_ptr w b m"
  have rd: "readable w b" and okc: "tree_ok d w ?c" and nb: "b \<notin> tree_blocks d w ?c" using l(3) b by auto
  then have some: "s_blk w b \<noteq> None" by (auto simp: readable_def)
  note st = step [unfolded free_ind_slot_cut [OF some]]
  show ?thesis
  proof (cases "?c = 0")
    case True
    have "n' = n" "w' = w" using st True by simp_all
    moreover have "cut_tree d first (base + m * 512 ^ d) w ?c 0 {} w" using True by (simp add: cut_tree_def)
    moreover have "\<forall>t < 512. node_ptr w b t = (if t = m then 0 else node_ptr w b t)" using True by simp
    ultimately show ?thesis using cut_loop_step [OF L b _ releases_refl rd, of 0 "{}" n] by auto
  next
    case False
    obtain g u where u: "cut_child K d inode first ?c (base + m * 512 ^ d) w = (g, u)"
      by (cases "cut_child K d inode first ?c (base + m * 512 ^ d) w")
    from sub [OF False okc u] obtain G where G: "cut_tree d first (base + m * 512 ^ d) w ?c (if g then 0 else ?c) G u"
      and all: "first \<le> base + m * 512 ^ d \<Longrightarrow> g" by blast
    have "s_blk u b = s_blk w b"
      using altersD(11) [OF releasesD(1) [OF cut_treeD(2) [OF G]], of b] nb tree_nodes_blocks [of d w ?c] l(3) b(1)
      by (auto simp: good_block_def in_data_region_def)
    then have ub: "readable u b" "\<And>t. node_ptr u b t = node_ptr w b t" using rd by (simp_all add: readable_def node_ptr_def)
    show ?thesis
    proof (cases g)
      case True
      then have e: "n' = n" "w' = clear_slot b m u" using st u False by simp_all
      note cs = clear_slot_spec [OF ub(1) b(2)]
      have "\<forall>t < 512. node_ptr (clear_slot b m u) b t = (if t = m then if g then 0 else ?c else node_ptr w b t)"
        using cs(3) ub(2) True by simp
      from cut_loop_step [OF L b G cs(1,2) this, of n] show ?thesis using True e by auto
    next
      case gf: False
      then have e: "n' = n + 1" "w' = u" using st u False by simp_all
      have "\<forall>t < 512. node_ptr u b t = (if t = m then if g then 0 else ?c else node_ptr w b t)" using ub(2) gf by simp
      moreover have "\<not> first \<le> base" using all gf by (auto intro: trans_le_add1)
      ultimately show ?thesis using cut_loop_step [OF L b G releases_refl ub(1), of "n + 1"] e by auto
    qed
  qed
qed

lemma cut_loop_fold:
  fixes v :: "'a volume_scheme"
  assumes v: "alloc_inv v" "layout_ok v" "tree_ok (Suc d) v b" "b \<noteq> 0"
    and sub: "\<And>(w :: 'a volume_scheme) c base' g u. alloc_inv w \<Longrightarrow> layout_ok w \<Longrightarrow> c \<noteq> 0 \<Longrightarrow> tree_ok d w c
      \<Longrightarrow> cut_child K d inode first c base' w = (g, u)
      \<Longrightarrow> (\<exists>G. cut_tree d first base' w c (if g then 0 else c) G u) \<and> (first \<le> base' \<longrightarrow> g)"
    and m: "m \<le> 512"
    and fold: "foldl (free_ind_slot K (beamfs_free_ind_range d K inode first) d b base first) (0, False, v) [0..<m] = (n, dirt, w)"
  shows "\<exists>F. cut_loop d first base v b m n F w"
  using m fold
proof (induction m arbitrary: n dirt w)
  case 0
  then show ?case using v(3) by (auto simp: cut_loop_def intro!: exI [of _ "{}"])
next
  case (Suc m)
  obtain n' dirt' w' where e: "foldl (free_ind_slot K (beamfs_free_ind_range d K inode first) d b base first) (0, False, v) [0..<m]
      = (n', dirt', w')" by (metis prod_cases3)
  from Suc.IH [OF _ e] Suc.prems(1) obtain F where F: "cut_loop d first base v b m n' F w'" by auto
  have c: "alloc_inv w'" "layout_ok w'" using releases_ctx [OF cut_loopD(2) [OF F]] v(1,2) by simp_all
  show ?case
    by (rule cut_child_step [OF F v(4) _ sub [OF c]]) (use Suc.prems e in simp_all)
qed

text \<open>The buffer after the loop: the parity follows it, and it is marked.\<close>

lemma flush_spec:
  assumes v: "layout_ok v" "s_data_start v \<le> b" "readable v b"
  shows "releases {} {b} {} v (free_ind_flush K inode b v)" "readable (free_ind_flush K inode b v) b"
    "node_ptr (free_ind_flush K inode b v) b t = node_ptr v b t"
proof -
  obtain bh where bh: "s_blk v b = Some bh" "length (b_data bh) = 4096" "b_uptodate bh" using v(3) by (auto simp: readable_def)
  let ?w = "beamfs_ind_parity_update K v b inode"
  have k: "keeps v ?w" by (rule ind_parity_update_keeps [OF v(1)])
  have wb: "s_blk ?w b = Some bh" using frameD(21) [OF keeps_frame [OF k] v(2)] bh(1) by simp
  let ?u = "?w\<lparr>s_blk := (s_blk ?w)(b := Some (mark_buffer_dirty bh))\<rparr>"
  have e: "mmb_mark_buffer_dirty b ?w = ?u" using wb by (simp add: mmb_mark_buffer_dirty_def)
  have r: "releases {} {b} {} v ?u"
    using releases_trans [OF keeps_releases [OF k, of "{}" "{b}"] set_blk_releases [of b "{b}" "{}" ?w]] by simp
  have f: "free_ind_flush K inode b v = (case inode of None \<Rightarrow> ?u | Some ino \<Rightarrow> mark_inode_dirty ino ?u)"
    unfolding free_ind_flush_def Let_def e ..
  have md: "s_blk (mark_inode_dirty ino x) = s_blk x" for ino and x :: "'a volume_scheme" by (simp add: mark_inode_dirty_def)
  have "releases {} {b} {} v (mark_inode_dirty ino ?u)" for ino
    using releases_trans [OF r keeps_releases [OF mark_inode_dirty_keeps [of ?u ino], of "{}" "{b}"]] by simp
  then show "releases {} {b} {} v (free_ind_flush K inode b v)" unfolding f using r by (cases inode) auto
  have "s_blk (free_ind_flush K inode b v) b = Some (mark_buffer_dirty bh)" unfolding f by (simp add: md split: option.split)
  then show "readable (free_ind_flush K inode b v) b" "node_ptr (free_ind_flush K inode b v) b t = node_ptr v b t"
    using bh by (simp_all add: readable_def node_ptr_def mark_buffer_dirty_def)
qed

lemma cut_loop_flush:
  assumes L: "cut_loop d first base v b m n F w" and v: "layout_ok v" "b \<noteq> 0"
  shows "cut_loop d first base v b m n F (if dirt then free_ind_flush K inode b w else w)"
proof (cases dirt)
  case True
  note l = cut_loopD [OF L]
  have b: "readable w b" "s_data_start w \<le> b" "b \<notin> tree_blocks d w (node_ptr w b t)" if "t < 512" for t
    using l(3) v(2) that by (auto simp: good_block_def in_data_region_def)
  have lw: "layout_ok w" using releases_ctx(2) [OF l(2)] v(1) by simp
  note f = flush_spec [OF lw b(2,1), of 0 0, simplified, where K = K and inode = inode]
  let ?u = "free_ind_flush K inode b w"
  have r: "releases {} (tree_nodes (Suc d) v b) F v ?u"
    using releases_trans [OF l(2) releases_mono [OF f(1), of "{}" "tree_nodes (Suc d) v b"]] v(2) by simp
  have T: "tree_ok d ?u (node_ptr w b t)" "i < 512 ^ d \<Longrightarrow> tree_get d ?u (node_ptr w b t) i = tree_get d w (node_ptr w b t) i"
    "tree_nodes d ?u (node_ptr w b t) = tree_nodes d w (node_ptr w b t)"
    "tree_blocks d ?u (node_ptr w b t) = tree_blocks d w (node_ptr w b t)" if t: "t < 512" for t i
  proof -
    have "tree_ok d w (node_ptr w b t)" using l(3) v(2) t by simp
    note R = tree_releases [OF this f(1)]
    show "tree_ok d ?u (node_ptr w b t)" "i < 512 ^ d \<Longrightarrow> tree_get d ?u (node_ptr w b t) i = tree_get d w (node_ptr w b t) i"
      "tree_nodes d ?u (node_ptr w b t) = tree_nodes d w (node_ptr w b t)"
      "tree_blocks d ?u (node_ptr w b t) = tree_blocks d w (node_ptr w b t)"
      using R b(3) [OF t] tree_nodes_blocks [of d w "node_ptr w b t"] by auto
  qed
  have "good_block ?u b"
    using l(3) v(2) releases_ctx(3,4) [OF f(1)] releasesD(2) [OF f(1), of b] by (auto simp: good_block_def in_data_region_def)
  then have "tree_ok (Suc d) ?u b" using l(3) v(2) f(2,3) T(1,4) by simp
  moreover have "tree_blocks (Suc d) ?u b = tree_blocks (Suc d) w b" "tree_nodes (Suc d) ?u b = tree_nodes (Suc d) w b"
    using T(3,4) f(3) by simp_all
  ultimately show ?thesis using True r l(1,4,5,6,7,8) T(2) f(3) by (simp add: cut_loop_def)
qed (use L in simp)

lemma good_pos: "alloc_inv v \<Longrightarrow> good_block v b \<Longrightarrow> b \<noteq> 0"
  by (auto simp: alloc_inv_def good_block_def in_data_region_def)

text \<open>The loop done and something left.\<close>

lemma cut_loop_some:
  assumes L: "cut_loop d first base v b 512 n F w" and "b \<noteq> 0"
  shows "cut_tree (Suc d) first base v b b F w"
proof -
  note l = cut_loopD [OF L]
  have "tree_get (Suc d) w b i = (if base + i < first then tree_get (Suc d) v b i else 0)" if i: "i < 512 ^ Suc d" for i
  proof -
    have "i div 512 ^ d * 512 ^ d + i mod 512 ^ d = i" by (rule div_mult_mod_eq)
    then have "base + i div 512 ^ d * 512 ^ d + i mod 512 ^ d = base + i" by linarith
    then show ?thesis using l(6) [OF slot_bounds(1) [OF i] slot_bounds(2) [of i d]] slot_bounds(1) [OF i] assms(2) by simp
  qed
  then show ?thesis using l(1-5) by (auto simp: cut_tree_def)
qed

text \<open>The loop done and nothing left: the block itself is given back.\<close>

lemma cut_loop_none:
  fixes w :: "'a volume_scheme"
  assumes L: "cut_loop d first base v b 512 0 F w" and v: "alloc_inv v" "b \<noteq> 0"
  shows "cut_tree (Suc d) first base v b 0 (tree_blocks (Suc d) v b) (snd (beamfs_free_one_block K (bforget b w) b))"
proof -
  note l = cut_loopD [OF L] and C = cut_treeD [OF cut_loop_some [OF L v(2)]]
  let ?u = "bforget b w"
  have z: "node_ptr w b t = 0" if "t < 512" for t using l(7) [of t] that by simp
  have g: "good_block w b" using l(3) v(2) by simp
  have u: "releases {} (tree_nodes (Suc d) v b) {} w ?u"
    unfolding bforget_def by (rule set_blk_releases) (use v(2) in simp)
  have i: "alloc_inv ?u" "in_data_region ?u b"
    using releases_ctx [OF l(2)] releases_ctx [OF u] v(1) g by (simp_all add: good_block_def in_data_region_def)
  have r: "releases {} (tree_nodes (Suc d) v b) (F \<union> {} \<union> {b}) v (snd (beamfs_free_one_block K ?u b))"
    by (rule releases_trans [OF releases_trans [OF l(2) u] free_one_block_releases [OF i v(2)]])
  have "tree_blocks (Suc d) w b = {b}" using v(2) z by auto
  then have "F \<union> {} \<union> {b} = tree_blocks (Suc d) v b" using l(1,4) by blast
  moreover have "tree_get (Suc d) w b i = 0" if "i < 512 ^ Suc d" for i using z slot_bounds(1) [OF that] by simp
  ultimately show ?thesis using r C(6) by (auto simp: cut_tree_def split: if_splits)
qed

lemma cut_child_cut:
  fixes v :: "'a volume_scheme"
  assumes "alloc_inv v" "layout_ok v" "b \<noteq> 0" "tree_ok d v b" "cut_child K d inode first b base v = (g, v')"
  shows "(\<exists>F. cut_tree d first base v b (if g then 0 else b) F v') \<and> (first \<le> base \<longrightarrow> g)"
  using assms
proof (induction d arbitrary: v b base g v')
  case 0
  have d: "in_data_region v b" using 0 by (simp add: good_block_def)
  show ?case
  proof (cases "base < first")
    case True
    then have "cut_tree 0 first base v b (if g then 0 else b) {} v'" using 0 by (auto simp: cut_child_def cut_tree_def)
    then show ?thesis using True by auto
  next
    case False
    then have e: "g" "v' = snd (beamfs_free_one_block K v b)" using 0(5) by (simp_all add: cut_child_def)
    have "cut_tree 0 first base v b (if g then 0 else b) {b} v'"
      using free_one_block_releases [OF 0(1) d 0(3), of "{}" "{}" K] False 0(3) e by (simp add: cut_tree_def)
    then show ?thesis using e(1) by auto
  qed
next
  case (Suc d)
  note a = Suc.prems
  have e: "beamfs_free_ind_range (Suc d) K inode first b base v = (g, v')" using a(5) by (simp add: cut_child_def)
  obtain bh where bh: "s_blk v b = Some bh" using a(3,4) by (auto simp: readable_def)
  show ?case
  proof (cases "base + 512 ^ d * 512 \<le> first")
    case True
    then have "g = False" "v' = v" using e a(3) by simp_all
    moreover have "cut_tree (Suc d) first base v b b {} v" using True a(4) by (auto simp: cut_tree_def)
    moreover have "\<not> first \<le> base" using True by (auto simp: not_le intro: less_le_trans [of base "base + 512 ^ d * 512"])
    ultimately show ?thesis by auto
  next
    case False
    obtain n dirt w where f: "foldl (free_ind_slot K (beamfs_free_ind_range d K inode first) d b base first) (0, False, v) [0..<512]
        = (n, dirt, w)" by (metis prod_cases3)
    from cut_loop_fold [OF a(1,2,4,3) Suc.IH _ f] obtain F where "cut_loop d first base v b 512 n F w" by blast
    from cut_loop_flush [OF this a(2,3), of dirt K inode]
    have L: "cut_loop d first base v b 512 n F (if dirt then free_ind_flush K inode b w else w)" .
    then obtain u where u: "u = (if dirt then free_ind_flush K inode b w else w)" "cut_loop d first base v b 512 n F u" by blast
    have r: "(if n = 0 then (True, snd (beamfs_free_one_block K (bforget b u) b)) else (False, u)) = (g, v')"
      using e False a(3) bh f u(1) by (cases dirt; cases "n = 0") (simp_all add: beamfs_bread_def Let_def)
    show ?thesis
    proof (cases "n = 0")
      case True
      then show ?thesis using cut_loop_none [of d first base v b F u K] u(2) a(1,3) r by auto
    next
      case False
      then show ?thesis using cut_loop_some [OF u(2) a(3)] cut_loopD(8) [OF u(2)] r by auto
    qed
  qed
qed

lemma free_ind_range_cut:
  fixes v :: "'a volume_scheme"
  assumes "alloc_inv v" "layout_ok v" "b \<noteq> 0" "tree_ok (Suc d) v b" "beamfs_free_ind_range (Suc d) K inode first b base v = (g, v')"
  shows "\<exists>F. cut_tree (Suc d) first base v b (if g then 0 else b) F v'" "first \<le> base \<Longrightarrow> g"
  using cut_child_cut [OF assms(1-4), of K inode first base g v'] assms(5) by (simp_all add: cut_child_def)

subsection \<open>Cutting a file\<close>

text \<open>The map of a file cut down to the indices of \<open>keep\<close>, tree by tree.\<close>

definition file_cut :: "ino \<Rightarrow> (nat \<Rightarrow> nat \<Rightarrow> bool) \<Rightarrow> nat set \<Rightarrow> 'a volume_scheme \<Rightarrow> 'a volume_scheme \<Rightarrow> bool" where
  "file_cut ino keep F v v' \<longleftrightarrow> releases {ino} (file_nodes v ino) F v v' \<and> F \<subseteq> file_blocks v ino \<and> file_ok v' ino
     \<and> (\<forall>k < 15. fblocks v' ino k = fblocks v ino k - F \<and> fnodes v' ino k \<subseteq> fnodes v ino k
          \<and> (\<forall>i < 512 ^ file_depth k. ftree v' ino k i = (if keep k i then ftree v ino k i else 0)))
     \<and> i_size (s_inode v' ino) = i_size (s_inode v ino) \<and> i_mode (s_inode v' ino) = i_mode (s_inode v ino)
     \<and> i_nlink (s_inode v' ino) = i_nlink (s_inode v ino)"

lemma file_cutD:
  assumes "file_cut ino keep F v v'"
  shows "releases {ino} (file_nodes v ino) F v v'" "F \<subseteq> file_blocks v ino" "file_ok v' ino"
    "k < 15 \<Longrightarrow> fblocks v' ino k = fblocks v ino k - F" "k < 15 \<Longrightarrow> fnodes v' ino k \<subseteq> fnodes v ino k"
    "k < 15 \<Longrightarrow> i < 512 ^ file_depth k \<Longrightarrow> ftree v' ino k i = (if keep k i then ftree v ino k i else 0)"
    "i_size (s_inode v' ino) = i_size (s_inode v ino)" "i_mode (s_inode v' ino) = i_mode (s_inode v ino)"
    "i_nlink (s_inode v' ino) = i_nlink (s_inode v ino)"
  using assms by (simp_all add: file_cut_def)

lemma file_cut_cong:
  "file_cut ino keep F v v' \<Longrightarrow> (\<And>k i. k < 15 \<Longrightarrow> i < 512 ^ file_depth k \<Longrightarrow> keep k i = keep' k i) \<Longrightarrow> file_cut ino keep' F v v'"
  by (simp add: file_cut_def)

lemma file_cut_nodes: "file_cut ino keep F v v' \<Longrightarrow> file_nodes v' ino \<subseteq> file_nodes v ino"
  using file_cutD(5) [of ino keep F v v'] by (fastforce simp: file_nodes_def)

lemma file_cut_blocks: "file_cut ino keep F v v' \<Longrightarrow> file_blocks v' ino = file_blocks v ino - F"
  using file_cutD(4) [of ino keep F v v'] by (auto simp: file_blocks_def)

lemma file_cut_trans:
  assumes "file_cut ino keep F v w" "file_cut ino keep' G w v'"
  shows "file_cut ino (\<lambda>k i. keep k i \<and> keep' k i) (F \<union> G) v v'"
proof -
  note a = file_cutD [OF assms(1)] and b = file_cutD [OF assms(2)]
  have "releases {ino} (file_nodes v ino) (F \<union> G) v v'"
    by (rule releases_trans [OF a(1) releases_mono [OF b(1)]]) (use file_cut_nodes [OF assms(1)] in auto)
  moreover have "F \<union> G \<subseteq> file_blocks v ino" using a(2) b(2) file_cut_blocks [OF assms(1)] by blast
  moreover have "fblocks v' ino k = fblocks v ino k - (F \<union> G)" "fnodes v' ino k \<subseteq> fnodes v ino k" if "k < 15" for k
    using a(4,5) [OF that] b(4,5) [OF that] by blast+
  ultimately show ?thesis using b(3) a(6-9) b(6-9) by (simp add: file_cut_def)
qed

lemma file_cut_ctx:
  assumes "file_cut ino keep F v v'" "alloc_inv v" "layout_ok v"
  shows "alloc_inv v'" "layout_ok v'" "file_ok v' ino" "s_copy_ok v' = s_copy_ok v"
  using releases_ctx(1,2) [OF file_cutD(1) [OF assms(1)]] assms(2,3) file_cutD(3) [OF assms(1)]
    altersD(7) [OF releasesD(1) [OF file_cutD(1) [OF assms(1)]]] by simp_all

lemma file_cut_same: "file_ok v ino \<Longrightarrow> file_cut ino (\<lambda>k i. True) {} v v"
  by (simp add: file_cut_def)

text \<open>One tree of the file cut, and its root set to what is left of it.\<close>

lemma file_cut_tree:
  assumes ok: "file_ok v ino" and k: "k < 15" and cut: "cut_tree (file_depth k) first base v (file_root (s_inode v ino) k) c F w"
    and w: "releases {ino} {} {} w v'"
    and r: "\<forall>l < 15. file_root (s_inode v' ino) l = (if l = k then c else file_root (s_inode w ino) l)"
      "length (i_direct (s_inode v' ino)) = length (i_direct (s_inode w ino))" "i_size (s_inode v' ino) = i_size (s_inode w ino)"
      "i_mode (s_inode v' ino) = i_mode (s_inode w ino)" "i_nlink (s_inode v' ino) = i_nlink (s_inode w ino)"
  shows "file_cut ino (\<lambda>l i. l = k \<longrightarrow> base + i < first) F v v'"
proof -
  note C = cut_treeD [OF cut]
  have si: "same_inode (s_inode v ino) (s_inode w ino)" using altersD(5) [OF releasesD(1) [OF C(2)], of ino] by simp
  have rt: "file_root (s_inode v' ino) l = (if l = k then c else file_root (s_inode v ino) l)" if "l < 15" for l
    using r(1) that same_root [OF touchedI(2) [OF si], of l] by simp
  have rel: "releases {ino} (fnodes v ino k) F v v'"
    using releases_trans [OF releases_mono [OF C(2), of "{ino}"] releases_mono [OF w, of "{ino}" "fnodes v ino k"]]
    by (simp add: fnodes_def)
  have F: "F \<subseteq> fblocks v ino k" using C(1) by (simp add: fblocks_def)
  have O: "tree_ok (file_depth l) v' (file_root (s_inode v' ino) l) \<and> fblocks v' ino l = fblocks v ino l - F \<and> fnodes v' ino l \<subseteq> fnodes v ino l
      \<and> (\<forall>i < 512 ^ file_depth l. ftree v' ino l i = ftree v ino l i)" if l: "l < 15" "l \<noteq> k" for l
  proof -
    have d: "fblocks v ino l \<inter> fblocks v ino k = {}" by (rule file_okD(3) [OF ok l(1) k l(2)])
    then have "fnodes v ino l \<inter> fnodes v ino k = {}" "fblocks v ino l \<inter> F = {}"
      using fnodes_fblocks [of v ino l] fnodes_fblocks [of v ino k] F by blast+
    note T = tree_releases [OF file_okD(2) [OF ok l(1)] rel this [unfolded fnodes_def [of v ino l] fblocks_def [of v ino l]]]
    show ?thesis using T rt [OF l(1)] l(2) \<open>fblocks v ino l \<inter> F = {}\<close> by (auto simp: fblocks_def fnodes_def ftree_def)
  qed
  note S = tree_releases [OF C(3) w, simplified]
  have K: "tree_ok (file_depth k) v' (file_root (s_inode v' ino) k)" "fblocks v' ino k = fblocks v ino k - F"
    "fnodes v' ino k \<subseteq> fnodes v ino k"
    "i < 512 ^ file_depth k \<Longrightarrow> ftree v' ino k i = (if base + i < first then ftree v ino k i else 0)" for i
    using S C(4,5,6) rt [OF k] by (simp_all add: fblocks_def fnodes_def ftree_def)
  have blk: "fblocks v' ino l = fblocks v ino l - F" if "l < 15" for l using O [OF that] K(2) by (cases "l = k") auto
  have "fblocks v' ino l \<inter> fblocks v' ino m = {}" if "l < 15" "m < 15" "l \<noteq> m" for l m
    using blk [OF that(1)] blk [OF that(2)] file_okD(3) [OF ok that] by blast
  moreover have "tree_ok (file_depth l) v' (file_root (s_inode v' ino) l)" if "l < 15" for l using O [OF that] K(1) by (cases "l = k") auto
  ultimately have "file_ok v' ino" using r(2) same_inodeD(6) [OF si] file_okD(1) [OF ok] by (simp add: file_ok_def)
  moreover have "releases {ino} (file_nodes v ino) F v v'" by (rule releases_mono [OF rel]) (use k in \<open>auto simp: file_nodes_def\<close>)
  moreover have "F \<subseteq> file_blocks v ino" using F k by (auto simp: file_blocks_def)
  moreover have "fnodes v' ino l \<subseteq> fnodes v ino l" if "l < 15" for l using O [OF that] K(3) by (cases "l = k") auto
  moreover have "ftree v' ino l i = (if l = k \<longrightarrow> base + i < first then ftree v ino l i else 0)" if "l < 15" "i < 512 ^ file_depth l" for l i
    using O [OF that(1)] K(4) that(2) by (cases "l = k") auto
  ultimately show ?thesis using blk r(3-5) same_inodeD [OF si] by (simp add: file_cut_def)
qed

text \<open>A direct block.\<close>

lemma direct_root: "length (i_direct n) = 12 \<Longrightarrow> i < 12 \<Longrightarrow>
    file_root (n\<lparr>i_direct := (i_direct n)[i := 0]\<rparr>) l = (if l = i then 0 else file_root n l)"
  by (simp add: file_root_def nth_list_update)

lemma direct_cut:
  fixes v :: "'a volume_scheme" and K :: kenv and owner :: "ino option"
  assumes v: "file_ok v ino" "alloc_inv v" "i < 12"
  defines "blk \<equiv> unat (i_direct (s_inode v ino) ! i)"
  defines "w \<equiv> if blk = 0 then v else beamfs_free_block K v blk owner"
  shows "file_cut ino (\<lambda>l j. l \<noteq> i) (if blk = 0 then {} else {blk}) v
    (upd_inode ino (\<lambda>n. n\<lparr>i_direct := (i_direct n)[i := 0]\<rparr>) w)"
proof -
  have b: "file_root (s_inode v ino) i = blk" "file_depth i = 0" using v(3) by (simp_all add: file_root_def file_depth_def blk_def)
  have t: "blk = 0 \<or> good_block v blk" using file_okD(2) [OF v(1), of i] v(3) b by simp
  have "releases {} {} (if blk = 0 then {} else {blk}) v w"
    using free_block_releases [OF v(2), of blk "{}" "{}" K owner] t by (auto simp: w_def good_block_def)
  then have cut: "cut_tree (file_depth i) 0 0 v (file_root (s_inode v ino) i) 0 (if blk = 0 then {} else {blk}) w"
    by (simp add: cut_tree_def b)
  have "same_inode (s_inode v ino) (s_inode w ino)" using altersD(5) [OF releasesD(1) [OF cut_treeD(2) [OF cut]], of ino] by simp
  then have l: "length (i_direct (s_inode w ino)) = 12" using same_inodeD(6) file_okD(1) [OF v(1)] by metis
  have "file_cut ino (\<lambda>l j. l = i \<longrightarrow> 0 + j < 0) (if blk = 0 then {} else {blk}) v
      (upd_inode ino (\<lambda>n. n\<lparr>i_direct := (i_direct n)[i := 0]\<rparr>) w)"
    by (rule file_cut_tree [OF v(1) _ cut upd_inode_releases]) (use v(3) direct_root [OF l v(3)] in simp_all)
  then show ?thesis by (rule file_cut_cong) auto
qed

lemma free_direct_step_cut:
  fixes v :: "'a volume_scheme"
  assumes v: "file_ok v ino" "alloc_inv v" "layout_ok v" and "\<forall>i \<in> set is. i < 12"
  shows "\<exists>F. file_cut ino (\<lambda>l j. l \<notin> set is) F v
    (foldl (\<lambda>v i. let blk = unat (i_direct (s_inode v ino) ! i)
                  in if blk = 0 then v
                     else upd_inode ino (\<lambda>n. n\<lparr>i_direct := (i_direct n)[i := 0]\<rparr>) (beamfs_free_block K v blk owner)) v is)"
  using assms
proof (induction "is" arbitrary: v)
  case Nil
  then show ?case using file_cut_same [of v ino] by (auto intro: file_cut_cong)
next
  case (Cons i "is")
  let ?blk = "unat (i_direct (s_inode v ino) ! i)"
  let ?w = "if ?blk = 0 then v else upd_inode ino (\<lambda>n. n\<lparr>i_direct := (i_direct n)[i := 0]\<rparr>) (beamfs_free_block K v ?blk owner)"
  have i: "i < 12" using Cons.prems(4) by simp
  have "\<exists>F. file_cut ino (\<lambda>l j. l \<noteq> i) F v ?w"
  proof (cases "?blk = 0")
    case True
    then have "ftree v ino i j = 0" for j using i by (simp add: ftree_def file_depth_def file_root_def)
    then have "file_cut ino (\<lambda>l j. l \<noteq> i) {} v v" using Cons.prems(1) by (simp add: file_cut_def)
    then show ?thesis using True by auto
  next
    case False
    then show ?thesis using direct_cut [OF Cons.prems(1,2) i, of K owner] by auto
  qed
  then obtain F where F: "file_cut ino (\<lambda>l j. l \<noteq> i) F v ?w" by blast
  note c = file_cut_ctx [OF F Cons.prems(2,3)]
  from Cons.IH [OF c(3,1,2)] Cons.prems(4) file_cut_trans [OF F] obtain G
    where "file_cut ino (\<lambda>l j. l \<noteq> i \<and> l \<notin> set is) (F \<union> G) v (foldl (\<lambda>v i. let blk = unat (i_direct (s_inode v ino) ! i)
                  in if blk = 0 then v
                     else upd_inode ino (\<lambda>n. n\<lparr>i_direct := (i_direct n)[i := 0]\<rparr>) (beamfs_free_block K v blk owner)) ?w is)"
    by fastforce
  then have "file_cut ino (\<lambda>l j. l \<notin> set (i # is)) (F \<union> G) v (foldl (\<lambda>v i. let blk = unat (i_direct (s_inode v ino) ! i)
                  in if blk = 0 then v
                     else upd_inode ino (\<lambda>n. n\<lparr>i_direct := (i_direct n)[i := 0]\<rparr>) (beamfs_free_block K v blk owner)) ?w is)"
    by (rule file_cut_cong) auto
  then show ?case by (auto simp: Let_def)
qed

text \<open>A tree with a root of its own.\<close>

lemma root_cut:
  fixes v :: "'a volume_scheme"
  assumes v: "file_ok v ino" and acc: "root_access k get put"
    and cut: "cut_tree (file_depth k) first base v (file_root (s_inode v ino) k) c F w"
    and c: "c = 0 \<or> c = file_root (s_inode v ino) k"
  shows "file_cut ino (\<lambda>l i. l = k \<longrightarrow> base + i < first) F v (if c = 0 then upd_inode ino (put 0) w else w)"
proof -
  have k: "k < 15" "12 \<le> k" using acc by (simp_all add: root_access_def)
  have si: "same_inode (s_inode v ino) (s_inode w ino)" using altersD(5) [OF releasesD(1) [OF cut_treeD(2) [OF cut]], of ino] by simp
  have rw: "file_root (s_inode w ino) l = file_root (s_inode v ino) l" for l by (rule same_root [OF touchedI(2) [OF si]])
  have "releases {ino} {} {} w (if c = 0 then upd_inode ino (put 0) w else w)" using upd_inode_releases [of ino "{ino}"] by auto
  then show ?thesis
    by (rule file_cut_tree [OF v k(1) cut]) (use acc c rw in \<open>auto simp: root_access_def\<close>)
qed

lemma free_root_from_cut:
  fixes v :: "'a volume_scheme"
  assumes v: "file_ok v ino" "alloc_inv v" "layout_ok v" and acc: "root_access k get put" and d: "file_depth k = Suc d"
  shows "\<exists>F. file_cut ino (\<lambda>l i. l = k \<longrightarrow> base + i < first) F v (free_root_from K ino (Suc d) base get put first v)"
proof -
  let ?b = "file_root (s_inode v ino) k"
  have g: "unat (get (s_inode v ino)) = ?b" and k: "k < 15" using acc by (simp_all add: root_access_def)
  show ?thesis
  proof (cases "get (s_inode v ino) = 0")
    case True
    then have "?b = 0" using g by simp
    then have "ftree v ino k i = 0" for i by (simp add: ftree_def)
    then have "file_cut ino (\<lambda>l i. l = k \<longrightarrow> base + i < first) {} v v" using v(1) by (auto simp: file_cut_def)
    then show ?thesis using True by (auto simp: free_root_from_def)
  next
    case False
    then have b: "?b \<noteq> 0" using g by (metis unat_eq_zero)
    obtain gone w where w: "beamfs_free_ind_range (Suc d) K (Some ino) first ?b base v = (gone, w)"
      by (cases "beamfs_free_ind_range (Suc d) K (Some ino) first ?b base v")
    have "tree_ok (Suc d) v ?b" using file_okD(2) [OF v(1) k] d by simp
    from free_ind_range_cut(1) [OF v(2,3) b this w] obtain F where "cut_tree (Suc d) first base v ?b (if gone then 0 else ?b) F w" by blast
    from root_cut [OF v(1) acc, of first base "if gone then 0 else ?b" F w] this d
    have "file_cut ino (\<lambda>l i. l = k \<longrightarrow> base + i < first) F v (if gone then upd_inode ino (put 0) w else w)"
      using b by (cases gone) auto
    then show ?thesis using False w g by (auto simp: free_root_from_def simp del: beamfs_free_ind_range.simps)
  qed
qed

lemma free_root_cut:
  fixes v :: "'a volume_scheme"
  assumes v: "file_ok v ino" "alloc_inv v" "layout_ok v" and acc: "root_access k get put" and d: "file_depth k = Suc d"
  shows "\<exists>F. file_cut ino (\<lambda>l i. l \<noteq> k) F v (free_root K ino (Suc d) base get put v)"
proof -
  let ?b = "file_root (s_inode v ino) k"
  have g: "unat (get (s_inode v ino)) = ?b" and k: "k < 15" using acc by (simp_all add: root_access_def)
  have "free_root K ino (Suc d) base get put v = free_root_from K ino (Suc d) base get put 0 v"
  proof (cases "get (s_inode v ino) = 0")
    case False
    then have b: "?b \<noteq> 0" using g by (metis unat_eq_zero)
    obtain gone w where w: "beamfs_free_ind_range (Suc d) K (Some ino) 0 ?b base v = (gone, w)"
      by (cases "beamfs_free_ind_range (Suc d) K (Some ino) 0 ?b base v")
    have "tree_ok (Suc d) v ?b" using file_okD(2) [OF v(1) k] d by simp
    from free_ind_range_cut(2) [OF v(2,3) b this w] have gone by simp
    then show ?thesis using False w g by (auto simp: free_root_from_def free_root_def simp del: beamfs_free_ind_range.simps)
  qed (simp add: free_root_from_def free_root_def)
  moreover from free_root_from_cut [OF assms, of base 0 K] obtain F where
    "file_cut ino (\<lambda>l i. l = k \<longrightarrow> base + i < 0) F v (free_root_from K ino (Suc d) base get put 0 v)" by blast
  ultimately show ?thesis by (auto intro: file_cut_cong)
qed

subsection \<open>The single indirect block\<close>

lemma free_list_releases:
  fixes v :: "'a volume_scheme"
  assumes "alloc_inv v" "\<forall>j \<in> set js. in_data_region v (f j)"
  shows "releases {} {} (f ` set js) v (foldl (\<lambda>v j. beamfs_free_block K v (f j) owner) v js)"
  using assms
proof (induction js arbitrary: v)
  case (Cons j js)
  let ?w = "beamfs_free_block K v (f j) owner"
  have r: "releases {} {} {f j} v ?w" using Cons.prems by (intro free_block_releases) simp_all
  have "\<forall>j \<in> set js. in_data_region ?w (f j)" using Cons.prems(2) releases_ctx(3,4) [OF r] by (simp add: in_data_region_def)
  from releases_trans [OF r Cons.IH [OF releases_ctx(1) [OF r Cons.prems(1)] this]] show ?case by simp
qed simp

lemma clear_slots_spec:
  assumes "readable v b" "\<forall>j \<in> set js. j < 512"
  shows "releases {} {b} {} v (foldl (\<lambda>v j. clear_slot b j v) v js)" "readable (foldl (\<lambda>v j. clear_slot b j v) v js) b"
    and "t < 512 \<Longrightarrow> node_ptr (foldl (\<lambda>v j. clear_slot b j v) v js) b t = (if t \<in> set js then 0 else node_ptr v b t)"
proof -
  have "releases {} {b} {} v (foldl (\<lambda>v j. clear_slot b j v) v js) \<and> readable (foldl (\<lambda>v j. clear_slot b j v) v js) b
      \<and> (\<forall>t < 512. node_ptr (foldl (\<lambda>v j. clear_slot b j v) v js) b t = (if t \<in> set js then 0 else node_ptr v b t))"
    using assms
  proof (induction js arbitrary: v)
    case (Cons j js)
    note c = clear_slot_spec [OF Cons.prems(1), of j] and IH = Cons.IH [of "clear_slot b j v"]
    show ?case using releases_trans [of "{}" "{b}" "{}" v "clear_slot b j v" "{}"] c IH Cons.prems(2) by auto
  qed simp
  then show "releases {} {b} {} v (foldl (\<lambda>v j. clear_slot b j v) v js)" "readable (foldl (\<lambda>v j. clear_slot b j v) v js) b"
    "t < 512 \<Longrightarrow> node_ptr (foldl (\<lambda>v j. clear_slot b j v) v js) b t = (if t \<in> set js then 0 else node_ptr v b t)" by auto
qed

lemma leaf_ok:
  "tree_ok 1 v b \<longleftrightarrow> b = 0 \<or> good_block v b \<and> readable v b
     \<and> (\<forall>t < 512. node_ptr v b t \<noteq> 0 \<longrightarrow> good_block v (node_ptr v b t) \<and> node_ptr v b t \<noteq> b)
     \<and> (\<forall>t < 512. \<forall>u < 512. node_ptr v b t = node_ptr v b u \<longrightarrow> node_ptr v b t \<noteq> 0 \<longrightarrow> t = u)"
proof -
  have "(tree_ok 0 v c \<and> b \<notin> tree_blocks 0 v c) = (c \<noteq> 0 \<longrightarrow> good_block v c \<and> c \<noteq> b)" for c by auto
  moreover have "(t \<noteq> u \<longrightarrow> tree_blocks 0 v c \<inter> tree_blocks 0 v e = {}) = (c = e \<longrightarrow> c \<noteq> 0 \<longrightarrow> t = u)" for t u c e :: nat by auto
  ultimately show ?thesis by (simp only: One_nat_def tree_ok.simps(2))
qed

lemma cut_leaves:
  assumes ok: "tree_ok 1 v b" "b \<noteq> 0" and S: "S = {t. t < 512 \<and> first \<le> base + t \<and> node_ptr v b t \<noteq> 0}"
    and w: "releases {} {b} (node_ptr v b ` S) v w" "readable w b" "\<forall>t < 512. node_ptr w b t = (if t \<in> S then 0 else node_ptr v b t)"
  shows "cut_tree 1 first base v b b (node_ptr v b ` S) w"
proof -
  let ?p = "node_ptr v b" and ?F = "node_ptr v b ` S"
  have g: "good_block v b" "\<And>t. t < 512 \<Longrightarrow> ?p t \<noteq> 0 \<Longrightarrow> good_block v (?p t) \<and> ?p t \<noteq> b"
    and inj: "\<And>t u. t < 512 \<Longrightarrow> u < 512 \<Longrightarrow> ?p t = ?p u \<Longrightarrow> ?p t \<noteq> 0 \<Longrightarrow> t = u"
    using ok unfolding leaf_ok by blast+
  have bF: "b \<notin> ?F"
  proof
    assume "b \<in> ?F"
    then obtain t where "t < 512" "?p t \<noteq> 0" "?p t = b" using S by auto
    then show False using g(2) by blast
  qed
  have nF: "?p t \<in> ?F \<longleftrightarrow> t \<in> S" if "t < 512" for t using inj that S by auto
  have al: "good_block w x = good_block v x" if "x \<notin> ?F" for x
    using releasesD(2) [OF w(1) that] releases_ctx(3,4) [OF w(1)] by (simp add: good_block_def in_data_region_def)
  have wp: "node_ptr w b t = 0 \<or> node_ptr w b t = ?p t \<and> ?p t \<notin> ?F" if "t < 512" for t using w(3) that nF by auto
  have "tree_ok 1 w b"
  proof -
    have "good_block w (node_ptr w b t) \<and> node_ptr w b t \<noteq> b" if "t < 512" "node_ptr w b t \<noteq> 0" for t
      using wp [OF that(1)] g(2) [OF that(1)] al [of "?p t"] that(2) by auto
    moreover have "t = u" if "t < 512" "u < 512" "node_ptr w b t = node_ptr w b u" "node_ptr w b t \<noteq> 0" for t u
      using wp [OF that(1)] wp [OF that(2)] inj [OF that(1,2)] that(3,4) by auto
    ultimately show ?thesis unfolding leaf_ok using al [OF bF] g(1) w(2) by blast
  qed
  moreover have "tree_blocks 1 w b = tree_blocks 1 v b - ?F"
  proof -
    have "(\<Union>t<512. tree_blocks 0 w (node_ptr w b t)) = (\<Union>t<512. tree_blocks 0 v (?p t)) - ?F"
      using w(3) nF by (auto split: if_splits)
    then show ?thesis using ok(2) bF by auto
  qed
  moreover have "?F \<subseteq> tree_blocks 1 v b" using S ok(2) by auto
  moreover have "tree_get 1 w b i = (if base + i < first then tree_get 1 v b i else 0)" if "i < 512 ^ 1" for i
    using w(3) that S ok(2) by auto
  moreover have "tree_nodes 1 w b \<subseteq> tree_nodes 1 v b" "tree_nodes 1 v b = {b}" using ok(2) by auto
  ultimately show ?thesis unfolding cut_tree_def using w(1) by simp
qed

lemma cut_leaves_all:
  fixes w :: "'a volume_scheme"
  assumes c: "cut_tree 1 first base v b b (node_ptr v b ` S) w" and ok: "tree_ok 1 v b" "b \<noteq> 0" "alloc_inv v" "first \<le> base"
    and S: "S = {t. t < 512 \<and> first \<le> base + t \<and> node_ptr v b t \<noteq> 0}"
  shows "cut_tree 1 first base v b 0 (tree_blocks 1 v b) (beamfs_free_block K w b owner)"
proof -
  note C = cut_treeD [OF c]
  have g: "in_data_region w b" using C(3) ok(2) by (simp add: good_block_def)
  have n: "tree_nodes 1 v b = {b}" using ok(2) by auto
  have r: "releases {} {b} (node_ptr v b ` S \<union> {b}) v (beamfs_free_block K w b owner)"
    by (rule releases_trans [OF C(2) [unfolded n] free_block_releases [OF _ g]]) (use releases_ctx(1) [OF C(2)] ok(3) in simp)
  have "node_ptr v b ` S \<union> {b} = tree_blocks 1 v b" using ok(2,4) S by (auto split: if_splits)
  then show ?thesis using r ok(4) n by (simp add: cut_tree_def)
qed

lemma cut_tree_keeps:
  assumes "tree_ok d v b" "keeps v w" "cut_tree d first base w b c F v'"
  shows "cut_tree d first base v b c F v'"
proof -
  note C = cut_treeD [OF assms(3)] and T = tree_keeps [OF assms(1,2)]
  have "releases {} (tree_nodes d v b) ({} \<union> F) v v'"
    by (rule releases_trans [OF keeps_releases [OF assms(2)]]) (use C(2) T(3) in simp)
  then show ?thesis using C T by (simp add: cut_tree_def)
qed

text \<open>The pointers of the block cleared and then freed, from slot \<open>first - 12\<close> on.\<close>

lemma single_leaves:
  fixes v :: "'a volume_scheme" and first :: nat and K :: kenv and owner inode :: "ino option"
  assumes v: "alloc_inv v" "layout_ok v" "tree_ok 1 v b" "b \<noteq> 0"
  defines "js \<equiv> filter (\<lambda>j. node_ptr v b j \<noteq> 0) [first - 12..<512]"
  defines "w \<equiv> foldl (\<lambda>v' j. beamfs_free_block K v' (node_ptr v b j) owner)
                  (free_ind_flush K inode b (foldl (\<lambda>v j. clear_slot b j v) v js)) js"
  shows "cut_tree 1 first 12 v b b (node_ptr v b ` set js) w" "set js = {t. t < 512 \<and> first \<le> 12 + t \<and> node_ptr v b t \<noteq> 0}"
proof -
  show S: "set js = {t. t < 512 \<and> first \<le> 12 + t \<and> node_ptr v b t \<noteq> 0}" by (auto simp: js_def)
  have l: "good_block v b" "readable v b" "\<And>t. t < 512 \<Longrightarrow> node_ptr v b t \<noteq> 0 \<Longrightarrow> good_block v (node_ptr v b t)"
    using v(3,4) unfolding leaf_ok by blast+
  let ?c = "foldl (\<lambda>v j. clear_slot b j v) v js" and ?f = "free_ind_flush K inode b (foldl (\<lambda>v j. clear_slot b j v) v js)"
  have "\<forall>j \<in> set js. j < 512" using S by simp
  note c = clear_slots_spec [OF l(2) this]
  have cb: "layout_ok ?c" "s_data_start ?c \<le> b"
    using releases_ctx(2,4) [OF c(1)] v(2) l(1) by (simp_all add: good_block_def in_data_region_def)
  note f = flush_spec [OF cb c(2), where K = K and inode = inode]
  have rf: "releases {} {b} {} v ?f" using releases_trans [OF c(1) f(1)] by simp
  have "\<forall>j \<in> set js. in_data_region ?f (node_ptr v b j)"
    using l(3) S releases_ctx(3,4) [OF rf] by (simp add: good_block_def in_data_region_def)
  note g = free_list_releases [OF releases_ctx(1) [OF rf v(1)] this, where K = K and owner = owner, folded w_def]
  have r: "releases {} {b} (node_ptr v b ` set js) v w" using releases_trans [OF rf releases_mono [OF g, of "{}" "{b}"]] by simp
  have "s_blk w b = s_blk ?f b"
    using altersD(11) [OF releasesD(1) [OF g], of b] l(1) releases_ctx(4) [OF rf] by (simp add: good_block_def in_data_region_def)
  then have "readable w b" "\<forall>t < 512. node_ptr w b t = (if t \<in> set js then 0 else node_ptr v b t)"
    using f(2,3) c(3) by (simp_all add: readable_def node_ptr_def)
  from cut_leaves [OF v(3,4) S r this] show "cut_tree 1 first 12 v b b (node_ptr v b ` set js) w" .
qed

lemma free_single_spec:
  fixes v :: "'a volume_scheme"
  assumes v: "file_ok v ino" "alloc_inv v" "layout_ok v" and r: "free_single_from K ino first v = (on, v')"
  shows "on \<Longrightarrow> \<exists>F. file_cut ino (\<lambda>l i. l = 12 \<longrightarrow> 12 + i < first) F v v'" "\<not> on \<Longrightarrow> keeps v v'"
    and "s_copy_ok v \<Longrightarrow> \<forall>x \<in> fnodes v ino 12. trusted v x \<Longrightarrow> on"
proof -
  let ?b = "file_root (s_inode v ino) 12"
  have b: "unat (i_indirect (s_inode v ino)) = ?b" "file_depth 12 = 1" by (simp_all add: file_root_def file_depth_def)
  have t: "tree_ok 1 v ?b" using file_okD(2) [OF v(1), of 12] b(2) by simp
  have "(on \<longrightarrow> (\<exists>F. file_cut ino (\<lambda>l i. l = 12 \<longrightarrow> 12 + i < first) F v v')) \<and> (\<not> on \<longrightarrow> keeps v v')
    \<and> (s_copy_ok v \<and> (\<forall>x \<in> fnodes v ino 12. trusted v x) \<longrightarrow> on)"
  proof (cases "?b = 0")
    case True
    then have "on" "v' = v" "\<And>i. ftree v ino 12 i = 0" using r b by (simp_all add: free_single_from_def ftree_def)
    moreover from this(3) have "file_cut ino (\<lambda>l i. l = 12 \<longrightarrow> 12 + i < first) {} v v" using v(1) by (auto simp: file_cut_def)
    ultimately show ?thesis by blast
  next
    case False
    obtain x w where w: "read_verified K v ?b = (x, w)" by (cases "read_verified K v ?b")
    note rv = read_verified_spec [OF w]
    have cp: "s_copy_ok w = s_copy_ok v" by (rule frameD(7) [OF keeps_frame [OF rv(1)]])
    have tr: "\<exists>p. x = Inr p" if "\<forall>y \<in> fnodes v ino 12. trusted v y"
      using that w t False trusted_verify [of v ?b K] by (auto simp: fnodes_def b(2) read_verified_def readable_def split: if_splits)
    show ?thesis
    proof (cases "\<exists>e. x = Inl e \<or> \<not> s_copy_ok w")
      case True
      then have "on = False" "v' = w" using r w False b(1) by (auto simp: free_single_from_def Let_def split: sum.splits)
      then show ?thesis using rv(1) tr cp True by fastforce
    next
      case no: False
      then obtain p where p: "x = Inr p" by (cases x) auto
      obtain bh where bh: "s_blk v ?b = Some bh" "p = b_data bh" using rv(2) p by blast
      have kb: "s_blk w ?b = s_blk v ?b"
        using t False by (intro frameD(21) [OF keeps_frame [OF rv(1)]]) (simp add: good_block_def in_data_region_def)
      have pp: "ind_ptr p = node_ptr w ?b" using bh kb by (auto simp: node_ptr_def)
      note wt = tree_keeps(1) [OF t rv(1)]
      have wc: "alloc_inv w" "layout_ok w" using frameD(3) [OF keeps_frame [OF rv(1)] v(2)] keeps_layout [OF rv(1)] v(3) by simp_all
      define js where "js = filter (\<lambda>j. node_ptr w ?b j \<noteq> 0) [first - 12..<512]"
      define u where "u = foldl (\<lambda>v' j. beamfs_free_block K v' (node_ptr w ?b j) (Some ino))
                  (free_ind_flush K (Some ino) ?b (foldl (\<lambda>v j. clear_slot ?b j v) w js)) js"
      note L = single_leaves(1) [OF wc wt False, where first = first and K = K and inode = "Some ino" and owner = "Some ino",
          folded js_def, folded u_def] single_leaves(2) [OF wc wt False, of first, folded js_def]
      have sf: "(if 12 \<le> first then first - 12 else 0) = first - 12" by simp
      have e: "on" "v' = (if first - 12 = 0 then upd_inode ino (\<lambda>n. n\<lparr>i_indirect := 0\<rparr>) (beamfs_free_block K u ?b (Some ino)) else u)"
        using r w False b(1) no p unfolding free_single_from_def Let_def sf pp by (auto simp: pp js_def u_def split: if_splits)
      show ?thesis
      proof (cases "first \<le> 12")
        case True
        from cut_tree_keeps [OF t rv(1) cut_leaves_all [OF L(1) wt False wc(1) True L(2)]]
        have "cut_tree (file_depth 12) first 12 v ?b 0 (tree_blocks 1 w ?b) (beamfs_free_block K u ?b (Some ino))" unfolding b(2) .
        from root_cut [OF v(1) root_accesses(1) this] show ?thesis using e True by auto
      next
        case gt: False
        from cut_tree_keeps [OF t rv(1) L(1)]
        have "cut_tree (file_depth 12) first 12 v ?b ?b (node_ptr w ?b ` set js) u" unfolding b(2) .
        from root_cut [OF v(1) root_accesses(1) this] show ?thesis using e gt False by auto
      qed
    qed
  qed
  then show "on \<Longrightarrow> \<exists>F. file_cut ino (\<lambda>l i. l = 12 \<longrightarrow> 12 + i < first) F v v'" "\<not> on \<Longrightarrow> keeps v v'"
    "s_copy_ok v \<Longrightarrow> \<forall>x \<in> fnodes v ino 12. trusted v x \<Longrightarrow> on" by blast+
qed

subsection \<open>Truncation\<close>

lemma file_cut_keeps:
  assumes "file_ok v ino" "keeps v w"
  shows "file_cut ino (\<lambda>k i. True) {} v w"
proof -
  have si: "same_inode (s_inode v ino) (s_inode w ino)" by (rule frameD(5) [OF keeps_frame [OF assms(2)]])
  have r: "file_root (s_inode w ino) k = file_root (s_inode v ino) k" for k by (rule same_root [OF touchedI(2) [OF si]])
  note T = tree_keeps [OF file_okD(2) [OF assms(1)] assms(2)]
  have "fblocks w ino k = fblocks v ino k" "fnodes w ino k = fnodes v ino k" "tree_ok (file_depth k) w (file_root (s_inode w ino) k)"
    "i < 512 ^ file_depth k \<Longrightarrow> ftree w ino k i = ftree v ino k i" if "k < 15" for k i
    using T [OF that] by (simp_all add: fblocks_def fnodes_def ftree_def r)
  then show ?thesis using assms(1) keeps_releases [OF assms(2)] same_inodeD [OF si] by (simp add: file_cut_def file_ok_def)
qed

text \<open>Another file is not touched.\<close>

lemma file_releases_other:
  assumes r: "releases {ino} (file_nodes v ino) F v v'" "F \<subseteq> file_blocks v ino"
    and o: "file_ok v j" "j \<noteq> ino" "file_blocks v j \<inter> file_blocks v ino = {}"
  shows "file_ok v' j" "file_blocks v' j = file_blocks v j" "iblock < MAX_IBLOCK \<Longrightarrow> file_map v' j iblock = file_map v j iblock"
proof -
  have "same_inode (s_inode v j) (s_inode v' j)" using altersD(5) [OF releasesD(1) [OF r(1)], of j] o(2) by simp
  note rt = same_root [OF touchedI(2) [OF this]] and d = same_inodeD(6) [OF this]
  have sub: "fnodes v j k \<inter> file_nodes v ino = {}" "fblocks v j k \<inter> F = {}" if "k < 15" for k
    using o(3) r(2) that fnodes_fblocks [of v j k] fnodes_fblocks [of v ino] by (fastforce simp: file_blocks_def file_nodes_def)+
  have T: "tree_ok (file_depth k) v' (file_root (s_inode v' j) k)" "fblocks v' j k = fblocks v j k"
    "i < 512 ^ file_depth k \<Longrightarrow> ftree v' j k i = ftree v j k i" if "k < 15" for k i
    using tree_releases [OF file_okD(2) [OF o(1) that] r(1) sub [OF that, unfolded fnodes_def fblocks_def]]
    by (simp_all add: rt fblocks_def ftree_def)
  show "file_ok v' j" using T(1,2) o(1) d by (simp add: file_ok_def)
  show "file_blocks v' j = file_blocks v j" using T(2) by (simp add: file_blocks_def)
  show "file_map v' j iblock = file_map v j iblock" if "iblock < MAX_IBLOCK"
    using T(3) file_pos_bounds [OF that] by (simp add: file_map_def)
qed

lemma free_direct_verified:
  fixes v :: "'a volume_scheme"
  assumes "alloc_inv v"
  shows "s_verified (foldl (\<lambda>v i. let blk = unat (i_direct (s_inode v ino) ! i)
                  in if blk = 0 then v
                     else upd_inode ino (\<lambda>n. n\<lparr>i_direct := (i_direct n)[i := 0]\<rparr>) (beamfs_free_block K v blk owner)) v is)
    = s_verified v"
  using assms
proof (induction "is" arbitrary: v)
  case (Cons i "is")
  let ?f = "beamfs_free_block K v (unat (i_direct (s_inode v ino) ! i)) owner"
  have "length (s_beamfs_sb v) = 4096" using Cons.prems by (simp add: alloc_inv_def)
  from free_block_more [OF this, of K "unat (i_direct (s_inode v ino) ! i)" owner]
  have "s_verified ?f = s_verified v" by (cases v, cases ?f) simp
  moreover have "alloc_inv (upd_inode ino g ?f)" for g
    using frameD(3) [OF free_block_frame(1) [OF Cons.prems] Cons.prems] by (simp add: upd_inode_def alloc_inv_def)
  ultimately show ?case using Cons.IH Cons.prems by (simp add: Let_def upd_inode_def)
qed simp

lemma trusted_cong:
  "alters D B v w \<Longrightarrow> s_verified w = s_verified v \<Longrightarrow> trusted w x = trusted v x"
  unfolding trusted_def using ind_parity_slot_cong [of w v x] by (simp add: alters_def)

text \<open>Index \<open>i\<close> of tree \<open>k\<close> lies below \<open>first\<close>.\<close>

definition cut_below :: "nat \<Rightarrow> nat \<Rightarrow> nat \<Rightarrow> bool" where
  "cut_below first k i \<longleftrightarrow> (k < 12 \<longrightarrow> k < first) \<and> (k = 12 \<longrightarrow> 12 + i < first) \<and> (k = 13 \<longrightarrow> 524 + i < first)
     \<and> (k = 14 \<longrightarrow> 262668 + i < first)"

lemma free_blocks_from_cut:
  fixes v :: "'a volume_scheme"
  assumes v: "alloc_inv v" "layout_ok v" "file_ok v ino" "s_copy_ok v" "\<forall>x \<in> fnodes v ino 12. trusted v x" "first < 2 ^ 32"
  shows "\<exists>F. file_cut ino (cut_below first) F v (beamfs_inline_free_blocks_from K v ino first)"
proof -
  let ?a = "free_direct_from K ino first v"
  have "first mod 2 ^ 32 = first" using v(6) by simp
  then have ea: "?a = foldl (\<lambda>v i. let blk = unat (i_direct (s_inode v ino) ! i)
                  in if blk = 0 then v
                     else upd_inode ino (\<lambda>n. n\<lparr>i_direct := (i_direct n)[i := 0]\<rparr>) (beamfs_free_block K v blk (Some ino))) v [first..<12]"
    by (simp only: free_direct_from_def)
  from free_direct_step_cut [OF v(3,1,2), of "[first..<12]" K "Some ino"] obtain A where
    A: "file_cut ino (\<lambda>l j. l \<notin> set [first..<12]) A v ?a" unfolding ea by auto
  note ca = file_cut_ctx [OF A v(1,2)]
  have "s_verified ?a = s_verified v" unfolding ea by (rule free_direct_verified [OF v(1)])
  then have ta: "\<forall>x \<in> fnodes ?a ino 12. trusted ?a x"
    using v(5) file_cutD(5) [OF A, of 12] trusted_cong [OF releasesD(1) [OF file_cutD(1) [OF A]]] by auto
  obtain on b where b: "free_single_from K ino first ?a = (on, b)" by (cases "free_single_from K ino first ?a")
  note S = free_single_spec [OF ca(3,1,2) b]
  have on: on using S(3) ca(4) v(4) ta by simp
  then obtain B where B: "file_cut ino (\<lambda>l i. l = 12 \<longrightarrow> 12 + i < first) B ?a b" using S(1) by blast
  note cb = file_cut_ctx [OF B ca(1,2)]
  let ?c = "free_root_from K ino 2 524 i_dindirect (\<lambda>b n. n\<lparr>i_dindirect := b\<rparr>) first b"
  have d: "file_depth 13 = Suc 1" "file_depth 14 = Suc 2" by (simp_all add: file_depth_def)
  from free_root_from_cut [OF cb(3,1,2) root_accesses(2) d(1), of 524 first K] obtain C where
    C: "file_cut ino (\<lambda>l i. l = 13 \<longrightarrow> 524 + i < first) C b ?c" by (auto simp: numeral_2_eq_2)
  note cc = file_cut_ctx [OF C cb(1,2)]
  let ?d = "free_root_from K ino 3 262668 i_tindirect (\<lambda>b n. n\<lparr>i_tindirect := b\<rparr>) first ?c"
  from free_root_from_cut [OF cc(3,1,2) root_accesses(3) d(2), of 262668 first K] obtain D where
    D: "file_cut ino (\<lambda>l i. l = 14 \<longrightarrow> 262668 + i < first) D ?c ?d" by (auto simp: numeral_3_eq_3 numeral_2_eq_2)
  note cd = file_cut_ctx [OF D cc(1,2)]
  have M: "file_cut ino (\<lambda>k i. True) {} ?d (mark_inode_dirty ino ?d)" by (rule file_cut_keeps [OF cd(3)]) simp
  have "beamfs_inline_free_blocks_from K v ino first = mark_inode_dirty ino ?d"
    using b on by (simp add: beamfs_inline_free_blocks_from_def Let_def)
  with file_cut_trans [OF A file_cut_trans [OF B file_cut_trans [OF C file_cut_trans [OF D M]]]] show ?thesis
    by (intro exI [of _ "A \<union> (B \<union> (C \<union> (D \<union> {})))"]) (auto simp: cut_below_def intro: file_cut_cong)
qed

subsection \<open>Eviction\<close>

lemma free_direct_cut:
  fixes v :: "'a volume_scheme"
  assumes "file_ok v ino" "alloc_inv v" "layout_ok v" "\<forall>i \<in> set is. i < 12" "distinct is"
    and "\<forall>bs. seen = Some bs \<longrightarrow> (\<forall>i \<in> set is. set bs \<inter> fblocks v ino i = {})"
  shows "\<exists>F. file_cut ino (\<lambda>l j. l \<notin> set is) F v (free_direct K ino is seen v)"
  using assms
proof (induction "is" arbitrary: v seen)
  case Nil
  then show ?case using file_cut_same [of v ino] by (auto intro: file_cut_cong)
next
  case (Cons i "is")
  let ?blk = "unat (i_direct (s_inode v ino) ! i)"
  let ?w = "upd_inode ino (\<lambda>n. n\<lparr>i_direct := (i_direct n)[i := 0]\<rparr>) (if ?blk = 0 then v else beamfs_free_block K v ?blk None)"
  let ?seen = "if ?blk = 0 then seen else map_option (\<lambda>bs. bs @ [?blk]) seen"
  have i: "i < 12" using Cons.prems(4) by simp
  have fb: "fblocks v ino i = (if ?blk = 0 then {} else {?blk})" using i by (simp add: fblocks_def file_depth_def file_root_def)
  have fresh: "(?blk \<noteq> 0 \<and> (case seen of None \<Rightarrow> True | Some bs \<Rightarrow> ?blk \<notin> set bs)) = (?blk \<noteq> 0)"
    using Cons.prems(6) fb by (cases seen) (auto split: if_splits)
  have e: "free_direct K ino (i # is) seen v = free_direct K ino is ?seen ?w"
    unfolding free_direct.simps Let_def fresh by simp
  have F: "file_cut ino (\<lambda>l j. l \<noteq> i) (if ?blk = 0 then {} else {?blk}) v ?w" by (rule direct_cut [OF Cons.prems(1,2) i])
  note c = file_cut_ctx [OF F Cons.prems(2,3)]
  have "set bs \<inter> fblocks ?w ino j = {}" if "?seen = Some bs" "j \<in> set is" for bs j
  proof -
    have j: "j < 15" "j \<noteq> i" "j < 12" using that(2) Cons.prems(4,5) by auto
    have "fblocks v ino i \<inter> fblocks v ino j = {}" using file_okD(3) [OF Cons.prems(1), of i j] i j by simp
    moreover have "fblocks ?w ino j \<subseteq> fblocks v ino j" using file_cutD(4) [OF F j(1)] by blast
    moreover have "set bs' \<inter> fblocks v ino j = {}" if "seen = Some bs'" for bs' using Cons.prems(6) that \<open>j \<in> set is\<close> by simp
    ultimately have "set bs \<inter> fblocks v ino j = {}" "fblocks ?w ino j \<subseteq> fblocks v ino j"
      using that(1) fb by (cases seen; auto split: if_splits)+
    then show ?thesis by blast
  qed
  then have "\<exists>G. file_cut ino (\<lambda>l j. l \<notin> set is) G ?w (free_direct K ino is ?seen ?w)"
    using Cons.prems(4,5) by (intro Cons.IH c) auto
  then obtain G where G: "file_cut ino (\<lambda>l j. l \<notin> set is) G ?w (free_direct K ino is ?seen ?w)" by blast
  show ?case unfolding e
    by (rule exI, rule file_cut_cong [OF file_cut_trans [OF F G]]) auto
qed

lemma free_root_root:
  "root_access k get put \<Longrightarrow> file_root (s_inode (free_root K ino d base get put v) ino) k = 0"
  by (auto simp: free_root_def root_access_def simp del: beamfs_free_ind_range.simps) (metis unat_0)

lemma fblocks_root_0: "file_root (s_inode v ino) k = 0 \<Longrightarrow> fblocks v ino k = {}"
  by (simp add: fblocks_def)

lemma free_data_blocks_cut:
  fixes v :: "'a volume_scheme"
  assumes v: "alloc_inv v" "layout_ok v" "file_ok v ino" "\<not> S_ISLNK (i_mode (s_inode v ino))"
  shows "file_cut ino (\<lambda>k i. False) (file_blocks v ino) v (beamfs_free_data_blocks K v ino)"
proof -
  define seen where "seen = (if s_copy_ok v then Some ([] :: nat list) else None)"
  let ?a = "free_direct K ino [0..<12] seen v"
  have "\<forall>bs. seen = Some bs \<longrightarrow> (\<forall>i \<in> set [0..<12]. set bs \<inter> fblocks v ino i = {})" by (simp add: seen_def)
  from free_direct_cut [OF v(3,1,2) _ _ this, of K] obtain A where
    A: "file_cut ino (\<lambda>l j. l \<notin> set [0..<12]) A v ?a" by auto
  note ca = file_cut_ctx [OF A v(1,2)]
  have d: "file_depth 12 = Suc 0" "file_depth 13 = Suc 1" "file_depth 14 = Suc 2" by (simp_all add: file_depth_def)
  let ?b = "free_root K ino 1 12 i_indirect (\<lambda>b n. n\<lparr>i_indirect := b\<rparr>) ?a"
  from free_root_cut [OF ca(3,1,2) root_accesses(1) d(1), of K 12] obtain B where
    B: "file_cut ino (\<lambda>l i. l \<noteq> 12) B ?a ?b" by auto
  note cb = file_cut_ctx [OF B ca(1,2)]
  let ?c = "free_root K ino 2 524 i_dindirect (\<lambda>b n. n\<lparr>i_dindirect := b\<rparr>) ?b"
  from free_root_cut [OF cb(3,1,2) root_accesses(2) d(2), of K 524] obtain C where
    C: "file_cut ino (\<lambda>l i. l \<noteq> 13) C ?b ?c" by (auto simp: numeral_2_eq_2)
  note cc = file_cut_ctx [OF C cb(1,2)]
  let ?d = "free_root K ino 3 262668 i_tindirect (\<lambda>b n. n\<lparr>i_tindirect := b\<rparr>) ?c"
  from free_root_cut [OF cc(3,1,2) root_accesses(3) d(3), of K 262668] obtain D where
    D: "file_cut ino (\<lambda>l i. l \<noteq> 14) D ?c ?d" by (auto simp: numeral_3_eq_3 numeral_2_eq_2)
  define F where "F = A \<union> (B \<union> (C \<union> D))"
  have e: "beamfs_free_data_blocks K v ino = ?d" using v(4) by (simp add: beamfs_free_data_blocks_def Let_def seen_def)
  have all: "file_cut ino (\<lambda>k i. False) F v ?d"
    unfolding F_def by (rule file_cut_cong [OF file_cut_trans [OF A file_cut_trans [OF B file_cut_trans [OF C D]]]]) auto
  have z: "file_root (s_inode ?b ino) 12 = 0" "file_root (s_inode ?c ino) 13 = 0" "file_root (s_inode ?d ino) 14 = 0"
    by (rule free_root_root [OF root_accesses(1)] free_root_root [OF root_accesses(2)] free_root_root [OF root_accesses(3)])+
  have "fblocks ?d ino k = {}" if k: "k < 15" for k
  proof (cases "k < 12")
    case True
    then have "file_depth k = 0" by (simp add: file_depth_def)
    then show ?thesis using file_cutD(6) [OF all k, of 0] by (simp add: fblocks_def ftree_def)
  next
    case False
    then consider "k = 12" | "k = 13" | "k = 14" using k by linarith
    then show ?thesis
    proof cases
      case 1
      then have "fblocks ?b ino k = {}" using z(1) fblocks_root_0 by blast
      then show ?thesis using file_cutD(4) [OF C k] file_cutD(4) [OF D k] by simp
    next
      case 2
      then have "fblocks ?c ino k = {}" using z(2) fblocks_root_0 by blast
      then show ?thesis using file_cutD(4) [OF D k] by simp
    next
      case 3
      then show ?thesis using z(3) fblocks_root_0 by blast
    qed
  qed
  then have "F = file_blocks v ino" using file_cut_blocks [OF all] file_cutD(2) [OF all] by (auto simp: file_blocks_def)
  then show ?thesis using all e by simp
qed

lemma image_mode:
  assumes "kernel_lib K" "length raw = 256" "length (i_direct i) = 12"
  shows "get_le16 0 (inode_image K i raw) = i_mode i" "length (inode_image K i raw) = 256"
proof -
  note c = inode_image_coded [OF assms, unfolded inode_coded_def]
  have "get_bytes 0 2 (inode_image K i raw) = get_bytes 0 2 (inode_put_fields i (replicate 256 0))"
    by (rule c [THEN conjunct2, THEN conjunct1, rule_format]) simp
  then show "get_le16 0 (inode_image K i raw) = i_mode i"
    using inode_put_fields_at(1) [of "replicate 256 0" i] assms(3) by (simp add: get_le16_def)
  show "length (inode_image K i raw) = 256" using c by simp
qed

text \<open>An inode written with mode 0 is not found again.\<close>

lemma write_inode_stale:
  fixes v :: "'a volume_scheme"
  assumes K: "kernel_lib K" and i: "1 \<le> ino" "ino \<le> unat (sb_inode_count (s_beamfs_sb v))" "length (i_direct (s_inode v ino)) = 12"
      "i_mode (s_inode v ino) = 0" "s_inode_ok v"
    and b: "s_blk v (inode_block v ino) = Some bh" "length (b_data bh) = 4096" and f: "\<not> s_failed v"
    and w: "renumbers ((snd (beamfs_write_inode_raw K v ino))\<lparr>s_icached := (s_icached v)(ino := False)\<rparr>) v'" "inode_block v ino \<notin> side_region v"
      "alloc_inv v"
  shows "beamfs_iget K v' ino = (Inl ESTALE, v')"
proof -
  let ?u = "snd (beamfs_write_inode_raw K v ino)" and ?off = "inode_off ino"
  let ?c = "inode_image K (s_inode v ino) (get_bytes ?off 256 (b_data bh))"
  let ?w = "?u\<lparr>s_icached := (s_icached v)(ino := False)\<rparr>"
  have off: "?off + 256 \<le> 4096" by (simp add: inode_off_def)
  note c = image_mode [OF K _ i(3), of "get_bytes ?off 256 (b_data bh)"]
  have u: "?u = v\<lparr>s_blk := (s_blk v)(inode_block v ino \<mapsto> mark_buffer_dirty (bh\<lparr>b_data := put_bytes ?off ?c (b_data bh)\<rparr>))\<rparr>"
    using b(1) f by (simp add: beamfs_write_inode_raw_def beamfs_write_inode_raw_flags_def beamfs_bread_def Let_def)
  note k = renumbersD [OF w(1)]
  have sw: "s_beamfs_sb ?w = s_beamfs_sb v" "side_region ?w = side_region v" "alloc_inv ?w" "s_inode_ok ?w = s_inode_ok v"
    using w(3) unfolding u by (simp_all add: side_region_def budget_region_def alloc_inv_def)
  have "length (s_beamfs_sb v) = 4096" using w(3) by (simp add: alloc_inv_def)
  with sb_keptD [OF k(7) [OF sw(3), unfolded sw(1)]] have ib: "inode_block v' ino = inode_block v ino"
    "sb_inode_count (s_beamfs_sb v') = sb_inode_count (s_beamfs_sb v)" by (simp_all add: inode_block_def)
  have "s_blk v' (inode_block v ino) = s_blk ?w (inode_block v ino)" using k(9) w(2) sw(2) by simp
  then have bv: "s_blk v' (inode_block v ino) = Some (mark_buffer_dirty (bh\<lparr>b_data := put_bytes ?off ?c (b_data bh)\<rparr>))"
    unfolding u by simp
  have "get_bytes ?off 256 (put_bytes ?off ?c (b_data bh)) = ?c" using get_put_same [of ?off ?c "b_data bh"] c(2) off b(2) by simp
  then have r: "get_le16 0 (get_bytes ?off 256 (b_data (mark_buffer_dirty (bh\<lparr>b_data := put_bytes ?off ?c (b_data bh)\<rparr>)))) = 0"
    using c(1) off b(2) i(4) by (simp add: mark_buffer_dirty_def)
  have "\<not> s_icached v' ino" "s_inode_ok v'" using k(4,6) sw(4) i(5) by simp_all
  then show ?thesis using i(1,2) ib bv r by (simp add: beamfs_iget_def beamfs_bread_def inode_recover_def Let_def)
qed

subsection \<open>The tail of the last block\<close>

text \<open>On a tree the parity does not object to, the allocating lookup of a mapped index changes nothing.\<close>

lemma trusted_read:
  assumes "tree_ok (Suc d) v b" "b \<noteq> 0" "trusted v b"
  shows "\<exists>data. read_verified K v b = (Inr data, v) \<and> ind_ptr data = node_ptr v b"
  using assms trusted_verify [of v b K] by (auto simp: readable_def read_verified_def node_ptr_def fun_eq_iff)

lemma alloc_walk_mapped:
  "tree_ok (Suc d) v b \<Longrightarrow> \<forall>x \<in> tree_nodes (Suc d) v b. trusted v x \<Longrightarrow> i < 512 ^ Suc d \<Longrightarrow> tree_get (Suc d) v b i \<noteq> 0
    \<Longrightarrow> alloc_walk d K v ino iblock b i = (Inr (tree_get (Suc d) v b i, False), v)"
proof (induction d arbitrary: b i)
  case 0
  then have b: "b \<noteq> 0" "trusted v b" by (auto split: if_splits)
  from trusted_read [OF 0(1) b, of K] 0(4) b(1) show ?case by (auto simp: alloc_leaf_def)
next
  case (Suc d)
  let ?c = "node_ptr v b (i div 512 ^ Suc d)"
  have b: "b \<noteq> 0" "trusted v b" using Suc.prems(2,4) by (auto simp del: power_Suc split: if_splits)
  have s: "i div 512 ^ Suc d < 512" "i mod 512 ^ Suc d < 512 ^ Suc d"
    using slot_bounds [of i "Suc d"] Suc.prems(3) by simp_all
  have g: "tree_get (Suc (Suc d)) v b i = tree_get (Suc d) v ?c (i mod 512 ^ Suc d)" using b(1) by simp
  have c: "?c \<noteq> 0"
  proof
    assume "?c = 0"
    then show False using Suc.prems(4) unfolding g by (simp only: tree_zero(1))
  qed
  have ok: "tree_ok (Suc d) v ?c" using Suc.prems(1) b(1) s(1) by (simp del: power_Suc)
  have tr: "\<forall>x \<in> tree_nodes (Suc d) v ?c. trusted v x" using Suc.prems(2) b(1) s(1) by (auto simp del: power_Suc tree_nodes.simps(2) simp: tree_nodes.simps(2) [of "Suc d"])
  from trusted_read [OF Suc.prems(1) b, of K] c have "alloc_child K v ino b (i div 512 ^ Suc d) = (Inr ?c, v)"
    by (auto simp: alloc_child_def simp del: power_Suc)
  moreover have "alloc_walk d K v ino iblock ?c (i mod 512 ^ Suc d) = (Inr (tree_get (Suc d) v ?c (i mod 512 ^ Suc d), False), v)"
    using Suc.IH [OF ok tr s(2)] Suc.prems(4) g by (simp del: tree_get.simps power_Suc)
  ultimately show ?case unfolding g by (simp del: tree_get.simps power_Suc)
qed

lemma lookup_or_alloc_mapped:
  assumes "file_ok v ino" "\<forall>x \<in> file_nodes v ino. trusted v x" "iblock < MAX_IBLOCK" "file_map v ino iblock \<noteq> 0" "s_free_blocks v \<noteq> 0"
  shows "beamfs_inline_lookup_or_alloc_phys_new K False v ino iblock = (Inr (file_map v ino iblock, False), v)"
proof -
  let ?k = "fst (file_pos iblock)" and ?i = "snd (file_pos iblock)"
  let ?b = "file_root (s_inode v ino) ?k"
  have k: "?k < 15" "?i < 512 ^ file_depth ?k" using file_pos_bounds [OF assms(3)] by simp_all
  have m: "file_map v ino iblock = tree_get (file_depth ?k) v ?b ?i" by (simp add: file_map_def ftree_def)
  have t: "tree_ok (file_depth ?k) v ?b" "\<forall>x \<in> tree_nodes (file_depth ?k) v ?b. trusted v x"
    using file_okD(2) [OF assms(1) k(1)] assms(2) k(1) by (auto simp: file_nodes_def fnodes_def)
  have root: "alloc_root K v ino get put = (Inr (unat (get (s_inode v ino))), v)" if "unat (get (s_inode v ino)) \<noteq> 0" for get put
    using that by (auto simp: alloc_root_def)
  have walk: "alloc_walk d K v ino iblock ?b ?i = (Inr (file_map v ino iblock, False), v)" if "file_depth ?k = Suc d" for d
    using alloc_walk_mapped [of d v ?b ?i K ino iblock] t k(2) m assms(4) that by (simp del: tree_get.simps power_Suc tree_nodes.simps tree_ok.simps)
  have nz: "?b \<noteq> 0" using m assms(4) by (auto intro: ccontr)
  consider "iblock < 12" | "12 \<le> iblock" "iblock < 524" | "524 \<le> iblock" "iblock < 262668" | "262668 \<le> iblock" by linarith
  then show ?thesis
  proof cases
    case 1
    then show ?thesis using assms(4,5) m by (simp add: beamfs_inline_lookup_or_alloc_phys_new_def alloc_direct_def file_pos_def file_depth_def file_root_def)
  next
    case 2
    then have p: "file_pos iblock = (12, iblock - 12)" by (simp add: file_pos_def)
    show ?thesis using 2 nz walk [of 0] assms(5) root
      by (simp add: p file_depth_def beamfs_inline_lookup_or_alloc_phys_new_def alloc_levels file_root_def)
  next
    case 3
    then have p: "file_pos iblock = (13, iblock - 524)" by (simp add: file_pos_def)
    show ?thesis using 3 nz walk [of 1] assms(5) root
      by (simp add: p file_depth_def beamfs_inline_lookup_or_alloc_phys_new_def alloc_levels file_root_def)
  next
    case 4
    then have p: "file_pos iblock = (14, iblock - 262668)" by (simp add: file_pos_def)
    show ?thesis using 4 nz walk [of 2] assms(3,5) root
      by (simp add: p file_depth_def beamfs_inline_lookup_or_alloc_phys_new_def alloc_levels file_root_def)
  qed
qed

text \<open>Block \<open>phys\<close> is the sealed block of an inode and an index, damaged at most up to the radius of the code.\<close>

definition stores :: "kenv \<Rightarrow> 'a volume_scheme \<Rightarrow> nat \<Rightarrow> ino \<Rightarrow> nat \<Rightarrow> byte list \<Rightarrow> bool" where
  "stores K v phys ino iblock payload \<longleftrightarrow> length payload = beamfs_block_payload v
     \<and> (\<exists>bh c. s_blk v phys = Some bh \<and> sealed K v c \<and> holds_data K v c payload (word_of_nat ino) (word_of_nat iblock)
          \<and> data_damage_ok v c (b_data bh))"

lemma stores_cong:
  assumes "s_feat_incompat w = s_feat_incompat v" "s_data_csum w = s_data_csum v" "s_data_selfid w = s_data_selfid v"
    "s_blk w phys = s_blk v phys"
  shows "stores K w phys ino iblock payload = stores K v phys ino iblock payload"
  using assms by (simp add: stores_def sealed_def holds_data_def holds_payload_def data_damage_ok_def interleaved_def
      beamfs_desc_off_def beamfs_selfid_off_def beamfs_block_payload_def)

lemma full_slice:
  assumes "holds_data K v t payload ino iblock" "length payload = beamfs_block_payload v"
  shows "get_bytes 0 (beamfs_block_payload v) (inline_slice v t 0 3824) = payload" "length (inline_slice v t 0 3824) = 3824"
proof -
  have l: "length t = 4096" "holds_payload v t payload" using assms(1) by (simp_all add: holds_data_def)
  have "get_bytes 0 (beamfs_block_payload v) (inline_slice v t 0 3824) = payload \<and> length (inline_slice v t 0 3824) = 3824"
  proof (cases "interleaved v")
    case True
    then show ?thesis using l by (simp add: inline_slice_def beamfs_block_payload_def holds_payload_def get_get_bytes)
  next
    case False
    then have "beamfs_block_payload v = 3824" by (simp add: beamfs_block_payload_def)
    then show ?thesis using slice_holds [OF l(2,1), of 3824 0] assms(2) by (simp add: get_bytes_def)
  qed
  then show "get_bytes 0 (beamfs_block_payload v) (inline_slice v t 0 3824) = payload" "length (inline_slice v t 0 3824) = 3824" by auto
qed

lemma lay_prefix:
  "length payload = 3824 \<Longrightarrow> beamfs_lay_data_payload v block payload = beamfs_lay_data_payload v block (get_bytes 0 (beamfs_block_payload v) payload)"
  "beamfs_inline_stamp_tail_pad K v block payload ino iblock
     = beamfs_inline_stamp_tail_pad K v block (get_bytes 0 (beamfs_block_payload v) payload) ino iblock"
  by (simp_all add: beamfs_lay_data_payload_def beamfs_inline_stamp_tail_pad_def beamfs_block_payload_def get_get_bytes Let_def)
    (simp add: get_bytes_def)

lemma zero_tail_bytes:
  assumes "length scratch = 3824" "get_bytes 0 n scratch = payload" "z < n" "n \<le> 3824"
  shows "get_bytes 0 n (put_bytes z (replicate (3824 - z) 0) scratch) = take z payload @ replicate (n - z) 0"
  using assms by (intro nth_equalityI) (auto simp: nth_get_bytes nth_put_bytes nth_append get_bytes_def)

lemma zero_tail_rewrite_spec:
  assumes K: "kernel_lib K" and v: "layout_ok v" "s_scratch_ok v" and p: "phys \<noteq> 0" "z < beamfs_block_payload v"
    and st: "stores K v phys ino b payload"
  shows "\<exists>v' w bh. zero_tail_rewrite K stale True v ino b z phys = (None, v') \<and> keeps v w \<and> s_verified w = s_verified v
    \<and> v' = w\<lparr>s_blk := (s_blk w)(phys \<mapsto> bh)\<rparr>
    \<and> stores K v' phys ino b (take z payload @ replicate (beamfs_block_payload v - z) 0)"
proof -
  let ?n = "beamfs_block_payload v" and ?i = "word_of_nat ino :: u64" and ?b = "word_of_nat b :: u64"
  obtain bh c where s: "length payload = ?n" "s_blk v phys = Some bh" "sealed K v c" "holds_data K v c payload ?i ?b"
    "data_damage_ok v c (b_data bh)" using st by (auto simp: stores_def)
  from decode_block_core [OF K v s(1,4,3,5) p(1), of 3824 0 stale ?i ?b True] obtain w t where
    d: "keeps v w" "s_verified w = s_verified v" "holds_data K w t payload ?i ?b"
      "beamfs_inline_decode_block_into_buf K stale v (b_data bh) phys ?i ?b 0 3824 True = (Inr (inline_slice w t 0 3824), w)" by auto
  have n: "beamfs_block_payload w = ?n" by (rule layout_cong(4) [OF d(1)])
  define scratch where "scratch = put_bytes z (replicate (3824 - z) 0) (inline_slice w t 0 3824)"
  define P where "P = take z payload @ replicate (?n - z) (0 :: byte)"
  note f = full_slice [OF d(3), unfolded n, OF s(1)]
  have n3: "?n \<le> 3824" by (rule desc_bounds(4))
  have P: "get_bytes 0 ?n scratch = P" "length P = ?n" "length scratch = 3824"
    using zero_tail_bytes [OF f(2,1) p(2) n3] f(2) s(1) p(2) n3 by (simp_all add: scratch_def P_def)
  have lb: "length (b_data bh) = 4096" using s(5) by (simp add: data_damage_ok_def)
  let ?l = "beamfs_lay_data_payload w (b_data bh) P"
  have "holds_data K w (beamfs_inline_stamp_tail_pad K w ?l P ?i ?b) P ?i ?b"
    by (intro stamp_holds lay_payload) (use lb P(2) n in simp_all)
  from seal_block [OF K this] obtain e where e: "beamfs_seal_data_block K w (beamfs_inline_stamp_tail_pad K w ?l P ?i ?b) = (None, e)"
    "sealed K w e" "holds_data K w e P ?i ?b" by blast
  let ?bh = "bh\<lparr>b_data := e, b_dirty := False, b_uptodate := True\<rparr>"
  let ?v = "w\<lparr>s_blk := (s_blk w)(phys \<mapsto> ?bh)\<rparr>"
  have "beamfs_inline_stamp_tail_pad K w (beamfs_lay_data_payload w (b_data bh) scratch) scratch ?i ?b = beamfs_inline_stamp_tail_pad K w ?l P ?i ?b"
    using lay_prefix(1) [OF P(3), of w "b_data bh"] lay_prefix(2) [of K w _ scratch] P(1) n by metis
  then have z: "zero_tail_rewrite K stale True v ino b z phys = (None, ?v)"
    using p(1) v(2) s(2) d(4) e(1) by (simp add: zero_tail_rewrite_def scratch_def Let_def)
  have "length e = 4096" using e(3) by (simp add: holds_data_def)
  then have "stores K w' phys ino b P" if "w' = ?v" for w'
    unfolding that using e(2,3) P(2) n data_damage_refl [of e ?v]
    by (auto simp: stores_def sealed_def holds_data_def holds_payload_def interleaved_def beamfs_desc_off_def beamfs_selfid_off_def
        beamfs_block_payload_def intro!: exI [of _ e])
  then show ?thesis using z d(1,2) unfolding P_def by (intro exI [of _ ?v] exI [of _ w] exI [of _ ?bh]) simp
qed

text \<open>A data block is not a block of pointers.\<close>

lemma leaf_not_node: "tree_ok d v b \<Longrightarrow> i < 512 ^ d \<Longrightarrow> tree_get d v b i \<noteq> 0 \<Longrightarrow> tree_get d v b i \<in> tree_blocks d v b - tree_nodes d v b"
proof (induction d arbitrary: b i)
  case (Suc d)
  let ?s = "i div 512 ^ d" and ?p = "node_ptr v b"
  have b: "b \<noteq> 0" using Suc.prems(3) by (auto split: if_splits)
  have s: "?s < 512" "i mod 512 ^ d < 512 ^ d" using slot_bounds [of i d] Suc.prems(2) by simp_all
  let ?x = "tree_get d v (?p ?s) (i mod 512 ^ d)"
  have g: "tree_get (Suc d) v b i = ?x" using b by simp
  have "tree_ok d v (?p ?s)" using Suc.prems(1) b s(1) by simp
  from Suc.IH [OF this s(2)] Suc.prems(3) g have x: "?x \<in> tree_blocks d v (?p ?s) - tree_nodes d v (?p ?s)" by simp
  have "?x \<noteq> b" using x Suc.prems(1) b s(1) by auto
  moreover have "?x \<notin> tree_nodes d v (?p t)" if "t < 512" for t
  proof (cases "t = ?s")
    case False
    then have "tree_blocks d v (?p t) \<inter> tree_blocks d v (?p ?s) = {}" using Suc.prems(1) b s(1) that by simp
    then show ?thesis using x tree_nodes_blocks [of d v "?p t"] by blast
  qed (use x in simp)
  ultimately show ?case unfolding g using x b s(1) by auto
qed auto

lemma mapped_block:
  assumes "file_ok v ino" "iblock < MAX_IBLOCK" "file_map v ino iblock \<noteq> 0"
  shows "file_map v ino iblock \<in> file_blocks v ino - file_nodes v ino" "good_block v (file_map v ino iblock)"
proof -
  let ?k = "fst (file_pos iblock)" and ?p = "file_map v ino iblock"
  have k: "?k < 15" using file_pos_bounds [OF assms(2)] by simp
  have p: "?p \<in> fblocks v ino ?k - fnodes v ino ?k"
    using leaf_not_node [OF file_okD(2) [OF assms(1) k], of "snd (file_pos iblock)"] file_pos_bounds [OF assms(2)] assms(3)
    by (simp add: file_map_def ftree_def fblocks_def fnodes_def)
  have "?p \<notin> fnodes v ino l" if "l < 15" for l
  proof (cases "l = ?k")
    case False
    then have "fblocks v ino l \<inter> fblocks v ino ?k = {}" using file_okD(3) [OF assms(1) that k] by simp
    then show ?thesis using p fnodes_fblocks [of v ino l] by blast
  qed (use p in simp)
  then show "?p \<in> file_blocks v ino - file_nodes v ino" using p k by (auto simp: file_blocks_def file_nodes_def)
  show "good_block v ?p" using p tree_blocks_good [OF file_okD(2) [OF assms(1) k]] by (simp add: fblocks_def)
qed

text \<open>A data block rewritten leaves the map alone.\<close>

lemma file_cut_data:
  assumes ok: "file_ok v ino" and k: "keeps v w" and x: "x \<notin> file_nodes v ino" and v': "v' = w\<lparr>s_blk := (s_blk w)(x := y)\<rparr>"
  shows "file_ok v' ino" "file_blocks v' ino = file_blocks v ino" "fnodes v' ino 12 = fnodes v ino 12"
    "iblock < MAX_IBLOCK \<Longrightarrow> file_map v' ino iblock = file_map v ino iblock"
proof -
  note c = file_cut_keeps [OF ok k]
  have r: "releases {} {x} {} w v'" unfolding v' by (rule set_blk_releases) simp
  have xw: "x \<notin> fnodes w ino l" if "l < 15" for l using x file_cutD(5) [OF c that] that by (auto simp: file_nodes_def)
  have i: "s_inode v' = s_inode w" by (simp add: v')
  have T: "tree_ok (file_depth l) v' (file_root (s_inode v' ino) l)" "fblocks v' ino l = fblocks w ino l" "fnodes v' ino l = fnodes w ino l"
    "j < 512 ^ file_depth l \<Longrightarrow> ftree v' ino l j = ftree w ino l j" if l: "l < 15" for l j
    using tree_releases [OF file_okD(2) [OF file_cutD(3) [OF c] l] r] xw [OF l] by (simp_all add: i fblocks_def fnodes_def ftree_def)
  have n: "fnodes w ino 12 = fnodes v ino 12"
    using tree_keeps(3) [OF file_okD(2) [OF ok, of 12] k] same_root [OF touchedI(2) [OF frameD(5) [OF keeps_frame [OF k]]]]
    by (simp add: fnodes_def)
  show "file_ok v' ino" using T(1,2) file_cutD(3) [OF c] by (simp add: file_ok_def i)
  show "file_blocks v' ino = file_blocks v ino" using T(2) file_cut_blocks [OF c] by (simp add: file_blocks_def)
  show "fnodes v' ino 12 = fnodes v ino 12" using T(3) n by simp
  show "file_map v' ino iblock = file_map v ino iblock" if "iblock < MAX_IBLOCK"
    using T(4) file_cutD(6) [OF c] file_pos_bounds [OF that] by (simp add: file_map_def)
qed

text \<open>A change of the inode that keeps its pointers.\<close>

definition same_pointers :: "vinode \<Rightarrow> vinode \<Rightarrow> bool" where
  "same_pointers i j \<longleftrightarrow> i_direct j = i_direct i \<and> i_indirect j = i_indirect i \<and> i_dindirect j = i_dindirect i \<and> i_tindirect j = i_tindirect i"

lemma file_same:
  assumes "same_pointers (s_inode v ino) (s_inode v' ino)" "s_blk v' = s_blk v"
    "\<And>x. beamfs_block_is_allocated v' x = beamfs_block_is_allocated v x" "s_nblocks v' = s_nblocks v" "s_data_start v' = s_data_start v"
  shows "file_ok v ino \<Longrightarrow> file_ok v' ino" "fnodes v' ino k = fnodes v ino k" "fblocks v' ino k = fblocks v ino k"
    "iblock < MAX_IBLOCK \<Longrightarrow> file_map v' ino iblock = file_map v ino iblock"
proof -
  have r: "file_root (s_inode v' ino) k = file_root (s_inode v ino) k" for k using assms(1) by (simp add: file_root_def same_pointers_def)
  note T = tree_cong [of _ v _ v', OF arg_cong [where f = "\<lambda>f. f _", OF assms(2)]]
  show fn: "fnodes v' ino k = fnodes v ino k" and fb: "fblocks v' ino k = fblocks v ino k" for k
    by (simp_all add: fnodes_def fblocks_def r T(2,3))
  have "tree_ok d v' b" if "tree_ok d v b" for d b
    using that tree_blocks_good [OF that] good_allocated(1) assms by (intro tree_ok_kept [OF that]) auto
  then show "file_ok v ino \<Longrightarrow> file_ok v' ino" using assms(1) fb by (simp add: file_ok_def r same_pointers_def)
  show "file_map v' ino iblock = file_map v ino iblock" if "iblock < MAX_IBLOCK"
    using T(1) file_pos_bounds [OF that] by (simp add: file_map_def ftree_def r)
qed

lemma upd_inode_file:
  assumes "same_pointers (s_inode v ino) (f (s_inode v ino))"
  shows "file_ok v ino \<Longrightarrow> file_ok (upd_inode ino f v) ino" "fnodes (upd_inode ino f v) ino k = fnodes v ino k"
    "fblocks (upd_inode ino f v) ino k = fblocks v ino k"
    "iblock < MAX_IBLOCK \<Longrightarrow> file_map (upd_inode ino f v) ino iblock = file_map v ino iblock"
  using file_same [of v ino "upd_inode ino f v"] assms by (simp_all add: upd_inode_def)

lemma upd_inode_trusted [simp]: "trusted (upd_inode ino f v) x = trusted v x"
  unfolding trusted_def using ind_parity_slot_cong [of "upd_inode ino f v" v x] by (simp add: upd_inode_def)

lemma upd_inode_ctx [simp]:
  "alloc_inv (upd_inode ino f v) = alloc_inv v" "layout_ok (upd_inode ino f v) = layout_ok v" "s_copy_ok (upd_inode ino f v) = s_copy_ok v"
  "s_scratch_ok (upd_inode ino f v) = s_scratch_ok v" "s_free_blocks (upd_inode ino f v) = s_free_blocks v"
  "beamfs_block_payload (upd_inode ino f v) = beamfs_block_payload v" "s_nblocks (upd_inode ino f v) = s_nblocks v"
  by (simp_all add: upd_inode_def alloc_inv_def layout_ok_def budget_region_def beamfs_block_payload_def interleaved_def)

lemma stores_upd_inode [simp]: "stores K (upd_inode j f v) phys ino b payload = stores K v phys ino b payload"
  by (rule stores_cong) (simp_all add: upd_inode_def)

text \<open>The tail of the last block zeroed, where the file has that block.\<close>

lemma zero_tail_spec:
  assumes K: "kernel_lib K" and v: "layout_ok v" "s_scratch_ok v" "file_ok v ino" "\<forall>x \<in> file_nodes v ino. trusted v x" "s_free_blocks v \<noteq> 0"
    and p: "b < MAX_IBLOCK" "file_map v ino b \<noteq> 0" "z < beamfs_block_payload v" and st: "stores K v (file_map v ino b) ino b payload"
  shows "\<exists>v' w bh. beamfs_inline_zero_tail_block K stale False True v ino b z = (None, v') \<and> keeps v w \<and> s_verified w = s_verified v
    \<and> v' = w\<lparr>s_blk := (s_blk w)(file_map v ino b \<mapsto> bh)\<rparr>
    \<and> stores K v' (file_map v ino b) ino b (take z payload @ replicate (beamfs_block_payload v - z) 0)"
proof -
  have "z < 3824" using p(3) desc_bounds(4) [of v] by simp
  moreover have "beamfs_phys_is_sane v (file_map v ino b) = (True, v)"
    using mapped_block(2) [OF v(3) p(1,2)] p(2) by (simp add: beamfs_phys_is_sane_def good_block_def)
  ultimately have "beamfs_inline_zero_tail_block K stale False True v ino b z = zero_tail_rewrite K stale True v ino b z (file_map v ino b)"
    using lookup_phys_map [OF v(3,4) p(1), of K] lookup_or_alloc_mapped [OF v(3,4) p(1,2) v(5), of K]
    by (simp add: beamfs_inline_zero_tail_block_def)
  then show ?thesis using zero_tail_rewrite_spec [OF K v(1,2) p(2,3) st] by simp
qed

lemma file_cut_map:
  assumes "file_cut ino (cut_below first) F v v'" "iblock < MAX_IBLOCK"
  shows "file_map v' ino iblock = (if iblock < first then file_map v ino iblock else 0)"
  using file_cutD(6) [OF assms(1), of "fst (file_pos iblock)" "snd (file_pos iblock)"] file_pos_bounds [OF assms(2)]
  by (auto simp: cut_below_def file_map_def file_pos_def split: if_splits)

lemma stores_cut:
  assumes c: "file_cut ino keep F v v'" and p: "p \<notin> file_nodes v ino" "s_data_start v \<le> p"
  shows "stores K v' p ino b payload = stores K v p ino b payload"
proof -
  note a = releasesD(1) [OF file_cutD(1) [OF c]]
  show ?thesis by (rule stores_cong) (use a altersD(11) [OF a p(2,1)] in \<open>simp_all add: alters_def\<close>)
qed

lemma ceil_index: "0 < n \<Longrightarrow> i < (m + n - 1) div n \<longleftrightarrow> i * n < (m :: nat)"
  by (simp add: less_eq_div_iff_mult_less_eq Suc_le_eq [symmetric] le_diff_conv2)

text \<open>The first half of a truncation: the size and the tail of the last block.\<close>

lemma truncate_tail:
  fixes v :: "'a volume_scheme"
  assumes K: "kernel_lib K" and v: "alloc_inv v" "layout_ok v" "file_ok v ino" "\<forall>x \<in> file_nodes v ino. trusted v x"
    "s_copy_ok v" "s_scratch_ok v" "s_free_blocks v \<noteq> 0"
    and n: "z < beamfs_block_payload v" "b < MAX_IBLOCK" "file_map v ino b \<noteq> 0" "stores K v (file_map v ino b) ino b payload"
  shows "\<exists>w. beamfs_inline_zero_tail_block K stale False True (set_size ino m v) ino b z = (None, w)
    \<and> alloc_inv w \<and> layout_ok w \<and> file_ok w ino \<and> s_copy_ok w \<and> (\<forall>x \<in> fnodes w ino 12. trusted w x)
    \<and> (\<forall>i < MAX_IBLOCK. file_map w ino i = file_map v ino i) \<and> i_size (s_inode w ino) = m
    \<and> stores K w (file_map v ino b) ino b (take z payload @ replicate (beamfs_block_payload v - z) 0)"
proof -
  let ?v = "set_size ino m v" and ?p = "file_map v ino b"
  have sp: "same_pointers i (i\<lparr>i_size := s\<rparr>)" for i s by (simp add: same_pointers_def)
  note S = upd_inode_file [where f = "\<lambda>i. i\<lparr>i_size := m\<rparr>" and v = v and ino = ino, OF sp, folded set_size_def]
  have tr: "trusted ?v x = trusted v x" for x by (simp add: set_size_def)
  have Sn: "file_nodes ?v ino = file_nodes v ino" by (simp add: file_nodes_def S(2))
  have Sc: "layout_ok ?v" "alloc_inv ?v" "s_scratch_ok ?v" "s_copy_ok ?v" "s_free_blocks ?v \<noteq> 0"
    "beamfs_block_payload ?v = beamfs_block_payload v" "stores K ?v ?p ino b payload"
    using v n(4) by (simp_all add: set_size_def)
  have Sm: "file_map ?v ino i = file_map v ino i" if "i < MAX_IBLOCK" for i by (rule S(4) [OF that])
  have ok: "file_ok ?v ino" by (rule S(1) [OF v(3)])
  from zero_tail_spec [OF K Sc(1,3) ok _ Sc(5) n(2), unfolded Sm [OF n(2)] Sn tr Sc(6), OF v(4) n(3,1) Sc(7), of stale] obtain w u bh where
    w: "beamfs_inline_zero_tail_block K stale False True ?v ino b z = (None, w)" "keeps ?v u" "s_verified u = s_verified ?v"
      "w = u\<lparr>s_blk := (s_blk u)(?p \<mapsto> bh)\<rparr>" "stores K w ?p ino b (take z payload @ replicate (beamfs_block_payload v - z) 0)"
    by blast
  have pn: "?p \<notin> file_nodes ?v ino" using mapped_block(1) [OF v(3) n(2,3)] Sn by simp
  note D = file_cut_data [OF ok w(2) pn w(4)]
  note k = keeps_frame [OF w(2)]
  have "alloc_inv w" "layout_ok w" "s_copy_ok w"
    using frameD(3,7) [OF k] Sc(2,4) keeps_layout [OF w(2)] Sc(1) unfolding w(4) by (simp_all add: alloc_inv_def layout_ok_def budget_region_def)
  moreover have "trusted w x = trusted v x" for x
  proof -
    have "trusted u x = trusted ?v x" by (rule trusted_cong [OF frame_alters [OF k] w(3)])
    moreover have "trusted w x = trusted u x"
      unfolding w(4) trusted_def using ind_parity_slot_cong [of "u\<lparr>s_blk := (s_blk u)(?p \<mapsto> bh)\<rparr>" u x] by simp
    ultimately show ?thesis using tr by simp
  qed
  then have "\<forall>x \<in> fnodes w ino 12. trusted w x" using v(4) D(3) S(2) by (auto simp: file_nodes_def)
  moreover have "i_size (s_inode w ino) = m"
    using same_inodeD(5) [OF frameD(5) [OF k, of ino]] unfolding w(4) by (simp add: set_size_def)
  ultimately show ?thesis using w(1,5) D(1) D(4) Sm by simp
qed

lemma truncate_down_spec:
  fixes v :: "'a volume_scheme"
  assumes K: "kernel_lib K" and v: "alloc_inv v" "layout_ok v" "file_ok v ino" "\<forall>x \<in> file_nodes v ino. trusted v x"
    "s_copy_ok v" "s_scratch_ok v" "s_free_blocks v \<noteq> 0"
    and n: "n = beamfs_block_payload v" "unat m \<le> MAX_IBLOCK * n"
    and tail: "unat m mod n \<noteq> 0 \<Longrightarrow> 0 < sint m \<and> file_map v ino (unat m div n) = p \<and> p \<noteq> 0 \<and> stores K v p ino (unat m div n) payload"
  shows "\<exists>w. truncate_down K stale False True v ino m = (None, w) \<and> i_size (s_inode w ino) = m \<and> file_ok w ino
    \<and> (\<forall>i < MAX_IBLOCK. file_map w ino i = (if i * n < unat m then file_map v ino i else 0))
    \<and> (unat m mod n \<noteq> 0 \<longrightarrow> stores K w p ino (unat m div n) (take (unat m mod n) payload @ replicate (n - unat m mod n) 0))"
proof -
  let ?t = "unat m mod n" and ?b = "unat m div n" and ?v = "set_size ino m v"
  have n0: "0 < n" using n(1) by (simp add: beamfs_block_payload_def)
  define first where "first = (unat m + n - 1) div n"
  note lt = ceil_index [OF n0, of _ "unat m", folded first_def]
  have "\<not> MAX_IBLOCK < first" unfolding lt using n(2) by (simp only: not_less)
  then have f32: "first < 2 ^ 32" by simp
  have b: "?b * n < unat m" "?b < MAX_IBLOCK" if "?t \<noteq> 0"
  proof -
    show "?b * n < unat m" using that div_mult_mod_eq [of "unat m" n] by linarith
    then have "?b * n < MAX_IBLOCK * n" using n(2) by (rule less_le_trans)
    then show "?b < MAX_IBLOCK" by (simp only: mult_less_cancel2)
  qed
  have sp: "same_pointers i (i\<lparr>i_size := s\<rparr>)" for i s by (simp add: same_pointers_def)
  note S = upd_inode_file [where f = "\<lambda>i. i\<lparr>i_size := m\<rparr>" and v = v and ino = ino, OF sp, folded set_size_def]
  obtain u where u: "(if ?t \<noteq> 0 \<and> 0 < sint m then beamfs_inline_zero_tail_block K stale False True ?v ino ?b ?t else (None, ?v)) = (None, u)"
    "alloc_inv u" "layout_ok u" "file_ok u ino" "s_copy_ok u" "\<forall>x \<in> fnodes u ino 12. trusted u x"
    "\<forall>i < MAX_IBLOCK. file_map u ino i = file_map v ino i" "i_size (s_inode u ino) = m"
    "?t \<noteq> 0 \<longrightarrow> stores K u p ino ?b (take ?t payload @ replicate (n - ?t) 0)"
  proof (cases "?t = 0")
    case True
    have "\<forall>x \<in> fnodes ?v ino 12. trusted ?v x" using v(4) S(2) by (auto simp: set_size_def file_nodes_def)
    then show thesis using that [of ?v] True v S(1,4) by (simp add: set_size_def)
  next
    case False
    have tn: "?t < beamfs_block_payload v" unfolding n(1) [symmetric] by (rule mod_less_divisor [OF n0])
    have pm: "0 < sint m" "file_map v ino ?b = p" "p \<noteq> 0" "stores K v p ino ?b payload" using tail [OF False] by blast+
    have zt: "?t \<noteq> 0 \<and> 0 < sint m" using False pm(1) by blast
    from truncate_tail [OF K v tn b(2) [OF False], unfolded pm(2), OF pm(3,4), of stale m] show thesis
      using that unfolding if_P [OF zt] n(1) [symmetric] by blast
  qed
  obtain F where
    c: "file_cut ino (cut_below first) F u (beamfs_inline_free_blocks_from K u ino first)"
    using free_blocks_from_cut [OF u(2,3,4,5,6) f32, of K] by (rule exE)
  let ?w = "beamfs_inline_free_blocks_from K u ino first"
  have e: "truncate_down K stale False True v ino m = (None, ?w)"
    using u(1) unfolding truncate_down_def n(1) [symmetric] first_def Let_def by simp
  have "file_map ?w ino i = (if i * n < unat m then file_map v ino i else 0)" if "i < MAX_IBLOCK" for i
    using file_cut_map [OF c that] u(7) that lt [of i] by simp
  moreover have "stores K ?w p ino ?b (take ?t payload @ replicate (n - ?t) 0)" if "?t \<noteq> 0"
  proof -
    have "file_map u ino ?b = p" "p \<noteq> 0" using tail [OF that] u(7) b(2) [OF that] by auto
    with mapped_block [OF u(4) b(2) [OF that]] have "p \<notin> file_nodes u ino" "s_data_start u \<le> p"
      by (auto simp: good_block_def in_data_region_def)
    from stores_cut [OF c this] u(9) that show ?thesis by simp
  qed
  ultimately show ?thesis using e file_cutD(3,7) [OF c] u(8) by (intro exI [of _ ?w]) simp
qed

end
