(* ===== verification/Truncate_Props.thy ===== *)
theory Truncate_Props
  imports Truncate_Correct
begin

section \<open>What truncation and eviction promise\<close>

text \<open>
  The properties of \<^verbatim>\<open>beamfs_inline_free_blocks_from\<close>, \<^verbatim>\<open>beamfs_inline_setattr\<close> and \<^verbatim>\<open>beamfs_evict_inode\<close>, each with
  a volume on which its hypotheses hold.
\<close>

subsection \<open>Truncation\<close>

text \<open>C4: Truncation cuts the map of a file and frees exactly what it cut. On a file whose tree is in order,
  with the memory for the walk and a single indirect block the parity accepts, \<^const>\<open>beamfs_inline_free_blocks_from\<close>
  keeps the map below the first index freed and clears it from there on; the tree stays in order; the blocks
  the file no longer names, data and pointers, are free unless the volume failed on the way, no other block of the
  volume changes its state, and every other file keeps its tree and its map.\<close>
theorem free_blocks_from_truncates:
  fixes v :: "'a volume_scheme"
  assumes "alloc_inv v" "layout_ok v" "file_ok v ino" "s_copy_ok v" "\<forall>x \<in> fnodes v ino 12. trusted v x" "first < 2 ^ 32"
    and "beamfs_inline_free_blocks_from K v ino first = v'"
  shows "file_ok v' ino \<and> (\<forall>i < BEAMFS_MAX_IBLOCK_TINDIRECT. file_map v' ino i = (if i < first then file_map v ino i else 0))
    \<and> file_blocks v' ino \<subseteq> file_blocks v ino
    \<and> (\<forall>x. x \<notin> file_blocks v ino - file_blocks v' ino \<longrightarrow> beamfs_block_is_allocated v' x = beamfs_block_is_allocated v x)
    \<and> (\<not> s_failed v' \<longrightarrow> (\<forall>x \<in> file_blocks v ino - file_blocks v' ino. \<not> beamfs_block_is_allocated v' x))
    \<and> (\<forall>j. j \<noteq> ino \<and> file_ok v j \<and> file_blocks v j \<inter> file_blocks v ino = {} \<longrightarrow>
         file_ok v' j \<and> (\<forall>i < BEAMFS_MAX_IBLOCK_TINDIRECT. file_map v' j i = file_map v j i))"
proof -
  obtain F where
    c: "file_cut ino (cut_below first) F v v'"
    using free_blocks_from_cut [OF assms(1-6), of K, unfolded assms(7)] by (rule exE)
  have F: "file_blocks v ino - file_blocks v' ino = F" using file_cut_blocks [OF c] file_cutD(2) [OF c] by blast
  note r = releasesD [OF file_cutD(1) [OF c]]
  have "\<forall>j. j \<noteq> ino \<and> file_ok v j \<and> file_blocks v j \<inter> file_blocks v ino = {} \<longrightarrow>
      file_ok v' j \<and> (\<forall>i < MAX_IBLOCK. file_map v' j i = file_map v j i)"
    using file_releases_other [OF file_cutD(1,2) [OF c]] by blast
  then show ?thesis
    using file_cutD(3) [OF c] file_cut_map [OF c] file_cut_blocks [OF c] r(2,4) unfolding F by simp
qed

text \<open>C6: Shrinking a file keeps its first bytes and forgets the rest. On a file in order whose blocks of pointers
  the parity accepts, on a volume with a free block, \<^const>\<open>beamfs_inline_setattr\<close> to a smaller size succeeds, sets the
  size, keeps the blocks below the new end and unmaps the others. Where the new end lies inside a block the
  file has, that block, damaged up to the radius of the code before, afterwards holds its bytes up to the new end
  and zeros behind it, sealed again.\<close>
theorem setattr_shrinks:
  fixes v :: "'a volume_scheme"
  assumes K: "kernel_lib K" and v: "alloc_inv v" "layout_ok v" "file_ok v ino" "\<forall>x \<in> file_nodes v ino. trusted v x"
    "s_copy_ok v" "s_scratch_ok v" "s_free_blocks v \<noteq> 0"
    and sz: "sint new_size < sint (i_size (s_inode v ino))" "n = beamfs_block_payload v" "unat new_size \<le> BEAMFS_MAX_IBLOCK_TINDIRECT * n"
    and tail: "unat new_size mod n \<noteq> 0 \<Longrightarrow> 0 < sint new_size \<and> file_map v ino (unat new_size div n) = p \<and> p \<noteq> 0
      \<and> stores K v p ino (unat new_size div n) payload"
    and copy: "\<And>i. same_pointers i (copy i) \<and> i_size (copy i) = i_size i"
    and r: "beamfs_inline_setattr K stale False True None None copy v ino (Some new_size) = (ret, v')"
  shows "ret = None \<and> i_size (s_inode v' ino) = new_size \<and> file_ok v' ino
    \<and> (\<forall>i < BEAMFS_MAX_IBLOCK_TINDIRECT. file_map v' ino i = (if i * n < unat new_size then file_map v ino i else 0))
    \<and> (unat new_size mod n \<noteq> 0 \<longrightarrow> stores K v' p ino (unat new_size div n)
         (take (unat new_size mod n) payload @ replicate (n - unat new_size mod n) 0))"
proof -
  from truncate_down_spec [OF K v sz(2,3) tail, of stale] obtain w where
    w: "truncate_down K stale False True v ino new_size = (None, w)" "i_size (s_inode w ino) = new_size" "file_ok w ino"
      "\<forall>i < MAX_IBLOCK. file_map w ino i = (if i * n < unat new_size then file_map v ino i else 0)"
      "unat new_size mod n \<noteq> 0 \<longrightarrow> stores K w p ino (unat new_size div n)
         (take (unat new_size mod n) payload @ replicate (n - unat new_size mod n) 0)" by blast
  let ?f = "\<lambda>i. (copy (i\<lparr>i_mtime := k_time (s_clk w), i_ctime := k_time (s_clk w)\<rparr>))\<lparr>i_dirty := True\<rparr>"
  have e: "ret = None" "v' = upd_inode ino ?f w"
    using r w(1) sz(1) by (simp_all add: beamfs_inline_setattr_def mark_inode_dirty_def upd_inode_def)
  have "same_pointers i (?f i)" "i_size (?f i) = i_size i" for i
    using copy [of "i\<lparr>i_mtime := k_time (s_clk w), i_ctime := k_time (s_clk w)\<rparr>"] by (simp_all add: same_pointers_def)
  note U = upd_inode_file [of w ino ?f, OF this(1)] and sz' = this(2)
  have "i_size (s_inode (upd_inode ino ?f w) ino) = new_size" using sz' w(2) by (simp only: upd_inode_simps if_True refl)
  moreover have "file_map (upd_inode ino ?f w) ino i = (if i * n < unat new_size then file_map v ino i else 0)" if "i < MAX_IBLOCK" for i
    using U(4) [OF that] w(4) that by (simp only:)
  ultimately show ?thesis unfolding e(2) stores_upd_inode using e(1) U(1) [OF w(3)] w(5) by blast
qed

text \<open>C40: On a full volume a file cannot be shrunk into one of its blocks. The step that clears the tail of the block
  first asks the allocator, which refuses with \<^const>\<open>ENOSPC\<close> while no block is free although the block is there;
  \<^const>\<open>beamfs_inline_setattr\<close> has stored the smaller size by then, returns the error, and leaves every block past
  the new end mapped.\<close>
theorem full_volume_shrink_fails:
  fixes v :: "'a volume_scheme"
  assumes "file_ok v ino" "\<forall>x \<in> file_nodes v ino. trusted v x" "s_free_blocks v = 0"
    and sz: "sint new_size < sint (i_size (s_inode v ino))" "0 < sint new_size" "n = beamfs_block_payload v" "unat new_size mod n \<noteq> 0"
      "unat new_size div n < BEAMFS_MAX_IBLOCK_TINDIRECT" "file_map v ino (unat new_size div n) \<noteq> 0"
    and r: "beamfs_inline_setattr K stale False True None None copy v ino (Some new_size) = (ret, v')"
  shows "ret = Some ENOSPC \<and> i_size (s_inode v' ino) = new_size
    \<and> (\<forall>i < BEAMFS_MAX_IBLOCK_TINDIRECT. file_map v' ino i = file_map v ino i)"
proof -
  let ?v = "set_size ino new_size v" and ?b = "unat new_size div n"
  have sp: "same_pointers (s_inode v ino) ((s_inode v ino)\<lparr>i_size := new_size\<rparr>)" by (simp add: same_pointers_def)
  note U = upd_inode_file [of v ino "\<lambda>n. n\<lparr>i_size := new_size\<rparr>", OF sp, folded set_size_def]
  have "\<forall>x \<in> file_nodes ?v ino. trusted ?v x" using assms(2) U(2) by (simp add: file_nodes_def set_size_def)
  note L = lookup_phys_map [OF U(1) [OF assms(1)] this sz(5), of K]
  have f: "s_free_blocks ?v = 0" "beamfs_block_payload ?v = n"
    using assms(3) sz(3) by (simp_all add: set_size_def upd_inode_def beamfs_block_payload_def interleaved_def)
  have "file_map ?v ino ?b \<noteq> 0" using sz(6) U(4) [OF sz(5)] by simp
  from mapped_block(2) [OF U(1) [OF assms(1)] sz(5) this]
  have "beamfs_inline_lookup_or_alloc_phys_new K False ?v ino ?b = (Inl ENOSPC, ?v)"
    using f(1) by (simp add: beamfs_inline_lookup_or_alloc_phys_new_def)
  moreover have "unat new_size mod n < BEAMFS_DATA_INLINE_BYTES"
  proof -
    have "0 < n" "n \<le> BEAMFS_DATA_INLINE_BYTES" using sz(3) by (simp_all add: beamfs_block_payload_def)
    then show ?thesis using mod_less_divisor [of n "unat new_size"] by linarith
  qed
  ultimately have "truncate_down K stale False True v ino new_size = (Some ENOSPC, ?v)"
    using sz(2,4) L by (simp add: truncate_down_def sz(3) [symmetric] beamfs_inline_zero_tail_block_def)
  then have "ret = Some ENOSPC" "v' = ?v" using r sz(1) by (simp_all add: beamfs_inline_setattr_def)
  then show ?thesis using U(4) by (simp add: set_size_def upd_inode_def)
qed

subsection \<open>Eviction\<close>

lemma write_inode_fails: "s_failed v \<Longrightarrow> s_failed (snd (beamfs_write_inode_raw K v ino))"
  by (simp add: beamfs_write_inode_raw_def beamfs_write_inode_raw_flags_def beamfs_bread_def Let_def split: option.split)

lemma write_inode_quiet:
  "\<not> s_failed v \<Longrightarrow> s_blk v (inode_block v ino) = Some bh
    \<Longrightarrow> \<not> s_failed (snd (beamfs_write_inode_raw K v ino)) \<and> s_sbh (snd (beamfs_write_inode_raw K v ino)) = s_sbh v"
  by (simp add: beamfs_write_inode_raw_def beamfs_write_inode_raw_flags_def beamfs_bread_def Let_def)

lemma write_inode_same:
  "s_icached (snd (beamfs_write_inode_raw K v ino)) = s_icached v"
  "beamfs_block_is_allocated (snd (beamfs_write_inode_raw K v ino)\<lparr>s_icached := c\<rparr>) x = beamfs_block_is_allocated v x"
proof -
  note d = beamfs_write_inode_raw_def beamfs_write_inode_raw_flags_def beamfs_bread_def beamfs_fail_def Let_def
  show "s_icached (snd (beamfs_write_inode_raw K v ino)) = s_icached v" by (simp add: d split: option.split)
  show "beamfs_block_is_allocated (snd (beamfs_write_inode_raw K v ino)\<lparr>s_icached := c\<rparr>) x = beamfs_block_is_allocated v x"
    by (rule is_allocated_cong) (simp_all add: d split: option.split)
qed

lemma file_nodes_region:
  assumes "file_ok v ino" "x \<in> file_nodes v ino"
  shows "s_data_start v \<le> x"
proof -
  obtain k where k: "k < 15" "x \<in> fnodes v ino k" using assms(2) by (auto simp: file_nodes_def)
  then have "x \<in> tree_blocks (file_depth k) v (file_root (s_inode v ino) k)" using fnodes_fblocks [of v ino k] by (auto simp: fblocks_def)
  then show ?thesis using tree_blocks_good [OF file_okD(2) [OF assms(1) k(1)]] good_allocated(2) by blast
qed

text \<open>The volume at the moment \<^const>\<open>beamfs_evict_inode\<close> writes the record back.\<close>

lemma evict_cut:
  fixes v :: "'a volume_scheme" and K :: kenv and ino :: nat
  assumes v: "alloc_inv v" "layout_ok v" "file_ok v ino" "\<not> S_ISLNK (i_mode (s_inode v ino))"
    and t: "s_blk v (inode_block v ino) = Some bh" "inode_block v ino < s_data_start v" "inode_block v ino \<notin> side_region v"
  defines "a \<equiv> beamfs_rsv_discard v ino"
  defines "c \<equiv> upd_inode ino (\<lambda>n. n\<lparr>i_mode := 0\<rparr>) (beamfs_free_data_blocks K a ino)"
  shows "releases {ino} (file_nodes v ino) (file_blocks v ino) v c" "inode_block c ino = inode_block v ino"
    "s_blk c (inode_block v ino) = Some bh" "length (i_direct (s_inode c ino)) = 12" "i_mode (s_inode c ino) = 0"
    "i_nlink (s_inode a ino) = i_nlink (s_inode v ino)"
proof -
  define b where "b = beamfs_free_data_blocks K a ino"
  have c: "c = upd_inode ino (\<lambda>n. n\<lparr>i_mode := 0\<rparr>) b" by (simp add: c_def b_def)
  have ka: "keeps v a" unfolding a_def by (rule rsv_discard_keeps)
  have ca: "file_cut ino (\<lambda>k i. True) {} v a" by (rule file_cut_keeps [OF v(3) ka])
  show "i_nlink (s_inode a ino) = i_nlink (s_inode v ino)" by (rule file_cutD(9) [OF ca])
  have "alloc_inv a" "layout_ok a" "file_ok a ino" using file_cut_ctx [OF ca v(1,2)] by simp_all
  from free_data_blocks_cut [OF this, of K] have cb: "file_cut ino (\<lambda>k i. False) (file_blocks a ino) a b"
    using file_cutD(8) [OF ca] v(4) by (simp add: b_def)
  have "file_blocks a ino = file_blocks v ino" using file_cutD(4) [OF ca] by (simp add: file_blocks_def)
  moreover have "file_nodes a ino \<subseteq> file_nodes v ino" using file_cutD(5) [OF ca] by (fastforce simp: file_nodes_def)
  ultimately have rb: "releases {ino} (file_nodes v ino) (file_blocks v ino) v b"
    using releases_trans [OF file_cutD(1) [OF ca] releases_mono [OF file_cutD(1) [OF cb] subset_refl]] by simp
  show rc: "releases {ino} (file_nodes v ino) (file_blocks v ino) v c"
    using releases_trans [OF rb upd_inode_releases [of ino "{ino}" _ b "\<lambda>n. n\<lparr>i_mode := 0\<rparr>"]] by (simp add: c)
  note A = altersD [OF releasesD(1) [OF rc]]
  have "length (s_beamfs_sb v) = 4096" using v(1) by (simp add: alloc_inv_def)
  then show "inode_block c ino = inode_block v ino" using sb_keptD [OF A(12) [OF v(1)]] by (simp add: inode_block_def)
  have "inode_block v ino \<notin> file_nodes v ino" using t(2) file_nodes_region [OF v(3)] by fastforce
  then show "s_blk c (inode_block v ino) = Some bh" using A(14) [OF _ t(3)] t(1) by simp
  show "length (i_direct (s_inode c ino)) = 12" "i_mode (s_inode c ino) = 0"
    using file_cutD(3) [OF cb] by (simp_all add: c file_ok_def upd_inode_def)
qed

text \<open>C7: Evicting an unlinked file gives back exactly its blocks. On a file whose tree is in order (not a symbolic
  link), \<^const>\<open>beamfs_evict_inode\<close> on a volume that did not fail leaves allocated the blocks that were, less every
  block of the file, its data and its pointers; and the record it wrote is one a later
  \<^const>\<open>beamfs_iget\<close> of the number refuses as stale, so no stale handle reads the blocks again.\<close>
theorem evict_reclaims:
  fixes v :: "'a volume_scheme"
  assumes K: "kernel_lib K" and v: "alloc_inv v" "layout_ok v" "file_ok v ino" "\<not> S_ISLNK (i_mode (s_inode v ino))"
      "i_nlink (s_inode v ino) = 0"
    and t: "1 \<le> ino" "ino \<le> unat (sb_inode_count (s_beamfs_sb v))" "s_inode_ok v" "s_blk v (inode_block v ino) = Some bh"
      "length (b_data bh) = 4096" "inode_block v ino < s_data_start v" "inode_block v ino \<notin> side_region v"
    and r: "beamfs_evict_inode K v ino = v'" "\<not> s_failed v'"
  shows "(\<forall>x. beamfs_block_is_allocated v' x \<longleftrightarrow> beamfs_block_is_allocated v x \<and> x \<notin> file_blocks v ino)
    \<and> beamfs_iget K v' ino = (Inl ESTALE, v')"
proof -
  define c where "c = upd_inode ino (\<lambda>n. n\<lparr>i_mode := 0\<rparr>) (beamfs_free_data_blocks K (beamfs_rsv_discard v ino) ino)"
  define d where "d = (snd (beamfs_write_inode_raw K c ino))\<lparr>s_icached := (s_icached c)(ino := False)\<rparr>"
  note C = evict_cut(1-5) [OF v(1-4) t(4,6,7), where K = K, folded c_def] and C6 = evict_cut(6) [OF v(1-4) t(4,6,7)]
  have e: "v' = beamfs_free_inode_num K d ino"
    using write_inode_same(1) [of K c ino] r(1) [symmetric] C6 v(5)
    unfolding beamfs_evict_inode_def Let_def c_def [symmetric] d_def by simp
  have kd: "renumbers d v'" unfolding e by (rule free_inode_renumbers)
  have fd: "\<not> s_failed d" using renumbersD(8) [OF kd] r(2) by blast
  then have fc: "\<not> s_failed c" using write_inode_fails [of c K ino] by (auto simp: d_def)
  note A = altersD [OF releasesD(1) [OF C(1)]]
  have "length (s_beamfs_sb v) = 4096" using v(1) by (simp add: alloc_inv_def)
  note S = sb_keptD [OF A(12) [OF v(1)] this]
  have sr: "side_region c = side_region v" by (rule alters_side [OF releasesD(1) [OF C(1)]])
  have bc: "s_blk c (inode_block c ino) = Some bh" using C(2,3) by simp
  have "beamfs_iget K v' ino = (Inl ESTALE, v')"
    by (rule write_inode_stale [OF K t(1) _ C(4,5) _ bc t(5) fc kd [unfolded d_def]]) (use t S A(3) [OF v(1)] A(9) C(2) sr in simp_all)
  moreover have "beamfs_block_is_allocated v' x = beamfs_block_is_allocated c x" for x
    using renumbersD(11) [OF kd, of x] write_inode_same(2) [where K = K and v = c and ino = ino and x = x] by (simp add: d_def)
  ultimately show ?thesis using releasesD(2,3) [OF C(1)] releasesD(4) [OF C(1) fc] by blast
qed

subsection \<open>Witnesses\<close>

text \<open>A volume of two data blocks. The first is the only block of the files, 200 bytes long and without a name; the
  second is free, or not.\<close>

definition wit_trunc :: "bool \<Rightarrow> buffer_head option \<Rightarrow> volume" where
  "wit_trunc room bh = (wit_data 0)\<lparr>s_nblocks := 2, s_block_bitmap := Some [False, room], s_free_blocks := (if room then 1 else 0),
     s_beamfs_sb := put_le64 16 (if room then 1 else 0) wit_vsb, s_blk := (s_blk wit_vol)(10 := bh),
     s_inode := (\<lambda>_. wit_inode\<lparr>i_direct := 10 # replicate 11 0, i_size := 200, i_mode := 0x81A4, i_nlink := 0\<rparr>)\<rparr>"

lemma wit_trunc_simps [simp]:
  "s_nblocks (wit_trunc room bh) = 2" "s_data_start (wit_trunc room bh) = 10" "s_block_bitmap (wit_trunc room bh) = Some [False, room]"
  "s_free_blocks (wit_trunc room bh) = (if room then 1 else 0)" "s_copy_ok (wit_trunc room bh)" "s_scratch_ok (wit_trunc room bh)"
  "s_blk (wit_trunc room bh) = (\<lambda>b. if b < 9 then Some zero_bh else None)(10 := bh)" "s_inode_ok (wit_trunc room bh)"
  "s_sbh (wit_trunc room bh) = None" "s_bitmap_blkhs (wit_trunc room bh) = None" "\<not> s_failed (wit_trunc room bh)"
  "s_beamfs_sb (wit_trunc room bh) = put_le64 16 (if room then 1 else 0) wit_vsb"
  "s_inode (wit_trunc room bh) = (\<lambda>_. wit_inode\<lparr>i_direct := 10 # replicate 11 0, i_size := 200, i_mode := 0x81A4, i_nlink := 0\<rparr>)"
  "beamfs_block_is_allocated (wit_trunc room bh) 10"
  by (simp_all add: wit_trunc_def wit_data_def beamfs_block_is_allocated_def test_bit_def)

lemma wit_trunc_root: "file_root (s_inode (wit_trunc room bh) 1) k = (if k = 0 then 10 else 0)"
proof (cases "k < 12")
  case True
  then show ?thesis by (cases k) (simp_all add: file_root_def wit_inode_def)
qed (simp add: file_root_def wit_inode_def)

lemma wit_trunc_file: "file_ok (wit_trunc room bh) 1" "file_nodes (wit_trunc room bh) 1 = {}" "file_blocks (wit_trunc room bh) 1 = {10}"
  "file_map (wit_trunc room bh) 1 0 = 10"
proof -
  let ?v = "wit_trunc room bh"
  have d: "file_depth 0 = 0" by (simp add: file_depth_def)
  have g: "good_block ?v 10" by (simp add: good_block_def in_data_region_def)
  have "tree_ok (file_depth k) ?v (file_root (s_inode ?v 1) k)" for k
    using g by (simp only: wit_trunc_root) (simp add: d)
  moreover have b: "fblocks ?v 1 k = (if k = 0 then {10} else {})" for k
    unfolding fblocks_def wit_trunc_root by (simp add: d)
  moreover have "length (i_direct (s_inode ?v 1)) = 12" by simp
  ultimately show ok: "file_ok ?v 1" by (simp add: file_ok_def)
  have "fnodes ?v 1 k = {}" for k unfolding fnodes_def wit_trunc_root by (simp add: d)
  then show n: "file_nodes ?v 1 = {}" by (simp add: file_nodes_def)
  show "file_blocks ?v 1 = {10}" unfolding file_blocks_def b by auto
  have "beamfs_inline_lookup_phys port_kenv ?v 1 0 = (Inr 10, ?v)"
    by (simp add: beamfs_inline_lookup_phys_def lookup_direct_def lookup_terminal_def in_data_region_def)
  then show "file_map ?v 1 0 = 10" using lookup_phys_map [OF ok, of 0 port_kenv] n by simp
qed

lemma wit_trunc_ok: "alloc_inv (wit_trunc room bh)" "layout_ok (wit_trunc room bh)" "beamfs_block_payload (wit_trunc room bh) = 3824"
proof -
  show "alloc_inv (wit_trunc room bh)"
    by (simp add: alloc_inv_def sb_free_blocks_def wit_vsb_def get_put_le)
  show "layout_ok (wit_trunc room bh)"
    using wit_data_ok(1) [of 0] by (simp add: layout_ok_def wit_trunc_def wit_data_def budget_region_def budget_active_def)
  show "beamfs_block_payload (wit_trunc room bh) = 3824"
    using wit_data_ok(7) by (simp add: wit_trunc_def beamfs_block_payload_def interleaved_def)
qed

theorem free_blocks_from_truncates_witness:
  "file_map (beamfs_inline_free_blocks_from port_kenv (wit_trunc False None) 1 0) 1 0 = 0 \<and> file_map (wit_trunc False None) 1 0 = 10"
proof -
  let ?v = "wit_trunc False None"
  have "\<forall>x \<in> fnodes ?v 1 12. trusted ?v x" using wit_trunc_file(2) [of False None] by (auto simp: file_nodes_def)
  from free_blocks_from_truncates [OF wit_trunc_ok(1,2) wit_trunc_file(1) _ this _ refl, of 0 port_kenv]
  show ?thesis using wit_trunc_file(4) by simp
qed

theorem full_volume_shrink_fails_witness:
  "fst (beamfs_inline_setattr port_kenv ([], []) False True None None id (wit_trunc False None) 1 (Some 10)) = Some ENOSPC"
proof -
  let ?v = "wit_trunc False None"
  obtain ret v' where r: "beamfs_inline_setattr port_kenv ([], []) False True None None id ?v 1 (Some 10) = (ret, v')" by fastforce
  have "\<forall>x \<in> file_nodes ?v 1. trusted ?v x" using wit_trunc_file(2) by simp
  from full_volume_shrink_fails [OF wit_trunc_file(1) this _ _ _ refl _ _ _ r]
  show ?thesis using r wit_trunc_file(4) by (simp add: wit_trunc_ok)
qed

theorem setattr_shrinks_witness:
  "\<exists>bh. file_map (snd (beamfs_inline_setattr port_kenv ([], []) False True None None id (wit_trunc True (Some bh)) 1 (Some 10))) 1 0 = 10
     \<and> stores port_kenv (snd (beamfs_inline_setattr port_kenv ([], []) False True None None id (wit_trunc True (Some bh)) 1 (Some 10))) 10 1 0
         (replicate 10 7 @ replicate 3814 0)"
proof -
  let ?p = "replicate 3824 7 :: byte list" and ?u = "wit_trunc True None"
  have "holds_data port_kenv ?u (beamfs_inline_stamp_tail_pad port_kenv ?u (beamfs_lay_data_payload ?u (replicate 4096 0) ?p) ?p (word_of_nat 1) (word_of_nat 0))
      ?p (word_of_nat 1) (word_of_nat 0)"
    by (intro stamp_holds lay_payload) (simp_all add: wit_trunc_ok)
  from seal_block [OF kport.kernel_lib_axioms this] obtain c where
    c: "sealed port_kenv ?u c" "holds_data port_kenv ?u c ?p (word_of_nat 1) (word_of_nat 0)" by blast
  define bh where "bh = zero_bh\<lparr>b_data := c\<rparr>"
  let ?v = "wit_trunc True (Some bh)"
  have "length c = 4096" using c(2) by (simp add: holds_data_def)
  moreover have "\<not> interleaved ?v" "\<not> interleaved ?u" "s_data_csum ?v" "s_data_selfid ?v" "s_data_csum ?u" "s_data_selfid ?u"
    using wit_data_ok(5) by (simp_all add: wit_trunc_def interleaved_def wit_data_def)
  ultimately have st: "stores port_kenv ?v 10 1 0 ?p"
    using c data_damage_refl [of c ?v] unfolding stores_def bh_def
    by (auto simp: sealed_def holds_data_def holds_payload_def beamfs_desc_off_def beamfs_selfid_off_def
        wit_trunc_ok(3) intro!: exI [of _ c])
  obtain ret v' where r: "beamfs_inline_setattr port_kenv ([], []) False True None None id ?v 1 (Some 10) = (ret, v')" by fastforce
  have "\<forall>x \<in> file_nodes ?v 1. trusted ?v x" using wit_trunc_file(2) by simp
  from setattr_shrinks [OF kport.kernel_lib_axioms wit_trunc_ok(1,2) wit_trunc_file(1) this _ _ _ _ refl _ _ _ r, of 10 ?p]
  have "file_map v' 1 0 = 10 \<and> stores port_kenv v' 10 1 0 (replicate 10 7 @ replicate 3814 0)"
    using st wit_trunc_file(4) by (simp add: wit_trunc_ok same_pointers_def)
  then show ?thesis by (intro exI [of _ bh]) (simp only: r snd_conv)
qed

lemma free_direct_quiet:
  fixes v :: "'a volume_scheme"
  assumes "s_sbh v = None" "s_bitmap_blkhs v = None" "length (s_beamfs_sb v) = 4096"
  shows "s_failed (free_direct K ino is seen v) = s_failed v
    \<and> i_indirect (s_inode (free_direct K ino is seen v) ino) = i_indirect (s_inode v ino)
    \<and> i_dindirect (s_inode (free_direct K ino is seen v) ino) = i_dindirect (s_inode v ino)
    \<and> i_tindirect (s_inode (free_direct K ino is seen v) ino) = i_tindirect (s_inode v ino)
    \<and> s_sbh (free_direct K ino is seen v) = None"
  using assms
proof (induction "is" arbitrary: seen v)
  case (Cons i "is")
  let ?blk = "unat (i_direct (s_inode v ino) ! i)"
  let ?fresh = "?blk \<noteq> 0 \<and> (case seen of None \<Rightarrow> True | Some bs \<Rightarrow> ?blk \<notin> set bs)"
  define w where "w = (if ?fresh then beamfs_free_block K v ?blk None else v)"
  define u where "u = upd_inode ino (\<lambda>n. n\<lparr>i_direct := (i_direct n)[i := 0]\<rparr>) w"
  have f: "s_inode (beamfs_free_block K v b None) = s_inode v" "length (s_beamfs_sb (beamfs_free_block K v b None)) = 4096" for b
    using free_block_more [OF Cons.prems(3), of K b None] Cons.prems(3) by (cases v, cases "beamfs_free_block K v b None", auto simp: sb_kept_def)
  have w: "s_inode w = s_inode v" "length (s_beamfs_sb w) = 4096" "s_failed w = s_failed v" "s_sbh w = None" "s_bitmap_blkhs w = None"
    unfolding w_def using f no_buffers_ok(4-6) [OF Cons.prems(1,2), of K ?blk None] Cons.prems by (cases ?fresh; simp)+
  have u: "s_failed u = s_failed v" "s_sbh u = None" "s_bitmap_blkhs u = None" "length (s_beamfs_sb u) = 4096"
    "i_indirect (s_inode u ino) = i_indirect (s_inode v ino)" "i_dindirect (s_inode u ino) = i_dindirect (s_inode v ino)"
    "i_tindirect (s_inode u ino) = i_tindirect (s_inode v ino)"
    using w by (simp_all add: u_def upd_inode_def)
  have "\<exists>s. free_direct K ino (i # is) seen v = free_direct K ino is s u" by (simp add: u_def w_def Let_def) blast
  then show ?case using Cons.IH [OF u(2-4)] u by auto
qed simp

theorem evict_reclaims_witness:
  "\<not> beamfs_block_is_allocated (beamfs_evict_inode port_kenv (wit_trunc False None) 1) 10
   \<and> fst (beamfs_iget port_kenv (beamfs_evict_inode port_kenv (wit_trunc False None) 1) 1) = Inl ESTALE"
proof -
  let ?v = "wit_trunc False None"
  define v where "v = beamfs_rsv_discard ?v 1"
  have v: "s_sbh v = None" "s_bitmap_blkhs v = None" "length (s_beamfs_sb v) = 4096" "\<not> s_failed v" "s_inode v = s_inode ?v"
    by (simp_all add: v_def beamfs_rsv_discard_def beamfs_rsv_drop_locked_def wit_vsb_def)
  note q = free_direct_quiet [OF v(1-3), of port_kenv 1]
  have m: "\<not> S_ISLNK (i_mode (s_inode ?v 1))" by (simp add: S_ISLNK_def)
  have f: "\<not> s_failed (beamfs_free_data_blocks port_kenv v 1)" "s_sbh (beamfs_free_data_blocks port_kenv v 1) = None"
    using q m v(4,5) by (simp_all add: beamfs_free_data_blocks_def free_root_def wit_inode_def)
  have sb: "sb_inode_count (s_beamfs_sb ?v) = 3" "sb_inode_table_blk (s_beamfs_sb ?v) = 3"
    using wit_vsb_at by (simp_all add: sb_inode_count_def sb_inode_table_blk_def get_le64_def put_le64_def get_put_other wit_vsb_def)
  have ib: "inode_block ?v 1 = 3" using sb by (simp add: inode_block_def)
  have t: "s_blk ?v (inode_block ?v 1) = Some zero_bh" "inode_block ?v 1 < s_data_start ?v" "inode_block ?v 1 \<notin> side_region ?v"
    unfolding ib by (simp_all add: side_region_def budget_region_def wit_trunc_def wit_data_def wit_vol_def sb_alloc.defs volume.defs)
  note C = evict_cut(1-5) [OF wit_trunc_ok(1,2) wit_trunc_file(1) m t, where K = port_kenv, folded v_def]
  let ?c = "upd_inode 1 (\<lambda>n. n\<lparr>i_mode := 0\<rparr>) (beamfs_free_data_blocks port_kenv v 1)"
  have w: "\<not> s_failed (snd (beamfs_write_inode_raw port_kenv ?c 1))" "s_sbh (snd (beamfs_write_inode_raw port_kenv ?c 1)) = None"
    using write_inode_quiet [of ?c 1 zero_bh port_kenv] f C(2,3) by (simp_all add: upd_inode_def)
  have "\<not> s_failed (beamfs_evict_inode port_kenv ?v 1)"
    using w v(5) unfolding beamfs_evict_inode_def v_def [symmetric] Let_def
    by (simp add: beamfs_free_inode_num_def beamfs_dirty_super_def beamfs_dirty_super_now_def Let_def)
  from evict_reclaims [OF kport.kernel_lib_axioms wit_trunc_ok(1,2) wit_trunc_file(1) m _ _ _ _ t(1) _ t(2,3) refl this] sb(1)
  show ?thesis by (simp add: wit_trunc_file(3) [simplified])
qed

end
