(* ===== verification/Namei.thy ===== *)
theory Namei
  imports Dir_Correct Truncate_Props
begin

section \<open>Names\<close>

text \<open>
  The inode operations of a directory in \<^verbatim>\<open>namei.c\<close>: creation of files, directories and symbolic links, hard links,
  removal and renaming, over the directory entries and inodes of the theories before, with their paths back after an
  error. \<^verbatim>\<open>inode_init_owner\<close> is the kernel's and an argument, \<open>owner\<close>: from the directory and the mode asked for, the
  mode, owner and group of the new inode. The dcache is left out: an operation is given the inodes its dentries name.
\<close>

unbundle bit_operations_syntax

subsection \<open>Link counts and new inodes\<close>

definition S_IFREG :: u16 where "S_IFREG = 0x8000"
definition S_IFDIR :: u16 where "S_IFDIR = 0x4000"
definition S_IFLNK :: u16 where "S_IFLNK = 0xA000"
definition DT_LNK :: byte where "DT_LNK = 10"

text \<open>The type of a directory entry from a mode, unknown for a mode that has none.\<close>

definition fs_umode_to_dtype :: "u16 \<Rightarrow> byte" where
  "fs_umode_to_dtype mode =
     (let t = drop_bit 12 mode AND 15 in if t \<in> {1, 2, 4, 6, 8, 10, 12} then ucast t else 0)"

definition inode_inc_link_count :: "ino \<Rightarrow> 'a volume_scheme \<Rightarrow> 'a volume_scheme" where
  "inode_inc_link_count ino v = mark_inode_dirty ino (upd_inode ino (\<lambda>n. n\<lparr>i_nlink := i_nlink n + 1\<rparr>) v)"

definition inode_dec_link_count :: "ino \<Rightarrow> 'a volume_scheme \<Rightarrow> 'a volume_scheme" where
  "inode_dec_link_count ino v = mark_inode_dirty ino (upd_inode ino (\<lambda>n. n\<lparr>i_nlink := i_nlink n - 1\<rparr>) v)"

definition touch_dir :: "ino \<Rightarrow> 'a volume_scheme \<Rightarrow> 'a volume_scheme" where
  "touch_dir dir v = upd_inode dir (\<lambda>n. n\<lparr>i_mtime := k_time (s_clk v), i_ctime := k_time (s_clk v)\<rparr>) v"

text \<open>The last reference to an inode that was never published: without links it is evicted.\<close>

definition discard_new_inode :: "kenv \<Rightarrow> 'a volume_scheme \<Rightarrow> ino \<Rightarrow> 'a volume_scheme" where
  "discard_new_inode K v ino = (if i_nlink (s_inode v ino) = 0 then beamfs_evict_inode K v ino else v)"

text \<open>The object \<^verbatim>\<open>new_inode\<close> gives, from \<^verbatim>\<open>beamfs_alloc_inode\<close>: no blocks and no window.\<close>

definition beamfs_alloc_inode :: "ino \<Rightarrow> vinode \<Rightarrow> 'a volume_scheme \<Rightarrow> 'a volume_scheme" where
  "beamfs_alloc_inode ino n v =
     v\<lparr>s_rsv := (s_rsv v)(ino := (beamfs_rsv_init (s_rsv v ino))\<lparr>i_blocks_counted := False, i_bytes := 0\<rparr>),
       s_inode := (s_inode v)(ino := n\<lparr>i_direct := replicate BEAMFS_DIRECT_BLOCKS 0, i_indirect := 0, i_dindirect := 0,
         i_tindirect := 0, i_flags := 0\<rparr>)\<rparr>"

text \<open>\<^verbatim>\<open>insert_inode_locked\<close> fails when an inode of the number is in the cache.\<close>

definition beamfs_new_inode ::
    "kenv \<Rightarrow> (vinode \<Rightarrow> u16 \<Rightarrow> u16 \<times> u32 \<times> u32) \<Rightarrow> 'a volume_scheme \<Rightarrow> ino \<Rightarrow> u16 \<Rightarrow> (errno + ino) \<times> 'a volume_scheme" where
  "beamfs_new_inode K owner v dir mode =
     (let (ino, v) = beamfs_alloc_inode_num K v
      in if ino = 0 then (Inl ENOSPC, v)
         else if \<not> s_inode_ok v then (Inl ENOMEM, v)
         else if s_icached v ino then (Inl EIO, v)
         else
           let (m, uid, gid) = owner (s_inode v dir) mode;
               now = k_time (s_clk v);
               n = (s_inode v ino)\<lparr>i_mode := m, i_uid := uid, i_gid := gid, i_size := 0, i_atime := now, i_mtime := now,
                     i_ctime := now, i_immutable := False,
                     i_nlink := (if S_ISDIR mode then 2 else 1),
                     i_ops := (if S_ISDIR mode then Dir_ops
                               else if s_scheme v = BEAMFS_DATA_PROTECTION_UNIVERSAL_INLINE then Inline_ops else Legacy_ops)\<rparr>;
               v = beamfs_alloc_inode ino n v
           in (Inr ino, mark_inode_dirty ino (v\<lparr>s_icached := (s_icached v)(ino := True)\<rparr>)))"

subsection \<open>Files and directories\<close>

text \<open>The steps of an operation that ends at the first error.\<close>

definition and_then :: "errno option \<times> 'v \<Rightarrow> ('v \<Rightarrow> errno option \<times> 'v) \<Rightarrow> errno option \<times> 'v" where
  "and_then r f = (case r of (None, v) \<Rightarrow> f v | (Some e, v) \<Rightarrow> (Some e, v))"

definition beamfs_create ::
    "kenv \<Rightarrow> (vinode \<Rightarrow> u16 \<Rightarrow> u16 \<times> u32 \<times> u32) \<Rightarrow> 'a volume_scheme \<Rightarrow> ino \<Rightarrow> byte list \<Rightarrow> u16 \<Rightarrow> (errno + ino) \<times> 'a volume_scheme" where
  "beamfs_create K owner v dir name mode =
     (case beamfs_new_inode K owner v dir (mode OR S_IFREG) of
        (Inl e, v) \<Rightarrow> (Inl e, v)
      | (Inr ino, v) \<Rightarrow>
          (case and_then (and_then (beamfs_write_inode_raw K v ino)
                   (\<lambda>v. beamfs_add_dirent K v dir name ino DT_REG))
                   (\<lambda>v. beamfs_write_inode_raw K v dir) of
             (None, v) \<Rightarrow> (Inr ino, v)
           | (Some e, v) \<Rightarrow> (Inl e, discard_new_inode K (inode_dec_link_count ino v) ino)))"

definition beamfs_mkdir ::
    "kenv \<Rightarrow> (vinode \<Rightarrow> u16 \<Rightarrow> u16 \<times> u32 \<times> u32) \<Rightarrow> 'a volume_scheme \<Rightarrow> ino \<Rightarrow> byte list \<Rightarrow> u16 \<Rightarrow> (errno + ino) \<times> 'a volume_scheme" where
  "beamfs_mkdir K owner v dir name mode =
     (case beamfs_new_inode K owner (inode_inc_link_count dir v) dir (mode OR S_IFDIR) of
        (Inl e, v) \<Rightarrow> (Inl e, inode_dec_link_count dir v)
      | (Inr ino, v) \<Rightarrow>
          (case and_then (and_then (and_then (and_then (beamfs_add_dirent K v ino [0x2E] ino DT_DIR)
                   (\<lambda>v. beamfs_add_dirent K v ino [0x2E, 0x2E] dir DT_DIR))
                   (\<lambda>v. beamfs_write_inode_raw K v ino))
                   (\<lambda>v. beamfs_add_dirent K v dir name ino DT_DIR))
                   (\<lambda>v. beamfs_write_inode_raw K v dir) of
             (None, v) \<Rightarrow> (Inr ino, v)
           | (Some e, v) \<Rightarrow>
               (Inl e, inode_dec_link_count dir
                         (discard_new_inode K (inode_dec_link_count ino (inode_dec_link_count ino v)) ino))))"

definition beamfs_unlink :: "kenv \<Rightarrow> 'a volume_scheme \<Rightarrow> ino \<Rightarrow> byte list \<Rightarrow> ino \<Rightarrow> errno option \<times> 'a volume_scheme" where
  "beamfs_unlink K v dir name ino =
     and_then (beamfs_del_dirent K v dir name)
       (\<lambda>v. (None, snd (beamfs_write_inode_raw K (inode_dec_link_count ino (set_ctime_current ino v)) dir)))"

definition beamfs_rmdir :: "kenv \<Rightarrow> 'a volume_scheme \<Rightarrow> ino \<Rightarrow> byte list \<Rightarrow> ino \<Rightarrow> errno option \<times> 'a volume_scheme" where
  "beamfs_rmdir K v dir name ino =
     and_then (and_then (beamfs_dir_is_empty K v ino) (\<lambda>v. beamfs_del_dirent K v dir name))
       (\<lambda>v. let v = inode_dec_link_count dir (inode_dec_link_count ino (inode_dec_link_count ino v))
            in (None, snd (beamfs_write_inode_raw K v dir)))"

definition beamfs_link :: "kenv \<Rightarrow> 'a volume_scheme \<Rightarrow> ino \<Rightarrow> ino \<Rightarrow> byte list \<Rightarrow> errno option \<times> 'a volume_scheme" where
  "beamfs_link K v ino dir name =
     (let v = inode_inc_link_count ino (set_ctime_current ino v)
      in case beamfs_add_dirent K v dir name ino (fs_umode_to_dtype (i_mode (s_inode v ino))) of
           (Some e, v) \<Rightarrow> (Some e, inode_dec_link_count ino v)
         | (None, v) \<Rightarrow> (None, snd (and_then (beamfs_write_inode_raw K v ino) (\<lambda>v. beamfs_write_inode_raw K v dir))))"

subsection \<open>Symbolic links\<close>

text \<open>The bytes of \<^verbatim>\<open>i_direct\<close>, and the pointers that have given bytes.\<close>

definition direct_bytes :: "u64 list \<Rightarrow> byte list" where
  "direct_bytes ws = concat (map (cpu_to_le 8) ws)"

definition direct_words :: "byte list \<Rightarrow> u64 list" where
  "direct_words bs = map (\<lambda>i. get_le64 (8 * i) bs) [0..<BEAMFS_DIRECT_BLOCKS]"

text \<open>\<open>io_ok\<close> is whether the device takes the block.\<close>

definition beamfs_symlink_store_block ::
    "kenv \<Rightarrow> bool \<Rightarrow> 'a volume_scheme \<Rightarrow> ino \<Rightarrow> byte list \<Rightarrow> errno option \<times> 'a volume_scheme" where
  "beamfs_symlink_store_block K io_ok v ino target =
     (if \<not> s_scratch_ok v then (Some ENOMEM, v)
      else
        let staging = put_bytes 0 target (replicate BEAMFS_DATA_INLINE_BYTES 0);
            (phys, v) = beamfs_alloc_block K v (Some ino)
        in if phys = 0 then (Some ENOSPC, v)
           else if \<not> s_getblk_ok v then (Some EIO, beamfs_free_block K v phys (Some ino))
           else
             let b = beamfs_lay_data_payload v (replicate BEAMFS_BLOCK_SIZE 0) staging;
                 b = beamfs_stamp_data_block K v b staging (word_of_nat ino) 0;
                 (_, b) = beamfs_seal_data_block K v b;
                 v = v\<lparr>s_blk := (s_blk v)(phys \<mapsto> \<lparr>b_data = b, b_uptodate = io_ok, b_dirty = False\<rparr>)\<rparr>
             in if \<not> io_ok then (Some EIO, beamfs_free_block K v phys (Some ino))
                else (None, upd_inode ino (\<lambda>n. n\<lparr>i_direct := (i_direct n)[0 := word_of_nat phys]\<rparr>) v))"

definition beamfs_symlink ::
    "kenv \<Rightarrow> (vinode \<Rightarrow> u16 \<Rightarrow> u16 \<times> u32 \<times> u32) \<Rightarrow> bool \<Rightarrow> 'a volume_scheme \<Rightarrow> ino \<Rightarrow> byte list \<Rightarrow> byte list
       \<Rightarrow> (errno + ino) \<times> 'a volume_scheme" where
  "beamfs_symlink K owner io_ok v dir name symname =
     (if symname = [] \<or> length symname > beamfs_block_payload v then (Inl ENAMETOOLONG, v)
      else
        (case beamfs_new_inode K owner v dir (S_IFLNK OR 0x1FF) of
           (Inl e, v) \<Rightarrow> (Inl e, v)
         | (Inr ino, v) \<Rightarrow>
             let v = upd_inode ino (\<lambda>n. n\<lparr>i_direct := replicate BEAMFS_DIRECT_BLOCKS 0\<rparr>) v;
                 stored = (if length symname < 96
                           then (None, upd_inode ino (\<lambda>n. n\<lparr>i_direct := direct_words (put_bytes 0 symname (replicate 96 0))\<rparr>) v)
                           else beamfs_symlink_store_block K io_ok v ino symname)
             in (case and_then (and_then (and_then stored
                        (\<lambda>v. beamfs_write_inode_raw K
                               (upd_inode ino (\<lambda>n. n\<lparr>i_size := word_of_nat (length symname), i_ops := Symlink_ops\<rparr>) v) ino))
                        (\<lambda>v. beamfs_add_dirent K v dir name ino DT_LNK))
                        (\<lambda>v. beamfs_write_inode_raw K v dir) of
                   (None, v) \<Rightarrow> (Inr ino, v)
                 | (Some e, v) \<Rightarrow> (Inl e, discard_new_inode K (inode_dec_link_count ino v) ino))))"

text \<open>The memory the result points to. \<open>rcu\<close> is a walk that may not sleep; \<open>kzalloc_ok\<close> whether the buffer is there.\<close>

definition beamfs_get_link ::
    "kenv \<Rightarrow> stack \<Rightarrow> bool \<Rightarrow> bool \<Rightarrow> 'a volume_scheme \<Rightarrow> ino \<Rightarrow> (errno + byte list) \<times> 'a volume_scheme" where
  "beamfs_get_link K stale rcu kzalloc_ok v ino =
     (let len = sint (i_size (s_inode v ino)); phys = unat (i_direct (s_inode v ino) ! 0)
      in if len < 96 then (Inr (direct_bytes (i_direct (s_inode v ino))), v)
         else if rcu then (Inl ECHILD, v)
         else if len > int (beamfs_block_payload v) then (Inl EUCLEAN, v)
         else if phys = 0 then (Inl EUCLEAN, v)
         else if \<not> kzalloc_ok then (Inl ENOMEM, v)
         else
           (case beamfs_bread v phys of
              (None, v) \<Rightarrow> (Inl EIO, v)
            | (Some bh, v) \<Rightarrow>
                (case beamfs_inline_decode_symlink K stale v (b_data bh) phys (word_of_nat ino) (nat len) of
                   (Inl e, v) \<Rightarrow> (Inl e, v)
                 | (Inr buf, v) \<Rightarrow> (Inr (buf @ replicate (BEAMFS_DATA_INLINE_BYTES + 1 - nat len) 0), v))))"

subsection \<open>Renaming\<close>

abbreviation (input) "RENAME_NOREPLACE \<equiv> 1 :: u32"

text \<open>The destination removed, and put back when the new entry cannot be added.\<close>

definition rename_replace :: "kenv \<Rightarrow> 'a volume_scheme \<Rightarrow> bool \<Rightarrow> ino \<Rightarrow> byte list \<Rightarrow> ino \<Rightarrow> errno option \<times> 'a volume_scheme" where
  "rename_replace K v is_dir new_dir new_name new_inode =
     and_then (and_then (if is_dir then beamfs_dir_is_empty K v new_inode else (None, v))
                 (\<lambda>v. beamfs_del_dirent K v new_dir new_name))
       (\<lambda>v. let v = (if is_dir then inode_dec_link_count new_dir (inode_dec_link_count new_inode (inode_dec_link_count new_inode v))
                     else inode_dec_link_count new_inode v)
            in (None, set_ctime_current new_inode v))"

definition rename_restore :: "kenv \<Rightarrow> 'a volume_scheme \<Rightarrow> ino \<Rightarrow> byte list \<Rightarrow> ino \<Rightarrow> 'a volume_scheme" where
  "rename_restore K v new_dir new_name new_inode =
     (let isd = S_ISDIR (i_mode (s_inode v new_inode))
      in case beamfs_add_dirent K v new_dir new_name new_inode (if isd then DT_DIR else DT_REG) of
           (Some _, v) \<Rightarrow> v
         | (None, v) \<Rightarrow>
             if isd then inode_inc_link_count new_dir (inode_inc_link_count new_inode (inode_inc_link_count new_inode v))
             else inode_inc_link_count new_inode v)"

text \<open>The entry \<^verbatim>\<open>..\<close> of a directory that changes its parent.\<close>

definition rename_dotdot :: "kenv \<Rightarrow> 'a volume_scheme \<Rightarrow> ino \<Rightarrow> ino \<Rightarrow> ino \<Rightarrow> errno option \<times> 'a volume_scheme" where
  "rename_dotdot K v old_inode old_dir new_dir =
     and_then (and_then (beamfs_del_dirent K v old_inode [0x2E, 0x2E])
                 (\<lambda>v. beamfs_add_dirent K v old_inode [0x2E, 0x2E] new_dir DT_DIR))
       (\<lambda>v. beamfs_write_inode_raw K (inode_inc_link_count new_dir (inode_dec_link_count old_dir v)) old_inode)"

definition rename_persist :: "kenv \<Rightarrow> 'a volume_scheme \<Rightarrow> ino \<Rightarrow> ino \<Rightarrow> ino \<Rightarrow> ino option \<Rightarrow> errno option \<times> 'a volume_scheme" where
  "rename_persist K v old_inode old_dir new_dir new_inode =
     (let v = touch_dir new_dir (touch_dir old_dir (set_ctime_current old_inode v))
      in and_then (and_then (and_then (beamfs_write_inode_raw K v old_inode)
             (\<lambda>v. beamfs_write_inode_raw K v old_dir))
             (\<lambda>v. if old_dir \<noteq> new_dir then beamfs_write_inode_raw K v new_dir else (None, v)))
             (\<lambda>v. (None, case new_inode of None \<Rightarrow> v | Some i \<Rightarrow> snd (beamfs_write_inode_raw K v i))))"

definition beamfs_rename ::
    "kenv \<Rightarrow> 'a volume_scheme \<Rightarrow> ino \<Rightarrow> byte list \<Rightarrow> ino \<Rightarrow> ino \<Rightarrow> byte list \<Rightarrow> ino option \<Rightarrow> u32 \<Rightarrow> errno option \<times> 'a volume_scheme" where
  "beamfs_rename K v old_dir old_name old_inode new_dir new_name new_inode flags =
     (let is_dir = S_ISDIR (i_mode (s_inode v old_inode))
      in if flags AND NOT RENAME_NOREPLACE \<noteq> 0 then (Some EINVAL, v)
         else if flags AND RENAME_NOREPLACE \<noteq> 0 \<and> new_inode \<noteq> None then (Some EEXIST, v)
         else and_then (case new_inode of None \<Rightarrow> (None, v) | Some i \<Rightarrow> rename_replace K v is_dir new_dir new_name i)
           (\<lambda>v. case beamfs_add_dirent K v new_dir new_name old_inode (if is_dir then DT_DIR else DT_REG) of
                  (Some e, v) \<Rightarrow> (Some e, case new_inode of None \<Rightarrow> v | Some i \<Rightarrow> rename_restore K v new_dir new_name i)
                | (None, v) \<Rightarrow>
                    (case beamfs_del_dirent K v old_dir old_name of
                       (Some e, v) \<Rightarrow> (Some e, snd (beamfs_del_dirent K v new_dir new_name))
                     | (None, v) \<Rightarrow>
                         and_then (if is_dir \<and> old_dir \<noteq> new_dir then rename_dotdot K v old_inode old_dir new_dir else (None, v))
                           (\<lambda>v. rename_persist K v old_inode old_dir new_dir new_inode))))"

end
