(* ===== verification/Namei_Correct.thy ===== *)
theory Namei_Correct
  imports Namei
begin

section \<open>Names: what the operations do\<close>

text \<open>
  The operations of a directory against the lists of entries of \<^const>\<open>dir_rep\<close>. Each is a sequence of steps that
  take an inode number, write records of the inode table, and add or remove an entry; the lemmas say what each
  kind of step leaves of the directories, and the properties follow the sequence, on its way back too.
\<close>

subsection \<open>Steps on other directories\<close>

text \<open>The table of inodes in readable blocks below the data.\<close>

definition table_ok :: "'a volume_scheme \<Rightarrow> bool" where
  "table_ok v \<longleftrightarrow> s_ninodes v = unat (sb_inode_count (s_beamfs_sb v))
     \<and> (\<forall>i. 1 \<le> i \<and> i \<le> s_ninodes v \<longrightarrow> 0 < inode_block v i \<and> inode_block v i < s_data_start v \<and> inode_block v i \<notin> side_region v
          \<and> (\<exists>bh. s_blk v (inode_block v i) = Some bh \<and> length (b_data bh) = 4096))"

lemma inode_block_sb: "sb_kept (s_beamfs_sb v) (s_beamfs_sb v') \<Longrightarrow> length (s_beamfs_sb v) = 4096 \<Longrightarrow> inode_block v' i = inode_block v i"
  using sb_keptD(2) by (simp add: inode_block_def)

lemma alters_inode_block: "alters D B v v' \<Longrightarrow> alloc_inv v \<Longrightarrow> inode_block v' i = inode_block v i"
  by (rule inode_block_sb) (simp_all add: altersD(12) alloc_inv_def)

lemma table_ok_alters:
  assumes "alters D B v v'" "alloc_inv v" "table_ok v" "\<forall>b \<in> B. b = 0 \<or> s_data_start v \<le> b"
  shows "table_ok v'"
proof -
  note a = altersD [OF assms(1)]
  have l: "length (s_beamfs_sb v) = 4096" using assms(2) by (simp add: alloc_inv_def)
  have "s_blk v' (inode_block v i) = s_blk v (inode_block v i)" if "1 \<le> i" "i \<le> s_ninodes v" for i
    by (rule a(14)) (use assms(3,4) that in \<open>fastforce simp: table_ok_def\<close>)+
  then show ?thesis
    using assms(3) a(2,16) alters_side [OF assms(1)] alters_inode_block [OF assms(1,2)] sb_keptD(1) [OF a(12) [OF assms(2)] l]
    by (simp add: table_ok_def)
qed

lemma changes_join: "changes D B v w \<Longrightarrow> changes D' B' w u \<Longrightarrow> changes (D \<union> D') (B \<union> B') v u"
  by (rule changes_trans [OF changes_mono changes_mono]) auto

text \<open>Writing a record changes one block of the table and no inode in memory.\<close>

lemma write_inode_step:
  assumes "alloc_inv v" "table_ok v" "1 \<le> i" "i \<le> s_ninodes v" "beamfs_write_inode_raw K v i = (r, v')"
  shows "changes {} {inode_block v i} v v'" "kernel_lib K \<Longrightarrow> length (i_direct (s_inode v i)) = 12 \<Longrightarrow> table_ok v'" "s_inode v' = s_inode v" "s_failed v' = s_failed v"
    "r = (if s_failed v then Some EIO else None)" "s_inode_bitmap v' = s_inode_bitmap v"
proof -
  obtain bh where bh: "s_blk v (inode_block v i) = Some bh" "length (b_data bh) = 4096"
    using assms(2-4) by (auto simp: table_ok_def)
  let ?raw = "inode_image K (s_inode v i) (get_bytes (inode_off i) 256 (b_data bh))"
  let ?bh = "mark_buffer_dirty (bh\<lparr>b_data := put_bytes (inode_off i) ?raw (b_data bh)\<rparr>)"
  have e: "(r, v') = (if s_failed v then (Some EIO, v) else (None, v\<lparr>s_blk := (s_blk v)(inode_block v i \<mapsto> ?bh)\<rparr>))"
    using assms(5) bh(1)
    by (cases "s_failed v") (simp_all add: beamfs_write_inode_raw_def beamfs_write_inode_raw_flags_def beamfs_bread_def Let_def)
  then show "changes {} {inode_block v i} v v'" using set_blk_changes [of "inode_block v i" "{inode_block v i}" "{}" v "Some ?bh"]
    by (cases "s_failed v") simp_all
  show "s_inode v' = s_inode v" "s_failed v' = s_failed v" "r = (if s_failed v then Some EIO else None)" "s_inode_bitmap v' = s_inode_bitmap v"
    using e by (cases "s_failed v"; simp)+
  assume K: "kernel_lib K" and d: "length (i_direct (s_inode v i)) = 12"
  have off: "inode_off i + 256 \<le> 4096" by (simp add: inode_off_def)
  have "length ?raw = 256" using image_mode(2) [OF K _ d] off bh(2) by simp
  then have "length (b_data ?bh) = 4096" using bh(2) off by (simp add: mark_buffer_dirty_def)
  then show "table_ok v'" using e assms(2)
    by (cases "s_failed v") (auto simp: table_ok_def inode_block_def side_region_def budget_region_def)
qed

text \<open>The record of an inode in the table. Two records do not overlap, so a write changes one.\<close>

definition inode_record :: "'a volume_scheme \<Rightarrow> ino \<Rightarrow> byte list" where
  "inode_record v i = get_bytes (inode_off i) 256 (b_data (the (s_blk v (inode_block v i))))"

lemma records_apart:
  assumes "inode_block v i = inode_block v j" "1 \<le> i" "i < 2 ^ 64" "1 \<le> j" "j < 2 ^ 64" "i \<noteq> j"
  shows "inode_off i + 256 \<le> inode_off j \<or> inode_off j + 256 \<le> inode_off i"
proof -
  have u: "unat (word_of_nat ((k - 1) div 16) :: u64) = (k - 1) div 16" if "k < 2 ^ 64" for k
    using that by (simp add: unat_of_nat)
  have "(word_of_nat ((i - 1) div 16) :: u64) = word_of_nat ((j - 1) div 16)"
    using word_unat_eq_iff [THEN iffD2, OF assms(1) [unfolded inode_block_def]] by simp
  then have "(i - 1) div 16 = (j - 1) div 16" using u [OF assms(3)] u [OF assms(5)] by metis
  then have "(i - 1) mod 16 \<noteq> (j - 1) mod 16" using assms(2,4,6) div_mult_mod_eq [of "i - 1" 16] div_mult_mod_eq [of "j - 1" 16] by force
  then show ?thesis by (auto simp: inode_off_def neq_iff)
qed

lemma record_alters:
  assumes "alters D B v v'" "alloc_inv v" "table_ok v" "\<forall>b \<in> B. b = 0 \<or> s_data_start v \<le> b" "1 \<le> i" "i \<le> s_ninodes v"
  shows "inode_record v' i = inode_record v i"
proof -
  have "s_blk v' (inode_block v i) = s_blk v (inode_block v i)"
    by (rule altersD(14) [OF assms(1)]) (use assms(3-6) in \<open>fastforce simp: table_ok_def\<close>)+
  then show ?thesis by (simp add: inode_record_def alters_inode_block [OF assms(1,2)])
qed

lemma write_record:
  assumes "alloc_inv v" "table_ok v" "1 \<le> i" "i \<le> s_ninodes v" "beamfs_write_inode_raw K v i = (r, v')" "s_ninodes v < 2 ^ 64"
    and "kernel_lib K" "length (i_direct (s_inode v i)) = 12" "1 \<le> j" "j \<le> s_ninodes v"
  shows "inode_record v' j = (if j = i \<and> \<not> s_failed v then inode_image K (s_inode v i) (inode_record v i) else inode_record v j)"
proof (cases "s_failed v")
  case True
  obtain bh where "s_blk v (inode_block v i) = Some bh" using assms(2-4) by (auto simp: table_ok_def)
  then have "v' = v" using assms(5) True
    by (simp add: beamfs_write_inode_raw_def beamfs_write_inode_raw_flags_def beamfs_bread_def Let_def)
  then show ?thesis using True by simp
next
  case False
  obtain bh where bh: "s_blk v (inode_block v i) = Some bh" "length (b_data bh) = 4096"
    using assms(2-4) by (auto simp: table_ok_def)
  let ?raw = "inode_image K (s_inode v i) (get_bytes (inode_off i) 256 (b_data bh))"
  have v': "v' = v\<lparr>s_blk := (s_blk v)(inode_block v i \<mapsto> mark_buffer_dirty (bh\<lparr>b_data := put_bytes (inode_off i) ?raw (b_data bh)\<rparr>))\<rparr>"
    using assms(5) bh(1) False by (simp add: beamfs_write_inode_raw_def beamfs_write_inode_raw_flags_def beamfs_bread_def Let_def)
  have off: "inode_off k + 256 \<le> 4096" for k by (simp add: inode_off_def)
  have l: "length ?raw = 256" using image_mode(2) [OF assms(7) _ assms(8)] off bh(2) by simp
  have ib: "inode_block v' k = inode_block v k" for k by (simp add: v' inode_block_def)
  have "get_bytes (inode_off j) 256 (put_bytes (inode_off i) ?raw (b_data bh)) = get_bytes (inode_off j) 256 (b_data bh)"
    if "j \<noteq> i" "inode_block v i = inode_block v j"
    using records_apart [OF that(2)] that(1) assms(3,4,6,9,10) l off bh(2) by (intro get_put_other) auto
  then show ?thesis
    using False bh(1) get_put_same [of "inode_off i" ?raw "b_data bh"] l off [of i] bh(2)
    unfolding inode_record_def ib by (auto simp: v' mark_buffer_dirty_def)
qed

lemma dir_rep_step:
  assumes "dir_rep K v dir bs ps" "changes D B v v'" "dir \<notin> D" "\<forall>b \<in> B. b < s_data_start v \<or> b \<notin> insert (unat (i_indirect (s_inode v dir))) (set bs)"
  shows "dir_rep K v' dir bs ps"
proof (rule dir_rep_kept [OF assms(1)])
  note c = changesD [OF assms(2)]
  show "dir_kept dir (insert (unat (i_indirect (s_inode v dir))) (set bs)) v v'"
    unfolding dir_kept_def using c(2,10,11) same_inodeD(6,7) [OF c(5) [OF assms(3)]] assms(4)
    by (metis leD)
qed

lemma dir_rep_renumbers:
  assumes "dir_rep K v dir bs ps" "renumbers v v'"
  shows "dir_rep K v' dir bs ps"
  using renumbersD(2,11,15) [OF assms(2)] same_inodeD(6,7) [OF renumbersD(5) [OF assms(2), of dir]]
  by (intro dir_rep_kept [OF assms(1)]) (simp add: dir_kept_def)

text \<open>The results of adding and removing an entry, with the checks before the loops.\<close>

lemma add_dirent_owned:
  assumes "kernel_lib K" "alloc_inv v" "layout_ok v" "dir_rep K v dir bs ps" "name \<noteq> []" "0 < ino" "ino < 2 ^ 64"
  shows "case beamfs_add_dirent K v dir name ino ft of (r, v') \<Rightarrow>
      changes {dir} (dir_reach v dir bs) v v' \<and> unat (i_indirect (s_inode v' dir)) \<in> dir_reach v dir bs
      \<and> (case r of Some e \<Rightarrow> dir_rep K v' dir bs ps
         | None \<Rightarrow> s_scratch_ok v \<and> (\<exists>bs' ps'. dir_rep K v' dir bs' ps' \<and> adds_one (name, word_of_nat ino, ft) (dir_entries ps) (dir_entries ps')
             \<and> set bs' \<subseteq> dir_reach v dir bs))"
proof (cases "length name \<le> 255 \<and> s_scratch_ok v")
  case True
  have "(word_of_nat ino :: u64) \<noteq> 0" using assms(6,7) by (simp add: word_of_nat_eq_0_iff) (auto dest: dvd_imp_le)
  then have "add_result K dir (name, word_of_nat ino, ft) bs ps v (beamfs_add_dirent K v dir name ino ft)"
    using add_blocks_spec [OF assms(1,5) _ _ assms(2-4), of "word_of_nat ino" 0 ft] True by (simp add: beamfs_add_dirent_def)
  then show ?thesis using True by (auto simp: add_result_def split: prod.split option.split)
qed (use assms(4) in \<open>auto simp: beamfs_add_dirent_def dir_reach_def\<close>)

lemma add_dirent_result:
  assumes "kernel_lib K" "alloc_inv v" "layout_ok v" "dir_rep K v dir bs ps" "name \<noteq> []" "0 < ino" "ino < 2 ^ 64"
  shows "case beamfs_add_dirent K v dir name ino ft of (r, v') \<Rightarrow>
      changes {dir} (dir_reach v dir bs) v v'
      \<and> (case r of Some e \<Rightarrow> dir_rep K v' dir bs ps
         | None \<Rightarrow> \<exists>bs' ps'. dir_rep K v' dir bs' ps' \<and> adds_one (name, word_of_nat ino, ft) (dir_entries ps) (dir_entries ps'))"
  using add_dirent_owned [OF assms, of ft] by (fastforce split: prod.split option.split)

lemma del_dirent_result:
  assumes "kernel_lib K" "layout_ok v" "dir_rep K v dir bs ps"
  shows "case beamfs_del_dirent K v dir name of
      (Some e, v') \<Rightarrow> keeps v v' \<and> (e = ENOMEM \<and> \<not> s_scratch_ok v \<or> e = ENOENT \<and> name \<notin> set (names (dir_entries ps)))
    | (None, v') \<Rightarrow> \<exists>ps'. dir_rep K v' dir bs ps' \<and> removes_first name (dir_entries ps) (dir_entries ps') \<and> changes {dir} (set bs) v v'
        \<and> i_indirect (s_inode v' dir) = i_indirect (s_inode v dir)"
proof (cases "s_scratch_ok v")
  case True
  have "del_result K dir name bs ps 0 v (beamfs_del_dirent K v dir name)"
    using del_blocks_spec [OF assms, of name 0] True by (simp add: beamfs_del_dirent_def)
  then show ?thesis by (auto simp: del_result_def split: prod.splits option.splits)
qed (simp add: beamfs_del_dirent_def)

subsection \<open>New inodes, and their way back\<close>

text \<open>An inode without blocks.\<close>

definition blank :: "vinode \<Rightarrow> bool" where
  "blank n \<longleftrightarrow> i_direct n = replicate 12 0 \<and> i_indirect n = 0 \<and> i_dindirect n = 0 \<and> i_tindirect n = 0"

lemma blank_same: "same_inode i j \<Longrightarrow> blank j = blank i"
  by (simp add: blank_def same_inodeD)

lemma blank_file:
  assumes "blank (s_inode v ino)"
  shows "file_ok v ino" "file_map v ino i = 0" "file_blocks v ino = {}" "file_nodes v ino = {}"
proof -
  have r: "file_root (s_inode v ino) k = 0" for k using assms by (simp add: file_root_def blank_def)
  show "file_ok v ino" unfolding file_ok_def fblocks_def r using assms by (simp add: blank_def)
  show "file_map v ino i = 0" unfolding file_map_def ftree_def r by simp
  show "file_blocks v ino = {}" "file_nodes v ino = {}" unfolding file_blocks_def file_nodes_def fblocks_def fnodes_def r by simp_all
qed

lemma blank_dir: "blank (s_inode v dir) \<Longrightarrow> dir_rep K v dir [] []"
  by (simp add: blank_def dir_rep_def dir_ind_def dir_ptr_def)

lemma alloc_inode_num_spec:
  fixes v :: "'a volume_scheme"
  assumes "inode_inv v" "s_inode_bitmap v = Some bm" "beamfs_alloc_inode_num K v = (ino, w)" "ino \<noteq> 0"
  shows "2 \<le> ino" "ino \<le> s_ninodes v" "test_bit ino bm" "s_inode_bitmap w = Some (bm[ino := False])"
proof -
  have f: "\<not> s_failed v" "s_free_inodes v \<noteq> 0" using assms(2-4) by (auto simp: beamfs_alloc_inode_num_def split: if_splits)
  note t = alloc_inode_taken [OF assms(1) f(1) assms(2) f(2)]
  have e: "ino = find_next_bit bm (s_ninodes v + 1) 2" using t(5) [of K] assms(3) by simp
  show "2 \<le> ino" "ino \<le> s_ninodes v" "test_bit ino bm" unfolding e by (rule t)+
  show "s_inode_bitmap w = Some (bm[ino := False])"
    using t(5) [of K] assms(3)
    by (auto simp: e beamfs_dirty_super_def beamfs_dirty_super_now_def beamfs_fail_def Let_def split: option.splits)
qed

lemma new_inode_step:
  fixes v :: "'a volume_scheme"
  assumes "beamfs_new_inode K owner v dir mode = (Inr ino, v')"
  obtains w where "beamfs_alloc_inode_num K v = (ino, w)" "ino \<noteq> 0" "renumbers v w" "changes {ino} {} w v'"
    "s_inode_bitmap v' = s_inode_bitmap w" "\<not> s_icached v ino" "s_failed v' = s_failed w" "blank (s_inode v' ino)"
    "i_mode (s_inode v' ino) = fst (owner (s_inode w dir) mode)" "i_nlink (s_inode v' ino) = (if S_ISDIR mode then 2 else 1)"
    "i_size (s_inode v' ino) = 0" "s_icached v' ino" "s_inode_ok v"
    "i_ops (s_inode v' ino) = (if S_ISDIR mode then Dir_ops else if s_scheme v = BEAMFS_DATA_PROTECTION_UNIVERSAL_INLINE then Inline_ops else Legacy_ops)"
    "\<not> i_immutable (s_inode v' ino)" "i_atime (s_inode v' ino) = k_time (s_clk v)" "i_mtime (s_inode v' ino) = k_time (s_clk v)"
    "i_ctime (s_inode v' ino) = k_time (s_clk v)"
proof -
  obtain n w where a: "beamfs_alloc_inode_num K v = (n, w)" by fastforce
  note r = alloc_inode_renumbers [OF a]
  have e: "n = ino" "ino \<noteq> 0" "s_inode_ok w" "\<not> s_icached w ino"
    using assms a by (auto simp: beamfs_new_inode_def Let_def split: if_splits prod.splits)
  obtain m u g where o: "owner (s_inode w dir) mode = (m, u, g)" by (cases "owner (s_inode w dir) mode") auto
  define n' where "n' = (s_inode w ino)\<lparr>i_mode := m, i_uid := u, i_gid := g, i_size := 0, i_atime := k_time (s_clk w),
    i_mtime := k_time (s_clk w), i_ctime := k_time (s_clk w), i_immutable := False, i_nlink := (if S_ISDIR mode then 2 else 1),
    i_ops := (if S_ISDIR mode then Dir_ops else if s_scheme w = BEAMFS_DATA_PROTECTION_UNIVERSAL_INLINE then Inline_ops else Legacy_ops)\<rparr>"
  have v': "v' = mark_inode_dirty ino ((beamfs_alloc_inode ino n' w)\<lparr>s_icached := (s_icached w)(ino := True)\<rparr>)"
    using assms e a o by (simp add: beamfs_new_inode_def Let_def n'_def beamfs_alloc_inode_def)
  have al: "beamfs_block_is_allocated v' b = beamfs_block_is_allocated w b" for b
    unfolding v' by (rule is_allocated_cong) (simp_all add: mark_inode_dirty_def upd_inode_def beamfs_alloc_inode_def)
  have "changes {ino} {} w v'"
    unfolding changes_def al by (simp add: alters_def alloc_inv_def v' mark_inode_dirty_def upd_inode_def beamfs_alloc_inode_def)
  moreover have "s_inode_bitmap v' = s_inode_bitmap w" "s_failed v' = s_failed w" "blank (s_inode v' ino)"
    "i_mode (s_inode v' ino) = m" "i_nlink (s_inode v' ino) = (if S_ISDIR mode then 2 else 1)"
    "i_size (s_inode v' ino) = 0" "s_icached v' ino"
    "i_ops (s_inode v' ino) = (if S_ISDIR mode then Dir_ops else if s_scheme v = BEAMFS_DATA_PROTECTION_UNIVERSAL_INLINE then Inline_ops else Legacy_ops)"
    "\<not> i_immutable (s_inode v' ino)" "i_atime (s_inode v' ino) = k_time (s_clk v)" "i_mtime (s_inode v' ino) = k_time (s_clk v)"
    "i_ctime (s_inode v' ino) = k_time (s_clk v)"
    using renumbersD(12,18) [OF r]
    by (simp_all add: v' mark_inode_dirty_def upd_inode_def beamfs_alloc_inode_def blank_def n'_def)
  ultimately show ?thesis
    using that [OF a [unfolded e(1)] e(2) r] e(3,4) renumbersD(4,6) [OF r] o by simp
qed

text \<open>Eviction of an inode that never had a block.\<close>

lemma free_inode_num_bitmap:
  fixes v :: "'a volume_scheme"
  assumes "3 \<le> ino" "ino \<le> s_ninodes v" "s_inode_bitmap v = Some bm" "\<not> test_bit ino bm"
  shows "s_inode_bitmap (beamfs_free_inode_num K v ino) = Some (bm[ino := True])"
  using assms by (simp add: beamfs_free_inode_num_def beamfs_ino_is_reserved_def Let_def)

lemma evict_blank:
  fixes v :: "'a volume_scheme"
  assumes K: "kernel_lib K" and v: "alloc_inv v" "layout_ok v" "table_ok v" "blank (s_inode v ino)" "i_nlink (s_inode v ino) = 0"
      "\<not> S_ISLNK (i_mode (s_inode v ino))" "1 \<le> ino" "ino \<le> s_ninodes v"
    and n: "s_ninodes v < 2 ^ 64" and r: "beamfs_evict_inode K v ino = v'"
  obtains d where "changes {ino} {inode_block v ino} v d" "s_inode_bitmap d = s_inode_bitmap v" "v' = beamfs_free_inode_num K d ino"
    "renumbers d v'" "\<not> s_icached d ino" "\<not> s_failed d \<Longrightarrow> get_le16 0 (inode_record d ino) = 0"
    "\<And>j. 1 \<le> j \<Longrightarrow> j \<le> s_ninodes v \<Longrightarrow> j \<noteq> ino \<Longrightarrow> inode_record d j = inode_record v j" "table_ok d"
proof -
  define c where "c = upd_inode ino (\<lambda>n. n\<lparr>i_mode := 0\<rparr>) (beamfs_free_data_blocks K (beamfs_rsv_discard v ino) ino)"
  obtain bh where t: "s_blk v (inode_block v ino) = Some bh" "inode_block v ino < s_data_start v" "inode_block v ino \<notin> side_region v"
    using v(3,7,8) by (auto simp: table_ok_def)
  note b = blank_file [OF v(4)]
  note C = evict_cut(1-5) [OF v(1,2) b(1) v(6) t, where K = K, folded c_def] and C6 = evict_cut(6) [OF v(1,2) b(1) v(6) t]
  have cc: "changes {ino} {} v c" using C(1) releasesD(2) [OF C(1)] by (simp add: changes_def b releases_def)
  have inv: "alloc_inv c" "table_ok c" "ino \<le> s_ninodes c"
    using changesD(3) [OF cc] table_ok_alters [OF changesD(14) [OF cc] v(1,3)] altersD(16) [OF changesD(14) [OF cc]] v by simp_all
  obtain e d where d: "beamfs_write_inode_raw K c ino = (e, d)" by fastforce
  note W = write_inode_step [OF inv(1,2) v(7) inv(3) d]
  define d' where "d' = d\<lparr>s_icached := (s_icached d)(ino := False)\<rparr>"
  have "beamfs_block_is_allocated d' x = beamfs_block_is_allocated d x" for x
    by (rule is_allocated_cong) (simp_all add: d'_def)
  then have dd: "changes {ino} {} d d'" by (simp add: changes_def alters_def alloc_inv_def d'_def)
  have e: "v' = beamfs_free_inode_num K d' ino"
    using r [symmetric] C6 v(5) d unfolding beamfs_evict_inode_def Let_def c_def [symmetric] d'_def by simp
  have rn: "renumbers d' v'" unfolding e by (rule free_inode_renumbers)
  have "changes {ino} {inode_block v ino} v d'"
    using changes_join [OF changes_join [OF cc W(1)] dd] C(2) by simp
  moreover have "s_inode_bitmap d' = s_inode_bitmap v" using W(6) altersD(15) [OF changesD(14) [OF cc]] by (simp add: d'_def)
  moreover have nn: "s_ninodes c = s_ninodes v" using altersD(16) [OF changesD(14) [OF cc]] by simp
  have rec: "inode_record d' j = inode_record d j" for j by (simp add: inode_record_def inode_block_def d'_def)
  note wr = write_record [OF inv(1,2) v(7) inv(3) d n [folded nn] K C(4), unfolded nn]
  have "get_le16 0 (inode_record d' ino) = 0" if "\<not> s_failed d'"
  proof -
    have "length (inode_record c ino) = 256"
      using inv(2,3) v(7) by (force simp: table_ok_def inode_record_def inode_off_def)
    then show ?thesis using wr [OF v(7,8)] that W(4) image_mode(1) [OF K _ C(4)] C(5) rec by (simp add: d'_def)
  qed
  moreover have "inode_record d' j = inode_record v j" if "1 \<le> j" "j \<le> s_ninodes v" "j \<noteq> ino" for j
    using wr [OF that(1,2)] that record_alters [OF changesD(14) [OF cc] v(1,3)] rec by simp
  moreover have "table_ok d'" using W(2) [OF K C(4)] by (simp add: d'_def table_ok_def inode_block_def side_region_def budget_region_def)
  moreover have "\<not> s_icached d' ino" by (simp add: d'_def)
  ultimately show ?thesis using that e rn by blast
qed

subsection \<open>Steps with numbers\<close>

text \<open>A step as \<^const>\<open>changes\<close> describes it that may also take or give back inode numbers.\<close>

definition touches :: "ino set \<Rightarrow> nat set \<Rightarrow> 'a volume_scheme \<Rightarrow> 'a volume_scheme \<Rightarrow> bool" where
  "touches D B v v' \<longleftrightarrow> changes D B v (v'\<lparr>s_inode_bitmap := s_inode_bitmap v\<rparr>)"

lemma changes_touches: "changes D B v v' \<Longrightarrow> touches D B v v'"
proof -
  assume c: "changes D B v v'"
  have "v'\<lparr>s_inode_bitmap := s_inode_bitmap v\<rparr> = v'" using altersD(15) [OF changesD(14) [OF c]] by simp
  then show ?thesis using c by (simp add: touches_def)
qed

lemma renumbers_touches: "renumbers v v' \<Longrightarrow> touches D B v v'"
  by (simp add: renumbers_def touches_def keeps_changes)

lemma changes_inums:
  "changes D B v w \<Longrightarrow> changes D B (v\<lparr>s_inode_bitmap := x\<rparr>) (w\<lparr>s_inode_bitmap := x\<rparr>)"
  by (simp add: changes_def alters_def)

lemma touches_join:
  assumes "touches D B v w" "touches D' B' w u"
  shows "touches (D \<union> D') (B \<union> B') v u"
  using changes_join [OF assms(1) [unfolded touches_def] changes_inums [OF assms(2) [unfolded touches_def], of "s_inode_bitmap v"]]
  by (simp add: touches_def)

lemma touches_mono: "touches D B v w \<Longrightarrow> D \<subseteq> D' \<Longrightarrow> B \<subseteq> B' \<Longrightarrow> touches D' B' v w"
  unfolding touches_def by (rule changes_mono)

lemma touchesD:
  assumes "touches D B v v'"
  shows "s_data_start v' = s_data_start v" "alloc_inv v \<Longrightarrow> alloc_inv v'" "layout_ok v' = layout_ok v"
    "i \<notin> D \<Longrightarrow> s_icached v' i = s_icached v i" "i \<notin> D \<Longrightarrow> same_inode (s_inode v i) (s_inode v' i)"
    "s_data_start v \<le> b \<Longrightarrow> b \<notin> B \<Longrightarrow> s_blk v' b = s_blk v b"
    "beamfs_block_is_allocated v b \<Longrightarrow> beamfs_block_is_allocated v' b" "s_failed v \<Longrightarrow> s_failed v'" "s_ninodes v' = s_ninodes v"
proof -
  note c = assms [unfolded touches_def]
  show "s_data_start v' = s_data_start v" "alloc_inv v \<Longrightarrow> alloc_inv v'" "i \<notin> D \<Longrightarrow> s_icached v' i = s_icached v i"
    "i \<notin> D \<Longrightarrow> same_inode (s_inode v i) (s_inode v' i)" "s_data_start v \<le> b \<Longrightarrow> b \<notin> B \<Longrightarrow> s_blk v' b = s_blk v b"
    "beamfs_block_is_allocated v b \<Longrightarrow> beamfs_block_is_allocated v' b" "s_failed v \<Longrightarrow> s_failed v'"
    using changesD(2,3,4,5,10,11,13) [OF c] by simp_all
  show "layout_ok v' = layout_ok v" using changes_layout [OF c] by simp
  show "s_ninodes v' = s_ninodes v" using altersD(16) [OF changesD(14) [OF c]] by simp
qed

lemma dir_rep_touches:
  assumes "dir_rep K v dir bs ps" "touches D B v v'" "dir \<notin> D"
    "\<forall>b \<in> B. b < s_data_start v \<or> b \<notin> insert (unat (i_indirect (s_inode v dir))) (set bs)"
  shows "dir_rep K v' dir bs ps"
proof (rule dir_rep_kept [OF assms(1)])
  note c = touchesD [OF assms(2)]
  show "dir_kept dir (insert (unat (i_indirect (s_inode v dir))) (set bs)) v v'"
    unfolding dir_kept_def using c(1,6,7) same_inodeD(6,7) [OF c(5) [OF assms(3)]] assms(4) by (metis leD)
qed

lemma record_touches:
  assumes "touches D B v v'" "alloc_inv v" "table_ok v" "\<forall>b \<in> B. b = 0 \<or> s_data_start v \<le> b" "1 \<le> i" "i \<le> s_ninodes v"
  shows "inode_record v' i = inode_record v i"
  using record_alters [OF changesD(14) [OF assms(1) [unfolded touches_def]] assms(2-6)]
  by (simp add: inode_record_def inode_block_def)

lemma table_ok_touches:
  assumes "touches D B v v'" "alloc_inv v" "table_ok v" "\<forall>b \<in> B. b = 0 \<or> s_data_start v \<le> b"
  shows "table_ok v'"
proof -
  have "table_ok (v'\<lparr>s_inode_bitmap := s_inode_bitmap v\<rparr>)"
    by (rule table_ok_alters [OF changesD(14) [OF assms(1) [unfolded touches_def]] assms(2-4)])
  then show ?thesis by (simp add: table_ok_def inode_block_def)
qed

subsection \<open>Creation\<close>

text \<open>What a directory may write lies in the data region.\<close>

lemma reach_region:
  assumes "dir_rep K v dir bs ps" "b \<in> dir_reach v dir bs"
  shows "b = 0 \<or> s_data_start v \<le> b"
proof -
  have "beamfs_block_is_allocated v b" if "b < s_data_start v" using that by (simp add: beamfs_block_is_allocated_def)
  moreover have "s_data_start v \<le> b" if "b \<in> set bs" using that dir_repD(5) [OF assms(1)] by (auto simp: in_set_conv_nth dir_page_def)
  moreover have "b = 0 \<or> s_data_start v \<le> b" if "b = unat (i_indirect (s_inode v dir))" using that dir_repD(8) [OF assms(1)] by (auto simp: dir_ind_def)
  ultimately show ?thesis using assms(2) by (fastforce simp: dir_reach_def)
qed

lemma type_bits: "(mode :: u16) AND 0xF000 = 0 \<Longrightarrow> (mode OR t) AND 0xF000 = t AND 0xF000"
  by (simp add: bit.conj_disj_distrib2)

subsection \<open>Steps that keep every directory\<close>

text \<open>What the operations below need of a volume, and that writing a record and updating the counts and times of
  an inode keep it and the entries of every directory.\<close>

definition sound :: "'a volume_scheme \<Rightarrow> bool" where
  "sound v \<longleftrightarrow> alloc_inv v \<and> layout_ok v \<and> table_ok v"

lemma soundD: "sound v \<Longrightarrow> alloc_inv v" "sound v \<Longrightarrow> layout_ok v" "sound v \<Longrightarrow> table_ok v"
  by (simp_all add: sound_def)

lemma sound_changes:
  assumes "sound v" "changes D B v v'" "\<forall>b \<in> B. b = 0 \<or> s_data_start v \<le> b"
  shows "sound v'"
  using assms changesD(3) [OF assms(2)] changes_layout [OF assms(2)] table_ok_alters [OF changesD(14) [OF assms(2)]]
  by (simp add: sound_def)

definition known :: "'a volume_scheme \<Rightarrow> ino \<Rightarrow> bool" where
  "known v i \<longleftrightarrow> 1 \<le> i \<and> i \<le> s_ninodes v \<and> length (i_direct (s_inode v i)) = 12"

lemma known_changes:
  assumes "known v i" "changes D B v v'" "i \<notin> D"
  shows "known v' i"
  using assms(1) altersD(16) [OF changesD(14) [OF assms(2)]] same_inodeD(6) [OF changesD(5) [OF assms(2,3)]] by (simp add: known_def)

lemma known_dir:
  assumes "known v i" "changes D B v v'" "dir_rep K v' i bs ps"
  shows "known v' i"
  using assms(1) altersD(16) [OF changesD(14) [OF assms(2)]] dir_repD(1) [OF assms(3)] by (simp add: known_def)

lemma write_inode_keeps:
  assumes "kernel_lib K" "sound v" "known v i" "beamfs_write_inode_raw K v i = (r, v')"
  shows "sound v'" "known v' j = known v j" "s_inode v' = s_inode v" "s_failed v' = s_failed v" "r = (if s_failed v then Some EIO else None)"
    "dir_rep K v d bs ps \<Longrightarrow> dir_rep K v' d bs ps"
proof -
  have i: "1 \<le> i" "i \<le> s_ninodes v" "length (i_direct (s_inode v i)) = 12" using assms(3) by (simp_all add: known_def)
  note W = write_inode_step [OF soundD(1,3) [OF assms(2)] i(1,2) assms(4)]
  show "s_inode v' = s_inode v" "s_failed v' = s_failed v" "r = (if s_failed v then Some EIO else None)" by (rule W)+
  show "known v' j = known v j" using W(3) altersD(16) [OF changesD(14) [OF W(1)]] by (simp add: known_def)
  show "sound v'" using changesD(3) [OF W(1)] changes_layout [OF W(1)] W(2) [OF assms(1) i(3)] assms(2) by (simp add: sound_def)
  have "inode_block v i < s_data_start v" using soundD(3) [OF assms(2)] i(1,2) by (simp add: table_ok_def)
  then show "dir_rep K v' d bs ps" if "dir_rep K v d bs ps" by (intro dir_rep_step [OF that W(1)]) simp_all
qed

lemma upd_inode_keeps:
  assumes "\<And>n. i_direct (f n) = i_direct n \<and> i_indirect (f n) = i_indirect n"
  shows "sound (upd_inode i f v) = sound v" "known (upd_inode i f v) j = known v j" "s_failed (upd_inode i f v) = s_failed v"
    "dir_rep K (upd_inode i f v) d bs ps = dir_rep K v d bs ps"
proof -
  have "table_ok (upd_inode i f v) = table_ok v" by (simp add: table_ok_def inode_block_def upd_inode_def side_region_def budget_region_def)
  moreover have "alloc_inv (upd_inode i f v) = alloc_inv v" by (simp add: alloc_inv_def upd_inode_def)
  moreover have "layout_ok (upd_inode i f v) = layout_ok v" by (simp add: layout_ok_def upd_inode_def budget_region_def)
  ultimately show "sound (upd_inode i f v) = sound v" by (simp add: sound_def)
  show "known (upd_inode i f v) j = known v j" "s_failed (upd_inode i f v) = s_failed v" using assms by (simp_all add: known_def upd_inode_def)
  show "dir_rep K (upd_inode i f v) d bs ps = dir_rep K v d bs ps"
    by (rule iffI; erule dir_rep_kept) (use assms in \<open>simp_all add: dir_kept_def\<close>)
qed

lemma count_keeps [simp]:
  "sound (inode_dec_link_count i v) = sound v" "known (inode_dec_link_count i v) j = known v j" "s_failed (inode_dec_link_count i v) = s_failed v"
  "dir_rep K (inode_dec_link_count i v) d bs ps = dir_rep K v d bs ps"
  "sound (inode_inc_link_count i v) = sound v" "known (inode_inc_link_count i v) j = known v j" "s_failed (inode_inc_link_count i v) = s_failed v"
  "dir_rep K (inode_inc_link_count i v) d bs ps = dir_rep K v d bs ps"
  "sound (set_ctime_current i v) = sound v" "known (set_ctime_current i v) j = known v j" "s_failed (set_ctime_current i v) = s_failed v"
  "dir_rep K (set_ctime_current i v) d bs ps = dir_rep K v d bs ps"
  "sound (touch_dir i v) = sound v" "known (touch_dir i v) j = known v j" "s_failed (touch_dir i v) = s_failed v"
  "dir_rep K (touch_dir i v) d bs ps = dir_rep K v d bs ps"
  unfolding inode_dec_link_count_def inode_inc_link_count_def set_ctime_current_def touch_dir_def mark_inode_dirty_def
  by (simp_all add: upd_inode_keeps)

subsection \<open>Renaming\<close>

lemma rename_persist_spec:
  assumes K: "kernel_lib K" and v: "sound v" "known v old_inode" "known v old_dir" "known v new_dir"
    and r: "rename_persist K v old_inode old_dir new_dir None = (r, v')"
  shows "r \<noteq> None \<Longrightarrow> r = Some EIO \<and> s_failed v'" "dir_rep K v d bs ps \<Longrightarrow> dir_rep K v' d bs ps" "known v' j = known v j"
    "i_indirect (s_inode v' j) = i_indirect (s_inode v j)"
proof -
  let ?v = "touch_dir new_dir (touch_dir old_dir (set_ctime_current old_inode v))"
  obtain e1 v1 where 1: "beamfs_write_inode_raw K ?v old_inode = (e1, v1)" by fastforce
  note W1 = write_inode_keeps [OF K _ _ 1, simplified, OF v(1,2)]
  obtain e2 v2 where 2: "beamfs_write_inode_raw K v1 old_dir = (e2, v2)" by fastforce
  have k1: "known v1 old_dir" using W1(2) v by simp
  note W2 = write_inode_keeps [OF K W1(1) k1 2]
  obtain e3 v3 where 3: "beamfs_write_inode_raw K v2 new_dir = (e3, v3)" by fastforce
  have k2: "known v2 new_dir" using W1(2) W2(2) v by simp
  note W3 = write_inode_keeps [OF K W2(1) k2 3]
  note f = r [unfolded rename_persist_def Let_def 1, simplified and_then_def prod.case option.case]
  show "r \<noteq> None \<Longrightarrow> r = Some EIO \<and> s_failed v'"
    using f W1(4,5) W2(4,5) W3(4,5) 2 3
    by (cases "s_failed v"; cases "old_dir = new_dir") (auto simp: and_then_def)
  have "s_inode ?v j = (s_inode v j)\<lparr>i_mtime := i_mtime (s_inode ?v j), i_ctime := i_ctime (s_inode ?v j)\<rparr>"
    by (simp add: touch_dir_def set_ctime_current_def upd_inode_def)
  then have "i_indirect (s_inode ?v j) = i_indirect (s_inode v j)" by (metis vinode.select_convs vinode.surjective vinode.update_convs)
  then show "i_indirect (s_inode v' j) = i_indirect (s_inode v j)" "known v' j = known v j"
    using f W1(2,3) W2(2,3) W3(2,3) 2 3
    by (cases e1; cases e2; cases "old_dir = new_dir"; cases e3; auto simp: and_then_def)+
  show "dir_rep K v' d bs ps" if d: "dir_rep K v d bs ps"
  proof -
    have "dir_rep K v1 d bs ps" using W1(6) d by simp
    moreover from this have "dir_rep K v2 d bs ps" using W2(6) by simp
    moreover from this have "dir_rep K v3 d bs ps" using W3(6) by simp
    ultimately show ?thesis using f 2 3 by (cases e1; cases e2; cases "old_dir = new_dir"; cases e3) (auto simp: and_then_def)
  qed
qed

text \<open>Adding an entry of a name that is not there and removing it again.\<close>

lemma adds_removes:
  assumes "adds_one (name, x) es es'" "removes_first name es' es''" "name \<notin> set (names es)"
  shows "es'' = es"
proof -
  obtain xs ys where a: "es = xs @ ys" "es' = xs @ (name, x) # ys" using assms(1) by (auto simp: adds_one_def)
  obtain us i ft ws where r: "es' = us @ (name, i, ft) # ws" "es'' = us @ ws" "name \<notin> set (names us)"
    using assms(2) by (auto simp: removes_first_def)
  have n: "name \<notin> set (names xs)" "name \<notin> set (names ys)" using assms(3) a(1) by (auto simp: names_def)
  from a(2) r(1) have "xs @ (name, x) # ys = us @ (name, i, ft) # ws" by simp
  then have "us = xs \<and> ws = ys"
    using n r(3) by (auto simp: append_eq_append_conv2 Cons_eq_append_conv append_eq_Cons_conv names_def)
  then show ?thesis using a(1) r(2) by simp
qed

end
