(* ===== verification/Namei_Props.thy ===== *)
theory Namei_Props
  imports Namei_Correct
begin

section \<open>What the operations on names promise\<close>

text \<open>
  The properties of creation, removal, renaming and symbolic links, each with a volume on which its hypotheses hold.
\<close>

subsection \<open>Creation\<close>

text \<open>The volume an operation starts on: counters, regions, inode numbers and table in order.\<close>

definition volume_ok :: "'a volume_scheme \<Rightarrow> bool" where
  "volume_ok v \<longleftrightarrow> alloc_inv v \<and> layout_ok v \<and> inode_inv v \<and> table_ok v \<and> s_ninodes v < 2 ^ 64"

text \<open>A directory in use, with its entries.\<close>

definition dir_ok :: "kenv \<Rightarrow> 'a volume_scheme \<Rightarrow> ino \<Rightarrow> nat list \<Rightarrow> byte list list \<Rightarrow> bool" where
  "dir_ok K v dir bs ps \<longleftrightarrow> dir_rep K v dir bs ps \<and> s_icached v dir \<and> 1 \<le> dir \<and> dir \<le> s_ninodes v"

text \<open>The mode \<^verbatim>\<open>inode_init_owner\<close> sets has the file type it was asked for.\<close>

definition keeps_type :: "(vinode \<Rightarrow> u16 \<Rightarrow> u16 \<times> u32 \<times> u32) \<Rightarrow> bool" where
  "keeps_type owner \<longleftrightarrow> (\<forall>d m. fst (owner d m) AND 0xF000 = m AND 0xF000)"

text \<open>The blocks of a directory.\<close>

definition dir_blocks :: "'a volume_scheme \<Rightarrow> ino \<Rightarrow> nat list \<Rightarrow> nat set" where
  "dir_blocks v dir bs = insert (unat (i_indirect (s_inode v dir))) (set bs) - {0}"

lemma new_file_written:
  fixes v :: "'a volume_scheme"
  assumes K: "kernel_lib K" and v: "volume_ok v" "dir_ok K v dir bs ps" and bm: "s_inode_bitmap v = Some bm"
    and new: "beamfs_new_inode K owner v dir mode = (Inr ino, v1)" and w: "beamfs_write_inode_raw K v1 ino = (e, v2)"
  shows "touches {ino} {inode_block v ino} v v2" "table_ok v2" "ino \<noteq> dir" "alloc_inv v2" "layout_ok v2"
    and "2 \<le> ino" "ino \<le> s_ninodes v" "test_bit ino bm" "s_inode_bitmap v2 = Some (bm[ino := False])" "s_inode v2 ino = s_inode v1 ino"
    and "dir_rep K v2 dir bs ps" "dir_reach v2 dir bs \<subseteq> dir_reach v dir bs" "e = (if s_failed v2 then Some EIO else None)"
    and "1 \<le> j \<Longrightarrow> j \<le> s_ninodes v \<Longrightarrow> inode_record v2 j
      = (if j = ino \<and> \<not> s_failed v2 then inode_image K (s_inode v1 ino) (inode_record v ino) else inode_record v j)"
proof -
  have V: "alloc_inv v" "layout_ok v" "inode_inv v" "table_ok v" "s_ninodes v < 2 ^ 64" using v(1) by (simp_all add: volume_ok_def)
  have D: "dir_rep K v dir bs ps" "s_icached v dir" using v(2) by (simp_all add: dir_ok_def)
  from new_inode_step [OF new] obtain w0 where
    N: "beamfs_alloc_inode_num K v = (ino, w0)" "ino \<noteq> 0" "renumbers v w0" "changes {ino} {} w0 v1" "s_inode_bitmap v1 = s_inode_bitmap w0"
      "\<not> s_icached v ino" "blank (s_inode v1 ino)" by metis
  note A = alloc_inode_num_spec [OF V(3) bm N(1,2)]
  show "2 \<le> ino" "ino \<le> s_ninodes v" "test_bit ino bm" by (rule A)+
  show ne: "ino \<noteq> dir" using N(6) D(2) by auto
  have t1: "touches {ino} {} v v1" using touches_join [OF renumbers_touches [OF N(3), of "{}" "{}"] changes_touches [OF N(4)]] by simp
  note T1 = touchesD [OF t1]
  have tab1: "table_ok v1" by (rule table_ok_touches [OF t1 V(1,4)]) simp
  have d1: "dir_rep K v1 dir bs ps" by (rule dir_rep_touches [OF D(1) t1]) (use ne in simp_all)
  have i1: "1 \<le> ino" "ino \<le> s_ninodes v1" using A(1,2) T1(9) by simp_all
  note W = write_inode_step [OF T1(2) [OF V(1)] tab1 i1 w]
  show "s_inode v2 ino = s_inode v1 ino" "s_inode_bitmap v2 = Some (bm[ino := False])" "e = (if s_failed v2 then Some EIO else None)"
    using W(3-6) N(5) A(4) by simp_all
  have ib: "inode_block v1 ino = inode_block v ino"
    using inode_block_sb [of v "v1\<lparr>s_inode_bitmap := s_inode_bitmap v\<rparr>" ino] changesD(12) [OF t1 [unfolded touches_def] V(1)] V(1)
    by (simp add: inode_block_def alloc_inv_def)
  have "length (i_direct (s_inode v1 ino)) = 12" using N(7) by (simp add: blank_def)
  note wr = write_record [OF T1(2) [OF V(1)] tab1 i1 w _ K this, unfolded T1(9), OF V(5)]
  show "inode_record v2 j = (if j = ino \<and> \<not> s_failed v2 then inode_image K (s_inode v1 ino) (inode_record v ino) else inode_record v j)"
    if "1 \<le> j" "j \<le> s_ninodes v"
    using wr [OF that] W(4) record_touches [OF t1 V(1,4)] that A(1,2) by simp
  have low: "inode_block v ino < s_data_start v" using V(4) A(1,2) by (simp add: table_ok_def)
  show "table_ok v2" by (rule W(2) [OF K]) (use N(7) in \<open>simp add: blank_def\<close>)
  show "dir_rep K v2 dir bs ps" by (rule dir_rep_step [OF d1 W(1)]) (use ib low T1(1) in simp_all)
  show "alloc_inv v2" "layout_ok v2" using changesD(3) [OF W(1)] changes_layout [OF W(1)] T1(2,3) V by simp_all
  have "i_indirect (s_inode v2 dir) = i_indirect (s_inode v dir)" using W(3) same_inodeD(7) [OF T1(5) [of dir]] ne by simp
  then show "dir_reach v2 dir bs \<subseteq> dir_reach v dir bs"
    using T1(7) changesD(11) [OF W(1)] by (auto simp: dir_reach_def)
  show "touches {ino} {inode_block v ino} v v2"
    using touches_join [OF t1 changes_touches [OF W(1)]] ib by simp
qed

text \<open>The way back of an inode that got no name.\<close>

lemma discard_new:
  fixes v :: "'a volume_scheme"
  assumes K: "kernel_lib K" and v: "alloc_inv v" "layout_ok v" "table_ok v" "blank (s_inode v ino)" "i_nlink (s_inode v ino) = 1"
      "\<not> S_ISLNK (i_mode (s_inode v ino))" "3 \<le> ino" "ino \<le> s_ninodes v" "s_ninodes v < 2 ^ 64"
    and b: "s_inode_bitmap v = Some (bm[ino := False])" "test_bit ino bm"
    and r: "discard_new_inode K (inode_dec_link_count ino v) ino = v'"
  shows "touches {ino} {inode_block v ino} v v'" "s_inode_bitmap v' = Some bm" "\<not> s_icached v' ino"
    "\<not> s_failed v' \<Longrightarrow> get_le16 0 (inode_record v' ino) = 0"
    "1 \<le> j \<Longrightarrow> j \<le> s_ninodes v \<Longrightarrow> j \<noteq> ino \<Longrightarrow> inode_record v' j = inode_record v j"
proof -
  define u where "u = inode_dec_link_count ino v"
  have u: "s_inode u ino = (s_inode v ino)\<lparr>i_nlink := 0, i_dirty := True\<rparr>" "s_inode_bitmap u = s_inode_bitmap v"
    "inode_block u j = inode_block v j" "s_ninodes u = s_ninodes v" "inode_record u j = inode_record v j" for j
    using v(5) by (simp_all add: u_def inode_dec_link_count_def mark_inode_dirty_def upd_inode_def inode_block_def inode_record_def)
  have c: "changes {ino} {} v u"
    unfolding u_def inode_dec_link_count_def mark_inode_dirty_def by (rule changes_trans [OF upd_inode_changes upd_inode_changes]) simp_all
  have U: "alloc_inv u" "layout_ok u" "table_ok u"
    using changesD(3) [OF c v(1)] changes_layout [OF c] v(2) table_ok_alters [OF changesD(14) [OF c] v(1,3)] by simp_all
  have "blank (s_inode u ino)" "i_nlink (s_inode u ino) = 0" "\<not> S_ISLNK (i_mode (s_inode u ino))" "1 \<le> ino" "ino \<le> s_ninodes u"
      "s_ninodes u < 2 ^ 64" "beamfs_evict_inode K u ino = v'"
    using v(4,6-9) u(1,4) r by (simp_all add: blank_def discard_new_inode_def u_def [symmetric])
  from evict_blank [OF K U this] obtain d where d: "changes {ino} {inode_block u ino} u d" "s_inode_bitmap d = s_inode_bitmap u"
      "v' = beamfs_free_inode_num K d ino" "renumbers d v'" "\<not> s_icached d ino" "\<not> s_failed d \<Longrightarrow> get_le16 0 (inode_record d ino) = 0"
      "\<And>j. 1 \<le> j \<Longrightarrow> j \<le> s_ninodes u \<Longrightarrow> j \<noteq> ino \<Longrightarrow> inode_record d j = inode_record u j" "table_ok d"
    by metis
  have n: "s_ninodes d = s_ninodes v" using altersD(16) [OF changesD(14) [OF d(1)]] u(4) by simp
  have rec: "inode_record v' j = inode_record d j" if "1 \<le> j" "j \<le> s_ninodes v" for j
    by (rule record_touches [OF renumbers_touches [OF d(4), of "{}" "{}"] changesD(3) [OF d(1) U(1)] d(8)]) (use that n in simp_all)
  show "touches {ino} {inode_block v ino} v v'"
    using touches_join [OF touches_join [OF changes_touches [OF c] changes_touches [OF d(1)]] renumbers_touches [OF d(4), of "{}" "{}"]] u(3)
    by simp
  have "bm[ino := True] = bm" using b(2) list_update_id [of bm ino] by (simp add: test_bit_def)
  then show "s_inode_bitmap v' = Some bm"
    using free_inode_num_bitmap [OF v(7), of d "bm[ino := False]" K] d(2,3) u(2) b n v(8) by (simp add: test_bit_def)
  show "\<not> s_icached v' ino" using renumbersD(4) [OF d(4)] d(5) by simp
  show "get_le16 0 (inode_record v' ino) = 0" if "\<not> s_failed v'"
    using that d(6) renumbersD(8) [OF d(4)] rec v(7,8) by auto
  show "inode_record v' j = inode_record v j" if "1 \<le> j" "j \<le> s_ninodes v" "j \<noteq> ino" using rec that d(7) u(4,5) by simp
qed

lemma new_inode_fails:
  fixes v :: "'a volume_scheme"
  assumes "inode_inv v" "s_inode_bitmap v = Some bm" "\<forall>i. test_bit i bm \<longrightarrow> \<not> s_icached v i"
    and "beamfs_new_inode K owner v dir mode = (Inl e, v')"
  shows "if \<not> s_inode_ok v \<and> \<not> s_failed v \<and> s_free_inodes v \<noteq> 0
    then e = ENOMEM \<and> renumbers v v' \<and> (\<exists>ino. test_bit ino bm \<and> s_inode_bitmap v' = Some (bm[ino := False]))
    else v' = v \<and> e = ENOSPC \<and> (s_failed v \<or> s_free_inodes v = 0)"
proof -
  obtain n w where a: "beamfs_alloc_inode_num K v = (n, w)" by fastforce
  note rn = alloc_inode_renumbers [OF a] and r = renumbersD(4,6) [OF alloc_inode_renumbers [OF a]]
  show ?thesis
  proof (cases "n = 0")
    case True
    have none: "s_failed v \<or> s_free_inodes v = 0"
      using True a alloc_inode_taken(1) [OF assms(1) _ assms(2)] alloc_inode_taken(5) [OF assms(1) _ assms(2), of K] by fastforce
    then have "w = v" using a assms(2) by (cases "s_failed v") (simp_all add: beamfs_alloc_inode_num_def)
    then show ?thesis using assms(4) a True none by (auto simp: beamfs_new_inode_def)
  next
    case False
    note A = alloc_inode_num_spec [OF assms(1,2) a False]
    have "\<not> s_icached w n" using A(3) assms(3) r by simp
    then have "\<not> s_inode_ok v" "e = ENOMEM" "v' = w"
      using assms(4) False a r by (auto simp: beamfs_new_inode_def Let_def case_prod_beta split: if_splits)
    moreover have "\<not> s_failed v" "s_free_inodes v \<noteq> 0" using a False assms(2) by (auto simp: beamfs_alloc_inode_num_def split: if_splits)
    ultimately show ?thesis using rn A(3,4) by auto
  qed
qed

text \<open>The other directories after an operation on one.\<close>

lemma others_kept:
  assumes "touches D B v v'" "dir_rep K v dir bs ps" "dir_rep K v j bs' ps'" "j \<notin> D" "dir_blocks v j bs' \<inter> dir_blocks v dir bs = {}"
    "\<forall>b \<in> B. b < s_data_start v \<or> b \<in> dir_reach v dir bs" "0 < s_data_start v"
  shows "dir_rep K v' j bs' ps'"
proof (rule dir_rep_touches [OF assms(3,1,4)])
  have "b \<notin> dir_reach v dir bs" if b: "b \<in> insert (unat (i_indirect (s_inode v j))) (set bs')" "s_data_start v \<le> b" for b
  proof -
    have "b \<noteq> 0" using b(2) assms(7) by simp
    moreover have "beamfs_block_is_allocated v b"
    proof (cases "b \<in> set bs'")
      case True
      then obtain k where "k < length bs'" "b = bs' ! k" by (auto simp: in_set_conv_nth)
      then show ?thesis using dir_repD(5) [OF assms(3), of k] by (simp add: dir_page_def)
    next
      case False
      then show ?thesis using b(1) dir_repD(8) [OF assms(3)] calculation by (auto simp: dir_ind_def)
    qed
    moreover have "b \<in> dir_blocks v j bs'" using b(1) \<open>b \<noteq> 0\<close> by (simp add: dir_blocks_def)
    then have "b \<notin> dir_blocks v dir bs" using assms(5) by blast
    ultimately show ?thesis by (simp add: dir_reach_def dir_blocks_def)
  qed
  note far = this
  show "\<forall>b \<in> B. b < s_data_start v \<or> b \<notin> insert (unat (i_indirect (s_inode v j))) (set bs')"
  proof
    fix b assume "b \<in> B"
    then show "b < s_data_start v \<or> b \<notin> insert (unat (i_indirect (s_inode v j))) (set bs')"
      using assms(6) far [of b] by (cases "b < s_data_start v") auto
  qed
qed

lemma create_frame:
  assumes "touches {ino, dir} B v v'" "dir_rep K v dir bs ps" "\<forall>b \<in> B. b < s_data_start v \<or> b \<in> dir_reach v dir bs" "0 < s_data_start v"
    "test_bit ino bm"
  shows "(\<forall>j bs' ps'. j \<noteq> dir \<and> \<not> test_bit j bm \<and> dir_rep K v j bs' ps' \<and> dir_blocks v j bs' \<inter> dir_blocks v dir bs = {}
         \<longrightarrow> dir_rep K v' j bs' ps')
    \<and> (\<forall>b. beamfs_block_is_allocated v b \<longrightarrow> beamfs_block_is_allocated v' b)"
proof (intro conjI allI impI)
  fix j bs' ps' assume j: "j \<noteq> dir \<and> \<not> test_bit j bm \<and> dir_rep K v j bs' ps' \<and> dir_blocks v j bs' \<inter> dir_blocks v dir bs = {}"
  then have "j \<notin> {ino, dir}" using assms(5) by auto
  then show "dir_rep K v' j bs' ps'" by (intro others_kept [OF assms(1,2) _ _ _ assms(3,4)]) (use j in simp_all)
next
  fix b assume "beamfs_block_is_allocated v b"
  then show "beamfs_block_is_allocated v' b" by (rule touchesD(7) [OF assms(1)])
qed

lemma new_file_fields:
  fixes v :: "'a volume_scheme"
  assumes "keeps_type owner" "mode AND 0xF000 = 0" "beamfs_new_inode K owner v dir (mode OR S_IFREG) = (Inr ino, v')"
  shows "blank (s_inode v' ino)" "S_ISREG (i_mode (s_inode v' ino))" "\<not> S_ISLNK (i_mode (s_inode v' ino))"
    "i_nlink (s_inode v' ino) = 1" "i_size (s_inode v' ino) = 0"
proof -
  have t: "(mode OR S_IFREG) AND 0xF000 = 0x8000" using type_bits [OF assms(2), of S_IFREG] by (simp add: S_IFREG_def)
  obtain w :: "'a volume_scheme" where
    n: "blank (s_inode v' ino)" "i_mode (s_inode v' ino) = fst (owner (s_inode w dir) (mode OR S_IFREG))"
      "i_nlink (s_inode v' ino) = (if S_ISDIR (mode OR S_IFREG) then 2 else 1)" "i_size (s_inode v' ino) = 0"
    by (rule new_inode_step [OF assms(3)]) (rule that, assumption+)
  have m: "i_mode (s_inode v' ino) AND 0xF000 = 0x8000" using n(2) assms(1) t by (simp add: keeps_type_def)
  show "blank (s_inode v' ino)" "i_size (s_inode v' ino) = 0" by (rule n)+
  show "S_ISREG (i_mode (s_inode v' ino))" "\<not> S_ISLNK (i_mode (s_inode v' ino))" "i_nlink (s_inode v' ino) = 1"
    using m t n(3) by (simp_all add: S_ISREG_def S_ISLNK_def S_ISDIR_def)
qed

text \<open>The volume when the entry has been tried, with the result of the attempt.\<close>

lemma new_file_added:
  fixes v :: "'a volume_scheme"
  assumes K: "kernel_lib K" and v: "volume_ok v" "dir_ok K v dir bs ps" and bm: "s_inode_bitmap v = Some bm" and n: "name \<noteq> []"
    and new: "beamfs_new_inode K owner v dir mode = (Inr ino, v1)" and w: "beamfs_write_inode_raw K v1 ino = (e2, v2)"
    and a: "beamfs_add_dirent K v2 dir name ino ft = (e3, v3)"
  shows "touches {ino, dir} (insert (inode_block v ino) (dir_reach v dir bs)) v v3" "table_ok v3" "alloc_inv v3" "layout_ok v3"
    "dir \<le> s_ninodes v3" "ino \<le> s_ninodes v3" "s_inode_bitmap v3 = Some (bm[ino := False])" "same_inode (s_inode v1 ino) (s_inode v3 ino)"
    "case e3 of Some e \<Rightarrow> dir_rep K v3 dir bs ps
     | None \<Rightarrow> \<exists>bs' ps'. dir_rep K v3 dir bs' ps' \<and> adds_one (name, word_of_nat ino, ft) (dir_entries ps) (dir_entries ps')"
    "\<forall>b \<in> insert (inode_block v ino) (dir_reach v dir bs). b < s_data_start v \<or> b \<in> dir_reach v dir bs"
    "1 \<le> i \<Longrightarrow> i \<le> s_ninodes v3 \<Longrightarrow> inode_block v3 i < s_data_start v"
    "1 \<le> i \<Longrightarrow> i \<le> s_ninodes v \<Longrightarrow> inode_record v3 i = inode_record v2 i"
proof -
  note W = new_file_written [OF K v bm new w]
  have V: "alloc_inv v" "layout_ok v" "table_ok v" "s_ninodes v < 2 ^ 64" using v(1) by (simp_all add: volume_ok_def)
  have ino: "0 < ino" "ino < 2 ^ 64" using W(6,7) V(4) by simp_all
  note A = add_dirent_result [OF K W(4,5,11) n ino, of ft, unfolded a prod.case]
  note A1 = A [THEN conjunct1]
  show t3: "touches {ino, dir} (insert (inode_block v ino) (dir_reach v dir bs)) v v3"
    by (rule touches_mono [OF touches_join [OF W(1) changes_touches [OF A1]]]) (use W(12) in auto)
  show t: "table_ok v3"
    by (rule table_ok_alters [OF changesD(14) [OF A1] W(4,2)]) (use reach_region [OF W(11)] in blast)
  show "inode_record v3 i = inode_record v2 i" if "1 \<le> i" "i \<le> s_ninodes v"
    by (rule record_alters [OF changesD(14) [OF A1] W(4,2)]) (use reach_region [OF W(11)] that touchesD(9) [OF W(1)] in auto)
  show "same_inode (s_inode v1 ino) (s_inode v3 ino)" using changesD(5) [OF A1, of ino] W(3,10) by simp
  show "s_inode_bitmap v3 = Some (bm[ino := False])" using altersD(15) [OF changesD(14) [OF A1]] W(9) by simp
  show "alloc_inv v3" "layout_ok v3" "dir \<le> s_ninodes v3" "ino \<le> s_ninodes v3"
    using touchesD(2,3,9) [OF t3] V(1,2) v(2) W(7) by (simp_all add: dir_ok_def)
  show "\<forall>b \<in> insert (inode_block v ino) (dir_reach v dir bs). b < s_data_start v \<or> b \<in> dir_reach v dir bs"
    using V(3) W(6,7) by (simp add: table_ok_def)
  show "1 \<le> i \<Longrightarrow> i \<le> s_ninodes v3 \<Longrightarrow> inode_block v3 i < s_data_start v" using t touchesD(1) [OF t3] by (simp add: table_ok_def)
qed (use add_dirent_result [OF K new_file_written(4,5,11) [OF K v bm new w] n, of ino ft] new_file_written(6,7) [OF K v bm new w] v(1) a
    in \<open>simp add: volume_ok_def\<close>)

lemma create_success:
  fixes v :: "'a volume_scheme"
  assumes K: "kernel_lib K" and v: "volume_ok v" "dir_ok K v dir bs ps" and bm: "s_inode_bitmap v = Some bm" and n: "name \<noteq> []"
    and new: "beamfs_new_inode K owner v dir mode = (Inr ino, v1)" and w: "beamfs_write_inode_raw K v1 ino = (e2, v2)"
    and a: "beamfs_add_dirent K v2 dir name ino ft = (None, v3)" and w4: "beamfs_write_inode_raw K v3 dir = (e4, v4)"
  obtains bs' ps' B where "dir_rep K v4 dir bs' ps'" "adds_one (name, word_of_nat ino, ft) (dir_entries ps) (dir_entries ps')"
    "touches {ino, dir} B v v4" "\<forall>b \<in> B. b < s_data_start v \<or> b \<in> dir_reach v dir bs" "s_inode_bitmap v4 = Some (bm[ino := False])"
    "same_inode (s_inode v1 ino) (s_inode v4 ino)" "table_ok v4" "s_failed v4 = s_failed v3" "e4 = (if s_failed v3 then Some EIO else None)"
    "alloc_inv v4" "layout_ok v4" "ino \<le> s_ninodes v4"
    "\<And>j. 1 \<le> j \<Longrightarrow> j \<le> s_ninodes v \<Longrightarrow> j \<noteq> dir \<Longrightarrow> inode_record v4 j = inode_record v2 j"
proof -
  note A = new_file_added [OF K v bm n new w a]
  have d: "1 \<le> dir" using v(2) by (simp add: dir_ok_def)
  note W4 = write_inode_step [OF A(3,2) d A(5) w4]
  from A(9) obtain bs' ps' where
    d3: "dir_rep K v3 dir bs' ps'" "adds_one (name, word_of_nat ino, ft) (dir_entries ps) (dir_entries ps')" by auto
  note low = A(11) [OF d A(5)]
  have d4: "dir_rep K v4 dir bs' ps'" by (rule dir_rep_step [OF d3(1) W4(1)]) (use low touchesD(1) [OF A(1)] in simp_all)
  have t: "touches {ino, dir} (insert (inode_block v3 dir) (insert (inode_block v ino) (dir_reach v dir bs))) v v4"
    by (rule touches_mono [OF touches_join [OF A(1) changes_touches [OF W4(1)]]]) auto
  have lows: "\<forall>b \<in> insert (inode_block v3 dir) (insert (inode_block v ino) (dir_reach v dir bs)). b < s_data_start v \<or> b \<in> dir_reach v dir bs"
    using low A(10) by simp
  have inv: "alloc_inv v4" "layout_ok v4" "ino \<le> s_ninodes v4"
    using changesD(3) [OF W4(1) A(3)] changes_layout [OF W4(1)] A(4,6) altersD(16) [OF changesD(14) [OF W4(1)]] by simp_all
  have rec: "inode_record v4 j = inode_record v2 j" if "1 \<le> j" "j \<le> s_ninodes v" "j \<noteq> dir" for j
    using write_record [OF A(3,2) d A(5) w4 _ K dir_repD(1) [OF d3(1)], of j] A(12) that touchesD(9) [OF A(1)] v(1)
    by (simp add: volume_ok_def)
  show ?thesis
    by (rule that [OF d4 d3(2) t lows _ _ W4(2) [OF K dir_repD(1) [OF d3(1)]] W4(4,5) inv rec]) (use W4(3,6) A(7,8) in simp_all)
qed

text \<open>The volume a failed attempt leaves to be taken back: everything is as it was but for the number, its inode and, when
  it was the last write that failed, the entry.\<close>

lemma create_stopped:
  fixes v :: "'a volume_scheme"
  assumes K: "kernel_lib K" and v: "volume_ok v" "dir_ok K v dir bs ps" and bm: "s_inode_bitmap v = Some bm" and n: "name \<noteq> []"
    and new: "beamfs_new_inode K owner v dir mode = (Inr ino, v1)"
    and r: "and_then (and_then (beamfs_write_inode_raw K v1 ino) (\<lambda>v. beamfs_add_dirent K v dir name ino ft))
        (\<lambda>v. beamfs_write_inode_raw K v dir) = (Some e, x)"
  obtains B where "touches {ino, dir} B v x" "\<forall>b \<in> B. b < s_data_start v \<or> b \<in> dir_reach v dir bs"
    "alloc_inv x" "layout_ok x" "table_ok x" "same_inode (s_inode v1 ino) (s_inode x ino)" "s_inode_bitmap x = Some (bm[ino := False])"
    "dir_rep K x dir bs ps \<or> e = EIO \<and> s_failed x
       \<and> (\<exists>bs' ps'. dir_rep K x dir bs' ps' \<and> adds_one (name, word_of_nat ino, ft) (dir_entries ps) (dir_entries ps'))"
    "\<forall>j. 1 \<le> j \<and> j \<le> s_ninodes v \<and> j \<notin> {ino, dir} \<longrightarrow> inode_record x j = inode_record v j"
proof -
  obtain e2 v2 where w: "beamfs_write_inode_raw K v1 ino = (e2, v2)" by fastforce
  obtain e3 v3 where a: "beamfs_add_dirent K v2 dir name ino ft = (e3, v3)" by fastforce
  obtain e4 v4 where w4: "beamfs_write_inode_raw K v3 dir = (e4, v4)" by fastforce
  note W = new_file_written [OF K v bm new w] and A = new_file_added [OF K v bm n new w a]
  have low: "inode_block v ino < s_data_start v" using v(1) W(6,7) by (simp add: volume_ok_def table_ok_def)
  consider "e2 = Some e" "x = v2" | "e3 = Some e" "x = v3" | "e3 = None" "e4 = Some e" "x = v4"
    using r w a w4 by (cases e2; cases e3) (auto simp: and_then_def)
  then show ?thesis
  proof cases
    case 1
    show ?thesis
      by (rule that [OF touches_mono [OF W(1) [folded 1(2)]]]) (use 1 W low in auto)
  next
    case 2
    then have "dir_rep K x dir bs ps" using A(9) by simp
    then show ?thesis using 2 by (intro that [OF A(1) [folded 2(2)] A(10)]) (use A W(14) in auto)
  next
    case 3
    show ?thesis
    proof (rule create_success [OF K v bm n new w a [unfolded 3(1)] w4])
      fix bs' ps' B assume S: "dir_rep K v4 dir bs' ps'" "adds_one (name, word_of_nat ino, ft) (dir_entries ps) (dir_entries ps')"
        "touches {ino, dir} B v v4" "\<forall>b \<in> B. b < s_data_start v \<or> b \<in> dir_reach v dir bs" "s_inode_bitmap v4 = Some (bm[ino := False])"
        "same_inode (s_inode v1 ino) (s_inode v4 ino)" "table_ok v4" "s_failed v4 = s_failed v3" "e4 = (if s_failed v3 then Some EIO else None)"
        "alloc_inv v4" "layout_ok v4" "\<And>j. 1 \<le> j \<Longrightarrow> j \<le> s_ninodes v \<Longrightarrow> j \<noteq> dir \<Longrightarrow> inode_record v4 j = inode_record v2 j"
      have "e = EIO \<and> s_failed v4" using S(8,9) 3(2) by (auto split: if_splits)
      then show ?thesis using S(1,2) 3(3) W(14) S(12) by (intro that [OF S(3) [folded 3(3)] S(4)]) (use S in auto)
    qed
  qed
qed

text \<open>The way back, whole.\<close>

lemma create_failure:
  fixes v :: "'a volume_scheme"
  assumes K: "kernel_lib K" and v: "volume_ok v" "dir_ok K v dir bs ps" and bm: "s_inode_bitmap v = Some bm" and n: "name \<noteq> []"
    and new: "beamfs_new_inode K owner v dir mode = (Inr ino, v1)" and i: "3 \<le> ino" "blank (s_inode v1 ino)" "i_nlink (s_inode v1 ino) = 1"
      "\<not> S_ISLNK (i_mode (s_inode v1 ino))"
    and r: "and_then (and_then (beamfs_write_inode_raw K v1 ino) (\<lambda>v. beamfs_add_dirent K v dir name ino ft))
        (\<lambda>v. beamfs_write_inode_raw K v dir) = (Some e, x)" "discard_new_inode K (inode_dec_link_count ino x) ino = v'"
  obtains B where "touches {ino, dir} B v v'" "\<forall>b \<in> B. b < s_data_start v \<or> b \<in> dir_reach v dir bs" "s_inode_bitmap v' = Some bm"
    "dir_rep K v' dir bs ps \<or> e = EIO \<and> s_failed v'
       \<and> (\<exists>bs' ps'. dir_rep K v' dir bs' ps' \<and> adds_one (name, word_of_nat ino, ft) (dir_entries ps) (dir_entries ps'))"
    "\<forall>j. 1 \<le> j \<and> j \<le> s_ninodes v \<and> j \<notin> {ino, dir} \<longrightarrow> inode_record v' j = inode_record v j"
    "\<not> s_icached v' ino" "s_failed v' \<or> get_le16 0 (inode_record v' ino) = 0" "s_failed x \<longrightarrow> s_failed v'"
proof (rule create_stopped [OF K v bm n new r(1)])
  fix B assume X: "touches {ino, dir} B v x" "\<forall>b \<in> B. b < s_data_start v \<or> b \<in> dir_reach v dir bs"
    "alloc_inv x" "layout_ok x" "table_ok x" "same_inode (s_inode v1 ino) (s_inode x ino)" "s_inode_bitmap x = Some (bm[ino := False])"
    "dir_rep K x dir bs ps \<or> e = EIO \<and> s_failed x
       \<and> (\<exists>bs' ps'. dir_rep K x dir bs' ps' \<and> adds_one (name, word_of_nat ino, ft) (dir_entries ps) (dir_entries ps'))"
    "\<forall>j. 1 \<le> j \<and> j \<le> s_ninodes v \<and> j \<notin> {ino, dir} \<longrightarrow> inode_record x j = inode_record v j"
  obtain e2 v2 where "beamfs_write_inode_raw K v1 ino = (e2, v2)" by fastforce
  note W = new_file_written(3,7,8) [OF K v bm new this]
  have x: "blank (s_inode x ino)" "i_nlink (s_inode x ino) = 1" "\<not> S_ISLNK (i_mode (s_inode x ino))"
    using blank_same [OF X(6)] same_inodeD(1,4) [OF X(6)] i(2-4) by simp_all
  have nx: "s_ninodes x = s_ninodes v" "s_ninodes x < 2 ^ 64" "ino \<le> s_ninodes x"
    using touchesD(9) [OF X(1)] v(1) W(2) by (simp_all add: volume_ok_def)
  note D = discard_new [OF K X(3-5) x i(1) nx(3,2) X(7) W(3) r(2)]
  have low: "inode_block x ino < s_data_start x" using X(5) nx(3) i(1) by (simp add: table_ok_def)
  have keep: "dir_rep K v' dir bs' ps'" if "dir_rep K x dir bs' ps'" for bs' ps'
    by (rule dir_rep_touches [OF that D(1)]) (use W(1) low in auto)
  show ?thesis
  proof (rule that [OF touches_mono [OF touches_join [OF X(1) D(1)]]])
    show "dir_rep K v' dir bs ps \<or> e = EIO \<and> s_failed v'
       \<and> (\<exists>bs' ps'. dir_rep K v' dir bs' ps' \<and> adds_one (name, word_of_nat ino, ft) (dir_entries ps) (dir_entries ps'))"
      using X(8) keep touchesD(8) [OF D(1)] by blast
    show "\<forall>b \<in> B \<union> {inode_block x ino}. b < s_data_start v \<or> b \<in> dir_reach v dir bs"
      using X(2) low touchesD(1) [OF X(1)] by auto
  qed (use D X(9) nx(1) touchesD(8) [OF D(1)] in auto)
qed

text \<open>A number that is not in use is not in memory either, and its record reads as stale.\<close>

definition free_stale :: "'a volume_scheme \<Rightarrow> bool" where
  "free_stale v \<longleftrightarrow> (\<forall>bm i. s_inode_bitmap v = Some bm \<longrightarrow> test_bit i bm \<longrightarrow> \<not> s_icached v i \<and> get_le16 0 (inode_record v i) = 0)"

lemma free_stale_touches:
  assumes "free_stale v" "inode_inv v" "s_inode_bitmap v = Some bm" "touches {ino, dir} B v v'" "s_inode_bitmap v' = Some bm'" "s_icached v dir"
    and "\<And>i. test_bit i bm' \<Longrightarrow> test_bit i bm"
    and "\<And>j. 1 \<le> j \<Longrightarrow> j \<le> s_ninodes v \<Longrightarrow> j \<noteq> ino \<Longrightarrow> j \<noteq> dir \<Longrightarrow> inode_record v' j = inode_record v j"
    and "test_bit ino bm' \<Longrightarrow> \<not> s_icached v' ino \<and> get_le16 0 (inode_record v' ino) = 0"
  shows "free_stale v'"
  unfolding free_stale_def
proof (intro allI impI)
  fix b i assume "s_inode_bitmap v' = Some b" "test_bit i b"
  then have i: "test_bit i bm'" "test_bit i bm" using assms(5,7) by auto
  then have f: "\<not> s_icached v i" "get_le16 0 (inode_record v i) = 0" using assms(1,3) by (auto simp: free_stale_def)
  have "length bm = s_ninodes v + 1" "\<not> test_bit 0 bm" using assms(2,3) by (auto simp: inode_inv_def)
  then have n: "1 \<le> i" "i \<le> s_ninodes v" using i(2) by (cases i; simp add: test_bit_def)+
  show "\<not> s_icached v' i \<and> get_le16 0 (inode_record v' i) = 0"
  proof (cases "i = ino")
    case False
    moreover have "i \<noteq> dir" using f(1) assms(6) by auto
    ultimately show ?thesis using f assms(8) [OF n] touchesD(4) [OF assms(4), of i] by simp
  qed (use assms(9) i(1) in simp)
qed

lemma test_bit_taken: "test_bit i (bm[k := False]) \<longleftrightarrow> test_bit i bm \<and> i \<noteq> k"
  by (cases "i = k") (auto simp: test_bit_def)

lemma new_inode_left:
  fixes v :: "'a volume_scheme"
  assumes v: "volume_ok v" "dir_ok K v dir bs ps" "free_stale v" and bm: "s_inode_bitmap v = Some bm"
    and new: "beamfs_new_inode K owner v dir mode = (Inl e, v')"
  shows "if \<not> s_inode_ok v \<and> \<not> s_failed v \<and> s_free_inodes v \<noteq> 0
      then e = ENOMEM \<and> dir_rep K v' dir bs ps \<and> (\<exists>ino. test_bit ino bm \<and> s_inode_bitmap v' = Some (bm[ino := False]))
      else s_inode_bitmap v' = Some bm \<and> dir_rep K v' dir bs ps"
    "free_stale v'" "dir_rep K v j bs' ps' \<Longrightarrow> dir_rep K v' j bs' ps'" "beamfs_block_is_allocated v b \<Longrightarrow> beamfs_block_is_allocated v' b"
proof -
  have V: "alloc_inv v" "inode_inv v" "table_ok v" using v(1) by (simp_all add: volume_ok_def)
  have D: "dir_rep K v dir bs ps" "s_icached v dir" using v(2) by (simp_all add: dir_ok_def)
  have "\<forall>i. test_bit i bm \<longrightarrow> \<not> s_icached v i" using v(3) bm by (simp add: free_stale_def)
  note F = new_inode_fails [OF V(2) bm this new]
  then have rn: "v' = v \<or> renumbers v v'" by (auto split: if_splits)
  have k: "dir_rep K v' j bs' ps'" if "dir_rep K v j bs' ps'" for j bs' ps' using rn dir_rep_renumbers [OF that] that by auto
  then show "dir_rep K v j bs' ps' \<Longrightarrow> dir_rep K v' j bs' ps'" .
  show "beamfs_block_is_allocated v b \<Longrightarrow> beamfs_block_is_allocated v' b" using rn renumbersD(11) by blast
  show "if \<not> s_inode_ok v \<and> \<not> s_failed v \<and> s_free_inodes v \<noteq> 0
      then e = ENOMEM \<and> dir_rep K v' dir bs ps \<and> (\<exists>ino. test_bit ino bm \<and> s_inode_bitmap v' = Some (bm[ino := False]))
      else s_inode_bitmap v' = Some bm \<and> dir_rep K v' dir bs ps"
    using F k [OF D(1)] bm by (auto split: if_splits)
  show "free_stale v'"
  proof (cases "v' = v")
    case False
    then obtain ino where i: "renumbers v v'" "s_inode_bitmap v' = Some (bm[ino := False])" using F by (auto split: if_splits)
    have t: "touches {ino, dir} {} v v'" by (rule renumbers_touches [OF i(1)])
    show ?thesis
      by (rule free_stale_touches [OF v(3) V(2) bm t i(2) D(2)]) (use record_touches [OF t V(1,3)] in \<open>simp_all add: test_bit_taken\<close>)
  qed (use v(3) in simp)
qed

text \<open>C5: What creating a file leaves, on every way out. On a volume in order (the free numbers start at 3 and their
  records read as stale), when \<^const>\<open>beamfs_create\<close> succeeds the new name is one more entry of the directory, naming
  an inode number that was free and is taken now, and the inode is an empty regular file with one link. When it
  returns an error, the map of the inode numbers and the directory's entries are what they were, with two exceptions
  that the code has: when there is no memory for the inode, the number it had taken stays taken; and when the
  volume failed in the write of the directory's inode, the new entry stays and names a free number. Unless the
  volume has failed, the record of every free number reads as stale and is not in memory, that of the number an
  error gave back among them. Every other directory keeps its entries and no allocated block is given up.\<close>
theorem create_all_or_nothing:
  fixes v :: "'a volume_scheme"
  assumes K: "kernel_lib K" "keeps_type owner" and v: "volume_ok v" "dir_ok K v dir bs ps" "free_stale v"
    and bm: "s_inode_bitmap v = Some bm" "\<forall>i. test_bit i bm \<longrightarrow> 3 \<le> i"
    and n: "name \<noteq> []" "mode AND 0xF000 = 0"
    and r: "beamfs_create K owner v dir name mode = (r, v')"
  shows "(case r of
       Inr ino \<Rightarrow> test_bit ino bm \<and> s_inode_bitmap v' = Some (bm[ino := False])
         \<and> (\<exists>bs' ps'. dir_rep K v' dir bs' ps' \<and> adds_one (name, word_of_nat ino, DT_REG) (dir_entries ps) (dir_entries ps'))
         \<and> S_ISREG (i_mode (s_inode v' ino)) \<and> i_nlink (s_inode v' ino) = 1 \<and> i_size (s_inode v' ino) = 0
         \<and> file_ok v' ino \<and> (\<forall>i. file_map v' ino i = 0)
     | Inl e \<Rightarrow>
         if \<not> s_inode_ok v \<and> \<not> s_failed v \<and> s_free_inodes v \<noteq> 0
         then e = ENOMEM \<and> dir_rep K v' dir bs ps \<and> (\<exists>ino. test_bit ino bm \<and> s_inode_bitmap v' = Some (bm[ino := False]))
         else s_inode_bitmap v' = Some bm
           \<and> (dir_rep K v' dir bs ps
              \<or> e = EIO \<and> s_failed v' \<and> (\<exists>ino bs' ps'. test_bit ino bm \<and> dir_rep K v' dir bs' ps'
                    \<and> adds_one (name, word_of_nat ino, DT_REG) (dir_entries ps) (dir_entries ps'))))
    \<and> (s_failed v' \<or> free_stale v')
    \<and> (\<forall>j bs' ps'. j \<noteq> dir \<and> \<not> test_bit j bm \<and> dir_rep K v j bs' ps' \<and> dir_blocks v j bs' \<inter> dir_blocks v dir bs = {}
         \<longrightarrow> dir_rep K v' j bs' ps')
    \<and> (\<forall>b. beamfs_block_is_allocated v b \<longrightarrow> beamfs_block_is_allocated v' b)"
proof -
  have V: "alloc_inv v" "inode_inv v" "layout_ok v" "table_ok v" using v(1) by (simp_all add: volume_ok_def)
  have ds: "0 < s_data_start v" using V(1) by (simp add: alloc_inv_def)
  have D: "dir_rep K v dir bs ps" "s_icached v dir" using v(2) by (simp_all add: dir_ok_def)
  obtain x v1 where new: "beamfs_new_inode K owner v dir (mode OR S_IFREG) = (x, v1)" by fastforce
  show ?thesis
  proof (cases x)
    case (Inl e)
    then have r': "r = Inl e" "v' = v1" using r new by (simp_all add: beamfs_create_def)
    show ?thesis unfolding r' by (simp add: new_inode_left [OF v(1-3) bm(1) new [unfolded Inl]])
  next
    case (Inr ino)
    note new = new [unfolded Inr]
    note I = new_file_fields [OF K(2) n(2) new]
    obtain e2 v2 where w: "beamfs_write_inode_raw K v1 ino = (e2, v2)" by fastforce
    note W = new_file_written [OF K(1) v(1,2) bm(1) new w]
    then have i3: "3 \<le> ino" using bm(2) by blast
    have ok: "s_inode_ok v" by (rule new_inode_step [OF new])
    let ?res = "and_then (and_then (beamfs_write_inode_raw K v1 ino) (\<lambda>v. beamfs_add_dirent K v dir name ino DT_REG))
        (\<lambda>v. beamfs_write_inode_raw K v dir)"
    obtain e y where y: "?res = (e, y)" by fastforce
    note st = free_stale_touches [OF v(3) V(2) bm(1) _ _ D(2)]
    show ?thesis
    proof (cases e)
      case None
      then have r': "r = Inr ino" "v' = y" using r new y by (simp_all add: beamfs_create_def)
      obtain v3 where s: "beamfs_add_dirent K v2 dir name ino DT_REG = (None, v3)" "beamfs_write_inode_raw K v3 dir = (None, y)"
        using y None w by (auto simp: and_then_def split: prod.splits option.splits)
      obtain bs' ps' B where S: "dir_rep K y dir bs' ps'" "adds_one (name, word_of_nat ino, DT_REG) (dir_entries ps) (dir_entries ps')"
          "touches {ino, dir} B v y" "\<forall>b \<in> B. b < s_data_start v \<or> b \<in> dir_reach v dir bs" "s_inode_bitmap y = Some (bm[ino := False])"
          "same_inode (s_inode v1 ino) (s_inode y ino)"
          "\<And>j. 1 \<le> j \<Longrightarrow> j \<le> s_ninodes v \<Longrightarrow> j \<noteq> dir \<Longrightarrow> inode_record y j = inode_record v2 j"
        by (rule create_success [OF K(1) v(1,2) bm(1) n(1) new w s]) (rule that)
      have "blank (s_inode y ino)" using blank_same [OF S(6)] I(1) by simp
      note b = blank_file(1,2) [OF this] and fr = create_frame [OF S(3) D(1) S(4) ds W(8)]
      have "\<exists>bs' ps'. dir_rep K y dir bs' ps' \<and> adds_one (name, word_of_nat ino, DT_REG) (dir_entries ps) (dir_entries ps')"
        using S(1,2) by (intro exI conjI)
      moreover have "free_stale y" by (rule st [OF S(3,5)]) (use S(7) W(14) in \<open>simp_all add: test_bit_taken\<close>)
      ultimately show ?thesis using same_inodeD(1,4,5) [OF S(6)] I(2,4,5) S(5) W(8) b fr unfolding r' by simp
    next
      case (Some err)
      then have r': "r = Inl err" "discard_new_inode K (inode_dec_link_count ino y) ino = v'"
        using r new y by (simp_all add: beamfs_create_def)
      obtain B where S: "touches {ino, dir} B v v'" "\<forall>b \<in> B. b < s_data_start v \<or> b \<in> dir_reach v dir bs" "s_inode_bitmap v' = Some bm"
          "dir_rep K v' dir bs ps \<or> err = EIO \<and> s_failed v'
             \<and> (\<exists>bs' ps'. dir_rep K v' dir bs' ps' \<and> adds_one (name, word_of_nat ino, DT_REG) (dir_entries ps) (dir_entries ps'))"
          "\<forall>j. 1 \<le> j \<and> j \<le> s_ninodes v \<and> j \<notin> {ino, dir} \<longrightarrow> inode_record v' j = inode_record v j"
          "\<not> s_icached v' ino" "s_failed v' \<or> get_le16 0 (inode_record v' ino) = 0" "s_failed y \<longrightarrow> s_failed v'"
        by (rule create_failure [OF K(1) v(1,2) bm(1) n(1) new i3 I(1,4,3) y [unfolded Some] r'(2)]) (rule that)
      have "s_failed v' \<or> free_stale v'" using st [OF S(1,3)] S(5-7) by blast
      then show ?thesis using S(3,4) create_frame [OF S(1) D(1) S(2) ds W(8)] W(8) ok by (auto simp: r'(1))
    qed
  qed
qed

definition wit_cvol :: volume where
  "wit_cvol = wit_dvol\<lparr>s_inode_bitmap := Some [False, False, False, True], s_free_inodes := 1, s_ninodes := 3\<rparr>"

lemma wit_cvol_ok: "volume_ok wit_cvol" "dir_ok port_kenv wit_cvol 1 [10] [wit_page]" "s_inode_ok wit_cvol"
  "s_inode_bitmap wit_cvol = Some [False, False, False, True]" "s_icached wit_cvol = (\<lambda>i. i = 1)"
proof -
  have a: "beamfs_block_is_allocated wit_cvol b = beamfs_block_is_allocated wit_dvol b" for b
    by (rule is_allocated_cong) (simp_all add: wit_cvol_def)
  have "dir_rep port_kenv wit_cvol 1 [10] [wit_page]"
    using a by (intro dir_rep_kept [OF wit_dvol_ok(4)]) (simp add: dir_kept_def wit_cvol_def)
  then show "dir_ok port_kenv wit_cvol 1 [10] [wit_page]" by (simp add: dir_ok_def wit_cvol_def wit_dvol_def)
  have "alloc_inv wit_cvol" "layout_ok wit_cvol"
    using wit_dvol_ok(1,2) by (simp_all add: wit_cvol_def alloc_inv_def layout_ok_def budget_region_def budget_active_def)
  moreover have "inode_inv wit_cvol" by (simp add: inode_inv_def wit_cvol_def test_bit_def)
  moreover have b: "inode_block wit_cvol i = 3" if "1 \<le> i" "i \<le> 3" for i
    using that by (simp add: inode_block_def wit_cvol_def wit_dvol_def wit_vsb_at)
  moreover have "table_ok wit_cvol"
    unfolding table_ok_def using b
    by (simp add: wit_cvol_def wit_dvol_def wit_vsb_at side_region_def budget_region_def wit_vol_def sb_alloc.defs volume.defs)
  ultimately show "volume_ok wit_cvol" by (simp add: volume_ok_def wit_cvol_def)
  show "s_inode_ok wit_cvol" "s_inode_bitmap wit_cvol = Some [False, False, False, True]" "s_icached wit_cvol = (\<lambda>i. i = 1)"
    by (simp_all add: wit_cvol_def wit_dvol_def)
qed

lemma wit_cvol_free: "test_bit i [False, False, False, True] \<longleftrightarrow> i = 3" "free_stale wit_cvol"
proof -
  show b: "test_bit i [False, False, False, True] \<longleftrightarrow> i = 3" for i by (auto simp: test_bit_def nth_Cons')
  have "inode_block wit_cvol 3 = 3" by (simp add: inode_block_def wit_cvol_def wit_dvol_def wit_vsb_at)
  then have "inode_record wit_cvol 3 = replicate 256 0"
    by (simp add: inode_record_def wit_cvol_def wit_dvol_def inode_off_def get_bytes_def)
  moreover have "get_le16 0 (replicate 256 0) = 0" by (simp add: get_le16_def get_bytes_def le_to_cpu_def numeral_2_eq_2)
  ultimately show "free_stale wit_cvol" by (simp add: free_stale_def wit_cvol_ok(4,5) b)
qed

theorem create_all_or_nothing_witness:
  "case beamfs_create port_kenv (\<lambda>d m. (m, 0, 0)) wit_cvol 1 [0x62] 0x1A4 of
     (Inr ino, v') \<Rightarrow> ino = 3 \<and> s_inode_bitmap v' = Some [False, False, False, False]
       \<and> (\<exists>bs' ps'. dir_rep port_kenv v' 1 bs' ps' \<and> adds_one ([0x62], 3, DT_REG) [([0x61], 2, 1)] (dir_entries ps'))
   | (Inl e, v') \<Rightarrow> s_inode_bitmap v' = Some [False, False, False, True] \<and> (s_failed v' \<or> dir_rep port_kenv v' 1 [10] [wit_page] \<and> free_stale v')"
proof -
  let ?bm = "[False, False, False, True]"
  obtain r v' where r: "beamfs_create port_kenv (\<lambda>d m. (m, 0, 0)) wit_cvol 1 [0x62] 0x1A4 = (r, v')" by fastforce
  have "\<forall>i. test_bit i ?bm \<longrightarrow> 3 \<le> i" unfolding wit_cvol_free(1) by simp
  note c = create_all_or_nothing [OF kport.kernel_lib_axioms _ wit_cvol_ok(1,2) wit_cvol_free(2) wit_cvol_ok(4) this _ _ r]
  have "case r of
       Inr ino \<Rightarrow> ino = 3 \<and> s_inode_bitmap v' = Some (?bm[ino := False])
         \<and> (\<exists>bs' ps'. dir_rep port_kenv v' 1 bs' ps' \<and> adds_one ([0x62], word_of_nat ino, DT_REG) (dir_entries [wit_page]) (dir_entries ps'))
     | Inl e \<Rightarrow> s_inode_bitmap v' = Some ?bm \<and> (s_failed v' \<or> dir_rep port_kenv v' 1 [10] [wit_page] \<and> free_stale v')"
    using c wit_cvol_ok(3) unfolding wit_cvol_free(1) by (cases r) (auto simp: keeps_type_def)
  then show ?thesis unfolding r by (cases r) (auto simp: wit_page(2))
qed

end
