(* ===== verification/Namei_Dirs.thy ===== *)
theory Namei_Dirs
  imports Namei_Props
begin

section \<open>The directories of a volume as a map\<close>

text \<open>
  The specification the operations on names refine: a map from the directories to their lists of entries. The state
  of a volume represents it when each directory of the map reads as its list and no two share a block; adding and
  removing an entry update the map at one directory, and removal and renaming are sequences of these.
\<close>

unbundle bit_operations_syntax

definition dirs_rep :: "kenv \<Rightarrow> 'a volume_scheme \<Rightarrow> (ino \<rightharpoonup> entry list) \<Rightarrow> bool" where
  "dirs_rep K v E \<longleftrightarrow> (\<exists>B P. (\<forall>d \<in> dom E. known v d \<and> dir_rep K v d (B d) (P d) \<and> E d = Some (dir_entries (P d)))
     \<and> (\<forall>d \<in> dom E. \<forall>d' \<in> dom E. d \<noteq> d' \<longrightarrow> dir_blocks v d (B d) \<inter> dir_blocks v d' (B d') = {}))"

text \<open>Steps that leave every directory as it is.\<close>

lemma dirs_rep_still:
  assumes "dirs_rep K v E" "\<And>d. known v d \<Longrightarrow> known v' d" "\<And>d. i_indirect (s_inode v' d) = i_indirect (s_inode v d)"
    "\<And>d bs ps. dir_rep K v d bs ps \<Longrightarrow> dir_rep K v' d bs ps"
  shows "dirs_rep K v' E"
proof -
  have b: "dir_blocks v' d bs = dir_blocks v d bs" for d bs by (simp add: dir_blocks_def assms(3))
  show ?thesis using assms(1,2,4) unfolding dirs_rep_def b by blast
qed

lemma dirs_rep_keeps:
  assumes "dirs_rep K v E" "keeps v v'"
  shows "dirs_rep K v' E"
proof (rule dirs_rep_still [OF assms(1)])
  have c: "changes {} {} v v'" by (rule keeps_changes [OF assms(2)])
  show "known v' d" if "known v d" for d by (rule known_changes [OF that c]) simp
  show "i_indirect (s_inode v' d) = i_indirect (s_inode v d)" for d using same_inodeD(7) [OF changesD(5) [OF c, of d]] by simp
  show "dir_rep K v' d bs ps" if "dir_rep K v d bs ps" for d bs ps by (rule dir_rep_step [OF that c]) simp_all
qed

lemma dirs_rep_upd:
  assumes "\<And>n. i_direct (f n) = i_direct n \<and> i_indirect (f n) = i_indirect n" "dirs_rep K v E"
  shows "dirs_rep K (upd_inode i f v) E"
  by (rule dirs_rep_still [OF assms(2)]) (simp_all add: upd_inode_keeps [OF assms(1)], simp add: upd_inode_def assms(1))

lemma dirs_rep_counts:
  assumes "dirs_rep K v E"
  shows "dirs_rep K (inode_dec_link_count i v) E" "dirs_rep K (inode_inc_link_count i v) E" "dirs_rep K (set_ctime_current i v) E"
  unfolding inode_dec_link_count_def inode_inc_link_count_def set_ctime_current_def mark_inode_dirty_def
  by (intro dirs_rep_upd assms; simp)+

lemma dirs_rep_write:
  assumes "kernel_lib K" "sound v" "known v i" "beamfs_write_inode_raw K v i = (r, v')" "dirs_rep K v E"
  shows "dirs_rep K v' E"
  using write_inode_keeps [OF assms(1-4)] by (intro dirs_rep_still [OF assms(5)]) simp_all

subsection \<open>One directory\<close>

text \<open>What another directory has is out of the reach of an operation on this one.\<close>

lemma blocks_apart:
  assumes "dir_rep K v j bs' ps'" "dir_blocks v j bs' \<inter> dir_blocks v dir bs = {}" "b \<in> dir_blocks v j bs'"
  shows "b \<notin> dir_reach v dir bs"
proof -
  have b: "b \<noteq> 0" "b \<in> insert (unat (i_indirect (s_inode v j))) (set bs')" using assms(3) by (simp_all add: dir_blocks_def)
  have "beamfs_block_is_allocated v b"
  proof (cases "b \<in> set bs'")
    case True
    then show ?thesis using dir_repD(5) [OF assms(1)] by (auto simp: in_set_conv_nth dir_page_def)
  next
    case False
    then show ?thesis using b dir_repD(8) [OF assms(1)] by (auto simp: dir_ind_def)
  qed
  moreover have "b \<notin> dir_blocks v dir bs" using assms(2,3) by blast
  ultimately show ?thesis using b(1) by (simp add: dir_reach_def dir_blocks_def)
qed

text \<open>A step on one directory, inside its reach, is an update of the map.\<close>

lemma dirs_rep_one:
  assumes "alloc_inv v" "d \<in> dom E" "\<forall>d \<in> dom E. known v d \<and> dir_rep K v d (B d) (P d) \<and> E d = Some (dir_entries (P d))"
    "\<forall>d \<in> dom E. \<forall>d' \<in> dom E. d \<noteq> d' \<longrightarrow> dir_blocks v d (B d) \<inter> dir_blocks v d' (B d') = {}"
    and c: "changes {d} (dir_reach v d (B d)) v v'" and r: "dir_rep K v' d bs' ps'"
      "unat (i_indirect (s_inode v' d)) \<in> dir_reach v d (B d)" "set bs' \<subseteq> dir_reach v d (B d)"
  shows "dirs_rep K v' (E(d \<mapsto> dir_entries ps'))"
proof -
  let ?B = "B(d := bs')" and ?P = "P(d := ps')"
  have ds: "0 < s_data_start v" using assms(1) by (simp add: alloc_inv_def)
  have other: "known v' j" "dir_rep K v' j (B j) (P j)" "dir_blocks v' j (B j) = dir_blocks v j (B j)"
      "dir_blocks v j (B j) \<inter> dir_blocks v' d bs' = {}" if j: "j \<in> dom E" "j \<noteq> d" for j
  proof -
    have x: "dir_blocks v j (B j) \<inter> dir_blocks v d (B d) = {}" using assms(2,4) j by blast
    have dr: "dir_rep K v d (B d) (P d)" "dir_rep K v j (B j) (P j)" "known v j" using assms(2,3) j(1) by blast+
    have nd: "j \<notin> {d}" using j(2) by simp
    show "known v' j" by (rule known_changes [OF dr(3) c nd])
    show "dir_rep K v' j (B j) (P j)" by (rule others_kept [OF changes_touches [OF c] dr(1,2) nd x _ ds]) simp
    show "dir_blocks v' j (B j) = dir_blocks v j (B j)" using same_inodeD(7) [OF changesD(5) [OF c nd]] by (simp add: dir_blocks_def)
    show "dir_blocks v j (B j) \<inter> dir_blocks v' d bs' = {}"
      using blocks_apart [OF dr(2) x] r(2,3) by (auto simp: dir_blocks_def)
  qed
  have "known v' d" using known_dir [OF _ c r(1)] assms(2,3) by blast
  then have "\<forall>j \<in> dom (E(d \<mapsto> dir_entries ps')). known v' j \<and> dir_rep K v' j (?B j) (?P j) \<and> (E(d \<mapsto> dir_entries ps')) j = Some (dir_entries (?P j))"
    using other(1,2) r(1) assms(3) by auto
  moreover have "\<forall>i \<in> dom (E(d \<mapsto> dir_entries ps')). \<forall>j \<in> dom (E(d \<mapsto> dir_entries ps')). i \<noteq> j \<longrightarrow> dir_blocks v' i (?B i) \<inter> dir_blocks v' j (?B j) = {}"
  proof (intro ballI impI)
    fix i j assume "i \<in> dom (E(d \<mapsto> dir_entries ps'))" "j \<in> dom (E(d \<mapsto> dir_entries ps'))" and n: "i \<noteq> j"
    then have "i \<in> dom E" "j \<in> dom E" using assms(2) by auto
    then show "dir_blocks v' i (?B i) \<inter> dir_blocks v' j (?B j) = {}"
      using n other(3,4) assms(4) by (cases "i = d"; cases "j = d") (auto simp: Int_commute)
  qed
  ultimately show ?thesis unfolding dirs_rep_def by blast
qed

lemma add_dirs:
  assumes K: "kernel_lib K" and v: "sound v" "dirs_rep K v E" "d \<in> dom E" and n: "name \<noteq> []" "0 < ino" "ino < 2 ^ 64"
    and r: "beamfs_add_dirent K v d name ino ft = (r, v')"
  shows "sound v'" "known v i \<Longrightarrow> known v' i" "s_scratch_ok v' = s_scratch_ok v" "i \<noteq> d \<Longrightarrow> same_inode (s_inode v i) (s_inode v' i)"
    "case r of Some e \<Rightarrow> dirs_rep K v' E
     | None \<Rightarrow> s_scratch_ok v \<and> (\<exists>es'. adds_one (name, word_of_nat ino, ft) (the (E d)) es' \<and> dirs_rep K v' (E(d \<mapsto> es')))"
proof -
  obtain B P where BP: "\<forall>d \<in> dom E. known v d \<and> dir_rep K v d (B d) (P d) \<and> E d = Some (dir_entries (P d))"
    "\<forall>d \<in> dom E. \<forall>d' \<in> dom E. d \<noteq> d' \<longrightarrow> dir_blocks v d (B d) \<inter> dir_blocks v d' (B d') = {}"
    using v(2) unfolding dirs_rep_def by blast
  have rep: "dir_rep K v d (B d) (P d)" and E: "E d = Some (dir_entries (P d))" using BP(1) v(3) by blast+
  note A = add_dirent_owned [OF K soundD(1,2) [OF v(1)] rep n, of ft, unfolded r prod.case]
  note c = A [THEN conjunct1] and ind = A [THEN conjunct2, THEN conjunct1] and res = A [THEN conjunct2, THEN conjunct2]
  show "sound v'" by (rule sound_changes [OF v(1) c]) (use reach_region [OF rep] in blast)
  show "s_scratch_ok v' = s_scratch_ok v" by (rule changesD(6) [OF c])
  show "same_inode (s_inode v i) (s_inode v' i)" if "i \<noteq> d" by (rule changesD(5) [OF c]) (use that in simp)
  have "\<exists>bs ps. dir_rep K v' d bs ps" using res by (auto split: option.splits)
  then show "known v' i" if "known v i" using known_changes [OF that c] known_dir [OF that c] by (cases "i = d") auto
  show "case r of Some e \<Rightarrow> dirs_rep K v' E
     | None \<Rightarrow> s_scratch_ok v \<and> (\<exists>es'. adds_one (name, word_of_nat ino, ft) (the (E d)) es' \<and> dirs_rep K v' (E(d \<mapsto> es')))"
  proof (cases r)
    case None
    then show ?thesis using res dirs_rep_one [OF soundD(1) [OF v(1)] v(3) BP c _ ind] E by auto
  next
    case (Some e)
    then have d: "dir_rep K v' d (B d) (P d)" using res by simp
    have "dirs_rep K v' (E(d \<mapsto> dir_entries (P d)))"
      by (rule dirs_rep_one [OF soundD(1) [OF v(1)] v(3) BP c d ind]) (auto simp: dir_reach_def)
    then show ?thesis using Some E by (simp add: fun_upd_idem)
  qed
qed

lemma del_dirs:
  assumes K: "kernel_lib K" and v: "sound v" "dirs_rep K v E" "d \<in> dom E" and r: "beamfs_del_dirent K v d name = (r, v')"
  shows "sound v'" "known v i \<Longrightarrow> known v' i" "s_scratch_ok v' = s_scratch_ok v" "i \<noteq> d \<Longrightarrow> same_inode (s_inode v i) (s_inode v' i)"
    "case r of Some e \<Rightarrow> dirs_rep K v' E \<and> (e = ENOMEM \<and> \<not> s_scratch_ok v \<or> e = ENOENT \<and> name \<notin> set (names (the (E d))))
     | None \<Rightarrow> \<exists>es'. removes_first name (the (E d)) es' \<and> dirs_rep K v' (E(d \<mapsto> es'))"
proof -
  obtain B P where BP: "\<forall>d \<in> dom E. known v d \<and> dir_rep K v d (B d) (P d) \<and> E d = Some (dir_entries (P d))"
    "\<forall>d \<in> dom E. \<forall>d' \<in> dom E. d \<noteq> d' \<longrightarrow> dir_blocks v d (B d) \<inter> dir_blocks v d' (B d') = {}"
    using v(2) unfolding dirs_rep_def by blast
  have rep: "dir_rep K v d (B d) (P d)" and E: "E d = Some (dir_entries (P d))" using BP(1) v(3) by blast+
  note A = del_dirent_result [OF K soundD(2) [OF v(1)] rep, of name, unfolded r prod.case]
  have c: "changes {d} (dir_reach v d (B d)) v v'"
  proof (cases r)
    case None
    then have "changes {d} (set (B d)) v v'" using A by auto
    then show ?thesis by (rule changes_mono) (auto simp: dir_reach_def)
  qed (use A keeps_changes in auto)
  show "sound v'" by (rule sound_changes [OF v(1) c]) (use reach_region [OF rep] in blast)
  show "s_scratch_ok v' = s_scratch_ok v" by (rule changesD(6) [OF c])
  show "same_inode (s_inode v i) (s_inode v' i)" if "i \<noteq> d" by (rule changesD(5) [OF c]) (use that in simp)
  show "case r of Some e \<Rightarrow> dirs_rep K v' E \<and> (e = ENOMEM \<and> \<not> s_scratch_ok v \<or> e = ENOENT \<and> name \<notin> set (names (the (E d))))
     | None \<Rightarrow> \<exists>es'. removes_first name (the (E d)) es' \<and> dirs_rep K v' (E(d \<mapsto> es'))"
  proof (cases r)
    case None
    then obtain ps' where p: "dir_rep K v' d (B d) ps'" "removes_first name (dir_entries (P d)) (dir_entries ps')"
      "i_indirect (s_inode v' d) = i_indirect (s_inode v d)" using A by auto
    have ind: "unat (i_indirect (s_inode v' d)) \<in> dir_reach v d (B d)" using p(3) by (simp add: dir_reach_def)
    show ?thesis using None E p(2) dirs_rep_one [OF soundD(1) [OF v(1)] v(3) BP c p(1) ind] by (auto simp: dir_reach_def)
  next
    case (Some e)
    then show ?thesis using A E dirs_rep_keeps [OF v(2)] by auto
  qed
  have "\<exists>bs ps. dir_rep K v' d bs ps" using A dir_rep_step [OF rep keeps_changes, of v' "{}" "{}"] by (auto split: option.splits)
  then show "known v' i" if "known v i" using known_changes [OF that c] known_dir [OF that c] by (cases "i = d") auto
qed

lemma empty_dirs:
  assumes K: "kernel_lib K" and v: "sound v" "dirs_rep K v E" "d \<in> dom E"
  shows "\<exists>v'. beamfs_dir_is_empty K v d
      = (if \<not> s_scratch_ok v then Some ENOMEM else if only_dots (the (E d)) then None else Some ENOTEMPTY, v') \<and> keeps v v'"
proof -
  obtain bs ps where "dir_rep K v d bs ps" "E d = Some (dir_entries ps)" using v(2,3) unfolding dirs_rep_def by blast
  then show ?thesis using empty_blocks_spec [OF K soundD(2) [OF v(1)], of d bs ps 0] by (auto simp: beamfs_dir_is_empty_def)
qed

lemma keeps_sound:
  assumes "keeps v v'" "sound v"
  shows "sound v'" "known v i \<Longrightarrow> known v' i" "s_scratch_ok v' = s_scratch_ok v" "same_inode (s_inode v i) (s_inode v' i)"
proof -
  have c: "changes {} {} v v'" by (rule keeps_changes [OF assms(1)])
  show "sound v'" by (rule sound_changes [OF assms(2) c]) simp
  show "known v i \<Longrightarrow> known v' i" by (erule known_changes [OF _ c]) simp
  show "s_scratch_ok v' = s_scratch_ok v" "same_inode (s_inode v i) (s_inode v' i)" using changesD(5,6) [OF c] by simp_all
qed

subsection \<open>Removal\<close>

lemma dec_nlink [simp]: "i_nlink (s_inode (inode_dec_link_count i v) j) = i_nlink (s_inode v j) - (if j = i then 1 else 0)"
  by (simp add: inode_dec_link_count_def mark_inode_dirty_def upd_inode_def)

lemma ctime_nlink [simp]: "i_nlink (s_inode (set_ctime_current i v) j) = i_nlink (s_inode v j)"
  by (simp add: set_ctime_current_def upd_inode_def)

text \<open>C11: Removing a name removes one entry and one link. When \<^const>\<open>beamfs_unlink\<close> succeeds, the first entry of that name
  is gone from the directory, every other entry of every directory is what it was, and the inode has one link
  fewer; the only errors are that the name is not there or that there is no memory, and then neither the directories
  nor the link count have changed.\<close>
theorem unlink_removes_one:
  fixes v :: "'a volume_scheme"
  assumes K: "kernel_lib K" and v: "sound v" "dirs_rep K v E" "dir \<in> dom E" "ino \<noteq> dir"
    and r: "beamfs_unlink K v dir name ino = (r, v')"
  shows "case r of
      None \<Rightarrow> (\<exists>es'. removes_first name (the (E dir)) es' \<and> dirs_rep K v' (E(dir \<mapsto> es')))
        \<and> i_nlink (s_inode v' ino) = i_nlink (s_inode v ino) - 1
    | Some e \<Rightarrow> dirs_rep K v' E \<and> i_nlink (s_inode v' ino) = i_nlink (s_inode v ino)
        \<and> (e = ENOMEM \<and> \<not> s_scratch_ok v \<or> e = ENOENT \<and> name \<notin> set (names (the (E dir))))"
proof -
  obtain e v1 where d: "beamfs_del_dirent K v dir name = (e, v1)" by fastforce
  note D = del_dirs [OF K v(1-3) d]
  have l: "i_nlink (s_inode v1 ino) = i_nlink (s_inode v ino)" using same_inodeD(4) [OF D(4) [OF v(4)]] by simp
  show ?thesis
  proof (cases e)
    case None
    let ?u = "inode_dec_link_count ino (set_ctime_current ino v1)"
    obtain x w where w: "beamfs_write_inode_raw K ?u dir = (x, w)" by fastforce
    have r': "r = None" "v' = w" using r d None w by (simp_all add: beamfs_unlink_def and_then_def)
    have k: "known v dir" using v(2,3) by (auto simp: dirs_rep_def)
    have s: "sound ?u" "known ?u dir" using D(1,2) k by simp_all
    obtain es' where "removes_first name (the (E dir)) es'" "dirs_rep K v1 (E(dir \<mapsto> es'))" using D(5) None by auto
    then show ?thesis using dirs_rep_write [OF K s w dirs_rep_counts(1) [OF dirs_rep_counts(3)]] write_inode_keeps(3) [OF K s w] l r' by auto
  next
    case (Some err)
    then have "r = Some err" "v' = v1" using r d by (simp_all add: beamfs_unlink_def and_then_def)
    then show ?thesis using D(5) Some l by simp
  qed
qed

text \<open>C12: Only an empty directory is removed. When \<^const>\<open>beamfs_rmdir\<close> succeeds, the directory had no entries besides
  \<^verbatim>\<open>.\<close> and \<^verbatim>\<open>..\<close>, its first entry in the parent is gone and every other entry of every directory is what it was, it has
  two links fewer; a directory with another entry is refused with \<^const>\<open>ENOTEMPTY\<close>, and on
  every error the directories and the link count are what they were.\<close>
theorem rmdir_only_empty:
  fixes v :: "'a volume_scheme"
  assumes K: "kernel_lib K" and v: "sound v" "dirs_rep K v E" "dir \<in> dom E" "ino \<in> dom E" "ino \<noteq> dir"
    and r: "beamfs_rmdir K v dir name ino = (r, v')"
  shows "case r of
      None \<Rightarrow> only_dots (the (E ino)) \<and> (\<exists>es'. removes_first name (the (E dir)) es' \<and> dirs_rep K v' (E(dir \<mapsto> es')))
        \<and> i_nlink (s_inode v' ino) = i_nlink (s_inode v ino) - 2
    | Some e \<Rightarrow> dirs_rep K v' E \<and> i_nlink (s_inode v' ino) = i_nlink (s_inode v ino)
        \<and> (e = ENOMEM \<and> \<not> s_scratch_ok v \<or> e = ENOTEMPTY \<and> \<not> only_dots (the (E ino)) \<or> e = ENOENT \<and> name \<notin> set (names (the (E dir))))"
proof -
  obtain v0 where z: "beamfs_dir_is_empty K v ino = (if \<not> s_scratch_ok v then Some ENOMEM
      else if only_dots (the (E ino)) then None else Some ENOTEMPTY, v0)" "keeps v v0"
    using empty_dirs [OF K v(1,2,4)] by blast
  note S = keeps_sound [OF z(2) v(1)] and E0 = dirs_rep_keeps [OF v(2) z(2)]
  have l0: "i_nlink (s_inode v0 ino) = i_nlink (s_inode v ino)" using same_inodeD(4) [OF S(4)] by simp
  obtain e v1 where d: "beamfs_del_dirent K v0 dir name = (e, v1)" by fastforce
  note D = del_dirs [OF K S(1) E0 v(3) d]
  have l: "i_nlink (s_inode v1 ino) = i_nlink (s_inode v ino)" using same_inodeD(4) [OF D(4) [OF v(5)]] l0 by simp
  show ?thesis
  proof (cases "s_scratch_ok v \<and> only_dots (the (E ino))")
    case False
    then show ?thesis using r z(1) E0 l0 by (cases "s_scratch_ok v") (auto simp: beamfs_rmdir_def and_then_def)
  next
    case True
    note z1 = z(1) [simplified True, simplified]
    show ?thesis
    proof (cases e)
      case None
      let ?u = "inode_dec_link_count dir (inode_dec_link_count ino (inode_dec_link_count ino v1))"
      obtain x w where w: "beamfs_write_inode_raw K ?u dir = (x, w)" by fastforce
      have r': "r = None" "v' = w" using r d None w z1 by (simp_all add: beamfs_rmdir_def and_then_def)
      have "known v dir" using v(2,3) by (auto simp: dirs_rep_def)
      then have s: "sound ?u" "known ?u dir" using D(1,2) S(2) by simp_all
      obtain es' where "removes_first name (the (E dir)) es'" "dirs_rep K v1 (E(dir \<mapsto> es'))" using D(5) None by auto
      then show ?thesis
        using dirs_rep_write [OF K s w dirs_rep_counts(1) [OF dirs_rep_counts(1) [OF dirs_rep_counts(1)]]] write_inode_keeps(3) [OF K s w] l r' True v(5)
        by auto
    next
      case (Some err)
      then have "r = Some err" "v' = v1" using r d z1 by (simp_all add: beamfs_rmdir_def and_then_def)
      then show ?thesis using D(5) Some l S(3) True by auto
    qed
  qed
qed

subsection \<open>Renaming\<close>

text \<open>The map after an entry has moved, and after the entry \<^verbatim>\<open>..\<close> of a directory has followed it.\<close>

definition moved :: "(ino \<rightharpoonup> entry list) \<Rightarrow> ino \<Rightarrow> byte list \<Rightarrow> ino \<Rightarrow> entry \<Rightarrow> (ino \<rightharpoonup> entry list) \<Rightarrow> bool" where
  "moved E old_dir old_name new_dir entry M \<longleftrightarrow> (\<exists>fs es. adds_one entry (the (E new_dir)) fs
     \<and> removes_first old_name (the ((E(new_dir \<mapsto> fs)) old_dir)) es \<and> M = E(new_dir \<mapsto> fs, old_dir \<mapsto> es))"

definition reparented :: "(ino \<rightharpoonup> entry list) \<Rightarrow> ino \<Rightarrow> ino \<Rightarrow> (ino \<rightharpoonup> entry list) \<Rightarrow> bool" where
  "reparented M ino new_dir E' \<longleftrightarrow> (\<exists>ds ds'. removes_first [0x2E, 0x2E] (the (M ino)) ds
     \<and> adds_one ([0x2E, 0x2E], word_of_nat new_dir, DT_DIR) ds ds' \<and> E' = M(ino \<mapsto> ds'))"

text \<open>What the update of \<^verbatim>\<open>..\<close> leaves: on an error the entry has been replaced and the volume failed in the write of the
  inode, or there was none to replace, or it is gone and could not be added again.\<close>

definition dotdot_left :: "kenv \<Rightarrow> 'a volume_scheme \<Rightarrow> (ino \<rightharpoonup> entry list) \<Rightarrow> ino \<Rightarrow> ino \<Rightarrow> errno option \<Rightarrow> bool" where
  "dotdot_left K v' M ino new_dir r \<longleftrightarrow> (case r of
       None \<Rightarrow> \<exists>E'. reparented M ino new_dir E' \<and> dirs_rep K v' E'
     | Some e \<Rightarrow> e = EIO \<and> s_failed v' \<and> (\<exists>E'. reparented M ino new_dir E' \<and> dirs_rep K v' E')
         \<or> e = ENOENT \<and> [0x2E, 0x2E] \<notin> set (names (the (M ino))) \<and> dirs_rep K v' M
         \<or> (\<exists>ds. removes_first [0x2E, 0x2E] (the (M ino)) ds \<and> dirs_rep K v' (M(ino \<mapsto> ds))))"

lemma dotdot_dirs:
  assumes K: "kernel_lib K" and v: "sound v" "dirs_rep K v M" "ino \<in> dom M" "s_scratch_ok v" and d: "0 < new_dir" "new_dir < 2 ^ 64"
    and r: "rename_dotdot K v ino old_dir new_dir = (r, v')"
  shows "sound v'" "known v i \<Longrightarrow> known v' i"
    "dotdot_left K v' M ino new_dir r"
proof -
  have ki: "known v ino" using v(2,3) by (auto simp: dirs_rep_def)
  obtain e1 v1 where 1: "beamfs_del_dirent K v ino [0x2E, 0x2E] = (e1, v1)" by fastforce
  note D = del_dirs [OF K v(1-3) 1]
  obtain e2 v2 where 2: "beamfs_add_dirent K v1 ino [0x2E, 0x2E] new_dir DT_DIR = (e2, v2)" by fastforce
  let ?u = "inode_inc_link_count new_dir (inode_dec_link_count old_dir v2)"
  obtain e3 v3 where 3: "beamfs_write_inode_raw K ?u ino = (e3, v3)" by fastforce
  note f = r [unfolded rename_dotdot_def and_then_def 1, simplified]
  have all: "sound v' \<and> (\<forall>i. known v i \<longrightarrow> known v' i) \<and> dotdot_left K v' M ino new_dir r"
  proof (cases e1)
    case (Some e)
    then have "r = Some e" "v' = v1" using f by simp_all
    then show ?thesis using D(1,2,5) Some v(4) by (auto simp: dotdot_left_def)
  next
    case None
    then obtain ds where ds: "removes_first [0x2E, 0x2E] (the (M ino)) ds" "dirs_rep K v1 (M(ino \<mapsto> ds))" using D(5) by auto
    note A = add_dirs [OF K D(1) ds(2) _ _ d 2, simplified]
    show ?thesis
    proof (cases e2)
      case (Some e)
      then have "r = Some e" "v' = v2" using f None 2 by simp_all
      then show ?thesis using A(1,2,5) D(2) Some ds(1) by (auto simp: dotdot_left_def)
    next
      case None': None
      then have r': "r = e3" "v' = v3" using f None 2 3 by (cases e3; simp)+
      obtain ds' where ds': "adds_one ([0x2E, 0x2E], word_of_nat new_dir, DT_DIR) ds ds'" "dirs_rep K v2 (M(ino \<mapsto> ds'))"
        using A(5) None' by auto
      have s: "sound ?u" "known ?u ino" using A(1,2) D(2) ki by simp_all
      note W = write_inode_keeps [OF K s 3]
      have "dirs_rep K v3 (M(ino \<mapsto> ds'))" by (rule dirs_rep_write [OF K s 3 dirs_rep_counts(2) [OF dirs_rep_counts(1) [OF ds'(2)]]])
      moreover have "reparented M ino new_dir (M(ino \<mapsto> ds'))" using ds(1) ds'(1) by (auto simp: reparented_def)
      moreover have "sound v3" "known v i \<Longrightarrow> known v3 i" for i using W(1,2) A(2) D(2) by simp_all
      ultimately show ?thesis using W(4,5) unfolding r' by (cases "s_failed v2") (auto simp: dotdot_left_def)
    qed
  qed
  then show "sound v'" "known v i \<Longrightarrow> known v' i" "dotdot_left K v' M ino new_dir r" by blast+
qed

text \<open>The steps after the move: the entry \<^verbatim>\<open>..\<close> of a directory that changes its parent, and the records.\<close>

lemma rename_rest:
  assumes K: "kernel_lib K" and v: "sound v" "dirs_rep K v M" "s_scratch_ok v" "known v ino" "known v old_dir" "known v new_dir" "new_dir < 2 ^ 64"
    and m: "across \<Longrightarrow> ino \<in> dom M"
    and r: "and_then (if across then rename_dotdot K v ino old_dir new_dir else (None, v))
        (\<lambda>v. rename_persist K v ino old_dir new_dir None) = (r, v')"
  shows "if across then dotdot_left K v' M ino new_dir r else dirs_rep K v' M \<and> (r = None \<or> r = Some EIO \<and> s_failed v')"
proof -
  have still: "dirs_rep K w' E" "x = None \<or> x = Some EIO \<and> s_failed w'"
    if "sound w" "dirs_rep K w E" "known w ino" "known w old_dir" "known w new_dir" "rename_persist K w ino old_dir new_dir None = (x, w')" for w w' x E
    using rename_persist_spec [OF K that(1,3-6)] by (auto intro: dirs_rep_still [OF that(2)])
  obtain e1 v1 where 1: "rename_dotdot K v ino old_dir new_dir = (e1, v1)" by fastforce
  obtain e2 v2 where 2: "rename_persist K v1 ino old_dir new_dir None = (e2, v2)" by fastforce
  show ?thesis
  proof (cases across)
    case False
    then show ?thesis using still [OF v(1,2,4-6)] r by (auto simp: and_then_def)
  next
    case True
    have "0 < new_dir" using v(6) by (simp add: known_def)
    note D = dotdot_dirs [OF K v(1,2) m [OF True] v(3) this v(7) 1]
    show ?thesis
    proof (cases e1)
      case (Some e)
      then show ?thesis using r True 1 D(3) by (simp add: and_then_def)
    next
      case None
      then have r': "r = e2" "v' = v2" using r True 1 2 by (simp_all add: and_then_def)
      obtain E' where E': "reparented M ino new_dir E'" "dirs_rep K v1 E'" using D(3) None by (auto simp: dotdot_left_def)
      show ?thesis using still [OF D(1) E'(2) D(2) [OF v(4)] D(2) [OF v(5)] D(2) [OF v(6)] 2] E'(1) True
        unfolding r' by (auto simp: dotdot_left_def)
    qed
  qed
qed

lemma and_then_None: "and_then (None, v) f = f v"
  by (simp add: and_then_def)

text \<open>C10: What renaming an inode to a name that was not there leaves, on every way out. When \<^const>\<open>beamfs_rename\<close> succeeds,
  the new name is one more entry of the new directory, naming the inode, the first entry of the old name is gone from
  the old directory, which may be the same one, and the entry \<^verbatim>\<open>..\<close> of a directory that changed its parent names the new
  one. When it returns an error, every directory has the entries it had (the new entry could not be added, or the
  old one could not be removed and the new one was taken back), or the move has been done and is not undone: the
  volume failed in the write of an inode, or the moved directory had no entry \<^verbatim>\<open>..\<close>, or lost it because it could not
  be added again. No other directory changes.\<close>
theorem rename_moves_entry:
  fixes v :: "'a volume_scheme"
  assumes K: "kernel_lib K" and v: "sound v" "dirs_rep K v E" "old_dir \<in> dom E" "new_dir \<in> dom E" "known v ino" "s_ninodes v < 2 ^ 64"
    and n: "new_name \<noteq> []" "new_name \<notin> set (names (the (E new_dir)))"
    and m: "S_ISDIR (i_mode (s_inode v ino)) \<Longrightarrow> ino \<in> dom E"
    and r: "beamfs_rename K v old_dir old_name ino new_dir new_name None flags = (r, v')"
    and entry: "entry = (new_name, word_of_nat ino, if S_ISDIR (i_mode (s_inode v ino)) then DT_DIR else DT_REG)"
    and across: "across = (S_ISDIR (i_mode (s_inode v ino)) \<and> old_dir \<noteq> new_dir)"
  shows "case r of
      None \<Rightarrow> \<exists>M E'. moved E old_dir old_name new_dir entry M \<and> (if across then reparented M ino new_dir E' else E' = M) \<and> dirs_rep K v' E'
    | Some e \<Rightarrow> dirs_rep K v' E
        \<or> (\<exists>M. moved E old_dir old_name new_dir entry M
            \<and> (e = EIO \<and> s_failed v' \<and> (\<exists>E'. (if across then reparented M ino new_dir E' else E' = M) \<and> dirs_rep K v' E')
               \<or> across \<and> e = ENOENT \<and> [0x2E, 0x2E] \<notin> set (names (the (M ino))) \<and> dirs_rep K v' M
               \<or> across \<and> (\<exists>ds. removes_first [0x2E, 0x2E] (the (M ino)) ds \<and> dirs_rep K v' (M(ino \<mapsto> ds)))))"
proof (cases "flags AND NOT RENAME_NOREPLACE = 0")
  case False
  then show ?thesis using r v(2) by (auto simp: beamfs_rename_def)
next
  case True
  define ft where "ft = (if S_ISDIR (i_mode (s_inode v ino)) then DT_DIR else DT_REG)"
  have kd: "known v old_dir" "known v new_dir" using v(2-4) by (auto simp: dirs_rep_def)
  then have i: "0 < ino" "ino < 2 ^ 64" "new_dir < 2 ^ 64" using v(5,6) by (simp_all add: known_def)
  obtain e1 v1 where a: "beamfs_add_dirent K v new_dir new_name ino ft = (e1, v1)" by fastforce
  note A = add_dirs [OF K v(1,2,4) n(1) i(1,2) a]
  obtain e2 v2 where d: "beamfs_del_dirent K v1 old_dir old_name = (e2, v2)" by fastforce
  note f = r [unfolded beamfs_rename_def Let_def ft_def [symmetric] across [symmetric], simplified True, simplified, unfolded and_then_None, simplified]
  show ?thesis
  proof (cases e1)
    case (Some e)
    then have "r = Some e" "v' = v1" using f a by auto
    then show ?thesis using A(5) Some by simp
  next
    case None
    then obtain fs where fs: "adds_one (new_name, word_of_nat ino, ft) (the (E new_dir)) fs" "dirs_rep K v1 (E(new_dir \<mapsto> fs))" "s_scratch_ok v"
      using A(5) by auto
    have dom: "old_dir \<in> dom (E(new_dir \<mapsto> fs))" "new_dir \<in> dom (E(new_dir \<mapsto> fs))" using v(3) by auto
    note D = del_dirs [OF K A(1) fs(2) dom(1) d]
    show ?thesis
    proof (cases e2)
      case (Some e)
      obtain e3 v3 where u: "beamfs_del_dirent K v2 new_dir new_name = (e3, v3)" by fastforce
      have r': "r = Some e" "v' = v3" using f a d u None Some by simp_all
      have "dirs_rep K v2 (E(new_dir \<mapsto> fs))" using D(5) Some by simp
      note U = del_dirs [OF K D(1) this dom(2) u]
      have "new_name \<in> set (names fs)" using fs(1) by (auto simp: adds_one_def names_def)
      then obtain es where es: "removes_first new_name fs es" "dirs_rep K v3 (E(new_dir \<mapsto> es))"
        using U(5) D(3) A(3) fs(3) by (cases e3) auto
      have "es = the (E new_dir)" by (rule adds_removes [OF fs(1) es(1) n(2)])
      then have "E(new_dir \<mapsto> es) = E" using v(4) by auto
      then show ?thesis using es(2) r' by simp
    next
      case None': None
      have r': "and_then (if across then rename_dotdot K v2 ino old_dir new_dir else (None, v2))
          (\<lambda>v. rename_persist K v ino old_dir new_dir None) = (r, v')" using f a d None None' by simp
      obtain es where es: "removes_first old_name (the ((E(new_dir \<mapsto> fs)) old_dir)) es" "dirs_rep K v2 (E(new_dir \<mapsto> fs, old_dir \<mapsto> es))"
        using D(5) None' by auto
      let ?M = "E(new_dir \<mapsto> fs, old_dir \<mapsto> es)"
      have mv: "moved E old_dir old_name new_dir entry ?M" using fs(1) es(1) unfolding moved_def entry ft_def by blast
      have k: "known v2 ino" "known v2 old_dir" "known v2 new_dir" "s_scratch_ok v2" "across \<Longrightarrow> ino \<in> dom ?M"
        using A(2,3) D(2,3) v(5) kd fs(3) m across by auto
      show ?thesis using rename_rest [OF K D(1) es(2) k(4,1-3) i(3) k(5) r'] mv
        by (cases across; cases r) (auto simp: dotdot_left_def)
    qed
  qed
qed

subsection \<open>Witnesses\<close>

text \<open>A directory with one entry and a directory with none.\<close>

definition wit_dirs :: "ino \<rightharpoonup> entry list" where
  "wit_dirs = [1 \<mapsto> [([0x61], 2, 1)], 2 \<mapsto> []]"

lemma wit_dirs_ok: "sound wit_cvol" "dirs_rep port_kenv wit_cvol wit_dirs" "known wit_cvol 2" "s_scratch_ok wit_cvol"
proof -
  show "sound wit_cvol" using wit_cvol_ok(1) by (simp add: volume_ok_def sound_def)
  have k: "known wit_cvol i" if "i = 1 \<or> i = 2" for i
    using that by (auto simp: known_def wit_cvol_def wit_dvol_def wit_inode_def)
  then show "known wit_cvol 2" by simp
  have "dir_rep port_kenv wit_cvol 2 [] []"
    by (rule blank_dir) (simp add: blank_def wit_cvol_def wit_dvol_def wit_inode_def)
  moreover have "dir_rep port_kenv wit_cvol 1 [10] [wit_page]" using wit_cvol_ok(2) by (simp add: dir_ok_def)
  moreover have "dir_blocks wit_cvol 2 [] = {}"
    by (simp add: dir_blocks_def wit_cvol_def wit_dvol_def wit_inode_def)
  ultimately show "dirs_rep port_kenv wit_cvol wit_dirs" unfolding dirs_rep_def
    by (intro exI [of _ "(\<lambda>_. [])(1 := [10])"] exI [of _ "(\<lambda>_. [])(1 := [wit_page])"]) (auto simp: wit_dirs_def k wit_page(2))
  show "s_scratch_ok wit_cvol" by (simp add: wit_cvol_def wit_dvol_def)
qed

lemma removes_only: "removes_first n [(n, x)] es \<longleftrightarrow> es = []"
  by (cases x) (auto simp: removes_first_def Cons_eq_append_conv)

theorem unlink_removes_one_witness:
  "case beamfs_unlink port_kenv wit_cvol 1 [0x61] 3 of
     (None, v') \<Rightarrow> dirs_rep port_kenv v' [1 \<mapsto> [], 2 \<mapsto> []] \<and> i_nlink (s_inode v' 3) = i_nlink (s_inode wit_cvol 3) - 1
   | (Some e, v') \<Rightarrow> False"
proof -
  obtain r v' where r: "beamfs_unlink port_kenv wit_cvol 1 [0x61] 3 = (r, v')" by fastforce
  from unlink_removes_one [OF kport.kernel_lib_axioms wit_dirs_ok(1,2) _ _ r] show ?thesis unfolding r
    by (cases r) (auto simp: wit_dirs_def removes_only names_def wit_dirs_ok(4) fun_upd_twist)
qed

theorem rmdir_only_empty_witness:
  "case beamfs_rmdir port_kenv wit_cvol 1 [0x61] 2 of
     (None, v') \<Rightarrow> dirs_rep port_kenv v' [1 \<mapsto> [], 2 \<mapsto> []] \<and> i_nlink (s_inode v' 2) = i_nlink (s_inode wit_cvol 2) - 2
   | (Some e, v') \<Rightarrow> False"
proof -
  obtain r v' where r: "beamfs_rmdir port_kenv wit_cvol 1 [0x61] 2 = (r, v')" by fastforce
  from rmdir_only_empty [OF kport.kernel_lib_axioms wit_dirs_ok(1,2) _ _ _ r] show ?thesis unfolding r
    by (cases r) (auto simp: wit_dirs_def removes_only names_def wit_dirs_ok(4) only_dots_def fun_upd_twist)
qed

theorem rename_moves_entry_witness:
  "case beamfs_rename port_kenv wit_cvol 1 [0x61] 2 1 [0x62] None 0 of
     (None, v') \<Rightarrow> dirs_rep port_kenv v' [1 \<mapsto> [([0x62], 2, DT_DIR)], 2 \<mapsto> []]
   | (Some e, v') \<Rightarrow> dirs_rep port_kenv v' wit_dirs
       \<or> e = EIO \<and> s_failed v' \<and> dirs_rep port_kenv v' [1 \<mapsto> [([0x62], 2, DT_DIR)], 2 \<mapsto> []]"
proof -
  obtain r v' where r: "beamfs_rename port_kenv wit_cvol 1 [0x61] 2 1 [0x62] None 0 = (r, v')" by fastforce
  have d: "S_ISDIR (i_mode (s_inode wit_cvol 2))" by (simp add: wit_cvol_def wit_dvol_def wit_inode_def S_ISDIR_def)
  have e: "es = [([0x62], 2, DT_DIR)]" if "adds_one ([0x62], 2, DT_DIR) [([0x61], 2, 1)] fs" "removes_first [0x61] fs es" for fs es
    using that by (auto simp: adds_one_def removes_first_def names_def Cons_eq_append_conv append_eq_Cons_conv)
  have M: "M = [1 \<mapsto> [([0x62], 2, DT_DIR)], 2 \<mapsto> []]" if m: "moved wit_dirs 1 [0x61] 1 ([0x62], 2, DT_DIR) M" for M
  proof -
    obtain fs es where f: "adds_one ([0x62], 2, DT_DIR) [([0x61], 2, 1)] fs" "removes_first [0x61] fs es" "M = wit_dirs(1 \<mapsto> fs, 1 \<mapsto> es)"
      using m by (auto simp: moved_def wit_dirs_def)
    show ?thesis unfolding f(3) e [OF f(1,2)] by (auto simp: wit_dirs_def)
  qed
  have "1 \<in> dom wit_dirs" "2 \<in> dom wit_dirs" "[0x62] \<notin> set (names (the (wit_dirs 1)))" "s_ninodes wit_cvol < 2 ^ 64"
    by (simp_all add: wit_dirs_def names_def wit_cvol_def)
  note c = rename_moves_entry [OF kport.kernel_lib_axioms wit_dirs_ok(1,2) this(1,1) wit_dirs_ok(3) this(4) _ this(3) this(2) r refl refl]
  show ?thesis unfolding r using c d by (cases r) (auto dest: M [simplified])
qed

end
