(* ===== verification/Namei_Sym.thy ===== *)
theory Namei_Sym
  imports Namei_Dirs
begin

section \<open>Symbolic links\<close>

text \<open>
  A target of less than 96 bytes is stored in the memory of the inode's direct pointers and read back from there.
\<close>

unbundle bit_operations_syntax

subsection \<open>The target in the pointers\<close>

lemma cpu_le_cpu: "length bs = 8 \<Longrightarrow> cpu_to_le 8 (le_to_cpu bs :: u64) = bs"
proof (rule nth_equalityI)
  fix i assume l: "length bs = 8" and "i < length (cpu_to_le 8 (le_to_cpu bs :: u64))"
  then have i: "i < 8" by simp
  show "cpu_to_le 8 (le_to_cpu bs :: u64) ! i = bs ! i"
  proof (rule bit_eqI)
    fix n assume "possible_bit TYPE(byte) n"
    then have "n < 8" by simp
    then show "bit (cpu_to_le 8 (le_to_cpu bs :: u64) ! i) n = bit (bs ! i) n"
      using i l by (simp add: cpu_to_le_def bit_simps bit_le_to_cpu)
  qed
qed simp

lemma direct_bytes_words:
  assumes "length bs = 96"
  shows "direct_bytes (direct_words bs) = bs"
proof -
  have s: "concat (map (\<lambda>i. get_bytes (8 * i) 8 bs) [0..<n]) = take (8 * n) bs" if "n \<le> 12" for n
    using that
  proof (induction n)
    case (Suc n)
    then show ?case using take_add [of "8 * n" 8 bs] by (simp add: get_bytes_def add.commute)
  qed simp
  have "cpu_to_le 8 (get_le64 (8 * i) bs) = get_bytes (8 * i) 8 bs" if "i < 12" for i
    using that assms by (simp add: get_le64_def cpu_le_cpu)
  then have "direct_bytes (direct_words bs) = concat (map (\<lambda>i. get_bytes (8 * i) 8 bs) [0..<12])"
    unfolding direct_bytes_def direct_words_def map_map by (intro arg_cong [of _ _ concat] map_cong) simp_all
  then show ?thesis using s [of 12] assms by simp
qed

lemma target_read:
  assumes "0 \<notin> set t" "length t < 96"
  shows "takeWhile (\<lambda>b. b \<noteq> (0 :: byte)) (put_bytes 0 t (replicate 96 0)) = t"
proof -
  have "takeWhile (\<lambda>b. b \<noteq> 0) (t @ replicate (96 - length t) 0) = t @ takeWhile (\<lambda>b. b \<noteq> 0) (replicate (96 - length t) 0)"
    by (rule takeWhile_append2) (use assms(1) in auto)
  then show ?thesis using assms(2) by (simp add: put_bytes_def takeWhile_replicate)
qed

subsection \<open>The link and its name\<close>

lemma new_link_sound:
  fixes v :: "'a volume_scheme"
  assumes v: "volume_ok v" "dir_ok K v dir bs ps" and bm: "s_inode_bitmap v = Some bm"
    and new: "beamfs_new_inode K owner v dir mode = (Inr ino, v1)"
  shows "sound v1" "known v1 ino" "known v1 dir" "dir_rep K v1 dir bs ps" "ino \<noteq> dir" "0 < ino" "ino < 2 ^ 64" "s_scratch_ok v1 = s_scratch_ok v"
proof -
  have V: "alloc_inv v" "layout_ok v" "inode_inv v" "table_ok v" "s_ninodes v < 2 ^ 64" using v(1) by (simp_all add: volume_ok_def)
  have D: "dir_rep K v dir bs ps" "s_icached v dir" "1 \<le> dir" "dir \<le> s_ninodes v" using v(2) by (simp_all add: dir_ok_def)
  from new_inode_step [OF new] obtain w0 where
    N: "beamfs_alloc_inode_num K v = (ino, w0)" "ino \<noteq> 0" "renumbers v w0" "changes {ino} {} w0 v1" "\<not> s_icached v ino" "blank (s_inode v1 ino)"
    by metis
  note A = alloc_inode_num_spec [OF V(3) bm N(1,2)]
  show ne: "ino \<noteq> dir" using N(5) D(2) by auto
  have t: "touches {ino} {} v v1" using touches_join [OF renumbers_touches [OF N(3), of "{}" "{}"] changes_touches [OF N(4)]] by simp
  note T = touchesD [OF t]
  show "sound v1" using T(2,3) V table_ok_touches [OF t V(1,4)] by (simp add: sound_def)
  show d: "dir_rep K v1 dir bs ps" by (rule dir_rep_touches [OF D(1) t]) (use ne in simp_all)
  show "known v1 ino" "0 < ino" "ino < 2 ^ 64" using A(1,2) T(9) N(6) V(5) by (simp_all add: known_def blank_def)
  show "known v1 dir" using D(3,4) T(9) dir_repD(1) [OF d] by (simp add: known_def)
  show "s_scratch_ok v1 = s_scratch_ok v" using changesD(6) [OF t [unfolded touches_def]] by simp
qed

lemma add_dirent_room:
  assumes "kernel_lib K" "alloc_inv v" "layout_ok v" "dir_rep K v dir bs ps" "name \<noteq> []" "0 < ino" "ino < 2 ^ 64"
    "beamfs_add_dirent K v dir name ino ft = (Some e, v')"
  shows "length name > 255 \<or> \<not> s_scratch_ok v \<or> (\<forall>p \<in> set ps. full name p)"
proof (rule ccontr)
  assume n: "\<not> ?thesis"
  have "(word_of_nat ino :: u64) \<noteq> 0" using assms(6,7) by (simp add: word_of_nat_eq_0_iff) (auto dest: dvd_imp_le)
  then have "add_result K dir (name, word_of_nat ino, ft) bs ps v (beamfs_add_dirent K v dir name ino ft)"
    using add_blocks_spec [OF assms(1,5) _ _ assms(2-4), of "word_of_nat ino" 0 ft] n by (simp add: beamfs_add_dirent_def)
  then show False using n assms(8) by (simp add: add_result_def)
qed

text \<open>The steps after the target is stored: the record, the entry, the directory's record.\<close>

lemma link_named:
  fixes u :: "'a volume_scheme"
  assumes K: "kernel_lib K" and U: "sound u" "known u dir" "known u ino" "dir_rep K u dir bs ps"
    and n: "name \<noteq> []" "0 < ino" "ino < 2 ^ 64" "ino \<noteq> dir"
    and r: "and_then (and_then (beamfs_write_inode_raw K u ino) (\<lambda>v. beamfs_add_dirent K v dir name ino ft))
        (\<lambda>v. beamfs_write_inode_raw K v dir) = (e, v')"
  shows "case e of
      None \<Rightarrow> same_inode (s_inode u ino) (s_inode v' ino)
        \<and> (\<exists>bs' ps'. dir_rep K v' dir bs' ps' \<and> adds_one (name, word_of_nat ino, ft) (dir_entries ps) (dir_entries ps'))
    | Some e \<Rightarrow> e = EIO \<and> s_failed v' \<or> length name > 255 \<or> \<not> s_scratch_ok u \<or> (\<forall>p \<in> set ps. full name p)"
proof -
  obtain e2 v2 where w: "beamfs_write_inode_raw K u ino = (e2, v2)" by fastforce
  note W = write_inode_keeps [OF K U(1,3) w]
  obtain e3 v3 where a: "beamfs_add_dirent K v2 dir name ino ft = (e3, v3)" by fastforce
  note d2 = W(6) [OF U(4)]
  note A = add_dirent_owned [OF K soundD(1,2) [OF W(1)] d2 n(1-3), of ft, unfolded a prod.case]
  note c3 = A [THEN conjunct1]
  have s3: "sound v3" by (rule sound_changes [OF W(1) c3]) (use reach_region [OF d2] in blast)
  obtain e4 v4 where w4: "beamfs_write_inode_raw K v3 dir = (e4, v4)" by fastforce
  note L = write_inode_keeps [OF K s3 known_dir [OF W(2) [THEN iffD2, OF U(2)] c3] w4]
  have sc: "s_scratch_ok v2 = s_scratch_ok u"
    using changesD(6) [OF write_inode_step(1) [OF soundD(1,3) [OF U(1)] _ _ w]] U(3) by (simp add: known_def)
  consider "e2 = Some EIO" "s_failed v2" | x where "e2 = None" "e3 = Some x" | bs' ps' where "e2 = None" "e3 = None" "dir_rep K v3 dir bs' ps'"
      "adds_one (name, word_of_nat ino, ft) (dir_entries ps) (dir_entries ps')"
    using W(4,5) A by (cases e2; cases e3) (auto split: if_splits)
  then show ?thesis
  proof cases
    case (2 x)
    then have "e = Some x" using r w a by (simp add: and_then_def)
    then show ?thesis using add_dirent_room [OF K soundD(1,2) [OF W(1)] d2 n(1-3), of ft x v3] a 2 sc by auto
  next
    case (3 bs' ps')
    then have e: "e = e4" "v' = v4" using r w a w4 by (simp_all add: and_then_def)
    have "same_inode (s_inode u ino) (s_inode v4 ino)" using L(3) [OF 3(3)] changesD(5) [OF c3, of ino] n(4) W(3) by simp
    then show ?thesis using L(4,5) [OF 3(3)] L(6) [OF 3(3) 3(3)] 3(4) e by (cases e4) (auto split: if_splits)
  qed (use r w in \<open>auto simp: and_then_def\<close>)
qed



end
