(* ===== verification/Namei_Reopen.thy ===== *)
theory Namei_Reopen
  imports Namei_Sym
begin

section \<open>A created file read again\<close>

text \<open>
  The inode \<^verbatim>\<open>beamfs_create\<close> builds in memory against the one \<^verbatim>\<open>beamfs_iget\<close> builds from the record: the two functions
  choose the type, the operations and the marks of an inode in code of their own.
\<close>

unbundle bit_operations_syntax

lemma new_inode_wf:
  fixes v :: "'a volume_scheme"
  assumes "keeps_type owner" "mode AND 0xF000 = 0" "time_ok (k_time (s_clk v))" "3 \<le> ino"
    and "beamfs_new_inode K owner v dir (mode OR S_IFREG) = (Inr ino, v')"
  shows "inode_wf (s_scheme v) ino (s_inode v' ino)"
proof -
  note f = new_file_fields [OF assms(1,2,5)]
  have "\<not> S_ISDIR (mode OR S_IFREG)" using type_bits [OF assms(2), of S_IFREG] by (simp add: S_ISDIR_def S_IFREG_def)
  moreover have "\<not> S_ISDIR (i_mode (s_inode v' ino))" using f(2) by (simp add: S_ISREG_def S_ISDIR_def)
  ultimately show ?thesis
    using f new_inode_step [OF assms(5)] assms(3,4)
    by (simp add: inode_wf_def blank_def inode_set_ops_def beamfs_ino_is_reserved_def) (metis)
qed

text \<open>A record in the table that decodes is what a read installs.\<close>

lemma iget_record:
  fixes v :: "'a volume_scheme"
  assumes K: "kernel_lib K" and v: "table_ok v" "s_inode_ok v" "1 \<le> ino" "ino \<le> s_ninodes v" "\<not> s_icached v ino"
    and i: "inode_wf (s_scheme v) ino i" "i_mode i \<noteq> 0" "inode_record v ino = inode_image K i raw" "length raw = 256"
  shows "\<exists>v'. beamfs_iget K v ino = (Inr ino, v') \<and> s_inode v' ino = i\<lparr>i_dirty := False\<rparr>"
proof -
  obtain bh where bh: "s_blk v (inode_block v ino) = Some bh" using v(1,3,4) by (auto simp: table_ok_def)
  have l: "length (i_direct i) = 12" using i(1) by (simp add: inode_wf_def)
  note c = inode_image_coded [OF K i(4) l]
  have "inode_recover K v (inode_record v ino) = Inr (inode_record v ino, None)"
    using c image_mode(1) [OF K i(4) l] i(2,3) by (simp add: inode_recover_def inode_coded_def)
  moreover have "inode_populate (s_scheme v) ino (inode_record v ino) = i\<lparr>i_dirty := False\<rparr>"
    using inode_populate_coded [OF c i(1), of "inode_record v ino"] c i(3) by (simp add: inode_coded_def)
  ultimately show ?thesis
    using v bh by (simp add: beamfs_iget_def beamfs_bread_def inode_record_def table_ok_def Let_def)
qed

text \<open>The record of the new inode after the entry and the directory have been written.\<close>

lemma created_record:
  fixes v :: "'a volume_scheme"
  assumes K: "kernel_lib K" and v: "volume_ok v" "dir_ok K v dir bs ps" and bm: "s_inode_bitmap v = Some bm" and n: "name \<noteq> []"
    and new: "beamfs_new_inode K owner v dir mode = (Inr ino, v1)"
    and y: "and_then (and_then (beamfs_write_inode_raw K v1 ino) (\<lambda>v. beamfs_add_dirent K v dir name ino ft))
        (\<lambda>v. beamfs_write_inode_raw K v dir) = (None, y)"
  shows "inode_record y ino = inode_image K (s_inode v1 ino) (inode_record v ino)" "length (inode_record v ino) = 256"
    "same_inode (s_inode v1 ino) (s_inode y ino)" "table_ok y" "s_scheme y = s_scheme v" "s_inode_ok y" "ino \<le> s_ninodes y" "test_bit ino bm"
proof -
  obtain v2 v3 where s: "beamfs_write_inode_raw K v1 ino = (None, v2)" "beamfs_add_dirent K v2 dir name ino ft = (None, v3)"
      "beamfs_write_inode_raw K v3 dir = (None, y)"
    using y by (auto simp: and_then_def split: prod.splits option.splits)
  note W = new_file_written [OF K v bm new s(1)]
  have i: "1 \<le> ino" "\<not> s_failed v2" using W(6,13) by (auto split: if_splits)
  obtain B where S: "touches {ino, dir} B v y" "same_inode (s_inode v1 ino) (s_inode y ino)" "table_ok y" "ino \<le> s_ninodes y"
      "\<And>j. 1 \<le> j \<Longrightarrow> j \<le> s_ninodes v \<Longrightarrow> j \<noteq> dir \<Longrightarrow> inode_record y j = inode_record v2 j"
    by (rule create_success [OF K v bm n new s]) (rule that)
  show "same_inode (s_inode v1 ino) (s_inode y ino)" "table_ok y" "ino \<le> s_ninodes y" "test_bit ino bm" by (rule S W)+
  show "inode_record y ino = inode_image K (s_inode v1 ino) (inode_record v ino)" using S(5) W(3,7,14) i by simp
  show "length (inode_record v ino) = 256"
    using v(1) i(1) W(7) by (force simp: volume_ok_def table_ok_def inode_record_def inode_off_def)
  have "s_inode_ok v" by (rule new_inode_step [OF new])
  then show "s_scheme y = s_scheme v" "s_inode_ok y" using S(1) by (simp_all add: touches_def changes_def alters_def)
qed

text \<open>C36: A created file read again is the file that was created. On a volume in order, when \<^const>\<open>beamfs_create\<close>
  succeeds and the inode leaves the cache, \<^const>\<open>beamfs_iget\<close> of its number succeeds and brings back every field the
  creation set (the mode with its type, the owner, the times, the link count, the empty pointers), the operations the
  creation chose and no immutable mark, although the entry and the directory's record were written in between, the
  latter perhaps into the same block of the table. Creation fails only because the volume has failed, no inode number is
  free, memory is short, the name is too long or no block of the directory has room for it.\<close>
theorem created_file_reopens:
  fixes v :: "'a volume_scheme"
  assumes K: "kernel_lib K" "keeps_type owner" and v: "volume_ok v" "dir_ok K v dir bs ps" "free_stale v" "time_ok (k_time (s_clk v))"
    and bm: "s_inode_bitmap v = Some bm" "\<forall>i. test_bit i bm \<longrightarrow> 3 \<le> i"
    and n: "name \<noteq> []" "mode AND 0xF000 = 0"
    and r: "beamfs_create K owner v dir name mode = (r, v')"
  shows "case r of
      Inr ino \<Rightarrow> \<exists>v''. beamfs_iget K (v'\<lparr>s_icached := (s_icached v')(ino := False)\<rparr>) ino = (Inr ino, v'')
        \<and> s_inode v'' ino = (s_inode v' ino)\<lparr>i_dirty := False\<rparr>
    | Inl e \<Rightarrow> e = EIO \<and> s_failed v' \<or> e = ENOSPC \<and> (s_failed v \<or> s_free_inodes v = 0) \<or> e = ENOMEM \<and> \<not> s_inode_ok v
        \<or> length name > 255 \<or> \<not> s_scratch_ok v \<or> (\<forall>p \<in> set ps. full name p)"
proof -
  have inv: "inode_inv v" using v(1) by (simp add: volume_ok_def)
  have cold: "\<forall>i. test_bit i bm \<longrightarrow> \<not> s_icached v i" using v(3) bm(1) by (simp add: free_stale_def)
  obtain x v1 where new: "beamfs_new_inode K owner v dir (mode OR S_IFREG) = (x, v1)" by fastforce
  show ?thesis
  proof (cases x)
    case (Inl e)
    then have "r = Inl e" using r new by (simp add: beamfs_create_def)
    then show ?thesis using new_inode_fails [OF inv bm(1) cold new [unfolded Inl]] by (auto split: if_splits)
  next
    case (Inr ino)
    note new = new [unfolded Inr]
    note N = new_link_sound [OF v(1,2) bm(1) new]
    obtain e y where y: "and_then (and_then (beamfs_write_inode_raw K v1 ino) (\<lambda>v. beamfs_add_dirent K v dir name ino DT_REG))
        (\<lambda>v. beamfs_write_inode_raw K v dir) = (e, y)" by fastforce
    note L = link_named [OF K(1) N(1,3,2,4) n(1) N(6,7,5) y]
    show ?thesis
    proof (cases e)
      case (Some err)
      then have r': "r = Inl err" "discard_new_inode K (inode_dec_link_count ino y) ino = v'"
        using r new y by (simp_all add: beamfs_create_def)
      note I = new_file_fields [OF K(2) n(2) new]
      obtain e2 v2 where "beamfs_write_inode_raw K v1 ino = (e2, v2)" by fastforce
      then have "3 \<le> ino" using new_file_written(8) [OF K(1) v(1,2) bm(1) new] bm(2) by blast
      then have "s_failed y \<longrightarrow> s_failed v'"
        by (rule create_failure [OF K(1) v(1,2) bm(1) n(1) new _ I(1,4,3) y [unfolded Some] r'(2)])
      then show ?thesis using L Some N(8) r'(1) by auto
    next
      case None
      then have r': "r = Inr ino" "v' = y" using r new y by (simp_all add: beamfs_create_def)
      note R = created_record [OF K(1) v(1,2) bm(1) n(1) new y [unfolded None]]
      have i: "3 \<le> ino" using R(8) bm(2) by blast
      note wf = new_inode_wf [OF K(2) n(2) v(4) i new]
      have "i_mode (s_inode v1 ino) \<noteq> 0" using new_file_fields(2) [OF K(2) n(2) new] by (auto simp: S_ISREG_def)
      then have "\<exists>v''. beamfs_iget K (y\<lparr>s_icached := (s_icached y)(ino := False)\<rparr>) ino = (Inr ino, v'')
          \<and> s_inode v'' ino = (s_inode v1 ino)\<lparr>i_dirty := False\<rparr>"
        using R(1,2,4-7) wf i
        by (intro iget_record [OF K(1), where raw = "inode_record v ino"])
          (simp_all add: table_ok_def inode_record_def inode_block_def side_region_def budget_region_def)
      then show ?thesis using R(3) unfolding r' by (simp add: same_inode_def)
    qed
  qed
qed

theorem created_file_reopens_witness:
  "case beamfs_create port_kenv (\<lambda>d m. (m, 0, 0)) wit_cvol 1 [0x62] 0x1A4 of
     (Inr ino, v') \<Rightarrow> \<exists>v''. beamfs_iget port_kenv (v'\<lparr>s_icached := (s_icached v')(ino := False)\<rparr>) ino = (Inr ino, v'')
       \<and> s_inode v'' ino = (s_inode v' ino)\<lparr>i_dirty := False\<rparr>
   | (Inl e, v') \<Rightarrow> e = EIO \<and> s_failed v' \<or> full [0x62] wit_page"
proof -
  obtain r v' where r: "beamfs_create port_kenv (\<lambda>d m. (m, 0, 0)) wit_cvol 1 [0x62] 0x1A4 = (r, v')" by fastforce
  have b: "\<forall>i. test_bit i [False, False, False, True] \<longrightarrow> 3 \<le> i" unfolding wit_cvol_free(1) by simp
  have "\<not> s_failed wit_cvol" "s_free_inodes wit_cvol = 1" "s_clk wit_cvol = wit_clk" by (simp_all add: wit_cvol_def wit_dvol_def)
  then show ?thesis unfolding r
    using created_file_reopens [OF kport.kernel_lib_axioms _ wit_cvol_ok(1,2) wit_cvol_free(2) _ wit_cvol_ok(4) b _ _ r]
      wit_cvol_ok(3) wit_dirs_ok(4)
    by (cases r) (auto simp: keeps_type_def time_ok_def wit_clk_def)
qed

end
