(* ===== verification/Spec2Isabelle.thy ===== *)
theory Spec2Isabelle
  imports Dir_Read Namei_Reopen
begin

text \<open>
  \<^bold>\<open>Verification of beamfs.\<close>

  beamfs is a Linux file system for media that lose bits: every block it writes carries Reed-Solomon parity,
  and what a read corrects is journalled. The sources under \<^verbatim>\<open>src/\<close> are a kernel driver (the \<^verbatim>\<open>.c\<close> files of the top
  directory, the format in \<^verbatim>\<open>beamfs_format.h\<close>), a formatter (\<^verbatim>\<open>tools/mkfs.beamfs\<close>) and a checker
  (\<^verbatim>\<open>tools/fsck.beamfs\<close>) with its own port of the codec.

  \<^bold>\<open>Parts and theories.\<close>

  \<^item> \<^verbatim>\<open>Prelude\<close>: machine words, error numbers, byte buffers (\<open>get_bytes\<close>, \<open>put_bytes\<close>, the little-endian
    fields), lists, exclusive or.
  \<^item> \<^verbatim>\<open>GF256\<close>, \<^verbatim>\<open>RS_Codec\<close>, \<^verbatim>\<open>RS_Encode\<close>, \<^verbatim>\<open>RS_Decode\<close>, \<^verbatim>\<open>RS_Correct\<close>: \<^verbatim>\<open>tools/fsck.beamfs/rs_decode.c\<close>.
    \<^const>\<open>rs_init\<close> builds the tables, \<^const>\<open>rs_encode_subblock\<close> and \<^const>\<open>rs_decode_subblock\<close> are the codec with its
    loops (syndromes, Berlekamp-Massey, Chien search, Forney) as written. Shown: the tables are the field with 256
    elements, the encoder writes code words, whatever the decoder returns is a code word, and up to eight wrong bytes
    are corrected exactly.
  \<^item> \<^verbatim>\<open>CRC32\<close>: \<^verbatim>\<open>tools/fsck.beamfs/crc32.c\<close>. The table-driven loop is the bit-serial CRC; bursts of up to 32 bits are
    detected.
  \<^item> \<^verbatim>\<open>Edac\<close>: \<^verbatim>\<open>edac.c\<close>. The kernel's \<^verbatim>\<open>lib/reed_solomon\<close> and \<^verbatim>\<open>lib/crc32\<close> are not under \<^verbatim>\<open>src/\<close>: they are fields of
    the environment \<open>rs_env\<close>, and the locale \<open>rs_library\<close> states what their documentation promises. It is interpreted on
    the port of the checker (\<open>port\<close>). Shown: both layouts of sixteen code words in a block round trip through damage
    within the radius, and a burst of 128 bytes in the woven layout is corrected.
  \<^item> \<^verbatim>\<open>Super\<close>: the image, the journal and the start of the mount in \<^verbatim>\<open>super.c\<close>; the locale \<open>kernel_lib\<close> adds the CRC.
  \<^item> \<^verbatim>\<open>Treecheck\<close>: \<^verbatim>\<open>treecheck.c\<close>, as a refinement of a map from slots to blocks.
  \<^item> \<^verbatim>\<open>Alloc\<close>, \<^verbatim>\<open>Alloc_Correct\<close>: \<^verbatim>\<open>alloc.c\<close>. Bitmaps (a set bit is free), their coded image, reservation windows, inode
    numbers. The invariant \<open>alloc_inv\<close> ties the counters to the bitmap; the step relation \<open>alloc_step\<close> orders
    allocations and releases; the locale \<open>bitmap_lib\<close> is what the image needs of the codec.
  \<^item> \<^verbatim>\<open>Volume\<close>: the mounted volume. The record \<open>volume\<close> extends the allocator's \<open>sb_alloc\<close>, which extends
    \<open>beamfs_sb_info\<close>: each theory works on the part it needs and every later one applies to the extension.
    Also \<^verbatim>\<open>alert.c\<close>, \<^verbatim>\<open>budget.c\<close>, \<^verbatim>\<open>clock.c\<close> and \<^verbatim>\<open>beamfs_bread\<close>.
  \<^item> \<^verbatim>\<open>Dirent\<close>, \<^verbatim>\<open>Dirblock\<close>: \<^verbatim>\<open>dirent.c\<close> and the loops of \<^verbatim>\<open>dir.c\<close> and \<^verbatim>\<open>namei.c\<close> over one directory block.
  \<^item> \<^verbatim>\<open>IndParity\<close>: \<^verbatim>\<open>indparity.c\<close>, the checksums or parities of the blocks of pointers, and the per-CPU decode cache.
  \<^item> \<^verbatim>\<open>Inode\<close>: \<^verbatim>\<open>inode.c\<close> and the inode writer of \<^verbatim>\<open>namei.c\<close>.
  \<^item> \<^verbatim>\<open>Frame\<close>: the relations that say what a step leaves alone. \<open>keeps\<close> for steps that read, correct and
    journal; \<open>alters D B\<close> for steps that may change the inodes \<open>D\<close> and the blocks \<open>B\<close>; \<open>changes\<close> when what was allocated
    stays so. The composed proofs are about these relations, not about the records.
  \<^item> \<^verbatim>\<open>Dir\<close>, \<^verbatim>\<open>Dir_Correct\<close>, \<^verbatim>\<open>Dir_Read\<close>: directories over their blocks. The specification is the list of live
    entries (\<open>dir_rep\<close>); lookup, addition, removal and reading are shown against it. \<open>dot_emitter\<close> is the contract of
    the kernel's \<^verbatim>\<open>dir_emit_dots\<close>.
  \<^item> \<^verbatim>\<open>DataBlock\<close>: the data block of \<^verbatim>\<open>file_inline.c\<close> in its two layouts: 3824 bytes in sixteen alternating code
    words, or 3808 bytes with a descriptor in woven ones.
  \<^item> \<^verbatim>\<open>BlockTree\<close>, \<^verbatim>\<open>BlockTree_Correct\<close>: lookup and allocation over direct, indirect, double and triple indirect
    pointers. The specification is the partial function \<open>file_map\<close> of a file; \<open>file_ok\<close> is the invariant of its tree.
  \<^item> \<^verbatim>\<open>Truncate\<close>, \<^verbatim>\<open>Truncate_Correct\<close>, \<^verbatim>\<open>Truncate_Props\<close>: release of a tree in part (\<^verbatim>\<open>beamfs_inline_free_blocks_from\<close>,
    \<^verbatim>\<open>beamfs_inline_setattr\<close>) and whole (\<^verbatim>\<open>beamfs_evict_inode\<close>). \<open>releases D B F\<close> says which blocks \<open>F\<close> a step frees,
    \<open>file_cut\<close> which part of the map it keeps.
  \<^item> \<^verbatim>\<open>Namei\<close>, \<^verbatim>\<open>Namei_Correct\<close>, \<^verbatim>\<open>Namei_Props\<close>, \<^verbatim>\<open>Namei_Dirs\<close>, \<^verbatim>\<open>Namei_Sym\<close>, \<^verbatim>\<open>Namei_Reopen\<close>: the operations of \<^verbatim>\<open>namei.c\<close> on names, each
    whole with its path back: \<^verbatim>\<open>beamfs_create\<close>, \<^verbatim>\<open>beamfs_mkdir\<close>, \<^verbatim>\<open>beamfs_unlink\<close>, \<^verbatim>\<open>beamfs_rmdir\<close>, \<^verbatim>\<open>beamfs_link\<close>,
    \<^verbatim>\<open>beamfs_symlink\<close>, \<^verbatim>\<open>beamfs_get_link\<close> and \<^verbatim>\<open>beamfs_rename\<close>. The specification is a map from directories to lists of entries
    (\<open>dirs_rep\<close>), which additions and removals update at one directory. Shown: what creation leaves on every
    way out, and that a created file read again is the one created; \<^verbatim>\<open>unlink\<close> and \<^verbatim>\<open>rmdir\<close> remove one entry and
    \<^verbatim>\<open>rmdir\<close> only an empty directory; what a rename to a name that was not there leaves on every way out, the errors
    after the move among them; and a short symbolic link reads back as its target. \<^verbatim>\<open>inode_init_owner\<close> is an argument. The
    definitions of \<^verbatim>\<open>mkdir\<close>, \<^verbatim>\<open>link\<close>, renaming over a target and long symbolic links carry no theorem of their own.

  \<^bold>\<open>Conventions.\<close> An operation takes the volume and returns it with its result; errors are values of
  \<open>errno + 'a\<close> or \<open>errno option\<close>, without their sign. A block of the device is a buffer in \<open>s_blk\<close>: \<^const>\<open>None\<close> is a
  block that cannot be read. Memory that may be missing is a flag of the volume (\<open>s_scratch_ok\<close>, \<open>s_copy_ok\<close>,
  \<open>s_getblk_ok\<close>, \<open>s_inode_ok\<close>), clocks are \<open>s_clk\<close>, and the arrays the code leaves uninitialised are arguments named
  \<open>stale\<close>. Block numbers are \<^typ>\<open>nat\<close> in the volume and 64-bit words on the medium; \<open>layout_ok\<close> says they fit.

  \<^bold>\<open>Bounds and fuel.\<close> No definition uses fuel. Loops over words, slots and records are structural or have a
  measure: a record of a directory is at least sixteen bytes long, the search of a window ends after the bitmap has been
  seen once, the search for worn blocks moves forward to the end of the volume and does not start over.

  \<^bold>\<open>Not modelled.\<close> Locks and threads: an operation runs alone, as its mutex makes it do, and the interleaving of
  operations is a sequence of whole operations. The page cache and the parts of \<^verbatim>\<open>file.c\<close> and \<^verbatim>\<open>file_inline.c\<close> that call iomap
  and writeback, whose code is the kernel's. Log lines and tracepoints, except the journal on the medium. The scrubber
  (\<^verbatim>\<open>scrub.c\<close>), a thread that reads the blocks again; the end of the mount, statfs and the files under sysfs in \<^verbatim>\<open>super.c\<close>;
  the formatter and the passes of the checker; the benchmark \<^verbatim>\<open>rsbench.c\<close>.
\<close>

end
